(* ===== verification/Prelude.thy ===== *)
theory Prelude
  imports Main "HOL-Library.Word" "HOL-Library.Multiset"
begin

text \<open>
  Shared vocabulary of the development: the C integer types as words, the
  byte-addressed memory a C pointer reads, and the bit-level and list lemmas that
  the component theories use.
\<close>

unbundle bit_operations_syntax

subsection \<open>C types\<close>

type_synonym u8 = "8 word"
type_synonym u16 = "16 word"
type_synonym u32 = "32 word"
type_synonym u64 = "64 word"
type_synonym bytes = "u8 list"

text \<open>The memory seen through an \<open>unsigned char *p\<close>: \<open>p i\<close> is the byte \<open>p[i]\<close>.\<close>
type_synonym mem = "nat \<Rightarrow> u8"

text \<open>The memory that holds a byte string followed by zero bytes.\<close>
definition mem_of :: "bytes \<Rightarrow> mem" where
  "mem_of bs = (\<lambda>i. if i < length bs then bs ! i else 0)"

text \<open>\<open>memcpy(p + i, bs, length bs)\<close>.\<close>
definition mem_write :: "mem \<Rightarrow> nat \<Rightarrow> bytes \<Rightarrow> mem" where
  "mem_write p i bs = (\<lambda>j. if i \<le> j \<and> j < i + length bs then bs ! (j - i) else p j)"

text \<open>C's conversion of an integer to \<open>int\<close> and \<open>long long\<close> (two's complement).\<close>
definition to_i32 :: "int \<Rightarrow> int" where
  "to_i32 x = signed_take_bit 31 x"

definition to_i64 :: "int \<Rightarrow> int" where
  "to_i64 x = signed_take_bit 63 x"

abbreviation LARGEST_INT64 :: int where
  "LARGEST_INT64 \<equiv> 9223372036854775807"

abbreviation SMALLEST_INT64 :: int where
  "SMALLEST_INT64 \<equiv> - 9223372036854775808"

definition is_i64 :: "int \<Rightarrow> bool" where
  "is_i64 x \<longleftrightarrow> SMALLEST_INT64 \<le> x \<and> x \<le> LARGEST_INT64"

text \<open>C's integer division and remainder truncate towards zero.\<close>
definition c_div :: "int \<Rightarrow> int \<Rightarrow> int" where
  "c_div a b = sgn a * sgn b * (\<bar>a\<bar> div \<bar>b\<bar>)"

definition c_mod :: "int \<Rightarrow> int \<Rightarrow> int" where
  "c_mod a b = a - c_div a b * b"

text \<open>The decimal text of an integer, as \<open>printf\<close>'s \<open>%d\<close> writes it, in ASCII.\<close>
fun nat_decimal :: "nat \<Rightarrow> bytes" where
  "nat_decimal n =
     (if n < 10 then [word_of_nat (48 + n)]
      else nat_decimal (n div 10) @ [word_of_nat (48 + n mod 10)])"

declare nat_decimal.simps [simp del]

definition decimal :: "int \<Rightarrow> bytes" where
  "decimal x = (if x < 0 then 0x2d # nat_decimal (nat (- x)) else nat_decimal (nat x))"

subsection \<open>Collections\<close>

named_theorems bitblast \<open>facts that evaluate a bit of a word at a numeral position\<close>

subsection \<open>Words bit by bit\<close>

lemma bit_u8_ge [bitblast]: "8 \<le> n \<Longrightarrow> bit (b :: u8) n \<longleftrightarrow> False"
  using bit_imp_le_length [of b n] by auto

lemma bit_u32_ge [bitblast]: "32 \<le> n \<Longrightarrow> bit (b :: u32) n \<longleftrightarrow> False"
  using bit_imp_le_length [of b n] by auto

lemma bit_u64_ge [bitblast]: "64 \<le> n \<Longrightarrow> bit (b :: u64) n \<longleftrightarrow> False"
  using bit_imp_le_length [of b n] by auto

declare bit_simps [bitblast]

lemma upto_8: "[0..<8] =
    [0, 1, 2, 3, 4, 5, 6, 7]"
  by (simp add: upt_rec)

lemma upto_16: "[0..<16] =
    [0, 1, 2, 3, 4, 5, 6, 7, 8, 9, 10, 11, 12, 13, 14, 15]"
  by (simp add: upt_rec)

lemma upto_32: "[0..<32] =
    [0, 1, 2, 3, 4, 5, 6, 7, 8, 9, 10, 11, 12, 13, 14, 15, 16, 17, 18, 19, 20, 21, 22,
     23, 24, 25, 26, 27, 28, 29, 30, 31]"
  by (simp add: upt_rec)

lemma upto_64: "[0..<64] =
    [0, 1, 2, 3, 4, 5, 6, 7, 8, 9, 10, 11, 12, 13, 14, 15, 16, 17, 18, 19, 20, 21, 22,
     23, 24, 25, 26, 27, 28, 29, 30, 31, 32, 33, 34, 35, 36, 37, 38, 39, 40, 41, 42,
     43, 44, 45, 46, 47, 48, 49, 50, 51, 52, 53, 54, 55, 56, 57, 58, 59, 60, 61, 62, 63]"
  by (simp add: upt_rec)

text \<open>Two words are equal when they agree at each position, listed one by one.\<close>

lemma u8_eq_by_bits:
  "list_all (\<lambda>n. bit a n = bit b n)
    [0, 1, 2, 3, 4, 5, 6, 7] \<Longrightarrow> a = (b :: u8)"
  unfolding upto_8 [symmetric] by (rule bit_word_eqI) (simp add: list_all_iff)

lemma u16_eq_by_bits:
  "list_all (\<lambda>n. bit a n = bit b n)
    [0, 1, 2, 3, 4, 5, 6, 7, 8, 9, 10, 11, 12, 13, 14, 15] \<Longrightarrow> a = (b :: u16)"
  unfolding upto_16 [symmetric] by (rule bit_word_eqI) (simp add: list_all_iff)

lemma u32_eq_by_bits:
  "list_all (\<lambda>n. bit a n = bit b n)
    [0, 1, 2, 3, 4, 5, 6, 7, 8, 9, 10, 11, 12, 13, 14, 15, 16, 17, 18, 19, 20, 21, 22,
     23, 24, 25, 26, 27, 28, 29, 30, 31] \<Longrightarrow> a = (b :: u32)"
  unfolding upto_32 [symmetric] by (rule bit_word_eqI) (simp add: list_all_iff)

lemma u64_eq_by_bits:
  "list_all (\<lambda>n. bit a n = bit b n)
    [0, 1, 2, 3, 4, 5, 6, 7, 8, 9, 10, 11, 12, 13, 14, 15, 16, 17, 18, 19, 20, 21, 22,
     23, 24, 25, 26, 27, 28, 29, 30, 31, 32, 33, 34, 35, 36, 37, 38, 39, 40, 41, 42,
     43, 44, 45, 46, 47, 48, 49, 50, 51, 52, 53, 54, 55, 56, 57, 58, 59, 60, 61, 62, 63] \<Longrightarrow> a = (b :: u64)"
  unfolding upto_64 [symmetric] by (rule bit_word_eqI) (simp add: list_all_iff)

lemma high_bits_clear:
  fixes v :: "'a :: len word"
  assumes "unat v < 2 ^ k" "k \<le> n"
  shows "\<not> bit v n"
proof -
  have "(2::nat) ^ k \<le> 2 ^ n" using assms(2) by simp
  with assms(1) have "unat v < 2 ^ n" by (rule less_le_trans)
  then have "unat v div 2 ^ n = 0" by simp
  then have "\<not> bit (unat v) n" by (simp add: bit_iff_odd)
  then show ?thesis by (simp add: bit_unsigned_iff)
qed

subsection \<open>Bytes as digits\<close>

lemma or_low: "256 * a OR b = 256 * a + b" if "0 \<le> b" "b < 256" for a b :: int
proof -
  have "take_bit 8 b = b" using that by (simp add: take_bit_int_eq_self)
  then have b: "bit b n \<Longrightarrow> n < 8" for n by (metis bit_take_bit_iff)
  have "push_bit 8 a + b = push_bit 8 a OR b"
  proof (rule disjunctive_add)
    show "\<not> bit (push_bit 8 a) n \<or> \<not> bit b n" for n using b [of n] by (auto simp: bit_simps)
  qed
  then show ?thesis by (simp add: push_bit_eq_mult mult.commute)
qed

lemma byte_range: "0 \<le> uint (b :: u8)" "uint (b :: u8) < 256"
  using uint_lt2p [of b] by simp_all

subsection \<open>Decimal text\<close>

text \<open>The number a string of ASCII digits denotes.\<close>
definition num_of :: "bytes \<Rightarrow> nat" where
  "num_of bs = foldl (\<lambda>n c. 10 * n + (unat c - 48)) 0 bs"

lemma foldl_zeros: "foldl (\<lambda>n c. 10 * n + (unat c - 48)) 0 (replicate k (0x30 :: u8)) = 0"
  by (induction k) simp_all

lemma digit_value: "d < 10 \<Longrightarrow> unat (word_of_nat (48 + d) :: u8) = 48 + d"
  by (simp add: unsigned_of_nat take_bit_nat_eq_self del: of_nat_add)

lemma num_of_decimal: "num_of (nat_decimal n) = n"
proof (induction n rule: nat_decimal.induct)
  case (1 n)
  show ?case
  proof (cases "n < 10")
    case True
    then show ?thesis using digit_value [of n] by (simp add: nat_decimal.simps [of n] num_of_def)
  next
    case False
    then have "num_of (nat_decimal n) = 10 * num_of (nat_decimal (n div 10)) + n mod 10"
      using digit_value [of "n mod 10"] by (simp add: nat_decimal.simps [of n] num_of_def)
    then show ?thesis using 1 False by simp
  qed
qed

lemma length_decimal: "0 < k \<Longrightarrow> n < 10 ^ k \<Longrightarrow> length (nat_decimal n) \<le> k"
proof (induction n arbitrary: k rule: nat_decimal.induct)
  case (1 n)
  show ?case
  proof (cases "n < 10")
    case False
    then obtain j where j: "k = Suc j" "0 < j" using 1(2,3) by (cases k; cases "k - 1") auto
    then have "n div 10 < 10 ^ j" using 1(3) by (simp add: less_mult_imp_div_less mult.commute)
    then show ?thesis using 1(1) [OF False j(2)] False j by (simp add: nat_decimal.simps [of n])
  qed (use 1 in \<open>simp add: nat_decimal.simps [of n]\<close>)
qed

end
