(* ===== verification/Varint.thy ===== *)
theory Varint
  imports Prelude
begin

text \<open>
  The variable-length integer codec of the vendored SQLite library
  (\<open>src/db/sqlite3.c\<close>, the part that comes from \<open>util.c\<close>), which encodes every
  integer of the result database that \<open>db/logger.mbt\<close> writes, and the
  four-byte big-endian reads and writes next to it.
\<close>

section \<open>Writing\<close>

text \<open>
  \<open>putVarint64\<close>, first branch: \<open>for(i=7; i>=0; i--)\<close> writes \<open>p[i]\<close>.  The argument
  is \<open>i + 1\<close>, so that the loop ends at 0.
\<close>
fun putVarint64_nine :: "nat \<Rightarrow> u64 \<Rightarrow> mem \<Rightarrow> mem" where
  "putVarint64_nine 0 v p = p"
| "putVarint64_nine (Suc i) v p =
     putVarint64_nine i (drop_bit 7 v) (p(i := ucast ((v AND 0x7f) OR 0x80)))"

text \<open>
  The \<open>do ... while\<close> loop that fills \<open>buf\<close>: the bytes it stores from the current
  position on, for the current \<open>v\<close>.
\<close>
function putVarint64_buf :: "u64 \<Rightarrow> bytes" where
  "putVarint64_buf v =
     ucast ((v AND 0x7f) OR 0x80) #
     (if drop_bit 7 v \<noteq> 0 then putVarint64_buf (drop_bit 7 v) else [])"
  by pat_completeness auto
termination
proof (relation "measure unat", goal_cases)
  case 1
  show ?case by simp
next
  case (2 v)
  then have "v \<noteq> 0" by auto
  then have "0 < unat v" by (simp add: unat_gt_0)
  then show ?case by (simp add: drop_bit_eq_div unat_div)
qed

declare putVarint64_buf.simps [simp del]

text \<open>
  \<open>buf[0] &= 0x7f\<close>, then \<open>for(i=0, j=n-1; j>=0; j--, i++) p[i] = buf[j]\<close>.
\<close>
definition putVarint64 :: "mem \<Rightarrow> u64 \<Rightarrow> nat \<times> mem" where
  "putVarint64 p v =
     (if v AND push_bit 32 0xff000000 \<noteq> 0
      then (9, putVarint64_nine 8 (drop_bit 8 v) (p(8 := ucast v)))
      else (let buf = putVarint64_buf v;
                buf = buf[0 := buf ! 0 AND 0x7f];
                n = length buf
            in (n, mem_write p 0 (rev buf))))"

definition sqlite3PutVarint :: "mem \<Rightarrow> u64 \<Rightarrow> nat \<times> mem" where
  "sqlite3PutVarint p v =
     (if v \<le> 0x7f then (1, p(0 := ucast (v AND 0x7f)))
      else if v \<le> 0x3fff
      then (2, p(0 := ucast ((drop_bit 7 v AND 0x7f) OR 0x80), 1 := ucast (v AND 0x7f)))
      else putVarint64 p v)"

section \<open>Reading\<close>

abbreviation SLOT_2_0 :: u32 where "SLOT_2_0 \<equiv> 0x001fc07f"
abbreviation SLOT_4_2_0 :: u32 where "SLOT_4_2_0 \<equiv> 0xf01fc07f"

text \<open>
  \<open>sqlite3GetVarint\<close>, the unrolled decoder on 32-bit accumulators.  The moving
  pointer \<open>p\<close> of the source is written as an offset from its first value.
\<close>
definition sqlite3GetVarint :: "mem \<Rightarrow> u64 \<times> nat" where
  "sqlite3GetVarint p =
     (if 0 \<le> sint (p 0) then (ucast (p 0), 1)
      else if 0 \<le> sint (p 1)
      then (ucast (push_bit 7 (ucast (p 0 AND 0x7f)) OR ucast (p 1) :: u32), 2)
      else
      let a = push_bit 14 (ucast (p 0) :: u32);
          b = ucast (p 1) :: u32;
          a = a OR ucast (p 2)
      in if a AND 0x80 = 0
         then (let a = a AND SLOT_2_0; b = b AND 0x7f; b = push_bit 7 b; a = a OR b
               in (ucast a, 3))
      else
      let a = a AND SLOT_2_0;
          b = push_bit 14 b;
          b = b OR ucast (p 3)
      in if b AND 0x80 = 0
         then (let b = b AND SLOT_2_0; a = push_bit 7 a; a = a OR b in (ucast a, 4))
      else
      let b = b AND SLOT_2_0;
          s = a;
          a = push_bit 14 a;
          a = a OR ucast (p 4)
      in if a AND 0x80 = 0
         then (let b = push_bit 7 b; a = a OR b; s = drop_bit 18 s
               in (push_bit 32 (ucast s) OR ucast a, 5))
      else
      let s = push_bit 7 s;
          s = s OR b;
          b = push_bit 14 b;
          b = b OR ucast (p 5)
      in if b AND 0x80 = 0
         then (let a = a AND SLOT_2_0; a = push_bit 7 a; a = a OR b; s = drop_bit 18 s
               in (push_bit 32 (ucast s) OR ucast a, 6))
      else
      let a = push_bit 14 a;
          a = a OR ucast (p 6)
      in if a AND 0x80 = 0
         then (let a = a AND SLOT_4_2_0; b = b AND SLOT_2_0; b = push_bit 7 b; a = a OR b;
                   s = drop_bit 11 s
               in (push_bit 32 (ucast s) OR ucast a, 7))
      else
      let a = a AND SLOT_2_0;
          b = push_bit 14 b;
          b = b OR ucast (p 7)
      in if b AND 0x80 = 0
         then (let b = b AND SLOT_4_2_0; a = push_bit 7 a; a = a OR b; s = drop_bit 4 s
               in (push_bit 32 (ucast s) OR ucast a, 8))
      else
      let a = push_bit 15 a;
          a = a OR ucast (p 8);
          b = b AND SLOT_2_0;
          b = push_bit 8 b;
          a = a OR b;
          s = push_bit 4 s;
          b = ucast (p 4);
          b = b AND 0x7f;
          b = drop_bit 3 b;
          s = s OR b
      in (push_bit 32 (ucast s) OR ucast a, 9))"

text \<open>
  \<open>sqlite3GetVarint32\<close>; its assertion that the one-byte case was handled by the
  \<open>getVarint32\<close> macro is the second function.
\<close>
definition sqlite3GetVarint32 :: "mem \<Rightarrow> u32 \<times> nat" where
  "sqlite3GetVarint32 p =
     (if p 1 AND 0x80 = 0
      then (push_bit 7 (ucast (p 0 AND 0x7f)) OR ucast (p 1), 2)
      else if p 2 AND 0x80 = 0
      then (push_bit 14 (ucast (p 0 AND 0x7f)) OR push_bit 7 (ucast (p 1 AND 0x7f))
              OR ucast (p 2), 3)
      else (let (v64, n) = sqlite3GetVarint p
            in (if v64 AND 0xffffffff \<noteq> v64 then 0xffffffff else ucast v64, n)))"

definition getVarint32 :: "mem \<Rightarrow> u32 \<times> nat" where
  "getVarint32 p = (if p 0 < 0x80 then (ucast (p 0), 1) else sqlite3GetVarint32 p)"

text \<open>\<open>sqlite3VarintLen\<close>: \<open>for(i=1; (v >>= 7)!=0; i++)\<close>.\<close>
function varintLen_loop :: "u64 \<Rightarrow> nat \<Rightarrow> nat" where
  "varintLen_loop v i = (let v = drop_bit 7 v in if v \<noteq> 0 then varintLen_loop v (i + 1) else i)"
  by pat_completeness auto
termination
proof (relation "measure (\<lambda>(v, i). unat v)", goal_cases)
  case 1
  show ?case by simp
next
  case (2 v i x)
  then have "v \<noteq> 0" by auto
  then have "0 < unat v" by (simp add: unat_gt_0)
  then show ?case using 2 by (simp add: drop_bit_eq_div unat_div)
qed

declare varintLen_loop.simps [simp del]

definition sqlite3VarintLen :: "u64 \<Rightarrow> nat" where
  "sqlite3VarintLen v = varintLen_loop v 1"

section \<open>The format, read byte by byte\<close>

text \<open>
  The encoding as the comment above \<open>putVarint64\<close> describes it: seven bits per byte,
  most significant first, the eighth bit set on every byte but the last, and all
  eight bits of a ninth byte.
\<close>
function varint_spec :: "nat \<Rightarrow> u64 \<Rightarrow> mem \<Rightarrow> u64 \<times> nat" where
  "varint_spec k acc p =
     (if k \<ge> 8 then (push_bit 8 acc OR ucast (p k), k + 1)
      else if bit (p k) 7
      then varint_spec (k + 1) (push_bit 7 acc OR ucast (p k AND 0x7f)) p
      else (push_bit 7 acc OR ucast (p k), k + 1))"
  by pat_completeness auto
termination
  by (relation "measure (\<lambda>(k, acc, p). 8 - k)") auto

declare varint_spec.simps [simp del]

lemma u32_and_0x80 [bitblast]: "(a :: u32) AND 0x80 = 0 \<longleftrightarrow> \<not> bit a 7"
  using and_exp_eq_0_iff_not_bit [of a 7] by simp

lemma u8_and_0x80 [bitblast]: "(a :: u8) AND 0x80 = 0 \<longleftrightarrow> \<not> bit a 7"
  using and_exp_eq_0_iff_not_bit [of a 7] by simp

lemma u8_sint_nonneg [bitblast]: "0 \<le> sint (a :: u8) \<longleftrightarrow> \<not> bit a 7"
  using bit_last_iff [of a] by (simp add: linorder_not_less)

lemma getVarint_case_1:
  assumes "\<not> bit (p 0) 7"
  shows "sqlite3GetVarint p = varint_spec 0 0 p"
  apply (simp add: sqlite3GetVarint_def varint_spec.simps Let_def assms bitblast
      del: One_nat_def)
  done

lemma getVarint_case_2:
  assumes "bit (p 0) 7" "\<not> bit (p 1) 7"
  shows "sqlite3GetVarint p = varint_spec 0 0 p"
  apply (simp add: sqlite3GetVarint_def varint_spec.simps Let_def assms bitblast
      del: One_nat_def)
  apply (rule u64_eq_by_bits)
  apply (simp add: bitblast assms)
  done

lemma getVarint_case_3:
  assumes "bit (p 0) 7" "bit (p 1) 7" "\<not> bit (p 2) 7"
  shows "sqlite3GetVarint p = varint_spec 0 0 p"
  apply (simp add: sqlite3GetVarint_def varint_spec.simps Let_def assms bitblast
      del: One_nat_def)
  apply (rule u64_eq_by_bits)
  apply (simp add: bitblast assms)
  done

lemma getVarint_case_4:
  assumes "bit (p 0) 7" "bit (p 1) 7" "bit (p 2) 7" "\<not> bit (p 3) 7"
  shows "sqlite3GetVarint p = varint_spec 0 0 p"
  apply (simp add: sqlite3GetVarint_def varint_spec.simps Let_def assms bitblast
      del: One_nat_def)
  apply (rule u64_eq_by_bits)
  apply (simp add: bitblast assms)
  done

lemma getVarint_case_5:
  assumes "bit (p 0) 7" "bit (p 1) 7" "bit (p 2) 7" "bit (p 3) 7" "\<not> bit (p 4) 7"
  shows "sqlite3GetVarint p = varint_spec 0 0 p"
  apply (simp add: sqlite3GetVarint_def varint_spec.simps Let_def assms bitblast
      del: One_nat_def)
  apply (rule u64_eq_by_bits)
  apply (simp add: bitblast assms)
  done

lemma getVarint_case_6:
  assumes "bit (p 0) 7" "bit (p 1) 7" "bit (p 2) 7" "bit (p 3) 7" "bit (p 4) 7" "\<not> bit (p 5) 7"
  shows "sqlite3GetVarint p = varint_spec 0 0 p"
  apply (simp add: sqlite3GetVarint_def varint_spec.simps Let_def assms bitblast
      del: One_nat_def)
  apply (rule u64_eq_by_bits)
  apply (simp add: bitblast assms)
  done

lemma getVarint_case_7:
  assumes "bit (p 0) 7" "bit (p 1) 7" "bit (p 2) 7" "bit (p 3) 7" "bit (p 4) 7" "bit (p 5) 7" "\<not> bit (p 6) 7"
  shows "sqlite3GetVarint p = varint_spec 0 0 p"
  apply (simp add: sqlite3GetVarint_def varint_spec.simps Let_def assms bitblast
      del: One_nat_def)
  apply (rule u64_eq_by_bits)
  apply (simp add: bitblast assms)
  done

lemma getVarint_case_8:
  assumes "bit (p 0) 7" "bit (p 1) 7" "bit (p 2) 7" "bit (p 3) 7" "bit (p 4) 7" "bit (p 5) 7" "bit (p 6) 7" "\<not> bit (p 7) 7"
  shows "sqlite3GetVarint p = varint_spec 0 0 p"
  apply (simp add: sqlite3GetVarint_def varint_spec.simps Let_def assms bitblast
      del: One_nat_def)
  apply (rule u64_eq_by_bits)
  apply (simp add: bitblast assms)
  done

lemma getVarint_case_9:
  assumes "bit (p 0) 7" "bit (p 1) 7" "bit (p 2) 7" "bit (p 3) 7" "bit (p 4) 7" "bit (p 5) 7" "bit (p 6) 7" "bit (p 7) 7"
  shows "sqlite3GetVarint p = varint_spec 0 0 p"
  apply (simp add: sqlite3GetVarint_def varint_spec.simps Let_def assms bitblast
      del: One_nat_def)
  apply (rule u64_eq_by_bits)
  apply (simp add: bitblast assms)
  done

lemma getVarint_eq_spec: "sqlite3GetVarint p = varint_spec 0 0 p"
  using getVarint_case_1 [of p] getVarint_case_2 [of p] getVarint_case_3 [of p]
    getVarint_case_4 [of p] getVarint_case_5 [of p] getVarint_case_6 [of p]
    getVarint_case_7 [of p] getVarint_case_8 [of p] getVarint_case_9 [of p]
  by blast

section \<open>Reading back what was written\<close>

abbreviation varint_fold :: "u64 \<Rightarrow> bytes \<Rightarrow> u64" where
  "varint_fold \<equiv> foldl (\<lambda>a b. push_bit 7 a OR ucast (b AND 0x7f))"

lemma varint_spec_run:
  assumes "\<forall>i < length bs. p (k + i) = bs ! i" "bs \<noteq> []" "k + length bs \<le> 8"
    and "\<forall>b \<in> set (butlast bs). bit b 7" "\<not> bit (last bs) 7"
  shows "varint_spec k acc p = (varint_fold acc bs, k + length bs)"
  using assms
proof (induction bs arbitrary: k acc)
  case (Cons b bs)
  have b: "p k = b" using Cons.prems(1) by force
  show ?case
  proof (cases "bs = []")
    case True
    have "b AND 0x7f = b"
      using Cons.prems(5) True by (intro u8_eq_by_bits) (simp add: bitblast)
    then show ?thesis using Cons.prems True b by (simp add: varint_spec.simps [of k])
  next
    case False
    have step: "varint_spec k acc p = varint_spec (k + 1) (push_bit 7 acc OR ucast (b AND 0x7f)) p"
      using Cons.prems False b by (simp add: varint_spec.simps [of k])
    have p: "p (Suc (k + i)) = bs ! i" if "i < length bs" for i
      using Cons.prems(1) [rule_format, of "Suc i"] that by simp
    show ?thesis
      unfolding step using Cons.prems False
      by (subst Cons.IH) (auto simp: p)
  qed
qed simp

lemma putVarint64_buf_fold: "varint_fold 0 (rev (putVarint64_buf v)) = v"
proof (induction v rule: putVarint64_buf.induct)
  case (1 v)
  have last: "push_bit 7 (drop_bit 7 v) OR ucast (ucast ((v AND 0x7f) OR 0x80) AND (0x7f :: u8)) = v"
    by (rule u64_eq_by_bits) (simp add: bitblast)
  show ?case
  proof (cases "drop_bit 7 v = 0")
    case True
    then show ?thesis using last by (simp add: putVarint64_buf.simps [of v])
  next
    case False
    then show ?thesis using last 1 by (simp add: putVarint64_buf.simps [of v])
  qed
qed

lemma putVarint64_buf_bit7: "\<forall>b \<in> set (putVarint64_buf v). bit b 7"
proof (induction v rule: putVarint64_buf.induct)
  case (1 v)
  have "bit (ucast ((v AND 0x7f) OR 0x80) :: u8) 7" by (simp add: bitblast)
  then show ?case using 1 by (simp add: putVarint64_buf.simps [of v])
qed

lemma drop_bit_7_less: "unat (v :: u64) < 2 ^ (7 * Suc k) \<Longrightarrow> unat (drop_bit 7 v) < 2 ^ (7 * k)"
  by (simp add: drop_bit_eq_div unat_div less_mult_imp_div_less power_add mult.commute)

lemma putVarint64_buf_length: "unat v < 2 ^ (7 * Suc k) \<Longrightarrow> length (putVarint64_buf v) \<le> Suc k"
proof (induction k arbitrary: v)
  case 0
  then have "drop_bit 7 v = 0" using drop_bit_7_less [of v 0] by (simp add: unat_eq_0)
  then show ?case by (simp add: putVarint64_buf.simps [of v])
next
  case (Suc k)
  have "length (putVarint64_buf (drop_bit 7 v)) \<le> Suc k"
    using Suc.IH drop_bit_7_less Suc.prems by blast
  then show ?case by (simp add: putVarint64_buf.simps [of v])
qed

lemma top_byte_clear: "(v :: u64) AND 0xff00000000000000 = 0 \<longleftrightarrow> unat v < 2 ^ 56"
proof
  assume "v AND 0xff00000000000000 = 0"
  then have "bit (v AND 0xff00000000000000) n \<longleftrightarrow> False" for n by simp
  from this [of 56] this [of 57] this [of 58] this [of 59] this [of 60] this [of 61]
    this [of 62] this [of 63]
  have "drop_bit 56 v = 0" by (intro u64_eq_by_bits) (simp add: bitblast)
  then show "unat v < 2 ^ 56"
    by (simp add: drop_bit_eq_div unat_eq_0 [symmetric] unat_div div_eq_0_iff)
next
  assume "unat v < 2 ^ 56"
  note hi = high_bits_clear [OF this]
  show "v AND 0xff00000000000000 = 0"
    by (rule u64_eq_by_bits) (simp add: bitblast hi)
qed

lemma putVarint64_nine_at:
  "putVarint64_nine n v p i =
     (if i < n then ucast ((drop_bit (7 * (n - 1 - i)) v AND 0x7f) OR 0x80) else p i)"
proof (induction n arbitrary: v p)
  case (Suc n)
  show ?case
  proof (cases "i < n")
    case True
    then have "7 * (n - 1 - i) + 7 = 7 * (n - i)" by (simp add: algebra_simps)
    with True Suc show ?thesis by (simp add: drop_bit_drop_bit)
  qed (auto simp: Suc)
qed simp

lemma varint_spec_nine:
  assumes "\<forall>i < 8. bit (q i) 7"
  shows "varint_spec 0 0 q =
    (push_bit 8 (varint_fold 0 [q 0, q 1, q 2, q 3, q 4, q 5, q 6, q 7]) OR ucast (q 8), 9)"
  using assms by (simp add: varint_spec.simps del: One_nat_def)

lemma nine_bytes:
  assumes "\<not> unat v < 2 ^ 56"
  shows "varint_spec 0 0 (snd (putVarint64 p v)) = (v, fst (putVarint64 p v))"
proof -
  define q where "q = putVarint64_nine 8 (drop_bit 8 v) (p(8 := ucast v))"
  have put: "putVarint64 p v = (9, q)"
    using assms by (simp add: putVarint64_def top_byte_clear q_def)
  have q: "q i = ucast ((drop_bit (7 * (7 - i)) (drop_bit 8 v) AND 0x7f) OR 0x80)" if "i < 8" for i
    using that by (simp add: q_def putVarint64_nine_at)
  have q8: "q 8 = ucast v" by (simp add: q_def putVarint64_nine_at)
  have "\<forall>i < 8. bit (q i) 7" by (simp add: q bitblast)
  note spec = varint_spec_nine [OF this]
  have "push_bit 8 (varint_fold 0 [q 0, q 1, q 2, q 3, q 4, q 5, q 6, q 7]) OR ucast (q 8) = v"
    by (rule u64_eq_by_bits) (simp add: q q8 bitblast)
  then show ?thesis unfolding put by (simp add: spec del: foldl_Cons)
qed

lemma short_bytes:
  assumes "unat v < 2 ^ 56"
  shows "varint_spec 0 0 (snd (putVarint64 p v)) = (v, fst (putVarint64 p v))"
proof -
  obtain b tl where buf: "putVarint64_buf v = b # tl"
    by (subst (asm) putVarint64_buf.simps) auto
  define bs where "bs = rev tl @ [b AND 0x7f]"
  have put: "putVarint64 p v = (length bs, mem_write p 0 bs)"
    using assms by (simp add: putVarint64_def top_byte_clear buf bs_def Let_def)
  have "length bs \<le> 8"
    using putVarint64_buf_length [of v 7] assms by (simp add: bs_def buf)
  moreover have "\<forall>b \<in> set tl. bit b 7" using putVarint64_buf_bit7 [of v] buf by simp
  moreover have "varint_fold 0 bs = v"
    using putVarint64_buf_fold [of v] by (simp add: bs_def buf and.assoc)
  ultimately show ?thesis
    unfolding put by (subst varint_spec_run [where bs = bs]) (auto simp: mem_write_def bs_def bitblast nth_append)
qed

lemma putVarint64_roundtrip:
  "varint_spec 0 0 (snd (putVarint64 p v)) = (v, fst (putVarint64 p v))"
  using nine_bytes short_bytes by blast

lemma putVarint64_buf_pos: "0 < length (putVarint64_buf v)"
  by (simp add: putVarint64_buf.simps [of v])

lemma putVarint64_frame:
  assumes "putVarint64 p v = (n, q)"
  shows "1 \<le> n \<and> n \<le> 9 \<and> (\<forall>i \<ge> n. q i = p i)"
proof (cases "unat v < 2 ^ 56")
  case True
  then have "n = length (putVarint64_buf v)"
    using assms by (auto simp: putVarint64_def top_byte_clear Let_def)
  moreover have "\<forall>i \<ge> n. q i = p i"
    using assms True by (auto simp: putVarint64_def top_byte_clear Let_def mem_write_def)
  ultimately show ?thesis
    using putVarint64_buf_length [of v 7] True putVarint64_buf_pos [of v]
    by (simp add: Suc_le_eq)
next
  case False
  then show ?thesis
    using assms by (auto simp: putVarint64_def top_byte_clear putVarint64_nine_at)
qed

lemma putVarint_decode:
  assumes "sqlite3PutVarint p v = (n, q)"
  shows "varint_spec 0 0 q = (v, n)"
proof -
  consider (one) "v \<le> 0x7f" | (two) "\<not> v \<le> 0x7f" "v \<le> 0x3fff" | (more) "\<not> v \<le> 0x7f" "\<not> v \<le> 0x3fff"
    by blast
  then show ?thesis
  proof cases
    case one
    then have "unat v < 2 ^ 7" by (simp add: word_le_nat_alt)
    note hi = high_bits_clear [OF this]
    have "ucast (ucast (v AND 0x7f) :: u8) = v"
      by (rule u64_eq_by_bits) (simp add: bitblast hi)
    then show ?thesis
      using assms one by (auto simp: sqlite3PutVarint_def varint_spec.simps bitblast)
  next
    case two
    then have "unat v < 2 ^ 14" by (simp add: word_le_nat_alt)
    note hi = high_bits_clear [OF this]
    have "push_bit 7 (ucast (ucast ((drop_bit 7 v AND 0x7f) OR 0x80) AND 0x7f :: u8))
            OR ucast (ucast (v AND 0x7f) :: u8) = v"
      by (rule u64_eq_by_bits) (simp add: bitblast hi)
    then show ?thesis
      using assms two by (auto simp: sqlite3PutVarint_def varint_spec.simps bitblast)
  next
    case more
    then have "putVarint64 p v = (n, q)" using assms by (simp add: sqlite3PutVarint_def)
    then show ?thesis using putVarint64_roundtrip [of p v] by simp
  qed
qed

lemma putVarint_frame:
  assumes "sqlite3PutVarint p v = (n, q)"
  shows "1 \<le> n \<and> n \<le> 9 \<and> (\<forall>i \<ge> n. q i = p i)"
  using assms putVarint64_frame
  by (fastforce simp: sqlite3PutVarint_def split: if_splits)

lemma varint_spec_local:
  assumes "varint_spec k acc p = (v, n)" "\<forall>i < n. q i = p i"
  shows "varint_spec k acc q = (v, n)"
  using assms
proof (induction k acc p rule: varint_spec.induct)
  case (1 k acc p)
  have k: "k < n"
    using "1.prems"(1)
  proof (induction k acc p rule: varint_spec.induct)
    case (1 k acc p)
    then show ?case
      by (subst (asm) (2) varint_spec.simps) (auto split: if_splits dest: Suc_lessD)
  qed
  with "1.prems" have "q k = p k" by blast
  with 1 show ?case
    by (simp add: varint_spec.simps [of k acc p] varint_spec.simps [of k acc q] split: if_splits)
qed

lemma getVarint_local:
  "sqlite3GetVarint p = (v, n) \<Longrightarrow> \<forall>i < n. q i = p i \<Longrightarrow> sqlite3GetVarint q = (v, n)"
  unfolding getVarint_eq_spec by (rule varint_spec_local)

section \<open>Codecs over memory\<close>

text \<open>
  What the readers of a record rely on: \<open>get\<close> returns what \<open>put\<close> wrote and its width,
  \<open>put\<close> touches no byte past that width, and \<open>get\<close> reads none past it.
\<close>
locale mem_codec =
  fixes put :: "mem \<Rightarrow> 'v \<Rightarrow> nat \<times> mem"
    and get :: "mem \<Rightarrow> 'v \<times> nat"
  assumes get_put: "put p v = (n, q) \<Longrightarrow> get q = (v, n)"
    and put_frame: "put p v = (n, q) \<Longrightarrow> n \<le> i \<Longrightarrow> q i = p i"
    and get_local: "get p = (v, n) \<Longrightarrow> \<forall>i < n. q i = p i \<Longrightarrow> get q = (v, n)"
begin

text \<open>Values written one after the other, each from where the last one ended.\<close>
fun put_list :: "mem \<Rightarrow> 'v list \<Rightarrow> nat \<times> mem" where
  "put_list p [] = (0, p)"
| "put_list p (v # vs) =
     (let (n, q) = put p v; (m, r) = put_list (\<lambda>i. q (n + i)) vs
      in (n + m, \<lambda>i. if i < n then q i else r (i - n)))"

fun get_list :: "nat \<Rightarrow> mem \<Rightarrow> 'v list \<times> nat" where
  "get_list 0 p = ([], 0)"
| "get_list (Suc k) p =
     (let (v, n) = get p; (vs, m) = get_list k (\<lambda>i. p (n + i)) in (v # vs, n + m))"

lemma get_list_put_list: "put_list p vs = (n, q) \<Longrightarrow> get_list (length vs) q = (vs, n)"
proof (induction vs arbitrary: p n q)
  case (Cons v vs)
  obtain m r where put: "put p v = (m, r)" by fastforce
  obtain k t where rest: "put_list (\<lambda>i. r (m + i)) vs = (k, t)" by fastforce
  have nq: "n = m + k" "q = (\<lambda>i. if i < m then r i else t (i - m))"
    using Cons.prems put rest by auto
  have "get q = (v, m)"
    using get_local [OF get_put [OF put]] by (simp add: nq)
  moreover have "(\<lambda>i. q (m + i)) = t" by (simp add: nq)
  ultimately show ?case using Cons.IH [OF rest] by (simp add: nq(1))
qed simp

end

interpretation varint: mem_codec sqlite3PutVarint sqlite3GetVarint
proof unfold_locales
  show "sqlite3PutVarint p v = (n, q) \<Longrightarrow> sqlite3GetVarint q = (v, n)" for p v n q
    unfolding getVarint_eq_spec by (rule putVarint_decode)
  show "sqlite3PutVarint p v = (n, q) \<Longrightarrow> n \<le> i \<Longrightarrow> q i = p i" for p v n q i
    using putVarint_frame by blast
  show "sqlite3GetVarint p = (v, n) \<Longrightarrow> \<forall>i < n. q i = p i \<Longrightarrow> sqlite3GetVarint q = (v, n)" for p v n q
    by (rule getVarint_local)
qed

section \<open>Four-byte big-endian integers\<close>

text \<open>The portable branch of \<open>sqlite3Get4byte\<close> and \<open>sqlite3Put4byte\<close>.\<close>
definition sqlite3Get4byte :: "mem \<Rightarrow> u32" where
  "sqlite3Get4byte p =
     push_bit 24 (ucast (p 0)) OR push_bit 16 (ucast (p 1)) OR push_bit 8 (ucast (p 2))
       OR ucast (p 3)"

definition sqlite3Put4byte :: "mem \<Rightarrow> u32 \<Rightarrow> mem" where
  "sqlite3Put4byte p v =
     p(0 := ucast (drop_bit 24 v), 1 := ucast (drop_bit 16 v), 2 := ucast (drop_bit 8 v),
       3 := ucast v)"

text \<open>
  The branch for a little-endian host: \<open>memcpy\<close> into a \<open>u32\<close> and
  \<open>__builtin_bswap32\<close>.
\<close>
definition memcpy_u32_le :: "mem \<Rightarrow> u32" where
  "memcpy_u32_le p =
     push_bit 24 (ucast (p 3)) OR push_bit 16 (ucast (p 2)) OR push_bit 8 (ucast (p 1))
       OR ucast (p 0)"

definition bswap32 :: "u32 \<Rightarrow> u32" where
  "bswap32 x =
     push_bit 24 (x AND 0xff) OR push_bit 8 (x AND 0xff00)
       OR (drop_bit 8 x AND 0xff00) OR (drop_bit 24 x AND 0xff)"

definition sqlite3Get4byte_bswap :: "mem \<Rightarrow> u32" where
  "sqlite3Get4byte_bswap p = bswap32 (memcpy_u32_le p)"

lemma get4byte_put4byte: "sqlite3Get4byte (sqlite3Put4byte p v) = v"
  unfolding sqlite3Get4byte_def sqlite3Put4byte_def
  by (rule u32_eq_by_bits) (simp add: bitblast)

lemma get4byte_bswap: "sqlite3Get4byte_bswap p = sqlite3Get4byte p"
  unfolding sqlite3Get4byte_bswap_def sqlite3Get4byte_def memcpy_u32_le_def bswap32_def
  by (rule u32_eq_by_bits) (simp add: bitblast)

interpretation be32: mem_codec "\<lambda>p v. (4, sqlite3Put4byte p v)" "\<lambda>p. (sqlite3Get4byte p, 4)"
proof unfold_locales
  show "(4, sqlite3Put4byte p v) = (n, q) \<Longrightarrow> (sqlite3Get4byte q, 4) = (v, n)" for p v n q
    using get4byte_put4byte by auto
qed (auto simp: sqlite3Put4byte_def sqlite3Get4byte_def)

section \<open>Widths\<close>

lemma putVarint64_buf_length_gt: "2 ^ (7 * k) \<le> unat v \<Longrightarrow> k < length (putVarint64_buf v)"
proof (induction k arbitrary: v)
  case 0
  then show ?case using putVarint64_buf_pos by simp
next
  case (Suc k)
  have "2 ^ (7 * k) \<le> unat v div 2 ^ 7"
    using div_le_mono [OF Suc.prems, of "2 ^ 7"] by (simp add: power_add)
  then have d: "2 ^ (7 * k) \<le> unat (drop_bit 7 v)"
    by (simp add: drop_bit_eq_div unat_div)
  then have "drop_bit 7 v \<noteq> 0" by (auto simp: le_less)
  with Suc.IH [OF d] show ?case by (simp add: putVarint64_buf.simps [of v])
qed

lemma varintLen_loop_buf: "varintLen_loop v i + 1 = i + length (putVarint64_buf v)"
proof (induction v i rule: varintLen_loop.induct)
  case (1 v i)
  then show ?case
    by (simp add: varintLen_loop.simps [of v i] putVarint64_buf.simps [of v] Let_def)
qed

lemma varintLen_buf: "sqlite3VarintLen v = length (putVarint64_buf v)"
  using varintLen_loop_buf [of v 1] by (simp add: sqlite3VarintLen_def)

lemma buf_length_eq:
  assumes "unat v < 2 ^ (7 * Suc k)" "k = 0 \<or> 2 ^ (7 * k) \<le> unat v"
  shows "length (putVarint64_buf v) = Suc k"
proof (rule le_antisym)
  show "length (putVarint64_buf v) \<le> Suc k" using assms(1) by (rule putVarint64_buf_length)
  show "Suc k \<le> length (putVarint64_buf v)"
    using putVarint64_buf_length_gt [of k v] putVarint64_buf_pos [of v] assms(2)
    unfolding Suc_le_eq by (cases "k = 0") auto
qed

lemma u8_less_0x80: "(a :: u8) < 0x80 \<longleftrightarrow> \<not> bit a 7"
proof
  assume "a < 0x80"
  then have "unat a < 2 ^ 7" by (simp add: word_less_nat_alt)
  then show "\<not> bit a 7" by (rule high_bits_clear) simp
next
  assume b: "\<not> bit a 7"
  have "a = a AND 0x7f" by (rule u8_eq_by_bits) (simp add: bitblast b)
  then have "a \<le> 0x7f" using word_and_le1 [of a "0x7f"] by metis
  then show "a < 0x80" by (simp add: word_le_nat_alt word_less_nat_alt)
qed

lemma u64_low_half: "(v :: u64) AND 0xffffffff = v \<longleftrightarrow> v \<le> 0xffffffff"
proof
  assume "v AND 0xffffffff = v"
  then show "v \<le> 0xffffffff" using word_and_le1 [of v "0xffffffff"] by metis
next
  assume "v \<le> 0xffffffff"
  then have "unat v < 2 ^ 32" by (simp add: word_le_nat_alt)
  note hi = high_bits_clear [OF this]
  show "v AND 0xffffffff = v" by (rule u64_eq_by_bits) (simp add: bitblast hi)
qed

lemma ucast_u32_le: "(ucast (w :: u32) :: u64) \<le> 0xffffffff"
proof -
  have "unat w < 2 ^ LENGTH(32)" by (rule unsigned_less)
  then show ?thesis by (simp add: word_le_nat_alt unsigned_ucast_eq take_bit_nat_eq_self)
qed

lemma ucast_u32_id: "ucast (ucast (w :: u32) :: u64) = w"
  by (rule u32_eq_by_bits) (simp add: bitblast)

lemma ucast_u8_le: "(ucast (w :: u8) :: u64) \<le> 0xffffffff"
proof -
  have "unat w < 2 ^ LENGTH(8)" by (rule unsigned_less)
  then show ?thesis by (simp add: word_le_nat_alt unsigned_ucast_eq take_bit_nat_eq_self)
qed

section \<open>Properties\<close>

text \<open>
  C12. The unrolled decoder \<open>sqlite3GetVarint\<close>, with its two interleaved 32-bit
  accumulators and masks, computes for every memory content exactly what the format
  says, byte by byte: value and number of bytes.
\<close>
theorem getVarint_matches_format: "sqlite3GetVarint p = varint_spec 0 0 p"
  by (rule getVarint_eq_spec)

text \<open>
  C11. Every 64-bit value written by \<open>sqlite3PutVarint\<close> is read back by
  \<open>sqlite3GetVarint\<close> with the same width, the width is between 1 and 9 bytes, and no
  byte past the width is written.
\<close>
theorem varint_roundtrip:
  "case sqlite3PutVarint p v of (n, q) \<Rightarrow>
     sqlite3GetVarint q = (v, n) \<and> 1 \<le> n \<and> n \<le> 9 \<and> (\<forall>i. q (n + i) = p (n + i))"
proof -
  obtain n q where put: "sqlite3PutVarint p v = (n, q)" by fastforce
  then show ?thesis using varint.get_put [OF put] putVarint_frame [OF put] by simp
qed

text \<open>
  \<open>sqlite3VarintLen\<close> is the number of bytes \<open>sqlite3PutVarint\<close> writes for every
  value below \<open>2^63\<close>; from \<open>2^63\<close> on it answers 10, one more than the nine bytes
  written.
\<close>
theorem varintLen_is_width:
  "sqlite3VarintLen v = (if unat v < 2 ^ 63 then fst (sqlite3PutVarint p v) else 10)"
proof -
  consider "v \<le> 0x7f" | "\<not> v \<le> 0x7f" "v \<le> 0x3fff" | "\<not> v \<le> 0x3fff" "unat v < 2 ^ 56"
    | "2 ^ 56 \<le> unat v" "unat v < 2 ^ 63" | "2 ^ 63 \<le> unat v"
    by linarith
  then show ?thesis
  proof cases
    case 1
    then show ?thesis
      using buf_length_eq [of v 0] by (simp add: varintLen_buf sqlite3PutVarint_def word_le_nat_alt)
  next
    case 2
    then show ?thesis
      using buf_length_eq [of v 1] by (simp add: varintLen_buf sqlite3PutVarint_def word_le_nat_alt)
  next
    case 3
    then have "\<not> v \<le> 0x7f" by (auto simp: word_le_nat_alt)
    with 3 show ?thesis
      by (simp add: varintLen_buf sqlite3PutVarint_def putVarint64_def top_byte_clear Let_def)
  next
    case 4
    then have "\<not> v \<le> 0x3fff" "\<not> v \<le> 0x7f" by (auto simp: word_le_nat_alt)
    with 4 show ?thesis
      using buf_length_eq [of v 8]
      by (simp add: varintLen_buf sqlite3PutVarint_def putVarint64_def top_byte_clear)
  next
    case 5
    moreover have "unat v < 2 ^ LENGTH(64)" by (rule unsigned_less)
    ultimately show ?thesis using buf_length_eq [of v 9] by (simp add: varintLen_buf)
  qed
qed

text \<open>
  The 32-bit reader (with the one-byte case of its macro) reads the same bytes as
  the 64-bit one and saturates a value that does not fit to \<open>0xffffffff\<close>.
\<close>
theorem getVarint32_saturates:
  "getVarint32 p =
     (case sqlite3GetVarint p of (v, n) \<Rightarrow>
        (if v \<le> 0xffffffff then ucast v else 0xffffffff, n))"
proof -
  obtain v n where get: "sqlite3GetVarint p = (v, n)" by fastforce
  consider "\<not> bit (p 0) 7" | "bit (p 0) 7" "\<not> bit (p 1) 7"
    | "bit (p 0) 7" "bit (p 1) 7" "\<not> bit (p 2) 7" | "bit (p 0) 7" "bit (p 1) 7" "bit (p 2) 7"
    by blast
  then show ?thesis
  proof cases
    case 1
    have "ucast (ucast (p 0) :: u64) = (ucast (p 0) :: u32)"
      by (rule u32_eq_by_bits) (simp add: bitblast)
    with 1 show ?thesis
      by (simp add: getVarint32_def sqlite3GetVarint_def u8_less_0x80 u8_sint_nonneg ucast_u8_le)
  next
    case 2
    then show ?thesis
      by (simp add: getVarint32_def sqlite3GetVarint32_def sqlite3GetVarint_def u8_less_0x80
        u8_sint_nonneg u8_and_0x80 ucast_u32_le ucast_u32_id)
  next
    case 3
    have "(push_bit 14 (ucast (p 0)) OR ucast (p 2)) AND SLOT_2_0 OR push_bit 7 (ucast (p 1) AND 0x7f) =
      push_bit 14 (ucast (p 0 AND 0x7f)) OR push_bit 7 (ucast (p 1 AND 0x7f)) OR (ucast (p 2) :: u32)"
      by (rule u32_eq_by_bits) (simp add: bitblast 3)
    with 3 show ?thesis
      by (simp add: getVarint32_def sqlite3GetVarint32_def sqlite3GetVarint_def u8_less_0x80
        u8_sint_nonneg u8_and_0x80 ucast_u32_le ucast_u32_id Let_def bitblast)
  next
    case 4
    then show ?thesis
      by (simp add: getVarint32_def sqlite3GetVarint32_def u8_less_0x80 u8_and_0x80 get u64_low_half)
  qed
qed

end
