(* ===== verification/Ctype.thy ===== *)
theory Ctype
  imports Prelude
begin

text \<open>
  SQLite's character tables and the string routines built on them
  (\<open>src/db/sqlite3.c\<close>, from \<open>global.c\<close> and \<open>util.c\<close>).  A zero-terminated C string is
  the list of its bytes before the terminator; reading at or past the end of the list
  reads the terminator.
\<close>

section \<open>Tables and classification macros\<close>

definition sqlite3UpperToLower :: bytes where
  "sqlite3UpperToLower =
     [0, 1, 2, 3, 4, 5, 6, 7, 8, 9, 10, 11, 12, 13, 14, 15,
      16, 17, 18, 19, 20, 21, 22, 23, 24, 25, 26, 27, 28, 29, 30, 31,
      32, 33, 34, 35, 36, 37, 38, 39, 40, 41, 42, 43, 44, 45, 46, 47,
      48, 49, 50, 51, 52, 53, 54, 55, 56, 57, 58, 59, 60, 61, 62, 63,
      64, 97, 98, 99, 100, 101, 102, 103, 104, 105, 106, 107, 108, 109, 110, 111,
      112, 113, 114, 115, 116, 117, 118, 119, 120, 121, 122, 91, 92, 93, 94, 95,
      96, 97, 98, 99, 100, 101, 102, 103, 104, 105, 106, 107, 108, 109, 110, 111,
      112, 113, 114, 115, 116, 117, 118, 119, 120, 121, 122, 123, 124, 125, 126, 127,
      128, 129, 130, 131, 132, 133, 134, 135, 136, 137, 138, 139, 140, 141, 142, 143,
      144, 145, 146, 147, 148, 149, 150, 151, 152, 153, 154, 155, 156, 157, 158, 159,
      160, 161, 162, 163, 164, 165, 166, 167, 168, 169, 170, 171, 172, 173, 174, 175,
      176, 177, 178, 179, 180, 181, 182, 183, 184, 185, 186, 187, 188, 189, 190, 191,
      192, 193, 194, 195, 196, 197, 198, 199, 200, 201, 202, 203, 204, 205, 206, 207,
      208, 209, 210, 211, 212, 213, 214, 215, 216, 217, 218, 219, 220, 221, 222, 223,
      224, 225, 226, 227, 228, 229, 230, 231, 232, 233, 234, 235, 236, 237, 238, 239,
      240, 241, 242, 243, 244, 245, 246, 247, 248, 249, 250, 251, 252, 253, 254, 255]"

definition sqlite3CtypeMap :: bytes where
  "sqlite3CtypeMap =
     [0x00, 0x00, 0x00, 0x00, 0x00, 0x00, 0x00, 0x00,
      0x00, 0x01, 0x01, 0x01, 0x01, 0x01, 0x00, 0x00,
      0x00, 0x00, 0x00, 0x00, 0x00, 0x00, 0x00, 0x00,
      0x00, 0x00, 0x00, 0x00, 0x00, 0x00, 0x00, 0x00,
      0x01, 0x00, 0x80, 0x00, 0x40, 0x00, 0x00, 0x80,
      0x00, 0x00, 0x00, 0x00, 0x00, 0x00, 0x00, 0x00,
      0x0c, 0x0c, 0x0c, 0x0c, 0x0c, 0x0c, 0x0c, 0x0c,
      0x0c, 0x0c, 0x00, 0x00, 0x00, 0x00, 0x00, 0x00,
      0x00, 0x0a, 0x0a, 0x0a, 0x0a, 0x0a, 0x0a, 0x02,
      0x02, 0x02, 0x02, 0x02, 0x02, 0x02, 0x02, 0x02,
      0x02, 0x02, 0x02, 0x02, 0x02, 0x02, 0x02, 0x02,
      0x02, 0x02, 0x02, 0x80, 0x00, 0x00, 0x00, 0x40,
      0x80, 0x2a, 0x2a, 0x2a, 0x2a, 0x2a, 0x2a, 0x22,
      0x22, 0x22, 0x22, 0x22, 0x22, 0x22, 0x22, 0x22,
      0x22, 0x22, 0x22, 0x22, 0x22, 0x22, 0x22, 0x22,
      0x22, 0x22, 0x22, 0x00, 0x00, 0x00, 0x00, 0x00,
      0x40, 0x40, 0x40, 0x40, 0x40, 0x40, 0x40, 0x40,
      0x40, 0x40, 0x40, 0x40, 0x40, 0x40, 0x40, 0x40,
      0x40, 0x40, 0x40, 0x40, 0x40, 0x40, 0x40, 0x40,
      0x40, 0x40, 0x40, 0x40, 0x40, 0x40, 0x40, 0x40,
      0x40, 0x40, 0x40, 0x40, 0x40, 0x40, 0x40, 0x40,
      0x40, 0x40, 0x40, 0x40, 0x40, 0x40, 0x40, 0x40,
      0x40, 0x40, 0x40, 0x40, 0x40, 0x40, 0x40, 0x40,
      0x40, 0x40, 0x40, 0x40, 0x40, 0x40, 0x40, 0x40,
      0x40, 0x40, 0x40, 0x40, 0x40, 0x40, 0x40, 0x40,
      0x40, 0x40, 0x40, 0x40, 0x40, 0x40, 0x40, 0x40,
      0x40, 0x40, 0x40, 0x40, 0x40, 0x40, 0x40, 0x40,
      0x40, 0x40, 0x40, 0x40, 0x40, 0x40, 0x40, 0x40,
      0x40, 0x40, 0x40, 0x40, 0x40, 0x40, 0x40, 0x40,
      0x40, 0x40, 0x40, 0x40, 0x40, 0x40, 0x40, 0x40,
      0x40, 0x40, 0x40, 0x40, 0x40, 0x40, 0x40, 0x40,
      0x40, 0x40, 0x40, 0x40, 0x40, 0x40, 0x40, 0x40]"

abbreviation UpperToLower :: "u8 \<Rightarrow> u8" where
  "UpperToLower c \<equiv> sqlite3UpperToLower ! unat c"

definition sqlite3Isspace :: "u8 \<Rightarrow> bool" where
  "sqlite3Isspace c \<longleftrightarrow> sqlite3CtypeMap ! unat c AND 0x01 \<noteq> 0"

definition sqlite3Isalnum :: "u8 \<Rightarrow> bool" where
  "sqlite3Isalnum c \<longleftrightarrow> sqlite3CtypeMap ! unat c AND 0x06 \<noteq> 0"

definition sqlite3Isalpha :: "u8 \<Rightarrow> bool" where
  "sqlite3Isalpha c \<longleftrightarrow> sqlite3CtypeMap ! unat c AND 0x02 \<noteq> 0"

definition sqlite3Isdigit :: "u8 \<Rightarrow> bool" where
  "sqlite3Isdigit c \<longleftrightarrow> sqlite3CtypeMap ! unat c AND 0x04 \<noteq> 0"

definition sqlite3Isxdigit :: "u8 \<Rightarrow> bool" where
  "sqlite3Isxdigit c \<longleftrightarrow> sqlite3CtypeMap ! unat c AND 0x08 \<noteq> 0"

definition sqlite3Isquote :: "u8 \<Rightarrow> bool" where
  "sqlite3Isquote c \<longleftrightarrow> sqlite3CtypeMap ! unat c AND 0x80 \<noteq> 0"

definition IdChar :: "u8 \<Rightarrow> bool" where
  "IdChar c \<longleftrightarrow> sqlite3CtypeMap ! unat c AND 0x46 \<noteq> 0"

definition sqlite3Toupper :: "u8 \<Rightarrow> u8" where
  "sqlite3Toupper c = c AND NOT (sqlite3CtypeMap ! unat c AND 0x20)"

section \<open>What the tables hold\<close>

definition ctype_of :: "nat \<Rightarrow> u8" where
  "ctype_of n =
     (if 9 \<le> n \<and> n \<le> 13 \<or> n = 32 then 0x01
      else if n = 34 \<or> n = 39 \<or> n = 91 \<or> n = 96 then 0x80
      else if n = 36 \<or> n = 95 \<or> 128 \<le> n then 0x40
      else if 48 \<le> n \<and> n \<le> 57 then 0x0c
      else if 65 \<le> n \<and> n \<le> 70 then 0x0a
      else if 71 \<le> n \<and> n \<le> 90 then 0x02
      else if 97 \<le> n \<and> n \<le> 102 then 0x2a
      else if 103 \<le> n \<and> n \<le> 122 then 0x22
      else 0)"

lemma ctype_table: "sqlite3CtypeMap = map ctype_of [0..<256]"
  by (simp add: sqlite3CtypeMap_def upt_rec ctype_of_def)

lemma lower_table:
  "sqlite3UpperToLower = map (\<lambda>n. if 65 \<le> n \<and> n \<le> 90 then word_of_nat (n + 32) else word_of_nat n) [0..<256]"
  by (simp add: sqlite3UpperToLower_def upt_rec)

lemma unat_u8_less [simp]: "unat (c :: u8) < 256"
proof -
  have "unat c < 2 ^ LENGTH(8)" by (rule unsigned_less)
  then show ?thesis by simp
qed

lemma ctype_at: "sqlite3CtypeMap ! unat (c :: u8) = ctype_of (unat c)"
  unfolding ctype_table by (subst nth_map_upt) simp_all

lemma lower_at:
  "UpperToLower c = (if 65 \<le> unat c \<and> unat c \<le> 90 then c + 32 else c)"
  unfolding lower_table by (subst nth_map_upt) simp_all

lemma unat_lower:
  "unat (UpperToLower c) = (if 65 \<le> unat c \<and> unat c \<le> 90 then unat c + 32 else unat c)"
  by (simp add: lower_at unat_word_ariths)

lemma lower_eq_0 [simp]: "UpperToLower c = 0 \<longleftrightarrow> c = 0"
  by (auto simp: word_unat_eq_iff unat_lower)

lemma lower_0 [simp]: "sqlite3UpperToLower ! 0 = 0"
  using lower_eq_0 [of 0] by simp

lemma lower_idem: "UpperToLower (UpperToLower c) = UpperToLower c"
  using unat_lower [of c] unat_lower [of "UpperToLower c"]
  by (intro word_unat_eq_iff [THEN iffD2]) (auto split: if_splits)

lemma Isspace_iff: "sqlite3Isspace c \<longleftrightarrow> 9 \<le> unat c \<and> unat c \<le> 13 \<or> unat c = 32"
  by (simp add: sqlite3Isspace_def ctype_at ctype_of_def)

lemma Isdigit_iff: "sqlite3Isdigit c \<longleftrightarrow> 48 \<le> unat c \<and> unat c \<le> 57"
  by (auto simp: sqlite3Isdigit_def ctype_at ctype_of_def)

lemma Isxdigit_iff:
  "sqlite3Isxdigit c \<longleftrightarrow> 48 \<le> unat c \<and> unat c \<le> 57 \<or> 65 \<le> unat c \<and> unat c \<le> 70
     \<or> 97 \<le> unat c \<and> unat c \<le> 102"
  by (auto simp: sqlite3Isxdigit_def ctype_at ctype_of_def)

lemma Isquote_iff: "sqlite3Isquote c \<longleftrightarrow> unat c \<in> {34, 39, 91, 96}"
  by (auto simp: sqlite3Isquote_def ctype_at ctype_of_def)

lemma Isalpha_iff:
  "sqlite3Isalpha c \<longleftrightarrow> 65 \<le> unat c \<and> unat c \<le> 90 \<or> 97 \<le> unat c \<and> unat c \<le> 122"
  by (auto simp: sqlite3Isalpha_def ctype_at ctype_of_def)

lemma Isalnum_iff: "sqlite3Isalnum c \<longleftrightarrow> sqlite3Isalpha c \<or> sqlite3Isdigit c"
  by (auto simp: sqlite3Isalnum_def Isalpha_iff Isdigit_iff ctype_at ctype_of_def)

lemma IdChar_iff:
  "IdChar c \<longleftrightarrow> sqlite3Isalnum c \<or> unat c = 36 \<or> unat c = 95 \<or> 128 \<le> unat c"
  by (auto simp: IdChar_def Isalnum_iff Isalpha_iff Isdigit_iff ctype_at ctype_of_def)

lemmas ctype_iffs = Isspace_iff Isdigit_iff Isxdigit_iff Isquote_iff Isalpha_iff Isalnum_iff IdChar_iff

section \<open>Strings\<close>

text \<open>The byte \<open>*z\<close> a pointer into a zero-terminated string reads.\<close>
definition first :: "bytes \<Rightarrow> u8" where
  "first z = (case z of [] \<Rightarrow> 0 | c # _ \<Rightarrow> c)"

definition cstring :: "bytes \<Rightarrow> bool" where
  "cstring z \<longleftrightarrow> 0 \<notin> set z"

lemma first_simps [simp]: "first [] = 0" "first (c # z) = c"
  by (simp_all add: first_def)

lemma cstring_simps [simp]: "cstring []" "cstring (c # z) \<longleftrightarrow> c \<noteq> 0 \<and> cstring z"
  by (auto simp: cstring_def)

function sqlite3StrICmp :: "bytes \<Rightarrow> bytes \<Rightarrow> int" where
  "sqlite3StrICmp a b =
     (let c = first a; x = first b in
      if c = x then (if c = 0 then 0 else sqlite3StrICmp (tl a) (tl b))
      else let d = uint (UpperToLower c) - uint (UpperToLower x) in
           if d \<noteq> 0 then d else sqlite3StrICmp (tl a) (tl b))"
  by pat_completeness auto
termination
proof (relation "measure (\<lambda>(a, b). length a)", goal_cases)
  case 1
  show ?case by simp
next
  case (2 a b x xa)
  then show ?case by (cases a) simp_all
next
  case (3 a b x xa xb)
  then have "UpperToLower x = UpperToLower xa" by (simp add: word_uint_eq_iff)
  with 3 show ?case by (cases a) (auto dest: sym)
qed

declare sqlite3StrICmp.simps [simp del]

text \<open>\<open>sqlite3_stricmp\<close>: \<open>None\<close> is the null pointer.\<close>
fun sqlite3_stricmp :: "bytes option \<Rightarrow> bytes option \<Rightarrow> int" where
  "sqlite3_stricmp None None = 0"
| "sqlite3_stricmp None (Some b) = -1"
| "sqlite3_stricmp (Some a) None = 1"
| "sqlite3_stricmp (Some a) (Some b) = sqlite3StrICmp a b"

text \<open>\<open>while( N-- > 0 && *a!=0 && UpperToLower[*a]==UpperToLower[*b])\<close>.\<close>
fun strnicmp_loop :: "nat \<Rightarrow> bytes \<Rightarrow> bytes \<Rightarrow> int" where
  "strnicmp_loop 0 a b = 0"
| "strnicmp_loop (Suc n) a b =
     (if first a \<noteq> 0 \<and> UpperToLower (first a) = UpperToLower (first b)
      then strnicmp_loop n (tl a) (tl b)
      else uint (UpperToLower (first a)) - uint (UpperToLower (first b)))"

fun sqlite3_strnicmp :: "bytes option \<Rightarrow> bytes option \<Rightarrow> int \<Rightarrow> int" where
  "sqlite3_strnicmp None None N = 0"
| "sqlite3_strnicmp None (Some b) N = -1"
| "sqlite3_strnicmp (Some a) None N = 1"
| "sqlite3_strnicmp (Some a) (Some b) N = strnicmp_loop (nat N) a b"

definition sqlite3StrIHash :: "bytes \<Rightarrow> u8" where
  "sqlite3StrIHash z = fold (\<lambda>c h. h + UpperToLower c) (takeWhile (\<lambda>c. c \<noteq> 0) z) 0"

text \<open>
  \<open>sqlite3Dequote\<close>: the loop from \<open>i=1\<close>, over what follows the opening quote.  Without a
  closing quote the source's assertion fails and it reads past the string: \<open>None\<close>.
\<close>
fun dequote_loop :: "u8 \<Rightarrow> bytes \<Rightarrow> bytes option" where
  "dequote_loop quote [] = None"
| "dequote_loop quote (c # z) =
     (if c = quote
      then (case z of
              c' # z' \<Rightarrow> if c' = quote then map_option (\<lambda>r. quote # r) (dequote_loop quote z')
                         else Some []
            | [] \<Rightarrow> Some [])
      else map_option (\<lambda>r. c # r) (dequote_loop quote z))"

definition sqlite3Dequote :: "bytes \<Rightarrow> bytes option" where
  "sqlite3Dequote z =
     (let quote = first z in
      if \<not> sqlite3Isquote quote then Some z
      else let quote = (if quote = 0x5b then 0x5d else quote)
           in dequote_loop quote (tl z))"

text \<open>\<open>sqlite3DequoteToken\<close>: a token is the bytes \<open>z[0..n-1]\<close>.\<close>
definition sqlite3DequoteToken :: "bytes \<Rightarrow> bytes" where
  "sqlite3DequoteToken z =
     (if length z < 2 then z
      else if \<not> sqlite3Isquote (z ! 0) then z
      else if list_ex sqlite3Isquote (butlast (tl z)) then z
      else butlast (tl z))"

section \<open>Lemmas\<close>

lemma StrICmp_simps:
  "sqlite3StrICmp [] [] = 0"
  "x \<noteq> 0 \<Longrightarrow> sqlite3StrICmp [] (x # b) = - uint (UpperToLower x)"
  "c \<noteq> 0 \<Longrightarrow> sqlite3StrICmp (c # a) [] = uint (UpperToLower c)"
  "c \<noteq> 0 \<Longrightarrow> x \<noteq> 0 \<Longrightarrow> sqlite3StrICmp (c # a) (x # b) =
     (if UpperToLower c = UpperToLower x then sqlite3StrICmp a b
      else uint (UpperToLower c) - uint (UpperToLower x))"
  by (simp_all add: sqlite3StrICmp.simps [of "[]"] sqlite3StrICmp.simps [of "_ # _"] Let_def
      word_uint_eq_iff [symmetric] uint_0_iff)

lemma StrICmp_lex:
  assumes "cstring a" "cstring b"
  shows "(sqlite3StrICmp a b = 0 \<longleftrightarrow> map UpperToLower a = map UpperToLower b) \<and>
         (sqlite3StrICmp a b < 0 \<longleftrightarrow> ord_class.lexordp (map UpperToLower a) (map UpperToLower b))"
  using assms
proof (induction a arbitrary: b)
  case Nil
  then show ?case
    by (cases b) (auto simp: StrICmp_simps uint_0_iff less_le)
next
  case (Cons c a)
  show ?case
  proof (cases b)
    case Nil
    then show ?thesis using Cons.prems by (simp add: StrICmp_simps uint_0_iff)
  next
    case b: (Cons x b')
    show ?thesis
    proof (cases "UpperToLower c = UpperToLower x")
      case True
      then show ?thesis using Cons b by (simp add: StrICmp_simps)
    next
      case False
      then have "uint (UpperToLower c) \<noteq> uint (UpperToLower x)" by (simp add: word_uint_eq_iff)
      then show ?thesis using False Cons.prems b by (auto simp: StrICmp_simps word_less_def)
    qed
  qed
qed

lemma strnicmp_take:
  assumes "cstring a" "cstring b"
  shows "strnicmp_loop n a b = 0 \<longleftrightarrow> map UpperToLower (take n a) = map UpperToLower (take n b)"
  using assms
proof (induction n a b rule: strnicmp_loop.induct)
  case (2 n a b)
  have [simp]: "uint u = uint v \<longleftrightarrow> u = v" for u v :: u8 by (simp add: word_uint_eq_iff)
  show ?case
    using 2 by (cases a; cases b) (auto simp: uint_0_iff)
qed simp

lemma StrIHash_lower:
  assumes "cstring z"
  shows "sqlite3StrIHash z = sum_list (map UpperToLower z)"
proof -
  have sum: "fold (\<lambda>c h. h + UpperToLower c) z h = h + sum_list (map UpperToLower z)" for h
    by (induction z arbitrary: h) (simp_all add: ac_simps)
  have all: "takeWhile (\<lambda>c. c \<noteq> 0) z = z"
    using assms by (auto simp: cstring_def takeWhile_eq_all_conv)
  show ?thesis unfolding sqlite3StrIHash_def all by (simp add: sum)
qed

text \<open>SQL quoting: the quote character is doubled inside the literal.\<close>
definition quoted :: "u8 \<Rightarrow> bytes \<Rightarrow> bytes" where
  "quoted q s =
     (let close = (if q = 0x5b then 0x5d else q)
      in q # concat (map (\<lambda>c. if c = close then [c, c] else [c]) s) @ [close])"

lemma dequote_loop_quoted:
  assumes "rest = [] \<or> first rest \<noteq> close"
  shows "dequote_loop close
    (concat (map (\<lambda>c. if c = close then [c, c] else [c]) s) @ close # rest) = Some s"
proof (induction s)
  case Nil
  then show ?case using assms by (cases rest) auto
qed simp

section \<open>Properties\<close>

text \<open>
  On zero-terminated strings \<open>sqlite3StrICmp\<close> is the lexicographic comparison of the
  ASCII lower-case forms: it answers 0 exactly for strings that differ in case only, and
  a negative number exactly when the first comes earlier.
\<close>
theorem StrICmp_is_caseless_order:
  assumes "cstring a" "cstring b"
  shows "(sqlite3StrICmp a b = 0 \<longleftrightarrow> map UpperToLower a = map UpperToLower b) \<and>
         (sqlite3StrICmp a b < 0 \<longleftrightarrow> ord_class.lexordp (map UpperToLower a) (map UpperToLower b))"
  using assms by (rule StrICmp_lex)

text \<open>The keywords \<open>END\<close> and \<open>end\<close>.\<close>
theorem StrICmp_is_caseless_order_witness:
  "sqlite3StrICmp [0x45, 0x4e, 0x44] [0x65, 0x6e, 0x64] = 0"
  using StrICmp_is_caseless_order [of "[0x45, 0x4e, 0x44]" "[0x65, 0x6e, 0x64]"]
  by (simp add: lower_at)

text \<open>
  \<open>sqlite3Dequote\<close> undoes SQL quoting for each of the four quoting styles, whatever
  bytes the name holds (doubled quote characters included) and whatever follows the
  closing quote, and leaves a string without an opening quote alone.
\<close>
theorem dequote_quoted:
  "(sqlite3Isquote q \<longrightarrow> first rest \<noteq> (if q = 0x5b then 0x5d else q) \<longrightarrow>
      sqlite3Dequote (quoted q s @ rest) = Some s) \<and>
   (\<not> sqlite3Isquote (first z) \<longrightarrow> sqlite3Dequote z = Some z)"
proof (intro conjI impI)
  assume q: "sqlite3Isquote q" and r: "first rest \<noteq> (if q = 0x5b then 0x5d else q)"
  show "sqlite3Dequote (quoted q s @ rest) = Some s"
    using q dequote_loop_quoted [of rest "if q = 0x5b then 0x5d else q" s] r
    by (simp add: sqlite3Dequote_def quoted_def Let_def)
qed (simp add: sqlite3Dequote_def)

text \<open>The identifier \<open>a]b\<close> in Microsoft style, and an unquoted \<open>x\<close>.\<close>
theorem dequote_quoted_witness:
  "sqlite3Dequote [0x5b, 0x61, 0x5d, 0x5d, 0x62, 0x5d] = Some [0x61, 0x5d, 0x62] \<and>
   sqlite3Dequote [0x78] = Some [0x78]"
  using dequote_quoted [of "0x5b" "[]" "[0x61, 0x5d, 0x62]" "[0x78]"]
  by (simp add: Isquote_iff quoted_def)

end
