(* ===== verification/Keyword.thy ===== *)
theory Keyword
  imports Ctype
begin

text \<open>
  SQLite's token codes and its keyword table (\<open>src/db/sqlite3.c\<close>, from \<open>parse.h\<close> and
  \<open>keywordhash.h\<close>).  All keywords overlap in one text of 666 characters; a word is looked up by a
  hash of its ends and its length, with the collisions of a hash value chained through a second
  table.  The theorem says that the lookup recognises exactly the 147 keywords.
\<close>

section \<open>Token codes\<close>

definition TK_SEMI :: int where "TK_SEMI = 1"
definition TK_EXPLAIN :: int where "TK_EXPLAIN = 2"
definition TK_QUERY :: int where "TK_QUERY = 3"
definition TK_PLAN :: int where "TK_PLAN = 4"
definition TK_BEGIN :: int where "TK_BEGIN = 5"
definition TK_TRANSACTION :: int where "TK_TRANSACTION = 6"
definition TK_DEFERRED :: int where "TK_DEFERRED = 7"
definition TK_IMMEDIATE :: int where "TK_IMMEDIATE = 8"
definition TK_EXCLUSIVE :: int where "TK_EXCLUSIVE = 9"
definition TK_COMMIT :: int where "TK_COMMIT = 10"
definition TK_END :: int where "TK_END = 11"
definition TK_ROLLBACK :: int where "TK_ROLLBACK = 12"
definition TK_SAVEPOINT :: int where "TK_SAVEPOINT = 13"
definition TK_RELEASE :: int where "TK_RELEASE = 14"
definition TK_TO :: int where "TK_TO = 15"
definition TK_TABLE :: int where "TK_TABLE = 16"
definition TK_CREATE :: int where "TK_CREATE = 17"
definition TK_IF :: int where "TK_IF = 18"
definition TK_NOT :: int where "TK_NOT = 19"
definition TK_EXISTS :: int where "TK_EXISTS = 20"
definition TK_TEMP :: int where "TK_TEMP = 21"
definition TK_LP :: int where "TK_LP = 22"
definition TK_RP :: int where "TK_RP = 23"
definition TK_AS :: int where "TK_AS = 24"
definition TK_COMMA :: int where "TK_COMMA = 25"
definition TK_WITHOUT :: int where "TK_WITHOUT = 26"
definition TK_ABORT :: int where "TK_ABORT = 27"
definition TK_ACTION :: int where "TK_ACTION = 28"
definition TK_AFTER :: int where "TK_AFTER = 29"
definition TK_ANALYZE :: int where "TK_ANALYZE = 30"
definition TK_ASC :: int where "TK_ASC = 31"
definition TK_ATTACH :: int where "TK_ATTACH = 32"
definition TK_BEFORE :: int where "TK_BEFORE = 33"
definition TK_BY :: int where "TK_BY = 34"
definition TK_CASCADE :: int where "TK_CASCADE = 35"
definition TK_CAST :: int where "TK_CAST = 36"
definition TK_CONFLICT :: int where "TK_CONFLICT = 37"
definition TK_DATABASE :: int where "TK_DATABASE = 38"
definition TK_DESC :: int where "TK_DESC = 39"
definition TK_DETACH :: int where "TK_DETACH = 40"
definition TK_EACH :: int where "TK_EACH = 41"
definition TK_FAIL :: int where "TK_FAIL = 42"
definition TK_OR :: int where "TK_OR = 43"
definition TK_AND :: int where "TK_AND = 44"
definition TK_IS :: int where "TK_IS = 45"
definition TK_MATCH :: int where "TK_MATCH = 46"
definition TK_LIKE_KW :: int where "TK_LIKE_KW = 47"
definition TK_BETWEEN :: int where "TK_BETWEEN = 48"
definition TK_IN :: int where "TK_IN = 49"
definition TK_ISNULL :: int where "TK_ISNULL = 50"
definition TK_NOTNULL :: int where "TK_NOTNULL = 51"
definition TK_NE :: int where "TK_NE = 52"
definition TK_EQ :: int where "TK_EQ = 53"
definition TK_GT :: int where "TK_GT = 54"
definition TK_LE :: int where "TK_LE = 55"
definition TK_LT :: int where "TK_LT = 56"
definition TK_GE :: int where "TK_GE = 57"
definition TK_ESCAPE :: int where "TK_ESCAPE = 58"
definition TK_ID :: int where "TK_ID = 59"
definition TK_COLUMNKW :: int where "TK_COLUMNKW = 60"
definition TK_DO :: int where "TK_DO = 61"
definition TK_FOR :: int where "TK_FOR = 62"
definition TK_IGNORE :: int where "TK_IGNORE = 63"
definition TK_INITIALLY :: int where "TK_INITIALLY = 64"
definition TK_INSTEAD :: int where "TK_INSTEAD = 65"
definition TK_NO :: int where "TK_NO = 66"
definition TK_KEY :: int where "TK_KEY = 67"
definition TK_OF :: int where "TK_OF = 68"
definition TK_OFFSET :: int where "TK_OFFSET = 69"
definition TK_PRAGMA :: int where "TK_PRAGMA = 70"
definition TK_RAISE :: int where "TK_RAISE = 71"
definition TK_RECURSIVE :: int where "TK_RECURSIVE = 72"
definition TK_REPLACE :: int where "TK_REPLACE = 73"
definition TK_RESTRICT :: int where "TK_RESTRICT = 74"
definition TK_ROW :: int where "TK_ROW = 75"
definition TK_ROWS :: int where "TK_ROWS = 76"
definition TK_TRIGGER :: int where "TK_TRIGGER = 77"
definition TK_VACUUM :: int where "TK_VACUUM = 78"
definition TK_VIEW :: int where "TK_VIEW = 79"
definition TK_VIRTUAL :: int where "TK_VIRTUAL = 80"
definition TK_WITH :: int where "TK_WITH = 81"
definition TK_NULLS :: int where "TK_NULLS = 82"
definition TK_FIRST :: int where "TK_FIRST = 83"
definition TK_LAST :: int where "TK_LAST = 84"
definition TK_CURRENT :: int where "TK_CURRENT = 85"
definition TK_FOLLOWING :: int where "TK_FOLLOWING = 86"
definition TK_PARTITION :: int where "TK_PARTITION = 87"
definition TK_PRECEDING :: int where "TK_PRECEDING = 88"
definition TK_RANGE :: int where "TK_RANGE = 89"
definition TK_UNBOUNDED :: int where "TK_UNBOUNDED = 90"
definition TK_EXCLUDE :: int where "TK_EXCLUDE = 91"
definition TK_GROUPS :: int where "TK_GROUPS = 92"
definition TK_OTHERS :: int where "TK_OTHERS = 93"
definition TK_TIES :: int where "TK_TIES = 94"
definition TK_GENERATED :: int where "TK_GENERATED = 95"
definition TK_ALWAYS :: int where "TK_ALWAYS = 96"
definition TK_MATERIALIZED :: int where "TK_MATERIALIZED = 97"
definition TK_REINDEX :: int where "TK_REINDEX = 98"
definition TK_RENAME :: int where "TK_RENAME = 99"
definition TK_CTIME_KW :: int where "TK_CTIME_KW = 100"
definition TK_BITAND :: int where "TK_BITAND = 102"
definition TK_BITOR :: int where "TK_BITOR = 103"
definition TK_LSHIFT :: int where "TK_LSHIFT = 104"
definition TK_RSHIFT :: int where "TK_RSHIFT = 105"
definition TK_PLUS :: int where "TK_PLUS = 106"
definition TK_MINUS :: int where "TK_MINUS = 107"
definition TK_STAR :: int where "TK_STAR = 108"
definition TK_SLASH :: int where "TK_SLASH = 109"
definition TK_REM :: int where "TK_REM = 110"
definition TK_CONCAT :: int where "TK_CONCAT = 111"
definition TK_PTR :: int where "TK_PTR = 112"
definition TK_COLLATE :: int where "TK_COLLATE = 113"
definition TK_BITNOT :: int where "TK_BITNOT = 114"
definition TK_ON :: int where "TK_ON = 115"
definition TK_INDEXED :: int where "TK_INDEXED = 116"
definition TK_STRING :: int where "TK_STRING = 117"
definition TK_JOIN_KW :: int where "TK_JOIN_KW = 118"
definition TK_CONSTRAINT :: int where "TK_CONSTRAINT = 119"
definition TK_DEFAULT :: int where "TK_DEFAULT = 120"
definition TK_NULL :: int where "TK_NULL = 121"
definition TK_PRIMARY :: int where "TK_PRIMARY = 122"
definition TK_UNIQUE :: int where "TK_UNIQUE = 123"
definition TK_CHECK :: int where "TK_CHECK = 124"
definition TK_REFERENCES :: int where "TK_REFERENCES = 125"
definition TK_AUTOINCR :: int where "TK_AUTOINCR = 126"
definition TK_INSERT :: int where "TK_INSERT = 127"
definition TK_DELETE :: int where "TK_DELETE = 128"
definition TK_UPDATE :: int where "TK_UPDATE = 129"
definition TK_SET :: int where "TK_SET = 130"
definition TK_DEFERRABLE :: int where "TK_DEFERRABLE = 131"
definition TK_FOREIGN :: int where "TK_FOREIGN = 132"
definition TK_DROP :: int where "TK_DROP = 133"
definition TK_UNION :: int where "TK_UNION = 134"
definition TK_ALL :: int where "TK_ALL = 135"
definition TK_EXCEPT :: int where "TK_EXCEPT = 136"
definition TK_INTERSECT :: int where "TK_INTERSECT = 137"
definition TK_SELECT :: int where "TK_SELECT = 138"
definition TK_VALUES :: int where "TK_VALUES = 139"
definition TK_DISTINCT :: int where "TK_DISTINCT = 140"
definition TK_DOT :: int where "TK_DOT = 141"
definition TK_FROM :: int where "TK_FROM = 142"
definition TK_JOIN :: int where "TK_JOIN = 143"
definition TK_USING :: int where "TK_USING = 144"
definition TK_ORDER :: int where "TK_ORDER = 145"
definition TK_GROUP :: int where "TK_GROUP = 146"
definition TK_HAVING :: int where "TK_HAVING = 147"
definition TK_LIMIT :: int where "TK_LIMIT = 148"
definition TK_WHERE :: int where "TK_WHERE = 149"
definition TK_RETURNING :: int where "TK_RETURNING = 150"
definition TK_INTO :: int where "TK_INTO = 151"
definition TK_NOTHING :: int where "TK_NOTHING = 152"
definition TK_FLOAT :: int where "TK_FLOAT = 153"
definition TK_BLOB :: int where "TK_BLOB = 154"
definition TK_INTEGER :: int where "TK_INTEGER = 155"
definition TK_VARIABLE :: int where "TK_VARIABLE = 156"
definition TK_CASE :: int where "TK_CASE = 157"
definition TK_WHEN :: int where "TK_WHEN = 158"
definition TK_THEN :: int where "TK_THEN = 159"
definition TK_ELSE :: int where "TK_ELSE = 160"
definition TK_INDEX :: int where "TK_INDEX = 161"
definition TK_ALTER :: int where "TK_ALTER = 162"
definition TK_ADD :: int where "TK_ADD = 163"
definition TK_WINDOW :: int where "TK_WINDOW = 164"
definition TK_OVER :: int where "TK_OVER = 165"
definition TK_FILTER :: int where "TK_FILTER = 166"
definition TK_SPACE :: int where "TK_SPACE = 183"
definition TK_ILLEGAL :: int where "TK_ILLEGAL = 184"

lemmas TK_defs =
  TK_SEMI_def TK_EXPLAIN_def TK_QUERY_def TK_PLAN_def TK_BEGIN_def TK_TRANSACTION_def
  TK_DEFERRED_def TK_IMMEDIATE_def TK_EXCLUSIVE_def TK_COMMIT_def TK_END_def
  TK_ROLLBACK_def TK_SAVEPOINT_def TK_RELEASE_def TK_TO_def TK_TABLE_def TK_CREATE_def
  TK_IF_def TK_NOT_def TK_EXISTS_def TK_TEMP_def TK_LP_def TK_RP_def TK_AS_def
  TK_COMMA_def TK_WITHOUT_def TK_ABORT_def TK_ACTION_def TK_AFTER_def TK_ANALYZE_def
  TK_ASC_def TK_ATTACH_def TK_BEFORE_def TK_BY_def TK_CASCADE_def TK_CAST_def
  TK_CONFLICT_def TK_DATABASE_def TK_DESC_def TK_DETACH_def TK_EACH_def TK_FAIL_def
  TK_OR_def TK_AND_def TK_IS_def TK_MATCH_def TK_LIKE_KW_def TK_BETWEEN_def TK_IN_def
  TK_ISNULL_def TK_NOTNULL_def TK_NE_def TK_EQ_def TK_GT_def TK_LE_def TK_LT_def
  TK_GE_def TK_ESCAPE_def TK_ID_def TK_COLUMNKW_def TK_DO_def TK_FOR_def TK_IGNORE_def
  TK_INITIALLY_def TK_INSTEAD_def TK_NO_def TK_KEY_def TK_OF_def TK_OFFSET_def
  TK_PRAGMA_def TK_RAISE_def TK_RECURSIVE_def TK_REPLACE_def TK_RESTRICT_def TK_ROW_def
  TK_ROWS_def TK_TRIGGER_def TK_VACUUM_def TK_VIEW_def TK_VIRTUAL_def TK_WITH_def
  TK_NULLS_def TK_FIRST_def TK_LAST_def TK_CURRENT_def TK_FOLLOWING_def TK_PARTITION_def
  TK_PRECEDING_def TK_RANGE_def TK_UNBOUNDED_def TK_EXCLUDE_def TK_GROUPS_def TK_OTHERS_def
  TK_TIES_def TK_GENERATED_def TK_ALWAYS_def TK_MATERIALIZED_def TK_REINDEX_def
  TK_RENAME_def TK_CTIME_KW_def TK_BITAND_def TK_BITOR_def TK_LSHIFT_def TK_RSHIFT_def
  TK_PLUS_def TK_MINUS_def TK_STAR_def TK_SLASH_def TK_REM_def TK_CONCAT_def TK_PTR_def
  TK_COLLATE_def TK_BITNOT_def TK_ON_def TK_INDEXED_def TK_STRING_def TK_JOIN_KW_def
  TK_CONSTRAINT_def TK_DEFAULT_def TK_NULL_def TK_PRIMARY_def TK_UNIQUE_def TK_CHECK_def
  TK_REFERENCES_def TK_AUTOINCR_def TK_INSERT_def TK_DELETE_def TK_UPDATE_def TK_SET_def
  TK_DEFERRABLE_def TK_FOREIGN_def TK_DROP_def TK_UNION_def TK_ALL_def TK_EXCEPT_def
  TK_INTERSECT_def TK_SELECT_def TK_VALUES_def TK_DISTINCT_def TK_DOT_def TK_FROM_def
  TK_JOIN_def TK_USING_def TK_ORDER_def TK_GROUP_def TK_HAVING_def TK_LIMIT_def
  TK_WHERE_def TK_RETURNING_def TK_INTO_def TK_NOTHING_def TK_FLOAT_def TK_BLOB_def
  TK_INTEGER_def TK_VARIABLE_def TK_CASE_def TK_WHEN_def TK_THEN_def TK_ELSE_def
  TK_INDEX_def TK_ALTER_def TK_ADD_def TK_WINDOW_def TK_OVER_def TK_FILTER_def
  TK_SPACE_def TK_ILLEGAL_def

section \<open>The keyword tables\<close>

definition zKWText :: "bytes" where
  "zKWText =
     [0x52, 0x45, 0x49, 0x4e, 0x44, 0x45, 0x58, 0x45, 0x44, 0x45, 0x53, 0x43, 0x41, 0x50, 0x45, 0x41,
      0x43, 0x48, 0x45, 0x43, 0x4b, 0x45, 0x59, 0x42, 0x45, 0x46, 0x4f, 0x52, 0x45, 0x49, 0x47, 0x4e,
      0x4f, 0x52, 0x45, 0x47, 0x45, 0x58, 0x50, 0x4c, 0x41, 0x49, 0x4e, 0x53, 0x54, 0x45, 0x41, 0x44,
      0x44, 0x41, 0x54, 0x41, 0x42, 0x41, 0x53, 0x45, 0x4c, 0x45, 0x43, 0x54, 0x41, 0x42, 0x4c, 0x45,
      0x46, 0x54, 0x48, 0x45, 0x4e, 0x44, 0x45, 0x46, 0x45, 0x52, 0x52, 0x41, 0x42, 0x4c, 0x45, 0x4c,
      0x53, 0x45, 0x58, 0x43, 0x4c, 0x55, 0x44, 0x45, 0x4c, 0x45, 0x54, 0x45, 0x4d, 0x50, 0x4f, 0x52,
      0x41, 0x52, 0x59, 0x49, 0x53, 0x4e, 0x55, 0x4c, 0x4c, 0x53, 0x41, 0x56, 0x45, 0x50, 0x4f, 0x49,
      0x4e, 0x54, 0x45, 0x52, 0x53, 0x45, 0x43, 0x54, 0x49, 0x45, 0x53, 0x4e, 0x4f, 0x54, 0x4e, 0x55,
      0x4c, 0x4c, 0x49, 0x4b, 0x45, 0x58, 0x43, 0x45, 0x50, 0x54, 0x52, 0x41, 0x4e, 0x53, 0x41, 0x43,
      0x54, 0x49, 0x4f, 0x4e, 0x41, 0x54, 0x55, 0x52, 0x41, 0x4c, 0x54, 0x45, 0x52, 0x41, 0x49, 0x53,
      0x45, 0x58, 0x43, 0x4c, 0x55, 0x53, 0x49, 0x56, 0x45, 0x58, 0x49, 0x53, 0x54, 0x53, 0x43, 0x4f,
      0x4e, 0x53, 0x54, 0x52, 0x41, 0x49, 0x4e, 0x54, 0x4f, 0x46, 0x46, 0x53, 0x45, 0x54, 0x52, 0x49,
      0x47, 0x47, 0x45, 0x52, 0x41, 0x4e, 0x47, 0x45, 0x4e, 0x45, 0x52, 0x41, 0x54, 0x45, 0x44, 0x45,
      0x54, 0x41, 0x43, 0x48, 0x41, 0x56, 0x49, 0x4e, 0x47, 0x4c, 0x4f, 0x42, 0x45, 0x47, 0x49, 0x4e,
      0x4e, 0x45, 0x52, 0x45, 0x46, 0x45, 0x52, 0x45, 0x4e, 0x43, 0x45, 0x53, 0x55, 0x4e, 0x49, 0x51,
      0x55, 0x45, 0x52, 0x59, 0x57, 0x49, 0x54, 0x48, 0x4f, 0x55, 0x54, 0x45, 0x52, 0x45, 0x4c, 0x45,
      0x41, 0x53, 0x45, 0x41, 0x54, 0x54, 0x41, 0x43, 0x48, 0x42, 0x45, 0x54, 0x57, 0x45, 0x45, 0x4e,
      0x4f, 0x54, 0x48, 0x49, 0x4e, 0x47, 0x52, 0x4f, 0x55, 0x50, 0x53, 0x43, 0x41, 0x53, 0x43, 0x41,
      0x44, 0x45, 0x46, 0x41, 0x55, 0x4c, 0x54, 0x43, 0x41, 0x53, 0x45, 0x43, 0x4f, 0x4c, 0x4c, 0x41,
      0x54, 0x45, 0x43, 0x52, 0x45, 0x41, 0x54, 0x45, 0x43, 0x55, 0x52, 0x52, 0x45, 0x4e, 0x54, 0x5f,
      0x44, 0x41, 0x54, 0x45, 0x49, 0x4d, 0x4d, 0x45, 0x44, 0x49, 0x41, 0x54, 0x45, 0x4a, 0x4f, 0x49,
      0x4e, 0x53, 0x45, 0x52, 0x54, 0x4d, 0x41, 0x54, 0x43, 0x48, 0x50, 0x4c, 0x41, 0x4e, 0x41, 0x4c,
      0x59, 0x5a, 0x45, 0x50, 0x52, 0x41, 0x47, 0x4d, 0x41, 0x54, 0x45, 0x52, 0x49, 0x41, 0x4c, 0x49,
      0x5a, 0x45, 0x44, 0x45, 0x46, 0x45, 0x52, 0x52, 0x45, 0x44, 0x49, 0x53, 0x54, 0x49, 0x4e, 0x43,
      0x54, 0x55, 0x50, 0x44, 0x41, 0x54, 0x45, 0x56, 0x41, 0x4c, 0x55, 0x45, 0x53, 0x56, 0x49, 0x52,
      0x54, 0x55, 0x41, 0x4c, 0x57, 0x41, 0x59, 0x53, 0x57, 0x48, 0x45, 0x4e, 0x57, 0x48, 0x45, 0x52,
      0x45, 0x43, 0x55, 0x52, 0x53, 0x49, 0x56, 0x45, 0x41, 0x42, 0x4f, 0x52, 0x54, 0x41, 0x46, 0x54,
      0x45, 0x52, 0x45, 0x4e, 0x41, 0x4d, 0x45, 0x41, 0x4e, 0x44, 0x52, 0x4f, 0x50, 0x41, 0x52, 0x54,
      0x49, 0x54, 0x49, 0x4f, 0x4e, 0x41, 0x55, 0x54, 0x4f, 0x49, 0x4e, 0x43, 0x52, 0x45, 0x4d, 0x45,
      0x4e, 0x54, 0x43, 0x41, 0x53, 0x54, 0x43, 0x4f, 0x4c, 0x55, 0x4d, 0x4e, 0x43, 0x4f, 0x4d, 0x4d,
      0x49, 0x54, 0x43, 0x4f, 0x4e, 0x46, 0x4c, 0x49, 0x43, 0x54, 0x43, 0x52, 0x4f, 0x53, 0x53, 0x43,
      0x55, 0x52, 0x52, 0x45, 0x4e, 0x54, 0x5f, 0x54, 0x49, 0x4d, 0x45, 0x53, 0x54, 0x41, 0x4d, 0x50,
      0x52, 0x45, 0x43, 0x45, 0x44, 0x49, 0x4e, 0x47, 0x46, 0x41, 0x49, 0x4c, 0x41, 0x53, 0x54, 0x46,
      0x49, 0x4c, 0x54, 0x45, 0x52, 0x45, 0x50, 0x4c, 0x41, 0x43, 0x45, 0x46, 0x49, 0x52, 0x53, 0x54,
      0x46, 0x4f, 0x4c, 0x4c, 0x4f, 0x57, 0x49, 0x4e, 0x47, 0x46, 0x52, 0x4f, 0x4d, 0x46, 0x55, 0x4c,
      0x4c, 0x49, 0x4d, 0x49, 0x54, 0x49, 0x46, 0x4f, 0x52, 0x44, 0x45, 0x52, 0x45, 0x53, 0x54, 0x52,
      0x49, 0x43, 0x54, 0x4f, 0x54, 0x48, 0x45, 0x52, 0x53, 0x4f, 0x56, 0x45, 0x52, 0x45, 0x54, 0x55,
      0x52, 0x4e, 0x49, 0x4e, 0x47, 0x52, 0x49, 0x47, 0x48, 0x54, 0x52, 0x4f, 0x4c, 0x4c, 0x42, 0x41,
      0x43, 0x4b, 0x52, 0x4f, 0x57, 0x53, 0x55, 0x4e, 0x42, 0x4f, 0x55, 0x4e, 0x44, 0x45, 0x44, 0x55,
      0x4e, 0x49, 0x4f, 0x4e, 0x55, 0x53, 0x49, 0x4e, 0x47, 0x56, 0x41, 0x43, 0x55, 0x55, 0x4d, 0x56,
      0x49, 0x45, 0x57, 0x49, 0x4e, 0x44, 0x4f, 0x57, 0x42, 0x59, 0x49, 0x4e, 0x49, 0x54, 0x49, 0x41,
      0x4c, 0x4c, 0x59, 0x50, 0x52, 0x49, 0x4d, 0x41, 0x52, 0x59]"

definition aKWHash :: "nat list" where
  "aKWHash =
     [84, 92, 134, 82, 105, 29, 0, 0, 94, 0, 85, 72, 0, 53, 35, 86, 15, 0, 42, 97, 54, 89, 135, 19,
      0, 0, 140, 0, 40, 129, 0, 22, 107, 0, 9, 0, 0, 123, 80, 0, 78, 6, 0, 65, 103, 147, 0, 136, 115,
      0, 0, 48, 0, 90, 24, 0, 17, 0, 27, 70, 23, 26, 5, 60, 142, 110, 122, 0, 73, 91, 71, 145, 61,
      120, 74, 0, 49, 0, 11, 41, 0, 113, 0, 0, 0, 109, 10, 111, 116, 125, 14, 50, 124, 0, 100, 0, 18,
      121, 144, 56, 130, 139, 88, 83, 37, 30, 126, 0, 0, 108, 51, 131, 128, 0, 34, 0, 0, 132, 0, 98,
      38, 39, 0, 20, 45, 117, 93]"

definition aKWNext :: "nat list" where
  "aKWNext =
     [0, 0, 0, 0, 0, 4, 0, 43, 0, 0, 106, 114, 0, 0, 0, 2, 0, 0, 143, 0, 0, 0, 13, 0, 0, 0, 0, 141,
      0, 0, 119, 52, 0, 0, 137, 12, 0, 0, 62, 0, 138, 0, 133, 0, 0, 36, 0, 0, 28, 77, 0, 0, 0, 0, 59,
      0, 47, 0, 0, 0, 0, 0, 0, 0, 0, 0, 0, 69, 0, 0, 0, 0, 0, 146, 3, 0, 58, 0, 1, 75, 0, 0, 0, 31,
      0, 0, 0, 0, 0, 127, 0, 104, 0, 64, 66, 63, 0, 0, 0, 0, 0, 46, 0, 16, 8, 0, 0, 0, 0, 0, 0, 0, 0,
      0, 0, 81, 101, 0, 112, 21, 7, 67, 0, 79, 96, 118, 0, 0, 68, 0, 0, 99, 44, 0, 55, 0, 76, 0, 95,
      32, 33, 57, 25, 0, 102, 0, 0, 87]"

definition aKWLen :: "nat list" where
  "aKWLen =
     [0, 7, 7, 5, 4, 6, 4, 5, 3, 6, 7, 3, 6, 6, 7, 7, 3, 8, 2, 6, 5, 4, 4, 3, 10, 4, 7, 6, 9, 4, 2,
      6, 5, 9, 9, 4, 7, 3, 2, 4, 4, 6, 11, 6, 2, 7, 5, 5, 9, 6, 10, 4, 6, 2, 3, 7, 5, 9, 6, 6, 4, 5,
      5, 10, 6, 5, 7, 4, 5, 7, 6, 7, 7, 6, 5, 7, 3, 7, 4, 7, 6, 12, 9, 4, 6, 5, 4, 7, 6, 12, 8, 8, 2,
      6, 6, 7, 6, 4, 5, 9, 5, 5, 6, 3, 4, 9, 13, 2, 2, 4, 6, 6, 8, 5, 17, 12, 7, 9, 4, 4, 6, 7, 5, 9,
      4, 4, 5, 2, 5, 8, 6, 4, 9, 5, 8, 4, 3, 9, 5, 5, 6, 4, 6, 2, 2, 9, 3, 7]"

definition aKWOffset :: "nat list" where
  "aKWOffset =
     [0, 0, 2, 2, 8, 9, 14, 16, 20, 23, 25, 25, 29, 33, 36, 41, 46, 48, 53, 54, 59, 62, 65, 67, 69,
      78, 81, 86, 90, 90, 94, 99, 101, 105, 111, 119, 123, 123, 123, 126, 129, 132, 137, 142, 146,
      147, 152, 156, 160, 168, 174, 181, 184, 184, 187, 189, 195, 198, 206, 211, 216, 219, 222, 226,
      236, 239, 244, 244, 248, 252, 259, 265, 271, 277, 277, 283, 284, 288, 295, 299, 306, 312, 324,
      333, 335, 341, 346, 348, 355, 359, 370, 377, 378, 385, 391, 397, 402, 408, 412, 415, 424, 429,
      433, 439, 441, 444, 453, 455, 457, 466, 470, 476, 482, 490, 495, 495, 495, 511, 520, 523, 527,
      532, 539, 544, 553, 557, 560, 565, 567, 571, 579, 585, 588, 597, 602, 610, 610, 614, 623, 628,
      633, 639, 642, 645, 648, 650, 655, 659]"

definition aKWCode :: "int list" where
  "aKWCode =
     [0, TK_REINDEX, TK_INDEXED, TK_INDEX, TK_DESC, TK_ESCAPE, TK_EACH, TK_CHECK, TK_KEY, TK_BEFORE,
      TK_FOREIGN, TK_FOR, TK_IGNORE, TK_LIKE_KW, TK_EXPLAIN, TK_INSTEAD, TK_ADD, TK_DATABASE, TK_AS,
      TK_SELECT, TK_TABLE, TK_JOIN_KW, TK_THEN, TK_END, TK_DEFERRABLE, TK_ELSE, TK_EXCLUDE,
      TK_DELETE, TK_TEMP, TK_TEMP, TK_OR, TK_ISNULL, TK_NULLS, TK_SAVEPOINT, TK_INTERSECT, TK_TIES,
      TK_NOTNULL, TK_NOT, TK_NO, TK_NULL, TK_LIKE_KW, TK_EXCEPT, TK_TRANSACTION, TK_ACTION, TK_ON,
      TK_JOIN_KW, TK_ALTER, TK_RAISE, TK_EXCLUSIVE, TK_EXISTS, TK_CONSTRAINT, TK_INTO, TK_OFFSET,
      TK_OF, TK_SET, TK_TRIGGER, TK_RANGE, TK_GENERATED, TK_DETACH, TK_HAVING, TK_LIKE_KW, TK_BEGIN,
      TK_JOIN_KW, TK_REFERENCES, TK_UNIQUE, TK_QUERY, TK_WITHOUT, TK_WITH, TK_JOIN_KW, TK_RELEASE,
      TK_ATTACH, TK_BETWEEN, TK_NOTHING, TK_GROUPS, TK_GROUP, TK_CASCADE, TK_ASC, TK_DEFAULT,
      TK_CASE, TK_COLLATE, TK_CREATE, TK_CTIME_KW, TK_IMMEDIATE, TK_JOIN, TK_INSERT, TK_MATCH,
      TK_PLAN, TK_ANALYZE, TK_PRAGMA, TK_MATERIALIZED, TK_DEFERRED, TK_DISTINCT, TK_IS, TK_UPDATE,
      TK_VALUES, TK_VIRTUAL, TK_ALWAYS, TK_WHEN, TK_WHERE, TK_RECURSIVE, TK_ABORT, TK_AFTER,
      TK_RENAME, TK_AND, TK_DROP, TK_PARTITION, TK_AUTOINCR, TK_TO, TK_IN, TK_CAST, TK_COLUMNKW,
      TK_COMMIT, TK_CONFLICT, TK_JOIN_KW, TK_CTIME_KW, TK_CTIME_KW, TK_CURRENT, TK_PRECEDING,
      TK_FAIL, TK_LAST, TK_FILTER, TK_REPLACE, TK_FIRST, TK_FOLLOWING, TK_FROM, TK_JOIN_KW, TK_LIMIT,
      TK_IF, TK_ORDER, TK_RESTRICT, TK_OTHERS, TK_OVER, TK_RETURNING, TK_JOIN_KW, TK_ROLLBACK,
      TK_ROWS, TK_ROW, TK_UNBOUNDED, TK_UNION, TK_USING, TK_VACUUM, TK_VIEW, TK_WINDOW, TK_DO, TK_BY,
      TK_INITIALLY, TK_ALL, TK_PRIMARY]"

section \<open>The lookup\<close>

text \<open>\<open>charMap(X)\<close> on an ASCII machine.\<close>
definition charMap :: "u8 \<Rightarrow> nat" where
  "charMap c = unat (UpperToLower c)"

text \<open>\<open>((charMap(z[0])*4) ^ (charMap(z[n-1])*3) ^ n*1) % 127\<close>\<close>
definition kw_hash :: "bytes \<Rightarrow> nat \<Rightarrow> nat" where
  "kw_hash z n = ((charMap (z ! 0) * 4) XOR (charMap (z ! (n - 1)) * 3) XOR (n * 1)) mod 127"

text \<open>\<open>zKW = &zKWText[aKWOffset[i]]\<close>, as far as its length.\<close>
definition kw_text :: "nat \<Rightarrow> bytes" where
  "kw_text i = take (aKWLen ! i) (drop (aKWOffset ! i) zKWText)"

text \<open>\<open>while( j<n && (z[j]&~0x20)==zKW[j] ){ j++; }\<close>, returning \<open>j\<close>.\<close>
fun match_loop :: "nat \<Rightarrow> bytes \<Rightarrow> bytes \<Rightarrow> nat" where
  "match_loop j (c # z) (k # kw) = (if c AND NOT 0x20 = k then match_loop (j + 1) z kw else j)"
| "match_loop j _ _ = j"

text \<open>\<open>aKWNext[i]\<close>; an index outside the table does not occur.\<close>
definition kw_next :: "nat \<Rightarrow> nat" where
  "kw_next i = (if i < length aKWNext then aKWNext ! i else 0)"

text \<open>How many sql_keywords are left on the chain: the chains are not ordered by index, so this is why
  the loop ends.\<close>
definition kw_rank :: "nat list" where
  "kw_rank =
     [0, 1, 1, 1, 1, 2, 1, 2, 1, 1, 2, 2, 1, 1, 1, 2, 1, 1, 2, 1, 1, 1, 2, 1, 1, 1, 1, 3, 1, 1, 3, 2,
      1, 1, 2, 2, 1, 1, 2, 1, 4, 1, 2, 1, 1, 2, 1, 1, 2, 2, 1, 1, 1, 1, 2, 1, 2, 1, 1, 1, 1, 1, 1, 1,
      1, 1, 1, 2, 1, 1, 1, 1, 1, 2, 2, 1, 2, 1, 2, 2, 1, 1, 1, 3, 1, 1, 1, 1, 1, 2, 1, 3, 1, 2, 2, 2,
      1, 1, 1, 1, 1, 2, 1, 2, 2, 1, 1, 1, 1, 1, 1, 1, 1, 1, 1, 2, 3, 1, 2, 2, 3, 3, 1, 3, 2, 3, 1, 1,
      2, 1, 1, 2, 2, 1, 2, 1, 3, 1, 3, 2, 2, 2, 2, 1, 2, 1, 1, 2]"

lemma kw_rank_next: "0 < i \<Longrightarrow> i < 148 \<Longrightarrow> kw_rank ! (aKWNext ! i) < kw_rank ! i"
proof -
  have *: "list_all (\<lambda>(r, k). kw_rank ! k < r) (tl (zip kw_rank aKWNext))"
    unfolding kw_rank_def aKWNext_def by simp
  assume i: "0 < i" "i < 148"
  have len: "length kw_rank = 148" "length aKWNext = 148"
    by (simp_all add: kw_rank_def aKWNext_def)
  then have "tl (zip kw_rank aKWNext) ! (i - 1) = (kw_rank ! i, aKWNext ! i)"
    using i by (simp add: nth_tl)
  moreover have "i - 1 < length (tl (zip kw_rank aKWNext))" using i len by simp
  ultimately show ?thesis using * unfolding list_all_length by fastforce
qed

lemma length_tables [simp]:
  "length aKWNext = 148" "length aKWLen = 148" "length aKWOffset = 148" "length aKWCode = 148"
  "length aKWHash = 127" "length zKWText = 666" "length kw_rank = 148"
  by (simp_all add: aKWNext_def aKWLen_def aKWOffset_def aKWCode_def aKWHash_def zKWText_def kw_rank_def)

lemma kw_next_less: "kw_next i < 148"
proof -
  have "list_all (\<lambda>k. k < 148) aKWNext" by (simp add: aKWNext_def)
  then show ?thesis by (auto simp: kw_next_def list_all_length)
qed

definition rank_of :: "nat \<Rightarrow> nat" where
  "rank_of i = (if i < 148 then kw_rank ! i else 5)"

lemma rank_of_next: "0 < i \<Longrightarrow> rank_of (kw_next i) < rank_of i"
  using kw_rank_next [of i] kw_next_less [of i]
  by (auto simp: rank_of_def kw_next_def kw_rank_def)

text \<open>The loop over the chain: the index of the keyword found, \<open>0\<close> when there is none.\<close>
function kw_chain :: "bytes \<Rightarrow> nat \<Rightarrow> nat \<Rightarrow> nat" where
  "kw_chain z n i =
     (if i = 0 then 0
      else if aKWLen ! i \<noteq> n then kw_chain z n (kw_next i)
      else let zKW = kw_text i in
        if z ! 0 AND NOT 0x20 \<noteq> zKW ! 0 then kw_chain z n (kw_next i)
        else if z ! 1 AND NOT 0x20 \<noteq> zKW ! 1 then kw_chain z n (kw_next i)
        else if match_loop 2 (drop 2 (take n z)) (drop 2 zKW) < n then kw_chain z n (kw_next i)
        else i)"
  by pat_completeness auto

termination
  by (relation "measure (\<lambda>(z, n, i). rank_of i)") (auto simp: rank_of_next)

declare kw_chain.simps [simp del]

text \<open>The type written to \<open>*pType\<close>, which holds \<open>t\<close> before; the length \<open>n\<close> is returned unchanged.\<close>
definition keywordCode :: "bytes \<Rightarrow> nat \<Rightarrow> int \<Rightarrow> int" where
  "keywordCode z n t =
     (let i = kw_chain z n (aKWHash ! kw_hash z n) in if 0 < i then aKWCode ! i else t)"

definition sqlite3KeywordCode :: "bytes \<Rightarrow> int \<Rightarrow> int" where
  "sqlite3KeywordCode z n = (if 2 \<le> n then keywordCode z (nat n) TK_ID else TK_ID)"

definition SQLITE_N_KEYWORD :: int where
  "SQLITE_N_KEYWORD = 147"

text \<open>\<open>None\<close> is \<open>SQLITE_ERROR\<close>; else the name stored through the two pointers.\<close>
definition sqlite3_keyword_name :: "int \<Rightarrow> bytes option" where
  "sqlite3_keyword_name i =
     (if i < 0 \<or> SQLITE_N_KEYWORD \<le> i then None else Some (kw_text (nat (i + 1))))"

definition sqlite3_keyword_count :: int where
  "sqlite3_keyword_count = SQLITE_N_KEYWORD"

definition sqlite3_keyword_check :: "bytes \<Rightarrow> int \<Rightarrow> bool" where
  "sqlite3_keyword_check zName nName \<longleftrightarrow> TK_ID \<noteq> sqlite3KeywordCode zName nName"

section \<open>The keywords\<close>

definition sql_keywords :: "(string \<times> int) list" where
  "sql_keywords =
     [(''REINDEX'', TK_REINDEX), (''INDEXED'', TK_INDEXED), (''INDEX'', TK_INDEX),
      (''DESC'', TK_DESC), (''ESCAPE'', TK_ESCAPE), (''EACH'', TK_EACH), (''CHECK'', TK_CHECK),
      (''KEY'', TK_KEY), (''BEFORE'', TK_BEFORE), (''FOREIGN'', TK_FOREIGN), (''FOR'', TK_FOR),
      (''IGNORE'', TK_IGNORE), (''REGEXP'', TK_LIKE_KW), (''EXPLAIN'', TK_EXPLAIN),
      (''INSTEAD'', TK_INSTEAD), (''ADD'', TK_ADD), (''DATABASE'', TK_DATABASE), (''AS'', TK_AS),
      (''SELECT'', TK_SELECT), (''TABLE'', TK_TABLE), (''LEFT'', TK_JOIN_KW), (''THEN'', TK_THEN),
      (''END'', TK_END), (''DEFERRABLE'', TK_DEFERRABLE), (''ELSE'', TK_ELSE),
      (''EXCLUDE'', TK_EXCLUDE), (''DELETE'', TK_DELETE), (''TEMPORARY'', TK_TEMP),
      (''TEMP'', TK_TEMP), (''OR'', TK_OR), (''ISNULL'', TK_ISNULL), (''NULLS'', TK_NULLS),
      (''SAVEPOINT'', TK_SAVEPOINT), (''INTERSECT'', TK_INTERSECT), (''TIES'', TK_TIES),
      (''NOTNULL'', TK_NOTNULL), (''NOT'', TK_NOT), (''NO'', TK_NO), (''NULL'', TK_NULL),
      (''LIKE'', TK_LIKE_KW), (''EXCEPT'', TK_EXCEPT), (''TRANSACTION'', TK_TRANSACTION),
      (''ACTION'', TK_ACTION), (''ON'', TK_ON), (''NATURAL'', TK_JOIN_KW), (''ALTER'', TK_ALTER),
      (''RAISE'', TK_RAISE), (''EXCLUSIVE'', TK_EXCLUSIVE), (''EXISTS'', TK_EXISTS),
      (''CONSTRAINT'', TK_CONSTRAINT), (''INTO'', TK_INTO), (''OFFSET'', TK_OFFSET), (''OF'', TK_OF),
      (''SET'', TK_SET), (''TRIGGER'', TK_TRIGGER), (''RANGE'', TK_RANGE),
      (''GENERATED'', TK_GENERATED), (''DETACH'', TK_DETACH), (''HAVING'', TK_HAVING),
      (''GLOB'', TK_LIKE_KW), (''BEGIN'', TK_BEGIN), (''INNER'', TK_JOIN_KW),
      (''REFERENCES'', TK_REFERENCES), (''UNIQUE'', TK_UNIQUE), (''QUERY'', TK_QUERY),
      (''WITHOUT'', TK_WITHOUT), (''WITH'', TK_WITH), (''OUTER'', TK_JOIN_KW),
      (''RELEASE'', TK_RELEASE), (''ATTACH'', TK_ATTACH), (''BETWEEN'', TK_BETWEEN),
      (''NOTHING'', TK_NOTHING), (''GROUPS'', TK_GROUPS), (''GROUP'', TK_GROUP),
      (''CASCADE'', TK_CASCADE), (''ASC'', TK_ASC), (''DEFAULT'', TK_DEFAULT), (''CASE'', TK_CASE),
      (''COLLATE'', TK_COLLATE), (''CREATE'', TK_CREATE), (''CURRENT_DATE'', TK_CTIME_KW),
      (''IMMEDIATE'', TK_IMMEDIATE), (''JOIN'', TK_JOIN), (''INSERT'', TK_INSERT),
      (''MATCH'', TK_MATCH), (''PLAN'', TK_PLAN), (''ANALYZE'', TK_ANALYZE), (''PRAGMA'', TK_PRAGMA),
      (''MATERIALIZED'', TK_MATERIALIZED), (''DEFERRED'', TK_DEFERRED), (''DISTINCT'', TK_DISTINCT),
      (''IS'', TK_IS), (''UPDATE'', TK_UPDATE), (''VALUES'', TK_VALUES), (''VIRTUAL'', TK_VIRTUAL),
      (''ALWAYS'', TK_ALWAYS), (''WHEN'', TK_WHEN), (''WHERE'', TK_WHERE),
      (''RECURSIVE'', TK_RECURSIVE), (''ABORT'', TK_ABORT), (''AFTER'', TK_AFTER),
      (''RENAME'', TK_RENAME), (''AND'', TK_AND), (''DROP'', TK_DROP), (''PARTITION'', TK_PARTITION),
      (''AUTOINCREMENT'', TK_AUTOINCR), (''TO'', TK_TO), (''IN'', TK_IN), (''CAST'', TK_CAST),
      (''COLUMN'', TK_COLUMNKW), (''COMMIT'', TK_COMMIT), (''CONFLICT'', TK_CONFLICT),
      (''CROSS'', TK_JOIN_KW), (''CURRENT_TIMESTAMP'', TK_CTIME_KW), (''CURRENT_TIME'', TK_CTIME_KW),
      (''CURRENT'', TK_CURRENT), (''PRECEDING'', TK_PRECEDING), (''FAIL'', TK_FAIL),
      (''LAST'', TK_LAST), (''FILTER'', TK_FILTER), (''REPLACE'', TK_REPLACE), (''FIRST'', TK_FIRST),
      (''FOLLOWING'', TK_FOLLOWING), (''FROM'', TK_FROM), (''FULL'', TK_JOIN_KW),
      (''LIMIT'', TK_LIMIT), (''IF'', TK_IF), (''ORDER'', TK_ORDER), (''RESTRICT'', TK_RESTRICT),
      (''OTHERS'', TK_OTHERS), (''OVER'', TK_OVER), (''RETURNING'', TK_RETURNING),
      (''RIGHT'', TK_JOIN_KW), (''ROLLBACK'', TK_ROLLBACK), (''ROWS'', TK_ROWS), (''ROW'', TK_ROW),
      (''UNBOUNDED'', TK_UNBOUNDED), (''UNION'', TK_UNION), (''USING'', TK_USING),
      (''VACUUM'', TK_VACUUM), (''VIEW'', TK_VIEW), (''WINDOW'', TK_WINDOW), (''DO'', TK_DO),
      (''BY'', TK_BY), (''INITIALLY'', TK_INITIALLY), (''ALL'', TK_ALL), (''PRIMARY'', TK_PRIMARY)]"

definition ascii :: "string \<Rightarrow> bytes" where
  "ascii w = map of_char w"

lemma keyword_codes: "tl aKWCode = map snd sql_keywords"
  by (simp add: aKWCode_def sql_keywords_def)

fun slices :: "nat \<Rightarrow> bytes \<Rightarrow> (nat \<times> nat) list \<Rightarrow> bytes list" where
  "slices b t [] = []"
| "slices b t ((a, k) # ps) = take k (drop (a - b) t) # slices a (drop (a - b) t) ps"

lemma slices_eq:
  "sorted (b # map fst ps) \<Longrightarrow> slices b (drop b t) ps = map (\<lambda>(a, k). take k (drop a t)) ps"
  by (induction ps arbitrary: b) auto

lemma slices_keywords:
  "slices 0 zKWText (zip (tl aKWOffset) (tl aKWLen)) = map (ascii \<circ> fst) sql_keywords"
  unfolding zKWText_def aKWOffset_def aKWLen_def sql_keywords_def ascii_def by simp

lemma length_keywords [simp]: "length sql_keywords = 147"
  by (simp add: sql_keywords_def)

lemma keywords_texts: "map (ascii \<circ> fst) sql_keywords = map kw_text [1..<148]"
proof -
  have "sorted (0 # map fst (zip (tl aKWOffset) (tl aKWLen)))"
    by (simp add: aKWOffset_def aKWLen_def sorted2 sorted1 del: sorted_wrt.simps)
  from slices_eq [OF this, of zKWText]
  have "map (ascii \<circ> fst) sql_keywords = map (\<lambda>(a, k). take k (drop a zKWText)) (zip (tl aKWOffset) (tl aKWLen))"
    by (simp add: slices_keywords)
  also have "\<dots> = map kw_text [1..<148]"
    by (rule nth_equalityI) (simp_all add: kw_text_def nth_tl)
  finally show ?thesis .
qed

lemma keyword_text: "0 < i \<Longrightarrow> i < 148 \<Longrightarrow> kw_text i = ascii (fst (sql_keywords ! (i - 1)))"
  using arg_cong [OF keywords_texts, of "\<lambda>xs. xs ! (i - 1)"] by simp

lemma keyword_code: "0 < i \<Longrightarrow> i < 148 \<Longrightarrow> aKWCode ! i = snd (sql_keywords ! (i - 1))"
  using arg_cong [OF keyword_codes, of "\<lambda>xs. xs ! (i - 1)"] by (simp add: nth_tl)

lemma distinct_keywords: "distinct (map fst sql_keywords)"
  unfolding sql_keywords_def by simp

function chain :: "nat \<Rightarrow> nat list" where
  "chain i = (if i = 0 then [] else i # chain (kw_next i))"
  by pat_completeness auto
termination
  by (relation "measure rank_of") (auto simp: rank_of_next)

declare chain.simps [simp del]

definition kw_home :: "bytes \<Rightarrow> nat" where
  "kw_home w = aKWHash ! kw_hash w (length w)"

definition homes :: "nat list" where
  "homes =
     [78, 15, 74, 5, 5, 6, 120, 91, 9, 10, 11, 35, 22, 14, 15, 103, 17, 18, 19, 20, 30, 22, 23, 24,
      142, 26, 27, 48, 29, 30, 83, 139, 140, 34, 35, 45, 37, 38, 39, 40, 41, 42, 120, 132, 45, 116,
      56, 48, 49, 50, 51, 83, 53, 54, 134, 56, 27, 136, 54, 60, 61, 38, 40, 93, 65, 94, 121, 128,
      121, 70, 71, 72, 73, 74, 123, 136, 49, 78, 123, 80, 115, 82, 83, 84, 85, 86, 147, 88, 89, 90,
      91, 92, 93, 94, 40, 124, 97, 98, 131, 100, 116, 144, 103, 91, 105, 10, 107, 108, 109, 110, 111,
      125, 113, 11, 115, 116, 117, 125, 30, 120, 121, 122, 123, 124, 125, 126, 89, 128, 129, 130,
      131, 132, 42, 134, 135, 136, 34, 40, 139, 140, 27, 142, 18, 144, 145, 73, 147]"

lemma home_of_keywords: "map (kw_home \<circ> ascii \<circ> fst) sql_keywords = homes"
  unfolding sql_keywords_def homes_def aKWHash_def kw_home_def
  by (simp add: kw_hash_def charMap_def unat_lower ascii_def numeral_2_eq_2 [symmetric])

lemma chain_0 [simp]: "chain 0 = []"
  by (simp add: chain.simps)

lemma homes_reach: "list_all (\<lambda>(i, k). i \<in> set (chain k)) (zip [1..<148] homes)"
  by (simp add: homes_def chain.simps kw_next_def aKWNext_def upt_rec)

section \<open>The lookup finds what is there\<close>

definition kfold :: "u8 \<Rightarrow> u8" where
  "kfold c = c AND NOT 0x20"

lemma clear_bit_5: "c AND NOT 0x20 = c - of_bool (bit c 5) * (32 :: u8)"
  using unset_bit_eq [of 5 c] by (simp add: unset_bit_eq_and_not push_bit_eq_mult)

lemma bit_5: "bit (c :: u8) 5 \<longleftrightarrow> odd (unat c div 32)"
proof -
  have "bit c 5 \<longleftrightarrow> bit (unat c) 5" by (simp add: bit_unsigned_iff bit_imp_le_length bit_u8_ge)
  then show ?thesis by (simp add: bit_iff_odd)
qed

lemma unat_kfold: "unat (kfold c) = (if odd (unat c div 32) then unat c - 32 else unat c)"
proof (cases "odd (unat c div 32)")
  case True
  then have "32 \<le> unat c" by (cases "unat c < 32") auto
  then have "unat (c - 32) = unat c - 32" by (subst unat_sub) (simp_all add: word_le_nat_alt)
  then show ?thesis using True unfolding kfold_def clear_bit_5 bit_5 by simp
next
  case False
  then show ?thesis unfolding kfold_def clear_bit_5 bit_5 by simp
qed

lemma block_cases:
  assumes "m < (256 :: nat)"
  obtains "even (m div 32)" "m < 32 \<or> 64 \<le> m \<and> m < 96 \<or> 128 \<le> m"
  | "odd (m div 32)" "32 \<le> m \<and> m < 64 \<or> 96 \<le> m \<and> m < 128 \<or> 160 \<le> m"
proof -
  define q where "q = m div 32"
  have m: "32 * q \<le> m" "m < 32 * q + 32" by (simp_all add: q_def dividend_less_times_div mult.commute)
  then have "q = 0 \<or> q = 1 \<or> q = 2 \<or> q = 3 \<or> q = 4 \<or> q = 5 \<or> q = 6 \<or> q = 7" using assms by linarith
  then show ?thesis using m that unfolding q_def [symmetric] by (elim disjE) simp_all
qed

lemma kfold_lower:
  assumes "65 \<le> unat (kfold c)" "unat (kfold c) \<le> 90"
  shows "unat (UpperToLower c) = unat (kfold c) + 32"
  using assms unfolding unat_kfold unat_lower
  by (cases rule: block_cases [OF unat_u8_less [of c]]) auto

definition kw_char :: "u8 \<Rightarrow> bool" where
  "kw_char c \<longleftrightarrow> 65 \<le> unat c \<and> unat c \<le> 90 \<or> c = 0x5f"

lemma Toupper_eq: "sqlite3Toupper c = (if 97 \<le> unat c \<and> unat c \<le> 122 then kfold c else c)"
  by (simp add: sqlite3Toupper_def ctype_at ctype_of_def kfold_def)

lemma kfold_upper:
  assumes "IdChar c" "kw_char (kfold c) \<or> kw_char (sqlite3Toupper c)"
  shows "kfold c = sqlite3Toupper c"
proof (cases "97 \<le> unat c \<and> unat c \<le> 122")
  case False
  have "unat (kfold c) = unat c"
    using assms False unfolding kw_char_def word_unat_eq_iff unat_kfold Toupper_eq ctype_iffs
    by (cases rule: block_cases [OF unat_u8_less [of c]]) (auto simp: unat_kfold)
  then show ?thesis using False by (simp add: Toupper_eq word_unat_eq_iff)
qed (simp add: Toupper_eq)

lemma keyword_shape:
  "list_all (\<lambda>(w, t). 2 \<le> length w \<and> list_all kw_char (ascii w) \<and> kw_char (hd (ascii w)) \<and> hd (ascii w) \<noteq> 0x5f
      \<and> last (ascii w) \<noteq> 0x5f \<and> t \<noteq> TK_ID) sql_keywords"
  unfolding sql_keywords_def by (simp add: ascii_def kw_char_def TK_defs)

lemma keyword_ends: "list_all (\<lambda>(a, k). a + k \<le> 666) (zip (tl aKWOffset) (tl aKWLen))"
  by (simp add: aKWOffset_def aKWLen_def)

lemma homes_less: "list_all (\<lambda>k. k < 148) aKWHash"
  by (simp add: aKWHash_def)

lemma list_all_nthD: "list_all P xs \<Longrightarrow> i < length xs \<Longrightarrow> P (xs ! i)"
  by (simp add: list_all_length)

lemma kw_text_length: "0 < i \<Longrightarrow> i < 148 \<Longrightarrow> length (kw_text i) = aKWLen ! i"
  using list_all_nthD [OF keyword_ends, of "i - 1"] by (simp add: kw_text_def nth_tl less_diff_conv2)

lemma kw_text_shape:
  assumes "0 < i" "i < 148"
  shows "2 \<le> length (kw_text i)" "list_all kw_char (kw_text i)"
    "65 \<le> unat (hd (kw_text i)) \<and> unat (hd (kw_text i)) \<le> 90"
    "65 \<le> unat (last (kw_text i)) \<and> unat (last (kw_text i)) \<le> 90"
    "aKWCode ! i \<noteq> TK_ID"
proof -
  have p: "i - 1 < length sql_keywords" using assms by simp
  from list_all_nthD [OF keyword_shape p]
  have *: "2 \<le> length (kw_text i)" "list_all kw_char (kw_text i)" "hd (kw_text i) \<noteq> 0x5f" "last (kw_text i) \<noteq> 0x5f"
    "aKWCode ! i \<noteq> TK_ID"
    using assms by (simp_all add: keyword_text keyword_code ascii_def case_prod_unfold)
  moreover have "kw_text i \<noteq> []" using *(1) by auto
  then have "kw_char (hd (kw_text i))" "kw_char (last (kw_text i))"
    using *(2) by (simp_all add: list_all_iff)
  ultimately show "2 \<le> length (kw_text i)" "list_all kw_char (kw_text i)"
    "65 \<le> unat (hd (kw_text i)) \<and> unat (hd (kw_text i)) \<le> 90"
    "65 \<le> unat (last (kw_text i)) \<and> unat (last (kw_text i)) \<le> 90"
    "aKWCode ! i \<noteq> TK_ID"
    by (simp_all add: kw_char_def)
qed

lemma of_char_u8_inj: "(of_char c :: u8) = of_char d \<longleftrightarrow> c = d"
proof -
  have "unat (of_char c :: u8) = of_char c" for c
  proof -
    have "(of_char c :: u8) = word_of_nat (of_char c)" by (simp add: of_nat_of_char)
    also have "unat \<dots> = of_char c" using nat_of_char_less_256 [of c]
      by (simp add: unsigned_of_nat take_bit_nat_eq_self)
    finally show ?thesis .
  qed
  from this [of c] this [of d] show ?thesis by (metis of_char_eq_iff)
qed

lemma ascii_inj: "ascii v = ascii w \<Longrightarrow> v = w"
  unfolding ascii_def
  by (erule map_injective) (simp add: inj_on_def of_char_u8_inj)

lemma kw_text_inj:
  assumes "0 < i" "i < 148" "0 < j" "j < 148" "kw_text i = kw_text j"
  shows "i = j"
proof -
  have "map fst sql_keywords ! (i - 1) = map fst sql_keywords ! (j - 1)"
    using assms ascii_inj by (auto simp: keyword_text)
  then have "i - 1 = j - 1"
    using distinct_keywords assms by (subst (asm) nth_eq_iff_index_eq) auto
  then show ?thesis using assms by simp
qed

lemma match_loop_full:
  "length z = length kw \<Longrightarrow> match_loop j z kw < j + length z \<longleftrightarrow> map kfold z \<noteq> kw"
proof (induction j z kw rule: match_loop.induct)
  case (1 j c z k kw)
  then show ?case by (cases "c AND NOT 0x20 = k") (auto simp: kfold_def)
qed auto

lemma chain_step_match:
  assumes i: "0 < i" "i < 148" and n: "2 \<le> n" "n \<le> length z"
  shows "aKWLen ! i = n \<and> z ! 0 AND NOT 0x20 = kw_text i ! 0 \<and> z ! 1 AND NOT 0x20 = kw_text i ! 1
      \<and> \<not> match_loop 2 (drop 2 (take n z)) (drop 2 (kw_text i)) < n
    \<longleftrightarrow> map kfold (take n z) = kw_text i"
proof (cases "aKWLen ! i = n")
  case True
  define w where "w = take n z"
  have w: "length w = n" "w ! 0 = z ! 0" "w ! 1 = z ! 1" using n by (simp_all add: w_def)
  obtain a b v where z: "w = a # b # v"
    using w(1) n(1) by (cases w; cases "tl w") auto
  obtain a' b' v' where k: "kw_text i = a' # b' # v'"
    using kw_text_length [OF i] True n by (cases "kw_text i"; cases "tl (kw_text i)") auto
  have l: "length v = length v'" "n = 2 + length v"
    using kw_text_length [OF i] True w z k by simp_all
  have c: "z ! 0 = a" "z ! 1 = b" using w z by simp_all
  show ?thesis
    using match_loop_full [OF l(1), of 2] True l(2) z k
    unfolding w_def [symmetric] c by (auto simp: kfold_def)
next
  case False
  then show ?thesis using kw_text_length [OF i] n by (metis length_map length_take min.absorb2)
qed

lemma chain_bounds: "k \<in> set (chain i) \<Longrightarrow> i < 148 \<Longrightarrow> 0 < k \<and> k < 148"
proof (induction i rule: chain.induct)
  case (1 i)
  then show ?case using kw_next_less by (cases "i = 0") (auto simp: chain.simps [of i])
qed

lemma kw_chain_find:
  assumes "2 \<le> n" "n \<le> length z" "i < 148"
  shows "kw_chain z n i
    = (case find (\<lambda>k. map kfold (take n z) = kw_text k) (chain i) of None \<Rightarrow> 0 | Some k \<Rightarrow> k)"
  using assms(3)
proof (induction i rule: chain.induct)
  case (1 i)
  show ?case
  proof (cases "i = 0")
    case False
    then have "kw_chain z n i = (if map kfold (take n z) = kw_text i then i else kw_chain z n (kw_next i))"
      using chain_step_match [OF _ 1(2) assms(1,2)]
      by (subst kw_chain.simps) (auto simp: Let_def)
    then show ?thesis using 1 False kw_next_less by (simp add: chain.simps [of i])
  qed (simp add: kw_chain.simps)
qed

lemma keyword_in_chain: "0 < i \<Longrightarrow> i < 148 \<Longrightarrow> i \<in> set (chain (kw_home (kw_text i)))"
proof -
  assume i: "0 < i" "i < 148"
  have l: "length homes = 147" by (simp add: homes_def)
  have "i \<in> set (chain (homes ! (i - 1)))"
    using list_all_nthD [OF homes_reach, of "i - 1"] i l by (auto simp: Suc_le_eq)
  moreover have "homes ! (i - 1) = kw_home (kw_text i)"
    using arg_cong [OF home_of_keywords, of "\<lambda>xs. xs ! (i - 1)"] i by (simp add: keyword_text)
  ultimately show ?thesis by simp
qed

lemma kw_hash_fold:
  assumes i: "0 < i" "i < 148" and n: "n \<le> length z" "map kfold (take n z) = kw_text i"
  shows "aKWHash ! kw_hash z n = kw_home (kw_text i)"
proof -
  have len: "n = length (kw_text i)" using arg_cong [OF n(2), of length] n(1) by simp
  have n2: "2 \<le> n" using kw_text_shape(1) [OF i] len by simp
  have nth: "kw_text i ! j = kfold (z ! j)" if "j < n" for j
    using that n(1) by (simp flip: n(2))
  have ne: "kw_text i \<noteq> []" using n2 len by auto
  have ends: "kfold (z ! 0) = hd (kw_text i)" "kfold (z ! (n - 1)) = last (kw_text i)"
    using nth [of 0] nth [of "n - 1"] n2 len ne by (simp_all add: hd_conv_nth last_conv_nth)
  have up: "65 \<le> unat (kfold (z ! 0))" "unat (kfold (z ! 0)) \<le> 90"
    "65 \<le> unat (kfold (z ! (n - 1)))" "unat (kfold (z ! (n - 1))) \<le> 90"
    using kw_text_shape(3,4) [OF i] ends by simp_all
  have "kw_text i ! 0 = hd (kw_text i)" "kw_text i ! (n - 1) = last (kw_text i)"
    using ne len by (simp_all add: hd_conv_nth last_conv_nth)
  then have "charMap (z ! 0) = charMap (kw_text i ! 0)" "charMap (z ! (n - 1)) = charMap (kw_text i ! (n - 1))"
    using kfold_lower [OF up(1,2)] kfold_lower [OF up(3,4)] ends up
    by (simp_all add: charMap_def unat_lower)
  then show ?thesis by (simp add: kw_home_def kw_hash_def len)
qed

text \<open>The code of a word in the keyword list.\<close>
definition keyword_of :: "bytes \<Rightarrow> int option" where
  "keyword_of w = map_of (map (\<lambda>(k, t). (ascii k, t)) sql_keywords) w"

lemma keyword_of_Some:
  assumes "0 < i" "i < 148" shows "keyword_of (kw_text i) = Some (aKWCode ! i)"
proof -
  have "distinct (map fst (map (\<lambda>(k, t). (ascii k, t)) sql_keywords))"
    using distinct_keywords ascii_inj
    by (simp add: comp_def case_prod_unfold distinct_map inj_on_def)
  moreover have "(kw_text i, aKWCode ! i) \<in> set (map (\<lambda>(k, t). (ascii k, t)) sql_keywords)"
    using assms by (auto simp: keyword_text keyword_code case_prod_unfold intro!: image_eqI [of _ _ "sql_keywords ! (i - 1)"])
  ultimately show ?thesis unfolding keyword_of_def by (rule map_of_is_SomeI)
qed

lemma keyword_of_None:
  assumes "\<And>i. 0 < i \<Longrightarrow> i < 148 \<Longrightarrow> w \<noteq> kw_text i" shows "keyword_of w = None"
proof (rule ccontr)
  assume "keyword_of w \<noteq> None"
  then obtain k t where kt: "(k, t) \<in> set sql_keywords" "w = ascii k"
    unfolding keyword_of_def by (auto dest!: map_of_SomeD)
  then obtain j where "j < 147" "fst (sql_keywords ! j) = k" by (auto simp: in_set_conv_nth)
  then have "kw_text (Suc j) = w" using kt(2) by (simp add: keyword_text)
  then show False using assms [of "Suc j"] \<open>j < 147\<close> by simp
qed

lemma keywordCode_fold:
  assumes n: "2 \<le> n" "n \<le> length z"
  shows "keywordCode z n t = (case keyword_of (map kfold (take n z)) of Some c \<Rightarrow> c | None \<Rightarrow> t)"
proof (cases "\<exists>i. 0 < i \<and> i < 148 \<and> map kfold (take n z) = kw_text i")
  case True
  then obtain i where i: "0 < i" "i < 148" "map kfold (take n z) = kw_text i" by blast
  have home: "aKWHash ! kw_hash z n = kw_home (kw_text i)" by (rule kw_hash_fold [OF i(1,2) n(2) i(3)])
  have "aKWHash ! kw_hash z n < 148" using list_all_nthD [OF homes_less, of "kw_hash z n"] by (simp add: kw_hash_def)
  moreover have "find (\<lambda>k. kw_text i = kw_text k) (chain (kw_home (kw_text i))) = Some i"
  proof -
    have "find (\<lambda>k. kw_text i = kw_text k) (chain (kw_home (kw_text i))) \<noteq> None"
      using keyword_in_chain [OF i(1,2)] by (auto simp: find_None_iff)
    then obtain k where k: "find (\<lambda>k. kw_text i = kw_text k) (chain (kw_home (kw_text i))) = Some k" by auto
    then have "k \<in> set (chain (kw_home (kw_text i)))" "kw_text i = kw_text k"
      by (auto simp: find_Some_iff)
    then show ?thesis using k chain_bounds kw_text_inj [OF i(1,2)] calculation home by metis
  qed
  ultimately show ?thesis
    using kw_chain_find [OF n] i home by (simp add: keywordCode_def keyword_of_Some)
next
  case False
  have h: "aKWHash ! kw_hash z n < 148" using list_all_nthD [OF homes_less, of "kw_hash z n"] by (simp add: kw_hash_def)
  have "find (\<lambda>k. map kfold (take n z) = kw_text k) (chain (aKWHash ! kw_hash z n)) = None"
    using False chain_bounds [OF _ h] by (auto simp: find_None_iff)
  then have "kw_chain z n (aKWHash ! kw_hash z n) = 0" using kw_chain_find [OF n h] by simp
  moreover have "keyword_of (map kfold (take n z)) = None" by (rule keyword_of_None) (use False in blast)
  ultimately show ?thesis by (simp add: keywordCode_def)
qed

lemma fold_is_upper:
  assumes "\<forall>c\<in>set w. IdChar c" "0 < i" "i < 148"
  shows "map kfold w = kw_text i \<longleftrightarrow> map sqlite3Toupper w = kw_text i"
proof -
  have "map kfold w = map sqlite3Toupper w" if "map kfold w = kw_text i \<or> map sqlite3Toupper w = kw_text i"
  proof (rule map_cong)
    fix c assume "c \<in> set w"
    moreover have "kw_char (kfold c) \<or> kw_char (sqlite3Toupper c)"
    proof -
      have "kfold c \<in> set (kw_text i) \<or> sqlite3Toupper c \<in> set (kw_text i)"
        using that
      proof
        assume "map kfold w = kw_text i"
        from arg_cong [OF this, of set] show ?thesis using \<open>c \<in> set w\<close> by auto
      next
        assume "map sqlite3Toupper w = kw_text i"
        from arg_cong [OF this, of set] show ?thesis using \<open>c \<in> set w\<close> by auto
      qed
      then show ?thesis using kw_text_shape(2) [OF assms(2,3)] by (auto simp: list_all_iff)
    qed
    ultimately show "kfold c = sqlite3Toupper c" using assms(1) kfold_upper by blast
  qed simp
  then show ?thesis by metis
qed

lemma keyword_of_cases:
  obtains i where "0 < i" "i < 148" "w = kw_text i" "keyword_of w = Some (aKWCode ! i)"
  | "\<forall>i. 0 < i \<longrightarrow> i < 148 \<longrightarrow> w \<noteq> kw_text i" "keyword_of w = None"
  using keyword_of_Some keyword_of_None by metis

lemma keyword_of_upper:
  assumes "\<forall>c\<in>set w. IdChar c"
  shows "keyword_of (map kfold w) = keyword_of (map sqlite3Toupper w)"
proof (cases rule: keyword_of_cases [of "map kfold w"])
  case (1 i)
  then show ?thesis using fold_is_upper [OF assms 1(1,2)] by simp
next
  case 2
  then have "\<And>i. 0 < i \<Longrightarrow> i < 148 \<Longrightarrow> map sqlite3Toupper w \<noteq> kw_text i"
    using fold_is_upper [OF assms] by blast
  then have "keyword_of (map sqlite3Toupper w) = None" by (rule keyword_of_None)
  then show ?thesis using 2 by simp
qed

lemma keyword_name_iff:
  "(\<exists>i < sqlite3_keyword_count. sqlite3_keyword_name i = Some w) \<longleftrightarrow> (\<exists>i. 0 < i \<and> i < 148 \<and> w = kw_text i)"
proof
  assume "\<exists>i < sqlite3_keyword_count. sqlite3_keyword_name i = Some w"
  then obtain i where "i < sqlite3_keyword_count" "sqlite3_keyword_name i = Some w" by blast
  then have "0 \<le> i" "i < 147" "w = kw_text (nat (i + 1))"
    by (simp_all add: sqlite3_keyword_name_def sqlite3_keyword_count_def SQLITE_N_KEYWORD_def split: if_splits)
  then show "\<exists>i. 0 < i \<and> i < 148 \<and> w = kw_text i" by (intro exI [of _ "nat (i + 1)"]) auto
next
  assume "\<exists>i. 0 < i \<and> i < 148 \<and> w = kw_text i"
  then obtain i where "0 < i" "i < 148" "w = kw_text i" by blast
  then show "\<exists>i < sqlite3_keyword_count. sqlite3_keyword_name i = Some w"
    by (intro exI [of _ "int i - 1"])
      (auto simp: sqlite3_keyword_name_def sqlite3_keyword_count_def SQLITE_N_KEYWORD_def)
qed

text \<open>
  C21.  On a word made of identifier characters \<open>sqlite3KeywordCode\<close> returns the code the keyword
  list gives the word in upper case, and \<open>TK_ID\<close> when it is not a keyword; and
  \<open>sqlite3_keyword_check\<close> agrees with the names that \<open>sqlite3_keyword_name\<close> enumerates.
\<close>
theorem keyword_lookup_exact:
  assumes "n \<le> length z" "\<forall>c\<in>set (take n z). IdChar c"
  shows "sqlite3KeywordCode z (int n)
      = (case keyword_of (map sqlite3Toupper (take n z)) of Some c \<Rightarrow> c | None \<Rightarrow> TK_ID)
    \<and> (sqlite3_keyword_check z (int n)
      \<longleftrightarrow> (\<exists>i < sqlite3_keyword_count. sqlite3_keyword_name i = Some (map sqlite3Toupper (take n z))))"
proof -
  let ?w = "map sqlite3Toupper (take n z)"
  have code: "sqlite3KeywordCode z (int n) = (case keyword_of ?w of Some c \<Rightarrow> c | None \<Rightarrow> TK_ID)"
  proof (cases "2 \<le> n")
    case True
    then show ?thesis using keywordCode_fold [OF True assms(1)] keyword_of_upper [OF assms(2)]
      by (simp add: sqlite3KeywordCode_def)
  next
    case False
    have "?w \<noteq> kw_text i" if "0 < i" "i < 148" for i
      using kw_text_shape(1) [OF that] False assms(1) by (metis length_map length_take min.absorb2)
    then show ?thesis using keyword_of_None False by (simp add: sqlite3KeywordCode_def)
  qed
  moreover have "sqlite3_keyword_check z (int n) \<longleftrightarrow> (\<exists>i. 0 < i \<and> i < 148 \<and> ?w = kw_text i)"
  proof (cases rule: keyword_of_cases [of ?w])
    case (1 i)
    then show ?thesis using kw_text_shape(5) [OF 1(1,2)]
      unfolding sqlite3_keyword_check_def code by auto
  next
    case 2
    then show ?thesis unfolding sqlite3_keyword_check_def code by auto
  qed
  ultimately show ?thesis by (simp only: keyword_name_iff)
qed

theorem keyword_lookup_exact_witness:
  "sqlite3KeywordCode (ascii ''select 1'') (int 6) = TK_SELECT"
proof -
  have "sqlite3KeywordCode (ascii ''select 1'') (int 6)
      = (case keyword_of (map sqlite3Toupper (take 6 (ascii ''select 1''))) of Some c \<Rightarrow> c | None \<Rightarrow> TK_ID)"
    by (rule keyword_lookup_exact [THEN conjunct1]) (simp_all add: ascii_def ctype_iffs)
  also have "map sqlite3Toupper (take 6 (ascii ''select 1'')) = ascii ''SELECT''"
    by (simp add: ascii_def Toupper_eq kfold_def)
  finally show ?thesis by (simp add: keyword_of_def sql_keywords_def ascii_def)
qed

text \<open>Outside identifiers the comparison with bit 5 cleared takes the byte \<open>0x7f\<close> for an underscore.\<close>
lemma keyword_check_0x7f:
  "sqlite3_keyword_check (ascii ''CURRENT'' @ [0x7f] @ ascii ''DATE'') 12"
proof -
  let ?z = "ascii ''CURRENT'' @ [0x7f] @ ascii ''DATE''"
  have "map kfold (take 12 ?z) = ascii ''CURRENT_DATE''" by (simp add: ascii_def kfold_def)
  then have "keywordCode ?z 12 TK_ID = (case keyword_of (ascii ''CURRENT_DATE'') of Some c \<Rightarrow> c | None \<Rightarrow> TK_ID)"
    using keywordCode_fold [of 12 ?z TK_ID] by (simp add: ascii_def)
  also have "\<dots> = TK_CTIME_KW" by (simp add: keyword_of_def sql_keywords_def ascii_def)
  finally show ?thesis by (simp add: sqlite3_keyword_check_def sqlite3KeywordCode_def TK_defs)
qed

end
