(* ===== verification/Alloc.thy ===== *)
theory Alloc
  imports Prelude
begin

text \<open>
  SQLite's allocator as its callers see it: a list of answers to come, each a success or a
  failure (requests past the end of the list succeed), and the number of live blocks.  Every
  finite run sees finitely many answers, so a statement about all allocators covers every
  pattern of memory exhaustion.
\<close>

record allocator =
  verdicts :: "bool list"
  live :: nat

definition alloc_block :: "allocator \<Rightarrow> bool \<times> allocator" where
  "alloc_block al = (case verdicts al of
      [] \<Rightarrow> (True, al\<lparr>live := live al + 1\<rparr>)
    | v # vs \<Rightarrow> (v, al\<lparr>verdicts := vs, live := live al + (if v then 1 else 0)\<rparr>))"

definition free_block :: "allocator \<Rightarrow> allocator" where
  "free_block al = al\<lparr>live := live al - 1\<rparr>"

lemma live_alloc: "alloc_block al = (ok, al') \<Longrightarrow> live al' = live al + (if ok then 1 else 0)"
  by (auto simp: alloc_block_def split: list.splits)

lemma live_free [simp]: "live (free_block al) = live al - 1"
  by (simp add: free_block_def)

text \<open>An allocator that never refuses stays one.\<close>

definition plenty :: "allocator \<Rightarrow> bool" where
  "plenty al \<longleftrightarrow> list_all id (verdicts al)"

lemma plenty_alloc: "plenty al \<Longrightarrow> alloc_block al = (ok, al') \<Longrightarrow> ok \<and> plenty al'"
  by (auto simp: alloc_block_def plenty_def split: list.splits)

lemma plenty_free [simp]: "plenty (free_block al) = plenty al"
  by (simp add: free_block_def plenty_def)

definition SQLITE_OK :: nat where "SQLITE_OK = 0"
definition SQLITE_NOMEM :: nat where "SQLITE_NOMEM = 7"
definition SQLITE_TOOBIG :: nat where "SQLITE_TOOBIG = 18"

end
