(* ===== verification/Tokenize.thy ===== *)
theory Tokenize
  imports Keyword Alloc
begin

text \<open>
  The SQL tokenizer (\<open>src/db/sqlite3.c\<close>, \<open>tokenize.c\<close>): \<open>sqlite3GetToken\<close>, the look-ahead that
  decides whether \<open>WINDOW\<close>, \<open>OVER\<close> and \<open>FILTER\<close> are keywords, and the loop of
  \<open>sqlite3RunParser\<close> that feeds the parser.  A text is the list of its bytes before the
  terminator; the generated parser is an argument of the loop.
\<close>

section \<open>Character classes\<close>

definition CC_X :: nat where "CC_X = 0"
definition CC_KYWD0 :: nat where "CC_KYWD0 = 1"
definition CC_KYWD :: nat where "CC_KYWD = 2"
definition CC_DIGIT :: nat where "CC_DIGIT = 3"
definition CC_DOLLAR :: nat where "CC_DOLLAR = 4"
definition CC_VARALPHA :: nat where "CC_VARALPHA = 5"
definition CC_VARNUM :: nat where "CC_VARNUM = 6"
definition CC_SPACE :: nat where "CC_SPACE = 7"
definition CC_QUOTE :: nat where "CC_QUOTE = 8"
definition CC_QUOTE2 :: nat where "CC_QUOTE2 = 9"
definition CC_PIPE :: nat where "CC_PIPE = 10"
definition CC_MINUS :: nat where "CC_MINUS = 11"
definition CC_LT :: nat where "CC_LT = 12"
definition CC_GT :: nat where "CC_GT = 13"
definition CC_EQ :: nat where "CC_EQ = 14"
definition CC_BANG :: nat where "CC_BANG = 15"
definition CC_SLASH :: nat where "CC_SLASH = 16"
definition CC_LP :: nat where "CC_LP = 17"
definition CC_RP :: nat where "CC_RP = 18"
definition CC_SEMI :: nat where "CC_SEMI = 19"
definition CC_PLUS :: nat where "CC_PLUS = 20"
definition CC_STAR :: nat where "CC_STAR = 21"
definition CC_PERCENT :: nat where "CC_PERCENT = 22"
definition CC_COMMA :: nat where "CC_COMMA = 23"
definition CC_AND :: nat where "CC_AND = 24"
definition CC_TILDA :: nat where "CC_TILDA = 25"
definition CC_DOT :: nat where "CC_DOT = 26"
definition CC_ID :: nat where "CC_ID = 27"
definition CC_ILLEGAL :: nat where "CC_ILLEGAL = 28"
definition CC_NUL :: nat where "CC_NUL = 29"
definition CC_BOM :: nat where "CC_BOM = 30"

lemmas CC_defs =
  CC_X_def CC_KYWD0_def CC_KYWD_def CC_DIGIT_def CC_DOLLAR_def CC_VARALPHA_def
  CC_VARNUM_def CC_SPACE_def CC_QUOTE_def CC_QUOTE2_def CC_PIPE_def CC_MINUS_def CC_LT_def
  CC_GT_def CC_EQ_def CC_BANG_def CC_SLASH_def CC_LP_def CC_RP_def CC_SEMI_def
  CC_PLUS_def CC_STAR_def CC_PERCENT_def CC_COMMA_def CC_AND_def CC_TILDA_def CC_DOT_def
  CC_ID_def CC_ILLEGAL_def CC_NUL_def CC_BOM_def

definition aiClass :: "nat list" where
  "aiClass =
     [29, 28, 28, 28, 28, 28, 28, 28, 28, 7, 7, 28, 7, 7, 28, 28, 28, 28, 28, 28, 28, 28, 28, 28, 28,
      28, 28, 28, 28, 28, 28, 28, 7, 15, 8, 5, 4, 22, 24, 8, 17, 18, 21, 20, 23, 11, 26, 16, 3, 3, 3,
      3, 3, 3, 3, 3, 3, 3, 5, 19, 12, 14, 13, 6, 5, 1, 1, 1, 1, 1, 1, 1, 1, 1, 1, 1, 1, 1, 1, 1, 1,
      1, 1, 1, 1, 1, 1, 1, 0, 2, 2, 9, 28, 28, 28, 2, 8, 1, 1, 1, 1, 1, 1, 1, 1, 1, 1, 1, 1, 1, 1, 1,
      1, 1, 1, 1, 1, 1, 1, 1, 0, 2, 2, 28, 10, 28, 25, 28, 27, 27, 27, 27, 27, 27, 27, 27, 27, 27,
      27, 27, 27, 27, 27, 27, 27, 27, 27, 27, 27, 27, 27, 27, 27, 27, 27, 27, 27, 27, 27, 27, 27, 27,
      27, 27, 27, 27, 27, 27, 27, 27, 27, 27, 27, 27, 27, 27, 27, 27, 27, 27, 27, 27, 27, 27, 27, 27,
      27, 27, 27, 27, 27, 27, 27, 27, 27, 27, 27, 27, 27, 27, 27, 27, 27, 27, 27, 27, 27, 27, 27, 27,
      27, 27, 27, 27, 27, 27, 27, 27, 27, 27, 27, 27, 27, 27, 27, 27, 27, 27, 27, 27, 27, 27, 27, 27,
      27, 27, 27, 27, 27, 30, 27, 27, 27, 27, 27, 27, 27, 27, 27, 27, 27, 27, 27, 27, 27, 27]"

definition cls :: "u8 \<Rightarrow> nat" where
  "cls c = aiClass ! unat c"

section \<open>One token\<close>

text \<open>\<open>z[i]\<close>.\<close>
definition byte_at :: "bytes \<Rightarrow> nat \<Rightarrow> u8" where
  "byte_at z i = first (drop i z)"

text \<open>\<open>for(i=k; P(z[i]); i++){}\<close>, returning \<open>i\<close>; \<open>P\<close> is false of the terminator.\<close>
definition span :: "(u8 \<Rightarrow> bool) \<Rightarrow> bytes \<Rightarrow> nat \<Rightarrow> nat" where
  "span P z k = k + length (takeWhile P (drop k z))"

text \<open>A token: the length that is returned and the type that is stored.\<close>
type_synonym token = "nat \<times> int"

definition minus_token :: "bytes \<Rightarrow> token" where
  "minus_token z =
     (if byte_at z 1 = 0x2d then (span (\<lambda>c. c \<noteq> 0 \<and> c \<noteq> 0x0a) z 2, TK_SPACE)
      else if byte_at z 1 = 0x3e then (2 + of_bool (byte_at z 2 = 0x3e), TK_PTR)
      else (1, TK_MINUS))"

text \<open>\<open>for(i=3, c=z[2]; (c!='*' || z[i]!='/') && (c=z[i])!=0; i++){}  if( c ) i++;\<close>\<close>
fun comment_loop :: "u8 \<Rightarrow> bytes \<Rightarrow> nat \<Rightarrow> nat" where
  "comment_loop c [] i = i"
| "comment_loop c (d # z) i =
     (if c = 0x2a \<and> d = 0x2f then i + 1
      else if d = 0 then i
      else comment_loop d z (i + 1))"

definition slash_token :: "bytes \<Rightarrow> token" where
  "slash_token z =
     (if byte_at z 1 \<noteq> 0x2a \<or> byte_at z 2 = 0 then (1, TK_SLASH)
      else (comment_loop (byte_at z 2) (drop 3 z) 3, TK_SPACE))"

definition lt_token :: "bytes \<Rightarrow> token" where
  "lt_token z =
     (if byte_at z 1 = 0x3d then (2, TK_LE)
      else if byte_at z 1 = 0x3e then (2, TK_NE)
      else if byte_at z 1 = 0x3c then (2, TK_LSHIFT)
      else (1, TK_LT))"

definition gt_token :: "bytes \<Rightarrow> token" where
  "gt_token z =
     (if byte_at z 1 = 0x3d then (2, TK_GE)
      else if byte_at z 1 = 0x3e then (2, TK_RSHIFT)
      else (1, TK_GT))"

text \<open>The loop over a quotation: the index where it stops and the byte \<open>c\<close> there.\<close>
function quote_loop :: "u8 \<Rightarrow> bytes \<Rightarrow> nat \<Rightarrow> nat \<times> u8" where
  "quote_loop delim [] i = (i, 0)"
| "quote_loop delim (c # z) i =
     (if c = 0 then (i, 0)
      else if c = delim then
        if first z = delim then quote_loop delim (tl z) (i + 2) else (i, c)
      else quote_loop delim z (i + 1))"
  by pat_completeness auto
termination
  by (relation "measure (length \<circ> fst \<circ> snd)") auto

definition quote_token :: "bytes \<Rightarrow> token" where
  "quote_token z =
     (let (i, c) = quote_loop (byte_at z 0) (drop 1 z) 1 in
      if c = 0x27 then (i + 1, TK_STRING)
      else if c \<noteq> 0 then (i + 1, TK_ID)
      else (i, TK_ILLEGAL))"

text \<open>The parts of a number after its first digits, which end at \<open>i\<close>.\<close>
definition fraction :: "bytes \<Rightarrow> token \<Rightarrow> token" where
  "fraction z = (\<lambda>(i, t). if byte_at z i = 0x2e then (span sqlite3Isdigit z (i + 1), TK_FLOAT) else (i, t))"

definition exponent :: "bytes \<Rightarrow> token \<Rightarrow> token" where
  "exponent z = (\<lambda>(i, t).
     if (byte_at z i = 0x65 \<or> byte_at z i = 0x45)
        \<and> (sqlite3Isdigit (byte_at z (i + 1))
           \<or> (byte_at z (i + 1) = 0x2b \<or> byte_at z (i + 1) = 0x2d) \<and> sqlite3Isdigit (byte_at z (i + 2)))
     then (span sqlite3Isdigit z (i + 2), TK_FLOAT) else (i, t))"

definition trailer :: "bytes \<Rightarrow> token \<Rightarrow> token" where
  "trailer z = (\<lambda>(i, t). if IdChar (byte_at z i) then (span IdChar z i, TK_ILLEGAL) else (i, t))"

definition number_token :: "bytes \<Rightarrow> token" where
  "number_token z =
     (if byte_at z 0 = 0x30 \<and> (byte_at z 1 = 0x78 \<or> byte_at z 1 = 0x58) \<and> sqlite3Isxdigit (byte_at z 2)
      then (span sqlite3Isxdigit z 3, TK_INTEGER)
      else trailer z (exponent z (fraction z (span sqlite3Isdigit z 0, TK_INTEGER))))"

text \<open>\<open>for(i=1, c=z[0]; c!=']' && (c=z[i])!=0; i++){}\<close>, returning \<open>i\<close> and \<open>c\<close>.\<close>
fun bracket_loop :: "u8 \<Rightarrow> bytes \<Rightarrow> nat \<Rightarrow> nat \<times> u8" where
  "bracket_loop c [] i = (if c = 0x5d then (i, c) else (i, 0))"
| "bracket_loop c (d # z) i =
     (if c = 0x5d then (i, c)
      else if d = 0 then (i, 0)
      else bracket_loop d z (i + 1))"

definition bracket_token :: "bytes \<Rightarrow> token" where
  "bracket_token z =
     (let (i, c) = bracket_loop (byte_at z 0) (drop 1 z) 1 in
      (i, if c = 0x5d then TK_ID else TK_ILLEGAL))"

text \<open>The loop over the name of a variable: the index, the count \<open>n\<close> and the type.\<close>
function var_loop :: "bytes \<Rightarrow> nat \<Rightarrow> nat \<Rightarrow> nat \<times> nat \<times> int" where
  "var_loop [] i n = (i, n, TK_VARIABLE)"
| "var_loop (c # z) i n =
     (if c = 0 then (i, n, TK_VARIABLE)
      else if IdChar c then var_loop z (i + 1) (n + 1)
      else if c = 0x28 \<and> 0 < n then
        let k = span (\<lambda>c. c \<noteq> 0 \<and> \<not> sqlite3Isspace c \<and> c \<noteq> 0x29) z 0 in
        if byte_at z k = 0x29 then (i + 1 + k + 1, n, TK_VARIABLE) else (i + 1 + k, n, TK_ILLEGAL)
      else if c = 0x3a \<and> first z = 0x3a then var_loop (tl z) (i + 2) n
      else (i, n, TK_VARIABLE))"
  by pat_completeness auto
termination
  by (relation "measure (length \<circ> fst)") auto

definition variable_token :: "bytes \<Rightarrow> token" where
  "variable_token z =
     (let (i, n, t) = var_loop (drop 1 z) 1 0 in (i, if n = 0 then TK_ILLEGAL else t))"

text \<open>\<open>while( IdChar(z[i]) ){ i++; }  *tokenType = TK_ID;  return i;\<close>\<close>
definition id_token :: "bytes \<Rightarrow> nat \<Rightarrow> token" where
  "id_token z i = (span IdChar z i, TK_ID)"

definition keyword_or_id :: "bytes \<Rightarrow> token" where
  "keyword_or_id z =
     (if cls (byte_at z 1) > CC_KYWD then id_token z 1
      else
        let i = span (\<lambda>c. cls c \<le> CC_KYWD) z 2 in
        if IdChar (byte_at z i) then id_token z (i + 1)
        else (i, keywordCode z i TK_ID))"

definition x_token :: "bytes \<Rightarrow> token" where
  "x_token z =
     (if byte_at z 1 = 0x27 then
        let i = span sqlite3Isxdigit z 2;
            (i, t) = (if byte_at z i \<noteq> 0x27 \<or> odd i
                      then (span (\<lambda>c. c \<noteq> 0 \<and> c \<noteq> 0x27) z i, TK_ILLEGAL) else (i, TK_BLOB))
        in (if byte_at z i \<noteq> 0 then i + 1 else i, t)
      else id_token z 1)"

definition sqlite3GetToken :: "bytes \<Rightarrow> token" where
  "sqlite3GetToken z =
     (let k = cls (byte_at z 0) in
      if k = CC_SPACE then (span sqlite3Isspace z 1, TK_SPACE)
      else if k = CC_MINUS then minus_token z
      else if k = CC_LP then (1, TK_LP)
      else if k = CC_RP then (1, TK_RP)
      else if k = CC_SEMI then (1, TK_SEMI)
      else if k = CC_PLUS then (1, TK_PLUS)
      else if k = CC_STAR then (1, TK_STAR)
      else if k = CC_SLASH then slash_token z
      else if k = CC_PERCENT then (1, TK_REM)
      else if k = CC_EQ then (1 + of_bool (byte_at z 1 = 0x3d), TK_EQ)
      else if k = CC_LT then lt_token z
      else if k = CC_GT then gt_token z
      else if k = CC_BANG then if byte_at z 1 \<noteq> 0x3d then (1, TK_ILLEGAL) else (2, TK_NE)
      else if k = CC_PIPE then if byte_at z 1 \<noteq> 0x7c then (1, TK_BITOR) else (2, TK_CONCAT)
      else if k = CC_COMMA then (1, TK_COMMA)
      else if k = CC_AND then (1, TK_BITAND)
      else if k = CC_TILDA then (1, TK_BITNOT)
      else if k = CC_QUOTE then quote_token z
      else if k = CC_DOT then if \<not> sqlite3Isdigit (byte_at z 1) then (1, TK_DOT) else number_token z
      else if k = CC_DIGIT then number_token z
      else if k = CC_QUOTE2 then bracket_token z
      else if k = CC_VARNUM then (span sqlite3Isdigit z 1, TK_VARIABLE)
      else if k = CC_DOLLAR \<or> k = CC_VARALPHA then variable_token z
      else if k = CC_KYWD0 then keyword_or_id z
      else if k = CC_X then x_token z
      else if k = CC_KYWD \<or> k = CC_ID then id_token z 1
      else if k = CC_BOM then
        if byte_at z 1 = 0xbb \<and> byte_at z 2 = 0xbf then (3, TK_SPACE) else id_token z 1
      else if k = CC_NUL then (0, TK_ILLEGAL)
      else (1, TK_ILLEGAL))"

section \<open>A token lies inside its text\<close>

lemma byte_at_end [simp]: "length z \<le> i \<Longrightarrow> byte_at z i = 0"
  by (simp add: byte_at_def)

lemma byte_at_pos: "byte_at z i \<noteq> 0 \<Longrightarrow> i < length z"
  by (rule ccontr) simp

lemma first_sentinel [simp]: "first (z @ 0 # j) = first z"
  by (cases z) simp_all

lemma byte_at_sentinel: "i \<le> length z \<Longrightarrow> byte_at (z @ 0 # j) i = byte_at z i"
  by (simp add: byte_at_def)

lemma byte_at_simps [simp]:
  "byte_at [] i = 0" "byte_at (c # z) 0 = c" "byte_at (c # z) (Suc i) = byte_at z i"
  "byte_at (c # z) 1 = byte_at z 0" "byte_at (c # z) (numeral k) = byte_at z (pred_numeral k)"
  by (simp_all add: byte_at_def drop_Cons')

lemma list_3_cases:
  assumes "z \<noteq> []"
  obtains a where "z = [a]" | a b where "z = [a, b]" | a b c w where "z = a # b # c # w"
  using assms by (cases z; cases "tl z"; cases "tl (tl z)") auto

lemma span_bounds: "k \<le> length z \<Longrightarrow> k \<le> span P z k \<and> span P z k \<le> length z"
  using length_takeWhile_le [of P "drop k z"] by (simp add: span_def)

lemma span_pos [simp]: "0 < k \<Longrightarrow> 0 < span P z k"
  by (simp add: span_def)

lemma takeWhile_sentinel: "\<not> P 0 \<Longrightarrow> takeWhile P (z @ 0 # j) = takeWhile P z"
  by (induction z) auto

lemma span_sentinel: "\<not> P 0 \<Longrightarrow> k \<le> length z \<Longrightarrow> span P (z @ 0 # j) k = span P z k"
  by (simp add: span_def takeWhile_sentinel)

lemma classes_of_0 [simp]: "\<not> sqlite3Isspace 0" "\<not> sqlite3Isdigit 0" "\<not> sqlite3Isxdigit 0" "\<not> IdChar 0" "cls 0 = CC_NUL"
  by (simp_all add: ctype_iffs cls_def aiClass_def CC_defs)

text \<open>What every case of the tokenizer promises: the bytes after the terminator do not matter, and the
  token is not empty and does not reach past the terminator.\<close>
definition good_token :: "(bytes \<Rightarrow> token) \<Rightarrow> bytes \<Rightarrow> bool" where
  "good_token f z \<longleftrightarrow> (\<forall>j. f (z @ 0 # j) = f z) \<and> 0 < fst (f z) \<and> fst (f z) \<le> length z"

lemma minus_good: "z \<noteq> [] \<Longrightarrow> good_token minus_token z"
  using span_bounds [of 2 z] span_sentinel [of _ 2 z]
  by (elim list_3_cases) (auto simp: good_token_def minus_token_def)

lemma comment_loop_bounds: "i \<le> comment_loop c z i \<and> comment_loop c z i \<le> i + length z"
  by (induction c z i rule: comment_loop.induct) auto

lemma comment_loop_sentinel [simp]: "comment_loop c (z @ 0 # j) i = comment_loop c z i"
  by (induction c z i rule: comment_loop.induct) auto

lemma slash_good: "z \<noteq> [] \<Longrightarrow> good_token slash_token z"
  using comment_loop_bounds [of 3 "byte_at z 2" "drop 3 z"]
  by (elim list_3_cases) (auto simp: good_token_def slash_token_def)

lemma compare_good: "z \<noteq> [] \<Longrightarrow> good_token lt_token z" "z \<noteq> [] \<Longrightarrow> good_token gt_token z"
  by (elim list_3_cases; simp add: good_token_def lt_token_def gt_token_def)+

lemma quote_loop_bounds:
  assumes "delim \<noteq> 0" "quote_loop delim z i = (k, c)"
  shows "i \<le> k \<and> k + of_bool (c \<noteq> 0) \<le> i + length z"
  using assms
proof (induction delim z i rule: quote_loop.induct)
  case (2 delim c z i)
  have "z \<noteq> []" if "first z = delim" using that 2(3) by auto
  then have "length (tl z) + 2 \<le> length (c # z)" if "first z = delim" using that by (cases z) auto
  then show ?case using 2 by (fastforce split: if_splits)
qed auto

lemma quote_loop_sentinel: "delim \<noteq> 0 \<Longrightarrow> quote_loop delim (z @ 0 # j) i = quote_loop delim z i"
proof (induction delim z i rule: quote_loop.induct)
  case (2 delim c z i)
  have "tl (z @ 0 # j) = tl z @ 0 # j" if "first z = delim" using that 2(3) by (cases z) auto
  then show ?case using 2 by auto
qed auto

lemma quote_good: "z \<noteq> [] \<Longrightarrow> byte_at z 0 \<noteq> 0 \<Longrightarrow> good_token quote_token z"
  using quote_loop_bounds [of "byte_at z 0" "tl z" 1]
  by (cases z; cases "quote_loop (byte_at z 0) (tl z) 1")
    (auto simp: good_token_def quote_token_def quote_loop_sentinel)

lemma bracket_loop_bounds: "bracket_loop c z i = (k, d) \<Longrightarrow> i \<le> k \<and> k \<le> i + length z"
  by (induction c z i rule: bracket_loop.induct) (fastforce split: if_splits)+

lemma bracket_loop_sentinel [simp]: "bracket_loop c (z @ 0 # j) i = bracket_loop c z i"
  by (induction c z i rule: bracket_loop.induct) auto

lemma bracket_good: "z \<noteq> [] \<Longrightarrow> good_token bracket_token z"
  using bracket_loop_bounds [of "byte_at z 0" "tl z" 1]
  by (cases z; cases "bracket_loop (byte_at z 0) (tl z) 1") (auto simp: good_token_def bracket_token_def)

lemma var_loop_bounds: "var_loop z i n = (k, m, t) \<Longrightarrow> i \<le> k \<and> k \<le> i + length z"
proof (induction z i n rule: var_loop.induct)
  case (2 c z i n)
  define e where "e = span (\<lambda>c. c \<noteq> 0 \<and> \<not> sqlite3Isspace c \<and> c \<noteq> 0x29) z 0"
  have e: "e \<le> length z" using span_bounds [of 0 z] by (simp add: e_def)
  have "e < length z" if "byte_at z e = 0x29" using that byte_at_pos [of z e] by simp
  moreover have "length (tl z) + 2 = length (c # z)" if "first z = 0x3a" using that by (cases z) auto
  ultimately show ?case using 2 e unfolding var_loop.simps e_def [symmetric]
    by (fastforce simp: Let_def split: if_splits)
qed simp

lemma var_loop_sentinel [simp]: "var_loop (z @ 0 # j) i n = var_loop z i n"
proof (induction z i n rule: var_loop.induct)
  case (2 c z i n)
  have "tl (z @ 0 # j) = tl z @ 0 # j" if "first z = 0x3a" using that by (cases z) auto
  then show ?case using 2 span_bounds [of 0 z]
    by (simp add: Let_def span_sentinel byte_at_sentinel)
qed simp

lemma variable_good: "z \<noteq> [] \<Longrightarrow> good_token variable_token z"
  using var_loop_bounds [of "tl z" 1 0]
  by (cases z; cases "var_loop (tl z) 1 0") (auto simp: good_token_def variable_token_def)

lemma id_good: "k \<le> length z \<Longrightarrow> 0 < k \<Longrightarrow> good_token (\<lambda>z. id_token z k) z"
  using span_bounds [of k z IdChar] by (simp add: good_token_def id_token_def span_sentinel)

text \<open>The parts of a number: none reads past the terminator, none moves backwards.\<close>
definition good_part :: "(bytes \<Rightarrow> token \<Rightarrow> token) \<Rightarrow> bool" where
  "good_part f \<longleftrightarrow> (\<forall>z p. fst p \<le> length z \<longrightarrow>
     fst p \<le> fst (f z p) \<and> fst (f z p) \<le> length z \<and> (\<forall>j. f (z @ 0 # j) p = f z p))"

lemma fraction_good: "good_part fraction"
  unfolding good_part_def
proof clarify
  fix z :: bytes and i :: nat and t :: int
  assume "fst (i, t) \<le> length z"
  then have i: "i \<le> length z" by simp
  show "fst (i, t) \<le> fst (fraction z (i, t)) \<and> fst (fraction z (i, t)) \<le> length z
    \<and> (\<forall>j. fraction (z @ 0 # j) (i, t) = fraction z (i, t))"
  proof (cases "byte_at z i = 0x2e")
    case True
    then have "i + 1 \<le> length z" using byte_at_pos [of z i] by simp
    then show ?thesis using True i span_bounds [of "i + 1" z sqlite3Isdigit]
      by (simp add: fraction_def byte_at_sentinel span_sentinel)
  qed (use i in \<open>simp add: fraction_def byte_at_sentinel\<close>)
qed

lemma exponent_good: "good_part exponent"
  unfolding good_part_def
proof clarify
  fix z :: bytes and i :: nat and t :: int
  assume "fst (i, t) \<le> length z"
  then have i: "i \<le> length z" by simp
  show "fst (i, t) \<le> fst (exponent z (i, t)) \<and> fst (exponent z (i, t)) \<le> length z
    \<and> (\<forall>j. exponent (z @ 0 # j) (i, t) = exponent z (i, t))"
  proof (cases "byte_at z i = 0x65 \<or> byte_at z i = 0x45")
    case True
    then have i1: "i + 1 \<le> length z" using byte_at_pos [of z i] by auto
    show ?thesis
    proof (cases "byte_at z (i + 1) = 0")
      case False
      then have "i + 2 \<le> length z" using byte_at_pos [of z "i + 1"] by simp
      then show ?thesis using True i i1 span_bounds [of "i + 2" z sqlite3Isdigit]
        by (simp add: exponent_def byte_at_sentinel span_sentinel)
    qed (use True i i1 in \<open>simp add: exponent_def byte_at_sentinel\<close>)
  qed (use i in \<open>simp add: exponent_def byte_at_sentinel\<close>)
qed

lemma trailer_good: "good_part trailer"
  using span_bounds by (auto simp: good_part_def trailer_def byte_at_sentinel span_sentinel)

lemma good_partD:
  "good_part f \<Longrightarrow> fst p \<le> length z \<Longrightarrow> fst p \<le> fst (f z p)"
  "good_part f \<Longrightarrow> fst p \<le> length z \<Longrightarrow> fst (f z p) \<le> length z"
  "good_part f \<Longrightarrow> fst p \<le> length z \<Longrightarrow> f (z @ 0 # j) p = f z p"
  unfolding good_part_def by blast+

lemma number_good:
  assumes "sqlite3Isdigit (byte_at z 0) \<or> byte_at z 0 = 0x2e"
  shows "good_token number_token z"
proof (cases "byte_at z 0 = 0x30 \<and> (byte_at z 1 = 0x78 \<or> byte_at z 1 = 0x58) \<and> sqlite3Isxdigit (byte_at z 2)")
  case True
  then have "byte_at z 2 \<noteq> 0" by auto
  then have "3 \<le> length z" using byte_at_pos [of z 2] by simp
  then show ?thesis using True span_bounds [of 3 z sqlite3Isxdigit]
    by (auto simp: good_token_def number_token_def byte_at_sentinel span_sentinel)
next
  case False
  define p where "p = (span sqlite3Isdigit z 0, TK_INTEGER)"
  define q where "q = fraction z p"
  define r where "r = exponent z q"
  have "byte_at z 0 \<noteq> 0" using assms by auto
  then have z: "0 < length z" using byte_at_pos [of z 0] by simp
  have p: "fst p \<le> length z" using span_bounds [of 0 z] by (simp add: p_def)
  have q: "fst q \<le> length z" and r: "fst r \<le> length z"
    unfolding r_def q_def using p by (simp_all add: good_partD(2) fraction_good exponent_good)
  have "0 < fst q"
  proof (cases "sqlite3Isdigit (byte_at z 0)")
    case True
    then have "0 < fst p" using z by (cases z) (simp_all add: p_def span_def)
    then show ?thesis using good_partD(1) [OF fraction_good p] by (simp add: q_def)
  next
    case False
    then have "byte_at z 0 = 0x2e" using assms by simp
    then show ?thesis using z False by (cases z) (simp_all add: q_def p_def span_def fraction_def)
  qed
  then have "0 < fst (trailer z r)"
    using good_partD(1) [OF exponent_good q] good_partD(1) [OF trailer_good r] by (simp add: r_def)
  moreover have n: "number_token z = trailer z r" using False unfolding number_token_def p_def q_def r_def by auto
  moreover have "number_token (z @ 0 # j) = trailer z r" for j
  proof -
    have "\<not> (byte_at (z @ 0 # j) 0 = 0x30 \<and> (byte_at (z @ 0 # j) 1 = 0x78 \<or> byte_at (z @ 0 # j) 1 = 0x58)
        \<and> sqlite3Isxdigit (byte_at (z @ 0 # j) 2))"
      using False by (cases rule: list_3_cases [OF z [simplified]]) auto
    moreover have "span sqlite3Isdigit (z @ 0 # j) 0 = span sqlite3Isdigit z 0" by (simp add: span_sentinel)
    ultimately show ?thesis
      using good_partD(3) [OF fraction_good p] good_partD(3) [OF exponent_good q] good_partD(3) [OF trailer_good r]
      unfolding number_token_def p_def q_def r_def by auto
  qed
  ultimately show ?thesis using good_partD(2) [OF trailer_good r] by (simp add: good_token_def)
qed

lemma keyword_take: "2 \<le> n \<Longrightarrow> n \<le> length z \<Longrightarrow> keywordCode (z @ y) n t = keywordCode z n t"
  by (simp add: keywordCode_fold)

lemma keyword_good:
  assumes "z \<noteq> []"
  shows "good_token keyword_or_id z"
proof (cases "cls (byte_at z 1) > CC_KYWD")
  case True
  then show ?thesis using id_good [of 1 z] assms
    by (simp add: good_token_def keyword_or_id_def byte_at_sentinel Suc_le_eq)
next
  case False
  then have "byte_at z 1 \<noteq> 0" by (auto simp: CC_defs)
  then have l: "2 \<le> length z" using byte_at_pos [of z 1] by simp
  let ?i = "span (\<lambda>c. cls c \<le> CC_KYWD) z 2"
  have i: "2 \<le> ?i" "?i \<le> length z" using span_bounds [OF l] by auto
  have s: "span (\<lambda>c. cls c \<le> CC_KYWD) (z @ 0 # j) 2 = ?i" for j
    using l by (intro span_sentinel) (simp_all add: CC_defs)
  show ?thesis
  proof (cases "IdChar (byte_at z ?i)")
    case True
    then have "?i + 1 \<le> length z" using byte_at_pos [of z ?i] by (cases "byte_at z ?i = 0") auto
    then show ?thesis using id_good [of "?i + 1" z] True False l i s
      by (simp add: good_token_def keyword_or_id_def byte_at_sentinel)
  next
    case False
    then show ?thesis using \<open>\<not> cls (byte_at z 1) > CC_KYWD\<close> l i s
      by (simp add: good_token_def keyword_or_id_def byte_at_sentinel keyword_take Let_def)
  qed
qed

lemma x_good:
  assumes "z \<noteq> []"
  shows "good_token x_token z"
proof (cases "byte_at z 1 = 0x27")
  case False
  then show ?thesis using id_good [of 1 z] assms
    by (simp add: good_token_def x_token_def byte_at_sentinel Suc_le_eq)
next
  case True
  then have l: "2 \<le> length z" using byte_at_pos [of z 1] by simp
  define i where "i = span sqlite3Isxdigit z 2"
  define k where "k = (if byte_at z i \<noteq> 0x27 \<or> odd i then span (\<lambda>c. c \<noteq> 0 \<and> c \<noteq> 0x27) z i else i)"
  have i: "2 \<le> i" "i \<le> length z" using span_bounds [OF l] by (auto simp: i_def)
  have sp: "i \<le> span (\<lambda>c. c \<noteq> 0 \<and> c \<noteq> 0x27) z i" "span (\<lambda>c. c \<noteq> 0 \<and> c \<noteq> 0x27) z i \<le> length z"
    using span_bounds [OF i(2)] by auto
  have k: "2 \<le> k" "k \<le> length z"
    using i sp by (auto simp: k_def)
  have "x_token z = (if byte_at z k \<noteq> 0 then k + 1 else k, if byte_at z i \<noteq> 0x27 \<or> odd i then TK_ILLEGAL else TK_BLOB)"
    using True by (simp add: x_token_def i_def [symmetric] k_def Let_def)
  moreover have "x_token (z @ 0 # j) = (if byte_at z k \<noteq> 0 then k + 1 else k, if byte_at z i \<noteq> 0x27 \<or> odd i then TK_ILLEGAL else TK_BLOB)" for j
    using True l i sp by (simp add: x_token_def byte_at_sentinel span_sentinel i_def [symmetric] k_def Let_def)
  ultimately show ?thesis using k byte_at_pos [of z k] by (auto simp: good_token_def Suc_le_eq)
qed

lemma length_aiClass [simp]: "length aiClass = 256"
  by (simp add: aiClass_def)

lemma class_positions:
  "cls c = CC_DIGIT \<longleftrightarrow> 48 \<le> unat c \<and> unat c \<le> 57" "cls c = CC_DOT \<longleftrightarrow> unat c = 46" "cls c = CC_NUL \<longleftrightarrow> c = 0"
proof -
  have "map (\<lambda>k. (k = CC_DIGIT, k = CC_DOT, k = CC_NUL)) aiClass
      = map (\<lambda>n. (48 \<le> n \<and> n \<le> 57, n = 46, n = 0)) [0..<256]"
    by (simp add: aiClass_def CC_defs upt_rec)
  from arg_cong [OF this, of "\<lambda>xs. xs ! unat c"]
  show "cls c = CC_DIGIT \<longleftrightarrow> 48 \<le> unat c \<and> unat c \<le> 57" "cls c = CC_DOT \<longleftrightarrow> unat c = 46" "cls c = CC_NUL \<longleftrightarrow> c = 0"
    by (simp_all add: cls_def word_unat_eq_iff)
qed

lemma number_start:
  "cls c = CC_DIGIT \<or> cls c = CC_DOT \<Longrightarrow> sqlite3Isdigit c \<or> c = 0x2e"
  by (auto simp: class_positions Isdigit_iff word_unat_eq_iff)

definition inside :: "bytes \<Rightarrow> token \<Rightarrow> bool" where
  "inside z p \<longleftrightarrow> 0 < fst p \<and> fst p \<le> length z"

lemma inside_if: "(b \<Longrightarrow> inside z x) \<Longrightarrow> (\<not> b \<Longrightarrow> inside z y) \<Longrightarrow> inside z (if b then x else y)"
  by simp

lemma good_inside: "good_token f z \<Longrightarrow> inside z (f z)"
  by (simp add: good_token_def inside_def)

lemma inside_short:
  "0 < length z \<Longrightarrow> inside z (1, t)" "byte_at z 1 \<noteq> 0 \<Longrightarrow> inside z (2, t)" "byte_at z 2 \<noteq> 0 \<Longrightarrow> inside z (3, t)"
  "0 < length z \<Longrightarrow> inside z (1 + of_bool (byte_at z 1 = 0x3d), t)" "0 < length z \<Longrightarrow> inside z (span P z 1, t)"
  using byte_at_pos [of z 1] byte_at_pos [of z 2] span_bounds [of 1 z] by (auto simp: inside_def Suc_le_eq)

lemma GetToken_good:
  assumes "byte_at z 0 \<noteq> 0"
  shows "good_token sqlite3GetToken z"
proof -
  let ?k = "cls (byte_at z 0)"
  have l: "0 < length z" using byte_at_pos [OF assms] .
  then have ne: "z \<noteq> []" by simp
  note goods = minus_good [OF ne] slash_good [OF ne] compare_good(1) [OF ne] compare_good(2) [OF ne]
    quote_good [OF ne assms] bracket_good [OF ne] variable_good [OF ne] keyword_good [OF ne] x_good [OF ne]
  have id: "good_token (\<lambda>z. id_token z 1) z" using id_good [of 1 z] l by simp
  have num: "good_token number_token z" if "?k = CC_DIGIT \<or> ?k = CC_DOT"
    using that number_good number_start by blast
  have at: "byte_at (z @ 0 # j) 0 = byte_at z 0" "byte_at (z @ 0 # j) (Suc 0) = byte_at z (Suc 0)" for j
    using l by (simp_all add: byte_at_sentinel Suc_le_eq)
  have bom: "byte_at (z @ 0 # j) 2 = byte_at z 2" if "byte_at z (Suc 0) = 0xbb" for j
    using that byte_at_pos [of z "Suc 0"] by (simp add: byte_at_sentinel Suc_le_eq)
  have sent: "sqlite3GetToken (z @ 0 # j) = sqlite3GetToken z" for j
    using l goods [unfolded good_token_def] num [unfolded good_token_def] id [unfolded good_token_def]
    by (simp add: sqlite3GetToken_def at bom span_sentinel Suc_le_eq cong: if_cong conj_cong)
  have "?k \<noteq> CC_NUL" using assms by (simp add: class_positions)
  then have "inside z (sqlite3GetToken z)"
    unfolding sqlite3GetToken_def Let_def
    using goods [THEN good_inside] good_inside [OF num] good_inside [OF id] inside_short [of z] l
    by (intro inside_if) simp_all
  then show ?thesis using sent by (simp add: good_token_def inside_def)
qed

section \<open>Quoted names\<close>

lemma quote_loop_quoted:
  assumes "q \<noteq> 0" "first rest \<noteq> q" "cstring s"
  shows "quote_loop q (concat (map (\<lambda>c. if c = q then [c, c] else [c]) s) @ q # rest) i
    = (i + length (concat (map (\<lambda>c. if c = q then [c, c] else [c]) s)), q)"
  using assms(3)
proof (induction s arbitrary: i)
  case Nil
  then show ?case using assms(1,2) by simp
next
  case (Cons c s)
  then show ?case using assms(1) by (cases "c = q") auto
qed

lemma bracket_loop_quoted:
  "cstring s \<Longrightarrow> 0x5d \<notin> set s \<Longrightarrow> c \<noteq> 0x5d \<Longrightarrow> bracket_loop c (s @ 0x5d # rest) i = (i + length s + 1, 0x5d)"
proof (induction s arbitrary: c i)
  case Nil
  show ?case by (cases rest) (use Nil in simp_all)
next
  case (Cons d s)
  then show ?case by auto
qed

lemma class_quotes: "sqlite3Isquote q \<Longrightarrow> q \<noteq> 0x5b \<Longrightarrow> cls q = CC_QUOTE" "cls 0x5b = CC_QUOTE2"
proof -
  show "cls 0x5b = CC_QUOTE2" by (simp add: cls_def aiClass_def CC_defs)
  assume "sqlite3Isquote q" "q \<noteq> 0x5b"
  then have "unat q \<in> {34, 39, 96}" by (auto simp: Isquote_iff word_unat_eq_iff)
  then show "cls q = CC_QUOTE" by (auto simp: cls_def aiClass_def CC_defs)
qed

section \<open>Looking ahead\<close>

lemma GetToken_end: "byte_at z 0 = 0 \<Longrightarrow> sqlite3GetToken z = (0, TK_ILLEGAL)"
  unfolding sqlite3GetToken_def Let_def by (simp add: CC_defs)

lemma GetToken_bounds:
  assumes "sqlite3GetToken z = (n, t)" "byte_at z 0 \<noteq> 0"
  shows "0 < n" "n \<le> length z" "length (drop n z) < length z"
  using GetToken_good [OF assms(2)] assms(1) by (auto simp: good_token_def)

definition yyFallback :: "int list" where
  "yyFallback =
     [0, 0, 59, 59, 59, 59, 0, 59, 59, 59, 0, 59, 59, 59, 59, 0, 0, 0, 59, 0, 0, 59, 0, 0, 0, 0, 59,
      59, 59, 59, 59, 59, 59, 59, 59, 59, 59, 59, 59, 59, 59, 59, 59, 0, 0, 0, 59, 59, 0, 0, 0, 0, 0,
      0, 0, 0, 0, 0, 0, 0, 59, 59, 59, 59, 59, 59, 59, 59, 59, 59, 59, 59, 59, 59, 59, 59, 59, 59,
      59, 59, 59, 59, 59, 59, 59, 59, 59, 59, 59, 59, 59, 59, 59, 59, 59, 59, 59, 59, 59, 59, 59, 0,
      0, 0, 0, 0, 0, 0, 0, 0, 0, 0, 0, 0, 0, 0, 0, 0, 0, 0, 0, 0, 0, 0, 0, 0, 0, 0, 0, 0, 0, 0, 0, 0,
      0, 0, 0, 0, 0, 0, 0, 0, 0, 0, 0, 0, 0, 0, 0, 0, 0, 0, 0, 0, 0, 0, 0, 0, 0, 0, 0, 0, 0, 0, 0, 0,
      0, 0, 0, 0, 0, 0, 0, 0, 0, 0, 0, 0, 0, 0, 0, 0, 0, 0, 0]"

definition sqlite3ParserFallback :: "int \<Rightarrow> int" where
  "sqlite3ParserFallback iToken = yyFallback ! nat iToken"

text \<open>The type returned and the text after the token.\<close>
function getToken :: "bytes \<Rightarrow> int \<times> bytes" where
  "getToken z =
     (let (n, t) = sqlite3GetToken z in
      if t = TK_SPACE then getToken (drop n z)
      else (if t = TK_ID \<or> t = TK_STRING \<or> t = TK_JOIN_KW \<or> t = TK_WINDOW \<or> t = TK_OVER
               \<or> sqlite3ParserFallback t = TK_ID then TK_ID else t, drop n z))"
  by pat_completeness auto
termination
proof (relation "measure length")
  fix z p n t
  assume "p = sqlite3GetToken z" "(n, t) = p" "t = TK_SPACE"
  moreover from this have "byte_at z 0 \<noteq> 0" using GetToken_end [of z] by (auto simp: TK_defs)
  ultimately show "(drop n z, z) \<in> measure length" using GetToken_bounds(3) [of z n t] by simp
qed simp

declare getToken.simps [simp del]

definition analyzeWindowKeyword :: "bytes \<Rightarrow> int" where
  "analyzeWindowKeyword z =
     (let (t, z) = getToken z in
      if t \<noteq> TK_ID then TK_ID
      else let (t, z) = getToken z in
        if t \<noteq> TK_AS then TK_ID else TK_WINDOW)"

definition analyzeOverKeyword :: "bytes \<Rightarrow> int \<Rightarrow> int" where
  "analyzeOverKeyword z lastToken =
     (if lastToken = TK_RP then
        let (t, z) = getToken z in
        if t = TK_LP \<or> t = TK_ID then TK_OVER else TK_ID
      else TK_ID)"

definition analyzeFilterKeyword :: "bytes \<Rightarrow> int \<Rightarrow> int" where
  "analyzeFilterKeyword z lastToken =
     (if lastToken = TK_RP \<and> fst (getToken z) = TK_LP then TK_FILTER else TK_ID)"

section \<open>Feeding the parser\<close>

definition SQLITE_ERROR :: nat where "SQLITE_ERROR = 1"
definition SQLITE_INTERRUPT :: nat where "SQLITE_INTERRUPT = 9"

text \<open>What a turn of the loop does after the token is read: leave with a result code, skip white
  space, or hand a token of a length and a type to the parser.\<close>
datatype turn = Break nat | Skip | Feed nat int

definition turn_of :: "bool \<Rightarrow> bytes \<Rightarrow> int \<Rightarrow> int \<Rightarrow> nat \<Rightarrow> int \<Rightarrow> turn" where
  "turn_of isInterrupted zSql mxSqlLen lastTokenParsed n tokenType =
     (if mxSqlLen < 0 then Break SQLITE_TOOBIG
      else if TK_WINDOW \<le> tokenType then
        if isInterrupted then Break SQLITE_INTERRUPT
        else if tokenType = TK_SPACE then Skip
        else if byte_at zSql 0 = 0 then
          if lastTokenParsed = TK_SEMI then Feed 0 0
          else if lastTokenParsed = 0 then Break SQLITE_OK
          else Feed 0 TK_SEMI
        else if tokenType = TK_WINDOW then Feed n (analyzeWindowKeyword (drop 6 zSql))
        else if tokenType = TK_OVER then Feed n (analyzeOverKeyword (drop 4 zSql) lastTokenParsed)
        else if tokenType = TK_FILTER then Feed n (analyzeFilterKeyword (drop 6 zSql) lastTokenParsed)
        else Break SQLITE_ERROR
      else Feed n tokenType)"

text \<open>At the end of the text the last token moves from anything to \<open>TK_SEMI\<close>, to \<open>0\<close>, to the exit.\<close>
definition end_rank :: "int \<Rightarrow> nat" where
  "end_rank t = (if t = 0 then 0 else if t = TK_SEMI then 1 else 2)"

lemma end_rank_le: "end_rank t \<le> 2"
  by (simp add: end_rank_def)

lemma Skip_shorter:
  assumes "sqlite3GetToken z = (n, t)" "turn_of i z mx l n t = Skip"
  shows "length (drop n z) < length z"
proof -
  have "t = TK_SPACE" using assms(2) by (auto simp: turn_of_def split: if_splits)
  then have "byte_at z 0 \<noteq> 0" using GetToken_end [of z] assms(1) by (auto simp: TK_defs)
  then show ?thesis using GetToken_bounds(3) [OF assms(1)] by simp
qed

lemma Feed_progress:
  assumes "sqlite3GetToken z = (n, t)" "turn_of i z mx l n t = Feed m t'"
  shows "length (drop m z) < length z \<or> m = 0 \<and> end_rank t' < end_rank l"
proof (cases "byte_at z 0 = 0")
  case True
  then have "t = TK_ILLEGAL" using GetToken_end [of z] assms(1) by simp
  then show ?thesis using assms(2) True
    by (auto simp: turn_of_def end_rank_def TK_defs split: if_splits)
next
  case False
  then have "m = n" using assms(2) by (auto simp: turn_of_def split: if_splits)
  then show ?thesis using GetToken_bounds(3) [OF assms(1) False] by simp
qed

text \<open>The generated parser: a token changes its state and leaves a result code in \<open>pParse->rc\<close>.\<close>
type_synonym 'e parser = "'e \<Rightarrow> int \<Rightarrow> bytes \<Rightarrow> 'e \<times> nat"

text \<open>The loop of \<open>sqlite3RunParser\<close>.  \<open>interrupted k\<close> is what \<open>db->u1.isInterrupted\<close> holds in turn
  \<open>k\<close>.  The result is the state of the parser, \<open>pParse->rc\<close> and the text not consumed.\<close>
function runParser_loop ::
  "'e parser \<Rightarrow> (nat \<Rightarrow> bool) \<Rightarrow> nat \<Rightarrow> 'e \<Rightarrow> bytes \<Rightarrow> int \<Rightarrow> int \<Rightarrow> 'e \<times> nat \<times> bytes" where
  "runParser_loop parser interrupted k e zSql mxSqlLen lastTokenParsed =
     (let (n, t) = sqlite3GetToken zSql; mx = mxSqlLen - int n in
      case turn_of (interrupted k) zSql mx lastTokenParsed n t of
        Break rc \<Rightarrow> (e, rc, zSql)
      | Skip \<Rightarrow> runParser_loop parser interrupted (k + 1) e (drop n zSql) mx lastTokenParsed
      | Feed n t \<Rightarrow>
          (case parser e t (take n zSql) of (e, rc) \<Rightarrow>
            if rc \<noteq> SQLITE_OK then (e, rc, drop n zSql)
            else runParser_loop parser interrupted (k + 1) e (drop n zSql) mx t))"
  by pat_completeness auto
termination
proof (relation "measure (\<lambda>(parser, interrupted, k, e, z, mx, l). 3 * length z + end_rank l)", goal_cases)
  case (2 parser interrupted k e z mx l p n t mx')
  then show ?case using Skip_shorter [of z n t] by auto
next
  case (3 parser interrupted k e z mx l p n t mx' m t' e' rc)
  then show ?case using Feed_progress [of z n t _ _ _ m t'] end_rank_le [of t'] end_rank_le [of l] by fastforce
qed simp

declare runParser_loop.simps [simp del]

section \<open>The types a token can have\<close>

text \<open>The assertions of \<open>sqlite3RunParser\<close> on what the tokenizer returns.\<close>
definition typed :: "token \<Rightarrow> bool" where
  "typed = (\<lambda>(n, t). 0 < t \<and> (t < TK_WINDOW \<or> t = TK_SPACE \<or> t = TK_ILLEGAL
     \<or> t = TK_WINDOW \<and> n = 6 \<or> t = TK_OVER \<and> n = 4 \<or> t = TK_FILTER \<and> n = 6))"

lemma typed_if: "(b \<Longrightarrow> typed x) \<Longrightarrow> (\<not> b \<Longrightarrow> typed y) \<Longrightarrow> typed (if b then x else y)"
  by simp

lemma typed_keyword:
  assumes "2 \<le> n" "n \<le> length z"
  shows "typed (n, keywordCode z n TK_ID)"
proof -
  have *: "list_all (\<lambda>(w, t). typed (length w, t)) sql_keywords"
    by (simp add: sql_keywords_def typed_def TK_defs)
  show ?thesis
  proof (cases "keyword_of (map kfold (take n z))")
    case None
    then show ?thesis using assms by (simp add: keywordCode_fold typed_def TK_defs)
  next
    case (Some c)
    then obtain w where w: "(w, c) \<in> set sql_keywords" "map kfold (take n z) = ascii w"
      unfolding keyword_of_def by (auto dest!: map_of_SomeD)
    have "n = length w" using arg_cong [OF w(2), of length] assms by (simp add: ascii_def)
    then show ?thesis using * w(1) Some assms by (auto simp: list_all_iff keywordCode_fold)
  qed
qed

lemma typed_parts:
  "typed (minus_token z)" "typed (slash_token z)" "typed (lt_token z)" "typed (gt_token z)" "typed (quote_token z)"
  "typed (bracket_token z)" "typed (x_token z)" "typed (id_token z i)"
  by (simp_all add: typed_def minus_token_def slash_token_def lt_token_def gt_token_def quote_token_def
      bracket_token_def x_token_def id_token_def TK_defs Let_def split: prod.split)

lemma typed_var: "var_loop z i n = (k, m, t) \<Longrightarrow> t = TK_VARIABLE \<or> t = TK_ILLEGAL"
  by (induction z i n rule: var_loop.induct) (auto simp: Let_def split: if_splits)

lemma typed_variable: "typed (variable_token z)"
  using typed_var [of "drop 1 z" 1 0]
  by (cases "var_loop (drop 1 z) 1 0") (auto simp: variable_token_def typed_def TK_defs)

lemma typed_number: "typed (number_token z)"
  by (simp add: number_token_def trailer_def exponent_def fraction_def typed_def TK_defs split: prod.split)

lemma typed_keyword_or_id: "typed (keyword_or_id z)"
proof -
  have "typed (span (\<lambda>c. cls c \<le> CC_KYWD) z 2, keywordCode z (span (\<lambda>c. cls c \<le> CC_KYWD) z 2) TK_ID)"
    if "\<not> cls (byte_at z 1) > CC_KYWD"
  proof -
    from that have "byte_at z 1 \<noteq> 0" by (auto simp: CC_defs)
    then have "2 \<le> length z" using byte_at_pos [of z 1] by simp
    then show ?thesis using span_bounds [of 2 z] by (intro typed_keyword) auto
  qed
  then show ?thesis unfolding keyword_or_id_def Let_def by (intro typed_if typed_parts) auto
qed

lemma GetToken_typed: "typed (sqlite3GetToken z)"
  unfolding sqlite3GetToken_def Let_def
  by (intro typed_if typed_parts typed_variable typed_number typed_keyword_or_id)
    (simp_all add: typed_def TK_defs)

section \<open>The tokens of a text\<close>

function lex :: "bytes \<Rightarrow> (int \<times> bytes) list" where
  "lex z =
     (if byte_at z 0 = 0 then []
      else let (n, t) = sqlite3GetToken z in (t, take n z) # lex (drop n z))"
  by pat_completeness auto
termination
  by (relation "measure length") (simp, metis GetToken_bounds(3) in_measure)

declare lex.simps [simp del]

lemma lex_simps:
  "lex [] = []"
  "sqlite3GetToken z = (n, t) \<Longrightarrow> byte_at z 0 \<noteq> 0 \<Longrightarrow> lex z = (t, take n z) # lex (drop n z)"
  by (simp_all add: lex.simps)

lemma cstring_byte: "cstring z \<Longrightarrow> z \<noteq> [] \<Longrightarrow> byte_at z 0 \<noteq> 0"
  by (cases z) auto

lemma cstring_drop: "cstring z \<Longrightarrow> cstring (drop n z)"
  by (auto simp: cstring_def dest: in_set_dropD)

lemma lex_lossless: "cstring z \<Longrightarrow> concat (map snd (lex z)) = z"
proof (induction z rule: lex.induct)
  case (1 z)
  show ?case
  proof (cases "z = []")
    case False
    then have b: "byte_at z 0 \<noteq> 0" using 1(2) by (rule cstring_byte [rotated])
    obtain n t where nt: "sqlite3GetToken z = (n, t)" by (cases "sqlite3GetToken z")
    have "concat (map snd (lex (drop n z))) = drop n z"
      using 1(1) [OF b] nt cstring_drop [OF 1(2)] by simp
    then show ?thesis using lex_simps(2) [OF nt b] by simp
  qed (simp add: lex_simps)
qed

text \<open>A parser that accepts and records every token.\<close>
definition recorder :: "(int \<times> bytes) list parser" where
  "recorder e t x = (e @ [(t, x)], SQLITE_OK)"

text \<open>A token as it reaches the parser: its own type, or an identifier instead of a window keyword.\<close>
definition handed_over :: "int \<times> bytes \<Rightarrow> int \<times> bytes \<Rightarrow> bool" where
  "handed_over p q \<longleftrightarrow> snd p = snd q
     \<and> (fst p = fst q \<or> fst q \<in> {TK_WINDOW, TK_OVER, TK_FILTER} \<and> fst p = TK_ID)"

text \<open>The tokens that close a text whose last token has type \<open>t\<close>.\<close>
definition closing :: "int \<Rightarrow> (int \<times> bytes) list" where
  "closing t = (if t = 0 then [] else if t = TK_SEMI then [(0, [])] else [(TK_SEMI, []), (0, [])])"

definition last_type :: "int \<Rightarrow> (int \<times> bytes) list \<Rightarrow> int" where
  "last_type l ts = (if ts = [] then l else fst (last ts))"

abbreviation legal :: "bytes \<Rightarrow> bool" where
  "legal z \<equiv> TK_ILLEGAL \<notin> fst ` set (lex z)"

lemma analyze_types:
  "analyzeWindowKeyword z \<in> {TK_WINDOW, TK_ID}" "analyzeOverKeyword z l \<in> {TK_OVER, TK_ID}"
  "analyzeFilterKeyword z l \<in> {TK_FILTER, TK_ID}"
  by (simp_all add: analyzeWindowKeyword_def analyzeOverKeyword_def analyzeFilterKeyword_def split: prod.split)

lemma turn_inside:
  assumes "byte_at z 0 \<noteq> 0" "sqlite3GetToken z = (n, t)" "t \<noteq> TK_ILLEGAL" "0 \<le> mx"
  shows "if t = TK_SPACE then turn_of False z mx l n t = Skip
    else \<exists>t'. turn_of False z mx l n t = Feed n t' \<and> handed_over (t', x) (t, x)"
proof -
  have "typed (n, t)" using GetToken_typed [of z] assms(2) by simp
  then consider "t < TK_WINDOW" | "t = TK_SPACE" | "t = TK_WINDOW" | "t = TK_OVER" | "t = TK_FILTER"
    using assms(3) by (auto simp: typed_def)
  then show ?thesis
    using assms(1,4) analyze_types
    by cases (auto simp: turn_of_def handed_over_def TK_defs)
qed

lemma loop_end:
  "0 \<le> mx \<Longrightarrow> runParser_loop recorder (\<lambda>_. False) k e [] mx l = (e @ closing l, SQLITE_OK, [])"
proof -
  assume mx: "0 \<le> mx"
  have step: "runParser_loop recorder (\<lambda>_. False) k e [] mx l =
     (if l = 0 then (e, SQLITE_OK, [])
      else if l = TK_SEMI then runParser_loop recorder (\<lambda>_. False) (k + 1) (e @ [(0, [])]) [] mx 0
      else runParser_loop recorder (\<lambda>_. False) (k + 1) (e @ [(TK_SEMI, [])]) [] mx TK_SEMI)" for k e l
    using mx by (subst runParser_loop.simps) (simp add: GetToken_end turn_of_def recorder_def TK_defs)
  show ?thesis using step by (simp add: closing_def TK_defs)
qed

lemma loop_stream:
  assumes "cstring z" "int (length z) \<le> mx" "legal z"
  shows "\<exists>ts. runParser_loop recorder (\<lambda>_. False) k e z mx l = (e @ ts @ closing (last_type l ts), SQLITE_OK, [])
    \<and> list_all2 handed_over ts (filter (\<lambda>(t, x). t \<noteq> TK_SPACE) (lex z))"
  using assms
proof (induction z arbitrary: k e mx l rule: lex.induct)
  case (1 z)
  show ?case
  proof (cases "z = []")
    case True
    then show ?thesis using 1(3) loop_end [of mx k e l]
      by (intro exI [of _ "[]"]) (simp add: lex_simps last_type_def)
  next
    case False
    then have b: "byte_at z 0 \<noteq> 0" using 1(2) by (rule cstring_byte [rotated])
    obtain n t where nt: "sqlite3GetToken z = (n, t)" by (cases "sqlite3GetToken z")
    have lz: "lex z = (t, take n z) # lex (drop n z)" by (rule lex_simps(2) [OF nt b])
    have n: "n \<le> length z" using GetToken_bounds(2) [OF nt b] .
    have mx: "0 \<le> mx - int n" "int (length (drop n z)) \<le> mx - int n" using 1(3) n by auto
    have leg: "t \<noteq> TK_ILLEGAL" "legal (drop n z)" using 1(4) lz by auto
    note IH = 1(1) [OF b nt [symmetric] refl cstring_drop [OF 1(2)] mx(2) leg(2)]
    note turn = turn_inside [OF b nt leg(1) mx(1), of l "take n z"]
    note unfold = runParser_loop.simps [of recorder "\<lambda>_. False" k e z mx l]
    show ?thesis
    proof (cases "t = TK_SPACE")
      case True
      then show ?thesis using turn IH [of "k + 1" e l] unfold nt lz by simp
    next
      case False
      then obtain t' where t': "turn_of False z (mx - int n) l n t = Feed n t'" "handed_over (t', take n z) (t, take n z)"
        using turn by auto
      obtain ts where ts: "runParser_loop recorder (\<lambda>_. False) (k + 1) (e @ [(t', take n z)]) (drop n z) (mx - int n) t'
          = ((e @ [(t', take n z)]) @ ts @ closing (last_type t' ts), SQLITE_OK, [])"
        "list_all2 handed_over ts (filter (\<lambda>(t, x). t \<noteq> TK_SPACE) (lex (drop n z)))"
        using IH by blast
      have "runParser_loop recorder (\<lambda>_. False) k e z mx l
          = (e @ ((t', take n z) # ts) @ closing (last_type l ((t', take n z) # ts)), SQLITE_OK, [])"
        using unfold nt t'(1) ts(1) by (simp add: recorder_def last_type_def)
      moreover have "list_all2 handed_over ((t', take n z) # ts) (filter (\<lambda>(t, x). t \<noteq> TK_SPACE) (lex z))"
        using False lz t'(2) ts(2) by simp
      ultimately show ?thesis by blast
    qed
  qed
qed

lemma loop_too_big:
  assumes "cstring z" "mx < int (length z)" "legal z"
  shows "fst (snd (runParser_loop recorder (\<lambda>_. False) k e z mx l)) = SQLITE_TOOBIG"
  using assms
proof (induction z arbitrary: k e mx l rule: lex.induct)
  case (1 z)
  have unfold: "fst (snd (runParser_loop recorder (\<lambda>_. False) k e z mx l)) = SQLITE_TOOBIG"
    if "sqlite3GetToken z = (n, t)" "mx - int n < 0" for n t
    using that by (subst runParser_loop.simps) (simp add: turn_of_def)
  show ?case
  proof (cases "z = []")
    case True
    then show ?thesis using unfold [of 0 TK_ILLEGAL] 1(3) by (simp add: GetToken_end)
  next
    case False
    then have b: "byte_at z 0 \<noteq> 0" using 1(2) by (rule cstring_byte [rotated])
    obtain n t where nt: "sqlite3GetToken z = (n, t)" by (cases "sqlite3GetToken z")
    have lz: "lex z = (t, take n z) # lex (drop n z)" by (rule lex_simps(2) [OF nt b])
    have leg: "t \<noteq> TK_ILLEGAL" "legal (drop n z)" using 1(4) lz by auto
    have mx: "mx - int n < int (length (drop n z))" using 1(3) GetToken_bounds(2) [OF nt b] by auto
    note IH = 1(1) [OF b nt [symmetric] refl cstring_drop [OF 1(2)] mx leg(2)]
    show ?thesis
    proof (cases "mx - int n < 0")
      case True
      then show ?thesis by (rule unfold [OF nt])
    next
      case False
      then have "0 \<le> mx - int n" by simp
      from turn_inside [OF b nt leg(1) this, of l "take n z"] show ?thesis
        using IH nt by (subst runParser_loop.simps) (auto simp: recorder_def [of e] split: if_splits)
    qed
  qed
qed

lemma lex_types: "p \<in> set (lex z) \<Longrightarrow> 0 < fst p"
proof (induction z rule: lex.induct)
  case (1 z)
  then have b: "byte_at z 0 \<noteq> 0" by (auto simp: lex.simps [of z])
  obtain n t where nt: "sqlite3GetToken z = (n, t)" by (cases "sqlite3GetToken z")
  have "0 < t" using GetToken_typed [of z] nt by (simp add: typed_def)
  then show ?case using 1 b nt lex_simps(2) [OF nt b] by auto
qed

lemma handed_over_last:
  assumes "list_all2 handed_over ts (filter P (lex z))" "ts \<noteq> []"
  shows "fst (last ts) \<noteq> 0"
proof -
  have "filter P (lex z) \<noteq> []" using assms by auto
  then have "last (filter P (lex z)) \<in> set (lex z)" using last_in_set by fastforce
  then have "0 < fst (last (filter P (lex z)))" by (rule lex_types)
  moreover have "handed_over (last ts) (last (filter P (lex z)))"
    using assms list_all2_lengthD [OF assms(1)] list_all2_nthD2 [OF assms(1), of "length (filter P (lex z)) - 1"]
      \<open>filter P (lex z) \<noteq> []\<close> by (simp add: last_conv_nth)
  ultimately show ?thesis by (auto simp: handed_over_def TK_defs)
qed

text \<open>
  C38.  \<open>sqlite3GetToken\<close> on a zero-terminated text: whatever bytes follow the terminator, the token
  is the same, is not empty and ends at or before the terminator; its type and length satisfy
  the assertions that \<open>sqlite3RunParser\<close> makes about them.
\<close>
theorem GetToken_contract:
  assumes "cstring z" "z \<noteq> []" "sqlite3GetToken (z @ 0 # junk) = (n, t)"
  shows "sqlite3GetToken z = (n, t) \<and> 0 < n \<and> n \<le> length z \<and> typed (n, t)"
proof -
  have "good_token sqlite3GetToken z" by (rule GetToken_good [OF cstring_byte [OF assms(1,2)]])
  then show ?thesis using assms(3) GetToken_typed [of z] by (auto simp: good_token_def)
qed

theorem GetToken_contract_witness:
  "sqlite3GetToken (ascii ''<>1'') = (2, TK_NE) \<and> typed (2, TK_NE)"
  using GetToken_contract [of "ascii ''<>1''" "ascii ''>''" 2 TK_NE]
  by (simp add: ascii_def sqlite3GetToken_def cls_def aiClass_def CC_defs lt_token_def)

text \<open>
  C39.  The loop of \<open>sqlite3RunParser\<close> on a text without illegal tokens, with a parser that accepts
  every token: the loop ends, and when the text is within the length limit the parser gets the
  tokens of the text in order without the white space (a window keyword possibly as an
  identifier), then a semicolon unless the text ends in one, then the end marker; nothing of the
  text is lost.  A longer text is refused with \<open>SQLITE_TOOBIG\<close>.
\<close>
theorem RunParser_token_stream:
  assumes "cstring z" "legal z"
  shows "concat (map snd (lex z)) = z \<and>
    (if int (length z) \<le> mx then
       \<exists>ts. list_all2 handed_over ts (filter (\<lambda>(t, x). t \<noteq> TK_SPACE) (lex z))
         \<and> runParser_loop recorder (\<lambda>_. False) 0 [] z mx (- 1)
           = (ts @ (if ts \<noteq> [] \<and> fst (last ts) = TK_SEMI then [] else [(TK_SEMI, [])]) @ [(0, [])], SQLITE_OK, [])
     else fst (snd (runParser_loop recorder (\<lambda>_. False) 0 [] z mx (- 1))) = SQLITE_TOOBIG)"
proof (cases "int (length z) \<le> mx")
  case True
  obtain ts where ts: "runParser_loop recorder (\<lambda>_. False) 0 [] z mx (- 1) = (ts @ closing (last_type (- 1) ts), SQLITE_OK, [])"
    "list_all2 handed_over ts (filter (\<lambda>(t, x). t \<noteq> TK_SPACE) (lex z))"
    using loop_stream [OF assms(1) True assms(2), of 0 "[]" "- 1"] by auto
  have "closing (last_type (- 1) ts)
      = (if ts \<noteq> [] \<and> fst (last ts) = TK_SEMI then [] else [(TK_SEMI, [])]) @ [(0, [])]"
    using handed_over_last [OF ts(2)] by (auto simp: closing_def last_type_def TK_defs)
  then show ?thesis using ts True lex_lossless [OF assms(1)] by auto
next
  case False
  then show ?thesis using loop_too_big [OF assms(1) _ assms(2)] lex_lossless [OF assms(1)] by simp
qed

theorem RunParser_token_stream_witness:
  "fst (snd (runParser_loop recorder (\<lambda>_. False) 0 [] (ascii ''<>1'') 2 (- 1))) = SQLITE_TOOBIG"
proof -
  have t1: "sqlite3GetToken (ascii ''<>1'') = (2, TK_NE)" "sqlite3GetToken (ascii ''1'') = (1, TK_INTEGER)"
    by (simp_all add: ascii_def sqlite3GetToken_def cls_def aiClass_def CC_defs lt_token_def number_token_def
        trailer_def exponent_def fraction_def span_def ctype_iffs)
  have "lex (ascii ''<>1'') = [(TK_NE, ascii ''<>''), (TK_INTEGER, ascii ''1'')]"
    using lex_simps(2) [OF t1(1)] lex_simps(2) [OF t1(2)] by (simp add: ascii_def lex_simps)
  then have "legal (ascii ''<>1'')" by (simp add: TK_defs)
  from RunParser_token_stream [OF _ this, of 2] show ?thesis by (simp add: ascii_def)
qed

end
