(* ===== verification/IntText.thy ===== *)
theory IntText
  imports Ctype
begin

text \<open>
  Integers as text in SQLite (\<open>src/db/sqlite3.c\<close>, from \<open>util.c\<close>): rendering, and the
  parsers of decimal and hexadecimal numbers.
\<close>

section \<open>Definitions\<close>

text \<open>The digits of \<open>sqlite3Int64ToText\<close>, written into \<open>zTemp\<close> from the right.\<close>
function int64ToText_loop :: "nat \<Rightarrow> bytes \<Rightarrow> bytes" where
  "int64ToText_loop x zTemp =
     (let zTemp = word_of_nat (x mod 10 + 48) # zTemp; x = x div 10
      in if x = 0 then zTemp else int64ToText_loop x zTemp)"
  by pat_completeness auto
termination
  by (relation "measure fst") auto

declare int64ToText_loop.simps [simp del]

definition sqlite3Int64ToText :: "int \<Rightarrow> bytes" where
  "sqlite3Int64ToText v =
     (let x = (if v < 0 then (if v = SMALLEST_INT64 then 2 ^ 63 else nat (- v)) else nat v);
          zTemp = int64ToText_loop x []
      in if v < 0 then 0x2d # zTemp else zTemp)"

definition pow63 :: bytes where
  "pow63 = [0x39, 0x32, 0x32, 0x33, 0x33, 0x37, 0x32, 0x30, 0x33, 0x36, 0x38, 0x35, 0x34, 0x37,
            0x37, 0x35, 0x38, 0x30]"

text \<open>\<open>for(i=0; c==0 && i<18; i++){ c = (zNum[i*incr]-pow63[i])*10; }\<close>\<close>
fun compare2pow63_loop :: "bytes \<Rightarrow> nat \<Rightarrow> nat \<Rightarrow> nat \<Rightarrow> bytes \<Rightarrow> int" where
  "compare2pow63_loop z p incr i [] = 0"
| "compare2pow63_loop z p incr i (d # ds) =
     (let c = (uint (z ! (p + i * incr)) - uint d) * 10
      in if c = 0 then compare2pow63_loop z p incr (i + 1) ds else c)"

definition compare2pow63 :: "bytes \<Rightarrow> nat \<Rightarrow> nat \<Rightarrow> int" where
  "compare2pow63 z p incr =
     (let c = compare2pow63_loop z p incr 0 pow63
      in if c = 0 then uint (z ! (p + 18 * incr)) - 56 else c)"

text \<open>\<open>while( zNum<zEnd && P(*zNum) ) zNum+=incr;\<close>, pointers as offsets into the text.\<close>
function skip_while :: "(u8 \<Rightarrow> bool) \<Rightarrow> bytes \<Rightarrow> nat \<Rightarrow> nat \<Rightarrow> nat \<Rightarrow> nat" where
  "skip_while P z p zEnd incr =
     (if p < zEnd \<and> 0 < incr \<and> P (z ! p) then skip_while P z (p + incr) zEnd incr else p)"
  by pat_completeness auto
termination
  by (relation "measure (\<lambda>(P, z, p, zEnd, incr). zEnd - p)") auto

text \<open>The digit loop; the result is the number of bytes it passed and the accumulator.\<close>
function atoi_digits :: "bytes \<Rightarrow> nat \<Rightarrow> nat \<Rightarrow> nat \<Rightarrow> nat \<Rightarrow> u64 \<Rightarrow> nat \<times> u64" where
  "atoi_digits z p i zEnd incr u =
     (if p + i < zEnd \<and> 0 < incr \<and> 48 \<le> unat (z ! (p + i)) \<and> unat (z ! (p + i)) \<le> 57
      then atoi_digits z p (i + incr) zEnd incr (u * 10 + ucast (z ! (p + i)) - 48)
      else (i, u))"
  by pat_completeness auto
termination
  by (relation "measure (\<lambda>(z, p, i, zEnd, incr, u). zEnd - (p + i))") auto

declare skip_while.simps [simp del] atoi_digits.simps [simp del]

text \<open>
  The part of \<open>sqlite3Atoi64\<close> that finds the text to read: the offset of its first
  character, its end, the distance between characters and \<open>nonNum\<close>.  \<open>enc\<close> is
  \<open>SQLITE_UTF8\<close> (1), \<open>SQLITE_UTF16LE\<close> (2) or \<open>SQLITE_UTF16BE\<close> (3).
\<close>
definition atoi_range :: "bytes \<Rightarrow> nat \<Rightarrow> nat \<times> nat \<times> nat \<times> bool" where
  "atoi_range z enc =
     (if enc = 1 then (0, length z, 1, False)
      else let len = length z - length z mod 2;
               i = skip_while (\<lambda>c. c = 0) z (3 - enc) len 2
           in (enc mod 2, i XOR 1, 2, i < len))"

text \<open>The result is the return code and the new \<open>*pNum\<close>.\<close>
definition sqlite3Atoi64 :: "bytes \<Rightarrow> nat \<Rightarrow> int \<times> int" where
  "sqlite3Atoi64 z enc =
     (let (p, zEnd, incr, nonNum) = atoi_range z enc;
          p = skip_while sqlite3Isspace z p zEnd incr;
          (neg, p) = (if p < zEnd \<and> z ! p = 0x2d then (True, p + incr)
                      else if p < zEnd \<and> z ! p = 0x2b then (False, p + incr)
                      else (False, p));
          zStart = p;
          p = skip_while (\<lambda>c. c = 0x30) z p zEnd incr;
          (i, u) = atoi_digits z p 0 zEnd incr 0;
          clamp = (if neg then SMALLEST_INT64 else LARGEST_INT64);
          pNum = (if uint u > LARGEST_INT64 then clamp else if neg then - uint u else uint u);
          rc = (if i = 0 \<and> zStart = p then - 1
                else if nonNum then 1
                else if skip_while sqlite3Isspace z (p + i) zEnd incr < zEnd then 1
                else 0)
      in if i < 19 * incr then (rc, pNum)
         else let c = (if i > 19 * incr then 1 else compare2pow63 z p incr)
              in if c < 0 then (rc, pNum)
                 else if c > 0 then (2, clamp)
                 else (if neg then rc else 3, clamp))"

definition SQLITE_UTF8 :: nat where "SQLITE_UTF8 = 1"
definition SQLITE_UTF16LE :: nat where "SQLITE_UTF16LE = 2"
definition SQLITE_UTF16BE :: nat where "SQLITE_UTF16BE = 3"

text \<open>\<open>h += 9*(1&(h>>6)); return (u8)(h & 0xf);\<close>\<close>
definition sqlite3HexToInt :: "u8 \<Rightarrow> u8" where
  "sqlite3HexToInt h = word_of_int (take_bit 4 (uint h + 9 * (take_bit 1 (drop_bit 6 (uint h)))))"

text \<open>The byte \<open>z[i]\<close> of a zero-terminated string.\<close>
definition at :: "bytes \<Rightarrow> nat \<Rightarrow> u8" where
  "at z i = (if i < length z then z ! i else 0)"

definition hex_digits :: "nat \<Rightarrow> bytes \<Rightarrow> 'a :: len word" where
  "hex_digits n ds = foldl (\<lambda>u c. u * 16 + ucast (sqlite3HexToInt c)) 0 (take n ds)"

text \<open>
  \<open>sqlite3DecOrHexToI64\<close>: the hexadecimal loop reads all digits after the zeros; its
  \<open>u64\<close> is copied bit by bit into the result.
\<close>
definition sqlite3DecOrHexToI64 :: "bytes \<Rightarrow> int \<times> int" where
  "sqlite3DecOrHexToI64 z =
     (if at z 0 = 0x30 \<and> (at z 1 = 0x78 \<or> at z 1 = 0x58)
      then let ds = dropWhile (\<lambda>c. c = 0x30) (drop 2 z);
               hs = takeWhile sqlite3Isxdigit ds;
               u = hex_digits (length hs) hs :: u64
           in (if length hs > 16 then 2 else if first (drop (length hs) ds) \<noteq> 0 then 1 else 0, sint u)
      else let n = length (takeWhile (\<lambda>c. c \<in> {0x2b, 0x2d, 0x20, 0x0a, 0x09} \<or> 48 \<le> unat c \<and> unat c \<le> 57) z);
               n = (if at z n \<noteq> 0 then n + 1 else n)
           in sqlite3Atoi64 (take n z) SQLITE_UTF8)"

text \<open>\<open>sqlite3GetInt32\<close>: \<open>None\<close> when it returns 0, leaving \<open>*pValue\<close> alone.\<close>
definition getInt32_decimal :: "bool \<Rightarrow> bytes \<Rightarrow> int option" where
  "getInt32_decimal neg z =
     (if \<not> sqlite3Isdigit (first z) then None
      else let ds = takeWhile (\<lambda>c. 48 \<le> unat c \<and> unat c \<le> 57) (take 11 (dropWhile (\<lambda>c. c = 0x30) z));
               v = int (num_of ds)
           in if length ds > 10 then None
              else if v - (if neg then 1 else 0) > 2147483647 then None
              else Some (if neg then - v else v))"

definition sqlite3GetInt32 :: "bytes \<Rightarrow> int option" where
  "sqlite3GetInt32 z =
     (if first z = 0x2d then getInt32_decimal True (tl z)
      else if first z = 0x2b then getInt32_decimal False (tl z)
      else if first z = 0x30 \<and> (at z 1 = 0x78 \<or> at z 1 = 0x58) \<and> sqlite3Isxdigit (at z 2)
      then let ds = dropWhile (\<lambda>c. c = 0x30) (drop 2 z);
               hs = takeWhile sqlite3Isxdigit (take 8 ds);
               u = hex_digits 8 hs :: u32
           in if u AND 0x80000000 = 0 \<and> \<not> sqlite3Isxdigit (at ds (length hs)) then Some (sint u) else None
      else getInt32_decimal False z)"

definition sqlite3Atoi :: "bytes \<Rightarrow> int" where
  "sqlite3Atoi z = (case sqlite3GetInt32 z of None \<Rightarrow> 0 | Some x \<Rightarrow> x)"

text \<open>The loop of \<open>sqlite3GetUInt32\<close>; \<open>None\<close> when it gives up.\<close>
fun getUInt32_loop :: "u64 \<Rightarrow> bytes \<Rightarrow> (u64 \<times> bytes) option" where
  "getUInt32_loop v [] = Some (v, [])"
| "getUInt32_loop v (c # z) =
     (if sqlite3Isdigit c
      then let v = v * 10 + ucast c - 48 in if v > 4294967296 then None else getUInt32_loop v z
      else Some (v, c # z))"

definition sqlite3GetUInt32 :: "bytes \<Rightarrow> int \<times> u32" where
  "sqlite3GetUInt32 z =
     (case getUInt32_loop 0 z of
        None \<Rightarrow> (0, 0)
      | Some (v, rest) \<Rightarrow> if length rest = length z \<or> first rest \<noteq> 0 then (0, 0) else (1, ucast v))"

text \<open>
  \<open>sqlite3HexToBlob\<close> on the \<open>n\<close> bytes after \<open>x'\<close>, the closing quote included; the
  allocation is the caller's concern and \<open>None\<close> its failure.
\<close>
definition sqlite3HexToBlob :: "bool \<Rightarrow> bytes \<Rightarrow> nat \<Rightarrow> bytes option" where
  "sqlite3HexToBlob malloc_ok z n =
     (if malloc_ok
      then Some (map (\<lambda>i. push_bit 4 (sqlite3HexToInt (at z (2 * i))) OR sqlite3HexToInt (at z (2 * i + 1)))
             [0..<n div 2])
      else None)"

section \<open>The characters read\<close>

text \<open>The characters from offset \<open>p\<close> before \<open>e\<close>, \<open>incr\<close> bytes apart.\<close>
function view :: "bytes \<Rightarrow> nat \<Rightarrow> nat \<Rightarrow> nat \<Rightarrow> bytes" where
  "view z p e incr = (if p < e \<and> 0 < incr then z ! p # view z (p + incr) e incr else [])"
  by pat_completeness auto
termination
  by (relation "measure (\<lambda>(z, p, e, incr). e - p)") auto

declare view.simps [simp del]

lemma view_Nil [simp]: "e \<le> p \<Longrightarrow> view z p e incr = []"
  by (simp add: view.simps)

lemma view_Cons: "p < e \<Longrightarrow> 0 < incr \<Longrightarrow> view z p e incr = z ! p # view z (p + incr) e incr"
  by (simp add: view.simps)

lemma view_empty_iff: "0 < incr \<Longrightarrow> view z p e incr = [] \<longleftrightarrow> e \<le> p"
  by (cases "p < e") (simp_all add: view_Cons)

lemma skip_while_view:
  assumes "0 < incr"
  shows "skip_while P z p e incr = p + incr * length (takeWhile P (view z p e incr)) \<and>
         view z (skip_while P z p e incr) e incr = dropWhile P (view z p e incr)"
proof (induction P z p e incr rule: skip_while.induct)
  case (1 P z p e incr)
  show ?case
  proof (cases "p < e \<and> 0 < incr")
    case True
    then show ?thesis using 1
      by (cases "P (z ! p)") (auto simp: skip_while.simps [of P z p] view_Cons)
  next
    case False
    then show ?thesis by (simp add: skip_while.simps [of P z p] view.simps [of z p])
  qed
qed

abbreviation is_digit :: "u8 \<Rightarrow> bool" where
  "is_digit c \<equiv> 48 \<le> unat c \<and> unat c \<le> 57"

text \<open>The digits continued from an accumulator, in the natural numbers.\<close>
definition num_from :: "nat \<Rightarrow> bytes \<Rightarrow> nat" where
  "num_from n bs = foldl (\<lambda>n c. 10 * n + (unat c - 48)) n bs"

lemma num_of_from: "num_of bs = num_from 0 bs"
  by (simp add: num_of_def num_from_def)

lemma digit_step:
  assumes "is_digit c"
  shows "(of_nat n :: u64) * 10 + ucast c - 48 = of_nat (10 * n + (unat c - 48))"
proof -
  have "(ucast c :: u64) = of_nat (unat c)" by simp
  moreover have "(of_nat (unat c) :: u64) = of_nat (unat c - 48) + 48"
    using assms by (metis add.commute le_add_diff_inverse of_nat_add of_nat_numeral)
  ultimately show ?thesis by (simp add: algebra_simps)
qed

lemma atoi_digits_view:
  assumes "0 < incr"
  shows "atoi_digits z p i e incr (of_nat n) =
    (i + incr * length (takeWhile is_digit (view z (p + i) e incr)),
     of_nat (num_from n (takeWhile is_digit (view z (p + i) e incr))))"
proof (induction "e - (p + i)" arbitrary: i n rule: less_induct)
  case less
  show ?case
  proof (cases "p + i < e \<and> is_digit (z ! (p + i))")
    case True
    let ?n = "10 * n + (unat (z ! (p + i)) - 48)"
    have "atoi_digits z p i e incr (of_nat n) = atoi_digits z p (i + incr) e incr (of_nat ?n)"
      using True assms unfolding digit_step [of "z ! (p + i)" n, symmetric, OF conjunct2 [OF True]]
      by (simp add: atoi_digits.simps [of z p i] mult.commute)
    also have "\<dots> = (i + incr + incr * length (takeWhile is_digit (view z (p + (i + incr)) e incr)),
        of_nat (num_from ?n (takeWhile is_digit (view z (p + (i + incr)) e incr))))"
      using True assms by (intro less) auto
    finally show ?thesis using True assms by (simp add: view_Cons num_from_def add.assoc)
  next
    case False
    then show ?thesis using assms
      by (cases "p + i < e") (auto simp: atoi_digits.simps [of z p i] view_Cons num_from_def)
  qed
qed

lemma num_from_bounds:
  assumes "list_all is_digit bs"
  shows "num_from n bs = n * 10 ^ length bs + num_of bs" "num_of bs < 10 ^ length bs"
proof -
  show gen: "num_from n bs = n * 10 ^ length bs + num_of bs" for n bs
    unfolding num_of_from
  proof (induction bs arbitrary: n)
    case (Cons c bs)
    show ?case using Cons [of "10 * n + (unat c - 48)"] Cons [of "unat c - 48"]
      by (simp add: num_from_def algebra_simps)
  qed (simp add: num_from_def)
  show "num_of bs < 10 ^ length bs"
    using assms
  proof (induction bs)
    case (Cons c bs)
    have "unat c - 48 \<le> 9" using Cons.prems by auto
    then have "(unat c - 48) * 10 ^ length bs \<le> 9 * 10 ^ length bs" by (rule mult_le_mono1)
    moreover have "num_of (c # bs) = (unat c - 48) * 10 ^ length bs + num_of bs"
      using gen [of "unat c - 48" bs] by (simp add: num_of_def num_from_def)
    moreover have "num_of bs < 10 ^ length bs" using Cons by simp
    ultimately have "num_of (c # bs) < 10 * 10 ^ length bs" by linarith
    then show ?case by simp
  qed (simp add: num_of_def)
qed

lemma num_of_Cons:
  "list_all is_digit bs \<Longrightarrow> num_of (c # bs) = (unat c - 48) * 10 ^ length bs + num_of bs"
  using num_from_bounds(1) [of bs "unat c - 48"] by (simp add: num_of_def num_from_def)

lemma num_from_ge: "list_all is_digit ds \<Longrightarrow> n \<le> num_from n ds"
  unfolding num_from_bounds(1) by (simp add: trans_le_add1)

lemma num_of_snoc: "num_of (bs @ [c]) = 10 * num_of bs + (unat c - 48)"
  by (simp add: num_of_def)

text \<open>The first difference of two digit strings, as \<open>compare2pow63\<close> computes it.\<close>
fun first_diff :: "bytes \<Rightarrow> bytes \<Rightarrow> int" where
  "first_diff (c # cs) (d # ds) = (if c = d then first_diff cs ds else (uint c - uint d) * 10)"
| "first_diff _ _ = 0"

lemma first_diff_sign:
  assumes "length cs = length ds" "list_all is_digit cs" "list_all is_digit ds"
  shows "(first_diff cs ds < 0 \<longleftrightarrow> num_of cs < num_of ds) \<and> (first_diff cs ds = 0 \<longleftrightarrow> num_of cs = num_of ds)"
  using assms
proof (induction cs ds rule: list_induct2)
  case (Cons c cs d ds)
  note num = num_of_Cons [of cs c] num_of_Cons [of ds d] num_from_bounds(2) [of cs] num_from_bounds(2) [of ds]
  obtain m k where u: "unat c = m" "uint c = int m" "unat d = k" "uint d = int k" by simp
  consider "c = d" | "unat c < unat d" | "unat d < unat c"
    by (metis linorder_less_linear word_unat_eq_iff)
  then show ?case
  proof cases
    case 1
    then show ?thesis using Cons num by simp
  next
    case 2
    then have "Suc (unat c - 48) * 10 ^ length ds \<le> (unat d - 48) * 10 ^ length ds"
      using Cons.prems by (intro mult_le_mono1) auto
    then have "num_of (c # cs) < num_of (d # ds)" using Cons num by simp
    then show ?thesis using 2 u by auto
  next
    case 3
    then have "Suc (unat d - 48) * 10 ^ length ds \<le> (unat c - 48) * 10 ^ length ds"
      using Cons.prems by (intro mult_le_mono1) auto
    then have "num_of (d # ds) < num_of (c # cs)" using Cons num by simp
    then show ?thesis using 3 u by auto
  qed
qed simp

lemma view_nth: "0 < incr \<Longrightarrow> i < length (view z p e incr) \<Longrightarrow> view z p e incr ! i = z ! (p + i * incr)"
proof (induction i arbitrary: p)
  case 0
  then show ?case by (cases "p < e") (simp_all add: view_Cons)
next
  case (Suc i)
  then show ?case by (cases "p < e") (simp_all add: view_Cons add.assoc)
qed

lemma compare_loop_diff:
  assumes "\<And>j. j < length ds \<Longrightarrow> z ! (p + (i + j) * incr) = cs ! j" "length cs = length ds"
  shows "compare2pow63_loop z p incr i ds = first_diff cs ds"
  using assms
proof (induction ds arbitrary: i cs)
  case (Cons d ds)
  then obtain c cs' where cs: "cs = c # cs'" by (cases cs) auto
  have "z ! (p + i * incr) = c" using Cons.prems(1) [of 0] cs by simp
  moreover have "compare2pow63_loop z p incr (i + 1) ds = first_diff cs' ds"
    using Cons.prems cs by (intro Cons.IH) (auto dest: Cons.prems(1) [of "Suc _", simplified])
  moreover have "uint c = uint d \<longleftrightarrow> c = d" by (simp add: word_uint_eq_iff)
  ultimately show ?case using cs by (auto simp: Let_def)
qed simp

lemma compare2pow63_sign:
  assumes "0 < incr" "take 19 (view z p e incr) = ds" "length ds = 19" "list_all is_digit ds"
  shows "(compare2pow63 z p incr < 0 \<longleftrightarrow> num_of ds < 2 ^ 63) \<and>
         (compare2pow63 z p incr = 0 \<longleftrightarrow> num_of ds = 2 ^ 63)"
proof -
  have nth: "z ! (p + i * incr) = ds ! i" if "i < 19" for i
    using view_nth [OF assms(1), of i z p e] assms(2,3) that by auto
  obtain hs l where ds: "ds = hs @ [l]" "length hs = 18"
    using assms(3) by (cases ds rule: rev_exhaust) auto
  have hs: "list_all is_digit hs" "is_digit l" using assms(4) ds by auto
  have loop: "compare2pow63_loop z p incr 0 pow63 = first_diff hs pow63"
    using nth ds by (intro compare_loop_diff) (auto simp: pow63_def nth_append)
  have p63: "num_of pow63 = 922337203685477580" "list_all is_digit pow63" "length pow63 = 18"
    by (simp_all add: pow63_def num_of_def)
  have sign: "(first_diff hs pow63 < 0 \<longleftrightarrow> num_of hs < num_of pow63) \<and>
      (first_diff hs pow63 = 0 \<longleftrightarrow> num_of hs = num_of pow63)"
    using ds(2) hs(1) p63 by (intro first_diff_sign) simp_all
  have l: "z ! (p + 18 * incr) = l" using nth [of 18] ds by (simp add: nth_append)
  have n: "num_of ds = 10 * num_of hs + (unat l - 48)" using ds num_of_snoc by simp
  obtain m where u: "unat l = m" "uint l = int m" by simp
  show ?thesis
    using sign hs(2) unfolding compare2pow63_def loop l n p63(1) Let_def u by auto
qed

section \<open>Correctness of \<open>sqlite3Atoi64\<close>\<close>

text \<open>
  What \<open>sqlite3Atoi64\<close> promises, in terms of the characters of the text and of unbounded
  integers.
\<close>
definition atoi_spec :: "bool \<Rightarrow> bytes \<Rightarrow> int \<times> int" where
  "atoi_spec nonNum cs =
     (let cs = dropWhile sqlite3Isspace cs;
          neg = (take 1 cs = [0x2d]);
          cs = (if take 1 cs \<in> {[0x2d], [0x2b]} then tl cs else cs);
          ds = takeWhile is_digit cs;
          rest = dropWhile is_digit cs;
          v = (if neg then - int (num_of ds) else int (num_of ds));
          rc = (if ds = [] then - 1 else if nonNum \<or> \<not> list_all sqlite3Isspace rest then 1 else 0)
      in if is_i64 v then (rc, v)
         else if v = 2 ^ 63 then (3, LARGEST_INT64)
         else (2, if neg then SMALLEST_INT64 else LARGEST_INT64))"

text \<open>The digits after the leading zeros.\<close>

lemma strip_zeros:
  fixes cs :: bytes
  defines "zs \<equiv> takeWhile (\<lambda>c. c = 0x30) cs" and "ds \<equiv> takeWhile is_digit (dropWhile (\<lambda>c. c = 0x30) cs)"
  shows "takeWhile is_digit cs = zs @ ds" "num_of (zs @ ds) = num_of ds"
    "dropWhile is_digit (dropWhile (\<lambda>c. c = 0x30) cs) = dropWhile is_digit cs"
    "ds = [] \<or> hd ds \<noteq> 0x30"
proof -
  show "takeWhile is_digit cs = zs @ ds" unfolding zs_def ds_def by (induction cs) auto
  show "dropWhile is_digit (dropWhile (\<lambda>c. c = 0x30) cs) = dropWhile is_digit cs" by (induction cs) auto
  have "zs = replicate (length zs) 0x30"
    unfolding zs_def by (metis (mono_tags, lifting) replicate_length_same set_takeWhileD)
  then show "num_of (zs @ ds) = num_of ds"
    using foldl_zeros [of "length zs"] by (simp add: num_of_def)
  show "ds = [] \<or> hd ds \<noteq> 0x30"
    unfolding ds_def by (induction cs) auto
qed

lemma num_of_lower:
  assumes "list_all is_digit ds" "ds \<noteq> []" "hd ds \<noteq> 0x30"
  shows "10 ^ (length ds - 1) \<le> num_of ds"
proof -
  obtain c bs where ds: "ds = c # bs" using assms(2) by (cases ds) auto
  have "unat c \<noteq> 48"
  proof
    assume "unat c = 48"
    then have "c = 0x30" by (simp add: word_unat_eq_iff)
    then show False using assms(3) ds by simp
  qed
  then have "1 \<le> unat c - 48" using assms(1) ds by auto
  then have "1 * 10 ^ length bs \<le> (unat c - 48) * 10 ^ length bs" by (rule mult_le_mono1)
  moreover have "num_of (c # bs) = (unat c - 48) * 10 ^ length bs + num_of bs"
    using assms(1) ds by (intro num_of_Cons) simp
  ultimately have "10 ^ length bs \<le> num_of (c # bs)" by linarith
  then show ?thesis using ds by simp
qed

lemma view_drop: "0 < incr \<Longrightarrow> view z (p + incr * k) e incr = drop k (view z p e incr)"
proof (induction k arbitrary: p)
  case (Suc k)
  have "p + incr * Suc k = (p + incr) + incr * k" by simp
  then show ?case using Suc by (cases "p < e") (simp_all only: view_Cons drop_Suc_Cons, simp)
qed simp

lemma view_head: "0 < incr \<Longrightarrow> p < e \<and> z ! p = c \<longleftrightarrow> take 1 (view z p e incr) = [c]"
  by (cases "p < e") (simp_all add: view_Cons)

text \<open>The numeric part: the case distinctions on the number of digits.\<close>
lemma atoi_finish:
  assumes incr: "0 < incr"
    and ds: "ds = takeWhile is_digit (view z p e incr)" "ds = [] \<or> hd ds \<noteq> 0x30"
    and v: "v = (if neg then - int (num_of ds) else int (num_of ds))"
    and u: "u = (of_nat (num_of ds) :: u64)"
    and clamp: "clamp = (if neg then SMALLEST_INT64 else LARGEST_INT64)"
    and pNum: "pNum = (if uint u > LARGEST_INT64 then clamp else if neg then - uint u else uint u)"
  shows "(if incr * length ds < 19 * incr then (rc, pNum)
          else let c = (if incr * length ds > 19 * incr then 1 else compare2pow63 z p incr)
               in if c < 0 then (rc, pNum) else if c > 0 then (2, clamp) else (if neg then rc else 3, clamp))
       = (if is_i64 v then (rc, v) else if v = 2 ^ 63 then (3, LARGEST_INT64) else (2, clamp))"
proof -
  have dig: "list_all is_digit ds" unfolding ds(1) by (auto simp: list_all_iff dest: set_takeWhileD)
  have small: "pNum = v" if "num_of ds < 2 ^ 63"
  proof -
    have "uint u = int (num_of ds)"
      using that unfolding u by (simp add: unsigned_of_nat take_bit_nat_eq_self uint_word_of_int_eq take_bit_int_eq_self)
    then show ?thesis using that by (simp add: pNum v)
  qed
  consider "length ds < 19" | "length ds = 19" | "19 < length ds" by linarith
  then show ?thesis
  proof cases
    case 1
    then have "(10::nat) ^ length ds \<le> 10 ^ 18" by (intro power_increasing) simp_all
    then have "num_of ds < 2 ^ 63" using num_from_bounds(2) [OF dig] by simp
    then show ?thesis using 1 small incr v by (auto simp: is_i64_def)
  next
    case 2
    have t: "take 19 (view z p e incr) = ds"
      using 2 ds(1) by (metis takeWhile_eq_take)
    show ?thesis
      using compare2pow63_sign [OF incr t 2 dig] 2 small incr v clamp
      by (cases "num_of ds < 2 ^ 63"; cases "num_of ds = 2 ^ 63") (auto simp: is_i64_def Let_def)
  next
    case 3
    then have "(10::nat) ^ 19 \<le> 10 ^ (length ds - 1)" by (intro power_increasing) simp_all
    moreover have "10 ^ (length ds - 1) \<le> num_of ds" using 3 ds(2) by (intro num_of_lower dig) auto
    ultimately have "2 ^ 63 < num_of ds" by simp
    then show ?thesis using 3 incr v clamp by (auto simp: is_i64_def Let_def)
  qed
qed

lemma Atoi64_spec:
  assumes range: "atoi_range z enc = (p0, e, incr, nonNum)" and incr: "0 < incr"
  shows "sqlite3Atoi64 z enc = atoi_spec nonNum (view z p0 e incr)"
proof -
  define p1 where "p1 = skip_while sqlite3Isspace z p0 e incr"
  define cs1 where "cs1 = dropWhile sqlite3Isspace (view z p0 e incr)"
  have v1: "view z p1 e incr = cs1" unfolding p1_def cs1_def using skip_while_view [OF incr] by blast
  define p2 where "p2 = (if p1 < e \<and> (z ! p1 = 0x2d \<or> z ! p1 = 0x2b) then p1 + incr else p1)"
  define cs2 where "cs2 = (if take 1 cs1 \<in> {[0x2d], [0x2b]} then tl cs1 else cs1)"
  have neg: "p1 < e \<and> z ! p1 = c \<longleftrightarrow> take 1 cs1 = [c]" for c using view_head [OF incr] v1 by metis
  have v2: "view z p2 e incr = cs2"
    using v1 neg [of "0x2d"] neg [of "0x2b"] incr
    by (cases "p1 < e") (auto simp: p2_def cs2_def view_Cons)
  define p3 where "p3 = skip_while (\<lambda>c. c = 0x30) z p2 e incr"
  define cs3 where "cs3 = dropWhile (\<lambda>c. c = 0x30) cs2"
  have v3: "view z p3 e incr = cs3" "p3 = p2 + incr * length (takeWhile (\<lambda>c. c = 0x30) cs2)"
    unfolding p3_def cs3_def v2 [symmetric] using skip_while_view [OF incr] by blast+
  define ds where "ds = takeWhile is_digit cs3"
  have dig: "atoi_digits z p3 0 e incr 0 = (incr * length ds, of_nat (num_of ds))"
    using atoi_digits_view [OF incr, of z p3 0 e 0] v3 by (simp add: ds_def num_of_from)
  note strip = strip_zeros [of cs2, folded cs3_def, folded ds_def]
  have rest: "view z (p3 + incr * length ds) e incr = dropWhile is_digit cs2"
    using view_drop [OF incr, of z p3 "length ds" e] v3 strip(3)
    by (simp add: ds_def dropWhile_eq_drop)
  have extra: "skip_while sqlite3Isspace z (p3 + incr * length ds) e incr < e \<longleftrightarrow>
      \<not> list_all sqlite3Isspace (dropWhile is_digit cs2)"
    using skip_while_view [OF incr, of sqlite3Isspace z "p3 + incr * length ds" e] rest
      view_empty_iff [OF incr, of z _ e] by (metis dropWhile_eq_Nil_conv list_all_iff not_le)
  have none: "incr * length ds = 0 \<and> p2 = p3 \<longleftrightarrow> takeWhile is_digit cs2 = []"
    using v3(2) incr strip(1) by auto
  define isneg where "isneg = (take 1 cs1 = [0x2d])"
  define rc where "rc = (if takeWhile is_digit cs2 = [] then - 1
     else if nonNum \<or> \<not> list_all sqlite3Isspace (dropWhile is_digit cs2) then 1 else (0::int))"
  define clamp where "clamp = (if isneg then SMALLEST_INT64 else LARGEST_INT64)"
  define u where "u = (of_nat (num_of ds) :: u64)"
  define pNum where "pNum = (if uint u > LARGEST_INT64 then clamp else if isneg then - uint u else uint u)"
  define v where "v = (if isneg then - int (num_of ds) else int (num_of ds))"
  have sign: "(if p1 < e \<and> z ! p1 = 0x2d then (True, p1 + incr)
       else if p1 < e \<and> z ! p1 = 0x2b then (False, p1 + incr) else (False, p1)) = (isneg, p2)"
    using neg [of "0x2d"] by (auto simp: isneg_def p2_def)
  have "sqlite3Atoi64 z enc =
     (if incr * length ds < 19 * incr then (rc, pNum)
      else let c = (if incr * length ds > 19 * incr then 1 else compare2pow63 z p3 incr)
           in if c < 0 then (rc, pNum) else if c > 0 then (2, clamp) else (if isneg then rc else 3, clamp))"
    unfolding sqlite3Atoi64_def range Let_def prod.case p1_def [symmetric] sign p3_def [symmetric] dig
      none extra clamp_def [symmetric] u_def [symmetric] pNum_def [symmetric]
    by (simp add: rc_def)
  also have "\<dots> = (if is_i64 v then (rc, v) else if v = 2 ^ 63 then (3, LARGEST_INT64) else (2, clamp))"
    by (rule atoi_finish [where e = e, OF incr _ strip(4) v_def u_def clamp_def pNum_def])
      (simp add: ds_def v3(1))
  also have "\<dots> = atoi_spec nonNum (view z p0 e incr)"
    unfolding atoi_spec_def Let_def cs1_def [symmetric] isneg_def [symmetric] cs2_def [symmetric]
      strip(1,2) [symmetric]
    using strip(1,2) by (simp add: rc_def v_def clamp_def)
  finally show ?thesis .
qed

section \<open>Further lemmas\<close>

subsection \<open>Texts as code units\<close>

text \<open>
  The code units of a text: its bytes in UTF-8, its pairs of bytes in UTF-16, where a last odd
  byte does not count.
\<close>
fun pairs :: "bytes \<Rightarrow> (u8 \<times> u8) list" where
  "pairs (a # b # z) = (a, b) # pairs z"
| "pairs _ = []"

definition code_units :: "nat \<Rightarrow> bytes \<Rightarrow> nat list" where
  "code_units enc z =
     (if enc = SQLITE_UTF8 then map unat z
      else if enc = SQLITE_UTF16LE then map (\<lambda>(a, b). unat a + 256 * unat b) (pairs z)
      else map (\<lambda>(a, b). 256 * unat a + unat b) (pairs z))"

definition space_unit :: "nat \<Rightarrow> bool" where
  "space_unit u \<longleftrightarrow> u \<in> {0x09, 0x0a, 0x0b, 0x0c, 0x0d, 0x20}"

definition digit_unit :: "nat \<Rightarrow> bool" where
  "digit_unit u \<longleftrightarrow> 48 \<le> u \<and> u \<le> 57"

definition units_value :: "nat list \<Rightarrow> nat" where
  "units_value ds = foldl (\<lambda>n d. 10 * n + (d - 48)) 0 ds"

text \<open>The return code and the value the interface documents, for a text given by its code units.\<close>
definition atoi_units :: "nat list \<Rightarrow> int \<times> int" where
  "atoi_units us =
     (let us = dropWhile space_unit us;
          neg = (take 1 us = [0x2d]);
          us = (if take 1 us \<in> {[0x2d], [0x2b]} then tl us else us);
          ds = takeWhile digit_unit us;
          v = (if neg then - int (units_value ds) else int (units_value ds));
          rc = (if ds = [] then - 1 else if list_all space_unit (dropWhile digit_unit us) then 0 else 1)
      in if is_i64 v then (rc, v)
         else if v = 2 ^ 63 then (3, LARGEST_INT64)
         else (2, if neg then SMALLEST_INT64 else LARGEST_INT64))"

lemma space_unit_unat: "space_unit (unat c) \<longleftrightarrow> sqlite3Isspace c"
  unfolding Isspace_iff space_unit_def by auto

lemma while_units:
  assumes "\<And>c :: u8. Q (unat c) = P c" "rest = [] \<or> \<not> Q (hd rest)"
  shows "dropWhile Q (map unat cs @ rest) = map unat (dropWhile P cs) @ rest"
    "takeWhile Q (map unat cs @ rest) = map unat (takeWhile P cs)"
    "list_all Q (map unat cs @ rest) \<longleftrightarrow> list_all P cs \<and> rest = []"
  using assms by (induction cs) (cases rest; auto)+

lemma atoi_units_spec:
  assumes rest: "rest = [] \<or> 256 \<le> hd rest"
  shows "atoi_units (map unat cs @ rest) = atoi_spec (rest \<noteq> []) cs"
proof -
  have sp: "rest = [] \<or> \<not> space_unit (hd rest)" and dg: "rest = [] \<or> \<not> digit_unit (hd rest)"
    using rest by (auto simp: space_unit_def digit_unit_def)
  note W = while_units [of space_unit, OF space_unit_unat sp] while_units [of digit_unit is_digit, OF _ dg]
  define cs1 where "cs1 = dropWhile sqlite3Isspace cs"
  have sign: "take 1 (map unat cs1 @ rest) = [unat x] \<longleftrightarrow> take 1 cs1 = [x]" for x :: u8
    using rest by (cases cs1; cases rest) (auto simp: word_unat_eq_iff dest!: leD)
  define cs2 where "cs2 = (if take 1 cs1 \<in> {[0x2d], [0x2b]} then tl cs1 else cs1)"
  have us2: "(if take 1 (map unat cs1 @ rest) \<in> {[0x2d], [0x2b]} then tl (map unat cs1 @ rest) else map unat cs1 @ rest)
      = map unat cs2 @ rest"
    using sign [of "0x2d"] sign [of "0x2b"] by (cases cs1) (auto simp: cs2_def)
  have val: "units_value (map unat ds) = num_of ds" for ds :: bytes
    by (simp add: units_value_def num_of_def foldl_map)
  have dig: "digit_unit (unat c) = is_digit c" for c :: u8 by (simp add: digit_unit_def)
  show ?thesis
    unfolding atoi_units_def atoi_spec_def Let_def W(1) cs1_def [symmetric] us2 cs2_def [symmetric]
    using sign [of "0x2d"] W(4,5) [OF dig] W(3) [of "dropWhile is_digit cs2"] by (simp add: val)
qed

lemma view_2:
  assumes "\<And>j. j < length t \<Longrightarrow> z ! (p + 2 * j) = t ! j" "e \<le> p + 2 * length t" "p + 2 * length t < e + 2 \<or> t = []"
  shows "view z p e 2 = t"
  using assms
proof (induction t arbitrary: p)
  case (Cons c t)
  have "z ! p = c" using Cons.prems(1) [of 0] by simp
  moreover have "view z (p + 2) e 2 = t"
    using Cons.prems(1) [of "Suc _"] Cons.prems(2,3) by (intro Cons.IH) (auto simp: add.assoc)
  moreover have "p < e" using Cons.prems(3) by simp
  ultimately show ?case by (simp add: view_Cons)
qed simp

lemma xor_one: "Suc (2 * n) XOR Suc 0 = 2 * n" "2 * n XOR Suc 0 = Suc (2 * n)"
  by (simp_all add: xor_nat_unfold)

lemma view_1: "view z 0 (length z) 1 = z"
proof -
  have "view z p (length z) 1 = drop p z" for p
    by (induction "length z - p" arbitrary: p) (simp_all add: view.simps [of z] Cons_nth_drop_Suc)
  then show ?thesis by simp
qed

lemma pairs_nth: "length (pairs z) = length z div 2" "i < length z div 2 \<Longrightarrow> pairs z ! i = (z ! (2 * i), z ! (2 * i + 1))"
proof (induction z arbitrary: i rule: pairs.induct)
  case (1 a b z)
  {
    case 1
    then show ?case using "1.IH" by simp
  next
    case 2
    then show ?case using "1.IH"(2) by (cases i) simp_all
  }
qed simp_all

lemma units_split:
  assumes "length H = length L"
  defines "us \<equiv> map2 (\<lambda>h l. 256 * unat (h :: u8) + unat (l :: u8)) H L" and "k \<equiv> length (takeWhile (\<lambda>c. c = 0) H)"
  shows "us = map unat (take k L) @ drop k us" "drop k us = [] \<or> 256 \<le> hd (drop k us)" "drop k us \<noteq> [] \<longleftrightarrow> k < length L"
proof -
  have "us = map unat (take k L) @ drop k us \<and> (drop k us = [] \<or> 256 \<le> hd (drop k us)) \<and> (drop k us \<noteq> [] \<longleftrightarrow> k < length L)"
    unfolding us_def k_def using assms(1)
  proof (induction H L rule: list_induct2)
    case (Cons h H l L)
    have "256 \<le> 256 * unat h" if "h \<noteq> 0" using that by (simp add: unat_gt_0 Suc_leI)
    then show ?case using Cons by (cases "h = 0") auto
  qed simp
  then show "us = map unat (take k L) @ drop k us" "drop k us = [] \<or> 256 \<le> hd (drop k us)" "drop k us \<noteq> [] \<longleftrightarrow> k < length L"
    by blast+
qed

text \<open>The part of a UTF-16 text before the first unit with a high byte.\<close>
lemma utf16_range:
  assumes "enc = SQLITE_UTF16LE \<or> enc = SQLITE_UTF16BE"
  obtains k rest where "atoi_range z enc = (enc mod 2, enc mod 2 + 2 * k, 2, rest \<noteq> [])"
    "code_units enc z = map unat (view z (enc mod 2) (enc mod 2 + 2 * k) 2) @ rest" "rest = [] \<or> 256 \<le> hd rest"
proof -
  define n where "n = length z div 2"
  define H where "H = map (\<lambda>i. z ! (3 - enc + 2 * i)) [0..<n]"
  define L where "L = map (\<lambda>i. z ! (enc mod 2 + 2 * i)) [0..<n]"
  define us where "us = map2 (\<lambda>h l. 256 * unat h + unat l) H L"
  define k where "k = length (takeWhile (\<lambda>c. c = 0) H)"
  have len: "length z - length z mod 2 = 2 * n" by (simp add: n_def minus_mod_eq_mult_div)
  have lens: "length H = n" "length L = n" by (simp_all add: H_def L_def)
  have kn: "k \<le> n" using length_takeWhile_le [of _ H] lens by (simp add: k_def)
  note split = units_split [of H L, folded us_def k_def]
  have encs: "3 - enc \<le> 1" using assms by (auto simp: SQLITE_UTF16LE_def SQLITE_UTF16BE_def)
  have vH: "view z (3 - enc) (2 * n) 2 = H"
    using encs by (intro view_2) (auto simp: H_def)
  then have skip: "skip_while (\<lambda>c. c = 0) z (3 - enc) (2 * n) 2 = 3 - enc + 2 * k"
    using skip_while_view [of 2 "\<lambda>c. c = 0" z "3 - enc" "2 * n"] by (simp add: k_def)
  have xor: "(3 - enc + 2 * k) XOR 1 = enc mod 2 + 2 * k"
    using assms xor_one [of k] by (auto simp: SQLITE_UTF16LE_def SQLITE_UTF16BE_def)
  have vL: "view z (enc mod 2) (enc mod 2 + 2 * k) 2 = take k L"
    using kn by (intro view_2) (auto simp: L_def)
  have "3 - enc + 2 * k < 2 * n \<longleftrightarrow> k < n" using encs by auto
  then have range: "atoi_range z enc = (enc mod 2, enc mod 2 + 2 * k, 2, drop k us \<noteq> [])"
    using assms split(3) lens xor_one by (auto simp: atoi_range_def Let_def len skip xor SQLITE_UTF16LE_def SQLITE_UTF16BE_def)
  have "code_units enc z = us"
    using assms by (intro nth_equalityI)
      (auto simp: code_units_def us_def H_def L_def n_def pairs_nth SQLITE_UTF8_def SQLITE_UTF16LE_def SQLITE_UTF16BE_def split: prod.splits)
  then show ?thesis using that [OF range] split(1,2) vL lens by simp
qed

lemma Atoi64_units:
  assumes "enc \<in> {SQLITE_UTF8, SQLITE_UTF16LE, SQLITE_UTF16BE}"
  shows "sqlite3Atoi64 z enc = atoi_units (code_units enc z)"
proof (cases "enc = SQLITE_UTF8")
  case True
  then have "sqlite3Atoi64 z enc = atoi_spec False z"
    using Atoi64_spec [of z SQLITE_UTF8 0 "length z" 1 False] view_1 [of z]
    by (simp add: atoi_range_def SQLITE_UTF8_def)
  then show ?thesis using True atoi_units_spec [of "[]" z] by (simp add: code_units_def)
next
  case False
  then have "enc = SQLITE_UTF16LE \<or> enc = SQLITE_UTF16BE" using assms by auto
  then obtain k rest where u: "atoi_range z enc = (enc mod 2, enc mod 2 + 2 * k, 2, rest \<noteq> [])"
    "code_units enc z = map unat (view z (enc mod 2) (enc mod 2 + 2 * k) 2) @ rest" "rest = [] \<or> 256 \<le> hd rest"
    by (rule utf16_range [of enc z])
  then show ?thesis using Atoi64_spec [OF u(1)] atoi_units_spec [OF u(3)] by simp
qed

lemma Atoi64_utf8: "sqlite3Atoi64 t SQLITE_UTF8 = atoi_spec False t"
  using Atoi64_units [of SQLITE_UTF8 t] atoi_units_spec [of "[]" t] by (simp add: code_units_def)

text \<open>Decimal text.\<close>

lemma int64ToText_decimal: "int64ToText_loop n acc = nat_decimal n @ acc"
proof (induction n acc rule: int64ToText_loop.induct)
  case (1 x acc)
  show ?case
  proof (cases "x < 10")
    case True
    then show ?thesis by (simp add: int64ToText_loop.simps [of x] nat_decimal.simps [of x] add.commute)
  next
    case False
    then have "x div 10 \<noteq> 0" by simp
    then show ?thesis using 1 False
      by (simp add: int64ToText_loop.simps [of x] nat_decimal.simps [of x] Let_def add.commute)
  qed
qed

lemma Int64ToText_decimal: "is_i64 v \<Longrightarrow> sqlite3Int64ToText v = decimal v"
  by (auto simp: sqlite3Int64ToText_def decimal_def int64ToText_decimal Let_def)

lemma decimal_digits: "list_all is_digit (nat_decimal n)" "nat_decimal n \<noteq> []"
proof -
  show "list_all is_digit (nat_decimal n)"
  proof (induction n rule: nat_decimal.induct)
    case (1 n)
    then show ?case using digit_value [of n] digit_value [of "n mod 10"]
      by (cases "n < 10") (simp_all add: nat_decimal.simps [of n])
  qed
  show "nat_decimal n \<noteq> []" by (subst nat_decimal.simps) simp
qed

lemma decimal_length:
  assumes "is_i64 v"
  shows "length (decimal v) \<le> 20"
proof -
  have "length (nat_decimal n) \<le> 19" if "n \<le> 9223372036854775808" for n
    using that by (intro length_decimal) simp_all
  moreover have "nat v \<le> 9223372036854775808" "nat (- v) \<le> 9223372036854775808"
    using assms unfolding is_i64_def by linarith+
  ultimately have "length (nat_decimal (nat v)) \<le> 19" "length (nat_decimal (nat (- v))) \<le> 19" by blast+
  then show ?thesis by (auto simp: decimal_def)
qed

lemma digit_not_space: "is_digit c \<Longrightarrow> \<not> sqlite3Isspace c \<and> c \<noteq> 0x2d \<and> c \<noteq> 0x2b"
  by (auto simp: Isspace_iff)

lemma all_digits: "list_all is_digit ds \<Longrightarrow> takeWhile is_digit ds = ds \<and> dropWhile is_digit ds = []"
  by (auto simp: list_all_iff takeWhile_eq_all_conv dropWhile_eq_Nil_conv)

lemma atoi_spec_decimal:
  assumes "is_i64 v"
  shows "atoi_spec False (decimal v) = (0, v)"
proof (cases "v < 0")
  case True
  have "\<not> sqlite3Isspace 0x2d" by (simp add: Isspace_iff)
  moreover have t: "takeWhile is_digit (nat_decimal n) = nat_decimal n" "dropWhile is_digit (nat_decimal n) = []" for n
    using all_digits [OF decimal_digits(1)] by blast+
  ultimately show ?thesis
    using True assms decimal_digits(2) by (simp add: atoi_spec_def decimal_def num_of_decimal Let_def t)
next
  case False
  obtain c cs where n: "nat_decimal (nat v) = c # cs" using decimal_digits(2) [of "nat v"] by (auto simp: neq_Nil_conv)
  have "list_all is_digit (c # cs)" using decimal_digits(1) [of "nat v"] n by simp
  then have c: "\<not> sqlite3Isspace c" "c \<noteq> 0x2d" "c \<noteq> 0x2b" "takeWhile is_digit (c # cs) = c # cs"
    "dropWhile is_digit (c # cs) = []"
    using digit_not_space [of c] all_digits [of "c # cs"] by simp_all
  then show ?thesis using False assms n num_of_decimal [of "nat v"]
    by (simp add: atoi_spec_def decimal_def)
qed

text \<open>Hexadecimal digits.\<close>

definition hex_char :: "nat \<Rightarrow> u8" where
  "hex_char d = (if d < 10 then word_of_nat (48 + d) else word_of_nat (87 + d))"

definition hex_of :: "bytes \<Rightarrow> bytes" where
  "hex_of bs = concat (map (\<lambda>b. [hex_char (unat b div 16), hex_char (unat b mod 16)]) bs)"

lemma HexToInt_hex_char:
  assumes "d < 16"
  shows "sqlite3HexToInt (hex_char d) = word_of_nat d"
proof -
  have "d \<in> set [0..<16]" using assms by simp
  then show ?thesis unfolding upto_16 by (auto simp: hex_char_def sqlite3HexToInt_def)
qed

lemma nibbles: "push_bit 4 (word_of_nat (unat b div 16)) OR word_of_nat (unat b mod 16) = (b :: u8)"
proof -
  have "unat b div 16 < 256" by (rule le_less_trans [OF div_le_dividend unat_u8_less])
  moreover have "unat b mod 16 < 256" by (rule le_less_trans [OF mod_less_eq_dividend unat_u8_less])
  ultimately have "word_of_nat (unat b div 16) = drop_bit 4 b" "word_of_nat (unat b mod 16) = take_bit 4 b"
    by (simp_all add: word_unat_eq_iff unsigned_of_nat drop_bit_eq_div take_bit_eq_mod unat_div unat_mod
        take_bit_nat_eq_self)
  then show ?thesis by (simp add: bit_eq_iff bit_simps) auto
qed

lemma at_Cons [simp]: "at (x # z) 0 = x" "at (x # z) (Suc n) = at z n"
  by (simp_all add: at_def)

lemma hex_of_at:
  "j < length bs \<Longrightarrow> at (hex_of bs @ r) (2 * j) = hex_char (unat (bs ! j) div 16) \<and>
     at (hex_of bs @ r) (2 * j + 1) = hex_char (unat (bs ! j) mod 16)"
proof (induction bs arbitrary: j)
  case (Cons b bs)
  show ?case
  proof (cases j)
    case 0
    then show ?thesis by (simp add: hex_of_def)
  next
    case (Suc i)
    have "hex_of (b # bs) = hex_char (unat b div 16) # hex_char (unat b mod 16) # hex_of bs"
      by (simp add: hex_of_def)
    then show ?thesis using Cons Suc by simp
  qed
qed simp

lemma getUInt32_loop_num:
  assumes "list_all sqlite3Isdigit ds" "first rest = 0 \<or> \<not> sqlite3Isdigit (first rest)" "n \<le> 4294967296"
  shows "getUInt32_loop (of_nat n) (ds @ rest) =
     (if num_from n ds \<le> 4294967296 then Some (of_nat (num_from n ds), rest) else None)"
  using assms(1,3)
proof (induction ds arbitrary: n)
  case Nil
  have "\<not> sqlite3Isdigit 0" by (simp add: Isdigit_iff)
  then show ?case using assms(2) Nil by (cases rest) (auto simp: num_from_def)
next
  case (Cons c ds)
  let ?n = "10 * n + (unat c - 48)"
  have dig: "is_digit c" "sqlite3Isdigit c" using Cons.prems(1) by (auto simp: Isdigit_iff)
  have step: "(of_nat n :: u64) * 10 + ucast c - 48 = of_nat ?n" using dig(1) by (rule digit_step)
  have "?n \<le> 10 * 4294967296 + 9" using Cons.prems(2) dig(1) by (intro add_mono) auto
  then have "?n < 2 ^ 64" by (rule le_less_trans) simp
  then have big: "(of_nat ?n :: u64) > 4294967296 \<longleftrightarrow> ?n > 4294967296"
    by (simp add: word_less_nat_alt unsigned_of_nat take_bit_nat_eq_self del: of_nat_add of_nat_mult)
  have mono: "?n \<le> num_from ?n ds"
  proof -
    have "list_all is_digit ds" using Cons.prems(1) by (simp add: list_all_iff Isdigit_iff)
    then show ?thesis by (rule num_from_ge)
  qed
  have eq: "num_from n (c # ds) = num_from ?n ds" by (simp add: num_from_def)
  show ?case
  proof (cases "?n > 4294967296")
    case True
    then show ?thesis using dig(2) big mono by (simp add: Let_def step eq del: of_nat_add of_nat_mult)
  next
    case False
    then show ?thesis using dig(2) big Cons.IH [of ?n] Cons.prems(1)
      by (simp add: Let_def step eq del: of_nat_add of_nat_mult)
  qed
qed

section \<open>Properties\<close>

text \<open>
  C13. \<open>sqlite3Atoi64\<close> reads a decimal integer exactly, whatever the bytes and in each of the
  three encodings: of the code units of the text it passes over space, one sign and any number
  of leading zeros; the code is -1 without a digit, 1 with anything but space after the digits
  (in UTF-16 also a unit beyond the eight-bit range), 0 otherwise when the number fits in 64
  bits, and 2 or (for 9223372036854775808) 3 with the value clamped when it does not.  The
  special treatment of numbers of 19 digits is the comparison with \<open>2 ^ 63\<close>.
\<close>
theorem Atoi64_correct:
  "sqlite3Atoi64 z SQLITE_UTF8 = atoi_units (code_units SQLITE_UTF8 z) \<and>
   sqlite3Atoi64 z SQLITE_UTF16LE = atoi_units (code_units SQLITE_UTF16LE z) \<and>
   sqlite3Atoi64 z SQLITE_UTF16BE = atoi_units (code_units SQLITE_UTF16BE z)"
  using Atoi64_units by simp

text \<open>
  \<open>sqlite3Int64ToText\<close> writes at most 20 bytes, the decimal text of its argument, and
  \<open>sqlite3Atoi64\<close> reads it back with code 0.
\<close>
theorem Int64ToText_roundtrip:
  assumes "is_i64 v"
  shows "length (sqlite3Int64ToText v) \<le> 20 \<and> sqlite3Int64ToText v = decimal v \<and>
         sqlite3Atoi64 (sqlite3Int64ToText v) SQLITE_UTF8 = (0, v)"
  using assms decimal_length Int64ToText_decimal Atoi64_utf8 atoi_spec_decimal by simp

theorem Int64ToText_roundtrip_witness:
  "sqlite3Atoi64 (sqlite3Int64ToText SMALLEST_INT64) SQLITE_UTF8 = (0, SMALLEST_INT64)"
proof -
  have "is_i64 SMALLEST_INT64" by (simp add: is_i64_def)
  then show ?thesis using Int64ToText_roundtrip by blast
qed

text \<open>
  \<open>sqlite3GetUInt32\<close> on a string of digits: it accepts the value up to and including
  4294967296, which it returns as 0; larger values, an empty string and trailing text are
  refused.
\<close>
theorem GetUInt32_range:
  assumes "list_all sqlite3Isdigit ds" "ds \<noteq> []"
  shows "sqlite3GetUInt32 ds =
           (if num_of ds \<le> 4294967296 then (1, word_of_nat (num_of ds)) else (0, 0)) \<and>
         (\<not> sqlite3Isdigit c \<longrightarrow> c \<noteq> 0 \<longrightarrow> sqlite3GetUInt32 (ds @ [c]) = (0, 0))"
proof (intro conjI impI)
  have fit: "unat (word_of_nat n :: u64) = n" if "n \<le> 4294967296" for n
    using that by (simp add: unsigned_of_nat take_bit_nat_eq_self)
  show "sqlite3GetUInt32 ds = (if num_of ds \<le> 4294967296 then (1, word_of_nat (num_of ds)) else (0, 0))"
    using getUInt32_loop_num [OF assms(1), of "[]" 0] assms(2) fit
    by (auto simp: sqlite3GetUInt32_def num_of_from unsigned_ucast_eq word_unat_eq_iff unsigned_of_nat take_bit_nat_eq_self)
  assume "\<not> sqlite3Isdigit c" "c \<noteq> 0"
  then show "sqlite3GetUInt32 (ds @ [c]) = (0, 0)"
    using getUInt32_loop_num [OF assms(1), of "[c]" 0] by (auto simp: sqlite3GetUInt32_def)
qed

text \<open>4294967296 does not fit in 32 bits and yields 0.\<close>
theorem GetUInt32_range_witness:
  "sqlite3GetUInt32 [0x34, 0x32, 0x39, 0x34, 0x39, 0x36, 0x37, 0x32, 0x39, 0x36] = (1, 0)"
  using GetUInt32_range [of "[0x34, 0x32, 0x39, 0x34, 0x39, 0x36, 0x37, 0x32, 0x39, 0x36]"]
  by (simp add: Isdigit_iff num_of_def)

text \<open>
  \<open>sqlite3HexToBlob\<close> undoes hexadecimal encoding: for the digits of any byte string
  followed by the closing quote it returns the bytes, and \<open>None\<close> only without memory.
\<close>
theorem HexToBlob_roundtrip:
  "sqlite3HexToBlob True (hex_of bs @ [0x27]) (2 * length bs + 1) = Some bs"
proof -
  have "map (\<lambda>i. push_bit 4 (sqlite3HexToInt (at (hex_of bs @ [0x27]) (2 * i))) OR
      sqlite3HexToInt (at (hex_of bs @ [0x27]) (2 * i + 1))) [0..<length bs] = map (\<lambda>i. bs ! i) [0..<length bs]"
  proof (rule map_cong [OF refl])
    fix i
    assume "i \<in> set [0..<length bs]"
    moreover have "unat (bs ! i) div 16 < 16" using unat_u8_less [of "bs ! i"] by (simp add: less_mult_imp_div_less)
    ultimately show "push_bit 4 (sqlite3HexToInt (at (hex_of bs @ [0x27]) (2 * i))) OR
      sqlite3HexToInt (at (hex_of bs @ [0x27]) (2 * i + 1)) = bs ! i"
      using hex_of_at [of i bs "[0x27]"] nibbles [of "bs ! i"] by (simp add: HexToInt_hex_char)
  qed
  then show ?thesis by (simp add: sqlite3HexToBlob_def map_nth)
qed

end
