(* ===== verification/Utf.thy ===== *)
theory Utf
  imports IntText Alloc
begin

text \<open>
  Translation between UTF-8 and UTF-16 (\<open>src/db/sqlite3.c\<close>, \<open>utf.c\<close>).  The macros that read and
  write one character work on byte strings; the end of the string is the terminator.  The
  option \<open>SQLITE_REPLACE_INVALID_UTF\<close> is off, as in the repository's build.
\<close>

section \<open>Characters\<close>

definition sqlite3Utf8Trans1 :: bytes where
  "sqlite3Utf8Trans1 =
     [0x00, 0x01, 0x02, 0x03, 0x04, 0x05, 0x06, 0x07,
      0x08, 0x09, 0x0a, 0x0b, 0x0c, 0x0d, 0x0e, 0x0f,
      0x10, 0x11, 0x12, 0x13, 0x14, 0x15, 0x16, 0x17,
      0x18, 0x19, 0x1a, 0x1b, 0x1c, 0x1d, 0x1e, 0x1f,
      0x00, 0x01, 0x02, 0x03, 0x04, 0x05, 0x06, 0x07,
      0x08, 0x09, 0x0a, 0x0b, 0x0c, 0x0d, 0x0e, 0x0f,
      0x00, 0x01, 0x02, 0x03, 0x04, 0x05, 0x06, 0x07,
      0x00, 0x01, 0x02, 0x03, 0x00, 0x01, 0x00, 0x00]"

definition WRITE_UTF8 :: "u32 \<Rightarrow> bytes" where
  "WRITE_UTF8 c =
     (if c < 0x80 then [ucast (c AND 0xFF)]
      else if c < 0x800 then
        [0xC0 + ucast (drop_bit 6 c AND 0x1F), 0x80 + ucast (c AND 0x3F)]
      else if c < 0x10000 then
        [0xE0 + ucast (drop_bit 12 c AND 0x0F), 0x80 + ucast (drop_bit 6 c AND 0x3F), 0x80 + ucast (c AND 0x3F)]
      else
        [0xF0 + ucast (drop_bit 18 c AND 0x07), 0x80 + ucast (drop_bit 12 c AND 0x3F),
         0x80 + ucast (drop_bit 6 c AND 0x3F), 0x80 + ucast (c AND 0x3F)])"

definition WRITE_UTF16LE :: "u32 \<Rightarrow> bytes" where
  "WRITE_UTF16LE c =
     (if c \<le> 0xFFFF then [ucast (c AND 0x00FF), ucast (drop_bit 8 c AND 0x00FF)]
      else
        [ucast ((drop_bit 10 c AND 0x003F) + (drop_bit 10 (c - 0x10000) AND 0x00C0)),
         ucast (0x00D8 + (drop_bit 18 (c - 0x10000) AND 0x03)),
         ucast (c AND 0x00FF),
         ucast (0x00DC + (drop_bit 8 c AND 0x03))])"

definition WRITE_UTF16BE :: "u32 \<Rightarrow> bytes" where
  "WRITE_UTF16BE c =
     (if c \<le> 0xFFFF then [ucast (drop_bit 8 c AND 0x00FF), ucast (c AND 0x00FF)]
      else
        [ucast (0x00D8 + (drop_bit 18 (c - 0x10000) AND 0x03)),
         ucast ((drop_bit 10 c AND 0x003F) + (drop_bit 10 (c - 0x10000) AND 0x00C0)),
         ucast (0x00DC + (drop_bit 8 c AND 0x03)),
         ucast (c AND 0x00FF)])"

text \<open>\<open>while( zIn!=zTerm && (*zIn & 0xc0)==0x80 ) c = (c<<6) + (0x3f & *(zIn++))\<close>\<close>
fun read_tail :: "u32 \<Rightarrow> bytes \<Rightarrow> u32 \<times> bytes" where
  "read_tail c [] = (c, [])"
| "read_tail c (b # z) =
     (if b AND 0xc0 = 0x80 then read_tail (push_bit 6 c + ucast (0x3f AND b)) z else (c, b # z))"

definition utf8_fixup :: "u32 \<Rightarrow> u32" where
  "utf8_fixup c = (if c < 0x80 \<or> c AND 0xFFFFF800 = 0xD800 \<or> c AND 0xFFFFFFFE = 0xFFFE then 0xFFFD else c)"

text \<open>\<open>READ_UTF8\<close> on a string that is not at its end: the character and the rest.\<close>
definition READ_UTF8 :: "bytes \<Rightarrow> u32 \<times> bytes" where
  "READ_UTF8 z =
     (let c = first z in
      if c \<ge> 0xc0 then
        case read_tail (ucast (sqlite3Utf8Trans1 ! unat (c - 0xc0))) (tl z) of (c, z) \<Rightarrow> (utf8_fixup c, z)
      else (ucast c, tl z))"

text \<open>The same on a zero-terminated string: a zero byte is no continuation byte.\<close>
definition sqlite3Utf8Read :: "bytes \<Rightarrow> u32 \<times> bytes" where
  "sqlite3Utf8Read z =
     (let c = first z in
      if c \<ge> 0xc0 then
        case read_tail (ucast (sqlite3Utf8Trans1 ! unat (c - 0xc0))) (tl z) of (c, z) \<Rightarrow> (utf8_fixup c, z)
      else (ucast c, tl z))"

fun limited_tail :: "nat \<Rightarrow> nat \<Rightarrow> u32 \<Rightarrow> bytes \<Rightarrow> u32 \<times> nat" where
  "limited_tail i n c [] = (c, i)"
| "limited_tail i n c (b # z) =
     (if i < n \<and> b AND 0xc0 = 0x80 then limited_tail (i + 1) n (push_bit 6 c + ucast (0x3f AND b)) z else (c, i))"

text \<open>The character and the number of bytes it took, of the first \<open>n\<close> bytes of \<open>z\<close>.\<close>
definition sqlite3Utf8ReadLimited :: "bytes \<Rightarrow> nat \<Rightarrow> u32 \<times> nat" where
  "sqlite3Utf8ReadLimited z n =
     (let c = first z in
      if c \<ge> 0xc0 then limited_tail 1 (if n > 4 then 4 else n) (ucast (sqlite3Utf8Trans1 ! unat (c - 0xc0))) (tl z)
      else (ucast c, 1))"

lemma read_tail_length: "length (snd (read_tail c z)) \<le> length z"
  by (induction c z rule: read_tail.induct) auto

lemma READ_UTF8_shorter: "z \<noteq> [] \<Longrightarrow> length (snd (READ_UTF8 z)) < length z"
  using read_tail_length [of _ "tl z"]
  by (cases z) (auto simp: READ_UTF8_def Let_def split: prod.splits, metis le_imp_less_Suc snd_conv)

section \<open>Strings\<close>

function utf8_to_utf16 :: "(u32 \<Rightarrow> bytes) \<Rightarrow> bytes \<Rightarrow> bytes" where
  "utf8_to_utf16 WRITE z =
     (if z = [] then [] else WRITE (fst (READ_UTF8 z)) @ utf8_to_utf16 WRITE (snd (READ_UTF8 z)))"
  by pat_completeness auto
termination
  by (relation "measure (length \<circ> snd)") (auto intro: READ_UTF8_shorter)

declare utf8_to_utf16.simps [simp del]

text \<open>The second unit of a surrogate pair.\<close>
definition join_surrogates :: "u32 \<Rightarrow> u32 \<Rightarrow> u32" where
  "join_surrogates c c2 =
     (c2 AND 0x03FF) + push_bit 10 (c AND 0x003F) + push_bit 10 ((c AND 0x03C0) + 0x0040)"

definition unit_le :: "u8 \<Rightarrow> u8 \<Rightarrow> u32" where
  "unit_le a b = ucast a + push_bit 8 (ucast b)"

definition unit_be :: "u8 \<Rightarrow> u8 \<Rightarrow> u32" where
  "unit_be a b = push_bit 8 (ucast a) + ucast b"

fun utf16_to_utf8 :: "(u8 \<Rightarrow> u8 \<Rightarrow> u32) \<Rightarrow> bytes \<Rightarrow> bytes" where
  "utf16_to_utf8 unit (a # b # z) =
     (let c = unit a b in
      if c \<ge> 0xd800 \<and> c < 0xe000 then
        case z of
          a2 # b2 # z \<Rightarrow> WRITE_UTF8 (join_surrogates c (unit a2 b2)) @ utf16_to_utf8 unit z
        | _ \<Rightarrow> WRITE_UTF8 c @ utf16_to_utf8 unit z
      else WRITE_UTF8 c @ utf16_to_utf8 unit z)"
| "utf16_to_utf8 unit z = []"

fun swap_pairs :: "bytes \<Rightarrow> bytes" where
  "swap_pairs (a # b # z) = b # a # swap_pairs z"
| "swap_pairs z = z"

text \<open>The fields of \<open>Mem\<close> that the translation uses: the \<open>n\<close> bytes at \<open>z\<close>, the encoding, the flags.\<close>
record mem_text =
  mem_z :: bytes
  mem_enc :: nat
  mem_flags :: u16

definition MEM_Str :: u16 where "MEM_Str = 0x0002"
definition MEM_AffMask :: u16 where "MEM_AffMask = 0x003f"
definition MEM_Term :: u16 where "MEM_Term = 0x0200"
definition MEM_Subtype :: u16 where "MEM_Subtype = 0x0800"

text \<open>\<open>n & ~1\<close> bytes.\<close>
definition even_part :: "bytes \<Rightarrow> bytes" where
  "even_part z = take (length z - length z mod 2) z"

text \<open>
  \<open>sqlite3VdbeMemTranslate\<close>; \<open>rcW\<close> is what \<open>sqlite3VdbeMemMakeWriteable\<close> returns.  The second
  component is the size of the output buffer and the number of bytes written to it, the
  terminator included.
\<close>
definition sqlite3VdbeMemTranslate ::
    "nat \<Rightarrow> mem_text \<Rightarrow> nat \<Rightarrow> allocator \<Rightarrow> nat \<times> (nat \<times> nat) option \<times> mem_text \<times> allocator" where
  "sqlite3VdbeMemTranslate rcW m desiredEnc al =
     (if mem_enc m \<noteq> SQLITE_UTF8 \<and> desiredEnc \<noteq> SQLITE_UTF8 then
        if rcW \<noteq> SQLITE_OK then (SQLITE_NOMEM, None, m, al)
        else (SQLITE_OK, None, m\<lparr>mem_z := swap_pairs (mem_z m), mem_enc := desiredEnc\<rparr>, al)
      else
        let m = (if desiredEnc = SQLITE_UTF8 then m\<lparr>mem_z := even_part (mem_z m)\<rparr> else m);
            len = (if desiredEnc = SQLITE_UTF8 then 2 * length (mem_z m) + 1 else 2 * length (mem_z m) + 2)
        in case alloc_block al of (ok, al) \<Rightarrow>
             if \<not> ok then (SQLITE_NOMEM, None, m, al)
             else
               let zOut = (if mem_enc m = SQLITE_UTF8 then
                     if desiredEnc = SQLITE_UTF16LE then utf8_to_utf16 WRITE_UTF16LE (mem_z m)
                     else utf8_to_utf16 WRITE_UTF16BE (mem_z m)
                   else if mem_enc m = SQLITE_UTF16LE then utf16_to_utf8 unit_le (mem_z m)
                   else utf16_to_utf8 unit_be (mem_z m));
                   term = (if mem_enc m = SQLITE_UTF8 then 2 else 1)
               in (SQLITE_OK, Some (len, length zOut + term),
                   \<lparr>mem_z = zOut, mem_enc = desiredEnc,
                    mem_flags = MEM_Str OR MEM_Term OR (mem_flags m AND (MEM_AffMask OR MEM_Subtype))\<rparr>, al))"

definition sqlite3VdbeMemHandleBom :: "nat \<Rightarrow> mem_text \<Rightarrow> nat \<times> mem_text" where
  "sqlite3VdbeMemHandleBom rcW m =
     (let bom = (if length (mem_z m) > 1 then
            let b1 = mem_z m ! 0; b2 = mem_z m ! 1
            in if b1 = 0xFF \<and> b2 = 0xFE then SQLITE_UTF16LE
               else if b1 = 0xFE \<and> b2 = 0xFF then SQLITE_UTF16BE else 0
          else 0)
      in if bom \<noteq> 0 then
           if rcW = SQLITE_OK then
             (rcW, m\<lparr>mem_z := drop 2 (mem_z m), mem_flags := mem_flags m OR MEM_Term, mem_enc := bom\<rparr>)
           else (rcW, m)
         else (SQLITE_OK, m))"

text \<open>\<open>SQLITE_SKIP_UTF8\<close>\<close>
definition SQLITE_SKIP_UTF8 :: "bytes \<Rightarrow> bytes" where
  "SQLITE_SKIP_UTF8 z =
     (if first z \<ge> 0xc0 then dropWhile (\<lambda>b. b AND 0xc0 = 0x80) (tl z) else tl z)"

text \<open>
  The loop of \<open>sqlite3Utf8CharLen\<close>: \<open>zTerm\<close> is the length of the string that remains when the
  limit is reached.
\<close>
function charLen_loop :: "bytes \<Rightarrow> int \<Rightarrow> nat" where
  "charLen_loop z zTerm =
     (if first z \<noteq> 0 \<and> zTerm < int (length z) then Suc (charLen_loop (SQLITE_SKIP_UTF8 z) zTerm) else 0)"
  by pat_completeness auto
termination
proof (relation "measure (length \<circ> fst)")
  fix z :: bytes and zTerm :: int
  assume "first z \<noteq> 0 \<and> zTerm < int (length z)"
  then have "length (SQLITE_SKIP_UTF8 z) < length z"
    by (cases z) (auto simp: SQLITE_SKIP_UTF8_def le_imp_less_Suc length_dropWhile_le)
  then show "((SQLITE_SKIP_UTF8 z, zTerm), z, zTerm) \<in> measure (length \<circ> fst)" by simp
qed simp

declare charLen_loop.simps [simp del]

definition sqlite3Utf8CharLen :: "bytes \<Rightarrow> int \<Rightarrow> nat" where
  "sqlite3Utf8CharLen zIn nByte =
     charLen_loop zIn (if nByte \<ge> 0 then int (length zIn) - nByte else -1)"

text \<open>
  \<open>sqlite3Utf16ByteLen\<close> on a little-endian machine, from the high byte of the first unit: the
  number of bytes of \<open>nChar\<close> characters.
\<close>
fun utf16ByteLen_loop :: "nat \<Rightarrow> bytes \<Rightarrow> nat \<Rightarrow> nat" where
  "utf16ByteLen_loop 0 z pos = pos"
| "utf16ByteLen_loop (Suc k) z pos =
     (let c = first z; z = drop 2 z in
      if c \<ge> 0xd8 \<and> c < 0xdc \<and> first z \<ge> 0xdc \<and> first z < 0xe0
      then utf16ByteLen_loop k (drop 2 z) (pos + 4)
      else utf16ByteLen_loop k z (pos + 2))"

definition sqlite3Utf16ByteLen :: "bytes \<Rightarrow> nat \<Rightarrow> nat" where
  "sqlite3Utf16ByteLen zIn nChar = utf16ByteLen_loop nChar (tl zIn) 0"

section \<open>Bits as arithmetic\<close>

lemma and_masks:
  "(c :: u32) AND 0x3F = take_bit 6 c" "c AND 0x1F = take_bit 5 c" "c AND 0x0F = take_bit 4 c"
  "c AND 0x07 = take_bit 3 c" "c AND 0xFF = take_bit 8 c" "c AND 0x03 = take_bit 2 c" "c AND 0x03FF = take_bit 10 c"
  "(0x3F :: u8) AND b = take_bit 6 b"
  by (simp_all add: take_bit_eq_mask mask_eq_exp_minus_1 and.commute)

lemma and_high: "(w :: 'a :: len word) AND NOT (mask n) = push_bit n (drop_bit n w)"
  by (rule bit_eqI) (auto simp: bit_simps)

lemma unat_ops:
  "unat (take_bit k (w :: 'a :: len word)) = unat w mod 2 ^ k"
  "unat (drop_bit k w) = unat w div 2 ^ k"
  "unat (push_bit k w) = (unat w * 2 ^ k) mod 2 ^ LENGTH('a)"
  "unat (v + w) = (unat v + unat w) mod 2 ^ LENGTH('a)"
proof -
  show "unat (take_bit k w) = unat w mod 2 ^ k"
    by (simp only: unsigned_take_bit_eq) (simp only: take_bit_eq_mod)
  show "unat (drop_bit k w) = unat w div 2 ^ k"
    by (simp only: unat_drop_bit_eq) (simp only: drop_bit_eq_div)
  show "unat (push_bit k w) = (unat w * 2 ^ k) mod 2 ^ LENGTH('a)"
    by (simp only: unsigned_push_bit_eq) (simp only: push_bit_eq_mult take_bit_eq_mod)
  show "unat (v + w) = (unat v + unat w) mod 2 ^ LENGTH('a)"
    by (rule unat_word_ariths)
qed

lemma unat_high: "unat ((w :: 'a :: len word) AND NOT (mask n)) = unat w div 2 ^ n * 2 ^ n"
proof -
  have "unat w div 2 ^ n * 2 ^ n < 2 ^ LENGTH('a)"
    using unsigned_less [of w, where 'a = nat] by (metis div_times_less_eq_dividend le_less_trans)
  then show ?thesis by (simp add: and_high unat_ops)
qed

lemma unat_ucast: "unat (ucast (w :: 'a :: len word) :: 'b :: len word) = unat w mod 2 ^ LENGTH('b)"
  by (simp add: unsigned_ucast_eq take_bit_eq_mod)

lemma ucast_of_nat_unat: "(ucast (w :: 'a :: len word) :: 'b :: len word) = of_nat (unat w)"
  by simp

lemma div_times_eq_iff: "0 < n \<Longrightarrow> x div n * n = q * n \<longleftrightarrow> q * n \<le> x \<and> x < Suc q * n" for x n q :: nat
proof -
  assume n: "0 < n"
  then have "x div n * n = q * n \<longleftrightarrow> q \<le> x div n \<and> x div n < Suc q" by auto
  then show ?thesis using n by (simp only: less_eq_div_iff_mult_less_eq div_less_iff_less_mult)
qed

lemma surrogate_iff: "(c :: u32) AND 0xFFFFF800 = 0xD800 \<longleftrightarrow> 0xD800 \<le> unat c \<and> unat c < 0xE000"
proof -
  have m: "(0xFFFFF800 :: u32) = NOT (mask 11)" by (simp add: mask_eq_exp_minus_1)
  show ?thesis unfolding m word_unat_eq_iff unat_high using div_times_eq_iff [of 2048 "unat c" 27] by simp
qed

lemma noncharacter_iff: "(c :: u32) AND 0xFFFFFFFE = 0xFFFE \<longleftrightarrow> unat c = 0xFFFE \<or> unat c = 0xFFFF"
proof -
  have m: "(0xFFFFFFFE :: u32) = NOT (mask 1)" by (simp add: mask_eq_exp_minus_1)
  show ?thesis unfolding m word_unat_eq_iff unat_high using div_times_eq_iff [of 2 "unat c" 32767] by auto
qed

lemma continuation_iff: "(b :: u8) AND 0xC0 = 0x80 \<longleftrightarrow> 128 \<le> unat b \<and> unat b < 192"
proof -
  have m: "(0xC0 :: u8) = NOT (mask 6)" by (simp add: mask_eq_exp_minus_1)
  show ?thesis unfolding m word_unat_eq_iff unat_high using div_times_eq_iff [of 64 "unat b" 2] by simp
qed

lemma and_middle:
  "(c :: u32) AND 0xC0 = push_bit 6 (take_bit 2 (drop_bit 6 c))"
  "(c :: u32) AND 0x03C0 = push_bit 6 (take_bit 4 (drop_bit 6 c))"
  by (rule u32_eq_by_bits, simp add: bitblast)+

lemma unat_of_nat_u8: "x < 256 \<Longrightarrow> unat (of_nat x :: u8) = x"
  by (simp add: unsigned_of_nat take_bit_nat_eq_self)

lemma unat_of_nat_u32: "x < 2 ^ 32 \<Longrightarrow> unat (of_nat x :: u32) = x"
  by (simp add: unsigned_of_nat take_bit_nat_eq_self)

lemma u32_less_iff: "(c :: u32) < d \<longleftrightarrow> unat c < unat d" "c \<le> d \<longleftrightarrow> unat c \<le> unat d"
  by (simp_all add: word_less_nat_alt word_le_nat_alt)

section \<open>One character in UTF-8\<close>

definition utf8_codes :: "nat \<Rightarrow> nat list" where
  "utf8_codes x =
     (if x < 0x80 then [x]
      else if x < 0x800 then [192 + x div 64 mod 32, 128 + x mod 64]
      else if x < 0x10000 then [224 + x div 4096 mod 16, 128 + x div 64 mod 64, 128 + x mod 64]
      else [240 + x div 262144 mod 8, 128 + x div 4096 mod 64, 128 + x div 64 mod 64, 128 + x mod 64])"

lemma WRITE_UTF8_codes: "WRITE_UTF8 c = map of_nat (utf8_codes (unat c))"
proof -
  have byte: "ucast (drop_bit k c AND mask m) = (of_nat (unat c div 2 ^ k mod 2 ^ m) :: u8)"
      "ucast (c AND mask m) = (of_nat (unat c mod 2 ^ m) :: u8)" for k m
    by (simp_all only: ucast_of_nat_unat take_bit_eq_mask [symmetric] unat_ops)
  have "c < 0x80 \<Longrightarrow> unat c mod 256 = unat c" by (simp add: u32_less_iff)
  then show ?thesis
    using byte(1) [of 6 5] byte(1) [of 6 6] byte(1) [of 12 4] byte(1) [of 12 6] byte(1) [of 18 3] byte(2) [of 6] byte(2) [of 8]
    by (simp add: WRITE_UTF8_def utf8_codes_def u32_less_iff mask_eq_exp_minus_1)
qed

lemma read_cont:
  assumes "y < 64"
  shows "read_tail (of_nat v) (of_nat (128 + y) # z) = read_tail (of_nat (v * 64 + y)) z"
proof -
  have u: "unat (of_nat (128 + y) :: u8) = 128 + y" using assms by (intro unat_of_nat_u8) simp
  have "unat (0x3f AND (of_nat (128 + y) :: u8)) = y"
    unfolding and_masks(8) unat_ops u using assms mod_mult_self1 [of y 2 64] by (simp add: add.commute)
  then have "ucast (0x3f AND (of_nat (128 + y) :: u8)) = (of_nat y :: u32)"
    by (simp only: ucast_of_nat_unat)
  moreover have "push_bit 6 (of_nat v :: u32) = of_nat (v * 64)"
    by (simp add: push_bit_eq_mult)
  ultimately show ?thesis using assms u by (simp add: continuation_iff del: of_nat_add of_nat_mult) (simp add: mult.commute)
qed

lemma read_stop: "z = [] \<or> \<not> (128 \<le> unat (first z) \<and> unat (first z) < 192) \<Longrightarrow> read_tail c z = (c, z)"
  by (cases z) (auto simp: continuation_iff)

lemma trans1_lead:
  "a < 32 \<Longrightarrow> sqlite3Utf8Trans1 ! a = of_nat a"
  "a < 16 \<Longrightarrow> sqlite3Utf8Trans1 ! (32 + a) = of_nat a"
  "a < 8 \<Longrightarrow> sqlite3Utf8Trans1 ! (48 + a) = of_nat a"
proof -
  have eq: "sqlite3Utf8Trans1 = map of_nat ([0..<32] @ [0..<16] @ [0..<8] @ [0, 1, 2, 3, 0, 1, 0, 0])"
    by (simp add: sqlite3Utf8Trans1_def upt_rec)
  show "a < 32 \<Longrightarrow> sqlite3Utf8Trans1 ! a = of_nat a" "a < 16 \<Longrightarrow> sqlite3Utf8Trans1 ! (32 + a) = of_nat a"
    "a < 8 \<Longrightarrow> sqlite3Utf8Trans1 ! (48 + a) = of_nat a"
    unfolding eq by (simp_all add: nth_append)
qed

lemma read_lead:
  assumes "192 \<le> x" "x < 248" "a = (if x < 224 then x - 192 else if x < 240 then x - 224 else x - 240)"
  shows "READ_UTF8 (of_nat x # z) = (case read_tail (of_nat a) z of (c, z) \<Rightarrow> (utf8_fixup c, z))"
proof -
  have u: "unat (of_nat x :: u8) = x" using assms(2) by (intro unat_of_nat_u8) simp
  have ge: "(0xc0 :: u8) \<le> of_nat x" using assms(1) u by (simp add: word_le_nat_alt)
  have "unat ((of_nat x :: u8) - 0xc0) = x - 192"
    using u ge by (simp add: unat_sub)
  moreover have "sqlite3Utf8Trans1 ! (x - 192) = of_nat a" "a < 32"
    using trans1_lead(1) [of a] trans1_lead(2,3) [of a] assms by (auto split: if_splits)
  moreover have "ucast (of_nat a :: u8) = (of_nat a :: u32)"
    using unat_of_nat_u8 [of a] \<open>a < 32\<close> by (simp only: ucast_of_nat_unat)
  ultimately show ?thesis using ge by (simp add: READ_UTF8_def Let_def)
qed

definition valid_char :: "u32 \<Rightarrow> bool" where
  "valid_char c \<longleftrightarrow> unat c < 0x110000 \<and> \<not> (0xD800 \<le> unat c \<and> unat c < 0xE000) \<and>
     unat c \<noteq> 0xFFFE \<and> unat c \<noteq> 0xFFFF"

lemma fixup_valid: "valid_char c \<Longrightarrow> 0x80 \<le> unat c \<Longrightarrow> utf8_fixup c = c"
  by (auto simp: utf8_fixup_def surrogate_iff noncharacter_iff valid_char_def u32_less_iff)

lemma unat_of_nat_self: "of_nat (unat c) = (c :: u32)"
  by simp

lemma split64: "x div (m * 64) * 64 + x div m mod 64 = x div m" for x m :: nat
  by (simp only: div_mult2_eq div_mult_mod_eq)

lemma READ_WRITE_UTF8:
  assumes "valid_char c" "z = [] \<or> \<not> (128 \<le> unat (first z) \<and> unat (first z) < 192)"
  shows "READ_UTF8 (WRITE_UTF8 c @ z) = (c, z)"
proof -
  define x where "x = unat c"
  have c: "of_nat x = c" and x: "x < 0x110000" using assms(1) by (simp_all add: x_def valid_char_def)
  have stop: "read_tail d z = (d, z)" for d by (rule read_stop [OF assms(2)])
  consider "x < 0x80" | "0x80 \<le> x" "x < 0x800" | "0x800 \<le> x" "x < 0x10000" | "0x10000 \<le> x" by linarith
  then show ?thesis
  proof cases
    case 1
    have u: "unat (of_nat x :: u8) = x" using 1 by (intro unat_of_nat_u8) simp
    then have "\<not> (0xc0 :: u8) \<le> of_nat x" using 1 by (simp add: word_le_nat_alt)
    moreover have "ucast (of_nat x :: u8) = c" by (simp only: ucast_of_nat_unat u c)
    ultimately show ?thesis using 1 by (simp add: WRITE_UTF8_codes utf8_codes_def x_def [symmetric] READ_UTF8_def)
  next
    case 2
    have "x div 64 mod 32 = x div 64" using 2 by simp
    moreover have "(x div 64) * 64 + x mod 64 = x" by simp
    ultimately show ?thesis
      using 2 c fixup_valid [OF assms(1)] read_lead [of "192 + x div 64" "x div 64"] read_cont [of "x mod 64" "x div 64" z] stop
      by (simp add: WRITE_UTF8_codes utf8_codes_def x_def [symmetric] del: of_nat_add of_nat_mult)
  next
    case 3
    have "x div 4096 mod 16 = x div 4096" using 3 by simp
    moreover have "(x div 4096 * 64 + x div 64 mod 64) * 64 + x mod 64 = x" using split64 [of x 64] by simp
    ultimately show ?thesis
      using 3 c fixup_valid [OF assms(1)] read_lead [of "224 + x div 4096" "x div 4096"]
        read_cont [of "x div 64 mod 64" "x div 4096"] read_cont [of "x mod 64" "x div 4096 * 64 + x div 64 mod 64"] stop
      by (simp add: WRITE_UTF8_codes utf8_codes_def x_def [symmetric] del: of_nat_add of_nat_mult)
  next
    case 4
    have "x div 262144 mod 8 = x div 262144" using x by simp
    moreover have "((x div 262144 * 64 + x div 4096 mod 64) * 64 + x div 64 mod 64) * 64 + x mod 64 = x"
      using split64 [of x 64] split64 [of x 4096] by simp
    ultimately show ?thesis
      using 4 x c fixup_valid [OF assms(1)] read_lead [of "240 + x div 262144" "x div 262144"]
        read_cont [of "x div 4096 mod 64" "x div 262144"]
        read_cont [of "x div 64 mod 64" "x div 262144 * 64 + x div 4096 mod 64"]
        read_cont [of "x mod 64" "(x div 262144 * 64 + x div 4096 mod 64) * 64 + x div 64 mod 64"] stop
      by (simp add: WRITE_UTF8_codes utf8_codes_def x_def [symmetric] del: of_nat_add of_nat_mult)
  qed
qed

lemma WRITE_UTF8_first: "\<not> (128 \<le> unat (first (WRITE_UTF8 c @ z)) \<and> unat (first (WRITE_UTF8 c @ z)) < 192)"
proof -
  define x where "x = unat c"
  have "unat (of_nat y :: u8) = y" if "y < 256" for y using that by (rule unat_of_nat_u8)
  then show ?thesis unfolding WRITE_UTF8_codes x_def [symmetric] by (simp add: utf8_codes_def del: of_nat_add)
qed

lemma WRITE_UTF8_nonempty [simp]: "WRITE_UTF8 c \<noteq> []"
  by (simp add: WRITE_UTF8_def)

text \<open>A UTF-8 text of valid characters is read character by character.\<close>

lemma utf8_to_utf16_text:
  "\<forall>c\<in>set cs. valid_char c \<Longrightarrow> utf8_to_utf16 W (concat (map WRITE_UTF8 cs)) = concat (map W cs)"
proof (induction cs)
  case Nil
  then show ?case by (simp add: utf8_to_utf16.simps)
next
  case (Cons c cs)
  have "READ_UTF8 (WRITE_UTF8 c @ concat (map WRITE_UTF8 cs)) = (c, concat (map WRITE_UTF8 cs))"
    by (rule READ_WRITE_UTF8) (use Cons.prems WRITE_UTF8_first in \<open>cases cs; simp\<close>)+
  then show ?case using Cons by (simp add: utf8_to_utf16.simps [of W "WRITE_UTF8 c @ _"])
qed

section \<open>One character in UTF-16\<close>

text \<open>The two units of a character outside the basic plane.\<close>

definition high_unit :: "nat \<Rightarrow> nat" where "high_unit x = 0xD800 + (x - 0x10000) div 1024"
definition low_unit :: "nat \<Rightarrow> nat" where "low_unit x = 0xDC00 + x mod 1024"

lemma unit_bytes:
  assumes "unit = unit_le \<and> ab = (of_nat (x mod 256), of_nat (x div 256)) \<or>
           unit = unit_be \<and> ab = (of_nat (x div 256), of_nat (x mod 256))" "x < 0x10000"
  shows "unit (fst ab) (snd ab) = of_nat x"
proof -
  have b: "ucast (of_nat y :: u8) = (of_nat y :: u32)" if "y < 256" for y
    using unat_of_nat_u8 [OF that] by (simp only: ucast_of_nat_unat)
  have "x mod 256 < 256" "x div 256 < 256" using assms(2) by simp_all
  note bs = this [THEN b]
  have "of_nat (x mod 256) + push_bit 8 (of_nat (x div 256)) = (of_nat (x mod 256 + x div 256 * 256) :: u32)"
    by (simp only: push_bit_eq_mult of_nat_add of_nat_mult of_nat_numeral) simp
  then have "of_nat (x mod 256) + push_bit 8 (of_nat (x div 256)) = (of_nat x :: u32)"
    by (simp only: mod_div_mult_eq)
  then show ?thesis using assms(1) bs by (auto simp: unit_le_def unit_be_def add.commute)
qed

lemma ucast_unat: "unat (w :: u32) = y \<Longrightarrow> ucast w = (of_nat y :: u8)"
  by (simp only: ucast_of_nat_unat)

text \<open>The four byte expressions of the macros, for \<open>x\<close> the code of the character.\<close>

lemma plane_bytes:
  fixes c :: u32
  assumes "x = unat c"
  shows "ucast (c AND 0x00FF) = (of_nat (x mod 256) :: u8)"
    "x \<le> 0xFFFF \<Longrightarrow> ucast (drop_bit 8 c AND 0x00FF) = (of_nat (x div 256) :: u8)"
proof -
  show "ucast (c AND 0x00FF) = (of_nat (x mod 256) :: u8)"
    by (rule ucast_unat) (simp add: and_masks unat_ops assms)
  show "x \<le> 0xFFFF \<Longrightarrow> ucast (drop_bit 8 c AND 0x00FF) = (of_nat (x div 256) :: u8)"
    by (rule ucast_unat) (simp add: and_masks unat_ops assms)
qed

lemma surrogate_bytes:
  fixes c :: u32
  assumes "x = unat c" "0x10000 \<le> x" "x < 0x110000"
  shows "ucast ((drop_bit 10 c AND 0x003F) + (drop_bit 10 (c - 0x10000) AND 0x00C0)) = (of_nat (high_unit x mod 256) :: u8)"
    "ucast (0x00D8 + (drop_bit 18 (c - 0x10000) AND 0x03)) = (of_nat (high_unit x div 256) :: u8)"
    "ucast (c AND 0x00FF) = (of_nat (low_unit x mod 256) :: u8)"
    "ucast (0x00DC + (drop_bit 8 c AND 0x03)) = (of_nat (low_unit x div 256) :: u8)"
proof -
  define e where "e = (x - 0x10000) div 1024"
  have "(0x10000 :: u32) \<le> c" using assms by (simp add: word_le_nat_alt)
  then have d: "unat (c - 0x10000) = x - 0x10000" using assms(1) by (simp add: unat_sub)
  have e: "e < 1024" "x div 1024 = 64 + e" "(x - 0x10000) div 2 ^ 18 = e div 256" "high_unit x = 0xD800 + e"
    using assms(2,3) div_mult2_eq [of "x - 0x10000" 1024 256] by (simp_all add: e_def high_unit_def)
  have "e mod (64 * 4) = 64 * (e div 64 mod 4) + e mod 64" by (rule mod_mult2_eq)
  then have e': "e mod 64 + e div 64 mod 4 * 64 = e mod 256" by simp
  have e256: "(0xD800 + e) mod 256 = e mod 256" using mod_mult_self4 [of 256 216 e] by simp
  have small: "e mod 256 < 2 ^ 32" by (rule less_trans [OF mod_less_divisor]) simp_all
  have "e div 64 mod 4 < 4" by simp
  then have "e div 64 mod 4 * 64 < 2 ^ LENGTH(32)" by simp
  then have t2: "unat (drop_bit 10 (c - 0x10000) AND 0x00C0) = e div 64 mod 4 * 64"
    unfolding and_middle unat_ops d by (simp add: e_def)
  have t1: "unat (drop_bit 10 c AND 0x003F) = e mod 64"
    unfolding and_masks unat_ops assms(1) [symmetric] using e(2) by simp
  have "unat ((drop_bit 10 c AND 0x003F) + (drop_bit 10 (c - 0x10000) AND 0x00C0)) = high_unit x mod 256"
    unfolding unat_ops(4) t1 t2 e' e(4) e256 using small by simp
  then show "ucast ((drop_bit 10 c AND 0x003F) + (drop_bit 10 (c - 0x10000) AND 0x00C0)) = (of_nat (high_unit x mod 256) :: u8)"
    by (rule ucast_unat)
  have "unat (0x00D8 + (drop_bit 18 (c - 0x10000) AND 0x03)) = high_unit x div 256"
    using e d unfolding and_masks by (simp add: unat_ops)
  then show "ucast (0x00D8 + (drop_bit 18 (c - 0x10000) AND 0x03)) = (of_nat (high_unit x div 256) :: u8)"
    by (rule ucast_unat)
  have low: "x mod (256 * 4) = 256 * (x div 256 mod 4) + x mod 256" by (rule mod_mult2_eq)
  have "(0xDC00 + x mod 1024) mod 256 = x mod 1024 mod 256" using mod_mult_self4 [of 256 220 "x mod 1024"] by simp
  also have "\<dots> = x mod 256" using low by simp
  finally have "unat (c AND 0x00FF) = low_unit x mod 256"
    unfolding low_unit_def using assms(1) by (simp add: and_masks unat_ops)
  then show "ucast (c AND 0x00FF) = (of_nat (low_unit x mod 256) :: u8)" by (rule ucast_unat)
  have "(0xDC00 + x mod 1024) div 256 = 220 + x mod 1024 div 256"
    using div_mult_self4 [of 256 220 "x mod 1024"] by simp
  also have "x mod 1024 div 256 = x div 256 mod 4" using low by simp
  finally have "unat (0x00DC + (drop_bit 8 c AND 0x03)) = low_unit x div 256"
    unfolding low_unit_def using assms(1) by (simp add: and_masks unat_ops)
  then show "ucast (0x00DC + (drop_bit 8 c AND 0x03)) = (of_nat (low_unit x div 256) :: u8)" by (rule ucast_unat)
qed

text \<open>Reading the units back.\<close>

lemma join_units:
  assumes "0x10000 \<le> x" "x < 0x110000"
  shows "join_surrogates (of_nat (high_unit x)) (of_nat (low_unit x)) = of_nat x"
proof -
  define e where "e = (x - 0x10000) div 1024"
  have e: "e < 1024" using assms by (simp add: e_def)
  obtain y where y: "x = y + 1024 * 64" using assms(1) by (metis add.commute le_Suc_ex mult_numeral_1 numeral_times_numeral semiring_norm)
  have "(y + 1024 * 64) mod 1024 = y mod 1024" by (rule mod_mult_self2)
  then have xe: "x = 0x10000 + e * 1024 + x mod 1024" unfolding e_def y by simp
  have h: "unat (of_nat (high_unit x) :: u32) = 0xD800 + e"
    by (subst unat_of_nat_u32) (use e in \<open>simp_all add: high_unit_def e_def\<close>)
  have l: "unat (of_nat (low_unit x) :: u32) = 0xDC00 + x mod 1024"
    by (subst unat_of_nat_u32) (simp_all add: low_unit_def)
  have e': "e mod 64 + e div 64 * 64 = e" by simp
  have r: "(0xDC00 + x mod 1024) mod 1024 = x mod 1024" "(0xD800 + e) mod 64 = e mod 64"
      "(0xD800 + e) div 64 mod 16 = e div 64"
    using mod_mult_self2 [of "x mod 1024" 1024 55] mod_mult_self2 [of e 64 864] div_mult_self2 [of 64 e 864]
      mod_mult_self2 [of "e div 64" 16 54] e
    by (simp_all add: add.commute)
  have "e div 64 < 16" "e mod 64 < 64" "x mod 1024 < 1024" using e by simp_all
  then have small: "x mod 1024 + e mod 64 * 1024 < 4294967296"
      "x mod 1024 + e mod 64 * 1024 + (65536 * (e div 64) + 65536) < 4294967296" by linarith+
  have "unat (join_surrogates (of_nat (high_unit x)) (of_nat (low_unit x))) =
      x mod 1024 + e mod 64 * 1024 + (e div 64 * 64 + 64) * 1024"
    unfolding join_surrogates_def and_masks and_middle unat_ops h l
    using e assms(2) r small by simp
  also have "\<dots> = x mod 1024 + (e mod 64 + e div 64 * 64 + 64) * 1024" by (simp only: add_mult_distrib)
  also have "\<dots> = x" using xe e' by simp
  finally have "unat (join_surrogates (of_nat (high_unit x)) (of_nat (low_unit x))) = x" .
  then show ?thesis by (metis unat_of_nat_self)
qed

lemma utf16_to_utf8_char:
  assumes "valid_char c" "W = WRITE_UTF16LE \<and> unit = unit_le \<or> W = WRITE_UTF16BE \<and> unit = unit_be"
  shows "utf16_to_utf8 unit (W c @ z) = WRITE_UTF8 c @ utf16_to_utf8 unit z"
proof -
  define x where "x = unat c"
  have x: "x < 0x110000" and c: "c = of_nat x" using assms(1) by (simp_all add: x_def valid_char_def)
  have u: "\<exists>a b. bs = [a, b] \<and> unit a b = of_nat y" if "y < 0x10000"
    "bs = (if unit = unit_le then [of_nat (y mod 256), of_nat (y div 256)] else [of_nat (y div 256), of_nat (y mod 256)])" for y bs
    using that assms(2) unit_bytes [of unit "(bs ! 0, bs ! 1)" y] by (auto split: if_splits)
  have ne: "unit_le \<noteq> unit_be"
  proof
    assume "unit_le = unit_be"
    then have "unit_le 1 0 = unit_be 1 0" by simp
    then show False by (simp add: unit_le_def unit_be_def)
  qed
  show ?thesis
  proof (cases "x \<le> 0xFFFF")
    case True
    have "c \<le> 0xFFFF" using True by (simp add: u32_less_iff x_def)
    then have "W c = (if unit = unit_le then [of_nat (x mod 256), of_nat (x div 256)] else [of_nat (x div 256), of_nat (x mod 256)])"
      using assms(2) ne plane_bytes [OF x_def] True by (auto simp: WRITE_UTF16LE_def WRITE_UTF16BE_def)
    then obtain a b where ab: "W c = [a, b]" "unit a b = c" using u [of x "W c"] True c by auto
    have "\<not> (0xd800 \<le> c \<and> c < 0xe000)" using assms(1) by (simp add: u32_less_iff valid_char_def)
    then show ?thesis using ab by (auto simp: Let_def)
  next
    case False
    then have big: "0x10000 \<le> x" by simp
    have hl: "high_unit x < 0x10000" "low_unit x < 0x10000" "0xD800 \<le> high_unit x" "high_unit x < 0xDC00"
      using big x by (simp_all add: high_unit_def low_unit_def)
    have "\<not> c \<le> 0xFFFF" using False by (simp add: u32_less_iff x_def)
    then have W: "W c = (if unit = unit_le then [of_nat (high_unit x mod 256), of_nat (high_unit x div 256)]
           else [of_nat (high_unit x div 256), of_nat (high_unit x mod 256)]) @
        (if unit = unit_le then [of_nat (low_unit x mod 256), of_nat (low_unit x div 256)]
           else [of_nat (low_unit x div 256), of_nat (low_unit x mod 256)])"
      using assms(2) ne surrogate_bytes [OF x_def big x] by (auto simp: WRITE_UTF16LE_def WRITE_UTF16BE_def)
    obtain a b a2 b2 where ab: "W c = [a, b, a2, b2]" "unit a b = of_nat (high_unit x)" "unit a2 b2 = of_nat (low_unit x)"
      using u [OF hl(1) refl] u [OF hl(2) refl] unfolding W by auto
    have "unat (of_nat (high_unit x) :: u32) = high_unit x" using hl(1) by (intro unat_of_nat_u32) simp
    then have "0xd800 \<le> (of_nat (high_unit x) :: u32)" "(of_nat (high_unit x) :: u32) < 0xe000"
      using hl by (simp_all add: u32_less_iff)
    then show ?thesis using ab join_units [OF big x] c by (simp add: Let_def)
  qed
qed

lemma utf16_to_utf8_text:
  assumes "\<forall>c\<in>set cs. valid_char c" "W = WRITE_UTF16LE \<and> unit = unit_le \<or> W = WRITE_UTF16BE \<and> unit = unit_be"
  shows "utf16_to_utf8 unit (concat (map W cs)) = concat (map WRITE_UTF8 cs)"
  using assms(1) utf16_to_utf8_char [OF _ assms(2)] by (induction cs) auto

section \<open>Size of the output\<close>

lemma fixup_big: "0xFFFF < unat (utf8_fixup c) \<Longrightarrow> 0xFFFF < unat c"
  by (auto simp: utf8_fixup_def split: if_splits)

lemma read_tail_big:
  assumes "read_tail c z = (d, z')" "unat c < 32" "0xFFFF < unat d"
  shows "length z' + 2 \<le> length z"
proof (cases z)
  case (Cons b y)
  let ?c = "push_bit 6 c + ucast (0x3f AND b) :: u32"
  have cont: "b AND 0xc0 = 0x80" using assms Cons by (cases "b AND 0xc0 = 0x80") auto
  have "unat b mod 64 < 64" by simp
  then have "unat ?c < 2112" using assms(2) unfolding and_masks(8) unat_ops unat_ucast
    by (simp add: less_imp_le_nat)
  then have "y \<noteq> []" "first y AND 0xc0 = 0x80"
    using assms(1,3) Cons cont by (cases y; auto split: if_splits)+
  then show ?thesis using assms(1) Cons cont read_tail_length [of _ "tl y"]
    by (cases y) (auto, metis snd_conv)
qed (use assms in simp)

lemma trans1_small: "a < 64 \<Longrightarrow> unat (sqlite3Utf8Trans1 ! a) < 32"
proof -
  have "\<forall>b\<in>set sqlite3Utf8Trans1. unat b < 32" by (simp add: sqlite3Utf8Trans1_def)
  moreover have "length sqlite3Utf8Trans1 = 64" by (simp add: sqlite3Utf8Trans1_def)
  ultimately show "a < 64 \<Longrightarrow> unat (sqlite3Utf8Trans1 ! a) < 32" using nth_mem by metis
qed

lemma READ_UTF8_big:
  assumes "z \<noteq> []" "0xFFFF < unat (fst (READ_UTF8 z))"
  shows "length (snd (READ_UTF8 z)) + 3 \<le> length z"
proof -
  obtain b y where z: "z = b # y" using assms(1) by (cases z) auto
  have lead: "0xc0 \<le> b"
  proof (rule ccontr)
    assume "\<not> 0xc0 \<le> b"
    then have "unat (fst (READ_UTF8 z)) = unat b mod 2 ^ 32" using z by (simp add: READ_UTF8_def unat_ucast del: ucast_of_nat_unat)
    then show False using unat_u8_less [of b] assms(2) mod_less_eq_dividend [of "unat b" "2 ^ 32"] by linarith
  qed
  obtain d z' where r: "read_tail (ucast (sqlite3Utf8Trans1 ! unat (b - 0xc0))) y = (d, z')" by fastforce
  have "192 \<le> unat b" "unat (b - 0xc0) = unat b - 192" using lead by (simp_all add: unat_sub word_le_nat_alt)
  then have "unat (b - 0xc0) < 64" using unat_u8_less [of b] by linarith
  then have "unat (ucast (sqlite3Utf8Trans1 ! unat (b - 0xc0)) :: u32) < 32"
    unfolding unat_ucast by (intro le_less_trans [OF mod_less_eq_dividend] trans1_small)
  then show ?thesis using read_tail_big [OF r] assms(2) fixup_big [of d] z lead r by (simp add: READ_UTF8_def Let_def)
qed

lemma utf8_to_utf16_length:
  assumes W: "\<And>c. length (W c) = (if unat c \<le> 0xFFFF then 2 else 4)"
  shows "length (utf8_to_utf16 W z) \<le> 2 * length z"
proof (induction z rule: length_induct)
  case (1 z)
  show ?case
  proof (cases "z = []")
    case False
    let ?c = "fst (READ_UTF8 z)" and ?z = "snd (READ_UTF8 z)"
    have "length (utf8_to_utf16 W ?z) \<le> 2 * length ?z" using 1 READ_UTF8_shorter [OF False] by blast
    moreover have "length (W ?c) + 2 * length ?z \<le> 2 * length z"
      using W [of ?c] READ_UTF8_big [OF False] READ_UTF8_shorter [OF False] by auto
    ultimately show ?thesis using False by (simp add: utf8_to_utf16.simps [of W z])
  qed (simp add: utf8_to_utf16.simps)
qed

lemma WRITE_UTF8_length: "length (WRITE_UTF8 c) \<le> 4"
  by (simp add: WRITE_UTF8_def)

lemma utf16_to_utf8_length: "length (utf16_to_utf8 unit z) \<le> 2 * length z"
proof (induction unit z rule: utf16_to_utf8.induct)
  case (1 unit a b z)
  show ?case
  proof (cases "unit a b \<ge> 0xd800 \<and> unit a b < 0xe000 \<and> length z \<ge> 2")
    case True
    then obtain a2 b2 y where z: "z = a2 # b2 # y" by (cases z; cases "tl z") auto
    then have "length (utf16_to_utf8 unit y) \<le> 2 * length y" using 1 True by simp
    then show ?thesis using True z WRITE_UTF8_length [of "join_surrogates (unit a b) (unit a2 b2)"]
      by (simp add: Let_def)
  next
    case False
    have "utf16_to_utf8 unit (a # b # z) = WRITE_UTF8 (unit a b) @ utf16_to_utf8 unit z"
      using False by (cases z; cases "tl z") (auto simp: Let_def)
    moreover have "length (utf16_to_utf8 unit z) \<le> 2 * length z"
      using 1 False by (cases z; cases "tl z") auto
    ultimately show ?thesis using WRITE_UTF8_length [of "unit a b"] by simp
  qed
qed simp_all

section \<open>Properties\<close>

text \<open>The text of the characters \<open>cs\<close> in an encoding.\<close>
definition encoded :: "nat \<Rightarrow> u32 list \<Rightarrow> bytes" where
  "encoded enc cs = concat (map (if enc = SQLITE_UTF8 then WRITE_UTF8
     else if enc = SQLITE_UTF16LE then WRITE_UTF16LE else WRITE_UTF16BE) cs)"

lemmas enc_defs = SQLITE_UTF8_def SQLITE_UTF16LE_def SQLITE_UTF16BE_def

lemma swap_append: "even (length x) \<Longrightarrow> swap_pairs (x @ y) = swap_pairs x @ swap_pairs y"
  by (induction x rule: swap_pairs.induct) auto

lemma swap_text:
  "swap_pairs (concat (map WRITE_UTF16LE cs)) = concat (map WRITE_UTF16BE cs)"
  "swap_pairs (concat (map WRITE_UTF16BE cs)) = concat (map WRITE_UTF16LE cs)"
proof -
  have even: "even (length (WRITE_UTF16LE c))" "even (length (WRITE_UTF16BE c))" for c
    by (simp_all add: WRITE_UTF16LE_def WRITE_UTF16BE_def)
  have swap: "swap_pairs (WRITE_UTF16LE c) = WRITE_UTF16BE c" "swap_pairs (WRITE_UTF16BE c) = WRITE_UTF16LE c" for c
    by (simp_all add: WRITE_UTF16LE_def WRITE_UTF16BE_def)
  show "swap_pairs (concat (map WRITE_UTF16LE cs)) = concat (map WRITE_UTF16BE cs)"
    "swap_pairs (concat (map WRITE_UTF16BE cs)) = concat (map WRITE_UTF16LE cs)"
    by (induction cs) (simp_all add: swap_append even swap)
qed

lemma even_text: "enc \<noteq> SQLITE_UTF8 \<Longrightarrow> even_part (encoded enc cs) = encoded enc cs"
proof -
  assume "enc \<noteq> SQLITE_UTF8"
  then have "even (length (encoded enc cs))"
    by (induction cs) (auto simp: encoded_def WRITE_UTF16LE_def WRITE_UTF16BE_def)
  then show ?thesis by (simp add: even_part_def)
qed

text \<open>
  C19. Translation between any two of UTF-8, UTF-16LE and UTF-16BE keeps the characters: the
  encoding of a text in the first becomes its encoding in the second, for every text of
  Unicode scalar values other than U+FFFE and U+FFFF, when memory suffices; without memory the
  text and its encoding stay.
\<close>
theorem MemTranslate_text:
  assumes "\<forall>c\<in>set cs. valid_char c" "enc \<in> {1, 2, 3}" "enc' \<in> {1, 2, 3}" "enc \<noteq> enc'"
    "m = \<lparr>mem_z = encoded enc cs, mem_enc = enc, mem_flags = f\<rparr>"
    "sqlite3VdbeMemTranslate rcW m enc' al = (rc, buf, m', al')"
  shows "if rc = SQLITE_OK then mem_z m' = encoded enc' cs \<and> mem_enc m' = enc'
    else rc = SQLITE_NOMEM \<and> mem_z m' = encoded enc cs \<and> mem_enc m' = enc"
proof (cases "enc \<noteq> SQLITE_UTF8 \<and> enc' \<noteq> SQLITE_UTF8")
  case True
  then have "{enc, enc'} = {2, 3}" using assms(2-4) by (auto simp: enc_defs)
  then show ?thesis using True assms(4-6) swap_text [of cs]
    by (auto simp: sqlite3VdbeMemTranslate_def encoded_def enc_defs SQLITE_OK_def SQLITE_NOMEM_def doubleton_eq_iff split: if_splits)
next
  case False
  obtain ok al1 where al: "alloc_block al = (ok, al1)" by fastforce
  have t: "utf8_to_utf16 W (concat (map WRITE_UTF8 cs)) = concat (map W cs)"
    "utf16_to_utf8 unit_le (concat (map WRITE_UTF16LE cs)) = concat (map WRITE_UTF8 cs)"
    "utf16_to_utf8 unit_be (concat (map WRITE_UTF16BE cs)) = concat (map WRITE_UTF8 cs)" for W
    using utf8_to_utf16_text [OF assms(1)] utf16_to_utf8_text [OF assms(1)] by simp_all
  have m: "(if enc' = SQLITE_UTF8 then m\<lparr>mem_z := even_part (mem_z m)\<rparr> else m) = m"
    using assms(4,5) even_text [of enc cs] by auto
  show ?thesis
    using False assms(2-6) al t unfolding sqlite3VdbeMemTranslate_def m
    by (auto simp: Let_def encoded_def enc_defs SQLITE_OK_def SQLITE_NOMEM_def split: if_splits)
qed

theorem MemTranslate_text_witness:
  "mem_z (fst (snd (snd (sqlite3VdbeMemTranslate 0 \<lparr>mem_z = encoded 1 [0x41, 0x1F600], mem_enc = 1, mem_flags = 2\<rparr> 2
      \<lparr>verdicts = [], live = 0\<rparr>)))) = [0x41, 0, 0x3D, 0xD8, 0x00, 0xDE]"
proof -
  let ?m = "\<lparr>mem_z = encoded 1 [0x41, 0x1F600], mem_enc = 1, mem_flags = 2\<rparr>"
  obtain rc buf m' al' where r: "sqlite3VdbeMemTranslate 0 ?m 2 \<lparr>verdicts = [], live = 0\<rparr> = (rc, buf, m', al')"
    by (metis prod_cases4)
  have "rc = SQLITE_OK" using r by (auto simp: sqlite3VdbeMemTranslate_def alloc_block_def enc_defs Let_def)
  moreover have "\<forall>c\<in>set [0x41, 0x1F600]. valid_char c" by (simp add: valid_char_def)
  ultimately have "mem_z m' = encoded 2 [0x41, 0x1F600]"
    using MemTranslate_text [OF _ _ _ _ refl r] by simp
  then show ?thesis using r by (simp add: encoded_def enc_defs WRITE_UTF16LE_def)
qed

text \<open>
  C20. Translation never writes past its output buffer: whatever the input bytes, well formed or
  not, the bytes written with the terminator fit the size that was allocated (the two encodings differ,
  as the source asserts).
\<close>
theorem MemTranslate_in_bounds:
  assumes "mem_enc m \<noteq> enc" "sqlite3VdbeMemTranslate rcW m enc al = (rc, Some (len, written), m', al')"
  shows "written \<le> len"
proof -
  have le: "length (utf8_to_utf16 WRITE_UTF16LE z) \<le> 2 * length z" "length (utf8_to_utf16 WRITE_UTF16BE z) \<le> 2 * length z" for z
    by (rule utf8_to_utf16_length; simp add: WRITE_UTF16LE_def WRITE_UTF16BE_def word_le_nat_alt)+
  show ?thesis
    using assms le utf16_to_utf8_length
    by (auto simp: sqlite3VdbeMemTranslate_def Let_def enc_defs split: if_splits prod.splits)
qed

theorem MemTranslate_in_bounds_witness:
  "case sqlite3VdbeMemTranslate 0 \<lparr>mem_z = [0xF0, 0x9F, 0x98, 0x80, 0xC0], mem_enc = 1, mem_flags = 2\<rparr> 3 \<lparr>verdicts = [], live = 0\<rparr>
   of (rc, Some (len, written), m', al') \<Rightarrow> written \<le> len | _ \<Rightarrow> False"
proof -
  let ?m = "\<lparr>mem_z = [0xF0, 0x9F, 0x98, 0x80, 0xC0], mem_enc = 1, mem_flags = 2\<rparr>"
  obtain rc len written m' al' where
    r: "sqlite3VdbeMemTranslate 0 ?m 3 \<lparr>verdicts = [], live = 0\<rparr> = (rc, Some (len, written), m', al')"
    by (simp add: sqlite3VdbeMemTranslate_def alloc_block_def enc_defs Let_def)
  then show ?thesis using MemTranslate_in_bounds [OF _ r] by simp
qed

end
