(* ===== verification/Pattern.thy ===== *)
theory Pattern
  imports Utf Keyword
begin

text \<open>
  The \<open>LIKE\<close> and \<open>GLOB\<close> operators (\<open>src/db/sqlite3.c\<close>, \<open>func.c\<close>): \<open>patternCompare\<close>, its two
  interfaces and the SQL function.  A string is the list of its bytes before the terminator.  The
  theorems compare the matcher, with its byte searches and its early exits, with a description of
  patterns over characters.
\<close>

section \<open>The matcher\<close>

record compareInfo =
  matchAll :: u8
  matchOne :: u8
  matchSet :: u8
  noCase :: bool

definition globInfo :: compareInfo where
  "globInfo = \<lparr>matchAll = 0x2a, matchOne = 0x3f, matchSet = 0x5b, noCase = False\<rparr>"

definition likeInfoNorm :: compareInfo where
  "likeInfoNorm = \<lparr>matchAll = 0x25, matchOne = 0x5f, matchSet = 0, noCase = True\<rparr>"

definition likeInfoAlt :: compareInfo where
  "likeInfoAlt = \<lparr>matchAll = 0x25, matchOne = 0x5f, matchSet = 0, noCase = False\<rparr>"

definition SQLITE_MATCH :: nat where "SQLITE_MATCH = 0"
definition SQLITE_NOMATCH :: nat where "SQLITE_NOMATCH = 1"
definition SQLITE_NOWILDCARDMATCH :: nat where "SQLITE_NOWILDCARDMATCH = 2"

lemmas match_defs = SQLITE_MATCH_def SQLITE_NOMATCH_def SQLITE_NOWILDCARDMATCH_def

definition Utf8Read :: "bytes \<Rightarrow> u32 \<times> bytes" where
  "Utf8Read z = (if first z < 0x80 then (ucast (first z), tl z) else sqlite3Utf8Read z)"

lemma Utf8Read_eq: "Utf8Read z = sqlite3Utf8Read z"
  by (simp add: Utf8Read_def sqlite3Utf8Read_def word_le_nat_alt word_less_nat_alt)

lemma Utf8Read_length: "length (snd (sqlite3Utf8Read z)) \<le> length z - 1"
proof -
  let ?r = "read_tail (ucast (sqlite3Utf8Trans1 ! unat (first z - 0xc0))) (tl z)"
  have "length (snd ?r) \<le> length (tl z)" by (rule read_tail_length)
  then show ?thesis by (cases ?r) (simp add: sqlite3Utf8Read_def Let_def)
qed

lemma Utf8Read_Nil [simp]: "sqlite3Utf8Read [] = (0, [])"
  by (simp add: sqlite3Utf8Read_def)

lemma Utf8Read_shorter:
  assumes "sqlite3Utf8Read z = (c, z')" "c \<noteq> 0"
  shows "length z' < length z"
  using assms Utf8Read_length [of z] by (cases z) auto

lemma Utf8Read_shorter': "(c, z') = sqlite3Utf8Read z \<Longrightarrow> c \<noteq> 0 \<Longrightarrow> length z' < length z"
  by (rule Utf8Read_shorter) simp_all

lemma Utf8Read_le: "(c, z') = sqlite3Utf8Read z \<Longrightarrow> length z' \<le> length z - 1"
  using Utf8Read_length [of z] by (metis snd_conv)

text \<open>A case of a letter: \<open>sqlite3Tolower\<close> on a character code.\<close>
definition sqlite3Tolower :: "u32 \<Rightarrow> u8" where
  "sqlite3Tolower c = UpperToLower (ucast c)"

text \<open>
  The inner loop over wildcards after \<open>matchAll\<close>: the pattern from the first other character on and
  the string that is left, or \<open>None\<close> when a \<open>matchOne\<close> finds no character.  The loop is reached
  only after a \<open>matchAll\<close> that is not zero.
\<close>
function skip_wild :: "compareInfo \<Rightarrow> bytes \<Rightarrow> bytes \<Rightarrow> (bytes \<times> bytes) option" where
  "skip_wild info p s =
     (case Utf8Read p of (c, p') \<Rightarrow>
        if c \<noteq> 0 \<and> (c = ucast (matchAll info) \<or> c = ucast (matchOne info) \<and> matchOne info \<noteq> 0) then
          if c = ucast (matchOne info) then
            case sqlite3Utf8Read s of (c2, s') \<Rightarrow> if c2 = 0 then None else skip_wild info p' s'
          else skip_wild info p' s
        else Some (p, s))"
  by pat_completeness auto
termination
  by (relation "measure (\<lambda>(info, p, s). length p)") (auto simp: Utf8Read_eq dest: Utf8Read_shorter')

declare skip_wild.simps [simp del]

text \<open>
  The search for a character after \<open>matchAll\<close>, with \<open>f\<close> the recursive comparison of the rest: the
  byte search with \<open>strcspn\<close>, the search for a character outside ASCII, and the one for a set.
\<close>
fun search_byte :: "(u8 \<Rightarrow> bool) \<Rightarrow> (bytes \<Rightarrow> nat) \<Rightarrow> bytes \<Rightarrow> nat" where
  "search_byte stop f [] = SQLITE_NOWILDCARDMATCH"
| "search_byte stop f (d # s) =
     (if d = 0 then SQLITE_NOWILDCARDMATCH
      else if stop d then
        let bMatch = f s in if bMatch \<noteq> SQLITE_NOMATCH then bMatch else search_byte stop f s
      else search_byte stop f s)"

function search_char :: "u32 \<Rightarrow> (bytes \<Rightarrow> nat) \<Rightarrow> bytes \<Rightarrow> nat" where
  "search_char c f s =
     (case Utf8Read s of (c2, s') \<Rightarrow>
        if c2 = 0 then SQLITE_NOWILDCARDMATCH
        else if c2 \<noteq> c then search_char c f s'
        else let bMatch = f s' in if bMatch \<noteq> SQLITE_NOMATCH then bMatch else search_char c f s')"
  by pat_completeness auto
termination
  by (relation "measure (\<lambda>(c, f, s). length s)") (auto simp: Utf8Read_eq dest: Utf8Read_shorter')

lemma skip_shorter: "first z \<noteq> 0 \<Longrightarrow> length (SQLITE_SKIP_UTF8 z) < length z"
  by (cases z) (auto simp: SQLITE_SKIP_UTF8_def le_imp_less_Suc length_dropWhile_le)

function search_set :: "(bytes \<Rightarrow> nat) \<Rightarrow> bytes \<Rightarrow> nat" where
  "search_set f s =
     (if first s = 0 then SQLITE_NOWILDCARDMATCH
      else let bMatch = f s in
        if bMatch \<noteq> SQLITE_NOMATCH then bMatch else search_set f (SQLITE_SKIP_UTF8 s))"
  by pat_completeness auto
termination
  by (relation "measure (\<lambda>(f, s). length s)") (auto simp: skip_shorter)

declare search_char.simps [simp del] search_set.simps [simp del]

lemma search_congs [fundef_cong]:
  "stop = stop' \<Longrightarrow> s = s' \<Longrightarrow> (\<And>x. f x = g x) \<Longrightarrow> search_byte stop f s = search_byte stop' g s'"
  "c = c' \<Longrightarrow> s = s' \<Longrightarrow> (\<And>x. f x = g x) \<Longrightarrow> search_char c f s = search_char c' g s'"
  "s = s' \<Longrightarrow> (\<And>x. f x = g x) \<Longrightarrow> search_set f s = search_set g s'"
  by (metis ext)+

text \<open>The bytes of \<open>zStop\<close>.\<close>
definition zStop :: "compareInfo \<Rightarrow> u32 \<Rightarrow> u8 \<Rightarrow> bool" where
  "zStop info c d =
     (if noCase info then d = sqlite3Toupper (ucast c) \<or> d = sqlite3Tolower c else d = ucast c)"

text \<open>The loop over the members of a set; \<open>c\<close> is the character compared.\<close>
function set_loop :: "u32 \<Rightarrow> u32 \<Rightarrow> u32 \<Rightarrow> bool \<Rightarrow> bytes \<Rightarrow> u32 \<times> bool \<times> bytes" where
  "set_loop c c2 prior_c seen p =
     (if c2 \<noteq> 0 \<and> c2 \<noteq> 0x5d then
        if c2 = 0x2d \<and> first p \<noteq> 0x5d \<and> first p \<noteq> 0 \<and> 0 < prior_c then
          (case sqlite3Utf8Read p of (c2, p) \<Rightarrow>
             let seen = (seen \<or> prior_c \<le> c \<and> c \<le> c2) in
             case sqlite3Utf8Read p of (c2, p) \<Rightarrow> set_loop c c2 0 seen p)
        else
          (case sqlite3Utf8Read p of (c2', p) \<Rightarrow> set_loop c c2' c2 (seen \<or> c = c2) p)
      else (c2, seen, p))"
  by pat_completeness auto
termination
proof (relation "measure (\<lambda>(c, c2, prior_c, seen, p). 2 * length p + of_bool (c2 \<noteq> 0))", goal_cases)
  case (2 c c2 prior_c seen p x p' xa xb p'')
  then have "p \<noteq> []" by auto
  then show ?case using 2(1) Utf8Read_le [OF 2(3)] Utf8Read_le [OF 2(5)] by (cases p) auto
next
  case (3 c c2 prior_c seen p x p')
  then show ?case using Utf8Read_le [OF 3(3)] by (cases p) auto
qed simp

declare set_loop.simps [simp del]

text \<open>A set in the pattern, from after its opening bracket, compared with \<open>c\<close>: whether the set is closed
  and matches, and the pattern after it.\<close>
definition set_match :: "u32 \<Rightarrow> bytes \<Rightarrow> bool \<times> bytes" where
  "set_match c p =
     (case sqlite3Utf8Read p of (c2, p) \<Rightarrow>
      let invert = (c2 = 0x5e) in
      case (if invert then sqlite3Utf8Read p else (c2, p)) of (c2, p) \<Rightarrow>
      case (if c2 = 0x5d then sqlite3Utf8Read p else (c2, p)) of (c2', p) \<Rightarrow>
      case set_loop c c2' 0 (c2 = 0x5d \<and> c = 0x5d) p of (c2, seen, p) \<Rightarrow>
        (\<not> (c2 = 0 \<or> seen = invert), p))"

text \<open>The comparison of one character of the pattern with one of the string.\<close>
definition char_match :: "compareInfo \<Rightarrow> bool \<Rightarrow> u32 \<Rightarrow> u32 \<Rightarrow> bool" where
  "char_match info escaped c c2 \<longleftrightarrow>
     c = c2
     \<or> noCase info \<and> sqlite3Tolower c = sqlite3Tolower c2 \<and> c < 0x80 \<and> c2 < 0x80
     \<or> c = ucast (matchOne info) \<and> \<not> escaped \<and> c2 \<noteq> 0"

lemma literal_length: "(d, q) = (if b then sqlite3Utf8Read p else (c, p)) \<Longrightarrow> length q \<le> length p"
  by (cases b) (auto dest: Utf8Read_le)

lemma skip_wild_length: "skip_wild info p s = Some (p', s') \<Longrightarrow> length p' \<le> length p"
proof (induction info p s rule: skip_wild.induct)
  case (1 info p s)
  obtain c q where r: "sqlite3Utf8Read p = (c, q)" by fastforce
  have "length q \<le> length p" using Utf8Read_le [OF r [symmetric]] by simp
  then show ?case using 1 r
    by (subst (asm) (3) skip_wild.simps) (fastforce simp: Utf8Read_eq split: if_splits prod.splits)
qed

lemma set_loop_length: "set_loop c c2 prior_c seen p = (c2', seen', p') \<Longrightarrow> length p' \<le> length p"
proof (induction c c2 prior_c seen p rule: set_loop.induct)
  case (1 c c2 prior_c seen p)
  obtain d q where r: "sqlite3Utf8Read p = (d, q)" by fastforce
  obtain e u where r2: "sqlite3Utf8Read q = (e, u)" by fastforce
  have "length q \<le> length p" "length u \<le> length q"
    using Utf8Read_le [OF r [symmetric]] Utf8Read_le [OF r2 [symmetric]] by simp_all
  then show ?case using 1 r r2
    by (subst (asm) (3) set_loop.simps) (fastforce simp: Let_def split: if_splits)
qed

lemma set_match_length: "set_match c p = (ok, p') \<Longrightarrow> length p' \<le> length p"
proof -
  assume a: "set_match c p = (ok, p')"
  obtain c1 p1 where 1: "sqlite3Utf8Read p = (c1, p1)" by fastforce
  obtain c2 p2 where 2: "(if c1 = 0x5e then sqlite3Utf8Read p1 else (c1, p1)) = (c2, p2)" by fastforce
  obtain c3 p3 where 3: "(if c2 = 0x5d then sqlite3Utf8Read p2 else (c2, p2)) = (c3, p3)" by fastforce
  obtain c4 seen p4 where 4: "set_loop c c3 0 (c2 = 0x5d \<and> c = 0x5d) p3 = (c4, seen, p4)" by (metis prod_cases3)
  have "length p1 \<le> length p" "length p2 \<le> length p1" "length p3 \<le> length p2" "length p4 \<le> length p3"
    using Utf8Read_le [OF 1 [symmetric]] Utf8Read_le [of c2 p2 p1] Utf8Read_le [of c3 p3 p2] set_loop_length [OF 4] 2 3
    by (auto split: if_splits)
  moreover have "p' = p4" using a 1 2 3 4 by (simp add: set_match_def Let_def)
  ultimately show ?thesis by simp
qed

text \<open>
  \<open>patternCompare\<close>; a turn of its loop is a call.  \<open>zEscaped\<close>, a position in the pattern, is the
  number of bytes that follow it.  After \<open>matchAll\<close> a set is found again at \<open>zPattern[-1]\<close>, since \<open>matchOther\<close>
  is then a single byte.
\<close>
function patternCompare :: "compareInfo \<Rightarrow> u32 \<Rightarrow> nat option \<Rightarrow> bytes \<Rightarrow> bytes \<Rightarrow> nat" where
  "patternCompare info matchOther zEscaped p s =
     (case Utf8Read p of (c, p1) \<Rightarrow>
      if c = 0 then if first s = 0 then SQLITE_MATCH else SQLITE_NOMATCH
      else if c = ucast (matchAll info) then
        (case skip_wild info p1 s of
           None \<Rightarrow> SQLITE_NOWILDCARDMATCH
         | Some (p2, s) \<Rightarrow>
             case Utf8Read p2 of (c, p3) \<Rightarrow>
             if c = 0 then SQLITE_MATCH
             else if c = matchOther \<and> matchSet info \<noteq> 0 then
               search_set (\<lambda>s. patternCompare info matchOther None p2 s) s
             else
               case (if c = matchOther then sqlite3Utf8Read p3 else (c, p3)) of (c, p4) \<Rightarrow>
               if c = 0 then SQLITE_NOWILDCARDMATCH
               else if c < 0x80 then
                 search_byte (zStop info c) (\<lambda>s. patternCompare info matchOther None p4 s) s
               else search_char c (\<lambda>s. patternCompare info matchOther None p4 s) s)
      else if c = matchOther \<and> matchSet info \<noteq> 0 then
        (case sqlite3Utf8Read s of (c, s1) \<Rightarrow>
           if c = 0 then SQLITE_NOMATCH
           else case set_match c p1 of (ok, p2) \<Rightarrow>
             if ok then patternCompare info matchOther zEscaped p2 s1 else SQLITE_NOMATCH)
      else
        case (if c = matchOther then sqlite3Utf8Read p1 else (c, p1)) of (c', p2) \<Rightarrow>
        if c' = 0 then SQLITE_NOMATCH
        else
          let zEscaped = (if c = matchOther then Some (length p2) else zEscaped) in
          case Utf8Read s of (c2, s1) \<Rightarrow>
            if char_match info (zEscaped = Some (length p2)) c' c2
            then patternCompare info matchOther zEscaped p2 s1
            else SQLITE_NOMATCH)"
  by pat_completeness auto
termination
proof (relation "measure (\<lambda>(info, other, zEscaped, p, s). length p)", goal_cases)
  case (2 info matchOther zEscaped p s c p1 pair p2 s2)
  then show ?case
    using Utf8Read_shorter' [of c p1 p] skip_wild_length [of info p1 s p2 s2] by (auto simp: Utf8Read_eq)
next
  case (3 info matchOther zEscaped p s c p1 pair p2 s2 d p3 e p4)
  then have "length p4 \<le> length p3" by (intro literal_length)
  then show ?case using 3 Utf8Read_shorter' [of c p1 p] skip_wild_length [of info p1 s p2 s2] Utf8Read_le [of d p3 p2]
    by (auto simp: Utf8Read_eq split del: if_split)
next
  case (4 info matchOther zEscaped p s c p1 pair p2 s2 d p3 e p4)
  then have "length p4 \<le> length p3" by (intro literal_length)
  then show ?case using 4 Utf8Read_shorter' [of c p1 p] skip_wild_length [of info p1 s p2 s2] Utf8Read_le [of d p3 p2]
    by (auto simp: Utf8Read_eq split del: if_split)
next
  case (5 info matchOther zEscaped p s c p1 d s1 ok p2)
  then show ?case using Utf8Read_shorter' [of c p1 p] set_match_length [of d p1 ok p2] by (auto simp: Utf8Read_eq dest: sym)
next
  case (6 info matchOther zEscaped p s c p1 d p2)
  then have "length p2 \<le> length p1" by (intro literal_length)
  then show ?case using 6 Utf8Read_shorter' [of c p1 p] by (auto simp: Utf8Read_eq split del: if_split)
qed simp

declare patternCompare.simps [simp del]

text \<open>The two C interfaces; a null pointer is \<open>None\<close>.\<close>
fun sqlite3_strglob :: "bytes option \<Rightarrow> bytes option \<Rightarrow> nat" where
  "sqlite3_strglob zGlobPattern None = of_bool (zGlobPattern \<noteq> None)"
| "sqlite3_strglob None (Some zString) = 1"
| "sqlite3_strglob (Some zGlobPattern) (Some zString) = patternCompare globInfo 0x5b None zGlobPattern zString"

fun sqlite3_strlike :: "bytes option \<Rightarrow> bytes option \<Rightarrow> u32 \<Rightarrow> nat" where
  "sqlite3_strlike zPattern None esc = of_bool (zPattern \<noteq> None)"
| "sqlite3_strlike None (Some zStr) esc = 1"
| "sqlite3_strlike (Some zPattern) (Some zStr) esc = patternCompare likeInfoNorm esc None zPattern zStr"

text \<open>
  The result an SQL function sets: none, which is \<open>NULL\<close>, an integer, or an error with a message.
\<close>
datatype sql_result = ResultNone | ResultInt int | PatternTooComplex | EscapeNotSingle

text \<open>
  \<open>likeFunc\<close>, with \<open>limit\<close> the connection's \<open>SQLITE_LIMIT_LIKE_PATTERN_LENGTH\<close>.  An argument is the
  text of its value, \<open>None\<close> where \<open>sqlite3_value_text\<close> gives a null pointer; \<open>zEsc\<close> is present when
  the call has three arguments.
\<close>
definition value_bytes :: "bytes option \<Rightarrow> int" where
  "value_bytes z = (case z of None \<Rightarrow> 0 | Some z \<Rightarrow> int (length z))"

definition escape_info :: "compareInfo \<Rightarrow> u32 \<Rightarrow> compareInfo" where
  "escape_info pInfo escape =
     (if escape = ucast (matchAll pInfo) \<or> escape = ucast (matchOne pInfo) then
        let pInfo = (if escape = ucast (matchAll pInfo) then pInfo\<lparr>matchAll := 0\<rparr> else pInfo)
        in if escape = ucast (matchOne pInfo) then pInfo\<lparr>matchOne := 0\<rparr> else pInfo
      else pInfo)"

definition like_result :: "compareInfo \<Rightarrow> u32 \<Rightarrow> bytes option \<Rightarrow> bytes option \<Rightarrow> sql_result" where
  "like_result pInfo escape zB zA =
     (case (zA, zB) of
        (Some a, Some b) \<Rightarrow> ResultInt (of_bool (patternCompare pInfo escape None b a = SQLITE_MATCH))
      | _ \<Rightarrow> ResultNone)"

definition likeFunc ::
  "compareInfo \<Rightarrow> int \<Rightarrow> bytes option \<Rightarrow> bytes option \<Rightarrow> bytes option option \<Rightarrow> sql_result" where
  "likeFunc pInfo limit zB zA zEsc =
     (if limit < value_bytes zB then PatternTooComplex
      else case zEsc of
        None \<Rightarrow> like_result pInfo (ucast (matchSet pInfo)) zB zA
      | Some None \<Rightarrow> ResultNone
      | Some (Some z) \<Rightarrow>
          if sqlite3Utf8CharLen z (-1) \<noteq> 1 then EscapeNotSingle
          else let escape = fst (sqlite3Utf8Read z)
            in like_result (escape_info pInfo escape) escape zB zA)"

section \<open>What a pattern means\<close>

text \<open>The characters of a string.\<close>
function codes :: "bytes \<Rightarrow> u32 list" where
  "codes z = (case sqlite3Utf8Read z of (c, z') \<Rightarrow> if c = 0 then [] else c # codes z')"
  by pat_completeness auto
termination
  by (relation "measure length") (auto dest: Utf8Read_shorter')

declare codes.simps [simp del]

datatype element = Any | One | Char u32 | Class bool "(u32 \<times> u32) list" | Malformed

text \<open>The members of a set up to its closing bracket, as ranges, and the pattern after it.\<close>
fun members :: "u32 \<Rightarrow> u32 list \<Rightarrow> ((u32 \<times> u32) list \<times> u32 list) option" where
  "members before [] = None"
| "members before (c # p) =
     (if c = 0x5d then Some ([], p)
      else case p of
        d # q \<Rightarrow>
          if c = 0x2d \<and> d \<noteq> 0x5d \<and> 0 < before
          then map_option (\<lambda>(rs, r). ((before, d) # rs, r)) (members 0 q)
          else map_option (\<lambda>(rs, r). ((c, c) # rs, r)) (members c p)
      | [] \<Rightarrow> None)"

definition set_of :: "u32 list \<Rightarrow> element \<times> u32 list" where
  "set_of p =
     (let invert = (p \<noteq> [] \<and> hd p = 0x5e);
          p = (if invert then tl p else p);
          bracket = (p \<noteq> [] \<and> hd p = 0x5d);
          p = (if bracket then tl p else p)
      in case members 0 p of
           None \<Rightarrow> (Malformed, [])
         | Some (rs, r) \<Rightarrow> (Class invert (if bracket then (0x5d, 0x5d) # rs else rs), r))"

lemma members_length: "members b p = Some (rs, r) \<Longrightarrow> length r < length p"
proof (induction b p arbitrary: rs r rule: members.induct)
  case (2 b c p)
  show ?case
  proof (cases p)
    case Nil
    then show ?thesis using 2(3) by (simp split: if_splits)
  next
    case (Cons d q)
    then show ?thesis using 2(3) 2(1) [OF _ Cons] 2(2) [OF _ Cons]
      by (auto split: if_splits)
  qed
qed simp

lemma set_of_length: "set_of p = (e, r) \<Longrightarrow> length r \<le> length p"
proof -
  assume a: "set_of p = (e, r)"
  define q where "q = (if p \<noteq> [] \<and> hd p = 0x5e then tl p else p)"
  define q' where "q' = (if q \<noteq> [] \<and> hd q = 0x5d then tl q else q)"
  have "length q' \<le> length p" by (simp add: q_def q'_def)
  then show ?thesis
    using a members_length [of 0 q'] unfolding set_of_def Let_def q_def [symmetric] q'_def [symmetric]
    by (cases "members 0 q'") auto
qed

function elements :: "compareInfo \<Rightarrow> u32 \<Rightarrow> u32 list \<Rightarrow> element list" where
  "elements info other [] = []"
| "elements info other (c # p) =
     (if c = ucast (matchAll info) then Any # elements info other p
      else if c = other \<and> matchSet info \<noteq> 0 then case set_of p of (e, r) \<Rightarrow> e # elements info other r
      else if c = other then
        case p of [] \<Rightarrow> [Malformed] | d # r \<Rightarrow> Char d # elements info other r
      else if c = ucast (matchOne info) then One # elements info other p
      else Char c # elements info other p)"
  by pat_completeness auto
termination
  by (relation "measure (\<lambda>(info, other, p). length p)") (auto simp: le_imp_less_Suc dest: set_of_length [OF sym])

text \<open>Equality of characters, up to the case of ASCII letters when \<open>nc\<close> is set.\<close>
definition same_char :: "bool \<Rightarrow> u32 \<Rightarrow> u32 \<Rightarrow> bool" where
  "same_char nc c d \<longleftrightarrow> c = d \<or> nc \<and> c < 0x80 \<and> d < 0x80 \<and> sqlite3Tolower c = sqlite3Tolower d"

definition in_ranges :: "(u32 \<times> u32) list \<Rightarrow> u32 \<Rightarrow> bool" where
  "in_ranges rs c \<longleftrightarrow> list_ex (\<lambda>(a, b). a \<le> c \<and> c \<le> b) rs"

fun element_matches :: "bool \<Rightarrow> element \<Rightarrow> u32 \<Rightarrow> bool" where
  "element_matches nc Any c = False"
| "element_matches nc One c = True"
| "element_matches nc (Char d) c = same_char nc d c"
| "element_matches nc (Class invert rs) c = (in_ranges rs c \<noteq> invert)"
| "element_matches nc Malformed c = False"

text \<open>A sequence of elements matches a string.\<close>
fun matches :: "bool \<Rightarrow> element list \<Rightarrow> u32 list \<Rightarrow> bool" where
  "matches nc [] s \<longleftrightarrow> s = []"
| "matches nc (Any # p) s \<longleftrightarrow> list_ex (\<lambda>k. matches nc p (drop k s)) [0..<Suc (length s)]"
| "matches nc (e # p) [] \<longleftrightarrow> False"
| "matches nc (e # p) (c # s) \<longleftrightarrow> element_matches nc e c \<and> matches nc p s"

section \<open>Reading characters\<close>

lemma unat_wide [simp]: "unat (ucast (b :: u8) :: u32) = unat b"
  using unat_u8_less [of b] by (simp add: unat_ucast del: unat_u8_less)

lemma read_ascii: "first z < 0x80 \<Longrightarrow> sqlite3Utf8Read z = (ucast (first z), tl z)"
  by (simp add: sqlite3Utf8Read_def word_le_nat_alt word_less_nat_alt)

lemma read_high:
  assumes "\<not> first z < 0x80"
  shows "0x80 \<le> fst (sqlite3Utf8Read z)"
proof -
  have f: "0x80 \<le> utf8_fixup c" for c by (simp add: utf8_fixup_def linorder_not_less)
  have "(0x80 :: u32) \<le> ucast (first z)" using assms
    by (simp add: word_le_nat_alt word_less_nat_alt)
  then show ?thesis using f by (simp add: sqlite3Utf8Read_def Let_def split: prod.split)
qed

lemma read_is_ascii:
  assumes "b < (0x80 :: u8)"
  shows "fst (sqlite3Utf8Read z) = ucast b \<longleftrightarrow> first z = b"
proof (cases "first z < 0x80")
  case True
  then show ?thesis by (simp add: read_ascii word_unat_eq_iff)
next
  case False
  then have "fst (sqlite3Utf8Read z) \<noteq> ucast b"
    using read_high [OF False] assms by (auto simp: word_le_nat_alt word_less_nat_alt)
  then show ?thesis using False assms by auto
qed

lemma read_zero: "fst (sqlite3Utf8Read z) = 0 \<longleftrightarrow> first z = 0"
  using read_is_ascii [of 0 z] by simp

lemma codes_read: "sqlite3Utf8Read z = (c, z') \<Longrightarrow> codes z = (if c = 0 then [] else c # codes z')"
  by (simp add: codes.simps [of z])

lemma codes_empty: "codes z = [] \<longleftrightarrow> first z = 0"
  using read_zero [of z] by (cases "sqlite3Utf8Read z") (simp add: codes_read)

lemma codes_first: "b < 0x80 \<Longrightarrow> b \<noteq> 0 \<Longrightarrow> codes z \<noteq> [] \<and> hd (codes z) = ucast b \<longleftrightarrow> first z = b"
  using read_is_ascii [of b z] read_zero [of z] by (cases "sqlite3Utf8Read z") (auto simp: codes_read)

lemma ucast_0_iff_u8: "ucast (b :: u8) = (0 :: u32) \<longleftrightarrow> b = 0"
  by (simp add: word_unat_eq_iff)

lemma codes_ascii: "b \<noteq> 0 \<Longrightarrow> b < 0x80 \<Longrightarrow> codes (b # z) = ucast b # codes z"
  using read_ascii [of "b # z"] by (simp add: codes_read ucast_0_iff_u8)

lemma codes_Nil [simp]: "codes [] = []"
  by (simp add: codes.simps)

section \<open>Sets\<close>

lemma in_ranges_simps [simp]:
  "in_ranges [] c = False" "in_ranges ((a, b) # rs) c \<longleftrightarrow> a \<le> c \<and> c \<le> b \<or> in_ranges rs c"
  by (simp_all add: in_ranges_def)

text \<open>What \<open>set_loop\<close> still has to read: the character \<open>c2\<close> and those of \<open>p\<close>.\<close>
definition pending :: "u32 \<Rightarrow> bytes \<Rightarrow> u32 list" where
  "pending c2 p = (if c2 = 0 then [] else c2 # codes p)"

lemma pending_read: "sqlite3Utf8Read p = (c, p') \<Longrightarrow> pending c p' = codes p"
  by (simp add: pending_def codes_read)

lemma set_loop_members:
  "case members prior_c (pending c2 p) of
     None \<Rightarrow> fst (set_loop c c2 prior_c seen p) = 0
   | Some (rs, r) \<Rightarrow> \<exists>p'. set_loop c c2 prior_c seen p = (0x5d, seen \<or> in_ranges rs c, p') \<and> codes p' = r"
proof (induction c c2 prior_c seen p rule: set_loop.induct)
  case (1 c c2 prior_c seen p)
  note unfold = set_loop.simps [of c c2 prior_c seen p]
  obtain d q where r: "sqlite3Utf8Read p = (d, q)" by fastforce
  obtain e u where r2: "sqlite3Utf8Read q = (e, u)" by fastforce
  have dash: "first p \<noteq> 0x5d \<longleftrightarrow> d \<noteq> 0x5d" "first p \<noteq> 0 \<longleftrightarrow> d \<noteq> 0"
    using read_is_ascii [of "0x5d" p] read_zero [of p] r by simp_all
  show ?case
  proof (cases "c2 \<noteq> 0 \<and> c2 \<noteq> 0x5d")
    case False
    then show ?thesis by (auto simp: set_loop.simps pending_def)
  next
    case True
    show ?thesis
    proof (cases "c2 = 0x2d \<and> first p \<noteq> 0x5d \<and> first p \<noteq> 0 \<and> 0 < prior_c")
      case range: True
      have m: "members prior_c (pending c2 p)
          = map_option (\<lambda>(rs, r). ((prior_c, d) # rs, r)) (members 0 (pending e u))"
        using range dash r by (simp add: pending_def codes_read [OF r] pending_read [OF r2, symmetric])
      show ?thesis
        using 1(1) [OF True range r [symmetric] refl r2 [symmetric]] True range r r2 unfolding m unfold
        by (auto split: option.splits)
    next
      case single: False
      have m: "members prior_c (pending c2 p) = map_option (\<lambda>(rs, r). ((c2, c2) # rs, r)) (members c2 (pending d q))"
        using single True dash r by (cases "d = 0") (auto simp: pending_def codes_read [OF r])
      show ?thesis
        using 1(2) [OF True single r [symmetric]] True single r unfolding m unfold
        by (auto split: option.splits)
    qed
  qed
qed

lemma set_match_set_of:
  "case set_of (codes p) of
     (Class invert rs, r) \<Rightarrow> \<exists>p'. set_match c p = (in_ranges rs c \<noteq> invert, p') \<and> codes p' = r
   | (e, r) \<Rightarrow> e = Malformed \<and> \<not> fst (set_match c p)"
proof -
  obtain c1 p1 where 1: "sqlite3Utf8Read p = (c1, p1)" by fastforce
  define invert where "invert = (c1 = 0x5e)"
  obtain c2 p2 where 2: "(if invert then sqlite3Utf8Read p1 else (c1, p1)) = (c2, p2)" by fastforce
  obtain c3 p3 where 3: "(if c2 = 0x5d then sqlite3Utf8Read p2 else (c2, p2)) = (c3, p3)" by fastforce
  have sm: "set_match c p = (case set_loop c c3 0 (c2 = 0x5d \<and> c = 0x5d) p3 of (c4, seen, p4) \<Rightarrow>
      (\<not> (c4 = 0 \<or> seen = invert), p4))"
    using 1 2 3 by (simp add: set_match_def invert_def Let_def)
  have inv: "invert \<longleftrightarrow> codes p \<noteq> [] \<and> hd (codes p) = 0x5e"
    using codes_read [OF 1] by (auto simp: invert_def)
  have q: "(if invert then tl (codes p) else codes p) = pending c2 p2"
    using 2 codes_read [OF 1] pending_read [of p1 c2 p2] by (auto simp: invert_def pending_def split: if_splits)
  have br: "c2 = 0x5d \<longleftrightarrow> pending c2 p2 \<noteq> [] \<and> hd (pending c2 p2) = 0x5d" by (simp add: pending_def)
  have q': "(if c2 = 0x5d then tl (pending c2 p2) else pending c2 p2) = pending c3 p3"
    using 3 pending_read [of p2 c3 p3] by (auto simp: pending_def split: if_splits)
  have "set_of (codes p) = (case members 0 (pending c3 p3) of
           None \<Rightarrow> (Malformed, [])
         | Some (rs, r) \<Rightarrow> (Class invert (if c2 = 0x5d then (0x5d, 0x5d) # rs else rs), r))"
    unfolding set_of_def Let_def inv [symmetric] q br [symmetric] q' ..
  then show ?thesis
    using set_loop_members [where prior_c = 0 and ?c2.0 = c3 and p = p3 and c = c and seen = "c2 = 0x5d \<and> c = 0x5d"] sm by (auto split: option.splits prod.splits)
qed

section \<open>Wildcards\<close>

lemma matches_Any: "matches nc (Any # p) s \<longleftrightarrow> (\<exists>k \<le> length s. matches nc p (drop k s))"
  by (auto simp: list_ex_iff less_Suc_eq_le simp del: upt_Suc)

declare matches.simps(2) [simp del]

lemma matches_Any_Cons: "matches nc (Any # p) (c # s) \<longleftrightarrow> matches nc p (c # s) \<or> matches nc (Any # p) s"
proof -
  have ex: "(\<exists>k \<le> Suc n. Q k) \<longleftrightarrow> Q 0 \<or> (\<exists>k \<le> n. Q (Suc k))" for n :: nat and Q
    by (metis Suc_le_mono le0 not0_implies_Suc)
  show ?thesis unfolding matches_Any list.size add_Suc_right add_0_right ex by simp
qed

lemma matches_Any_drop: "matches nc (Any # p) (drop k s) \<Longrightarrow> matches nc (Any # p) s"
  by (induction s arbitrary: k) (auto simp: drop_Cons' matches_Any_Cons split: if_splits)

lemma matches_Any_Nil: "matches nc (Any # p) [] \<longleftrightarrow> matches nc p []"
  by (simp add: matches_Any)

lemma matches_Any_Any: "matches nc (Any # Any # p) s \<longleftrightarrow> matches nc (Any # p) s"
  by (induction s) (auto simp: matches_Any_Cons matches_Any_Nil)

lemma matches_Any_One: "matches nc (Any # One # p) s \<longleftrightarrow> s \<noteq> [] \<and> matches nc (Any # p) (tl s)"
proof (induction s)
  case (Cons c s)
  then show ?case by (cases s) (auto simp: matches_Any_Cons matches_Any_Nil)
qed (simp add: matches_Any_Nil)

text \<open>An element other than \<open>Any\<close> takes one character, so it cannot rescue a rest that matches no suffix.\<close>
lemma matches_prefix:
  assumes "\<And>k. \<not> matches nc p (drop k s)" "e \<noteq> Any"
  shows "\<not> matches nc (e # p) (drop k (c # s))"
proof
  assume a: "matches nc (e # p) (drop k (c # s))"
  then obtain d t where dt: "drop k (c # s) = d # t" using assms(2) by (cases "drop k (c # s)"; cases e) auto
  then have "t = drop k s" by (metis drop_Suc_Cons drop_Suc list.sel(3) tl_drop)
  moreover have "matches nc p t" using a dt assms(2) by (cases e) auto
  ultimately show False using assms(1) by simp
qed

section \<open>Searches\<close>

text \<open>What a result of the comparison tells about a pattern \<open>p\<close> and a string \<open>s\<close>; a wildcard mismatch
  tells that no later part of the string matches either.\<close>
definition tells :: "bool \<Rightarrow> nat \<Rightarrow> element list \<Rightarrow> u32 list \<Rightarrow> bool" where
  "tells nc r p s \<longleftrightarrow> (r = SQLITE_MATCH \<longleftrightarrow> matches nc p s)
     \<and> (r = SQLITE_NOWILDCARDMATCH \<longrightarrow> (\<forall>k. \<not> matches nc p (drop k s)))
     \<and> r \<in> {SQLITE_MATCH, SQLITE_NOMATCH, SQLITE_NOWILDCARDMATCH}"

definition decides :: "bool \<Rightarrow> (bytes \<Rightarrow> nat) \<Rightarrow> element list \<Rightarrow> bool" where
  "decides nc f p \<longleftrightarrow> (\<forall>s. tells nc (f s) p (codes s))"

text \<open>The result of a search: a match, or none at any later place either.\<close>
definition verdict :: "bool \<Rightarrow> nat" where
  "verdict b = (if b then SQLITE_MATCH else SQLITE_NOWILDCARDMATCH)"

lemma decidesD:
  assumes "decides nc f p"
  shows "f s = SQLITE_MATCH \<longleftrightarrow> matches nc p (codes s)"
    "f s = SQLITE_NOWILDCARDMATCH \<Longrightarrow> \<not> matches nc p (drop k (codes s))"
    "f s = SQLITE_MATCH \<or> f s = SQLITE_NOMATCH \<or> f s = SQLITE_NOWILDCARDMATCH"
  using assms unfolding decides_def tells_def by blast+

lemma no_suffix:
  assumes "\<And>k. \<not> matches nc p (drop k s)"
  shows "\<not> matches nc (Any # p) s" "e \<noteq> Any \<Longrightarrow> \<not> matches nc (Any # e # p) s"
proof -
  show "\<not> matches nc (Any # p) s" using assms by (auto simp: matches_Any)
  assume e: "e \<noteq> Any"
  have "\<not> matches nc (e # p) (drop k s)" for k
  proof (cases s)
    case Nil
    then show ?thesis using e by (cases e) auto
  next
    case (Cons c t)
    have "\<not> matches nc p (drop k t)" for k using assms [of "Suc k"] Cons by simp
    then show ?thesis unfolding Cons by (rule matches_prefix) (rule e)
  qed
  then show "\<not> matches nc (Any # e # p) s" by (auto simp: matches_Any)
qed

lemma decides_step:
  assumes "decides nc f p" "e \<noteq> Any"
  shows "(if f s \<noteq> SQLITE_NOMATCH then f s else verdict (matches nc (Any # e # p) (codes s)))
    = verdict (matches nc p (codes s) \<or> matches nc (Any # e # p) (codes s))"
  using decidesD [OF assms(1), of s] no_suffix(2) [OF _ assms(2), of nc p "codes s"]
  by (auto simp: verdict_def match_defs)

lemma search_char_verdict:
  assumes "decides nc f p" "\<And>d. same_char nc c d \<longleftrightarrow> c = d"
  shows "search_char c f s = verdict (matches nc (Any # Char c # p) (codes s))"
  using assms
proof (induction c f s rule: search_char.induct)
  case (1 c f s)
  obtain d t where r: "sqlite3Utf8Read s = (d, t)" by fastforce
  show ?case
  proof (cases "d = 0")
    case True
    then show ?thesis using r by (simp add: search_char.simps [of c f s] Utf8Read_eq codes_read [OF r] matches_Any_Nil verdict_def)
  next
    case False
    then show ?thesis
      using 1 r decides_step [OF 1(3), of "Char c" t]
      by (subst search_char.simps) (auto simp: Utf8Read_eq codes_read [OF r] matches_Any_Cons Let_def)
  qed
qed

lemma skip_is_read: "SQLITE_SKIP_UTF8 z = snd (sqlite3Utf8Read z)"
proof -
  have "snd (read_tail c z) = dropWhile (\<lambda>b. b AND 0xc0 = 0x80) z" for c z
    by (induction c z rule: read_tail.induct) auto
  then show ?thesis by (simp add: SQLITE_SKIP_UTF8_def sqlite3Utf8Read_def Let_def case_prod_unfold)
qed

lemma search_set_verdict:
  assumes "decides nc f (e # p)" "e \<noteq> Any"
  shows "search_set f s = verdict (matches nc (Any # e # p) (codes s))"
  using assms
proof (induction f s rule: search_set.induct)
  case (1 f s)
  obtain d t where r: "sqlite3Utf8Read s = (d, t)" by fastforce
  have z: "first s = 0 \<longleftrightarrow> d = 0" using read_zero [of s] r by simp
  have t: "SQLITE_SKIP_UTF8 s = t" using r by (simp add: skip_is_read)
  show ?case
  proof (cases "d = 0")
    case True
    then show ?thesis using z 1(3)
      by (cases e) (simp_all add: search_set.simps [of f s] codes_read [OF r] matches_Any_Nil verdict_def)
  next
    case False
    have "search_set f t = verdict (matches nc (Any # e # p) (codes t))" if "f s = SQLITE_NOMATCH"
      using 1 that False z t by simp
    then show ?thesis
      using False z t decidesD [OF 1(2), of s] no_suffix(1) [of nc "e # p" "codes s"]
      by (subst search_set.simps) (auto simp: codes_read [OF r] matches_Any_Cons Let_def verdict_def match_defs)
  qed
qed

lemma read_high_split:
  assumes "\<not> first s < 0x80" "sqlite3Utf8Read s = (c, t)"
  shows "\<exists>u. s = u @ t \<and> (\<forall>b\<in>set u. \<not> b < 0x80)"
proof -
  obtain b z where s: "s = b # z" using assms(1) by (cases s) auto
  have t: "t = SQLITE_SKIP_UTF8 s" using assms(2) by (simp add: skip_is_read)
  show ?thesis
  proof (cases "b \<ge> 0xc0")
    case True
    then have "s = (b # takeWhile (\<lambda>b. b AND 0xc0 = 0x80) z) @ t" using s t by (simp add: SQLITE_SKIP_UTF8_def)
    moreover have "\<not> x < 0x80" if "x \<in> set (takeWhile (\<lambda>b. b AND 0xc0 = 0x80) z)" for x
      using set_takeWhileD [OF that] by (simp add: continuation_iff word_less_nat_alt)
    ultimately show ?thesis using assms(1) s by (intro exI [of _ "b # takeWhile (\<lambda>b. b AND 0xc0 = 0x80) z"]) auto
  next
    case False
    then show ?thesis using s t assms(1) by (intro exI [of _ "[b]"]) (simp add: SQLITE_SKIP_UTF8_def)
  qed
qed

lemma search_byte_skip: "(\<forall>b\<in>set u. \<not> b < 0x80) \<Longrightarrow> (\<And>d. stop d \<Longrightarrow> d < 0x80) \<Longrightarrow> search_byte stop f (u @ t) = search_byte stop f t"
  by (induction u) auto

lemma search_byte_verdict:
  assumes "decides nc f p" "c < 0x80" "\<And>d. d < 0x80 \<Longrightarrow> stop d \<longleftrightarrow> same_char nc c (ucast d)" "\<And>d. stop d \<Longrightarrow> d < 0x80"
  shows "search_byte stop f s = verdict (matches nc (Any # Char c # p) (codes s))"
proof (induction s rule: codes.induct)
  case (1 s)
  obtain d t where r: "sqlite3Utf8Read s = (d, t)" by fastforce
  have IH: "search_byte stop f t = verdict (matches nc (Any # Char c # p) (codes t))" if "d \<noteq> 0"
    using 1 [OF r [symmetric] that] .
  show ?case
  proof (cases "first s < 0x80")
    case low: True
    then have dt: "d = ucast (first s)" "t = tl s" using r read_ascii [OF low] by simp_all
    show ?thesis
    proof (cases "first s = 0")
      case True
      then have "search_byte stop f s = SQLITE_NOWILDCARDMATCH" by (cases s) auto
      then show ?thesis using True dt by (simp add: codes_read [OF r] matches_Any_Nil verdict_def)
    next
      case False
      then obtain b where s: "s = b # t" "d = ucast b" "b \<noteq> 0" using dt by (cases s) auto
      have d: "d \<noteq> 0" using s by (simp add: word_unat_eq_iff)
      have b: "search_byte stop f s =
          (if same_char nc c d then if f t \<noteq> SQLITE_NOMATCH then f t else search_byte stop f t else search_byte stop f t)"
        using assms(3) [of b] low s by (simp add: Let_def)
      have cs: "codes s = d # codes t" using codes_read [OF r] d by simp
      show ?thesis unfolding b cs using IH [OF d] decides_step [OF assms(1), of "Char c" t]
        by (auto simp: matches_Any_Cons)
    qed
  next
    case False
    have d: "0x80 \<le> d" using read_high [OF False] r by simp
    obtain u where u: "s = u @ t" "\<forall>b\<in>set u. \<not> b < 0x80" using read_high_split [OF False r] by blast
    have "search_byte stop f s = search_byte stop f t" unfolding u(1) by (rule search_byte_skip [OF u(2) assms(4)])
    moreover have "\<not> same_char nc c d" using assms(2) d by (auto simp: same_char_def)
    moreover have "d \<noteq> 0" using d by auto
    ultimately show ?thesis using IH by (simp add: codes_read [OF r] matches_Any_Cons)
  qed
qed

lemma unat_Toupper:
  "unat (sqlite3Toupper c) = (if 97 \<le> unat c \<and> unat c \<le> 122 then unat c - 32 else unat c)"
  unfolding Toupper_eq
  by (cases rule: block_cases [OF unat_u8_less [of c]]) (auto simp: unat_kfold)

lemma unat_narrow: "c < 0x80 \<Longrightarrow> unat (ucast (c :: u32) :: u8) = unat c"
  by (simp add: unat_ucast word_less_nat_alt)

lemma unat_lower_narrow:
  "c < 0x80 \<Longrightarrow> unat (sqlite3UpperToLower ! unat (c :: u32)) = (if 65 \<le> unat c \<and> unat c \<le> 90 then unat c + 32 else unat c)"
  using unat_lower [of "ucast c"] unat_narrow [of c] by simp

lemma zStop_same:
  assumes "c < 0x80"
  shows "d < 0x80 \<Longrightarrow> zStop info c d \<longleftrightarrow> same_char (noCase info) c (ucast d)" "zStop info c d \<Longrightarrow> d < 0x80"
proof -
  have c: "unat c < 128" using assms by (simp add: word_less_nat_alt)
  show "zStop info c d \<Longrightarrow> d < 0x80"
    using c by (auto simp: zStop_def word_less_nat_alt sqlite3Tolower_def unat_Toupper unat_lower unat_lower_narrow [OF assms] unat_narrow [OF assms] split: if_splits)
  assume "d < 0x80"
  then have d: "unat d < 128" "(ucast d :: u32) < 0x80" by (simp_all add: word_less_nat_alt)
  have dd: "ucast (ucast d :: u32) = d" by (simp add: word_unat_eq_iff unat_narrow [OF d(2)])
  show "zStop info c d \<longleftrightarrow> same_char (noCase info) c (ucast d)"
    using assms d unfolding zStop_def same_char_def sqlite3Tolower_def dd
    by (auto simp: word_unat_eq_iff unat_Toupper unat_lower unat_lower_narrow [OF assms] unat_narrow [OF assms] split: if_splits)
qed

lemma skip_wild_matches:
  assumes "ucast (matchOne info) \<noteq> other" "matchAll info \<noteq> matchOne info"
  shows "case skip_wild info p s of
     None \<Rightarrow> \<not> matches nc (Any # elements info other (codes p)) (codes s)
   | Some (p', s') \<Rightarrow> matches nc (Any # elements info other (codes p)) (codes s)
        = matches nc (Any # elements info other (codes p')) (codes s')
      \<and> (codes p' = [] \<or> hd (codes p') \<noteq> ucast (matchAll info) \<and> hd (codes p') \<noteq> ucast (matchOne info))"
  using assms
proof (induction info p s rule: skip_wild.induct)
  case (1 info p s)
  obtain c q where r: "sqlite3Utf8Read p = (c, q)" by fastforce
  obtain d t where r2: "sqlite3Utf8Read s = (d, t)" by fastforce
  note unfold = skip_wild.simps [of info p s]
  show ?case
  proof (cases "c \<noteq> 0 \<and> (c = ucast (matchAll info) \<or> c = ucast (matchOne info) \<and> matchOne info \<noteq> 0)")
    case False
    then have "skip_wild info p s = Some (p, s)" using r by (auto simp: unfold Utf8Read_eq)
    moreover have "ucast (matchOne info) = (0 :: u32) \<longleftrightarrow> matchOne info = 0" by (simp add: word_unat_eq_iff)
    ultimately show ?thesis using False by (auto simp: codes_read [OF r])
  next
    case wild: True
    then have c: "c \<noteq> 0" by simp
    have ne: "ucast (matchAll info) \<noteq> (ucast (matchOne info) :: u32)"
      using 1(4) by (simp add: word_unat_eq_iff)
    show ?thesis
    proof (cases "c = ucast (matchAll info)")
      case True
      then show ?thesis
        using 1(2) [OF r [unfolded Utf8Read_eq [symmetric], symmetric] wild] 1(3,4) wild ne r
        by (auto simp: unfold Utf8Read_eq codes_read [OF r] matches_Any_Any split: option.splits)
    next
      case False
      then have one: "c = ucast (matchOne info)" using wild by simp
      have e: "elements info other (codes p) = One # elements info other (codes q)"
        using one False c 1(3) by (auto simp: codes_read [OF r])
      show ?thesis
      proof (cases "d = 0")
        case True
        then show ?thesis using wild one r r2 by (simp add: unfold Utf8Read_eq e codes_read [OF r2] matches_Any_Nil)
      next
        case False
        then show ?thesis
          using 1(1) [OF r [unfolded Utf8Read_eq [symmetric], symmetric] wild one r2 [symmetric]] 1(3,4) wild one r r2
          by (auto simp: unfold Utf8Read_eq e codes_read [OF r2] matches_Any_One split: option.splits)
      qed
    qed
  qed
qed

section \<open>The matcher decides\<close>

lemma tells_verdict: "tells nc (verdict (matches nc (Any # p) s)) (Any # p) s"
  using matches_Any_drop [of nc p _ s] by (auto simp: tells_def verdict_def match_defs)

lemma tells_no: "\<not> matches nc p s \<Longrightarrow> tells nc SQLITE_NOMATCH p s"
  by (simp add: tells_def match_defs)

lemma tells_Cons:
  assumes "tells nc r p s" "e \<noteq> Any" "element_matches nc e c"
  shows "tells nc r (e # p) (c # s)"
  using assms matches_prefix [of nc p s e _ c] unfolding tells_def by (cases e) auto

lemma single_not_Nil: "e \<noteq> Any \<Longrightarrow> \<not> matches nc (e # p) []"
  by (cases e) auto

lemma single_mismatch: "e \<noteq> Any \<Longrightarrow> \<not> element_matches nc e c \<Longrightarrow> \<not> matches nc (e # p) (c # s)"
  by (cases e) auto

lemma set_of_not_Any: "set_of p = (e, r) \<Longrightarrow> e \<noteq> Any"
  by (auto simp: set_of_def Let_def split: option.splits)

lemma after_wild:
  assumes info: "ucast (matchOne info) \<noteq> other" "matchAll info \<noteq> matchOne info"
    and w: "skip_wild info p1 s = Some (p2, s2)"
    and r: "sqlite3Utf8Read p2 = (c, p3)" "c \<noteq> 0"
  shows "c = other \<and> matchSet info \<noteq> 0 \<Longrightarrow> \<exists>e r. e \<noteq> Any \<and> elements info other (codes p2) = e # r"
    "\<not> (c = other \<and> matchSet info \<noteq> 0) \<Longrightarrow> (if c = other then sqlite3Utf8Read p3 else (c, p3)) = (d, p4) \<Longrightarrow>
       elements info other (codes p2) = (if d = 0 then [Malformed] else Char d # elements info other (codes p4))"
proof -
  have h: "c \<noteq> ucast (matchAll info)" "c \<noteq> ucast (matchOne info)" "codes p2 = c # codes p3"
    using skip_wild_matches [OF info, where p = p1 and s = s] w codes_read [OF r(1)] r(2) by auto
  show "c = other \<and> matchSet info \<noteq> 0 \<Longrightarrow> \<exists>e r. e \<noteq> Any \<and> elements info other (codes p2) = e # r"
    using h set_of_not_Any by (cases "set_of (codes p3)") auto
  assume "\<not> (c = other \<and> matchSet info \<noteq> 0)" "(if c = other then sqlite3Utf8Read p3 else (c, p3)) = (d, p4)"
  then show "elements info other (codes p2) = (if d = 0 then [Malformed] else Char d # elements info other (codes p4))"
    using h r(2) codes_read [of p3 d p4] by (auto split: if_splits)
qed

lemma search_literal:
  assumes "decides (noCase info) f p" "d \<noteq> 0"
  shows "(if d < 0x80 then search_byte (zStop info d) f s else search_char d f s)
    = verdict (matches (noCase info) (Any # Char d # p) (codes s))"
proof (cases "d < 0x80")
  case True
  have "search_byte (zStop info d) f s = verdict (matches (noCase info) (Any # Char d # p) (codes s))"
    by (rule search_byte_verdict [OF assms(1) True]) (rule zStop_same [OF True]; assumption)+
  then show ?thesis using True by simp
next
  case False
  then have "same_char (noCase info) d x \<longleftrightarrow> d = x" for x by (auto simp: same_char_def)
  then show ?thesis using search_char_verdict [OF assms(1), of d s] False by simp
qed

text \<open>The code after the wildcards have been skipped, with a rest \<open>p2\<close> of the pattern that is not empty.\<close>
lemma search_verdict:
  assumes info: "ucast (matchOne info) \<noteq> other" "matchAll info \<noteq> matchOne info"
    and w: "skip_wild info p1 s = Some (p2, s2)"
    and r: "sqlite3Utf8Read p2 = (d, p3)" "d \<noteq> 0"
    and r3: "(if d = other then sqlite3Utf8Read p3 else (d, p3)) = (e, p4)"
    and IH: "\<And>q. length q \<le> length p2 \<Longrightarrow>
      decides (noCase info) (patternCompare info other None q) (elements info other (codes q))"
  shows "(if d = other \<and> matchSet info \<noteq> 0 then search_set (patternCompare info other None p2) s2
     else if e = 0 then SQLITE_NOWILDCARDMATCH
     else if e < 0x80 then search_byte (zStop info e) (patternCompare info other None p4) s2
     else search_char e (patternCompare info other None p4) s2)
    = verdict (matches (noCase info) (Any # elements info other (codes p2)) (codes s2))"
proof (cases "d = other \<and> matchSet info \<noteq> 0")
  case True
  then obtain x y where xy: "x \<noteq> Any" "elements info other (codes p2) = x # y"
    using after_wild(1) [OF info w r] by blast
  have "decides (noCase info) (patternCompare info other None p2) (x # y)" using IH [of p2] xy(2) by simp
  then have "search_set (patternCompare info other None p2) s2 = verdict (matches (noCase info) (Any # x # y) (codes s2))"
    using xy(1) by (rule search_set_verdict)
  then show ?thesis using True xy(2) by simp
next
  case False
  have P2: "elements info other (codes p2) = (if e = 0 then [Malformed] else Char e # elements info other (codes p4))"
    by (rule after_wild(2) [OF info w r False r3])
  show ?thesis
  proof (cases "e = 0")
    case True
    have "\<not> matches (noCase info) [Malformed] t" for t by (cases t) auto
    then show ?thesis using True False P2 no_suffix(1) [of "noCase info" "[Malformed]" "codes s2"]
      by (auto simp: verdict_def)
  next
    case e: False
    have "length p4 \<le> length p2"
      using literal_length [OF r3 [symmetric]] Utf8Read_le [OF r(1) [symmetric]] by simp
    from search_literal [OF IH [OF this] e, of s2] show ?thesis using e False P2 by auto
  qed
qed

lemma star_tells:
  assumes info: "ucast (matchOne info) \<noteq> other" "matchAll info \<noteq> matchOne info"
    and r: "sqlite3Utf8Read p = (c, p1)" "c \<noteq> 0" "c = ucast (matchAll info)"
    and IH: "\<And>q. length q < length p \<Longrightarrow>
      decides (noCase info) (patternCompare info other None q) (elements info other (codes q))"
  shows "tells (noCase info) (patternCompare info other zEscaped p s) (elements info other (codes p)) (codes s)"
proof -
  let ?P = "elements info other (codes p1)"
  have P: "elements info other (codes p) = Any # ?P" using r(2,3) by (simp add: codes_read [OF r(1)])
  note wild = skip_wild_matches [OF info, where p = p1 and s = s and nc = "noCase info"]
  note unfold = patternCompare.simps [of info other zEscaped p s]
  have "patternCompare info other zEscaped p s = verdict (matches (noCase info) (Any # ?P) (codes s))"
  proof (cases "skip_wild info p1 s")
    case None
    then show ?thesis using wild r by (simp add: unfold Utf8Read_eq verdict_def)
  next
    case (Some pair)
    then obtain p2 s2 where w: "skip_wild info p1 s = Some (p2, s2)" by (cases pair) auto
    obtain d p3 where r2: "sqlite3Utf8Read p2 = (d, p3)" by fastforce
    obtain e p4 where r3: "(if d = other then sqlite3Utf8Read p3 else (d, p3)) = (e, p4)" by fastforce
    have m: "matches (noCase info) (Any # ?P) (codes s)
        = matches (noCase info) (Any # elements info other (codes p2)) (codes s2)"
      using wild w by simp
    show ?thesis
    proof (cases "d = 0")
      case True
      then have "matches (noCase info) (Any # elements info other (codes p2)) (codes s2)"
        by (auto simp: codes_read [OF r2] matches_Any)
      then show ?thesis using True r w r2 unfolding m by (simp add: unfold Utf8Read_eq verdict_def)
    next
      case False
      have "length p2 < length p"
        using skip_wild_length [OF w] Utf8Read_shorter [OF r(1,2)] by simp
      note v = search_verdict [OF info w r2 False r3 IH [OF le_less_trans [OF _ this]]]
      show ?thesis using r w r2 r3 False v [symmetric] unfolding m
        by (simp add: unfold Utf8Read_eq r3 split del: if_split cong: if_cong)
    qed
  qed
  then show ?thesis unfolding P using tells_verdict by simp
qed

lemma set_tells:
  assumes r: "sqlite3Utf8Read p = (c, p1)" "c \<noteq> 0" "c \<noteq> ucast (matchAll info)" "c = other" "matchSet info \<noteq> 0"
    and IH: "\<And>q s. length q < length p \<Longrightarrow>
      tells (noCase info) (patternCompare info other zEscaped q s) (elements info other (codes q)) (codes s)"
  shows "tells (noCase info) (patternCompare info other zEscaped p s) (elements info other (codes p)) (codes s)"
proof -
  obtain d s1 where r2: "sqlite3Utf8Read s = (d, s1)" by fastforce
  obtain e q where so: "set_of (codes p1) = (e, q)" by fastforce
  have e: "e \<noteq> Any" by (rule set_of_not_Any [OF so])
  have P: "elements info other (codes p) = e # elements info other q"
    using r so by (simp add: codes_read [OF r(1)])
  obtain ok p2 where sm: "set_match d p1 = (ok, p2)" by fastforce
  have ok: "ok = element_matches (noCase info) e d" "ok \<Longrightarrow> codes p2 = q"
    using set_match_set_of [where p = p1 and c = d] so sm by (auto split: element.splits)
  have step: "patternCompare info other zEscaped p s
      = (if d = 0 \<or> \<not> ok then SQLITE_NOMATCH else patternCompare info other zEscaped p2 s1)"
    using r r2 sm by (subst patternCompare.simps) (simp add: Utf8Read_eq)
  show ?thesis
  proof (cases "d = 0 \<or> \<not> ok")
    case True
    then have "\<not> matches (noCase info) (e # elements info other q) (codes s)"
      using e ok(1) single_not_Nil single_mismatch by (auto simp: codes_read [OF r2])
    then show ?thesis using True step P tells_no by simp
  next
    case False
    have "length p2 < length p" using set_match_length [OF sm] Utf8Read_shorter [OF r(1,2)] by simp
    from tells_Cons [OF IH [OF this, of s1] e, of d] show ?thesis
      using False step P ok by (simp add: codes_read [OF r2])
  qed
qed

lemma same_char_0: "same_char nc c 0 \<longleftrightarrow> c = 0"
proof -
  have "c = 0" if "c < 0x80" "ucast c = (0 :: u8)"
    using that unat_narrow [OF that(1)] by (simp add: word_unat_eq_iff)
  then show ?thesis by (auto simp: same_char_def sqlite3Tolower_def)
qed

lemma single_tells:
  assumes info: "ucast (matchOne info) \<noteq> other"
    and r: "sqlite3Utf8Read p = (c, p1)" "c \<noteq> 0" "c \<noteq> ucast (matchAll info)" "\<not> (c = other \<and> matchSet info \<noteq> 0)"
    and esc: "\<And>n. zEscaped = Some n \<Longrightarrow> length p \<le> n"
    and IH: "\<And>q s z. length q < length p \<Longrightarrow> (\<And>n. z = Some n \<Longrightarrow> length q \<le> n) \<Longrightarrow>
      tells (noCase info) (patternCompare info other z q s) (elements info other (codes q)) (codes s)"
  shows "tells (noCase info) (patternCompare info other zEscaped p s) (elements info other (codes p)) (codes s)"
proof -
  obtain c' p2 where l: "(if c = other then sqlite3Utf8Read p1 else (c, p1)) = (c', p2)" by fastforce
  obtain d s1 where r2: "sqlite3Utf8Read s = (d, s1)" by fastforce
  have len: "length p2 < length p"
    using literal_length [OF l [symmetric]] Utf8Read_shorter [OF r(1,2)] by simp
  define z where "z = (if c = other then Some (length p2) else zEscaped)"
  have z: "z = Some (length p2) \<longleftrightarrow> c = other" "\<And>n. z = Some n \<Longrightarrow> length p2 \<le> n"
    using len esc by (auto simp: z_def split: if_splits)
  have step: "patternCompare info other zEscaped p s = (if c' = 0 then SQLITE_NOMATCH
      else if char_match info (c = other) c' d then patternCompare info other z p2 s1 else SQLITE_NOMATCH)"
    using r l r2 z(1) by (subst patternCompare.simps) (auto simp: Utf8Read_eq z_def [symmetric] Let_def)
  show ?thesis
  proof (cases "c' = 0")
    case True
    then have "elements info other (codes p) = [Malformed]"
      using r l codes_read [of p1 c' p2] by (auto simp: codes_read [OF r(1)] split: if_splits)
    then show ?thesis using True step tells_no [of _ "[Malformed]" "codes s"] by (cases "codes s") auto
  next
    case False
    define e where "e = (if c \<noteq> other \<and> c = ucast (matchOne info) then One else Char c')"
    have P: "elements info other (codes p) = e # elements info other (codes p2)"
      using r l False codes_read [of p1 c' p2] by (auto simp: e_def codes_read [OF r(1)] split: if_splits)
    have m: "char_match info (c = other) c' d \<longleftrightarrow> d \<noteq> 0 \<and> element_matches (noCase info) e d"
      using False r l same_char_0 [of "noCase info" c'] by (auto simp: char_match_def e_def same_char_def split: if_splits)
    have e: "e \<noteq> Any" by (simp add: e_def)
    show ?thesis
    proof (cases "char_match info (c = other) c' d")
      case True
      have "tells (noCase info) (patternCompare info other z p2 s1) (elements info other (codes p2)) (codes s1)"
        by (rule IH [OF len z(2)])
      from tells_Cons [OF this e, of d] show ?thesis using True m step False P
        by (simp add: codes_read [OF r2])
    next
      case no: False
      then have "\<not> matches (noCase info) (e # elements info other (codes p2)) (codes s)"
        using e m single_not_Nil single_mismatch by (auto simp: codes_read [OF r2])
      then show ?thesis using no step P tells_no False by simp
    qed
  qed
qed

lemma patternCompare_tells:
  assumes info: "ucast (matchOne info) \<noteq> other" "matchAll info \<noteq> matchOne info"
    and "\<And>n. zEscaped = Some n \<Longrightarrow> length p \<le> n"
  shows "tells (noCase info) (patternCompare info other zEscaped p s) (elements info other (codes p)) (codes s)"
  using assms(3)
proof (induction "length p" arbitrary: p s zEscaped rule: less_induct)
  case less
  obtain c p1 where r: "sqlite3Utf8Read p = (c, p1)" by fastforce
  have IH: "decides (noCase info) (patternCompare info other None q) (elements info other (codes q))"
    if "length q < length p" for q
    unfolding decides_def by (intro allI less(1) [OF that]) simp
  consider "c = 0" | "c \<noteq> 0" "c = ucast (matchAll info)"
    | "c \<noteq> 0" "c \<noteq> ucast (matchAll info)" "c = other" "matchSet info \<noteq> 0"
    | "c \<noteq> 0" "c \<noteq> ucast (matchAll info)" "\<not> (c = other \<and> matchSet info \<noteq> 0)" by blast
  then show ?case
  proof cases
    case 1
    then show ?thesis using r
      by (subst patternCompare.simps) (simp add: Utf8Read_eq codes_read [OF r] codes_empty tells_def match_defs)
  next
    case 2
    then show ?thesis by (rule star_tells [OF info r _ _ IH])
  next
    case 3
    show ?thesis by (rule set_tells [OF r 3]) (rule less(1), assumption, use less(2) in fastforce)
  next
    case 4
    show ?thesis by (rule single_tells [OF info(1) r 4 less(2)]) (assumption, rule less(1))
  qed
qed

section \<open>LIKE\<close>

text \<open>
  The pattern language of \<open>LIKE\<close>: a character after the escape character stands for itself, and
  the escape character comes before the two wildcards.
\<close>
fun like_elements :: "u32 option \<Rightarrow> u32 list \<Rightarrow> element list" where
  "like_elements esc [] = []"
| "like_elements esc (c # p) =
     (if esc = Some c then case p of [] \<Rightarrow> [Malformed] | d # r \<Rightarrow> Char d # like_elements esc r
      else (if c = 0x25 then Any else if c = 0x5f then One else Char c) # like_elements esc p)"

text \<open>The escape character a call of the SQL function gives, when it gives a valid one or none.\<close>
definition escape_char :: "bytes option option \<Rightarrow> u32 option \<Rightarrow> bool" where
  "escape_char zEsc esc \<longleftrightarrow>
     zEsc = None \<and> esc = None
     \<or> (\<exists>z. zEsc = Some (Some z) \<and> sqlite3Utf8CharLen z (-1) = 1 \<and> esc = Some (fst (sqlite3Utf8Read z)))"

lemma codes_nonzero: "0 \<notin> set (codes z)"
proof (induction z rule: codes.induct)
  case (1 z)
  then show ?case by (cases "sqlite3Utf8Read z") (auto simp: codes_read)
qed

lemma CharLen_first: "sqlite3Utf8CharLen z (-1) = 1 \<Longrightarrow> fst (sqlite3Utf8Read z) \<noteq> 0"
  by (auto simp: sqlite3Utf8CharLen_def charLen_loop.simps [of z] read_zero)

lemma elements_like:
  assumes "0 \<notin> set cs" "matchSet info = 0" "esc \<noteq> Some 0"
    and "matchAll info = (if esc = Some 0x25 then 0 else 0x25)"
    and "matchOne info = (if esc = Some 0x5f then 0 else 0x5f)"
  shows "elements info (case esc of None \<Rightarrow> 0 | Some e \<Rightarrow> e) cs = like_elements esc cs"
  using assms(1)
proof (induction cs rule: induct_list012)
  case (2 c)
  then show ?case using assms(2-5) by (auto split: option.split)
next
  case (3 c d r)
  then have IH: "elements info (case esc of None \<Rightarrow> 0 | Some e \<Rightarrow> e) r = like_elements esc r"
    "elements info (case esc of None \<Rightarrow> 0 | Some e \<Rightarrow> e) (d # r) = like_elements esc (d # r)" by simp_all
  have nz: "c \<noteq> 0" "d \<noteq> 0" using 3(3) by auto
  show ?case
  proof (cases "esc = Some c")
    case True
    then show ?thesis using nz IH(1) assms(2-5) by auto
  next
    case False
    then have "elements info (case esc of None \<Rightarrow> 0 | Some e \<Rightarrow> e) (c # d # r)
      = (if c = 0x25 then Any else if c = 0x5f then One else Char c) # elements info (case esc of None \<Rightarrow> 0 | Some e \<Rightarrow> e) (d # r)"
      using nz assms(2-5) by (auto split: option.split simp del: elements.simps(2) simp: elements.simps(2) [of _ _ c])
    then show ?thesis using IH(2) False by simp
  qed
qed simp

lemma matcher_correct:
  assumes "ucast (matchOne info) \<noteq> other" "matchAll info \<noteq> matchOne info"
  shows "like_result info other (Some p) (Some s)
    = ResultInt (of_bool (matches (noCase info) (elements info other (codes p)) (codes s)))"
  using patternCompare_tells [OF assms, of None p s] by (simp add: tells_def like_result_def)

lemma escape_info_like:
  assumes "info \<in> {likeInfoNorm, likeInfoAlt}" "e \<noteq> 0"
  shows "matchSet (escape_info info e) = 0" "noCase (escape_info info e) = noCase info"
    "matchAll (escape_info info e) = (if e = 0x25 then 0 else 0x25)"
    "matchOne (escape_info info e) = (if e = 0x5f then 0 else 0x5f)"
  using assms by (auto simp: escape_info_def likeInfoNorm_def likeInfoAlt_def)

lemma like_info:
  assumes "info \<in> {likeInfoNorm, likeInfoAlt}"
  shows "matchSet info = 0" "matchAll info = 0x25" "matchOne info = 0x5f"
  using assms by (auto simp: likeInfoNorm_def likeInfoAlt_def)

lemma likeFunc_elements:
  assumes info: "info \<in> {likeInfoNorm, likeInfoAlt}" and "int (length p) \<le> limit" and esc: "escape_char zEsc esc"
  shows "likeFunc info limit (Some p) (Some s) zEsc
    = ResultInt (of_bool (matches (noCase info) (like_elements esc (codes p)) (codes s)))"
proof (cases zEsc)
  case None
  then have "esc = None" using esc by (simp add: escape_char_def)
  then show ?thesis using None assms(2) like_info [OF info]
      elements_like [OF codes_nonzero, of info None p] matcher_correct [of info 0 p s]
    by (simp add: likeFunc_def value_bytes_def)
next
  case (Some z)
  then obtain z' where z: "zEsc = Some (Some z')" "sqlite3Utf8CharLen z' (-1) = 1" "esc = Some (fst (sqlite3Utf8Read z'))"
    using esc by (auto simp: escape_char_def)
  define e where "e = fst (sqlite3Utf8Read z')"
  have e: "e \<noteq> 0" using CharLen_first [OF z(2)] by (simp add: e_def)
  note i = escape_info_like [OF info e]
  have "elements (escape_info info e) e (codes p) = like_elements (Some e) (codes p)"
    using elements_like [OF codes_nonzero i(1), of "Some e" p] i(3,4) e by simp
  moreover have "ucast (matchOne (escape_info info e)) \<noteq> e" using e by (auto simp: i)
  ultimately show ?thesis using z(1,2) assms(2) matcher_correct [of "escape_info info e" e p s]
    by (simp add: likeFunc_def value_bytes_def i(2-4) z(3) Let_def flip: e_def)
qed

text \<open>
  C23. The SQL function \<open>like(p, s)\<close> or \<open>like(p, s, e)\<close> on a pattern within the length limit gives 1
  exactly when the documented meaning of the pattern holds of the string: \<open>%\<close> any sequence, \<open>_\<close> one
  character, and the character after the escape itself, also when the escape is \<open>%\<close> or \<open>_\<close>.
\<close>
theorem likeFunc_meaning:
  assumes "info \<in> {likeInfoNorm, likeInfoAlt}" "int (length p) \<le> limit" "escape_char zEsc esc"
  shows "likeFunc info limit (Some p) (Some s) zEsc
    = ResultInt (of_bool (matches (noCase info) (like_elements esc (codes p)) (codes s)))"
  by (rule likeFunc_elements [OF assms])

lemma escape_char_backslash: "escape_char (Some (Some [0x5c])) (Some 0x5c)"
  by (simp add: escape_char_def sqlite3Utf8CharLen_def charLen_loop.simps read_ascii SQLITE_SKIP_UTF8_def)

theorem likeFunc_meaning_witness:
  "likeFunc likeInfoNorm 50000 (Some [0x25, 0x5c, 0x25]) (Some [0x35, 0x25]) (Some (Some [0x5c])) = ResultInt 1
   \<and> likeFunc likeInfoNorm 50000 (Some [0x25, 0x5c, 0x25]) (Some [0x35, 0x35]) (Some (Some [0x5c])) = ResultInt 0"
  using likeFunc_meaning [of likeInfoNorm "[0x25, 0x5c, 0x25]" 50000 _ _ "[0x35, 0x25]", OF _ _ escape_char_backslash]
    likeFunc_meaning [of likeInfoNorm "[0x25, 0x5c, 0x25]" 50000 _ _ "[0x35, 0x35]", OF _ _ escape_char_backslash]
  by (simp add: codes_ascii same_char_def sqlite3Tolower_def sqlite3UpperToLower_def matches_Any_Cons matches_Any_Nil)

text \<open>The text written as a pattern that stands for itself.\<close>
definition like_quote :: "u32 \<Rightarrow> u32 list \<Rightarrow> u32 list" where
  "like_quote e cs = concat (map (\<lambda>c. if c = 0x25 \<or> c = 0x5f \<or> c = e then [e, c] else [c]) cs)"

lemma like_quote_elements: "like_elements (Some e) (like_quote e cs) = map Char cs"
  by (induction cs) (auto simp: like_quote_def)

lemma matches_chars: "matches nc (map Char cs) s \<longleftrightarrow> list_all2 (same_char nc) cs s"
proof (induction cs arbitrary: s)
  case (Cons c cs)
  then show ?case by (cases s) auto
qed simp

text \<open>The pattern language of \<open>GLOB\<close>: two wildcards and sets, every other character itself.\<close>
function glob_elements :: "u32 list \<Rightarrow> element list" where
  "glob_elements [] = []"
| "glob_elements (c # p) =
     (if c = 0x2a then Any # glob_elements p
      else if c = 0x3f then One # glob_elements p
      else if c = 0x5b then case set_of p of (e, r) \<Rightarrow> e # glob_elements r
      else Char c # glob_elements p)"
  by pat_completeness auto
termination
  by (relation "measure length") (auto simp: le_imp_less_Suc dest: set_of_length [OF sym])

lemma elements_glob: "elements globInfo 0x5b cs = glob_elements cs"
proof (induction cs rule: glob_elements.induct)
  case (2 c p)
  then show ?case by (cases "set_of p") (auto simp: globInfo_def)
qed simp

lemma elements_strlike:
  assumes "e \<noteq> 0x5f"
  shows "elements likeInfoNorm e (codes p) = like_elements (if e = 0 \<or> e = 0x25 then None else Some e) (codes p)"
proof (cases "e = 0x25")
  case True
  have "elements likeInfoNorm 0x25 cs = elements likeInfoNorm 0 cs" if "0 \<notin> set cs" for cs
    using that by (induction cs) (auto simp: likeInfoNorm_def)
  then show ?thesis
    using True codes_nonzero [of p] elements_like [OF codes_nonzero, of likeInfoNorm None p] by (simp add: likeInfoNorm_def)
next
  case False
  then show ?thesis using assms elements_like [OF codes_nonzero, of likeInfoNorm "if e = 0 then None else Some e" p]
    by (auto simp: likeInfoNorm_def split: if_splits)
qed

lemma strlike_elements:
  assumes "e \<noteq> 0x5f"
  shows "sqlite3_strlike (Some p) (Some s) e = SQLITE_MATCH
    \<longleftrightarrow> matches True (like_elements (if e = 0 \<or> e = 0x25 then None else Some e) (codes p)) (codes s)"
proof -
  have "ucast (matchOne likeInfoNorm) \<noteq> e" "matchAll likeInfoNorm \<noteq> matchOne likeInfoNorm" "noCase likeInfoNorm"
    using assms by (auto simp: likeInfoNorm_def)
  then show ?thesis
    using patternCompare_tells [of likeInfoNorm e None p s] elements_strlike [OF assms, of p] by (simp add: tells_def)
qed

lemma strglob_elements:
  "sqlite3_strglob (Some p) (Some s) = SQLITE_MATCH \<longleftrightarrow> matches False (glob_elements (codes p)) (codes s)"
  using patternCompare_tells [of globInfo "0x5b" None p s] by (simp add: tells_def elements_glob) (simp add: globInfo_def)

text \<open>
  C22. The public interfaces of the matcher.  \<open>sqlite3_strglob\<close> answers \<open>SQLITE_MATCH\<close> for a pattern and a
  string exactly when the elements of the \<open>GLOB\<close> pattern (\<open>*\<close>, \<open>?\<close>, sets with ranges, inverted
  sets, literal characters, a set that is not closed) match the characters of the string, and
  \<open>sqlite3_strlike\<close> with an escape character other than the two wildcards \<open>%\<close> and \<open>_\<close> exactly
  when those of the \<open>LIKE\<close> pattern do, up to the case of ASCII letters; the escape character 0 stands
  for none.  The byte search after a wildcard, the early exit on \<open>SQLITE_NOWILDCARDMATCH\<close> and the
  handling of escapes change nothing of that.  A null pointer matches a null pointer only.
\<close>
theorem strglob_strlike_correct:
  assumes "e \<noteq> 0x25" "e \<noteq> 0x5f"
  shows "(sqlite3_strglob (Some p) (Some s) = SQLITE_MATCH \<longleftrightarrow> matches False (glob_elements (codes p)) (codes s))
    \<and> (sqlite3_strlike (Some p) (Some s) e = SQLITE_MATCH
        \<longleftrightarrow> matches True (like_elements (if e = 0 then None else Some e) (codes p)) (codes s))
    \<and> (x = None \<or> y = None \<longrightarrow>
        (sqlite3_strglob x y = SQLITE_MATCH \<longleftrightarrow> x = y) \<and> (sqlite3_strlike x y e = SQLITE_MATCH \<longleftrightarrow> x = y))"
proof (intro conjI)
  show "sqlite3_strglob (Some p) (Some s) = SQLITE_MATCH \<longleftrightarrow> matches False (glob_elements (codes p)) (codes s)"
    by (rule strglob_elements)
  show "sqlite3_strlike (Some p) (Some s) e = SQLITE_MATCH
      \<longleftrightarrow> matches True (like_elements (if e = 0 then None else Some e) (codes p)) (codes s)"
    using strlike_elements [OF assms(2), of p s] assms(1) by simp
  show "x = None \<or> y = None \<longrightarrow>
      (sqlite3_strglob x y = SQLITE_MATCH \<longleftrightarrow> x = y) \<and> (sqlite3_strlike x y e = SQLITE_MATCH \<longleftrightarrow> x = y)"
    by (cases x; cases y) (simp_all add: SQLITE_MATCH_def)
qed

theorem strglob_strlike_correct_witness:
  "sqlite3_strglob (Some [0x61, 0x2a, 0x5b, 0x62, 0x2d, 0x64, 0x5d, 0x3f]) (Some [0x61, 0x78, 0x63, 0x7a]) = SQLITE_MATCH
   \<and> sqlite3_strglob (Some [0x61, 0x2a, 0x5b, 0x62, 0x2d, 0x64, 0x5d, 0x3f]) (Some [0x61, 0x78, 0x78, 0x7a]) \<noteq> SQLITE_MATCH
   \<and> sqlite3_strlike (Some [0x25, 0x5c, 0x5f]) (Some [0x61, 0x5f]) 0x5c = SQLITE_MATCH
   \<and> sqlite3_strlike (Some [0x25, 0x5c, 0x5f]) (Some [0x61, 0x61]) 0x5c \<noteq> SQLITE_MATCH
   \<and> sqlite3_strlike None (Some []) 0 \<noteq> SQLITE_MATCH"
proof -
  have "(0x5c :: u32) \<noteq> 0x25" "(0x5c :: u32) \<noteq> 0x5f" "(0 :: u32) \<noteq> 0x25" "(0 :: u32) \<noteq> 0x5f" by simp_all
  note m = conjunct1 [OF strglob_strlike_correct [OF this(1,2)]]
      conjunct1 [OF conjunct2 [OF strglob_strlike_correct [OF this(1,2)]]]
    and n = conjunct2 [OF conjunct2 [OF strglob_strlike_correct [OF this(3,4), of _ _ None "Some []"]]]
  show ?thesis unfolding m using n
    by (simp add: codes_ascii set_of_def same_char_def sqlite3Tolower_def sqlite3UpperToLower_def matches_Any_Cons matches_Any_Nil)
qed

text \<open>
  With a wildcard for the escape character \<open>sqlite3_strlike\<close> does not follow the rule that the escape
  makes the next character literal, which the SQL function keeps.  With \<open>%\<close> there is no escape at all;
  with \<open>_\<close> an escaped character is not found after a \<open>%\<close>.
\<close>
lemma strlike_escape_percent:
  "sqlite3_strlike (Some p) (Some s) 0x25 = SQLITE_MATCH \<longleftrightarrow> matches True (like_elements None (codes p)) (codes s)"
  using strlike_elements [of "0x25" p s] by simp

lemma escape_char_ascii: "b \<noteq> 0 \<Longrightarrow> b < 0x80 \<Longrightarrow> escape_char (Some (Some [b])) (Some (ucast b))"
  by (simp add: escape_char_def sqlite3Utf8CharLen_def charLen_loop.simps read_ascii SQLITE_SKIP_UTF8_def)

lemma strlike_escape_percent_differs:
  "sqlite3_strlike (Some [0x25, 0x25]) (Some [0x61]) 0x25 = SQLITE_MATCH"
  "likeFunc likeInfoNorm 50000 (Some [0x25, 0x25]) (Some [0x61]) (Some (Some [0x25])) = ResultInt 0"
proof -
  show "sqlite3_strlike (Some [0x25, 0x25]) (Some [0x61]) 0x25 = SQLITE_MATCH"
    unfolding strlike_escape_percent by (simp add: codes_ascii matches_Any_Cons matches_Any_Nil)
  show "likeFunc likeInfoNorm 50000 (Some [0x25, 0x25]) (Some [0x61]) (Some (Some [0x25])) = ResultInt 0"
    using likeFunc_elements [of likeInfoNorm "[0x25, 0x25]" 50000 _ _ "[0x61]", OF _ _ escape_char_ascii [of "0x25"]]
    by (simp add: codes_ascii same_char_def sqlite3Tolower_def sqlite3UpperToLower_def)
qed

lemma strlike_escape_underscore_differs:
  "sqlite3_strlike (Some [0x25, 0x5f, 0x5f]) (Some [0x5f]) 0x5f \<noteq> SQLITE_MATCH"
  "likeFunc likeInfoNorm 50000 (Some [0x25, 0x5f, 0x5f]) (Some [0x5f]) (Some (Some [0x5f])) = ResultInt 1"
proof -
  show "sqlite3_strlike (Some [0x25, 0x5f, 0x5f]) (Some [0x5f]) 0x5f \<noteq> SQLITE_MATCH"
    by (simp add: patternCompare.simps skip_wild.simps Utf8Read_def sqlite3Utf8Read_def likeInfoNorm_def match_defs)
  show "likeFunc likeInfoNorm 50000 (Some [0x25, 0x5f, 0x5f]) (Some [0x5f]) (Some (Some [0x5f])) = ResultInt 1"
    using likeFunc_elements [of likeInfoNorm "[0x25, 0x5f, 0x5f]" 50000 _ _ "[0x5f]", OF _ _ escape_char_ascii [of "0x5f"]]
    by (simp add: codes_ascii matches_Any_Cons matches_Any_Nil same_char_def)
qed

text \<open>
  C24. A text in which the wildcards and the escape character are escaped is a pattern that matches
  exactly the strings with the same characters, up to the case of ASCII letters for the default
  \<open>LIKE\<close>.
\<close>
theorem like_quote_exact:
  assumes "info \<in> {likeInfoNorm, likeInfoAlt}" "int (length p) \<le> limit" "escape_char zEsc (Some e)"
    and "codes p = like_quote e (codes t)"
  shows "likeFunc info limit (Some p) (Some s) zEsc
    = ResultInt (of_bool (list_all2 (same_char (noCase info)) (codes t) (codes s)))"
  by (simp add: likeFunc_elements [OF assms(1-3)] assms(4) like_quote_elements matches_chars)

theorem like_quote_exact_witness:
  "likeFunc likeInfoAlt 50000 (Some [0x61, 0x5c, 0x25]) (Some [0x61, 0x25]) (Some (Some [0x5c])) = ResultInt 1"
  using like_quote_exact [of likeInfoAlt "[0x61, 0x5c, 0x25]" 50000 _ _ "[0x61, 0x25]" "[0x61, 0x25]", OF _ _ escape_char_backslash]
  by (simp add: codes_ascii like_quote_def same_char_def)

text \<open>
  The error results of the function, and the absence of a result on \<open>NULL\<close> arguments; the check
  of the length comes first.
\<close>
lemma likeFunc_errors:
  "likeFunc info limit zB zA zEsc = PatternTooComplex \<longleftrightarrow> limit < value_bytes zB"
  "likeFunc info limit zB zA zEsc = EscapeNotSingle
    \<longleftrightarrow> value_bytes zB \<le> limit \<and> (\<exists>z. zEsc = Some (Some z) \<and> sqlite3Utf8CharLen z (-1) \<noteq> 1)"
  "value_bytes zB \<le> limit \<Longrightarrow> zEsc = Some None \<or> zEsc = None \<and> (zA = None \<or> zB = None) \<Longrightarrow>
     likeFunc info limit zB zA zEsc = ResultNone"
  by (auto simp: likeFunc_def like_result_def Let_def split: option.splits)

end
