(* ===== verification/Mem_Journal.thy ===== *)
theory Mem_Journal
  imports Alloc
begin

text \<open>
  The in-memory rollback journal (\<open>src/db/sqlite3.c\<close>, \<open>memjournal.c\<close>) and the file-method wrappers of
  \<open>os.c\<close> it uses.  A journal is a list of chunks with an end point and a cursor of the last read; it
  may spill to a file of the underlying VFS.  The theorems show that it is a byte string with the
  operations of a file, under every pattern of allocation failures, and that spilling moves that
  string to the file or leaves the journal as it was.
\<close>

section \<open>The underlying file system\<close>

text \<open>
  The VFS is a table of function pointers: here a record of functions on a world \<open>'w\<close> and handles \<open>'f\<close>.
  A failed \<open>xOpen\<close> may leave no handle (\<open>pMethods\<close> is zero).
\<close>
record ('f, 'w) vfs =
  xOpen :: "bytes option \<Rightarrow> u32 \<Rightarrow> 'w \<Rightarrow> nat \<times> 'f option \<times> 'w"
  xWrite :: "'f \<Rightarrow> bytes \<Rightarrow> nat \<Rightarrow> 'w \<Rightarrow> nat \<times> 'w"
  xRead :: "'f \<Rightarrow> nat \<Rightarrow> nat \<Rightarrow> 'w \<Rightarrow> nat \<times> bytes"
  xTruncate :: "'f \<Rightarrow> nat \<Rightarrow> 'w \<Rightarrow> nat \<times> 'w"
  xFileSize :: "'f \<Rightarrow> 'w \<Rightarrow> nat \<times> nat"
  xSync :: "'f \<Rightarrow> nat \<Rightarrow> 'w \<Rightarrow> nat \<times> 'w"
  xClose :: "'f \<Rightarrow> 'w \<Rightarrow> 'w"

definition SQLITE_IOERR_SHORT_READ :: nat where "SQLITE_IOERR_SHORT_READ = 10 + 2 * 256"
definition SQLITE_IOERR_NOMEM :: nat where "SQLITE_IOERR_NOMEM = 10 + 12 * 256"

lemmas rc_defs = SQLITE_OK_def SQLITE_IOERR_SHORT_READ_def SQLITE_IOERR_NOMEM_def

definition sqlite3OsOpen :: "('f, 'w) vfs \<Rightarrow> bytes option \<Rightarrow> u32 \<Rightarrow> 'w \<Rightarrow> nat \<times> 'f option \<times> 'w" where
  "sqlite3OsOpen pVfs zPath flags w = xOpen pVfs zPath (flags AND 0x1087f7f) w"

section \<open>The journal\<close>

text \<open>
  A chunk is its \<open>nChunkSize\<close> bytes, and the linked list of chunks is a list; a pointer to a chunk is
  its position in the list, \<open>None\<close> the null pointer.  Offsets are natural numbers.
\<close>
record FilePoint =
  iOffset :: nat
  pChunk :: "nat option"

record MemJournal =
  nChunkSize :: nat
  nSpill :: int
  pFirst :: "bytes list"
  endpoint :: FilePoint
  readpoint :: FilePoint
  jrnl_flags :: u32
  zJournal :: "bytes option"

text \<open>
  A dereferenced null pointer, a division by zero or a copy past the end of a chunk is the result \<open>None\<close>.  The bytes of a fresh
  block are arbitrary: the argument \<open>junk\<close>.
\<close>
definition MEMJOURNAL_DFLT_FILECHUNKSIZE :: nat where "MEMJOURNAL_DFLT_FILECHUNKSIZE = 1024"

definition fresh_chunk :: "(nat \<Rightarrow> u8) \<Rightarrow> nat \<Rightarrow> bytes" where
  "fresh_chunk junk n = map junk [0..<n]"

definition patch :: "nat \<Rightarrow> bytes \<Rightarrow> bytes \<Rightarrow> bytes" where
  "patch off b z = take off z @ b @ drop (off + length b) z"

fun memjrnlFreeChunks :: "bytes list \<Rightarrow> allocator \<Rightarrow> allocator" where
  "memjrnlFreeChunks [] al = al"
| "memjrnlFreeChunks (pIter # pNext) al = memjrnlFreeChunks pNext (free_block al)"

text \<open>The search for the chunk of an offset in \<open>memjrnlRead\<close>; the result is past the end when no chunk is left.\<close>
function find_chunk :: "MemJournal \<Rightarrow> nat \<Rightarrow> nat \<Rightarrow> nat \<Rightarrow> nat" where
  "find_chunk p i iOff iOfst =
     (if i < length (pFirst p) \<and> iOff + nChunkSize p \<le> iOfst
      then find_chunk p (Suc i) (iOff + nChunkSize p) iOfst else i)"
  by pat_completeness auto
termination
  by (relation "measure (\<lambda>(p, i, iOff, iOfst). length (pFirst p) - i)") auto

declare find_chunk.simps [simp del]

text \<open>The copy loop of \<open>memjrnlRead\<close>: the bytes and the chunk the read ends in.\<close>
function read_loop :: "nat \<Rightarrow> bytes list \<Rightarrow> nat \<Rightarrow> nat \<Rightarrow> int \<Rightarrow> (bytes \<times> nat option) option" where
  "read_loop n chunks i iChunkOffset nRead =
     (if i \<ge> length chunks then None
      else
        let iSpace = int n - int iChunkOffset;
            nCopy = min nRead iSpace;
            out = take (nat nCopy) (drop iChunkOffset (chunks ! i));
            nRead = nRead - iSpace
        in if nRead < 0 then Some (out, Some i)
           else if Suc i \<ge> length chunks then Some (out, None)
           else if nRead = 0 then Some (out, Some (Suc i))
           else map_option (\<lambda>(rest, q). (out @ rest, q)) (read_loop n chunks (Suc i) 0 nRead))"
  by pat_completeness auto
termination
  by (relation "measure (\<lambda>(n, chunks, i, off, nRead). length chunks - i)") auto

declare read_loop.simps [simp del]

definition memjrnlRead :: "MemJournal \<Rightarrow> nat \<Rightarrow> nat \<Rightarrow> (nat \<times> bytes \<times> MemJournal) option" where
  "memjrnlRead p iAmt iOfst =
     (if iAmt + iOfst > iOffset (endpoint p) then Some (SQLITE_IOERR_SHORT_READ, [], p)
      else if nChunkSize p = 0 then None
      else
        let start = (if iOffset (readpoint p) \<noteq> iOfst \<or> iOfst = 0 then Some (find_chunk p 0 0 iOfst)
                     else pChunk (readpoint p))
        in case start of
             None \<Rightarrow> None
           | Some i \<Rightarrow>
               case read_loop (nChunkSize p) (pFirst p) i (iOfst mod nChunkSize p) (int iAmt) of
                 None \<Rightarrow> None
               | Some (out, q) \<Rightarrow>
                   Some (SQLITE_OK, out,
                     p\<lparr>readpoint := \<lparr>iOffset = (if q = None then 0 else iOfst + iAmt), pChunk = q\<rparr>\<rparr>))"

text \<open>The loop of \<open>memjrnlTruncate\<close> that finds the last chunk to keep.\<close>
function last_kept :: "MemJournal \<Rightarrow> nat \<Rightarrow> nat \<Rightarrow> nat \<Rightarrow> nat" where
  "last_kept p i iOff sz =
     (if i < length (pFirst p) \<and> iOff < sz then last_kept p (Suc i) (iOff + nChunkSize p) sz else i)"
  by pat_completeness auto
termination
  by (relation "measure (\<lambda>(p, i, iOff, sz). length (pFirst p) - i)") auto

declare last_kept.simps [simp del]

definition memjrnlTruncate :: "MemJournal \<Rightarrow> nat \<Rightarrow> allocator \<Rightarrow> nat \<times> MemJournal \<times> allocator" where
  "memjrnlTruncate p sz al =
     (if sz < iOffset (endpoint p) then
        let (q, chunks, al) =
          (if sz = 0 then (None, [], memjrnlFreeChunks (pFirst p) al)
           else let i = last_kept p 0 (nChunkSize p) sz in
             if i < length (pFirst p)
             then (Some i, take (Suc i) (pFirst p), memjrnlFreeChunks (drop (Suc i) (pFirst p)) al)
             else (None, pFirst p, al))
        in (SQLITE_OK,
            p\<lparr>pFirst := chunks, endpoint := \<lparr>iOffset = sz, pChunk = q\<rparr>,
              readpoint := \<lparr>iOffset = 0, pChunk = None\<rparr>\<rparr>, al)
      else (SQLITE_OK, p, al))"

text \<open>A new chunk at the end of the list, when the end point is at a chunk boundary.\<close>
definition new_chunk :: "(nat \<Rightarrow> u8) \<Rightarrow> MemJournal \<Rightarrow> allocator \<Rightarrow> bool \<times> MemJournal \<times> allocator" where
  "new_chunk junk p al =
     (case alloc_block al of (ok, al) \<Rightarrow>
        if \<not> ok then (False, p, al)
        else
          let kept = (case pChunk (endpoint p) of None \<Rightarrow> [] | Some i \<Rightarrow> take (Suc i) (pFirst p))
          in (True, p\<lparr>pFirst := kept @ [fresh_chunk junk (nChunkSize p)],
                endpoint := (endpoint p)\<lparr>pChunk := Some (length kept)\<rparr>\<rparr>, al))"

text \<open>The append loop of \<open>memjrnlWrite\<close>.\<close>
function append_loop ::
  "(nat \<Rightarrow> u8) \<Rightarrow> MemJournal \<Rightarrow> bytes \<Rightarrow> allocator \<Rightarrow> (nat \<times> MemJournal \<times> allocator) option" where
  "append_loop junk p zWrite al =
     (if zWrite = [] then Some (SQLITE_OK, p, al)
      else if nChunkSize p = 0 then None
      else
        let iChunkOffset = iOffset (endpoint p) mod nChunkSize p;
            iSpace = min (length zWrite) (nChunkSize p - iChunkOffset)
        in case (if iChunkOffset = 0 then new_chunk junk p al else (True, p, al)) of (ok, p, al) \<Rightarrow>
           if \<not> ok then Some (SQLITE_IOERR_NOMEM, p, al)
           else case pChunk (endpoint p) of
             None \<Rightarrow> None
           | Some i \<Rightarrow>
               append_loop junk
                 (p\<lparr>pFirst := (pFirst p)[i := patch iChunkOffset (take iSpace zWrite) (pFirst p ! i)],
                    endpoint := (endpoint p)\<lparr>iOffset := iOffset (endpoint p) + iSpace\<rparr>\<rparr>)
                 (drop iSpace zWrite) al)"
  by pat_completeness auto
termination
  by (relation "measure (\<lambda>(junk, p, zWrite, al). length zWrite)") auto

declare append_loop.simps [simp del]

text \<open>The branch of \<open>memjrnlWrite\<close> that keeps the journal in memory.\<close>
definition write_memory ::
  "(nat \<Rightarrow> u8) \<Rightarrow> MemJournal \<Rightarrow> bytes \<Rightarrow> nat \<Rightarrow> allocator \<Rightarrow> (nat \<times> MemJournal \<times> allocator) option" where
  "write_memory junk p zBuf iOfst al =
     (case (if iOfst > 0 \<and> iOfst \<noteq> iOffset (endpoint p) then snd (memjrnlTruncate p iOfst al) else (p, al)) of
        (p, al) \<Rightarrow>
          if iOfst = 0 \<and> pFirst p \<noteq> []
          then if nChunkSize p < length zBuf then None
            else Some (SQLITE_OK, p\<lparr>pFirst := (pFirst p)[0 := patch 0 zBuf (pFirst p ! 0)]\<rparr>, al)
          else append_loop junk p zBuf al)"

section \<open>Spilling to a file\<close>

text \<open>A file handle: no methods, the methods of this module, or those of the VFS.\<close>
datatype 'f sqlite3_file = Blank | InMemory MemJournal | Real 'f

fun create_loop :: "('f, 'w) vfs \<Rightarrow> 'f \<Rightarrow> nat \<Rightarrow> nat \<Rightarrow> nat \<Rightarrow> bytes list \<Rightarrow> 'w \<Rightarrow> nat \<times> 'w" where
  "create_loop pVfs f nChunk iOff end_off [] w = (SQLITE_OK, w)"
| "create_loop pVfs f nChunk iOff end_off (pIter # pNext) w =
     (let nChunk = (if iOff + nChunk > end_off then end_off - iOff else nChunk) in
      case xWrite pVfs f (take nChunk pIter) iOff w of (rc, w) \<Rightarrow>
        if rc \<noteq> SQLITE_OK then (rc, w)
        else create_loop pVfs f nChunk (iOff + nChunk) end_off pNext w)"

definition close_handle :: "('f, 'w) vfs \<Rightarrow> 'f option \<Rightarrow> 'w \<Rightarrow> 'w" where
  "close_handle pVfs f w = (case f of None \<Rightarrow> w | Some f \<Rightarrow> xClose pVfs f w)"

definition memjrnlCreateFile ::
  "('f, 'w) vfs \<Rightarrow> MemJournal \<Rightarrow> allocator \<Rightarrow> 'w \<Rightarrow> (nat \<times> 'f sqlite3_file \<times> allocator \<times> 'w) option" where
  "memjrnlCreateFile pVfs p al w =
     (case sqlite3OsOpen pVfs (zJournal p) (jrnl_flags p) w of (rc, f, w) \<Rightarrow>
        if rc \<noteq> SQLITE_OK then Some (rc, InMemory p, al, close_handle pVfs f w)
        else case f of
          None \<Rightarrow> if pFirst p = [] then Some (rc, Blank, al, w) else None
        | Some h \<Rightarrow>
            case create_loop pVfs h (nChunkSize p) 0 (iOffset (endpoint p)) (pFirst p) w of (rc, w) \<Rightarrow>
              if rc = SQLITE_OK then Some (rc, Real h, memjrnlFreeChunks (pFirst p) al, w)
              else Some (rc, InMemory p, al, close_handle pVfs f w))"

definition memjrnlWrite ::
  "('f, 'w) vfs \<Rightarrow> (nat \<Rightarrow> u8) \<Rightarrow> MemJournal \<Rightarrow> bytes \<Rightarrow> nat \<Rightarrow> allocator \<Rightarrow> 'w
     \<Rightarrow> (nat \<times> 'f sqlite3_file \<times> allocator \<times> 'w) option" where
  "memjrnlWrite pVfs junk p zBuf iOfst al w =
     (if nSpill p > 0 \<and> int (length zBuf + iOfst) > nSpill p then
        case memjrnlCreateFile pVfs p al w of
          None \<Rightarrow> None
        | Some (rc, h, al, w) \<Rightarrow>
            if rc \<noteq> SQLITE_OK then Some (rc, h, al, w)
            else case h of
              Real f \<Rightarrow> (case xWrite pVfs f zBuf iOfst w of (rc, w) \<Rightarrow> Some (rc, h, al, w))
            | _ \<Rightarrow> None
      else map_option (\<lambda>(rc, p, al). (rc, InMemory p, al, w)) (write_memory junk p zBuf iOfst al))"

definition memjrnlClose :: "MemJournal \<Rightarrow> allocator \<Rightarrow> nat \<times> allocator" where
  "memjrnlClose p al = (SQLITE_OK, memjrnlFreeChunks (pFirst p) al)"

definition memjrnlSync :: "MemJournal \<Rightarrow> nat" where
  "memjrnlSync p = SQLITE_OK"

definition memjrnlFileSize :: "MemJournal \<Rightarrow> nat \<times> nat" where
  "memjrnlFileSize p = (SQLITE_OK, iOffset (endpoint p))"

definition zero_journal :: MemJournal where
  "zero_journal = \<lparr>nChunkSize = 0, nSpill = 0, pFirst = [], endpoint = \<lparr>iOffset = 0, pChunk = None\<rparr>,
     readpoint = \<lparr>iOffset = 0, pChunk = None\<rparr>, jrnl_flags = 0, zJournal = None\<rparr>"

text \<open>\<open>sizeof(FileChunk)\<close> is 16 on a machine with 8-byte pointers.\<close>
definition sqlite3JournalOpen ::
  "('f, 'w) vfs \<Rightarrow> bytes option \<Rightarrow> u32 \<Rightarrow> int \<Rightarrow> 'w \<Rightarrow> nat \<times> 'f sqlite3_file \<times> 'w" where
  "sqlite3JournalOpen pVfs zName flags spill w =
     (if spill = 0 then
        case sqlite3OsOpen pVfs zName flags w of (rc, f, w) \<Rightarrow>
          (rc, case f of None \<Rightarrow> Blank | Some f \<Rightarrow> Real f, w)
      else (SQLITE_OK,
        InMemory (zero_journal
          \<lparr>nChunkSize := (if spill > 0 then nat spill else 8 + MEMJOURNAL_DFLT_FILECHUNKSIZE - 16),
           nSpill := spill, jrnl_flags := flags, zJournal := zName\<rparr>), w))"

definition sqlite3MemJournalOpen :: "('f, 'w) vfs \<Rightarrow> 'w \<Rightarrow> nat \<times> 'f sqlite3_file \<times> 'w" where
  "sqlite3MemJournalOpen pVfs w = sqlite3JournalOpen pVfs None 0 (-1) w"

fun sqlite3JournalIsInMemory :: "'f sqlite3_file \<Rightarrow> bool" where
  "sqlite3JournalIsInMemory (InMemory p) = True"
| "sqlite3JournalIsInMemory _ = False"

text \<open>The wrappers of \<open>os.c\<close> on a handle; a call through missing methods is a fault.\<close>
definition sqlite3OsWrite ::
  "('f, 'w) vfs \<Rightarrow> (nat \<Rightarrow> u8) \<Rightarrow> 'f sqlite3_file \<Rightarrow> bytes \<Rightarrow> nat \<Rightarrow> allocator \<Rightarrow> 'w
     \<Rightarrow> (nat \<times> 'f sqlite3_file \<times> allocator \<times> 'w) option" where
  "sqlite3OsWrite pVfs junk fd pBuf offset al w =
     (case fd of
        Blank \<Rightarrow> None
      | InMemory p \<Rightarrow> memjrnlWrite pVfs junk p pBuf offset al w
      | Real f \<Rightarrow> (case xWrite pVfs f pBuf offset w of (rc, w) \<Rightarrow> Some (rc, fd, al, w)))"

definition sqlite3OsRead ::
  "('f, 'w) vfs \<Rightarrow> 'f sqlite3_file \<Rightarrow> nat \<Rightarrow> nat \<Rightarrow> 'w \<Rightarrow> (nat \<times> bytes \<times> 'f sqlite3_file) option" where
  "sqlite3OsRead pVfs fd amt offset w =
     (case fd of
        Blank \<Rightarrow> None
      | InMemory p \<Rightarrow> map_option (\<lambda>(rc, out, p). (rc, out, InMemory p)) (memjrnlRead p amt offset)
      | Real f \<Rightarrow> (case xRead pVfs f amt offset w of (rc, out) \<Rightarrow> Some (rc, out, fd)))"

definition sqlite3OsTruncate ::
  "('f, 'w) vfs \<Rightarrow> 'f sqlite3_file \<Rightarrow> nat \<Rightarrow> allocator \<Rightarrow> 'w
     \<Rightarrow> (nat \<times> 'f sqlite3_file \<times> allocator \<times> 'w) option" where
  "sqlite3OsTruncate pVfs fd sz al w =
     (case fd of
        Blank \<Rightarrow> None
      | InMemory p \<Rightarrow> (case memjrnlTruncate p sz al of (rc, p, al) \<Rightarrow> Some (rc, InMemory p, al, w))
      | Real f \<Rightarrow> (case xTruncate pVfs f sz w of (rc, w) \<Rightarrow> Some (rc, fd, al, w)))"

definition sqlite3OsFileSize :: "('f, 'w) vfs \<Rightarrow> 'f sqlite3_file \<Rightarrow> 'w \<Rightarrow> (nat \<times> nat) option" where
  "sqlite3OsFileSize pVfs fd w =
     (case fd of Blank \<Rightarrow> None | InMemory p \<Rightarrow> Some (memjrnlFileSize p) | Real f \<Rightarrow> Some (xFileSize pVfs f w))"

definition sqlite3OsSync :: "('f, 'w) vfs \<Rightarrow> 'f sqlite3_file \<Rightarrow> nat \<Rightarrow> 'w \<Rightarrow> (nat \<times> 'w) option" where
  "sqlite3OsSync pVfs fd flags w =
     (if flags = 0 then Some (SQLITE_OK, w)
      else case fd of Blank \<Rightarrow> None | InMemory p \<Rightarrow> Some (memjrnlSync p, w) | Real f \<Rightarrow> Some (xSync pVfs f flags w))"

definition sqlite3OsClose ::
  "('f, 'w) vfs \<Rightarrow> 'f sqlite3_file \<Rightarrow> allocator \<Rightarrow> 'w \<Rightarrow> 'f sqlite3_file \<times> allocator \<times> 'w" where
  "sqlite3OsClose pVfs fd al w =
     (case fd of
        Blank \<Rightarrow> (Blank, al, w)
      | InMemory p \<Rightarrow> (Blank, snd (memjrnlClose p al), w)
      | Real f \<Rightarrow> (Blank, al, xClose pVfs f w))"

section \<open>Chunks as a byte string\<close>

definition uniform :: "nat \<Rightarrow> bytes list \<Rightarrow> bool" where
  "uniform n xs \<longleftrightarrow> (\<forall>c \<in> set xs. length c = n)"

lemma uniform_simps [simp]:
  "uniform n []" "uniform n (c # xs) \<longleftrightarrow> length c = n \<and> uniform n xs"
  "uniform n (xs @ ys) \<longleftrightarrow> uniform n xs \<and> uniform n ys"
  by (auto simp: uniform_def)

lemma uniform_take: "uniform n xs \<Longrightarrow> uniform n (take k xs)"
  by (auto simp: uniform_def dest: in_set_takeD)

lemma concat_uniform: "uniform n xs \<Longrightarrow> length (concat xs) = n * length xs"
  by (induction xs) auto

lemma drop_concat_uniform: "uniform n xs \<Longrightarrow> drop (i * n) (concat xs) = concat (drop i xs)"
proof (induction xs arbitrary: i)
  case (Cons c xs)
  then show ?case by (cases i) auto
qed simp

lemma take_concat_uniform: "uniform n xs \<Longrightarrow> take (i * n) (concat xs) = concat (take i xs)"
proof (induction xs arbitrary: i)
  case (Cons c xs)
  then show ?case by (cases i) auto
qed simp

text \<open>The journal's invariant and the byte string it holds.\<close>
definition points :: "nat \<Rightarrow> nat \<Rightarrow> nat \<Rightarrow> FilePoint \<Rightarrow> bool" where
  "points cs len n rp \<longleftrightarrow> iOffset rp \<noteq> 0 \<longrightarrow>
     iOffset rp \<le> n \<and> pChunk rp = Some (iOffset rp div cs) \<and> iOffset rp div cs < len"

definition jinv :: "MemJournal \<Rightarrow> bool" where
  "jinv p \<longleftrightarrow> (let n = iOffset (endpoint p); cs = nChunkSize p; xs = pFirst p in
     0 < cs \<and> uniform cs xs \<and> n \<le> cs * length xs \<and> (xs \<noteq> [] \<longrightarrow> cs * (length xs - 1) < n)
     \<and> pChunk (endpoint p) = (if xs = [] then None else Some (length xs - 1))
     \<and> points cs (length xs) n (readpoint p))"

definition jcontent :: "MemJournal \<Rightarrow> bytes" where
  "jcontent p = take (iOffset (endpoint p)) (concat (pFirst p))"

lemma jcontent_length: "jinv p \<Longrightarrow> length (jcontent p) = iOffset (endpoint p)"
  by (auto simp: jinv_def jcontent_def Let_def concat_uniform)

lemma jcontent_empty: "jinv p \<Longrightarrow> jcontent p = [] \<longleftrightarrow> pFirst p = []"
proof -
  assume inv: "jinv p"
  then have "jcontent p = [] \<longleftrightarrow> iOffset (endpoint p) = 0" using jcontent_length by (metis length_0_conv)
  then show ?thesis using inv by (auto simp: jinv_def Let_def)
qed

lemma find_chunk_eq:
  assumes "0 < nChunkSize p" "i * nChunkSize p \<le> ofst" "i \<le> length (pFirst p)"
  shows "find_chunk p i (i * nChunkSize p) ofst = min (ofst div nChunkSize p) (length (pFirst p))"
  using assms
proof (induction "length (pFirst p) - i" arbitrary: i)
  case 0
  then have "i \<le> ofst div nChunkSize p" by (simp add: less_eq_div_iff_mult_less_eq)
  then show ?case using 0 by (simp add: find_chunk.simps)
next
  case (Suc k)
  then have i: "i < length (pFirst p)" by simp
  show ?case
  proof (cases "Suc i * nChunkSize p \<le> ofst")
    case True
    then show ?thesis using Suc(1) [of "Suc i"] Suc(2-) i by (subst find_chunk.simps) (simp add: add.commute)
  next
    case False
    then have "ofst div nChunkSize p = i"
      using Suc(3,4) by (intro div_nat_eqI) (simp_all add: mult.commute)
    then show ?thesis using False Suc(5) by (subst find_chunk.simps) (simp add: add.commute)
  qed
qed

text \<open>The chunk a read that ends at \<open>e\<close> leaves in the cursor.\<close>
definition cursor :: "nat \<Rightarrow> nat \<Rightarrow> nat \<Rightarrow> nat option" where
  "cursor cs len e = (if e div cs < len then Some (e div cs) else None)"

lemma read_loop_eq:
  assumes "uniform cs xs" "i < length xs" "off < cs" "0 \<le> nRead" "nat nRead + off \<le> cs * (length xs - i)"
  shows "read_loop cs xs i off nRead
    = Some (take (nat nRead) (drop off (concat (drop i xs))), cursor cs (length xs) (i * cs + off + nat nRead))"
  using assms(2-)
proof (induction "length xs - i" arbitrary: i off nRead rule: less_induct)
  case less
  define m where "m = cs - off"
  have m: "int cs - int off = int m" "0 < m" "m \<le> cs" using less(3) by (auto simp: m_def)
  obtain c ys where xs: "drop i xs = c # ys" "xs ! i = c" "length c = cs" "ys = drop (Suc i) xs"
    using less(2) assms(1) by (simp add: Cons_nth_drop_Suc [symmetric] uniform_def)
  have piece: "take (nat (min nRead (int m))) (drop off c) = take (nat nRead) (drop off c)"
    using xs(3) by (simp add: m_def min_def)
  show ?case
  proof (cases "nRead < int m")
    case True
    have "(i * cs + off + nat nRead) div cs = i"
      using True less(3) by (intro div_nat_eqI) (auto simp: m_def algebra_simps)
    then show ?thesis using True less(2,3) xs m piece
      by (subst read_loop.simps) (simp add: cursor_def Let_def)
  next
    case False
    define r where "r = nat nRead - m"
    have r: "nRead - int m = int r" "nat nRead = m + r" using False m by (auto simp: r_def)
    have e: "i * cs + off + nat nRead = Suc i * cs + r" using r(2) less(3) by (simp add: m_def)
    have out: "take (nat nRead) (drop off (concat (drop i xs))) = drop off c @ take r (concat ys)"
      using xs r(2) less(3) by (simp add: m_def)
    show ?thesis
    proof (cases "r = 0 \<or> length xs \<le> Suc i")
      case True
      have "length xs - i = 1" if "length xs \<le> Suc i" using less(2) that by simp
      then have "r = 0" using True less(3,5) r(2) by (auto simp: m_def)
      then show ?thesis using less(2) xs m r False out piece unfolding e
        by (subst read_loop.simps) (auto simp: cursor_def)
    next
      case no: False
      have "r \<le> cs * (length xs - Suc i)"
        using less(2,5) e by (simp add: algebra_simps diff_mult_distrib2)
      then have "read_loop cs xs (Suc i) 0 (int r) = Some (take r (concat ys), cursor cs (length xs) (Suc i * cs + r))"
        using less(1) [of "Suc i" 0 "int r"] diff_less_mono2 [OF lessI less(2)] no m xs(4) by simp
      then show ?thesis using less(2) xs m r False out piece no unfolding e
        by (subst read_loop.simps) simp
    qed
  qed
qed

lemma memjrnlRead_correct:
  assumes inv: "jinv p" and "0 < amt" "amt + ofst \<le> length (jcontent p)"
  shows "\<exists>p'. memjrnlRead p amt ofst = Some (SQLITE_OK, take amt (drop ofst (jcontent p)), p')
    \<and> jinv p' \<and> jcontent p' = jcontent p
    \<and> pFirst p' = pFirst p \<and> nSpill p' = nSpill p \<and> nChunkSize p' = nChunkSize p"
proof -
  define cs where "cs = nChunkSize p"
  define xs where "xs = pFirst p"
  define i where "i = ofst div cs"
  define q where "q = cursor cs (length xs) (ofst + amt)"
  have fit: "amt + ofst \<le> iOffset (endpoint p)" using assms jcontent_length by simp
  have I: "0 < cs" "uniform cs xs" "iOffset (endpoint p) \<le> cs * length xs" "points cs (length xs) (iOffset (endpoint p)) (readpoint p)"
    using inv by (simp_all add: jinv_def Let_def cs_def xs_def)
  have at: "i * cs + ofst mod cs = ofst" by (simp add: i_def)
  have "ofst < cs * length xs" using fit I(3) assms(2) by simp
  then have i: "i < length xs" using I(1) by (simp add: i_def less_mult_imp_div_less mult.commute)
  have room: "nat (int amt) + ofst mod cs \<le> cs * (length xs - i)"
    using fit I(3) at by (simp add: diff_mult_distrib2 mult.commute)
  have start: "(if iOffset (readpoint p) \<noteq> ofst \<or> ofst = 0 then Some (find_chunk p 0 0 ofst) else pChunk (readpoint p)) = Some i"
    using find_chunk_eq [of p 0 ofst] I i by (auto simp: i_def points_def simp flip: cs_def xs_def)
  have out: "take amt (drop (ofst mod cs) (concat (drop i xs))) = take amt (drop ofst (jcontent p))"
  proof -
    have "drop ofst (concat xs) = drop (ofst mod cs) (concat (drop i xs))"
      by (metis drop_concat_uniform [OF I(2)] at drop_drop add.commute)
    then show ?thesis using fit by (simp add: jcontent_def drop_take flip: xs_def)
  qed
  let ?p = "p\<lparr>readpoint := \<lparr>iOffset = (if q = None then 0 else ofst + amt), pChunk = q\<rparr>\<rparr>"
  have "memjrnlRead p amt ofst = Some (SQLITE_OK, take amt (drop ofst (jcontent p)), ?p)"
    using read_loop_eq [OF I(2) i mod_less_divisor [OF I(1)] _ room] start fit I(1) out at
    by (simp add: memjrnlRead_def Let_def q_def flip: cs_def xs_def)
  moreover have "jinv ?p" using inv fit
    by (auto simp: jinv_def Let_def points_def q_def cursor_def simp flip: cs_def xs_def)
  ultimately show ?thesis by (auto simp: jcontent_def)
qed

lemma memjrnlRead_short:
  "jinv p \<Longrightarrow> length (jcontent p) < amt + ofst \<Longrightarrow> memjrnlRead p amt ofst = Some (SQLITE_IOERR_SHORT_READ, [], p)"
  by (simp add: memjrnlRead_def jcontent_length)

section \<open>Truncation\<close>

lemma last_kept_eq:
  assumes "0 < nChunkSize p" "i * nChunkSize p < sz" "sz \<le> nChunkSize p * length (pFirst p)"
  shows "last_kept p i (Suc i * nChunkSize p) sz = (sz - 1) div nChunkSize p"
  using assms(2)
proof (induction "length (pFirst p) - i" arbitrary: i)
  case 0
  then have "nChunkSize p * length (pFirst p) \<le> nChunkSize p * i" by (intro mult_le_mono2) simp
  then have False using 0(2) assms(3) unfolding mult.commute [of i] by linarith
  then show ?case ..
next
  case (Suc k)
  then have i: "i < length (pFirst p)" by simp
  show ?case
  proof (cases "Suc i * nChunkSize p < sz")
    case True
    then show ?thesis using Suc(1) [of "Suc i"] Suc(2) i by (subst last_kept.simps) (simp add: ac_simps)
  next
    case False
    then have "(sz - 1) div nChunkSize p = i"
      using Suc(3) assms(1) by (intro div_nat_eqI) (auto simp: mult.commute)
    then show ?thesis using False i by (subst last_kept.simps) simp
  qed
qed

lemma live_free_chunks: "live (memjrnlFreeChunks xs al) = live al - length xs"
  by (induction xs arbitrary: al) auto

lemma plenty_free_chunks [simp]: "plenty (memjrnlFreeChunks xs al) = plenty al"
  by (induction xs arbitrary: al) auto

lemma memjrnlTruncate_correct:
  assumes inv: "jinv p" and t: "memjrnlTruncate p sz al = (rc, p', al')"
  shows "rc = SQLITE_OK" "jinv p'" "jcontent p' = take sz (jcontent p)"
    "live al' = live al - (length (pFirst p) - length (pFirst p'))" "length (pFirst p') \<le> length (pFirst p)"
    "plenty al' = plenty al" "nChunkSize p' = nChunkSize p" "nSpill p' = nSpill p"
proof -
  define cs where "cs = nChunkSize p"
  define xs where "xs = pFirst p"
  have I: "0 < cs" "uniform cs xs" "iOffset (endpoint p) \<le> cs * length xs"
    using inv by (simp_all add: jinv_def Let_def cs_def xs_def)
  define i where "i = (sz - 1) div cs"
  have "rc = SQLITE_OK \<and> jinv p' \<and> jcontent p' = take sz (jcontent p)
    \<and> live al' = live al - (length xs - length (pFirst p')) \<and> length (pFirst p') \<le> length xs
    \<and> plenty al' = plenty al \<and> nChunkSize p' = cs \<and> nSpill p' = nSpill p"
  proof (cases "sz < iOffset (endpoint p)")
    case False
    then show ?thesis using t inv jcontent_length [OF inv] by (auto simp: memjrnlTruncate_def cs_def xs_def)
  next
    case True
    show ?thesis
    proof (cases "sz = 0")
      case zero: True
      then show ?thesis using t True I
        by (auto simp: memjrnlTruncate_def jinv_def jcontent_def points_def live_free_chunks xs_def cs_def)
    next
      case False
      have kept: "last_kept p 0 cs sz = i"
        using last_kept_eq [of p 0 sz] I True False by (simp add: i_def flip: cs_def xs_def)
      have "sz \<le> cs * length xs" using True I(3) by simp
      then have "sz - 1 < length xs * cs" using False by (simp add: mult.commute)
      then have i: "i < length xs" using I(1) by (simp add: i_def less_mult_imp_div_less)
      have b: "cs * i < sz" "sz \<le> cs * Suc i"
        using mult_div_mod_eq [of cs "sz - 1"] mod_less_divisor [OF I(1), of "sz - 1"] False
        unfolding i_def [symmetric] by simp_all
      have p': "p' = p\<lparr>pFirst := take (Suc i) xs, endpoint := \<lparr>iOffset = sz, pChunk = Some i\<rparr>,
          readpoint := \<lparr>iOffset = 0, pChunk = None\<rparr>\<rparr>" "al' = memjrnlFreeChunks (drop (Suc i) xs) al" "rc = SQLITE_OK"
        using t True False kept i by (simp_all add: memjrnlTruncate_def Let_def flip: cs_def xs_def)
      have "take sz (concat (take (Suc i) xs)) = take sz (concat xs)"
        using b(2) unfolding take_concat_uniform [OF I(2), symmetric] by (simp add: mult.commute min_absorb1)
      then show ?thesis using i b True I(1) uniform_take [OF I(2)]
        by (auto simp: p' jinv_def jcontent_def points_def Let_def live_free_chunks simp flip: cs_def xs_def)
    qed
  qed
  then show "rc = SQLITE_OK" "jinv p'" "jcontent p' = take sz (jcontent p)"
    "live al' = live al - (length (pFirst p) - length (pFirst p'))" "length (pFirst p') \<le> length (pFirst p)"
    "plenty al' = plenty al" "nChunkSize p' = nChunkSize p" "nSpill p' = nSpill p"
    by (simp_all add: cs_def xs_def)
qed

section \<open>Writing\<close>

text \<open>The fields an append leaves alone.\<close>
definition config :: "MemJournal \<Rightarrow> nat \<times> int \<times> FilePoint \<times> u32 \<times> bytes option" where
  "config p = (nChunkSize p, nSpill p, readpoint p, jrnl_flags p, zJournal p)"

text \<open>The chunk list up to the chunk a write goes to.\<close>
definition at_end :: "MemJournal \<Rightarrow> bytes list \<Rightarrow> bytes \<Rightarrow> bool" where
  "at_end p ys c \<longleftrightarrow> (let cs = nChunkSize p; n = iOffset (endpoint p) in
     0 < cs \<and> pFirst p = ys @ [c] \<and> uniform cs ys \<and> length c = cs \<and> n = cs * length ys + n mod cs
     \<and> pChunk (endpoint p) = Some (length ys) \<and> points cs (Suc (length ys)) n (readpoint p))"

lemma points_mono: "points cs len n rp \<Longrightarrow> len \<le> len' \<Longrightarrow> n \<le> n' \<Longrightarrow> points cs len' n' rp"
  by (auto simp: points_def)

lemma full_or_inside:
  assumes "jinv p"
  shows "iOffset (endpoint p) mod nChunkSize p = 0 \<Longrightarrow> iOffset (endpoint p) = nChunkSize p * length (pFirst p)"
    "iOffset (endpoint p) mod nChunkSize p \<noteq> 0 \<Longrightarrow> \<exists>ys c. at_end p ys c"
proof -
  let ?n = "iOffset (endpoint p)" and ?cs = "nChunkSize p"
  have I: "0 < ?cs" "?n \<le> ?cs * length (pFirst p)" "pFirst p \<noteq> [] \<longrightarrow> ?cs * (length (pFirst p) - 1) < ?n"
    using assms by (simp_all add: jinv_def Let_def)
  show "?n = ?cs * length (pFirst p)" if z: "?n mod ?cs = 0"
  proof (cases "pFirst p = []")
    case False
    obtain k where k: "?n = ?cs * k" using z by auto
    then have "k \<le> length (pFirst p)" "length (pFirst p) - 1 < k" using I False by simp_all
    then show ?thesis using k by (simp add: le_antisym)
  qed (use I in simp)
  show "\<exists>ys c. at_end p ys c" if nz: "?n mod ?cs \<noteq> 0"
  proof -
    have "pFirst p \<noteq> []" using nz I(2) by auto
    then obtain ys c where xs: "pFirst p = ys @ [c]" by (metis append_butlast_last_id)
    have "?n div ?cs = length ys"
    proof (rule div_nat_eqI)
      show "?cs * length ys \<le> ?n" using I(3) xs by simp
      have "?n \<noteq> ?cs * Suc (length ys)" using nz by (metis mod_mult_self1_is_0)
      then show "?n < ?cs * Suc (length ys)" using I(2) xs by simp
    qed
    then have "?n = ?cs * length ys + ?n mod ?cs" by (metis mult_div_mod_eq)
    then show ?thesis using assms xs by (auto simp: jinv_def at_end_def Let_def)
  qed
qed

lemma new_chunk_at_end:
  assumes inv: "jinv p" and z: "iOffset (endpoint p) mod nChunkSize p = 0"
    and e: "new_chunk junk p al = (True, p', al')"
  shows "at_end p' (pFirst p) (fresh_chunk junk (nChunkSize p))" "live al' = Suc (live al)"
    "p' = p\<lparr>pFirst := pFirst p @ [fresh_chunk junk (nChunkSize p)], endpoint := endpoint p'\<rparr>"
    "iOffset (endpoint p') = iOffset (endpoint p)"
proof -
  have kept: "(case pChunk (endpoint p) of None \<Rightarrow> [] | Some i \<Rightarrow> take (Suc i) (pFirst p)) = pFirst p"
    using inv by (auto simp: jinv_def Let_def)
  obtain ok al1 where a: "alloc_block al = (ok, al1)" by fastforce
  have p': "p' = p\<lparr>pFirst := pFirst p @ [fresh_chunk junk (nChunkSize p)],
      endpoint := (endpoint p)\<lparr>pChunk := Some (length (pFirst p))\<rparr>\<rparr>" "ok" "al' = al1"
    using e a kept by (auto simp: new_chunk_def Let_def split: if_splits)
  show "at_end p' (pFirst p) (fresh_chunk junk (nChunkSize p))"
    using inv full_or_inside(1) [OF inv z] z points_mono [of "nChunkSize p" "length (pFirst p)" _ "readpoint p"]
    by (auto simp: p'(1) at_end_def jinv_def Let_def fresh_chunk_def)
  show "live al' = Suc (live al)" using live_alloc [OF a] p'(2,3) by simp
  show "p' = p\<lparr>pFirst := pFirst p @ [fresh_chunk junk (nChunkSize p)], endpoint := endpoint p'\<rparr>"
    "iOffset (endpoint p') = iOffset (endpoint p)" by (simp_all add: p'(1))
qed

lemma write_chunk:
  assumes e: "at_end p ys c" and b: "0 < length b" "length b \<le> nChunkSize p - iOffset (endpoint p) mod nChunkSize p"
  defines "off \<equiv> iOffset (endpoint p) mod nChunkSize p"
  defines "p' \<equiv> p\<lparr>pFirst := (pFirst p)[length ys := patch off b (pFirst p ! length ys)],
                  endpoint := (endpoint p)\<lparr>iOffset := iOffset (endpoint p) + length b\<rparr>\<rparr>"
  shows "jinv p'" "jcontent p' = jcontent p @ b"
proof -
  let ?n = "iOffset (endpoint p)" and ?cs = "nChunkSize p"
  have E: "0 < ?cs" "pFirst p = ys @ [c]" "uniform ?cs ys" "length c = ?cs" "?n = ?cs * length ys + off"
    "pChunk (endpoint p) = Some (length ys)" "points ?cs (Suc (length ys)) ?n (readpoint p)"
    using e by (simp_all add: at_end_def Let_def off_def)
  have off: "off < ?cs" using E(1) by (simp add: off_def)
  have xs: "pFirst p' = ys @ [patch off b c]" by (simp add: p'_def E(2))
  have len: "length (patch off b c) = ?cs" using b off E(4) by (simp add: patch_def off_def)
  show "jinv p'" unfolding jinv_def Let_def xs using E len b off
    by (auto simp: p'_def off_def [symmetric] intro: points_mono)
  have "take (?n + length b) (concat (pFirst p')) = concat ys @ take off c @ b"
    using E(4,5) off concat_uniform [OF E(3)] by (simp add: xs patch_def)
  moreover have "take ?n (concat (pFirst p)) = concat ys @ take off c"
    using E(4,5) off concat_uniform [OF E(3)] by (simp add: E(2))
  ultimately show "jcontent p' = jcontent p @ b" by (simp add: jcontent_def p'_def)
qed

text \<open>
  What an append does, whatever the allocator answers: the bytes up to some point are appended, all of
  them unless memory ran out, and every block allocated is a chunk of the list.
\<close>
definition appended :: "MemJournal \<Rightarrow> allocator \<Rightarrow> bytes \<Rightarrow> nat \<Rightarrow> MemJournal \<Rightarrow> allocator \<Rightarrow> bool" where
  "appended p al z rc p' al' \<longleftrightarrow>
     jinv p' \<and> (\<exists>k \<le> length z. jcontent p' = jcontent p @ take k z
       \<and> rc = (if k = length z then SQLITE_OK else SQLITE_IOERR_NOMEM))
     \<and> live al' + length (pFirst p) = live al + length (pFirst p')
     \<and> (plenty al \<longrightarrow> rc = SQLITE_OK \<and> plenty al')
     \<and> config p' = config p"

lemma appended_Nil: "jinv p \<Longrightarrow> appended p al [] SQLITE_OK p al"
  by (simp add: appended_def)

lemma appended_step:
  assumes a: "appended p1 al1 z2 rc p' al'" and c: "jcontent p1 = jcontent p @ z1"
    and l: "live al1 + length (pFirst p) = live al + length (pFirst p1)" "plenty al \<Longrightarrow> plenty al1"
    and p1: "config p1 = config p"
  shows "appended p al (z1 @ z2) rc p' al'"
proof -
  obtain k where k: "k \<le> length z2" "jcontent p' = jcontent p1 @ take k z2"
    "rc = (if k = length z2 then SQLITE_OK else SQLITE_IOERR_NOMEM)"
    using a by (auto simp: appended_def)
  show ?thesis using a l k c p1 unfolding appended_def
    by (auto intro!: exI [of _ "length z1 + k"])
qed

lemma new_chunk_fails:
  assumes "new_chunk junk p al = (False, p', al')"
  shows "p' = p" "live al' = live al" "\<not> plenty al"
proof -
  obtain ok al1 where a: "alloc_block al = (ok, al1)" by fastforce
  then have "\<not> ok" "p' = p" "al' = al1" using assms by (auto simp: new_chunk_def Let_def split: if_splits)
  then show "p' = p" "live al' = live al" "\<not> plenty al" using live_alloc [OF a] plenty_alloc [OF _ a] by auto
qed

lemma plenty_new_chunk: "new_chunk junk p al = (ok, p', al') \<Longrightarrow> plenty al \<Longrightarrow> plenty al'"
  using plenty_alloc [of al] by (auto simp: new_chunk_def Let_def split: prod.splits if_splits)

lemma new_chunk_or_inside:
  assumes inv: "jinv p" and x: "(if iOffset (endpoint p) mod nChunkSize p = 0 then new_chunk junk p al else (True, p, al)) = (True, p1, al1)"
  shows "\<exists>ys c. at_end p1 ys c" "jcontent p1 = jcontent p"
    "live al1 + length (pFirst p) = live al + length (pFirst p1)"
    "config p1 = config p" "iOffset (endpoint p1) = iOffset (endpoint p)"
proof -
  have "(\<exists>ys c. at_end p1 ys c) \<and> jcontent p1 = jcontent p \<and> live al1 + length (pFirst p) = live al + length (pFirst p1)
    \<and> config p1 = config p \<and> iOffset (endpoint p1) = iOffset (endpoint p)"
  proof (cases "iOffset (endpoint p) mod nChunkSize p = 0")
    case True
    then have e: "new_chunk junk p al = (True, p1, al1)" using x by simp
    note E = new_chunk_at_end [OF inv True e]
    have p1: "pFirst p1 = pFirst p @ [fresh_chunk junk (nChunkSize p)]" "readpoint p1 = readpoint p"
      by (subst E(3), simp)+
    have "jcontent p1 = jcontent p"
      using full_or_inside(1) [OF inv True] concat_uniform [of "nChunkSize p" "pFirst p"] inv
      by (simp add: jcontent_def p1 E(4) jinv_def Let_def)
    moreover have "config p1 = config p" by (subst E(3)) (simp add: config_def)
    ultimately show ?thesis using E p1 by auto
  qed (use x full_or_inside(2) [OF inv] in auto)
  then show "\<exists>ys c. at_end p1 ys c" "jcontent p1 = jcontent p"
    "live al1 + length (pFirst p) = live al + length (pFirst p1)"
    "config p1 = config p" "iOffset (endpoint p1) = iOffset (endpoint p)" by auto
qed

lemma append_loop_appended:
  assumes "jinv p"
  shows "\<exists>rc p' al'. append_loop junk p z al = Some (rc, p', al') \<and> appended p al z rc p' al'"
  using assms
proof (induction "length z" arbitrary: p z al rule: less_induct)
  case less
  let ?n = "iOffset (endpoint p)" and ?cs = "nChunkSize p"
  define off where "off = ?n mod ?cs"
  define k where "k = min (length z) (?cs - off)"
  obtain ok p1 al1 where x: "(if off = 0 then new_chunk junk p al else (True, p, al)) = (ok, p1, al1)"
    by (metis prod_cases3)
  have cs: "0 < ?cs" using less(2) by (simp add: jinv_def Let_def)
  let ?p2 = "\<lambda>i. p1\<lparr>pFirst := (pFirst p1)[i := patch off (take k z) (pFirst p1 ! i)],
      endpoint := (endpoint p1)\<lparr>iOffset := iOffset (endpoint p1) + k\<rparr>\<rparr>"
  have step: "append_loop junk p z al = (if \<not> ok then Some (SQLITE_IOERR_NOMEM, p1, al1)
      else case pChunk (endpoint p1) of None \<Rightarrow> None | Some i \<Rightarrow> append_loop junk (?p2 i) (drop k z) al1)" if "z \<noteq> []"
    using that cs x by (subst append_loop.simps) (simp add: Let_def k_def split: option.split flip: off_def)
  consider "z = []" | "z \<noteq> []" "\<not> ok" | "z \<noteq> []" "ok" by blast
  then show ?case
  proof cases
    case 1
    then show ?thesis using appended_Nil [OF less(2)] by (simp add: append_loop.simps)
  next
    case 2
    then have "new_chunk junk p al = (False, p1, al1)" using x by (auto split: if_splits)
    then show ?thesis using 2 step new_chunk_fails [of junk p al p1 al1] less(2)
      by (auto simp: appended_def intro!: exI [of _ "0 :: nat"])
  next
    case 3
    note E = new_chunk_or_inside [OF less(2), of junk al p1 al1, folded off_def]
    have x': "(if off = 0 then new_chunk junk p al else (True, p, al)) = (True, p1, al1)" using x 3(2) by simp
    obtain ys c where e: "at_end p1 ys c" using E(1) [OF x'] by blast
    have same: "nChunkSize p1 = ?cs" using E(4) [OF x'] by (simp add: config_def)
    have same': "iOffset (endpoint p1) mod ?cs = off" using E(5) [OF x'] by (simp add: off_def)
    have k: "0 < k" "length (take k z) = k" "k \<le> ?cs - off" using 3(1) cs by (auto simp: k_def off_def)
    have W: "jinv (?p2 (length ys))" "jcontent (?p2 (length ys)) = jcontent p @ take k z"
      using write_chunk [OF e, of "take k z"] k same same' E(2) [OF x'] 3(1) by simp_all
    have pl: "plenty al1" if "plenty al" using x plenty_new_chunk that by (auto split: if_splits)
    have "length (drop k z) < length z" using k(1) 3(1) by simp
    from less(1) [OF this W(1), of al1] obtain rc p' al' where
      r: "append_loop junk (?p2 (length ys)) (drop k z) al1 = Some (rc, p', al')"
        "appended (?p2 (length ys)) al1 (drop k z) rc p' al'" by blast
    have "appended p al (take k z @ drop k z) rc p' al'"
      by (rule appended_step [OF r(2) W(2)]) (use E(3,4) [OF x'] pl in \<open>auto simp: config_def\<close>)
    then show ?thesis using step [OF 3(1)] 3(2) e r(1) by (auto simp: at_end_def Let_def)
  qed
qed

text \<open>The write of a byte string at an offset, as the journal does it: in place at the start, and otherwise
  what lies beyond the offset is cut off first.\<close>
definition journal_write :: "bytes \<Rightarrow> nat \<Rightarrow> bytes \<Rightarrow> bytes" where
  "journal_write b ofst c = (if ofst = 0 \<and> c \<noteq> [] then b @ drop (length b) c else take ofst c @ b)"

text \<open>
  The writes considered: no gap, and a write in place stays inside the first chunk and the journal.  They include
  every write that the assertions of \<open>memjrnlWrite\<close> admit, and also one that overwrites the whole first
  chunk, which the assertion \<open>p->nChunkSize>iAmt\<close> excludes.
\<close>
definition write_allowed :: "nat \<Rightarrow> bytes \<Rightarrow> nat \<Rightarrow> bytes \<Rightarrow> bool" where
  "write_allowed cs b ofst c \<longleftrightarrow>
     ofst \<le> length c \<and> (ofst = 0 \<and> c \<noteq> [] \<longrightarrow> length b \<le> length c \<and> length b \<le> cs)"

lemma write_in_place:
  assumes inv: "jinv p" and ne: "pFirst p \<noteq> []" and b: "length b \<le> length (jcontent p)" "length b \<le> nChunkSize p"
  defines "p' \<equiv> p\<lparr>pFirst := (pFirst p)[0 := patch 0 b (pFirst p ! 0)]\<rparr>"
  shows "jinv p'" "jcontent p' = b @ drop (length b) (jcontent p)"
proof -
  obtain c ys where xs: "pFirst p = c # ys" using ne by (cases "pFirst p") auto
  have c: "length c = nChunkSize p" using inv xs by (simp add: jinv_def Let_def)
  show "jinv p'" using inv b(2) c by (auto simp: jinv_def Let_def p'_def xs patch_def)
  have n: "length b \<le> iOffset (endpoint p)" using b(1) jcontent_length [OF inv] by simp
  then show "jcontent p' = b @ drop (length b) (jcontent p)"
    using b(2) c by (simp add: jcontent_def p'_def xs patch_def drop_take)
qed

text \<open>The journal an append starts from, after what lies beyond its offset has been cut off.\<close>
lemma cut_off:
  assumes inv: "jinv p" and base: "live al = base + length (pFirst p)"
    and q: "(if ofst > 0 \<and> ofst \<noteq> iOffset (endpoint p) then snd (memjrnlTruncate p ofst al) else (p, al)) = (q, al1)"
    and no: "\<not> (ofst = 0 \<and> pFirst p \<noteq> [])"
  shows "jinv q" "jcontent q = take ofst (jcontent p)" "live al1 = base + length (pFirst q)"
    "nChunkSize q = nChunkSize p" "nSpill q = nSpill p" "plenty al1 = plenty al" "ofst = 0 \<longrightarrow> pFirst q = []"
proof -
  have "jinv q \<and> jcontent q = take ofst (jcontent p) \<and> live al1 = base + length (pFirst q)
    \<and> nChunkSize q = nChunkSize p \<and> nSpill q = nSpill p \<and> plenty al1 = plenty al \<and> (ofst = 0 \<longrightarrow> pFirst q = [])"
  proof (cases "ofst > 0 \<and> ofst \<noteq> iOffset (endpoint p)")
    case True
    then have "memjrnlTruncate p ofst al = (fst (memjrnlTruncate p ofst al), q, al1)" using q by (metis prod.collapse)
    from memjrnlTruncate_correct [OF inv this] show ?thesis using base True by auto
  next
    case False
    then show ?thesis using q inv base no jcontent_length [OF inv] jcontent_empty [OF inv] by auto
  qed
  then show "jinv q" "jcontent q = take ofst (jcontent p)" "live al1 = base + length (pFirst q)"
    "nChunkSize q = nChunkSize p" "nSpill q = nSpill p" "plenty al1 = plenty al" "ofst = 0 \<longrightarrow> pFirst q = []" by auto
qed

lemma write_memory_correct:
  assumes inv: "jinv p" and ok: "write_allowed (nChunkSize p) b ofst (jcontent p)"
    and base: "live al = base + length (pFirst p)"
  obtains rc p' al' k where "write_memory junk p b ofst al = Some (rc, p', al')" "jinv p'"
    "live al' = base + length (pFirst p')" "nChunkSize p' = nChunkSize p" "nSpill p' = nSpill p"
    "k \<le> length b" "jcontent p' = journal_write (take k b) ofst (jcontent p)"
    "rc = (if k = length b then SQLITE_OK else SQLITE_IOERR_NOMEM)"
    "plenty al \<longrightarrow> k = length b \<and> plenty al'"
proof (cases "ofst = 0 \<and> pFirst p \<noteq> []")
  case True
  then show ?thesis
    using that [of SQLITE_OK "p\<lparr>pFirst := (pFirst p)[0 := patch 0 b (pFirst p ! 0)]\<rparr>" al "length b"]
      write_in_place [OF inv, of b] ok base jcontent_empty [OF inv]
    by (simp add: write_memory_def write_allowed_def journal_write_def)
next
  case False
  obtain q al1 where q: "(if ofst > 0 \<and> ofst \<noteq> iOffset (endpoint p) then snd (memjrnlTruncate p ofst al) else (p, al)) = (q, al1)"
    by fastforce
  note Q = cut_off [OF inv base q False]
  obtain rc p' al' where r: "append_loop junk q b al1 = Some (rc, p', al')" "appended q al1 b rc p' al'"
    using append_loop_appended [OF Q(1)] by blast
  then obtain k where k: "k \<le> length b" "jcontent p' = jcontent q @ take k b"
    "rc = (if k = length b then SQLITE_OK else SQLITE_IOERR_NOMEM)" by (auto simp: appended_def)
  have cfg: "nChunkSize p' = nChunkSize q" "nSpill p' = nSpill q"
    using r(2) by (simp_all add: appended_def config_def)
  have w: "write_memory junk p b ofst al = Some (rc, p', al')"
    using q r(1) Q(7) by (auto simp: write_memory_def)
  have j: "jcontent p' = journal_write (take k b) ofst (jcontent p)"
    using k(2) Q(2) False jcontent_empty [OF inv] by (auto simp: journal_write_def)
  show ?thesis
    by (rule that [OF w _ _ _ _ k(1) j k(3)])
      (use r(2) Q cfg k(3) in \<open>auto simp: appended_def rc_defs split: if_splits\<close>)
qed

section \<open>The journal as a file\<close>

datatype file_op = WriteAt bytes nat | ReadAt nat nat | TruncateTo nat | SizeOf
datatype file_result = Code nat | Data nat bytes | Length nat nat

text \<open>A call of a file method through a handle.\<close>
fun file_step ::
  "('f, 'w) vfs \<Rightarrow> (nat \<Rightarrow> u8) \<Rightarrow> file_op \<Rightarrow> 'f sqlite3_file \<times> allocator \<times> 'w
     \<Rightarrow> (file_result \<times> 'f sqlite3_file \<times> allocator \<times> 'w) option" where
  "file_step pVfs junk (WriteAt b ofst) (fd, al, w) =
     map_option (\<lambda>(rc, s). (Code rc, s)) (sqlite3OsWrite pVfs junk fd b ofst al w)"
| "file_step pVfs junk (ReadAt amt ofst) (fd, al, w) =
     map_option (\<lambda>(rc, out, fd). (Data rc out, fd, al, w)) (sqlite3OsRead pVfs fd amt ofst w)"
| "file_step pVfs junk (TruncateTo sz) (fd, al, w) =
     map_option (\<lambda>(rc, s). (Code rc, s)) (sqlite3OsTruncate pVfs fd sz al w)"
| "file_step pVfs junk SizeOf (fd, al, w) =
     map_option (\<lambda>(rc, n). (Length rc n, fd, al, w)) (sqlite3OsFileSize pVfs fd w)"

text \<open>The same call on a byte string, and when it is allowed.\<close>
fun bytes_step :: "file_op \<Rightarrow> bytes \<Rightarrow> file_result \<times> bytes" where
  "bytes_step (WriteAt b ofst) c = (Code SQLITE_OK, journal_write b ofst c)"
| "bytes_step (ReadAt amt ofst) c =
     (if amt + ofst \<le> length c then Data SQLITE_OK (take amt (drop ofst c)) else Data SQLITE_IOERR_SHORT_READ [], c)"
| "bytes_step (TruncateTo sz) c = (Code SQLITE_OK, take sz c)"
| "bytes_step SizeOf c = (Length SQLITE_OK (length c), c)"

fun op_allowed :: "nat \<Rightarrow> file_op \<Rightarrow> bytes \<Rightarrow> bool" where
  "op_allowed cs (WriteAt b ofst) c = write_allowed cs b ofst c"
| "op_allowed cs (ReadAt amt ofst) c = (0 < amt)"
| "op_allowed cs _ c = True"

text \<open>Sequences of calls; a run of the code stops at a fault.\<close>
fun run_steps :: "('o \<Rightarrow> 's \<Rightarrow> ('r \<times> 's) option) \<Rightarrow> 'o list \<Rightarrow> 's \<Rightarrow> ('r list \<times> 's) option" where
  "run_steps step [] s = Some ([], s)"
| "run_steps step (o1 # os) s =
     (case step o1 s of
        None \<Rightarrow> None
      | Some (r, s) \<Rightarrow> map_option (\<lambda>(rs, s). (r # rs, s)) (run_steps step os s))"

fun run_abs :: "('o \<Rightarrow> 'a \<Rightarrow> 'r \<times> 'a) \<Rightarrow> 'o list \<Rightarrow> 'a \<Rightarrow> 'r list \<times> 'a" where
  "run_abs astep [] a = ([], a)"
| "run_abs astep (o1 # os) a =
     (case astep o1 a of (r, a) \<Rightarrow> case run_abs astep os a of (rs, a) \<Rightarrow> (r # rs, a))"

fun run_allowed :: "('o \<Rightarrow> 'a \<Rightarrow> bool) \<Rightarrow> ('o \<Rightarrow> 'a \<Rightarrow> 'r \<times> 'a) \<Rightarrow> 'o list \<Rightarrow> 'a \<Rightarrow> bool" where
  "run_allowed allowed astep [] a = True"
| "run_allowed allowed astep (o1 # os) a \<longleftrightarrow> allowed o1 a \<and> run_allowed allowed astep os (snd (astep o1 a))"

text \<open>
  The contract of a component whose operations refine those of an abstract state, as long as each
  is called when it may be.
\<close>
locale step_refinement =
  fixes step :: "'o \<Rightarrow> 's \<Rightarrow> ('r \<times> 's) option"
    and astep :: "'o \<Rightarrow> 'a \<Rightarrow> 'r \<times> 'a"
    and allowed :: "'o \<Rightarrow> 'a \<Rightarrow> bool"
    and inv :: "'s \<Rightarrow> bool"
    and abs :: "'s \<Rightarrow> 'a"
  assumes step: "inv s \<Longrightarrow> allowed op1 (abs s) \<Longrightarrow>
    \<exists>r s'. step op1 s = Some (r, s') \<and> inv s' \<and> astep op1 (abs s) = (r, abs s')"
begin

lemma run:
  "inv s \<Longrightarrow> run_allowed allowed astep os (abs s) \<Longrightarrow>
     \<exists>rs s'. run_steps step os s = Some (rs, s') \<and> inv s' \<and> run_abs astep os (abs s) = (rs, abs s')"
proof (induction os arbitrary: s)
  case (Cons op1 os)
  then obtain r s1 where s1: "step op1 s = Some (r, s1)" "inv s1" "astep op1 (abs s) = (r, abs s1)"
    using step [of s op1] by auto
  then show ?case using Cons.IH [of s1] Cons.prems by fastforce
qed simp

end

text \<open>The states of a journal that stays in memory, over \<open>base\<close> blocks in use elsewhere.\<close>
fun memory_state :: "nat \<Rightarrow> 'w \<Rightarrow> 'f sqlite3_file \<times> allocator \<times> 'w \<Rightarrow> bool" where
  "memory_state base w0 (InMemory p, al, w) \<longleftrightarrow>
     jinv p \<and> nSpill p < 0 \<and> nChunkSize p = 1016 \<and> plenty al \<and> live al = base + length (pFirst p) \<and> w = w0"
| "memory_state base w0 _ = False"

fun memory_bytes :: "'f sqlite3_file \<times> allocator \<times> 'w \<Rightarrow> bytes" where
  "memory_bytes (InMemory p, al, w) = jcontent p"
| "memory_bytes _ = []"

lemma memory_stateE:
  assumes "memory_state base w0 s"
  obtains p al where "s = (InMemory p, al, w0)" "jinv p" "nSpill p < 0" "nChunkSize p = 1016" "plenty al"
    "live al = base + length (pFirst p)"
  using assms by (cases "(base, w0, s)" rule: memory_state.cases) auto

lemma memory_step:
  fixes s :: "'f sqlite3_file \<times> allocator \<times> 'w"
  assumes s: "memory_state base w0 s" and a: "op_allowed 1016 op1 (memory_bytes s)"
  shows "\<exists>r s'. file_step pVfs junk op1 s = Some (r, s') \<and> memory_state base w0 s'
    \<and> bytes_step op1 (memory_bytes s) = (r, memory_bytes s')"
proof -
  from s obtain p al where p: "s = (InMemory p, al, w0)" "jinv p" "nSpill p < 0" "nChunkSize p = 1016" "plenty al"
    "live al = base + length (pFirst p)" by (rule memory_stateE)
  show ?thesis
  proof (cases op1)
    case (WriteAt b ofst)
    then have "write_allowed (nChunkSize p) b ofst (jcontent p)" using a p by simp
    note W = write_memory_correct [OF p(2) this p(6), of junk]
    obtain rc p' al' k where w: "write_memory junk p b ofst al = Some (rc, p', al')" "jinv p'"
      "live al' = base + length (pFirst p')" "nChunkSize p' = nChunkSize p" "nSpill p' = nSpill p"
      "k \<le> length b" "jcontent p' = journal_write (take k b) ofst (jcontent p)"
      "rc = (if k = length b then SQLITE_OK else SQLITE_IOERR_NOMEM)" "plenty al \<longrightarrow> k = length b \<and> plenty al'"
      by (rule W)
    have "k = length b" "plenty al'" using w(9) p(5) by auto
    then have k: "plenty al'" "rc = SQLITE_OK" "jcontent p' = journal_write b ofst (jcontent p)" using w(7,8) by simp_all
    have "file_step pVfs junk op1 s = Some (Code rc, InMemory p', al', w0)"
      using p(3) w(1) by (simp add: p(1) WriteAt sqlite3OsWrite_def memjrnlWrite_def)
    then show ?thesis using p(1,3,4) w(2-5) k WriteAt by simp
  next
    case (ReadAt amt ofst)
    show ?thesis
    proof (cases "amt + ofst \<le> length (jcontent p)")
      case True
      then show ?thesis using memjrnlRead_correct [OF p(2), of amt ofst] a p ReadAt
        by (auto simp: sqlite3OsRead_def)
    next
      case False
      then show ?thesis using memjrnlRead_short [OF p(2), of amt ofst] p ReadAt by (simp add: sqlite3OsRead_def)
    qed
  next
    case (TruncateTo sz)
    obtain rc p' al' where t: "memjrnlTruncate p sz al = (rc, p', al')" by (metis prod_cases3)
    from memjrnlTruncate_correct [OF p(2) t] show ?thesis
      using p TruncateTo t by (simp add: sqlite3OsTruncate_def)
  next
    case SizeOf
    then show ?thesis using p jcontent_length [OF p(2)] by (simp add: sqlite3OsFileSize_def memjrnlFileSize_def)
  qed
qed

interpretation journal: step_refinement "file_step pVfs junk" bytes_step "op_allowed 1016" "memory_state base w0" memory_bytes
  for pVfs junk base w0
  by unfold_locales (rule memory_step)

text \<open>
  C25. The in-memory journal is a byte string: from \<open>sqlite3MemJournalOpen\<close> on, every sequence of allowed writes,
  reads, truncations and size queries runs without a fault and returns what the byte string
  gives, however the writes fall on chunks, and closing the journal frees every block it took.
\<close>
theorem memory_journal_is_file:
  assumes "plenty al" "sqlite3MemJournalOpen pVfs w = (rc, fd, w')" "run_allowed (op_allowed 1016) bytes_step os []"
  shows "\<exists>fd' al'. run_steps (file_step pVfs junk) os (fd, al, w') = Some (fst (run_abs bytes_step os []), fd', al', w')
    \<and> memory_bytes (fd', al', w') = snd (run_abs bytes_step os [])
    \<and> live (fst (snd (sqlite3OsClose pVfs fd' al' w'))) = live al"
proof -
  have fd: "memory_state (live al) w' (fd, al, w')" "memory_bytes (fd, al, w') = []"
    using assms(1,2) by (auto simp: sqlite3MemJournalOpen_def sqlite3JournalOpen_def MEMJOURNAL_DFLT_FILECHUNKSIZE_def
        zero_journal_def jinv_def points_def jcontent_def)
  obtain rs s where r: "run_steps (file_step pVfs junk) os (fd, al, w') = Some (rs, s)" "memory_state (live al) w' s"
    "run_abs bytes_step os [] = (rs, memory_bytes s)"
    using journal.run [OF fd(1), of os pVfs junk] assms(3) fd(2) by auto
  from r(2) obtain p al' where "s = (InMemory p, al', w')" "live al' = live al + length (pFirst p)"
    by (rule memory_stateE)
  then show ?thesis using r by (auto simp: sqlite3OsClose_def memjrnlClose_def live_free_chunks)
qed

text \<open>A VFS with a single file, for the witnesses.\<close>
definition list_vfs :: "(unit, bytes) vfs" where
  "list_vfs = \<lparr>xOpen = (\<lambda>path flags w. (SQLITE_OK, Some (), w)), xWrite = (\<lambda>f b ofst w. (SQLITE_OK, patch ofst b w)),
     xRead = (\<lambda>f amt ofst w. (SQLITE_OK, take amt (drop ofst w))), xTruncate = (\<lambda>f sz w. (SQLITE_OK, take sz w)),
     xFileSize = (\<lambda>f w. (SQLITE_OK, length w)), xSync = (\<lambda>f flags w. (SQLITE_OK, w)), xClose = (\<lambda>f w. w)\<rparr>"

theorem memory_journal_is_file_witness:
  "\<exists>fd' al'. run_steps (file_step list_vfs (\<lambda>i. 0))
      [WriteAt [1, 2, 3] 0, WriteAt [4, 5] 3, ReadAt 2 2, TruncateTo 4, SizeOf, ReadAt 9 0]
      (fst (snd (sqlite3MemJournalOpen list_vfs [])), \<lparr>verdicts = [], live = 0\<rparr>, [])
    = Some ([Code 0, Code 0, Data 0 [3, 4], Code 0, Length 0 4, Data 522 []], fd', al', [])"
proof -
  let ?os = "[WriteAt [1, 2, 3] 0, WriteAt [4, 5] 3, ReadAt 2 2, TruncateTo 4, SizeOf, ReadAt 9 0]"
  have o: "sqlite3MemJournalOpen list_vfs [] = (SQLITE_OK, fst (snd (sqlite3MemJournalOpen list_vfs [])), [])"
    by (simp add: sqlite3MemJournalOpen_def sqlite3JournalOpen_def)
  have p: "plenty \<lparr>verdicts = [], live = 0\<rparr>" by (simp add: plenty_def)
  have a: "run_allowed (op_allowed 1016) bytes_step ?os []" by (simp add: write_allowed_def journal_write_def)
  have "run_abs bytes_step ?os [] = ([Code 0, Code 0, Data 0 [3, 4], Code 0, Length 0 4, Data 522 []], [1, 2, 3, 4])"
    by (simp add: journal_write_def rc_defs)
  then show ?thesis using memory_journal_is_file [OF p o a, of "\<lambda>i. 0"] by auto
qed

section \<open>Running out of memory\<close>

text \<open>
  C26. A write to the in-memory journal, whatever the allocator answers, returns without a fault.  It
  is complete, or it reports \<open>SQLITE_IOERR_NOMEM\<close> after a proper prefix of the bytes; in both cases the
  journal keeps its invariant, holds exactly what was written before, and no block is lost.
\<close>
theorem memjrnlWrite_any_memory:
  assumes "jinv p" "nSpill p < 0 \<or> int (length b + ofst) \<le> nSpill p"
    "write_allowed (nChunkSize p) b ofst (jcontent p)" "length (pFirst p) \<le> live al"
  shows "\<exists>rc p' al' k. memjrnlWrite pVfs junk p b ofst al w = Some (rc, InMemory p', al', w) \<and> jinv p'
    \<and> k \<le> length b \<and> jcontent p' = journal_write (take k b) ofst (jcontent p)
    \<and> rc = (if k = length b then SQLITE_OK else SQLITE_IOERR_NOMEM)
    \<and> live al' = live al - length (pFirst p) + length (pFirst p')"
proof -
  have base: "live al = (live al - length (pFirst p)) + length (pFirst p)" using assms(4) by simp
  note W = write_memory_correct [OF assms(1,3) base, of junk]
  obtain rc p' al' k where w: "write_memory junk p b ofst al = Some (rc, p', al')" "jinv p'"
    "live al' = live al - length (pFirst p) + length (pFirst p')"
    "k \<le> length b" "jcontent p' = journal_write (take k b) ofst (jcontent p)"
    "rc = (if k = length b then SQLITE_OK else SQLITE_IOERR_NOMEM)"
    using W by metis
  moreover have "memjrnlWrite pVfs junk p b ofst al w = Some (rc, InMemory p', al', w)"
    using assms(2) w(1) by (auto simp: memjrnlWrite_def)
  ultimately show ?thesis by auto
qed

definition small_journal :: MemJournal where
  "small_journal = zero_journal\<lparr>nChunkSize := 4, nSpill := 4, pFirst := [[1, 2, 3, 0]], endpoint := \<lparr>iOffset = 3, pChunk = Some 0\<rparr>\<rparr>"

lemma small_journal_inv: "jinv small_journal" "jcontent small_journal = [1, 2, 3]"
  by (simp_all add: small_journal_def zero_journal_def jinv_def points_def jcontent_def)

text \<open>A journal that never spills, its only chunk almost full: the second byte of a write needs a chunk.\<close>
definition full_journal :: MemJournal where
  "full_journal = small_journal\<lparr>nSpill := - 1\<rparr>"

lemma full_journal_inv:
  "jinv full_journal" "jcontent full_journal = [1, 2, 3]" "nSpill full_journal = - 1" "nChunkSize full_journal = 4"
  "length (pFirst full_journal) = 1"
  by (simp_all add: full_journal_def small_journal_def zero_journal_def jinv_def points_def jcontent_def)

lemma full_journal_fails:
  "memjrnlWrite pVfs junk full_journal [9, 8] 3 \<lparr>verdicts = [False], live = 1\<rparr> w = Some (rc, fd, al, w') \<Longrightarrow>
     rc = SQLITE_IOERR_NOMEM"
  apply (simp add: full_journal_def small_journal_def zero_journal_def memjrnlWrite_def write_memory_def)
  apply (subst (asm) append_loop.simps, simp)
  apply (subst (asm) append_loop.simps, simp add: new_chunk_def alloc_block_def)
  done

theorem memjrnlWrite_any_memory_witness:
  "\<exists>p' al'. memjrnlWrite list_vfs (\<lambda>i. 0) full_journal [9, 8] 3 \<lparr>verdicts = [False], live = 1\<rparr> []
      = Some (SQLITE_IOERR_NOMEM, InMemory p', al', [])
    \<and> jinv p' \<and> (\<exists>k < 2. jcontent p' = [1, 2, 3] @ take k [9, 8]) \<and> live al' = length (pFirst p')"
proof -
  let ?al = "\<lparr>verdicts = [False], live = 1\<rparr>"
  have "nSpill full_journal < 0 \<or> int (length [9, 8 :: u8] + 3) \<le> nSpill full_journal"
    "write_allowed (nChunkSize full_journal) [9, 8] 3 (jcontent full_journal)" "length (pFirst full_journal) \<le> live ?al"
    by (simp_all add: full_journal_inv write_allowed_def)
  from memjrnlWrite_any_memory [OF full_journal_inv(1) this, of list_vfs "\<lambda>i. 0" "[]"]
  obtain rc p' al' k where w: "memjrnlWrite list_vfs (\<lambda>i. 0) full_journal [9, 8] 3 ?al [] = Some (rc, InMemory p', al', [])"
    "jinv p'" "k \<le> length [9, 8 :: u8]" "jcontent p' = journal_write (take k [9, 8]) 3 (jcontent full_journal)"
    "rc = (if k = length [9, 8 :: u8] then SQLITE_OK else SQLITE_IOERR_NOMEM)"
    "live al' = live ?al - length (pFirst full_journal) + length (pFirst p')" by blast
  note rc = full_journal_fails [OF w(1)]
  have "k \<noteq> length [9, 8 :: u8]" using w(5) unfolding rc by (rule contrapos_pn) (simp add: rc_defs)
  then have "k < 2" using w(3) by simp
  moreover have "jcontent p' = [1, 2, 3] @ take k [9, 8]" "live al' = length (pFirst p')"
    using w(4,6) by (simp_all add: journal_write_def full_journal_inv)
  ultimately show ?thesis using w(1,2) rc by blast
qed

section \<open>Spilling\<close>

text \<open>
  What the journal relies on of the VFS: a successful open gives a handle, and a successful write that
  leaves no gap replaces the bytes of the file at its offset; \<open>cont\<close> is the content of an open file.
\<close>
definition writes_through :: "('f, 'w) vfs \<Rightarrow> ('f \<Rightarrow> 'w \<Rightarrow> bytes) \<Rightarrow> bool" where
  "writes_through pVfs cont \<longleftrightarrow>
     (\<forall>path flags w f w'. xOpen pVfs path flags w = (SQLITE_OK, f, w') \<longrightarrow> f \<noteq> None)
     \<and> (\<forall>f b ofst w w'. xWrite pVfs f b ofst w = (SQLITE_OK, w') \<longrightarrow> ofst \<le> length (cont f w) \<longrightarrow>
          cont f w' = patch ofst b (cont f w))"

lemma writes_throughD:
  "writes_through pVfs cont \<Longrightarrow> xWrite pVfs f b ofst w = (SQLITE_OK, w') \<Longrightarrow> ofst \<le> length (cont f w) \<Longrightarrow>
     cont f w' = patch ofst b (cont f w)"
  by (auto simp: writes_through_def)

lemma opens_handle:
  "writes_through pVfs cont \<Longrightarrow> sqlite3OsOpen pVfs path flags w = (SQLITE_OK, f, w') \<Longrightarrow> \<exists>h. f = Some h"
  unfolding writes_through_def sqlite3OsOpen_def by blast

lemma create_loop_content:
  assumes v: "writes_through pVfs cont"
    and "uniform cs xs" "iOff \<le> length (cont f w)" "iOff \<le> end_off"
    and "end_off \<le> iOff + cs * length xs" "xs \<noteq> [] \<longrightarrow> iOff + cs * (length xs - 1) < end_off"
    and "create_loop pVfs f cs iOff end_off xs w = (SQLITE_OK, w')"
  shows "take end_off (cont f w') = take iOff (cont f w) @ take (end_off - iOff) (concat xs) \<and> end_off \<le> length (cont f w')"
  using assms(2-)
proof (induction xs arbitrary: iOff w)
  case (Cons c xs)
  let ?n = "if iOff + cs > end_off then end_off - iOff else cs"
  obtain rc w1 where x: "xWrite pVfs f (take ?n c) iOff w = (rc, w1)" by fastforce
  have ok: "rc = SQLITE_OK" and r: "create_loop pVfs f ?n (iOff + ?n) end_off xs w1 = (SQLITE_OK, w')"
    using Cons.prems(6) x by (auto simp: Let_def split: if_splits)
  have w1: "cont f w1 = patch iOff (take ?n c) (cont f w)"
    using writes_throughD [OF v x [unfolded ok]] Cons.prems(2) by simp
  have n: "?n \<le> cs" "length c = cs" using Cons.prems by auto
  then have t: "take (iOff + ?n) (cont f w1) = take iOff (cont f w) @ take ?n c" "iOff + ?n \<le> length (cont f w1)"
    using Cons.prems(2) by (simp_all add: w1 patch_def)
  show ?case
  proof (cases "xs = []")
    case True
    then have "?n = end_off - iOff" "w' = w1" using r Cons.prems by auto
    then show ?thesis using t True Cons.prems(3) n by simp
  next
    case False
    have m: "cs * length xs = cs + cs * (length xs - 1)" using False by (cases xs) auto
    then have le: "iOff + cs \<le> end_off" using Cons.prems(5) by simp
    then have "?n = cs" by simp
    then show ?thesis using Cons.IH [of "iOff + cs" w1] Cons.prems(1,4,5) r t n le m by simp
  qed
qed simp

lemma memjrnlCreateFile_content:
  assumes v: "writes_through pVfs cont" and inv: "jinv p"
    and o: "sqlite3OsOpen pVfs (zJournal p) (jrnl_flags p) w = (rc0, h, w0)"
  obtains rc fd al' w' where "memjrnlCreateFile pVfs p al w = Some (rc, fd, al', w')"
    "rc0 \<noteq> SQLITE_OK \<Longrightarrow> rc = rc0"
    "rc \<noteq> SQLITE_OK \<Longrightarrow> fd = InMemory p \<and> al' = al \<and> (\<exists>w1. w' = close_handle pVfs h w1)"
    "rc = SQLITE_OK \<Longrightarrow> \<exists>f. h = Some f \<and> fd = Real f \<and> live al' = live al - length (pFirst p)
       \<and> length (jcontent p) \<le> length (cont f w') \<and> take (length (jcontent p)) (cont f w') = jcontent p"
proof (cases "rc0 = SQLITE_OK")
  case False
  then show ?thesis using that [of rc0 "InMemory p" al "close_handle pVfs h w0"] o by (auto simp: memjrnlCreateFile_def)
next
  case True
  then obtain f where f: "h = Some f" using opens_handle [OF v] o by blast
  obtain rc2 w2 where c: "create_loop pVfs f (nChunkSize p) 0 (iOffset (endpoint p)) (pFirst p) w0 = (rc2, w2)" by fastforce
  show ?thesis
  proof (cases "rc2 = SQLITE_OK")
    case ok: True
    have "take (iOffset (endpoint p)) (cont f w2) = jcontent p \<and> iOffset (endpoint p) \<le> length (cont f w2)"
      using create_loop_content [OF v _ _ _ _ _ c [unfolded ok]] inv by (auto simp: jinv_def Let_def jcontent_def)
    then show ?thesis
      using that [of rc2 "Real f" "memjrnlFreeChunks (pFirst p) al" w2] True o f c ok jcontent_length [OF inv]
      by (auto simp: memjrnlCreateFile_def live_free_chunks)
  next
    case no: False
    then show ?thesis using that [of rc2 "InMemory p" al "close_handle pVfs h w2"] True o f c
      by (auto simp: memjrnlCreateFile_def)
  qed
qed

text \<open>
  C27. A write that takes a journal past its spill limit opens the file of the journal.  Either the
  file then holds the whole old content when the new bytes are written to it: every chunk is freed, the
  result is the one of that write, and when it succeeds the file starts with the old content with the new
  bytes at their offset, when it fails nothing but those bytes is missing.  Or the file cannot be opened
  or filled: the call reports an error, the journal and its memory are left exactly as they were, and the
  handle of the half-written file, if there is one, is closed.  A failed open is always the second case.
\<close>
theorem memjrnlWrite_spills:
  assumes v: "writes_through pVfs cont" and inv: "jinv p"
    and over: "0 < nSpill p" "nSpill p < int (length b + ofst)" and le: "ofst \<le> length (jcontent p)"
    and o: "sqlite3OsOpen pVfs (zJournal p) (jrnl_flags p) w = (rc0, h, w0)"
  shows "\<exists>rc fd al' w'. memjrnlWrite pVfs junk p b ofst al w = Some (rc, fd, al', w')
    \<and> ((\<exists>f w1. rc0 = SQLITE_OK \<and> h = Some f \<and> fd = Real f \<and> live al' = live al - length (pFirst p)
          \<and> length (jcontent p) \<le> length (cont f w1) \<and> take (length (jcontent p)) (cont f w1) = jcontent p
          \<and> xWrite pVfs f b ofst w1 = (rc, w')
          \<and> (rc = SQLITE_OK \<longrightarrow> (let c = patch ofst b (jcontent p) in take (length c) (cont f w') = c)))
       \<or> rc \<noteq> SQLITE_OK \<and> fd = InMemory p \<and> al' = al \<and> (\<exists>w1. w' = close_handle pVfs h w1)
          \<and> (rc0 \<noteq> SQLITE_OK \<longrightarrow> rc = rc0))"
proof -
  obtain rc fd al' w1 where c: "memjrnlCreateFile pVfs p al w = Some (rc, fd, al', w1)"
    and e: "rc0 \<noteq> SQLITE_OK \<Longrightarrow> rc = rc0"
    and n: "rc \<noteq> SQLITE_OK \<Longrightarrow> fd = InMemory p \<and> al' = al \<and> (\<exists>w2. w1 = close_handle pVfs h w2)"
    and y: "rc = SQLITE_OK \<Longrightarrow> \<exists>f. h = Some f \<and> fd = Real f \<and> live al' = live al - length (pFirst p)
       \<and> length (jcontent p) \<le> length (cont f w1) \<and> take (length (jcontent p)) (cont f w1) = jcontent p"
    using memjrnlCreateFile_content [OF v inv o, of al] by metis
  show ?thesis
  proof (cases "rc = SQLITE_OK")
    case False
    have "memjrnlWrite pVfs junk p b ofst al w = Some (rc, fd, al', w1)"
      using c over False by (simp add: memjrnlWrite_def)
    then show ?thesis using n [OF False] False e by blast
  next
    case True
    from y [OF this] obtain f where f: "h = Some f" "fd = Real f" "live al' = live al - length (pFirst p)"
      "length (jcontent p) \<le> length (cont f w1)" "take (length (jcontent p)) (cont f w1) = jcontent p" by blast
    obtain rc2 w2 where x: "xWrite pVfs f b ofst w1 = (rc2, w2)" by fastforce
    have "take (length (patch ofst b (jcontent p))) (cont f w2) = patch ofst b (jcontent p)" if "rc2 = SQLITE_OK"
    proof -
      obtain rest where r: "cont f w1 = jcontent p @ rest" using f(5) by (metis append_take_drop_id)
      have "cont f w2 = patch ofst b (cont f w1)"
        using writes_throughD [OF v x [unfolded that]] le f(4) by simp
      then show ?thesis using le by (simp add: r patch_def)
    qed
    then have "rc2 = SQLITE_OK \<longrightarrow> (let c = patch ofst b (jcontent p) in take (length c) (cont f w2) = c)"
      by (simp add: Let_def)
    moreover have "memjrnlWrite pVfs junk p b ofst al w = Some (rc2, fd, al', w2)" "rc0 = SQLITE_OK"
      using c(1) True f(2) x over e by (auto simp: memjrnlWrite_def)
    ultimately show ?thesis using f x by blast
  qed
qed

text \<open>A VFS whose file cannot grow past \<open>n\<close> bytes.\<close>
definition quota_vfs :: "nat \<Rightarrow> (unit, bytes) vfs" where
  "quota_vfs n = list_vfs\<lparr>xWrite := (\<lambda>f b ofst w. if ofst + length b \<le> n then (SQLITE_OK, patch ofst b w) else (13, w))\<rparr>"

lemma quota_vfs_works:
  "writes_through (quota_vfs n) (\<lambda>f w. w)"
  "sqlite3OsOpen (quota_vfs n) path flags w = (SQLITE_OK, Some (), w)"
  by (auto simp: writes_through_def quota_vfs_def list_vfs_def sqlite3OsOpen_def rc_defs split: if_splits)

lemma small_journal_spill:
  "nSpill small_journal = 4" "length (pFirst small_journal) = 1"
  "memjrnlWrite (quota_vfs n) junk small_journal [4, 5] 3 al w
    = (if n < 3 then Some (13, InMemory small_journal, al, w)
       else Some (if n < 5 then 13 else SQLITE_OK, Real (), memjrnlFreeChunks [[1, 2, 3, 0]] al,
              if n < 5 then patch 0 [1, 2, 3] w else patch 3 [4, 5] (patch 0 [1, 2, 3] w)))"
  by (auto simp: memjrnlWrite_def memjrnlCreateFile_def sqlite3OsOpen_def list_vfs_def quota_vfs_def close_handle_def
      small_journal_def zero_journal_def rc_defs)

theorem memjrnlWrite_spills_witness:
  "(\<exists>al' w'. memjrnlWrite (quota_vfs 9) (\<lambda>i. 0) small_journal [4, 5] 3 \<lparr>verdicts = [], live = 1\<rparr> [] = Some (SQLITE_OK, Real (), al', w')
      \<and> take 5 w' = [1, 2, 3, 4, 5] \<and> live al' = 0)
   \<and> (\<exists>al' w' w1. memjrnlWrite (quota_vfs 4) (\<lambda>i. 0) small_journal [4, 5] 3 \<lparr>verdicts = [], live = 1\<rparr> [] = Some (13, Real (), al', w')
      \<and> take 3 w1 = [1, 2, 3] \<and> xWrite (quota_vfs 4) () [4, 5] 3 w1 = (13, w') \<and> live al' = 0)
   \<and> (\<exists>al' w'. memjrnlWrite (quota_vfs 2) (\<lambda>i. 0) small_journal [4, 5] 3 \<lparr>verdicts = [], live = 1\<rparr> [] = Some (13, InMemory small_journal, al', w')
      \<and> live al' = 1)"
proof -
  note spills = memjrnlWrite_spills [OF quota_vfs_works(1) small_journal_inv(1) _ _ _ quota_vfs_works(2),
      of "[4, 5]" 3 _ "\<lambda>i. 0" "\<lparr>verdicts = [], live = 1\<rparr>" "[]", unfolded small_journal_spill small_journal_inv(2)]
  show ?thesis unfolding small_journal_spill
    using spills [of 9] spills [of 4] spills [of 2]
    by (simp add: rc_defs patch_def eval_nat_numeral) auto
qed

end
