(* ===== verification/Row_Format.thy ===== *)
theory Row_Format
  imports Utf Varint
begin

text \<open>
  The record format of table rows and index keys (\<open>src/db/sqlite3.c\<close>): the opcode \<open>OP_MakeRecord\<close>
  of \<open>vdbe.c\<close>, after the column affinities have been applied, and the readers
  \<open>sqlite3VdbeSerialGet\<close> and \<open>sqlite3VdbeRecordUnpack\<close> of \<open>vdbeaux.c\<close>.  A double is its 64-bit
  pattern.  The theorems show that what is written is read back.
\<close>

section \<open>Memory cells\<close>

definition MEM_Null :: u16 where "MEM_Null = 0x0001"
definition MEM_Int :: u16 where "MEM_Int = 0x0004"
definition MEM_Real :: u16 where "MEM_Real = 0x0008"
definition MEM_Blob :: u16 where "MEM_Blob = 0x0010"
definition MEM_IntReal :: u16 where "MEM_IntReal = 0x0020"
definition MEM_Zero :: u16 where "MEM_Zero = 0x0400"
definition MEM_Ephem :: u16 where "MEM_Ephem = 0x4000"

text \<open>
  The fields of \<open>Mem\<close> a record uses; the members of its union are fields of their own, of which
  the flags select one.  \<open>n\<close> is the length of \<open>z\<close>.
\<close>
record Mem =
  cell_flags :: u16
  u_i :: int
  u_r :: u64
  u_nZero :: nat
  cell_z :: bytes
  uTemp :: u32

abbreviation has :: "Mem \<Rightarrow> u16 \<Rightarrow> bool" where
  "has m f \<equiv> cell_flags m AND f \<noteq> 0"

definition EXP754 :: u64 where "EXP754 = push_bit 52 0x7ff"
definition MAN754 :: u64 where "MAN754 = push_bit 52 1 - 1"
definition IsNaN :: "u64 \<Rightarrow> bool" where
  "IsNaN x \<longleftrightarrow> x AND EXP754 = EXP754 \<and> x AND MAN754 \<noteq> 0"

text \<open>
  C's conversion of a 64-bit integer to a double, to nearest with ties to even: \<open>e\<close> is the position
  of the highest bit of the magnitude \<open>m\<close>, and a mantissa that rounds up to the next power of
  two carries into the exponent.
\<close>
fun top_bit :: "nat \<Rightarrow> nat" where
  "top_bit m = (if m < 2 then 0 else Suc (top_bit (m div 2)))"

declare top_bit.simps [simp del]

definition mantissa :: "nat \<Rightarrow> nat" where
  "mantissa m =
     (let e = top_bit m in
      if e \<le> 52 then m * 2 ^ (52 - e)
      else
        let s = e - 52; q = m div 2 ^ s; r = m mod 2 ^ s
        in if 2 ^ (s - 1) < r \<or> 2 ^ (s - 1) = r \<and> odd q then Suc q else q)"

definition double_of :: "int \<Rightarrow> u64" where
  "double_of i =
     (let m = nat \<bar>i\<bar> in
      if m = 0 then 0
      else of_nat ((if i < 0 then 2 ^ 63 else 0) + (1023 + top_bit m) * 2 ^ 52 + (mantissa m - 2 ^ 52)))"

definition sqlite3SmallTypeSizes :: "nat list" where
  "sqlite3SmallTypeSizes =
     [0, 1, 2, 3, 4, 6, 8, 8, 0, 0,
      0, 0, 0, 0, 1, 1, 2, 2, 3, 3,
      4, 4, 5, 5, 6, 6, 7, 7, 8, 8,
      9, 9, 10, 10, 11, 11, 12, 12, 13, 13,
      14, 14, 15, 15, 16, 16, 17, 17, 18, 18,
      19, 19, 20, 20, 21, 21, 22, 22, 23, 23,
      24, 24, 25, 25, 26, 26, 27, 27, 28, 28,
      29, 29, 30, 30, 31, 31, 32, 32, 33, 33,
      34, 34, 35, 35, 36, 36, 37, 37, 38, 38,
      39, 39, 40, 40, 41, 41, 42, 42, 43, 43,
      44, 44, 45, 45, 46, 46, 47, 47, 48, 48,
      49, 49, 50, 50, 51, 51, 52, 52, 53, 53,
      54, 54, 55, 55, 56, 56, 57, 57]"

definition sqlite3VdbeSerialTypeLen :: "u32 \<Rightarrow> nat" where
  "sqlite3VdbeSerialTypeLen serial_type =
     (if serial_type \<ge> 128 then (unat serial_type - 12) div 2 else sqlite3SmallTypeSizes ! unat serial_type)"

definition sqlite3VdbeOneByteSerialTypeLen :: "u8 \<Rightarrow> nat" where
  "sqlite3VdbeOneByteSerialTypeLen serial_type = sqlite3SmallTypeSizes ! unat serial_type"

section \<open>Writing a record\<close>

text \<open>
  \<open>sqlite3VdbeMemExpandBlob\<close>: the zeros of a blob are written out; the growth of the cell's buffer may
  fail.
\<close>
definition sqlite3VdbeMemExpandBlob :: "Mem \<Rightarrow> allocator \<Rightarrow> nat \<times> Mem \<times> allocator" where
  "sqlite3VdbeMemExpandBlob m al =
     (if length (cell_z m) + u_nZero m = 0 \<and> \<not> has m MEM_Blob then (SQLITE_OK, m, al)
      else case alloc_block al of (ok, al) \<Rightarrow>
        if \<not> ok then (SQLITE_NOMEM, m, al)
        else (SQLITE_OK, m\<lparr>cell_z := cell_z m @ replicate (u_nZero m) 0,
          cell_flags := cell_flags m AND NOT (MEM_Zero OR MEM_Term)\<rparr>, al))"

text \<open>The serial type of an integer and the bytes it takes; \<open>minFormat\<close> is \<open>minWriteFileFormat\<close>.\<close>
definition int_type :: "nat \<Rightarrow> bool \<Rightarrow> int \<Rightarrow> u32 \<times> nat" where
  "int_type minFormat int_real i =
     (let uu = (if i < 0 then - i - 1 else i) in
      if uu \<le> 127 then
        if (i = 0 \<or> i = 1) \<and> minFormat \<ge> 4 then (8 + of_int uu, 0) else (1, 1)
      else if uu \<le> 32767 then (2, 2)
      else if uu \<le> 8388607 then (3, 3)
      else if uu \<le> 2147483647 then (4, 4)
      else if uu \<le> 140737488355327 then (5, 6)
      else (if int_real then 7 else 6, 8))"

text \<open>
  One turn of the sizing loop, with \<open>nData\<close> the bytes of the fields to the right: the cell with its serial type,
  and what it adds to \<open>nHdr\<close>, \<open>nData\<close> and \<open>nZero\<close>.
\<close>
definition size_field :: "nat \<Rightarrow> Mem \<Rightarrow> nat \<Rightarrow> allocator \<Rightarrow> (Mem \<times> nat \<times> nat \<times> nat \<times> allocator) option" where
  "size_field minFormat m nData al =
     (if has m MEM_Null then
        Some (m\<lparr>uTemp := (if has m MEM_Zero then 10 else 0)\<rparr>, 1, 0, 0, al)
      else if has m (MEM_Int OR MEM_IntReal) then
        case int_type minFormat (has m MEM_IntReal) (u_i m) of (t, n) \<Rightarrow>
          Some (if t = 7 then m\<lparr>u_r := double_of (u_i m),
                  cell_flags := (cell_flags m AND NOT MEM_IntReal) OR MEM_Real, uTemp := t\<rparr>
                else m\<lparr>uTemp := t\<rparr>, 1, n, 0, al)
      else if has m MEM_Real then Some (m\<lparr>uTemp := 7\<rparr>, 1, 8, 0, al)
      else
        let len = length (cell_z m);
            serial_type = of_nat len * 2 + 12 + of_bool (has m MEM_Str)
        in if has m MEM_Zero then
             let serial_type = serial_type + of_nat (u_nZero m) * 2 in
             if nData \<noteq> 0 then
               case sqlite3VdbeMemExpandBlob m al of (rc, m, al) \<Rightarrow>
                 if rc \<noteq> SQLITE_OK then None
                 else Some (m\<lparr>uTemp := serial_type\<rparr>, sqlite3VarintLen (ucast serial_type), len + u_nZero m, 0, al)
             else Some (m\<lparr>uTemp := serial_type\<rparr>, sqlite3VarintLen (ucast serial_type), len, u_nZero m, al)
           else Some (m\<lparr>uTemp := serial_type\<rparr>, sqlite3VarintLen (ucast serial_type), len, 0, al))"

text \<open>The sizing loop, from the last field to the first: the cells, \<open>nHdr\<close>, \<open>nData\<close> and \<open>nZero\<close>.\<close>
fun size_pass :: "nat \<Rightarrow> Mem list \<Rightarrow> allocator \<Rightarrow> (Mem list \<times> nat \<times> nat \<times> nat \<times> allocator) option" where
  "size_pass minFormat [] al = Some ([], 0, 0, 0, al)"
| "size_pass minFormat (m # ms) al =
     (case size_pass minFormat ms al of
        None \<Rightarrow> None
      | Some (ms, nHdr, nData, nZero, al) \<Rightarrow>
          case size_field minFormat m nData al of
            None \<Rightarrow> None
          | Some (m, h, d, z, al) \<Rightarrow> Some (m # ms, nHdr + h, nData + d, nZero + z, al))"

text \<open>The size of the header with the varint that holds it.\<close>
definition header_size :: "nat \<Rightarrow> nat" where
  "header_size nHdr =
     (if nHdr \<le> 126 then nHdr + 1
      else let nVarint = sqlite3VarintLen (of_nat nHdr); nHdr = nHdr + nVarint
        in if nVarint < sqlite3VarintLen (of_nat nHdr) then nHdr + 1 else nHdr)"

text \<open>A write through a pointer to \<open>p[off]\<close>.\<close>
definition at_off :: "nat \<Rightarrow> (mem \<Rightarrow> mem) \<Rightarrow> mem \<Rightarrow> mem" where
  "at_off off f p = (\<lambda>i. if i < off then p i else f (\<lambda>j. p (off + j)) (i - off))"

text \<open>The \<open>switch\<close> that falls through from \<open>zPayload[len-1]\<close> to \<open>zPayload[0]\<close>.\<close>
fun put_be :: "nat \<Rightarrow> u64 \<Rightarrow> mem \<Rightarrow> mem" where
  "put_be 0 v p = p"
| "put_be (Suc k) v p = put_be k (drop_bit 8 v) (p(k := ucast (v AND 0xff)))"

text \<open>One turn of the writing loop on the buffer and the two pointers \<open>zHdr\<close> and \<open>zPayload\<close>.\<close>
definition write_field :: "Mem \<Rightarrow> mem \<times> nat \<times> nat \<Rightarrow> mem \<times> nat \<times> nat" where
  "write_field m s =
     (case s of (p, zHdr, zPayload) \<Rightarrow>
        let serial_type = uTemp m in
        if serial_type \<le> 7 then
          let p = p(zHdr := ucast serial_type) in
          if serial_type = 0 then (p, zHdr + 1, zPayload)
          else
            let v = (if serial_type = 7 then u_r m else of_int (u_i m));
                len = sqlite3SmallTypeSizes ! unat serial_type
            in (at_off zPayload (put_be len v) p, zHdr + 1, zPayload + len)
        else if serial_type < 0x80 then
          let p = p(zHdr := ucast serial_type) in
          if serial_type \<ge> 14 \<and> cell_z m \<noteq> []
          then (mem_write p zPayload (cell_z m), zHdr + 1, zPayload + length (cell_z m))
          else (p, zHdr + 1, zPayload)
        else
          let (n, q) = sqlite3PutVarint (\<lambda>j. p (zHdr + j)) (ucast serial_type);
              p = (\<lambda>i. if i < zHdr then p i else q (i - zHdr))
          in (mem_write p zPayload (cell_z m), zHdr + n, zPayload + length (cell_z m)))"

definition write_header :: "nat \<Rightarrow> mem \<Rightarrow> mem \<times> nat" where
  "write_header nHdr p =
     (if nHdr < 0x80 then (p(0 := of_nat nHdr), 1)
      else case sqlite3PutVarint p (of_nat nHdr) of (n, p) \<Rightarrow> (p, n))"

datatype make_result = NoMem | TooBig | Made bytes nat

text \<open>
  The opcode from the sizing loop on.  \<open>szMalloc\<close> is the size of the output register's buffer, \<open>limit\<close> the
  connection's \<open>SQLITE_LIMIT_LENGTH\<close>, \<open>buf\<close> the old content of the buffer.  The result is the
  blob and the number of zero bytes that follow it.
\<close>
definition OP_MakeRecord :: "nat \<Rightarrow> nat \<Rightarrow> nat \<Rightarrow> mem \<Rightarrow> Mem list \<Rightarrow> allocator \<Rightarrow> make_result" where
  "OP_MakeRecord minFormat limit szMalloc buf cells al =
     (case size_pass minFormat cells al of
        None \<Rightarrow> NoMem
      | Some (cells, nHdr, nData, nZero, al) \<Rightarrow>
          let nHdr = header_size nHdr; nByte = nHdr + nData in
          if szMalloc < nByte + nZero \<and> limit < nByte + nZero then TooBig
          else if szMalloc < nByte + nZero \<and> \<not> fst (alloc_block al) then NoMem
          else
            let (p, zHdr) = write_header nHdr buf;
                (p, _, _) = fold write_field cells (p, zHdr, nHdr)
            in Made (map p [0..<nByte]) nZero)"

section \<open>Reading a record\<close>

definition ONE_BYTE_INT :: "mem \<Rightarrow> int" where "ONE_BYTE_INT x = sint (x 0)"
definition TWO_BYTE_INT :: "mem \<Rightarrow> int" where "TWO_BYTE_INT x = 256 * sint (x 0) OR uint (x 1)"
definition THREE_BYTE_INT :: "mem \<Rightarrow> int" where
  "THREE_BYTE_INT x = 65536 * sint (x 0) OR push_bit 8 (uint (x 1)) OR uint (x 2)"
definition FOUR_BYTE_UINT :: "mem \<Rightarrow> u32" where
  "FOUR_BYTE_UINT x = push_bit 24 (ucast (x 0)) OR push_bit 16 (ucast (x 1)) OR push_bit 8 (ucast (x 2)) OR ucast (x 3)"
definition FOUR_BYTE_INT :: "mem \<Rightarrow> int" where
  "FOUR_BYTE_INT x = 16777216 * sint (x 0) OR push_bit 16 (uint (x 1)) OR push_bit 8 (uint (x 2)) OR uint (x 3)"

definition serialGet :: "mem \<Rightarrow> u32 \<Rightarrow> Mem \<Rightarrow> Mem" where
  "serialGet buf serial_type m =
     (let x = push_bit 32 (ucast (FOUR_BYTE_UINT buf)) + ucast (FOUR_BYTE_UINT (\<lambda>i. buf (4 + i))) :: u64 in
      if serial_type = 6 then m\<lparr>u_i := sint x, cell_flags := MEM_Int\<rparr>
      else m\<lparr>u_r := x, cell_flags := (if IsNaN x then MEM_Null else MEM_Real)\<rparr>)"

definition sqlite3VdbeSerialGet :: "mem \<Rightarrow> u32 \<Rightarrow> Mem \<Rightarrow> Mem" where
  "sqlite3VdbeSerialGet buf serial_type m =
     (if serial_type = 10 then m\<lparr>cell_flags := MEM_Null OR MEM_Zero, cell_z := [], u_nZero := 0\<rparr>
      else if serial_type = 11 \<or> serial_type = 0 then m\<lparr>cell_flags := MEM_Null\<rparr>
      else if serial_type = 1 then m\<lparr>u_i := ONE_BYTE_INT buf, cell_flags := MEM_Int\<rparr>
      else if serial_type = 2 then m\<lparr>u_i := TWO_BYTE_INT buf, cell_flags := MEM_Int\<rparr>
      else if serial_type = 3 then m\<lparr>u_i := THREE_BYTE_INT buf, cell_flags := MEM_Int\<rparr>
      else if serial_type = 4 then m\<lparr>u_i := FOUR_BYTE_INT buf, cell_flags := MEM_Int\<rparr>
      else if serial_type = 5 then
        m\<lparr>u_i := uint (FOUR_BYTE_UINT (\<lambda>i. buf (2 + i))) + 2 ^ 32 * TWO_BYTE_INT buf, cell_flags := MEM_Int\<rparr>
      else if serial_type = 6 \<or> serial_type = 7 then serialGet buf serial_type m
      else if serial_type = 8 \<or> serial_type = 9 then
        m\<lparr>u_i := uint serial_type - 8, cell_flags := MEM_Int\<rparr>
      else
        m\<lparr>cell_z := map buf [0..<(unat serial_type - 12) div 2],
          cell_flags := (if odd (unat serial_type) then MEM_Str else MEM_Blob) OR MEM_Ephem\<rparr>)"

text \<open>The loop of \<open>sqlite3VdbeRecordUnpack\<close> on the cells that are left: the cells filled and the offset reached.\<close>
fun unpack_loop :: "mem \<Rightarrow> nat \<Rightarrow> nat \<Rightarrow> nat \<Rightarrow> nat \<Rightarrow> Mem list \<Rightarrow> Mem list \<times> nat" where
  "unpack_loop aKey nKey szHdr idx d [] = ([], d)"
| "unpack_loop aKey nKey szHdr idx d (m # ms) =
     (if idx < szHdr \<and> d \<le> nKey then
        case getVarint32 (\<lambda>i. aKey (idx + i)) of (serial_type, n) \<Rightarrow>
          let m = sqlite3VdbeSerialGet (\<lambda>i. aKey (d + i)) serial_type (m\<lparr>cell_z := []\<rparr>) in
          case unpack_loop aKey nKey szHdr (idx + n) (d + sqlite3VdbeSerialTypeLen serial_type) ms of
            (out, d) \<Rightarrow> (m # out, d)
      else ([], d))"

text \<open>The cells are the \<open>nField\<close> ones of the \<open>UnpackedRecord\<close>; the result is the prefix that is filled.\<close>
definition sqlite3VdbeRecordUnpack :: "mem \<Rightarrow> nat \<Rightarrow> Mem list \<Rightarrow> Mem list" where
  "sqlite3VdbeRecordUnpack aKey nKey cells =
     (case getVarint32 aKey of (szHdr, idx) \<Rightarrow>
      case unpack_loop aKey nKey (unat szHdr) idx (unat szHdr) cells of (out, d) \<Rightarrow>
        if nKey < d \<and> out \<noteq> [] then out[length out - 1 := (last out)\<lparr>cell_flags := MEM_Null\<rparr>] else out)"

section \<open>Bytes in memory\<close>

definition varint_bytes :: "u64 \<Rightarrow> bytes" where
  "varint_bytes v = (case sqlite3PutVarint (\<lambda>_. 0) v of (n, q) \<Rightarrow> map q [0..<n])"

lemma PutVarint_uniform:
  assumes "sqlite3PutVarint p v = (n, q)" "sqlite3PutVarint p' v = (n', q')"
  shows "n = n' \<and> (\<forall>i < n. q i = q' i)"
proof -
  have small: "i < 2 \<Longrightarrow> i = 0 \<or> i = 1" for i :: nat by auto
  show ?thesis
  proof (cases "v \<le> 0x3fff")
    case True
    then show ?thesis using assms small by (auto simp: sqlite3PutVarint_def split: if_splits)
  next
    case False
    then have "\<not> v \<le> 0x7f" by (auto simp: word_le_nat_alt)
    then show ?thesis using assms False
      by (auto simp: sqlite3PutVarint_def putVarint64_def putVarint64_nine_at mem_write_def Let_def less_Suc_eq split: if_splits)
  qed
qed

lemma PutVarint_bytes:
  "sqlite3PutVarint p v = (length (varint_bytes v), mem_write p 0 (varint_bytes v))"
proof -
  obtain n q where put: "sqlite3PutVarint p v = (n, q)" by fastforce
  obtain n' q' where put': "sqlite3PutVarint (\<lambda>_. 0) v = (n', q')" by fastforce
  have u: "n = n'" "\<forall>i < n. q i = q' i" using PutVarint_uniform [OF put put'] by auto
  have "q = mem_write p 0 (varint_bytes v)"
    using u putVarint_frame [OF put] by (auto simp: mem_write_def varint_bytes_def put' fun_eq_iff)
  then show ?thesis using put u by (simp add: varint_bytes_def put')
qed

text \<open>The bytes \<open>bs\<close> stand at \<open>p[off]\<close>.\<close>
definition holds :: "mem \<Rightarrow> nat \<Rightarrow> bytes \<Rightarrow> bool" where
  "holds p off bs \<longleftrightarrow> (\<forall>i < length bs. p (off + i) = bs ! i)"

lemma holds_append:
  "holds p off (xs @ ys) \<longleftrightarrow> holds p off xs \<and> holds p (off + length xs) ys"
proof -
  have "(\<forall>i < a + b. Q i) \<longleftrightarrow> (\<forall>i < a. Q i) \<and> (\<forall>i < b. Q (a + i))" for a b :: nat and Q
    by (metis add_less_cancel_left le_add_diff_inverse linorder_not_less trans_less_add1)
  then show ?thesis by (simp add: holds_def nth_append add.assoc)
qed

lemma holds_map: "holds p off bs \<Longrightarrow> map (\<lambda>i. p (off + i)) [0..<length bs] = bs"
  by (auto simp: holds_def intro!: nth_equalityI)

lemma holds_shift: "holds (\<lambda>i. p (off + i)) k bs \<longleftrightarrow> holds p (off + k) bs"
  by (simp add: holds_def add.assoc)

lemma holds_mem_of: "holds (mem_of bs) 0 bs"
  by (simp add: holds_def mem_of_def)

lemma getVarint_bytes:
  assumes "holds p 0 (varint_bytes v)"
  shows "sqlite3GetVarint p = (v, length (varint_bytes v))"
proof -
  let ?q = "mem_write p 0 (varint_bytes v)"
  have "sqlite3GetVarint ?q = (v, length (varint_bytes v))" using varint.get_put [OF PutVarint_bytes] .
  moreover have "?q = p" using assms by (auto simp: mem_write_def holds_def)
  ultimately show ?thesis by simp
qed

lemma getVarint32_bytes:
  "holds p 0 (varint_bytes (ucast t)) \<Longrightarrow> getVarint32 p = (t, length (varint_bytes (ucast t)))"
  by (simp add: getVarint32_saturates getVarint_bytes ucast_u32_le ucast_u32_id)

lemma varint_bytes_length: "unat v < 2 ^ 63 \<Longrightarrow> length (varint_bytes v) = sqlite3VarintLen v"
  using varintLen_is_width [of v "\<lambda>_. 0"] by (simp add: PutVarint_bytes)

lemma varint_bytes_small: "v \<le> 0x7f \<Longrightarrow> varint_bytes v = [ucast v]"
proof -
  assume v: "v \<le> 0x7f"
  then have "unat v < 2 ^ 7" by (simp add: word_le_nat_alt)
  note hi = high_bits_clear [OF this]
  have "v AND 0x7f = v" by (rule u64_eq_by_bits) (simp add: bitblast hi)
  then show ?thesis using v by (simp add: varint_bytes_def sqlite3PutVarint_def)
qed

section \<open>Big-endian integers\<close>

definition be_bytes :: "nat \<Rightarrow> u64 \<Rightarrow> bytes" where
  "be_bytes len v = map (\<lambda>k. ucast (drop_bit (8 * (len - 1 - k)) v)) [0..<len]"

lemma length_be_bytes: "length (be_bytes len v) = len"
  by (simp add: be_bytes_def)

lemma put_be_at: "put_be len v p i = (if i < len then ucast (drop_bit (8 * (len - 1 - i)) v) else p i)"
proof (induction len arbitrary: v p)
  case (Suc k)
  have "ucast (v AND 0xff) = (ucast v :: u8)" by (rule u8_eq_by_bits) (simp add: bitblast)
  moreover have "8 + 8 * (k - 1 - i) = 8 * (k - i)" if "i < k" using that by (simp add: algebra_simps)
  ultimately show ?case using Suc [of "drop_bit 8 v"] by (auto simp: less_Suc_eq add.commute)
qed simp

lemma put_be_bytes: "at_off off (put_be len v) p = mem_write p off (be_bytes len v)"
  by (auto simp: at_off_def put_be_at mem_write_def be_bytes_def fun_eq_iff)

lemma uint_byte: "uint (ucast (drop_bit k (of_int i :: u64)) :: u8) = i div 2 ^ k mod 256" if "k \<le> 56"
proof -
  have "uint (ucast (drop_bit k (of_int i :: u64)) :: u8) = take_bit 8 (drop_bit k i)"
    using that by (intro bit_eqI) (auto simp: bit_simps bit_uint_iff)
  then show ?thesis by (simp add: take_bit_eq_mod drop_bit_eq_div)
qed

lemma sint_byte: "sint (ucast (drop_bit k (of_int i :: u64)) :: u8) = i div 2 ^ k"
  if "k \<le> 56" "- 128 \<le> i div 2 ^ k" "i div 2 ^ k < 128"
proof -
  have "sint (ucast (drop_bit k (of_int i :: u64)) :: u8) = signed_take_bit 7 (i div 2 ^ k mod 256)"
    using uint_byte [OF that(1), of i] by (simp add: sint_uint)
  also have "\<dots> = signed_take_bit 7 (i div 2 ^ k)"
    using signed_take_bit_take_bit [of 7 8 "i div 2 ^ k"] by (simp add: take_bit_eq_mod)
  also have "\<dots> = i div 2 ^ k" using that(2,3) by (simp add: signed_take_bit_int_eq_self_iff)
  finally show ?thesis .
qed

text \<open>The digits of an integer to the base 256.\<close>
lemma digits:
  "foldl (\<lambda>a b. 256 * a + b) (i div 2 ^ (8 * k)) (map (\<lambda>j. i div 2 ^ (8 * (k - 1 - j)) mod 256) [0..<k]) = (i :: int)"
proof (induction k arbitrary: i)
  case (Suc k)
  have d: "i div 256 div 2 ^ (8 * n) = i div 2 ^ (8 * Suc n)" for n
    by (simp add: zdiv_zmult2_eq [symmetric] power_add)
  have m: "map (\<lambda>j. i div 2 ^ (8 * (k - j)) mod 256) [0..<k] = map (\<lambda>j. i div 256 div 2 ^ (8 * (k - 1 - j)) mod 256) [0..<k]"
  proof (rule map_cong [OF refl])
    fix j assume "j \<in> set [0..<k]"
    then have "k - j = Suc (k - 1 - j)" by auto
    then show "i div 2 ^ (8 * (k - j)) mod 256 = i div 256 div 2 ^ (8 * (k - 1 - j)) mod 256" by (simp only: d)
  qed
  show ?case using Suc [of "i div 256"] by (simp add: d [symmetric] m del: mult_Suc_right)
qed simp

lemma or_high: "push_bit 8 a OR push_bit 8 b = push_bit 8 (a OR b)" for a b :: int
  by simp

declare byte_range [simp]

lemma int_macros:
  "TWO_BYTE_INT x = 256 * sint (x 0) + uint (x 1)"
  "THREE_BYTE_INT x = 256 * (256 * sint (x 0) + uint (x 1)) + uint (x 2)"
  "FOUR_BYTE_INT x = 256 * (256 * (256 * sint (x 0) + uint (x 1)) + uint (x 2)) + uint (x 3)"
proof -
  have h: "65536 * a OR push_bit 8 b = 256 * (256 * a OR b)" "16777216 * a OR push_bit 16 b = 65536 * (256 * a OR b)" for a b :: int
    using or_high [of "256 * a" b] push_bit_or [of 16 "256 * a" b] by (simp_all add: push_bit_eq_mult mult.commute)
  show "TWO_BYTE_INT x = 256 * sint (x 0) + uint (x 1)" by (simp add: TWO_BYTE_INT_def or_low)
  show "THREE_BYTE_INT x = 256 * (256 * sint (x 0) + uint (x 1)) + uint (x 2)"
    by (simp only: THREE_BYTE_INT_def or_low h byte_range flip: or.assoc)
  show "FOUR_BYTE_INT x = 256 * (256 * (256 * sint (x 0) + uint (x 1)) + uint (x 2)) + uint (x 3)"
    by (simp only: FOUR_BYTE_INT_def or_low h byte_range flip: or.assoc)
qed

lemma uint_macro: "uint (FOUR_BYTE_UINT x) = 256 * (256 * (256 * uint (x 0) + uint (x 1)) + uint (x 2)) + uint (x 3)"
proof -
  have p: "uint (push_bit k (ucast (b :: u8)) :: u32) = push_bit k (uint b)" if "k \<le> 24" for k b
    using that by (intro bit_eqI) (auto simp: bit_simps bit_uint_iff dest: bit_imp_le_length)
  have z: "uint (ucast (b :: u8) :: u32) = uint b" for b using p [of 0] by simp
  have p8: "push_bit 8 a = 256 * a" for a :: int by (simp add: push_bit_eq_mult mult.commute)
  have "uint (FOUR_BYTE_UINT x) = push_bit 8 (push_bit 8 (push_bit 8 (uint (x 0)) OR uint (x 1)) OR uint (x 2)) OR uint (x 3)"
    by (simp add: FOUR_BYTE_UINT_def unsigned_or_eq p z or.assoc)
  also have "\<dots> = 256 * (256 * (256 * uint (x 0) + uint (x 1)) + uint (x 2)) + uint (x 3)"
    by (simp only: p8 or_low byte_range)
  finally show ?thesis .
qed

lemma div_between:
  fixes i c :: int
  assumes "0 < c"
  shows "- (128 * c) \<le> i \<Longrightarrow> - 128 \<le> i div c" "i < 128 * c \<Longrightarrow> i div c < 128"
proof -
  show "- 128 \<le> i div c" if "- (128 * c) \<le> i"
    using zdiv_mono1 [of "(- 128) * c" i c] nonzero_mult_div_cancel_right [of c "- 128"] that assms by simp
  show "i div c < 128" if "i < 128 * c"
    using zdiv_mono1 [of i "127 * c + (c - 1)" c] that assms div_mult_self3 [of c 127 "c - 1"] by simp
qed

text \<open>The bytes of an integer in memory.\<close>
lemma be_at:
  assumes "holds buf 0 (be_bytes len (of_int i))" "len \<le> 8" "k < len"
  shows "uint (buf k) = i div 2 ^ (8 * (len - 1 - k)) mod 256"
    and "- (2 ^ (8 * len - 1)) \<le> i \<Longrightarrow> i < 2 ^ (8 * len - 1) \<Longrightarrow> sint (buf 0) = i div 2 ^ (8 * (len - 1))"
proof -
  have b: "buf j = ucast (drop_bit (8 * (len - 1 - j)) (of_int i :: u64))" if "j < len" for j
    using assms(1) that by (simp add: holds_def be_bytes_def)
  show "uint (buf k) = i div 2 ^ (8 * (len - 1 - k)) mod 256"
    unfolding b [OF assms(3)] using assms by (intro uint_byte) simp
  assume i: "- (2 ^ (8 * len - 1)) \<le> i" "i < 2 ^ (8 * len - 1)"
  have e: "8 * len - 1 = 7 + 8 * (len - 1)" using assms(3) by simp
  have "- 128 \<le> i div 2 ^ (8 * (len - 1))" "i div 2 ^ (8 * (len - 1)) < 128"
    using i unfolding e power_add by (auto intro!: div_between)
  then show "sint (buf 0) = i div 2 ^ (8 * (len - 1))"
    using b [of 0] assms(2,3) by (simp add: sint_byte)
qed

lemma be_fold:
  assumes "holds buf 0 (be_bytes len (of_int i))" "0 < len" "len \<le> 8" "- (2 ^ (8 * len - 1)) \<le> i" "i < 2 ^ (8 * len - 1)"
  shows "foldl (\<lambda>a b. 256 * a + b) (sint (buf 0)) (map (\<lambda>k. uint (buf k)) [1..<len]) = i"
proof -
  have "map (\<lambda>k. uint (buf k)) [1..<len] = map (\<lambda>j. i div 2 ^ (8 * (len - 1 - 1 - j)) mod 256) [0..<len - 1]"
    using be_at(1) [OF assms(1,3)] by (intro nth_equalityI) auto
  then show ?thesis using be_at(2) [OF assms(1,3,2,4,5)] digits [of i "len - 1"] by simp
qed

lemma serial_ints:
  assumes "holds buf 0 (be_bytes len (of_int i))" "- (2 ^ (8 * len - 1)) \<le> i" "i < 2 ^ (8 * len - 1)"
  shows "len = 1 \<Longrightarrow> ONE_BYTE_INT buf = i" "len = 2 \<Longrightarrow> TWO_BYTE_INT buf = i"
    "len = 3 \<Longrightarrow> THREE_BYTE_INT buf = i" "len = 4 \<Longrightarrow> FOUR_BYTE_INT buf = i"
    "len = 6 \<Longrightarrow> uint (FOUR_BYTE_UINT (\<lambda>k. buf (2 + k))) + 2 ^ 32 * TWO_BYTE_INT buf = i"
  using be_fold [OF assms(1) _ _ assms(2,3)]
  by (simp_all add: ONE_BYTE_INT_def int_macros uint_macro upt_rec eval_nat_numeral algebra_simps)

lemma serial_word:
  assumes "holds buf 0 (be_bytes 8 v)"
  shows "push_bit 32 (ucast (FOUR_BYTE_UINT buf)) + ucast (FOUR_BYTE_UINT (\<lambda>i. buf (4 + i))) = v"
proof -
  have b: "uint (buf k) = uint v div 2 ^ (8 * (7 - k)) mod 256" if "k < 8" for k
    using be_at(1) [of buf 8 "uint v" k] assms that by simp
  let ?a = "FOUR_BYTE_UINT buf" and ?c = "FOUR_BYTE_UINT (\<lambda>i. buf (4 + i))"
  have "map (\<lambda>k. uint (buf k)) [0..<8] = map (\<lambda>j. uint v div 2 ^ (8 * (8 - 1 - j)) mod 256) [0..<8]"
    using b by (intro map_cong) auto
  moreover have "uint v div 2 ^ (8 * 8) = 0" using uint_lt2p [of v] by simp
  ultimately have "foldl (\<lambda>a b. 256 * a + b) 0 (map (\<lambda>k. uint (buf k)) [0..<8]) = uint v"
    using digits [of "uint v" 8] by (simp only:)
  then have v: "2 ^ 32 * uint ?a + uint ?c = uint v" by (simp add: uint_macro upt_rec eval_nat_numeral algebra_simps)
  have "(of_int (2 ^ 32 * uint ?a + uint ?c) :: u64) = push_bit 32 (ucast ?a) + ucast ?c"
    by (simp add: push_bit_eq_mult mult.commute)
  then show ?thesis unfolding v by simp
qed

section \<open>Doubles of integers\<close>

lemma top_bit_bounds: "m < 2 ^ Suc (top_bit m)" "0 < m \<Longrightarrow> 2 ^ top_bit m \<le> m"
proof (induction m rule: top_bit.induct)
  case (1 m)
  {
    case 1
    then show ?case using \<open>\<not> m < 2 \<Longrightarrow> m div 2 < 2 ^ Suc (top_bit (m div 2))\<close> by (subst top_bit.simps) auto
  next
    case 2
    then show ?case using "1.IH"(2) by (subst top_bit.simps) auto
  }
qed

lemma mantissa_bounds:
  assumes "0 < m"
  shows "mantissa m \<le> 2 ^ 53"
proof -
  define e where "e = top_bit m"
  have m: "m < 2 ^ Suc e" using top_bit_bounds(1) by (simp add: e_def)
  show ?thesis
  proof (cases "e \<le> 52")
    case True
    have "m * 2 ^ (52 - e) < 2 ^ Suc e * 2 ^ (52 - e)" using m by simp
    also have "\<dots> = 2 ^ 53" using True by (simp flip: power_add power_Suc)
    finally show ?thesis using True by (simp add: mantissa_def Let_def e_def [symmetric])
  next
    case False
    have "Suc e = 53 + (e - 52)" using False by simp
    then have "2 ^ Suc e = (2 ^ 53 :: nat) * 2 ^ (e - 52)" by (simp only: power_add)
    then have "m div 2 ^ (e - 52) < 2 ^ 53" using m by (simp add: less_mult_imp_div_less)
    then show ?thesis using False by (simp add: mantissa_def Let_def e_def [symmetric])
  qed
qed

lemma IsNaN_exponent: "IsNaN x \<Longrightarrow> 2047 * 2 ^ 52 \<le> unat x mod 2 ^ 63"
proof -
  assume n: "IsNaN x"
  let ?y = "x AND mask 63"
  have "EXP754 AND mask 63 = EXP754" by (simp add: EXP754_def mask_eq_decr_exp)
  then have "?y AND EXP754 = EXP754" using n by (metis IsNaN_def and.assoc and.commute)
  then have "EXP754 \<le> ?y" by (metis word_and_le2)
  then have "unat EXP754 \<le> unat ?y" by (simp add: word_le_nat_alt)
  moreover have "unat ?y = unat x mod 2 ^ 63"
    by (simp add: take_bit_eq_mod unat_mod flip: take_bit_eq_mask)
  moreover have "unat EXP754 = 2047 * 2 ^ 52" by (simp add: EXP754_def)
  ultimately show ?thesis by simp
qed

lemma double_of_not_NaN: "is_i64 i \<Longrightarrow> \<not> IsNaN (double_of i)"
proof (cases "i = 0")
  case True
  then show ?thesis by (simp add: double_of_def IsNaN_def EXP754_def)
next
  case False
  assume i: "is_i64 i"
  define m where "m = nat \<bar>i\<bar>"
  have m: "0 < m" "m \<le> 2 ^ 63" using False i by (auto simp: m_def is_i64_def)
  have "2 ^ top_bit m \<le> (2 ^ 63 :: nat)" using top_bit_bounds(2) [OF m(1)] m(2) by simp
  then have e: "top_bit m \<le> 63" by (rule power_le_imp_le_exp [rotated]) simp
  define r where "r = (1023 + top_bit m) * 2 ^ 52 + (mantissa m - 2 ^ 52)"
  have "(1023 + top_bit m) * 2 ^ 52 \<le> (1023 + 63) * (2 ^ 52 :: nat)" using e by (intro mult_le_mono1) simp
  then have r: "r < 2047 * 2 ^ 52" using mantissa_bounds [OF m(1)] by (simp add: r_def)
  define s where "s = (if i < 0 then 2 ^ 63 else 0 :: nat)"
  have "double_of i = of_nat (s + r)"
    using m(1) by (simp add: double_of_def Let_def r_def s_def m_def [symmetric] add.assoc)
  moreover have "s + r < 2 ^ 64" using r by (simp add: s_def)
  ultimately have "unat (double_of i) = s + r" by (simp add: unat_of_nat del: of_nat_add)
  then have "unat (double_of i) mod 2 ^ 63 = r" using r by (simp add: s_def)
  then show ?thesis using IsNaN_exponent r by fastforce
qed

section \<open>What a field stores\<close>

datatype stored_value = SNull | SNoChange | SInt int | SReal u64 | SText bytes | SBlob bytes

text \<open>
  The value of a cell as a record keeps it.  An integer marked as real is kept as an integer when it fits
  six bytes and as a double otherwise, and a \<open>NaN\<close> is kept as \<open>NULL\<close>.
\<close>
definition stored :: "Mem \<Rightarrow> stored_value" where
  "stored m =
     (if has m MEM_Null then if has m MEM_Zero then SNoChange else SNull
      else if has m (MEM_Int OR MEM_IntReal) then
        if has m MEM_IntReal \<and> \<not> (- (2 ^ 47) \<le> u_i m \<and> u_i m < 2 ^ 47) then SReal (double_of (u_i m)) else SInt (u_i m)
      else if has m MEM_Real then if IsNaN (u_r m) then SNull else SReal (u_r m)
      else
        let b = cell_z m @ (if has m MEM_Zero then replicate (u_nZero m) 0 else [])
        in if has m MEM_Str then SText b else SBlob b)"

definition cell_ok :: "Mem \<Rightarrow> bool" where
  "cell_ok m \<longleftrightarrow> is_i64 (u_i m) \<and> 2 * (length (cell_z m) + u_nZero m) + 13 < 2 ^ 32"

text \<open>The bytes of a sized cell in the payload, and with the zeros that follow it.\<close>
definition pay :: "Mem \<Rightarrow> bytes" where
  "pay m =
     (if uTemp m \<le> 7 then be_bytes (sqlite3SmallTypeSizes ! unat (uTemp m)) (if uTemp m = 7 then u_r m else of_int (u_i m))
      else if uTemp m < 14 then [] else cell_z m)"

definition full :: "Mem \<Rightarrow> bytes" where
  "full m = pay m @ (if 12 \<le> uTemp m \<and> has m MEM_Zero then replicate (u_nZero m) 0 else [])"

abbreviation hdr :: "Mem \<Rightarrow> bytes" where
  "hdr m \<equiv> varint_bytes (ucast (uTemp m))"

text \<open>What one turn of the sizing loop establishes for a cell \<open>m\<close> that becomes \<open>m'\<close>.\<close>
definition sized :: "Mem \<Rightarrow> Mem \<Rightarrow> bool" where
  "sized m m' \<longleftrightarrow> sqlite3VdbeSerialTypeLen (uTemp m') = length (full m')
     \<and> (\<forall>buf c. holds buf 0 (full m') \<longrightarrow> stored (sqlite3VdbeSerialGet buf (uTemp m') c) = stored m)
     \<and> (has m MEM_Null \<longrightarrow> uTemp m' = (if has m MEM_Zero then 10 else 0))"

lemma flag_masks:
  "MEM_Str \<noteq> 0" "MEM_Int \<noteq> 0" "MEM_Real \<noteq> 0" "MEM_Null \<noteq> 0" "MEM_Int AND MEM_Null = 0" "MEM_Int AND (MEM_Int OR MEM_IntReal) \<noteq> 0" "MEM_Int AND MEM_IntReal = 0"
  "MEM_Real AND MEM_Null = 0" "MEM_Real AND (MEM_Int OR MEM_IntReal) = 0" "MEM_Real AND MEM_Real \<noteq> 0"
  "MEM_Null AND MEM_Null \<noteq> 0" "MEM_Null AND MEM_Zero = 0"
  "(MEM_Null OR MEM_Zero) AND MEM_Null \<noteq> 0" "(MEM_Null OR MEM_Zero) AND MEM_Zero \<noteq> 0"
  "(MEM_Str OR MEM_Ephem) AND MEM_Null = 0" "(MEM_Str OR MEM_Ephem) AND (MEM_Int OR MEM_IntReal) = 0"
  "(MEM_Str OR MEM_Ephem) AND MEM_Real = 0" "(MEM_Str OR MEM_Ephem) AND MEM_Zero = 0" "(MEM_Str OR MEM_Ephem) AND MEM_Str \<noteq> 0"
  "(MEM_Blob OR MEM_Ephem) AND MEM_Null = 0" "(MEM_Blob OR MEM_Ephem) AND (MEM_Int OR MEM_IntReal) = 0"
  "(MEM_Blob OR MEM_Ephem) AND MEM_Real = 0" "(MEM_Blob OR MEM_Ephem) AND MEM_Zero = 0" "(MEM_Blob OR MEM_Ephem) AND MEM_Str = 0"
  by (simp_all add: MEM_Null_def MEM_Int_def MEM_IntReal_def MEM_Real_def MEM_Zero_def MEM_Str_def MEM_Ephem_def MEM_Blob_def)

lemma small_sizes:
  assumes "12 \<le> k" "k < 128"
  shows "sqlite3SmallTypeSizes ! k = (k - 12) div 2"
proof -
  have "list_all (\<lambda>k. sqlite3SmallTypeSizes ! k = (k - 12) div 2) [12..<128]"
    by (simp add: sqlite3SmallTypeSizes_def upt_rec)
  moreover have "k \<in> set [12..<128]" unfolding set_upt using assms by simp
  ultimately show ?thesis unfolding list_all_iff by (rule bspec)
qed

lemma small_sizes_int:
  "sqlite3SmallTypeSizes ! 0 = 0" "sqlite3SmallTypeSizes ! Suc 0 = 1" "sqlite3SmallTypeSizes ! 2 = 2"
  "sqlite3SmallTypeSizes ! 3 = 3" "sqlite3SmallTypeSizes ! 4 = 4" "sqlite3SmallTypeSizes ! 5 = 6"
  "sqlite3SmallTypeSizes ! 6 = 8" "sqlite3SmallTypeSizes ! 7 = 8" "sqlite3SmallTypeSizes ! 8 = 0"
  "sqlite3SmallTypeSizes ! 9 = 0" "sqlite3SmallTypeSizes ! 10 = 0"
  by (simp_all add: sqlite3SmallTypeSizes_def)

lemma text_type:
  fixes st :: u32
  assumes "2 * n + 13 < 2 ^ 32" "st = of_nat n * 2 + 12 + of_bool s"
  shows "unat st = 2 * n + 12 + of_bool s" "12 \<le> st" "sqlite3VdbeSerialTypeLen st = n"
    "sqlite3VdbeSerialGet buf st c
       = c\<lparr>cell_z := map buf [0..<n], cell_flags := (if s then MEM_Str else MEM_Blob) OR MEM_Ephem\<rparr>"
proof -
  have "st = of_nat (2 * n + 12 + of_bool s)" using assms(2) by (simp add: mult.commute)
  moreover have "2 * n + 12 + of_bool s < 2 ^ 32" using assms(1) by simp
  ultimately show u: "unat st = 2 * n + 12 + of_bool s" by (simp only: unat_of_nat_u32)
  then show ge: "12 \<le> st" by (simp add: word_le_nat_alt)
  have h: "(unat st - 12) div 2 = n" unfolding u by simp
  then show "sqlite3VdbeSerialTypeLen st = n"
    using small_sizes [of "unat st"] ge by (auto simp: sqlite3VdbeSerialTypeLen_def word_le_nat_alt)
  have "odd (unat st) = s" unfolding u by simp
  moreover have "st \<noteq> k" if "unat k < 12" for k using ge that by (auto simp: word_le_nat_alt)
  ultimately show "sqlite3VdbeSerialGet buf st c
       = c\<lparr>cell_z := map buf [0..<n], cell_flags := (if s then MEM_Str else MEM_Blob) OR MEM_Ephem\<rparr>"
    using h by (simp add: sqlite3VdbeSerialGet_def)
qed

lemma stored_text:
  "stored (c\<lparr>cell_z := z, cell_flags := (if s then MEM_Str else MEM_Blob) OR MEM_Ephem\<rparr>) = (if s then SText z else SBlob z)"
  by (auto simp: stored_def flag_masks)

text \<open>The serial type of an integer fits it.\<close>
lemma int_type_cases:
  assumes t: "int_type fmt ir i = (t, n)" and i: "is_i64 i"
  obtains "t = 8 + of_int i" "i = 0 \<or> i = 1" "n = 0"
  | "t \<in> {1, 2, 3, 4, 5}" "n = sqlite3SmallTypeSizes ! unat t" "- (2 ^ (8 * n - 1)) \<le> i" "i < 2 ^ (8 * n - 1)" "- (2 ^ 47) \<le> i" "i < 2 ^ 47"
  | "t = (if ir then 7 else 6)" "n = 8" "\<not> (- (2 ^ 47) \<le> i \<and> i < 2 ^ 47)"
proof -
  define uu where "uu = (if i < 0 then - i - 1 else i)"
  note d = int_type_def Let_def uu_def [symmetric]
  have r: "uu < k \<longleftrightarrow> - k \<le> i \<and> i < k" for k by (auto simp: uu_def)
  have r': "- k \<le> i" "i < k" if "uu < k" for k using r that by auto
  have "uu < 128 \<or> 128 \<le> uu \<and> uu < 32768 \<or> 32768 \<le> uu \<and> uu < 8388608 \<or> 8388608 \<le> uu \<and> uu < 2147483648
    \<or> 2147483648 \<le> uu \<and> uu < 140737488355328 \<or> 140737488355328 \<le> uu" by linarith
  then consider "uu < 128" | "128 \<le> uu" "uu < 32768" | "32768 \<le> uu" "uu < 8388608" | "8388608 \<le> uu" "uu < 2147483648"
    | "2147483648 \<le> uu" "uu < 140737488355328" | "140737488355328 \<le> uu" by blast
  then show thesis
  proof cases
    case 1
    show ?thesis
    proof (cases "(i = 0 \<or> i = 1) \<and> fmt \<ge> 4")
      case True
      then show ?thesis using t that(1) by (auto simp: int_type_def)
    next
      case False
      then have "t = 1" "n = 1" using 1 t by (auto simp: d split: if_splits)
      then show ?thesis using that(2) r' [OF 1] by (simp add: small_sizes_int)
    qed
  next
    case 2
    then show ?thesis using t that(2) r' [of 32768] by (simp add: d small_sizes_int)
  next
    case 3
    then show ?thesis using t that(2) r' [of 8388608] by (simp add: d small_sizes_int)
  next
    case 4
    then show ?thesis using t that(2) r' [of 2147483648] by (simp add: d small_sizes_int)
  next
    case 5
    then show ?thesis using t that(2) r' [of 140737488355328] by (simp add: d small_sizes_int)
  next
    case 6
    then show ?thesis using t that(3) r [of 140737488355328] by (simp add: d)
  qed
qed

lemma get_int:
  assumes "holds buf 0 (be_bytes (sqlite3SmallTypeSizes ! unat t) (of_int i))" "t \<in> {1, 2, 3, 4, 5, 6}"
    "- (2 ^ (8 * (sqlite3SmallTypeSizes ! unat t) - 1)) \<le> i" "i < 2 ^ (8 * (sqlite3SmallTypeSizes ! unat t) - 1)"
  shows "sqlite3VdbeSerialGet buf t c = c\<lparr>u_i := i, cell_flags := MEM_Int\<rparr>"
proof -
  consider "t \<in> {1, 2, 3, 4, 5}" | "t = 6" using assms(2) by blast
  then show ?thesis
  proof cases
    case 1
    then show ?thesis using serial_ints [OF assms(1,3,4)]
      by (auto simp: sqlite3VdbeSerialGet_def small_sizes_int)
  next
    case 2
    then have "sint (of_int i :: u64) = i"
      using assms(3,4) by (simp add: small_sizes_int signed_of_int signed_take_bit_int_eq_self)
    then show ?thesis using 2 serial_word [of buf "of_int i"] assms(1)
      by (simp add: sqlite3VdbeSerialGet_def serialGet_def small_sizes_int)
  qed
qed

lemma stored_int: "stored (c\<lparr>u_i := i, cell_flags := MEM_Int\<rparr>) = SInt i"
  by (simp add: stored_def flag_masks)

lemma stored_real: "\<not> IsNaN x \<Longrightarrow> stored (c\<lparr>u_r := x, cell_flags := MEM_Real\<rparr>) = SReal x"
  by (simp add: stored_def flag_masks)

lemma get_constant:
  "sqlite3VdbeSerialGet buf 8 c = c\<lparr>u_i := 0, cell_flags := MEM_Int\<rparr>"
  "sqlite3VdbeSerialGet buf 9 c = c\<lparr>u_i := 1, cell_flags := MEM_Int\<rparr>"
  by (simp_all add: sqlite3VdbeSerialGet_def)

lemma get_real:
  "holds buf 0 (be_bytes 8 v) \<Longrightarrow>
     sqlite3VdbeSerialGet buf 7 c = c\<lparr>u_r := v, cell_flags := (if IsNaN v then MEM_Null else MEM_Real)\<rparr>"
  by (simp add: sqlite3VdbeSerialGet_def serialGet_def serial_word)

lemma sized_null:
  assumes "has m MEM_Null" "m' = m\<lparr>uTemp := (if has m MEM_Zero then 10 else 0)\<rparr>"
  shows "sized m m'" "pay m' = []" "full m' = []"
proof -
  show p: "pay m' = []" using assms by (simp add: pay_def be_bytes_def small_sizes_int)
  show f: "full m' = []" using assms p by (auto simp: full_def)
  show "sized m m'" unfolding sized_def f using assms
    by (auto simp: sqlite3VdbeSerialTypeLen_def small_sizes_int sqlite3VdbeSerialGet_def stored_def flag_masks)
qed

lemma sized_int:
  assumes m: "\<not> has m MEM_Null" "has m (MEM_Int OR MEM_IntReal)" "is_i64 (u_i m)"
    and t: "int_type fmt (has m MEM_IntReal) (u_i m) = (t, n)"
    and m': "m' = (if t = 7 then m\<lparr>u_r := double_of (u_i m),
                  cell_flags := (cell_flags m AND NOT MEM_IntReal) OR MEM_Real, uTemp := t\<rparr> else m\<lparr>uTemp := t\<rparr>)"
  shows "sized m m'" "full m' = pay m'" "length (pay m') = n" "uTemp m' < 12"
proof -
  have "sized m m' \<and> full m' = pay m' \<and> length (pay m') = n \<and> uTemp m' < 12"
    using t m(3)
  proof (cases rule: int_type_cases)
    case 1
    then have t: "t = 8 \<and> u_i m = 0 \<or> t = 9 \<and> u_i m = 1" by auto
    then have p: "pay m' = []" "full m' = []" "uTemp m' = t" by (auto simp: m' pay_def full_def)
    have s: "stored m = SInt (u_i m)" using m 1(2) by (auto simp: stored_def)
    have "stored (sqlite3VdbeSerialGet buf t c) = SInt (u_i m)" for buf c
      using t by (auto simp: get_constant stored_int)
    then have "sized m m'" using t m(1) by (auto simp: sized_def p s sqlite3VdbeSerialTypeLen_def small_sizes_int)
    then show ?thesis using t p 1(3) by auto
  next
    case 2
    have p: "pay m' = be_bytes n (of_int (u_i m))" "full m' = pay m'" "uTemp m' = t"
      using 2(1,2) by (auto simp: m' pay_def full_def word_le_nat_alt)
    have s: "stored m = SInt (u_i m)" using m 2(5,6) by (simp add: stored_def)
    have "sized m m'" unfolding sized_def p s
    proof (intro conjI allI impI)
      show "sqlite3VdbeSerialTypeLen t = length (be_bytes n (of_int (u_i m)))"
        using 2(1,2) by (auto simp: sqlite3VdbeSerialTypeLen_def be_bytes_def word_le_nat_alt)
      fix buf c
      assume "holds buf 0 (be_bytes n (of_int (u_i m)))"
      then have "sqlite3VdbeSerialGet buf t c = c\<lparr>u_i := u_i m, cell_flags := MEM_Int\<rparr>"
        using 2(1,3,4) unfolding 2(2) by (intro get_int) auto
      then show "stored (sqlite3VdbeSerialGet buf t c) = SInt (u_i m)" by (simp add: stored_int)
    qed (use m(1) in simp)
    then show ?thesis using p 2(1) by (auto simp: be_bytes_def)
  next
    case 3
    show ?thesis
    proof (cases "has m MEM_IntReal")
      case True
      then have p: "pay m' = be_bytes 8 (double_of (u_i m))" "full m' = pay m'" "uTemp m' = 7"
        using 3 by (auto simp: m' pay_def full_def small_sizes_int)
      have "stored m = SReal (double_of (u_i m))" using m True 3(3) by (auto simp: stored_def)
      then have "sized m m'" unfolding sized_def p
        using double_of_not_NaN [OF m(3)] m(1)
        by (simp add: sqlite3VdbeSerialTypeLen_def small_sizes_int get_real stored_real length_be_bytes)
      then show ?thesis using p 3(2) by (simp add: be_bytes_def)
    next
      case False
      then have p: "pay m' = be_bytes 8 (of_int (u_i m))" "full m' = pay m'" "uTemp m' = 6"
        using 3 by (auto simp: m' pay_def full_def small_sizes_int)
      have "stored m = SInt (u_i m)" using m False by (auto simp: stored_def)
      then have "sized m m'" unfolding sized_def p
        using get_int [of _ 6 "u_i m"] m(1,3)
        by (simp add: sqlite3VdbeSerialTypeLen_def small_sizes_int length_be_bytes is_i64_def stored_int)
      then show ?thesis using p 3(2) by (simp add: be_bytes_def)
    qed
  qed
  then show "sized m m'" "full m' = pay m'" "length (pay m') = n" "uTemp m' < 12" by auto
qed

lemma sized_real:
  assumes "\<not> has m MEM_Null" "\<not> has m (MEM_Int OR MEM_IntReal)" "has m MEM_Real" "m' = m\<lparr>uTemp := 7\<rparr>"
  shows "sized m m'" "full m' = pay m'" "length (pay m') = 8"
proof -
  have p: "pay m' = be_bytes 8 (u_r m)" "uTemp m' = 7" using assms(4) by (simp_all add: pay_def small_sizes_int)
  then show f: "full m' = pay m'" by (simp add: full_def)
  show "length (pay m') = 8" by (simp add: p length_be_bytes)
  have "stored m = (if IsNaN (u_r m) then SNull else SReal (u_r m))" using assms by (simp add: stored_def)
  moreover have "stored (c\<lparr>u_r := u_r m, cell_flags := (if IsNaN (u_r m) then MEM_Null else MEM_Real)\<rparr>)
      = (if IsNaN (u_r m) then SNull else SReal (u_r m))" for c :: Mem
    using stored_real [of "u_r m" c] by (auto simp: stored_def flag_masks)
  ultimately show "sized m m'" unfolding sized_def f p using assms(1)
    by (simp add: sqlite3VdbeSerialTypeLen_def small_sizes_int get_real length_be_bytes)
qed

text \<open>The data of a text or blob cell \<open>m\<close>, with its zeros written out or left to follow.\<close>
lemma sized_text:
  assumes m: "\<not> has m MEM_Null" "\<not> has m (MEM_Int OR MEM_IntReal)" "\<not> has m MEM_Real"
    and b: "b = cell_z m @ (if has m MEM_Zero then replicate (u_nZero m) 0 else [])"
    and len: "2 * length b + 13 < 2 ^ 32" and st: "uTemp m' = of_nat (length b) * 2 + 12 + of_bool (has m MEM_Str)"
    and z: "b = cell_z m' @ (if has m' MEM_Zero then replicate (u_nZero m') 0 else [])"
  shows "sized m m'" "pay m' = cell_z m'" "full m' = b"
proof -
  note T = text_type [OF len st]
  have e: "unat (uTemp m') < 14 \<longleftrightarrow> b = []" unfolding T(1) by (auto simp: Suc_le_eq)
  show p: "pay m' = cell_z m'" using T(2) e z by (auto simp: pay_def word_le_nat_alt word_less_nat_alt)
  show f: "full m' = b" using T(2) z by (simp add: full_def p)
  have "stored m = (if has m MEM_Str then SText b else SBlob b)" using m b by (auto simp: stored_def)
  then show "sized m m'" unfolding sized_def f using T(3,4) holds_map [of _ 0 b] m(1) by (auto simp: stored_text)
qed

lemma hdr_length: "length (varint_bytes (ucast (t :: u32))) = sqlite3VarintLen (ucast t)"
proof -
  have "unat (ucast t :: u64) \<le> 0xffffffff" using ucast_u32_le [of t] by (simp add: word_le_nat_alt)
  then show ?thesis by (intro varint_bytes_length) simp
qed

lemma hdr_small: "t < 0x80 \<Longrightarrow> varint_bytes (ucast (t :: u32)) = [ucast t]"
proof -
  assume t: "t < 0x80"
  then have "(ucast t :: u64) \<le> 0x7f"
    by (simp add: word_le_nat_alt word_less_nat_alt unat_ucast take_bit_nat_eq_self)
  moreover have "ucast (ucast t :: u64) = (ucast t :: u8)" by (rule u8_eq_by_bits) (simp add: bitblast)
  ultimately show ?thesis by (simp add: varint_bytes_small)
qed

lemma cleared_Zero: "(f AND NOT (MEM_Zero OR MEM_Term)) AND MEM_Zero = 0"
  by (rule u16_eq_by_bits) (simp add: bitblast MEM_Zero_def MEM_Term_def)

lemma expand_ok:
  assumes "sqlite3VdbeMemExpandBlob m al = (SQLITE_OK, m1, al1)" "has m MEM_Zero"
  shows "cell_z m @ replicate (u_nZero m) 0 = cell_z m1 @ (if has m1 MEM_Zero then replicate (u_nZero m1) 0 else [])"
    "length (cell_z m1) = length (cell_z m) + u_nZero m" "u_nZero m1 = u_nZero m" "has m1 MEM_Zero \<Longrightarrow> u_nZero m1 = 0"
  using assms cleared_Zero [of "cell_flags m"]
  by (auto simp: sqlite3VdbeMemExpandBlob_def SQLITE_OK_def SQLITE_NOMEM_def split: if_splits prod.splits)

lemma size_field_ok:
  assumes ok: "cell_ok m" and r: "size_field fmt m nData al = Some (m', h, d, z, al')"
  shows "sized m m' \<and> h = length (hdr m') \<and> d = length (pay m') \<and> full m' = pay m' @ replicate z 0 \<and> (nData \<noteq> 0 \<longrightarrow> z = 0)"
proof -
  have i: "is_i64 (u_i m)" and n: "2 * (length (cell_z m) + u_nZero m) + 13 < 2 ^ 32" using ok by (simp_all add: cell_ok_def)
  consider "has m MEM_Null" | "\<not> has m MEM_Null" "has m (MEM_Int OR MEM_IntReal)"
    | "\<not> has m MEM_Null" "\<not> has m (MEM_Int OR MEM_IntReal)" "has m MEM_Real"
    | "\<not> has m MEM_Null" "\<not> has m (MEM_Int OR MEM_IntReal)" "\<not> has m MEM_Real" by blast
  then show ?thesis
  proof cases
    case 1
    then show ?thesis using r sized_null [OF 1] hdr_small [of 0] hdr_small [of 10] by (auto simp: size_field_def)
  next
    case 2
    obtain t k where t: "int_type fmt (has m MEM_IntReal) (u_i m) = (t, k)" by fastforce
    note S = sized_int [OF 2 i t]
    have "uTemp m' < 12" "h = 1" "d = k" "z = 0" using r 2 t S(4) [OF refl] by (auto simp: size_field_def)
    then show ?thesis using S [of m'] r 2 t hdr_small [of "uTemp m'"]
      by (auto simp: size_field_def word_less_nat_alt)
  next
    case 3
    then show ?thesis using r sized_real [OF 3] hdr_small [of 7] by (auto simp: size_field_def)
  next
    case 4
    define b where "b = cell_z m @ (if has m MEM_Zero then replicate (u_nZero m) 0 else [])"
    have len: "2 * length b + 13 < 2 ^ 32" using n by (auto simp: b_def)
    note S = sized_text [OF 4 b_def len]
    show ?thesis
    proof (cases "has m MEM_Zero \<and> nData \<noteq> 0")
      case True
      obtain rc m1 al1 where e: "sqlite3VdbeMemExpandBlob m al = (rc, m1, al1)" by (metis prod_cases3)
      have rc: "rc = SQLITE_OK" using r 4 True e by (auto simp: size_field_def Let_def split: if_splits)
      note E = expand_ok [OF e [unfolded rc]]
      have m': "m' = m1\<lparr>uTemp := of_nat (length (cell_z m)) * 2 + 12 + of_bool (has m MEM_Str) + of_nat (u_nZero m) * 2\<rparr>"
        "h = sqlite3VarintLen (ucast (uTemp m'))" "d = length (cell_z m) + u_nZero m" "z = 0"
        using r 4 True e rc E(3) by (auto simp: size_field_def Let_def)
      have "length b = length (cell_z m) + u_nZero m" using True by (simp add: b_def)
      then have "uTemp m' = of_nat (length b) * 2 + 12 + of_bool (has m MEM_Str)" by (simp add: m' algebra_simps)
      moreover have "b = cell_z m' @ (if has m' MEM_Zero then replicate (u_nZero m') 0 else [])"
        using True E(1) by (simp add: m' b_def)
      ultimately show ?thesis using S [of m'] E True m' hdr_length by (auto simp: b_def)
    next
      case False
      define k where "k = (if has m MEM_Zero then u_nZero m else 0)"
      have m': "m' = m\<lparr>uTemp := of_nat (length b) * 2 + 12 + of_bool (has m MEM_Str)\<rparr>"
        "h = sqlite3VarintLen (ucast (uTemp m'))" "d = length (cell_z m)" "z = k"
        using r 4 False by (auto simp: size_field_def Let_def b_def k_def algebra_simps split: if_splits)
      have "b = cell_z m' @ (if has m' MEM_Zero then replicate (u_nZero m') 0 else [])" "b = cell_z m @ replicate k 0"
        by (auto simp: m' b_def k_def)
      then show ?thesis using S [of m'] False m' hdr_length by (auto simp: k_def)
    qed
  qed
qed

abbreviation hdrs :: "Mem list \<Rightarrow> bytes" where "hdrs ms \<equiv> concat (map hdr ms)"
abbreviation pays :: "Mem list \<Rightarrow> bytes" where "pays ms \<equiv> concat (map pay ms)"
abbreviation fulls :: "Mem list \<Rightarrow> bytes" where "fulls ms \<equiv> concat (map full ms)"

text \<open>The whole sizing loop: the zeros that are not written out are at the end of the record.\<close>
lemma size_pass_ok:
  assumes "list_all cell_ok ms" "size_pass fmt ms al = Some (ms', nHdr, nData, nZero, al')"
  shows "list_all2 sized ms ms' \<and> nHdr = length (hdrs ms') \<and> nData = length (pays ms') \<and> fulls ms' = pays ms' @ replicate nZero 0"
  using assms
proof (induction ms arbitrary: ms' nHdr nData nZero al')
  case (Cons m ms)
  obtain ms1 h1 d1 z1 al1 where s: "size_pass fmt ms al = Some (ms1, h1, d1, z1, al1)"
    using Cons.prems(2) by (auto split: option.splits)
  obtain m' h d z al2 where f: "size_field fmt m d1 al1 = Some (m', h, d, z, al2)"
    using Cons.prems(2) s by (auto split: option.splits)
  have e: "ms' = m' # ms1" "nHdr = h1 + h" "nData = d1 + d" "nZero = z1 + z" using Cons.prems(2) s f by auto
  have I: "list_all2 sized ms ms1" "h1 = length (hdrs ms1)" "d1 = length (pays ms1)" "fulls ms1 = pays ms1 @ replicate z1 0"
    using Cons.IH [OF _ s] Cons.prems(1) by auto
  have F: "sized m m'" "h = length (hdr m')" "d = length (pay m')" "full m' = pay m' @ replicate z 0" "d1 \<noteq> 0 \<longrightarrow> z = 0"
    using size_field_ok [OF _ f] Cons.prems(1) by auto
  have "fulls (m' # ms1) = pays (m' # ms1) @ replicate (z1 + z) 0"
  proof (cases "d1 = 0")
    case True
    then have "pays ms1 = []" using I(3) by (metis length_0_conv)
    then show ?thesis using I(4) F(4)
      by (simp add: add.commute replicate_add [symmetric] del: concat_eq_Nil_conv)
  next
    case False
    then show ?thesis using I(4) F(4,5) by simp
  qed
  then show ?case using I F e by simp
qed simp

section \<open>The bytes of a record\<close>

lemma write_field_bytes:
  "write_field m (p, h, d) = (mem_write (mem_write p h (hdr m)) d (pay m), h + length (hdr m), d + length (pay m))"
proof -
  have one: "mem_write p h [b] = p(h := b)" for b by (auto simp: mem_write_def fun_eq_iff)
  have none: "mem_write q d [] = q" for q by (auto simp: mem_write_def fun_eq_iff)
  consider "uTemp m = 0" | "uTemp m \<noteq> 0" "uTemp m \<le> 7" | "\<not> uTemp m \<le> 7" "uTemp m < 0x80" | "\<not> uTemp m < 0x80"
    by blast
  then show ?thesis
  proof cases
    case 1
    then show ?thesis using hdr_small [of 0] by (simp add: write_field_def pay_def be_bytes_def small_sizes_int one none)
  next
    case 2
    then have "uTemp m < 0x80" by (simp add: word_le_nat_alt word_less_nat_alt)
    then show ?thesis using 2 by (simp add: write_field_def pay_def hdr_small one put_be_bytes length_be_bytes Let_def)
  next
    case 3
    then show ?thesis by (auto simp: write_field_def pay_def hdr_small one none Let_def word_le_nat_alt word_less_nat_alt)
  next
    case 4
    then have t: "\<not> uTemp m \<le> 7" "\<not> uTemp m < 14" by (auto simp: word_le_nat_alt word_less_nat_alt)
    have "(\<lambda>i. if i < h then p i else mem_write (\<lambda>j. p (h + j)) 0 (hdr m) (i - h)) = mem_write p h (hdr m)"
      by (auto simp: mem_write_def fun_eq_iff)
    then show ?thesis using 4 t by (simp add: write_field_def pay_def PutVarint_bytes Let_def)
  qed
qed

lemma fold_write_bytes:
  assumes "h + length (hdrs ms) \<le> d"
  shows "fold write_field ms (p, h, d)
    = (mem_write (mem_write p h (hdrs ms)) d (pays ms), h + length (hdrs ms), d + length (pays ms))"
  using assms
proof (induction ms arbitrary: p h d)
  case Nil
  then show ?case by (auto simp: mem_write_def fun_eq_iff)
next
  case (Cons m ms)
  have "mem_write (mem_write (mem_write (mem_write p h (hdr m)) d (pay m)) (h + length (hdr m)) (hdrs ms)) (d + length (pay m)) (pays ms)
    = mem_write (mem_write p h (hdr m @ hdrs ms)) d (pay m @ pays ms)"
    using Cons.prems by (auto simp: mem_write_def fun_eq_iff nth_append)
  then show ?case using Cons by (simp add: write_field_bytes add.assoc)
qed

text \<open>The width of a varint by its thresholds.\<close>
lemma VarintLen_nat:
  assumes "n < 2 ^ 62"
  shows "n < 2 ^ (7 * sqlite3VarintLen (of_nat n))" "2 ^ (7 * k) \<le> n \<Longrightarrow> k < sqlite3VarintLen (of_nat n)"
    "n < 2 ^ (7 * Suc k) \<Longrightarrow> sqlite3VarintLen (of_nat n) \<le> Suc k"
proof -
  have u: "unat (of_nat n :: u64) = n" using assms by (simp add: unat_of_nat)
  show gt: "2 ^ (7 * k) \<le> n \<Longrightarrow> k < sqlite3VarintLen (of_nat n)" for k
    using putVarint64_buf_length_gt [of k "of_nat n"] by (simp add: u varintLen_buf)
  show "n < 2 ^ (7 * Suc k) \<Longrightarrow> sqlite3VarintLen (of_nat n) \<le> Suc k"
    using putVarint64_buf_length [of "of_nat n" k] by (simp add: u varintLen_buf)
  show "n < 2 ^ (7 * sqlite3VarintLen (of_nat n))"
    using gt [of "sqlite3VarintLen (of_nat n)"] by (meson leI less_irrefl)
qed

lemma header_size_fits:
  assumes "n < 2 ^ 61"
  shows "header_size n = n + sqlite3VarintLen (of_nat (header_size n))"
proof (cases "n \<le> 126")
  case True
  then have "sqlite3VarintLen (of_nat (n + 1)) \<le> 1" "0 < sqlite3VarintLen (of_nat (n + 1))"
    using VarintLen_nat(3) [of "n + 1" 0] VarintLen_nat(2) [of "n + 1" 0] by simp_all
  then show ?thesis using True by (simp add: header_size_def)
next
  case False
  define v where "v = sqlite3VarintLen (of_nat n)"
  have v: "n < 2 ^ (7 * v)" "0 < v" "v \<le> 9"
    using VarintLen_nat(1) [of n] VarintLen_nat(2) [of n 0] VarintLen_nat(3) [of n 8] assms False by (simp_all add: v_def)
  show ?thesis
  proof (cases "v < sqlite3VarintLen (of_nat (n + v))")
    case True
    have "v < 2 ^ (7 * v)" by (rule less_le_trans [OF less_exp]) simp
    then have "n + v + 1 < 2 ^ (7 * v) + 2 ^ (7 * v)" using v(1) by linarith
    also have "\<dots> \<le> 2 ^ (7 * Suc v)" by (simp add: power_add)
    finally have up: "sqlite3VarintLen (of_nat (n + v + 1)) \<le> Suc v"
      using VarintLen_nat(3) [of "n + v + 1" v] assms v(3) by simp
    have "\<not> n + v < 2 ^ (7 * v)"
      using VarintLen_nat(3) [of "n + v" "v - 1"] True v assms by (cases v) auto
    then have "v < sqlite3VarintLen (of_nat (n + v + 1))"
      using VarintLen_nat(2) [of "n + v + 1" v] assms v(3) by simp
    then show ?thesis using up True False by (simp add: header_size_def v_def [symmetric] Let_def)
  next
    case no: False
    have "v \<le> sqlite3VarintLen (of_nat (n + v))"
    proof -
      have "2 ^ (7 * (v - 1)) \<le> n"
      proof (rule ccontr)
        assume less: "\<not> 2 ^ (7 * (v - 1)) \<le> n"
        then obtain k where "v = Suc (Suc k)" using False v(2) by (cases v; cases "v - 1") auto
        then show False using VarintLen_nat(3) [of n k] less assms by (simp add: v_def [symmetric])
      qed
      then show ?thesis using VarintLen_nat(2) [of "n + v" "v - 1"] v assms by simp
    qed
    then show ?thesis using no False by (simp add: header_size_def v_def [symmetric] Let_def)
  qed
qed

lemma write_header_bytes:
  "write_header n p = (mem_write p 0 (varint_bytes (of_nat n)), length (varint_bytes (of_nat n)))"
proof (cases "n < 0x80")
  case True
  have "ucast (of_nat n :: u64) = (of_nat n :: u8)" using True by (simp add: ucast_of_nat_unat unat_of_nat)
  moreover have "(of_nat n :: u64) \<le> 0x7f" using True by (simp add: word_le_nat_alt unat_of_nat)
  ultimately have "varint_bytes (of_nat n) = [of_nat n]" by (simp add: varint_bytes_small)
  then show ?thesis using True by (auto simp: write_header_def mem_write_def fun_eq_iff)
next
  case False
  then show ?thesis by (simp add: write_header_def PutVarint_bytes)
qed

lemma map_mem_write: "map (mem_write (mem_write (mem_write p 0 a) (length a) b) (length a + length b) c)
    [0..<length a + length b + length c] = a @ b @ c"
  by (rule nth_equalityI) (auto simp: mem_write_def nth_append)

text \<open>The bytes of a record: the size of the header, the serial types, the data.\<close>
lemma MakeRecord_bytes:
  assumes ok: "list_all cell_ok cells" and lim: "limit < 2 ^ 31" "szMalloc < 2 ^ 31"
    and r: "OP_MakeRecord fmt limit szMalloc buf cells al = Made z nZero"
  obtains ms n where "list_all2 sized cells ms" "z = varint_bytes (of_nat n) @ hdrs ms @ pays ms"
    "fulls ms = pays ms @ replicate nZero 0" "n = length (varint_bytes (of_nat n) @ hdrs ms)" "n < 2 ^ 31"
proof -
  obtain ms nHdr nData nZ al' where s: "size_pass fmt cells al = Some (ms, nHdr, nData, nZ, al')"
    using r by (auto simp: OP_MakeRecord_def split: option.splits)
  note S = size_pass_ok [OF ok s]
  define n where "n = header_size nHdr"
  have z: "nZ = nZero" and nB: "n + nData + nZ < 2 ^ 31"
    using r s lim by (auto simp: OP_MakeRecord_def Let_def n_def write_header_bytes split: if_splits prod.splits)
  have "nHdr \<le> header_size nHdr" by (simp add: header_size_def Let_def)
  then have small: "nHdr < 2 ^ 61" using nB by (simp add: n_def)
  have n: "n = length (varint_bytes (of_nat n)) + length (hdrs ms)"
    using header_size_fits [OF small] varint_bytes_length [of "of_nat n"] nB S by (simp add: n_def unat_of_nat)
  have le: "length (varint_bytes (of_nat n)) + length (hdrs ms) \<le> n" using n by simp
  have "z = map (mem_write (mem_write (mem_write buf 0 (varint_bytes (of_nat n))) (length (varint_bytes (of_nat n))) (hdrs ms)) n (pays ms)) [0..<n + nData]"
    using r s fold_write_bytes [OF le]
    by (auto simp: OP_MakeRecord_def Let_def n_def [symmetric] write_header_bytes split: if_splits)
  also have "\<dots> = varint_bytes (of_nat n) @ hdrs ms @ pays ms"
    using map_mem_write [of buf "varint_bytes (of_nat n)" "hdrs ms" "pays ms"] S unfolding n [symmetric] by simp
  finally show thesis using S n nB z by (intro that [of ms n]) simp_all
qed

section \<open>Unpacking\<close>

lemma varint_bytes_nonempty: "0 < length (varint_bytes v)"
  using PutVarint_bytes [of "\<lambda>_. 0" v] putVarint_frame by fastforce

lemma unpack_loop_stored:
  assumes "list_all2 sized ms ms'" "holds aKey idx (hdrs ms')" "holds aKey d (fulls ms')"
    "szHdr = idx + length (hdrs ms')" "nKey = d + length (fulls ms')" "length cs = length ms"
  shows "\<exists>out. unpack_loop aKey nKey szHdr idx d cs = (out, nKey) \<and> map stored out = map stored ms"
  using assms
proof (induction ms ms' arbitrary: idx d cs rule: list_all2_induct)
  case (Cons m ms m' ms')
  obtain c cs' where cs: "cs = c # cs'" "length cs' = length ms" using Cons.prems by (cases cs) auto
  have h: "holds aKey idx (hdr m')" "holds aKey (idx + length (hdr m')) (hdrs ms')"
    "holds aKey d (full m')" "holds aKey (d + length (full m')) (fulls ms')"
    using Cons.prems by (simp_all add: holds_append)
  have g: "getVarint32 (\<lambda>i. aKey (idx + i)) = (uTemp m', length (hdr m'))"
    using h(1) by (intro getVarint32_bytes) (simp add: holds_shift)
  have f: "sqlite3VdbeSerialTypeLen (uTemp m') = length (full m')"
    "stored (sqlite3VdbeSerialGet (\<lambda>i. aKey (d + i)) (uTemp m') c) = stored m" for c
    using Cons.hyps(1) h(3) by (simp_all add: sized_def holds_shift)
  obtain out where "unpack_loop aKey nKey szHdr (idx + length (hdr m')) (d + length (full m')) cs' = (out, nKey)"
    "map stored out = map stored ms"
    using Cons.IH [OF h(2,4) _ _ cs(2)] Cons.prems by (auto simp: add.assoc)
  moreover have "idx < szHdr" "d \<le> nKey" using Cons.prems varint_bytes_nonempty by simp_all
  ultimately show ?case using g f by (simp add: cs(1) Let_def)
qed simp

text \<open>
  C28. Rows survive the record format: unpacking what \<open>OP_MakeRecord\<close> wrote, with the zero bytes that follow it, gives
  back every field, for all integers, doubles, texts and blobs, in every mixture, in both file formats and with
  zero-filled blobs anywhere.  The only changes are those of the format: an integer marked as real is an integer
  when it is small, and a \<open>NaN\<close> is \<open>NULL\<close>.
\<close>
theorem record_roundtrip:
  assumes "list_all cell_ok cells" "limit < 2 ^ 31" "szMalloc < 2 ^ 31" "length target = length cells"
    and "OP_MakeRecord fmt limit szMalloc buf cells al = Made z nZero"
  shows "map stored (sqlite3VdbeRecordUnpack (mem_of (z @ replicate nZero 0)) (length z + nZero) target) = map stored cells"
proof -
  obtain ms n where m: "list_all2 sized cells ms" "z = varint_bytes (of_nat n) @ hdrs ms @ pays ms"
    "fulls ms = pays ms @ replicate nZero 0" "n = length (varint_bytes (of_nat n) @ hdrs ms)" "n < 2 ^ 31"
    by (rule MakeRecord_bytes [OF assms(1-3,5)])
  let ?k = "mem_of (z @ replicate nZero 0)" and ?v = "varint_bytes (of_nat n)"
  have "holds ?k 0 (?v @ hdrs ms @ fulls ms)" using holds_mem_of [of "z @ replicate nZero 0"] by (simp add: m(2,3))
  then have h: "holds ?k 0 ?v" "holds ?k (length ?v) (hdrs ms)" "holds ?k n (fulls ms)"
    using m(4) by (simp_all add: holds_append)
  have "ucast (of_nat n :: u32) = (of_nat n :: u64)" "unat (of_nat n :: u32) = n"
    using m(5) by (simp_all add: ucast_of_nat_unat unat_of_nat)
  then have g: "getVarint32 ?k = (of_nat n, length ?v)" "unat (of_nat n :: u32) = n"
    using getVarint32_bytes [of ?k "of_nat n"] h(1) by simp_all
  have nK: "length z + nZero = n + length (fulls ms)" using m(2-4) by simp
  obtain out where "unpack_loop ?k (length z + nZero) n (length ?v) n target = (out, length z + nZero)"
    "map stored out = map stored cells"
    using unpack_loop_stored [OF m(1) h(2,3) _ nK assms(4), of n] m(4) by auto
  then show ?thesis using g by (simp add: sqlite3VdbeRecordUnpack_def)
qed

definition a_cell :: Mem where
  "a_cell = \<lparr>cell_flags = MEM_Null, u_i = 0, u_r = 0, u_nZero = 0, cell_z = [], uTemp = 0\<rparr>"

definition a_row :: "Mem list" where
  "a_row = [a_cell\<lparr>cell_flags := MEM_Int, u_i := - 300\<rparr>, a_cell\<lparr>cell_flags := MEM_Str, cell_z := [0x61, 0x62]\<rparr>, a_cell,
     a_cell\<lparr>cell_flags := MEM_Blob OR MEM_Zero, cell_z := [7], u_nZero := 2\<rparr>]"

lemma a_row_record:
  "OP_MakeRecord 4 1000 0 (\<lambda>_. 0) a_row \<lparr>verdicts = [], live = 0\<rparr>
    = Made [5, 2, 17, 0, 18, 0xfe, 0xd4, 0x61, 0x62, 7] 2"
  by code_simp

theorem record_roundtrip_witness:
  "map stored (sqlite3VdbeRecordUnpack (mem_of [5, 2, 17, 0, 18, 0xfe, 0xd4, 0x61, 0x62, 7, 0, 0]) 12 [a_cell, a_cell, a_cell, a_cell])
    = [SInt (- 300), SText [0x61, 0x62], SNull, SBlob [7, 0, 0]]"
proof -
  let ?z = "[5, 2, 17, 0, 18, 0xfe, 0xd4, 0x61, 0x62, 7] :: bytes"
  have ok: "list_all cell_ok a_row" by (simp add: a_row_def a_cell_def cell_ok_def is_i64_def)
  have len: "length [a_cell, a_cell, a_cell, a_cell] = length a_row" by (simp add: a_row_def)
  have z: "?z @ replicate 2 0 = [5, 2, 17, 0, 18, 0xfe, 0xd4, 0x61, 0x62, 7, 0, 0]" "length ?z + 2 = 12"
    by (simp_all add: numeral_2_eq_2)
  have v: "map stored a_row = [SInt (- 300), SText [0x61, 0x62], SNull, SBlob [7, 0, 0]]" by code_simp
  show ?thesis using record_roundtrip [OF ok _ _ len a_row_record] unfolding z v by simp
qed

section \<open>Damaged records\<close>

lemma varint_spec_width: "varint_spec k acc p = (v, n) \<Longrightarrow> k \<le> 8 \<Longrightarrow> n \<le> 9"
proof (induction k acc p rule: varint_spec.induct)
  case (1 k acc p)
  then show ?case by (subst (asm) (2) varint_spec.simps) (auto split: if_splits)
qed

lemma getVarint32_local:
  assumes "\<forall>i < 9. q i = p i"
  shows "getVarint32 q = getVarint32 p"
proof -
  obtain v n where g: "sqlite3GetVarint p = (v, n)" by fastforce
  then have "n \<le> 9" using varint_spec_width unfolding getVarint_eq_spec by blast
  then have "sqlite3GetVarint q = (v, n)" using getVarint_local [OF g] assms by simp
  then show ?thesis using g by (simp add: getVarint32_saturates)
qed

lemma SerialGet_local:
  assumes "\<forall>i < 8. q i = p i" "\<forall>i < sqlite3VdbeSerialTypeLen t. q i = p i"
  shows "sqlite3VdbeSerialGet q t c = sqlite3VdbeSerialGet p t c"
proof -
  have i: "q 0 = p 0" "q 1 = p 1" "q 2 = p 2" "q 3 = p 3" "q 4 = p 4" "q 5 = p 5" "q 6 = p 6" "q 7 = p 7" "q (Suc 0) = p (Suc 0)"
    "q (Suc (Suc 0)) = p (Suc (Suc 0))" "q (Suc (Suc (Suc 0))) = p (Suc (Suc (Suc 0)))"
    using assms(1) by simp_all
  have "map q [0..<(unat t - 12) div 2] = map p [0..<(unat t - 12) div 2]" if "12 \<le> unat t"
    using assms(2) small_sizes [of "unat t"] that
    by (auto simp: sqlite3VdbeSerialTypeLen_def word_le_nat_alt split: if_splits)
  moreover have "12 \<le> unat t \<or> t \<in> {0, 1, 2, 3, 4, 5, 6, 7, 8, 9, 10, 11}"
  proof (cases "12 \<le> unat t")
    case False
    then have "unat t \<in> {0, 1, 2, 3, 4, 5, 6, 7, 8, 9, 10, 11}" by simp presburger
    then show ?thesis by (auto simp: word_unat_eq_iff)
  qed simp
  ultimately show ?thesis using i
    by (auto simp: sqlite3VdbeSerialGet_def serialGet_def ONE_BYTE_INT_def TWO_BYTE_INT_def THREE_BYTE_INT_def
        FOUR_BYTE_INT_def FOUR_BYTE_UINT_def)
qed

lemma unpack_loop_local:
  assumes "\<forall>i < nKey + 9. q i = p i" "unpack_loop p nKey szHdr idx d cs = (out, e)" "szHdr \<le> nKey"
  shows "\<exists>out'. unpack_loop q nKey szHdr idx d cs = (out', e) \<and> length out' = length out
    \<and> (if e \<le> nKey then out' = out else butlast out' = butlast out)"
  using assms(2)
proof (induction cs arbitrary: idx d out)
  case (Cons c cs)
  show ?case
  proof (cases "idx < szHdr \<and> d \<le> nKey")
    case False
    then show ?thesis using Cons.prems by auto
  next
    case True
    obtain t n where g: "getVarint32 (\<lambda>i. p (idx + i)) = (t, n)" by fastforce
    have gq: "getVarint32 (\<lambda>i. q (idx + i)) = (t, n)"
      using getVarint32_local [of "\<lambda>i. q (idx + i)" "\<lambda>i. p (idx + i)"] g assms(1,3) True by simp
    let ?d = "d + sqlite3VdbeSerialTypeLen t"
    obtain o1 where o: "unpack_loop p nKey szHdr (idx + n) ?d cs = (o1, e)"
      "out = sqlite3VdbeSerialGet (\<lambda>i. p (d + i)) t (c\<lparr>cell_z := []\<rparr>) # o1"
      using Cons.prems True g by (auto simp: Let_def split: prod.splits)
    obtain o2 where o2: "unpack_loop q nKey szHdr (idx + n) ?d cs = (o2, e)" "length o2 = length o1"
      "if e \<le> nKey then o2 = o1 else butlast o2 = butlast o1" using Cons.IH [OF o(1)] by blast
    have same: "sqlite3VdbeSerialGet (\<lambda>i. q (d + i)) t c' = sqlite3VdbeSerialGet (\<lambda>i. p (d + i)) t c'" if "?d \<le> nKey" for c'
      using assms(1) True that by (intro SerialGet_local) auto
    have "o1 = [] \<and> e = ?d" if "\<not> ?d \<le> nKey" using o(1) that by (cases cs) auto
    then show ?thesis using True gq o o2 same by (cases "?d \<le> nKey") (auto simp: Let_def split: if_splits)
  qed
qed simp

text \<open>
  C29. Unpacking an arbitrary byte string is safe: whatever the header claims, the fields that result depend on no byte
  nine or more past the end of the key, well within the margin the callers allocate.
\<close>
theorem unpack_bounded_read:
  assumes "\<forall>i < nKey + 9. q i = p i"
  shows "map stored (sqlite3VdbeRecordUnpack q nKey cs) = map stored (sqlite3VdbeRecordUnpack p nKey cs)"
proof -
  obtain s n where g: "getVarint32 p = (s, n)" by fastforce
  have gq: "getVarint32 q = (s, n)" using getVarint32_local [of q p] g assms by simp
  obtain out e where u: "unpack_loop p nKey (unat s) n (unat s) cs = (out, e)" by fastforce
  have null: "map stored (xs[length xs - 1 := (last xs)\<lparr>cell_flags := MEM_Null\<rparr>]) = map stored (butlast xs) @ [SNull]"
    if "xs \<noteq> []" for xs :: "Mem list"
    using that by (cases xs rule: rev_cases) (auto simp: stored_def flag_masks list_update_append)
  show ?thesis
  proof (cases "unat s \<le> nKey")
    case True
    obtain out' where "unpack_loop q nKey (unat s) n (unat s) cs = (out', e)" "length out' = length out"
      "if e \<le> nKey then out' = out else butlast out' = butlast out"
      using unpack_loop_local [OF assms u True] by blast
    then show ?thesis using g gq u null [of out] null [of out']
      by (cases "e \<le> nKey"; cases "out = []") (auto simp: sqlite3VdbeRecordUnpack_def)
  next
    case False
    then have "unpack_loop r nKey (unat s) n (unat s) cs = ([], unat s)" for r by (cases cs) auto
    then show ?thesis using g gq by (simp add: sqlite3VdbeRecordUnpack_def)
  qed
qed

text \<open>A header that claims an integer of one byte and a text of twenty, in a key of four bytes: the second field reads as null.\<close>
theorem unpack_bounded_read_witness:
  "map stored (sqlite3VdbeRecordUnpack (mem_of [3, 1, 53, 42, 0, 0, 0, 0, 0, 0, 0, 0, 0, 7, 8, 9]) 4 [a_cell, a_cell])
    = map stored (sqlite3VdbeRecordUnpack (mem_of [3, 1, 53, 42]) 4 [a_cell, a_cell])
   \<and> map stored (sqlite3VdbeRecordUnpack (mem_of [3, 1, 53, 42]) 4 [a_cell, a_cell]) = [SInt 42, SNull]"
proof
  have "\<forall>i < 4 + 9. mem_of [3, 1, 53, 42, 0, 0, 0, 0, 0, 0, 0, 0, 0, 7, 8, 9] i = mem_of [3, 1, 53, 42] i"
    by (auto simp: mem_of_def less_Suc_eq numeral_eq_Suc)
  then show "map stored (sqlite3VdbeRecordUnpack (mem_of [3, 1, 53, 42, 0, 0, 0, 0, 0, 0, 0, 0, 0, 7, 8, 9]) 4 [a_cell, a_cell])
    = map stored (sqlite3VdbeRecordUnpack (mem_of [3, 1, 53, 42]) 4 [a_cell, a_cell])" by (rule unpack_bounded_read)
  show "map stored (sqlite3VdbeRecordUnpack (mem_of [3, 1, 53, 42]) 4 [a_cell, a_cell]) = [SInt 42, SNull]"
    by code_simp
qed

end
