(* ===== verification/Value_Order.thy ===== *)
theory Value_Order
  imports Row_Format Ctype "HOL-Library.List_Lexorder"
begin

text \<open>
  The order of SQL values (\<open>src/db/sqlite3.c\<close>): the comparison of integers with doubles, of strings under a
  collating sequence, of blobs and of memory cells in \<open>vdbeaux.c\<close>, and the built-in collating functions of
  \<open>main.c\<close>.  The theorems show that the comparison of cells is the documented order, and that it is a
  total preorder whenever the collating function is one.
\<close>

section \<open>The value of a double\<close>

text \<open>
  A double that is not \<open>NaN\<close> as a multiple of \<open>2 ^ -1074\<close>, the smallest positive double: sign, exponent and
  mantissa are the top bit, the next eleven and the rest.  The infinities come out as \<open>2 ^ 1024\<close>, above every
  other double.  C compares doubles by value.
\<close>
definition double_value :: "u64 \<Rightarrow> int" where
  "double_value x =
     (let e = unat x div 2 ^ 52 mod 2048; m = int (unat x mod 2 ^ 52);
          v = (if e = 0 then m else (2 ^ 52 + m) * 2 ^ (e - 1))
      in if unat x < 2 ^ 63 then v else - v)"

text \<open>One in this unit.\<close>
definition one_unit :: int where "one_unit = 2 ^ 1074"

text \<open>\<open>(i64)r\<close>, for a value in range: towards zero.\<close>
definition double_trunc :: "u64 \<Rightarrow> int" where
  "double_trunc r = sgn (double_value r) * (\<bar>double_value r\<bar> div one_unit)"

section \<open>Comparing values\<close>

text \<open>\<open>bUseLongDouble\<close> is set when \<open>long double\<close> holds every 64-bit integer exactly.\<close>
definition sqlite3IntFloatCompare :: "bool \<Rightarrow> int \<Rightarrow> u64 \<Rightarrow> int" where
  "sqlite3IntFloatCompare bUseLongDouble i r =
     (if IsNaN r then 1
      else if bUseLongDouble then
        (let x = i * one_unit in if x < double_value r then - 1 else of_bool (x > double_value r))
      else if double_value r < - (2 ^ 63) * one_unit then 1
      else if double_value r \<ge> 2 ^ 63 * one_unit then - 1
      else
        let y = double_trunc r
        in if i < y then - 1
           else if i > y then 1
           else
             let s = double_of i
             in if double_value s < double_value r then - 1 else of_bool (double_value s > double_value r))"

text \<open>The C function on the bytes of two buffers of the same length; only the sign of its result is specified.\<close>
fun memcmp :: "bytes \<Rightarrow> bytes \<Rightarrow> int" where
  "memcmp (a # as) (b # bs) = (if a < b then - 1 else if b < a then 1 else memcmp as bs)"
| "memcmp _ _ = 0"

definition isAllZero :: "bytes \<Rightarrow> bool" where
  "isAllZero z \<longleftrightarrow> list_all (\<lambda>c. c = 0) z"

definition binCollFunc :: "bytes \<Rightarrow> bytes \<Rightarrow> int" where
  "binCollFunc a b =
     (let n = min (length a) (length b); rc = memcmp (take n a) (take n b)
      in if rc = 0 then int (length a) - int (length b) else rc)"

text \<open>\<open>while( nKey && pK[nKey-1]==' ' ) nKey--\<close>.\<close>
definition no_trailing :: "bytes \<Rightarrow> bytes" where
  "no_trailing z = rev (dropWhile (\<lambda>c. c = 0x20) (rev z))"

definition rtrimCollFunc :: "bytes \<Rightarrow> bytes \<Rightarrow> int" where
  "rtrimCollFunc a b = binCollFunc (no_trailing a) (no_trailing b)"

definition nocaseCollatingFunc :: "bytes \<Rightarrow> bytes \<Rightarrow> int" where
  "nocaseCollatingFunc a b =
     (let r = sqlite3_strnicmp (Some a) (Some b) (int (min (length a) (length b)))
      in if r = 0 then int (length a) - int (length b) else r)"

record CollSeq =
  coll_enc :: nat
  xCmp :: "bytes \<Rightarrow> bytes \<Rightarrow> int"

text \<open>
  \<open>sqlite3ValueText\<close> on a shallow copy of a string of encoding \<open>enc\<close>: \<open>None\<close> when there is no memory.  Swapping
  the bytes of UTF-16 takes a copy of its own first.
\<close>
definition sqlite3ValueText :: "nat \<Rightarrow> nat \<Rightarrow> bytes \<Rightarrow> allocator \<Rightarrow> bytes option \<times> allocator" where
  "sqlite3ValueText enc desired z al =
     (let (rcW, al) = (if enc \<noteq> SQLITE_UTF8 \<and> desired \<noteq> SQLITE_UTF8
            then case alloc_block al of (ok, al) \<Rightarrow> (if ok then SQLITE_OK else SQLITE_NOMEM, al)
            else (SQLITE_OK, al))
      in case sqlite3VdbeMemTranslate rcW \<lparr>mem_z = z, mem_enc = enc, mem_flags = MEM_Str OR MEM_Ephem\<rparr> desired al of
           (rc, buf, m, al) \<Rightarrow> (if mem_enc m = desired then Some (mem_z m) else None, al))"

text \<open>The result has the comparison, the error code or 0, and the allocator.\<close>
definition vdbeCompareMemString :: "nat \<Rightarrow> CollSeq \<Rightarrow> bytes \<Rightarrow> bytes \<Rightarrow> allocator \<Rightarrow> int \<times> nat \<times> allocator" where
  "vdbeCompareMemString enc coll z1 z2 al =
     (if enc = coll_enc coll then (xCmp coll z1 z2, 0, al)
      else
        let (v1, al) = sqlite3ValueText enc (coll_enc coll) z1 al;
            (v2, al) = sqlite3ValueText enc (coll_enc coll) z2 al;
            (rc, err) = (case (v1, v2) of (Some v1, Some v2) \<Rightarrow> (xCmp coll v1 v2, 0) | _ \<Rightarrow> (0, SQLITE_NOMEM));
            al = (if v1 \<noteq> None then free_block al else al);
            al = (if v2 \<noteq> None then free_block al else al)
        in (rc, err, al))"

definition sqlite3BlobCompare :: "Mem \<Rightarrow> Mem \<Rightarrow> int" where
  "sqlite3BlobCompare b1 b2 =
     (let n1 = length (cell_z b1); n2 = length (cell_z b2) in
      if (cell_flags b1 OR cell_flags b2) AND MEM_Zero \<noteq> 0 then
        if cell_flags b1 AND cell_flags b2 AND MEM_Zero \<noteq> 0 then int (u_nZero b1) - int (u_nZero b2)
        else if has b1 MEM_Zero then
          (if \<not> isAllZero (cell_z b2) then - 1 else int (u_nZero b1) - int n2)
        else
          (if \<not> isAllZero (cell_z b1) then 1 else int n1 - int (u_nZero b2))
      else
        let n = min n1 n2; c = memcmp (take n (cell_z b1)) (take n (cell_z b2))
        in if c \<noteq> 0 then c else int n1 - int n2)"

text \<open>The first flag test that both cells share decides; the cells have the encoding \<open>enc\<close>.\<close>
definition sqlite3MemCompare :: "bool \<Rightarrow> nat \<Rightarrow> Mem \<Rightarrow> Mem \<Rightarrow> CollSeq option \<Rightarrow> allocator \<Rightarrow> int \<times> allocator" where
  "sqlite3MemCompare ld enc m1 m2 pColl al =
     (let f1 = cell_flags m1; f2 = cell_flags m2; combined_flags = f1 OR f2;
          ints = (if u_i m1 < u_i m2 then - 1 else if u_i m1 > u_i m2 then 1 else 0)
      in if combined_flags AND MEM_Null \<noteq> 0 then (uint (f2 AND MEM_Null) - uint (f1 AND MEM_Null), al)
         else if combined_flags AND (MEM_Int OR MEM_Real OR MEM_IntReal) \<noteq> 0 then
           if f1 AND f2 AND (MEM_Int OR MEM_IntReal) \<noteq> 0 then (ints, al)
           else if f1 AND f2 AND MEM_Real \<noteq> 0 then
             (if double_value (u_r m1) < double_value (u_r m2) then - 1
              else if double_value (u_r m1) > double_value (u_r m2) then 1 else 0, al)
           else if f1 AND (MEM_Int OR MEM_IntReal) \<noteq> 0 then
             if f2 AND MEM_Real \<noteq> 0 then (sqlite3IntFloatCompare ld (u_i m1) (u_r m2), al)
             else if f2 AND (MEM_Int OR MEM_IntReal) \<noteq> 0 then (ints, al)
             else (- 1, al)
           else if f1 AND MEM_Real \<noteq> 0 then
             if f2 AND (MEM_Int OR MEM_IntReal) \<noteq> 0 then (- sqlite3IntFloatCompare ld (u_i m2) (u_r m1), al)
             else (- 1, al)
           else (1, al)
         else if combined_flags AND MEM_Str \<noteq> 0 \<and> f1 AND MEM_Str = 0 then (1, al)
         else if combined_flags AND MEM_Str \<noteq> 0 \<and> f2 AND MEM_Str = 0 then (- 1, al)
         else
           case pColl of
             Some coll \<Rightarrow>
               if combined_flags AND MEM_Str \<noteq> 0
               then (case vdbeCompareMemString enc coll (cell_z m1) (cell_z m2) al of (rc, err, al) \<Rightarrow> (rc, al))
               else (sqlite3BlobCompare m1 m2, al)
           | None \<Rightarrow> (sqlite3BlobCompare m1 m2, al))"

section \<open>The documented order\<close>

text \<open>The value a cell stands for in comparisons.\<close>
definition cell_value :: "Mem \<Rightarrow> stored_value" where
  "cell_value m =
     (if has m MEM_Null then SNull
      else if has m (MEM_Int OR MEM_IntReal) then SInt (u_i m)
      else if has m MEM_Real then SReal (u_r m)
      else if has m MEM_Str then SText (cell_z m)
      else SBlob (cell_z m @ (if has m MEM_Zero then replicate (u_nZero m) 0 else [])))"

text \<open>\<open>NULL\<close>, then numbers, then text, then blobs.\<close>
fun value_class :: "stored_value \<Rightarrow> int" where
  "value_class (SInt i) = 1"
| "value_class (SReal r) = 1"
| "value_class (SText z) = 2"
| "value_class (SBlob z) = 3"
| "value_class _ = 0"

fun number :: "stored_value \<Rightarrow> int" where
  "number (SInt i) = i * one_unit"
| "number (SReal r) = double_value r"
| "number _ = 0"

definition bytes_order :: "bytes \<Rightarrow> bytes \<Rightarrow> int" where
  "bytes_order a b = (if a < b then - 1 else if a = b then 0 else 1)"

text \<open>A text in the encoding of the collating sequence.\<close>
definition recode :: "nat \<Rightarrow> nat \<Rightarrow> bytes \<Rightarrow> bytes" where
  "recode enc desired z =
     (if enc = desired then z
      else if enc \<noteq> SQLITE_UTF8 \<and> desired \<noteq> SQLITE_UTF8 then swap_pairs z
      else if enc = SQLITE_UTF8 then utf8_to_utf16 (if desired = SQLITE_UTF16LE then WRITE_UTF16LE else WRITE_UTF16BE) z
      else utf16_to_utf8 (if enc = SQLITE_UTF16LE then unit_le else unit_be) (even_part z))"

definition text_order :: "nat \<Rightarrow> CollSeq option \<Rightarrow> bytes \<Rightarrow> bytes \<Rightarrow> int" where
  "text_order enc pColl a b =
     (case pColl of
        None \<Rightarrow> bytes_order a b
      | Some coll \<Rightarrow> sgn (xCmp coll (recode enc (coll_enc coll) a) (recode enc (coll_enc coll) b)))"

fun value_order :: "nat \<Rightarrow> CollSeq option \<Rightarrow> stored_value \<Rightarrow> stored_value \<Rightarrow> int" where
  "value_order enc pColl (SText a) (SText b) = text_order enc pColl a b"
| "value_order enc pColl (SBlob a) (SBlob b) = bytes_order a b"
| "value_order enc pColl v w =
     (if value_class v \<noteq> value_class w then sgn (value_class v - value_class w) else sgn (number v - number w))"

text \<open>
  The cells the comparison is given: one type, or a number with its text; no \<open>NaN\<close>, which SQLite keeps as \<open>NULL\<close>; and
  the zeros of a blob stand alone.
\<close>
definition proper :: "Mem \<Rightarrow> bool" where
  "proper m \<longleftrightarrow> is_i64 (u_i m)
     \<and> (has m MEM_Null \<longleftrightarrow> \<not> has m (MEM_Int OR MEM_IntReal) \<and> \<not> has m MEM_Real \<and> \<not> has m MEM_Str \<and> \<not> has m MEM_Blob)
     \<and> \<not> (has m (MEM_Int OR MEM_IntReal) \<and> has m MEM_Real)
     \<and> (has m MEM_Real \<longrightarrow> \<not> IsNaN (u_r m))
     \<and> (has m MEM_Zero \<and> \<not> has m MEM_Null \<longrightarrow> has m MEM_Blob \<and> \<not> has m MEM_Str \<and> cell_z m = [])"

section \<open>Integers and doubles\<close>

lemma one_unit_pos: "0 < one_unit"
  by (simp add: one_unit_def)

lemma double_value_fields:
  assumes "unat x = (if s then 2 ^ 63 else 0) + e * 2 ^ 52 + m" "0 < e" "e < 2048" "m < 2 ^ 52"
  shows "double_value x = (if s then - 1 else 1) * ((2 ^ 52 + int m) * 2 ^ (e - 1))"
proof -
  define n where "n = e * 2 ^ 52 + m"
  have "e * 2 ^ 52 \<le> 2047 * 2 ^ 52" using assms(3) by (intro mult_le_mono1) simp
  then have n: "n < 2 ^ 63" using assms(4) by (simp add: n_def)
  have d: "n div 2 ^ 52 = e" "n mod 2 ^ 52 = m" using assms(4) by (simp_all add: n_def)
  have x: "unat x = (if s then 2048 else 0) * 2 ^ 52 + n" using assms(1) by (simp add: n_def)
  have "unat x div 2 ^ 52 = (if s then 2048 else 0) + e" "unat x mod 2 ^ 52 = m" "unat x < 2 ^ 63 \<longleftrightarrow> \<not> s"
    unfolding x using d n by (simp_all add: div_mult_self3)
  then show ?thesis using assms(2,3) by (simp add: double_value_def Let_def)
qed

lemma mantissa_ge:
  assumes "0 < m"
  shows "2 ^ 52 \<le> mantissa m"
proof -
  define e where "e = top_bit m"
  have m: "2 ^ e \<le> m" using top_bit_bounds(2) [OF assms] by (simp add: e_def)
  show ?thesis
  proof (cases "e \<le> 52")
    case True
    have "(2::nat) ^ 52 = 2 ^ e * 2 ^ (52 - e)" using True by (simp flip: power_add)
    then show ?thesis using mult_le_mono1 [OF m, of "2 ^ (52 - e)"] True by (simp add: mantissa_def Let_def e_def [symmetric])
  next
    case False
    have "(2::nat) ^ e = 2 ^ 52 * 2 ^ (e - 52)" using False power_add [of "2::nat" 52 "e - 52"] by simp
    then have "2 ^ 52 \<le> m div 2 ^ (e - 52)" using m by (simp add: less_eq_div_iff_mult_less_eq)
    then show ?thesis using False by (simp add: mantissa_def Let_def e_def [symmetric])
  qed
qed

text \<open>A double made of an integer, in terms of its rounded mantissa.\<close>
lemma double_value_of_int:
  assumes "is_i64 i" "i \<noteq> 0" "m = nat \<bar>i\<bar>"
  shows "double_value (double_of i) = sgn i * (int (mantissa m) * 2 ^ (1022 + top_bit m))"
proof -
  have m: "0 < m" "m \<le> 2 ^ 63" using assms by (auto simp: is_i64_def)
  define e where "e = top_bit m"
  have "2 ^ e \<le> (2 ^ 63 :: nat)" using top_bit_bounds(2) [OF m(1)] m(2) by (simp add: e_def)
  then have e: "e \<le> 63" by (rule power_le_imp_le_exp [rotated]) simp
  have le: "mantissa m \<le> 2 ^ 53" by (rule mantissa_bounds [OF m(1)])
  have ge: "2 ^ 52 \<le> mantissa m" by (rule mantissa_ge [OF m(1)])
  define k where "k = mantissa m - 2 ^ 52"
  have k: "k \<le> 2 ^ 52" "int (mantissa m) = 2 ^ 52 + int k" using le ge by (simp_all add: k_def)
  have u: "unat (double_of i) = (if i < 0 then 2 ^ 63 else 0) + (1023 + e) * 2 ^ 52 + k"
  proof -
    have "(1023 + e) * 2 ^ 52 \<le> (1023 + 63) * (2 ^ 52 :: nat)" using e by (intro mult_le_mono1) simp
    then have "(if i < 0 then 2 ^ 63 else 0) + (1023 + e) * 2 ^ 52 + k < (2 ^ 64 :: nat)" using k(1) by simp
    moreover have "double_of i = of_nat ((if i < 0 then 2 ^ 63 else 0) + (1023 + e) * 2 ^ 52 + k)"
      using m(1) assms(2) by (simp add: double_of_def Let_def e_def k_def assms(3))
    ultimately show ?thesis by (simp add: unat_of_nat del: of_nat_add of_nat_mult)
  qed
  have sg: "(if i < 0 then - 1 else 1) = sgn i" using assms(2) by (simp add: sgn_if)
  show ?thesis
  proof (cases "k = 2 ^ 52")
    case True
    have "unat (double_of i) = (if i < 0 then 2 ^ 63 else 0) + (1024 + e) * 2 ^ 52 + 0" using u True by simp
    moreover have "(2::int) ^ (1023 + e) = 2 * 2 ^ (1022 + e)" using power_Suc [of "2::int" "1022 + e"] by simp
    ultimately show ?thesis using double_value_fields [of "double_of i" "i < 0" "1024 + e" 0] e True k(2) sg
      by (simp add: e_def [symmetric])
  next
    case False
    then show ?thesis using double_value_fields [OF u] e k sg by (simp add: e_def [symmetric])
  qed
qed

text \<open>An integer with at most 53 significant bits is converted exactly.\<close>
lemma double_of_exact:
  assumes "is_i64 i" "nat \<bar>i\<bar> = q * 2 ^ k" "q < 2 ^ 53"
  shows "double_value (double_of i) = i * one_unit"
proof (cases "i = 0")
  case True
  then show ?thesis by (simp add: double_of_def double_value_def)
next
  case False
  define m where "m = nat \<bar>i\<bar>"
  define e where "e = top_bit m"
  have m: "0 < m" using False by (simp add: m_def)
  have "int (mantissa m) * 2 ^ e = int m * 2 ^ 52"
  proof (cases "e \<le> 52")
    case True
    then have "mantissa m = m * 2 ^ (52 - e)" by (simp add: mantissa_def Let_def e_def)
    then show ?thesis using True by (simp flip: power_add)
  next
    case e: False
    have "2 ^ e \<le> m" using top_bit_bounds(2) [OF m] by (simp add: e_def)
    also have "m < 2 ^ 53 * 2 ^ k" using assms(2,3) by (simp add: m_def)
    finally have "(2::nat) ^ e < 2 ^ (53 + k)" by (simp add: power_add)
    then have "e < 53 + k" by (rule power_less_imp_less_exp [rotated]) simp
    then have "(2::nat) ^ (e - 52) dvd m" unfolding m_def assms(2) by (intro dvd_mult le_imp_power_dvd) simp
    then have "m mod 2 ^ (e - 52) = 0" and d: "m div 2 ^ (e - 52) * 2 ^ (e - 52) = m" by simp_all
    then have "mantissa m = m div 2 ^ (e - 52)" using e by (simp add: mantissa_def Let_def e_def)
    then have "mantissa m * 2 ^ (e - 52) = m" using d by simp
    moreover have "(2::nat) ^ e = 2 ^ (e - 52) * 2 ^ 52" using e power_add [of "2::nat" "e - 52" 52] by simp
    ultimately have "mantissa m * 2 ^ e = m * 2 ^ 52" by (metis mult.assoc)
    then show ?thesis by (metis of_nat_mult of_nat_numeral of_nat_power)
  qed
  moreover have "int (mantissa m) * 2 ^ (1022 + e) = int (mantissa m) * 2 ^ e * 2 ^ 1022" by (simp add: power_add)
  ultimately have "int (mantissa m) * 2 ^ (1022 + e) = int m * one_unit" unfolding one_unit_def by (simp flip: power_add)
  moreover have "sgn i * int m = i" using False by (simp add: m_def sgn_mult_abs)
  ultimately show ?thesis
    using double_value_of_int [OF assms(1) False m_def] by (simp add: e_def [symmetric] mult.assoc [symmetric])
qed

lemma trunc_bounds:
  assumes "y = double_trunc r" "D = double_value r"
  shows "0 \<le> D \<Longrightarrow> y * one_unit \<le> D \<and> D < (y + 1) * one_unit" "D \<le> 0 \<Longrightarrow> (y - 1) * one_unit < D \<and> D \<le> y * one_unit"
proof -
  define U where "U = one_unit"
  have U: "0 < U" by (simp add: U_def one_unit_pos)
  have y: "y = sgn D * (\<bar>D\<bar> div U)" using assms by (simp add: double_trunc_def U_def)
  have b: "\<bar>D\<bar> div U * U \<le> \<bar>D\<bar>" "\<bar>D\<bar> < (\<bar>D\<bar> div U + 1) * U"
    using div_mult_mod_eq [of "\<bar>D\<bar>" U] pos_mod_bound [OF U, of "\<bar>D\<bar>"] pos_mod_sign [OF U, of "\<bar>D\<bar>"]
    unfolding distrib_right by linarith+
  have zero: "D = 0 \<Longrightarrow> y = 0" using y by simp
  show "y * one_unit \<le> D \<and> D < (y + 1) * one_unit" if "0 \<le> D"
    using that b y U zero unfolding U_def [symmetric] by (cases "D = 0") (simp_all add: sgn_if)
  show "(y - 1) * one_unit < D \<and> D \<le> y * one_unit" if "D \<le> 0"
    using that b y U zero unfolding U_def [symmetric] by (cases "D = 0") (simp_all add: sgn_if algebra_simps)
qed

text \<open>The truncated value is exactly representable: it is small, or the double was an integer.\<close>
lemma trunc_representable:
  assumes "y = double_trunc r"
  obtains q k where "nat \<bar>y\<bar> = q * 2 ^ k" "q < 2 ^ 53"
proof -
  define e where "e = unat r div 2 ^ 52 mod 2048"
  define m where "m = unat r mod 2 ^ 52"
  define v where "v = (if e = 0 then m else (2 ^ 52 + m) * 2 ^ (e - 1))"
  have D: "\<bar>double_value r\<bar> = int v"
    unfolding double_value_def Let_def e_def [symmetric] m_def [symmetric] by (simp add: v_def)
  have m: "m < 2 ^ 52" by (simp add: m_def)
  have y: "nat \<bar>y\<bar> = v div 2 ^ 1074"
  proof -
    have "0 \<le> int v div one_unit" using one_unit_pos by (simp add: pos_imp_zdiv_nonneg_iff)
    then have "\<bar>y\<bar> = int v div one_unit" using assms D by (auto simp: double_trunc_def abs_mult sgn_if)
    then show ?thesis unfolding one_unit_def by (simp add: nat_div_distrib nat_power_eq)
  qed
  show thesis
  proof (cases "e \<le> 1075")
    case True
    have "v < 2 ^ 53 * 2 ^ 1074"
    proof (cases "e = 0")
      case True
      then have "v < 2 ^ 52 * 1" using m by (simp add: v_def)
      also have "(2::nat) ^ 52 * 1 \<le> 2 ^ 53 * 2 ^ 1074" by (intro mult_le_mono) simp_all
      finally show ?thesis .
    next
      case False
      then have "v < 2 ^ 53 * 2 ^ (e - 1)" using m by (simp add: v_def)
      also have "(2::nat) ^ 53 * 2 ^ (e - 1) \<le> 2 ^ 53 * 2 ^ 1074" using True by (intro mult_le_mono power_increasing) simp_all
      finally show ?thesis .
    qed
    then show ?thesis using that [of "nat \<bar>y\<bar>" 0] unfolding y by (simp add: less_mult_imp_div_less)
  next
    case False
    then have "v = (2 ^ 52 + m) * 2 ^ (e - 1075) * 2 ^ 1074"
      using power_add [of "2::nat" "e - 1075" 1074] by (simp add: v_def mult.assoc)
    then have "nat \<bar>y\<bar> = (2 ^ 52 + m) * 2 ^ (e - 1075)" unfolding y by simp
    then show ?thesis using that m by auto
  qed
qed

text \<open>
  C32. An integer is compared with a double by value: whether or not \<open>long double\<close> is used, the result for a 64-bit integer and a double
  that is not \<open>NaN\<close>, infinities included, is the sign of their exact difference, although most large integers have no
  equal among the doubles.
\<close>
theorem IntFloatCompare_exact:
  assumes "is_i64 i" "\<not> IsNaN r"
  shows "sqlite3IntFloatCompare ld i r = sgn (i * one_unit - double_value r)"
proof -
  define D where "D = double_value r"
  define y where "y = double_trunc r"
  define U where "U = one_unit"
  have U: "0 < U" by (simp add: U_def one_unit_pos)
  note defs = sqlite3IntFloatCompare_def Let_def D_def [symmetric] y_def [symmetric] U_def [symmetric]
  have less: "i < j \<Longrightarrow> i * U < j * U" "i \<le> j \<Longrightarrow> i * U \<le> j * U" for i j using U by simp_all
  have i: "- (2 ^ 63) \<le> i" "i + 1 \<le> 2 ^ 63" using assms(1) by (auto simp: is_i64_def)
  note b = trunc_bounds [OF y_def D_def, folded U_def]
  consider "ld" | "\<not> ld" "D < - (2 ^ 63) * U" | "\<not> ld" "2 ^ 63 * U \<le> D"
    | "\<not> ld" "- (2 ^ 63) * U \<le> D" "D < 2 ^ 63 * U" "i < y" | "\<not> ld" "- (2 ^ 63) * U \<le> D" "D < 2 ^ 63 * U" "y < i"
    | "\<not> ld" "- (2 ^ 63) * U \<le> D" "D < 2 ^ 63 * U" "i = y" by linarith
  then show ?thesis
  proof cases
    case 1
    then show ?thesis using assms(2) by (simp add: defs sgn_if)
  next
    case 2
    then have "D < i * U" using less(2) [OF i(1)] by linarith
    then show ?thesis using 2 assms(2) by (simp add: defs sgn_if)
  next
    case 3
    then have "i * U < D" using less(1) [of i "2 ^ 63"] i(2) by simp
    moreover have "\<not> D < - (2 ^ 63) * U" using 3 U by simp
    ultimately show ?thesis using 3 assms(2) by (simp add: defs sgn_if)
  next
    case 4
    then have "i * U < D" using b less(2) [of i "y - 1"] less(1) [of i y] by linarith
    then show ?thesis using 4 assms(2) by (simp add: defs sgn_if)
  next
    case 5
    then have "D < i * U" using b less(2) [of "y + 1" i] less(1) [of y i] by linarith
    then show ?thesis using 5 assms(2) by (simp add: defs sgn_if)
  next
    case 6
    obtain q k where "nat \<bar>y\<bar> = q * 2 ^ k" "q < 2 ^ 53" by (rule trunc_representable [OF y_def])
    then have "double_value (double_of i) = i * U" using double_of_exact assms(1) 6(4) by (simp add: U_def)
    then show ?thesis using 6 assms(2) by (simp add: defs sgn_if)
  qed
qed

theorem IntFloatCompare_exact_witness:
  "sqlite3IntFloatCompare False 9007199254740993 0x4340000000000000 = 1"
proof -
  have "double_value 0x4340000000000000 = 9007199254740992 * one_unit" by (simp add: double_value_def one_unit_def)
  then have "sgn (9007199254740993 * one_unit - double_value 0x4340000000000000) = 1"
    using one_unit_pos by simp
  moreover have "\<not> IsNaN 0x4340000000000000" by (simp add: IsNaN_def EXP754_def)
  ultimately show ?thesis using IntFloatCompare_exact [of 9007199254740993 "0x4340000000000000" False] by (simp add: is_i64_def)
qed

section \<open>Comparisons\<close>

text \<open>
  What \<open>sqlite3_create_collation\<close> asks of a collating function: exchanging the arguments negates the sign, and not
  being greater is transitive.
\<close>
locale comparison =
  fixes cmp :: "'a \<Rightarrow> 'a \<Rightarrow> int"
  assumes swap: "sgn (cmp b a) = - sgn (cmp a b)"
    and trans: "cmp a b \<le> 0 \<Longrightarrow> cmp b c \<le> 0 \<Longrightarrow> cmp a c \<le> 0"
begin

lemma same: "cmp a a = 0"
  using swap [of a a] by (simp add: sgn_if split: if_splits)

lemma less_swap: "cmp a b < 0 \<longleftrightarrow> 0 < cmp b a"
  using swap [of a b] by (simp add: sgn_if split: if_splits)

lemma le_swap: "cmp a b \<le> 0 \<longleftrightarrow> 0 \<le> cmp b a"
  using less_swap [of b a] by linarith

lemma less_trans: "cmp a b < 0 \<Longrightarrow> cmp b c \<le> 0 \<Longrightarrow> cmp a c < 0"
  using trans [of b c a] less_swap [of a b] le_swap [of c a] by linarith

lemma on_keys: "comparison (\<lambda>a b. cmp (f a) (f b))"
  by (rule comparison.intro) (fact swap, erule (1) trans)

lemma signs: "comparison (\<lambda>a b. sgn (cmp a b))"
proof
  show "sgn (sgn (cmp b a)) = - sgn (sgn (cmp a b))" for a b by (simp add: swap [of b a])
  have "sgn (cmp a b) \<le> 0 \<longleftrightarrow> cmp a b \<le> 0" for a b by (simp add: sgn_if)
  then show "sgn (cmp a b) \<le> 0 \<Longrightarrow> sgn (cmp b c) \<le> 0 \<Longrightarrow> sgn (cmp a c) \<le> 0" for a b c
    using trans [of a b c] by blast
qed

end

definition key_cmp :: "'k::linorder \<Rightarrow> 'k \<Rightarrow> int" where
  "key_cmp a b = (if a < b then - 1 else if a = b then 0 else 1)"

lemma key_cmp_same [simp]: "key_cmp a a = 0"
  by (simp add: key_cmp_def)

lemma key_cmp_Cons [simp]: "key_cmp (x # a) (y # b) = (if x < y then - 1 else if y < x then 1 else key_cmp a b)"
  by (auto simp: key_cmp_def)

lemma comparison_by_key: "(\<And>a b. sgn (cmp a b) = key_cmp (f a) (f b)) \<Longrightarrow> comparison cmp"
proof
  fix a b c
  assume k: "\<And>a b. sgn (cmp a b) = key_cmp (f a) (f b)"
  show "sgn (cmp b a) = - sgn (cmp a b)" unfolding k by (auto simp: key_cmp_def)
  have le: "cmp a b \<le> 0 \<longleftrightarrow> f a \<le> f b" for a b
    using k [of a b] by (auto simp: key_cmp_def sgn_if split: if_splits)
  show "cmp a b \<le> 0 \<Longrightarrow> cmp b c \<le> 0 \<Longrightarrow> cmp a c \<le> 0" unfolding le by (rule order_trans)
qed

section \<open>The built-in collating functions\<close>

lemma bytes_order_simps [simp]:
  "bytes_order [] [] = 0" "bytes_order (x # a) [] = 1" "bytes_order [] (y # b) = - 1"
  "bytes_order (x # a) (y # b) = (if x < y then - 1 else if y < x then 1 else bytes_order a b)"
  by (auto simp: bytes_order_def)

lemma bytes_order_key: "bytes_order a b = key_cmp a b"
  by (simp add: bytes_order_def key_cmp_def)

lemma binCollFunc_steps:
  "binCollFunc [] b = - int (length b)" "binCollFunc a [] = int (length a)"
  "binCollFunc (x # a) (y # b) = (if x < y then - 1 else if y < x then 1 else binCollFunc a b)"
  by (simp_all add: binCollFunc_def Let_def)

lemma binCollFunc_order: "sgn (binCollFunc a b) = bytes_order a b"
proof (induction a arbitrary: b)
  case Nil
  then show ?case by (cases b) (simp_all add: binCollFunc_steps)
next
  case (Cons x a)
  then show ?case by (cases b) (auto simp: binCollFunc_steps)
qed

interpretation binary: comparison binCollFunc
  by (rule comparison_by_key [of _ "\<lambda>z. z"]) (simp add: binCollFunc_order bytes_order_key)

interpretation rtrim: comparison rtrimCollFunc
  using binary.on_keys [of no_trailing] by (simp add: rtrimCollFunc_def [abs_def])

text \<open>\<open>NOCASE\<close> ignores what follows a zero byte but for its length.\<close>
definition nocase_key :: "bytes \<Rightarrow> nat list" where
  "nocase_key z = map (\<lambda>c. Suc (unat (UpperToLower c))) (takeWhile (\<lambda>c. c \<noteq> 0) z) @ [0, length z]"

lemma nocase_steps:
  "nocaseCollatingFunc [] b = - int (length b)" "nocaseCollatingFunc a [] = int (length a)"
  "nocaseCollatingFunc (x # a) (y # b) =
     (if UpperToLower x \<noteq> UpperToLower y then int (unat (UpperToLower x)) - int (unat (UpperToLower y))
      else if x = 0 then int (length a) - int (length b) else nocaseCollatingFunc a b)"
  unfolding nocaseCollatingFunc_def sqlite3_strnicmp.simps nat_int Let_def uint_nat [symmetric]
  by (auto simp: word_uint_eq_iff [symmetric])

lemma nocase_order: "sgn (nocaseCollatingFunc a b) = key_cmp (nocase_key a) (nocase_key b)"
proof -
  define key where "key k z = map (\<lambda>c. Suc (unat (UpperToLower c))) (takeWhile (\<lambda>c. c \<noteq> 0) z) @ [0, k + length z]" for k z
  have step: "key k [] = [0, k]" "key k (0 # z) = [0, Suc k + length z]"
    "x \<noteq> 0 \<Longrightarrow> key k (x # z) = Suc (unat (UpperToLower x)) # key (Suc k) z" for k x z
    by (simp_all add: key_def)
  have "sgn (nocaseCollatingFunc a b) = key_cmp (key k a) (key k b)" for k
  proof (induction a arbitrary: b k)
    case Nil
    then show ?case by (cases b; cases "hd b = 0") (auto simp: nocase_steps step key_cmp_def)
  next
    case (Cons x a)
    note IH = this
    show ?case
    proof (cases b)
      case Nil
      then show ?thesis by (cases "x = 0") (auto simp: nocase_steps step key_cmp_def)
    next
      case b: (Cons y b')
      have eq: "UpperToLower x = UpperToLower y \<longleftrightarrow> unat (UpperToLower x) = unat (UpperToLower y)"
        and z: "unat (UpperToLower c) = 0 \<longleftrightarrow> c = 0" for c
        by (rule word_unat_eq_iff, simp only: unat_eq_0 lower_eq_0)
      consider "x = 0" "y = 0" | "x = 0" "y \<noteq> 0" | "x \<noteq> 0" "y = 0" | "x \<noteq> 0" "y \<noteq> 0" by blast
      then show ?thesis
      proof cases
        case 1
        then show ?thesis by (simp add: b nocase_steps step key_cmp_def sgn_if)
      next
        case 2
        then show ?thesis using z [of y] by (simp add: b nocase_steps step)
      next
        case 3
        then show ?thesis using z [of x] by (simp add: b nocase_steps step)
      next
        case 4
        have "sgn (int p - int q) = (if p < q then - 1 else if q < p then 1 else 0)" for p q by simp
        then show ?thesis using 4 IH [of b' "Suc k"] unfolding b nocase_steps by (simp add: step eq del: of_nat_unat)
      qed
    qed
  qed
  from this [of 0] show ?thesis by (simp add: key_def nocase_key_def)
qed

interpretation nocase: comparison nocaseCollatingFunc
  by (rule comparison_by_key [OF nocase_order])

section \<open>The order of values\<close>

text \<open>Everything but the order among texts, as a key.\<close>
fun value_key :: "stored_value \<Rightarrow> int list" where
  "value_key (SText z) = [2]"
| "value_key (SBlob z) = 3 # map uint z"
| "value_key v = [value_class v, number v]"

fun is_text :: "stored_value \<Rightarrow> bool" where
  "is_text (SText z) = True"
| "is_text _ = False"

lemma key_cmp_bytes: "key_cmp (map uint a) (map uint b) = bytes_order a b"
proof -
  have "map uint a < map uint b \<longleftrightarrow> a < b" for a b :: bytes
  proof (induction a arbitrary: b)
    case Nil
    then show ?case by (cases b) simp_all
  next
    case (Cons x a)
    moreover have "uint x < uint y \<longleftrightarrow> x < y" for x y :: u8 by (simp only: word_less_def)
    ultimately show ?case by (cases b) (simp_all add: word_uint_eq_iff)
  qed
  moreover have "map uint a = map uint b \<longleftrightarrow> a = b" by (rule inj_map_eq_map) (auto intro: injI simp: word_uint_eq_iff)
  ultimately show ?thesis by (simp add: key_cmp_def bytes_order_def)
qed

lemma value_order_key:
  "\<not> (is_text v \<and> is_text w) \<Longrightarrow> value_order enc pColl v w = key_cmp (value_key v) (value_key w)"
  by (cases v; cases w) (simp_all add: key_cmp_bytes sgn_if)

lemma value_key_text: "value_key v = value_key w \<Longrightarrow> is_text v = is_text w"
  by (cases v; cases w) simp_all

abbreviation collates :: "CollSeq option \<Rightarrow> bool" where
  "collates pColl \<equiv> (case pColl of None \<Rightarrow> True | Some coll \<Rightarrow> comparison (xCmp coll))"

lemma text_order_comparison:
  assumes "collates pColl"
  shows "comparison (text_order enc pColl)"
proof (cases pColl)
  case None
  then show ?thesis
    by (intro comparison_by_key [of _ "\<lambda>z. z"]) (simp add: text_order_def bytes_order_key key_cmp_def)
next
  case (Some coll)
  then have "comparison (xCmp coll)" using assms by simp
  then show ?thesis
    using comparison.signs [OF comparison.on_keys, of "xCmp coll" "recode enc (coll_enc coll)"] Some
    by (simp add: text_order_def [abs_def])
qed

lemma value_order_comparison:
  assumes "collates pColl"
  shows "comparison (value_order enc pColl)"
proof
  note T = text_order_comparison [OF assms, of enc]
  have texts: "value_order enc pColl v w = text_order enc pColl (case v of SText a \<Rightarrow> a | _ \<Rightarrow> []) (case w of SText b \<Rightarrow> b | _ \<Rightarrow> [])"
    if "is_text v" "is_text w" for v w using that by (cases v; cases w) simp_all
  have le: "value_order enc pColl v w \<le> 0 \<longleftrightarrow> value_key v \<le> value_key w" if "\<not> (is_text v \<and> is_text w)" for v w
    using value_order_key [OF that] by (auto simp: key_cmp_def)
  fix a b c
  show "sgn (value_order enc pColl b a) = - sgn (value_order enc pColl a b)"
  proof (cases "is_text a \<and> is_text b")
    case True
    then have "is_text a" "is_text b" by simp_all
    then show ?thesis unfolding texts [OF \<open>is_text a\<close> \<open>is_text b\<close>] texts [OF \<open>is_text b\<close> \<open>is_text a\<close>] by (intro comparison.swap [OF T])
  next
    case False
    then show ?thesis using value_order_key [of a b] value_order_key [of b a] by (auto simp: key_cmp_def)
  qed
  assume ab: "value_order enc pColl a b \<le> 0" and bc: "value_order enc pColl b c \<le> 0"
  show "value_order enc pColl a c \<le> 0"
  proof (cases "is_text a \<and> is_text c")
    case True
    show ?thesis
    proof (cases "is_text b")
      case b: True
      then show ?thesis using comparison.trans [OF T] texts True ab bc by simp
    next
      case False
      then have "value_key a \<le> value_key b" "value_key b \<le> value_key c" using le ab bc by simp_all
      moreover have "value_key a = value_key c" using True by (cases a; cases c) simp_all
      ultimately have "value_key a = value_key b" by simp
      then show ?thesis using value_key_text False True by blast
    qed
  next
    case False
    have eq: "is_text v \<Longrightarrow> is_text w \<Longrightarrow> value_key v = value_key w" for v w by (cases v; cases w) simp_all
    have "value_key a \<le> value_key b" "value_key b \<le> value_key c" using le ab bc eq by (metis order_refl)+
    then show ?thesis using le [OF False] by simp
  qed
qed

section \<open>The comparison of cells\<close>

abbreviation is_enc :: "nat \<Rightarrow> bool" where
  "is_enc enc \<equiv> enc = SQLITE_UTF8 \<or> enc = SQLITE_UTF16LE \<or> enc = SQLITE_UTF16BE"

lemma ValueText_recode:
  assumes "sqlite3ValueText enc desired z al = (v, al')" "is_enc enc" "is_enc desired" "enc \<noteq> desired"
  shows "v = None \<or> v = Some (recode enc desired z)" "plenty al \<Longrightarrow> v \<noteq> None \<and> plenty al'"
    "live al' = live al + (if v = None then 0 else 1)"
proof -
  obtain ok al1 where a: "alloc_block al = (ok, al1)" by fastforce
  note r = assms a live_alloc [OF a] plenty_alloc [OF _ a]
  show "v = None \<or> v = Some (recode enc desired z)" "plenty al \<Longrightarrow> v \<noteq> None \<and> plenty al'"
    "live al' = live al + (if v = None then 0 else 1)"
    using r by (auto simp: sqlite3ValueText_def sqlite3VdbeMemTranslate_def recode_def Let_def enc_defs SQLITE_OK_def SQLITE_NOMEM_def
      split: if_splits)
qed

text \<open>Without memory for a conversion the strings count as equal and the error is \<open>SQLITE_NOMEM\<close>; every block is freed.\<close>
lemma CompareMemString_order:
  assumes "vdbeCompareMemString enc coll a b al = (rc, err, al')" "is_enc enc" "is_enc (coll_enc coll)"
  shows "err = 0 \<and> sgn rc = text_order enc (Some coll) a b \<or> err = SQLITE_NOMEM \<and> rc = 0"
    "plenty al \<Longrightarrow> err = 0 \<and> plenty al'" "live al' = live al"
proof -
  obtain v1 al1 where 1: "sqlite3ValueText enc (coll_enc coll) a al = (v1, al1)" by fastforce
  obtain v2 al2 where 2: "sqlite3ValueText enc (coll_enc coll) b al1 = (v2, al2)" by fastforce
  have same: "recode enc enc z = z" for z by (simp add: recode_def)
  show "err = 0 \<and> sgn rc = text_order enc (Some coll) a b \<or> err = SQLITE_NOMEM \<and> rc = 0"
    "plenty al \<Longrightarrow> err = 0 \<and> plenty al'" "live al' = live al"
    using assms 1 2 same ValueText_recode [OF 1 assms(2,3)] ValueText_recode [OF 2 assms(2,3)]
    by (auto simp: vdbeCompareMemString_def text_order_def Let_def split: if_splits option.splits)
qed

lemma zeros_order: "bytes_order (replicate n 0) z = (if isAllZero z then sgn (int n - int (length z)) else - 1)"
proof (induction z arbitrary: n)
  case Nil
  then show ?case by (cases n) (simp_all add: isAllZero_def)
next
  case (Cons c z)
  then show ?case by (cases n) (auto simp: isAllZero_def word_gt_0)
qed

lemma order_zeros: "bytes_order z (replicate n 0) = (if isAllZero z then sgn (int (length z) - int n) else 1)"
proof -
  have "bytes_order z (replicate n 0) = - bytes_order (replicate n 0) z" by (auto simp: bytes_order_def)
  then show ?thesis by (simp add: zeros_order sgn_if)
qed

lemma or_flags: "(f OR g) AND m = 0 \<longleftrightarrow> f AND m = 0 \<and> g AND m = 0" "m AND (f OR g) = 0 \<longleftrightarrow> m AND f = 0 \<and> m AND g = 0" for f g m :: u16
  by (simp_all add: bit.conj_disj_distrib2 bit.conj_disj_distrib or_eq_0_iff)

text \<open>The flags are single bits.\<close>
lemma flag_bits:
  "f AND MEM_Null = 0 \<longleftrightarrow> \<not> bit f 0" "f AND MEM_Str = 0 \<longleftrightarrow> \<not> bit f 1" "f AND MEM_Int = 0 \<longleftrightarrow> \<not> bit f 2"
  "f AND MEM_Real = 0 \<longleftrightarrow> \<not> bit f 3" "f AND MEM_Blob = 0 \<longleftrightarrow> \<not> bit f 4" "f AND MEM_IntReal = 0 \<longleftrightarrow> \<not> bit f 5"
  "f AND MEM_Zero = 0 \<longleftrightarrow> \<not> bit f 10"
  using and_exp_eq_0_iff_not_bit [of f 0] and_exp_eq_0_iff_not_bit [of f 1] and_exp_eq_0_iff_not_bit [of f 2] and_exp_eq_0_iff_not_bit [of f 3]
    and_exp_eq_0_iff_not_bit [of f 4] and_exp_eq_0_iff_not_bit [of f 5] and_exp_eq_0_iff_not_bit [of f 10]
  by (simp_all add: MEM_Null_def MEM_Str_def MEM_Int_def MEM_Real_def MEM_Blob_def MEM_IntReal_def MEM_Zero_def)

definition blob_bytes :: "Mem \<Rightarrow> bytes" where
  "blob_bytes m = cell_z m @ (if has m MEM_Zero then replicate (u_nZero m) 0 else [])"

lemma BlobCompare_order:
  assumes "has b1 MEM_Zero \<Longrightarrow> cell_z b1 = []" "has b2 MEM_Zero \<Longrightarrow> cell_z b2 = []"
  shows "sgn (sqlite3BlobCompare b1 b2) = bytes_order (blob_bytes b1) (blob_bytes b2)"
proof -
  have z: "isAllZero (replicate n 0)" for n by (simp add: isAllZero_def list_all_iff)
  have both: "cell_flags b1 AND cell_flags b2 AND MEM_Zero \<noteq> 0 \<longleftrightarrow> has b1 MEM_Zero \<and> has b2 MEM_Zero"
    by (simp add: flag_bits bit_and_iff and.assoc [symmetric])
  consider "has b1 MEM_Zero" "has b2 MEM_Zero" | "has b1 MEM_Zero" "\<not> has b2 MEM_Zero"
    | "\<not> has b1 MEM_Zero" "has b2 MEM_Zero" | "\<not> has b1 MEM_Zero" "\<not> has b2 MEM_Zero" by blast
  then show ?thesis
  proof cases
    case 4
    then have "sqlite3BlobCompare b1 b2 = binCollFunc (cell_z b1) (cell_z b2)"
      by (simp add: sqlite3BlobCompare_def or_flags binCollFunc_def Let_def)
    then show ?thesis using 4 by (simp add: blob_bytes_def binCollFunc_order)
  qed (use assms z in \<open>simp_all add: sqlite3BlobCompare_def blob_bytes_def or_flags both zeros_order order_zeros Let_def\<close>)
qed


lemma value_order_class:
  "value_class v \<noteq> value_class w \<Longrightarrow> value_order enc pColl v w = sgn (value_class v - value_class w)"
  "value_class v = 1 \<Longrightarrow> value_class w = 1 \<Longrightarrow> value_order enc pColl v w = sgn (number v - number w)"
  by (cases v; cases w; simp)+

text \<open>The four classes of a proper cell.\<close>
lemma proper_cases:
  assumes "proper m"
  obtains (is_null) "has m MEM_Null" "\<not> has m (MEM_Int OR MEM_IntReal)" "\<not> has m MEM_Real" "\<not> has m MEM_Str" "cell_value m = SNull"
  | (is_int) "\<not> has m MEM_Null" "has m (MEM_Int OR MEM_IntReal)" "\<not> has m MEM_Real" "cell_value m = SInt (u_i m)"
  | (is_real) "\<not> has m MEM_Null" "\<not> has m (MEM_Int OR MEM_IntReal)" "has m MEM_Real" "cell_value m = SReal (u_r m)" "\<not> IsNaN (u_r m)"
  | (is_str) "\<not> has m MEM_Null" "\<not> has m (MEM_Int OR MEM_IntReal)" "\<not> has m MEM_Real" "has m MEM_Str" "\<not> has m MEM_Zero"
      "cell_value m = SText (cell_z m)" "blob_bytes m = cell_z m"
  | (is_blob) "\<not> has m MEM_Null" "\<not> has m (MEM_Int OR MEM_IntReal)" "\<not> has m MEM_Real" "\<not> has m MEM_Str" "has m MEM_Blob"
      "cell_value m = SBlob (blob_bytes m)" "has m MEM_Zero \<Longrightarrow> cell_z m = []"
  using assms that unfolding proper_def cell_value_def blob_bytes_def by (smt (verit, ccfv_SIG) append_Nil2)


abbreviation known_enc :: "CollSeq option \<Rightarrow> bool" where
  "known_enc pColl \<equiv> (case pColl of None \<Rightarrow> True | Some coll \<Rightarrow> is_enc (coll_enc coll))"

lemma null_bit: "uint (f AND MEM_Null) = of_bool (bit f 0)" for f :: u16
  by (simp add: MEM_Null_def and_one_eq mod2_eq_if bit_0)

abbreviation numeric :: "u16 \<Rightarrow> bool" where "numeric f \<equiv> bit f 2 \<or> bit f 5"

text \<open>The comparison in terms of single flags: 0 is \<open>NULL\<close>, 1 text, 2 and 5 the integers, 3 a real.\<close>
lemma MemCompare_flags:
  "sqlite3MemCompare ld enc m1 m2 pColl al =
     (let f = cell_flags m1; g = cell_flags m2; ints = sgn (u_i m1 - u_i m2) in
      if bit f 0 \<or> bit g 0 then (of_bool (bit g 0) - of_bool (bit f 0), al)
      else if numeric f \<or> numeric g \<or> bit f 3 \<or> bit g 3 then
        if bit f 2 \<and> bit g 2 \<or> bit f 5 \<and> bit g 5 then (ints, al)
        else if bit f 3 \<and> bit g 3 then (sgn (double_value (u_r m1) - double_value (u_r m2)), al)
        else if numeric f then
          (if bit g 3 then sqlite3IntFloatCompare ld (u_i m1) (u_r m2) else if numeric g then ints else - 1, al)
        else if bit f 3 then (if numeric g then - sqlite3IntFloatCompare ld (u_i m2) (u_r m1) else - 1, al)
        else (1, al)
      else if \<not> bit f 1 \<and> bit g 1 then (1, al)
      else if bit f 1 \<and> \<not> bit g 1 then (- 1, al)
      else case pColl of
          Some coll \<Rightarrow> if bit f 1 then (case vdbeCompareMemString enc coll (cell_z m1) (cell_z m2) al of (rc, err, al) \<Rightarrow> (rc, al))
            else (sqlite3BlobCompare m1 m2, al)
        | None \<Rightarrow> (sqlite3BlobCompare m1 m2, al))"
proof -
  have c: "(f OR g) AND MEM_Null = 0 \<longleftrightarrow> \<not> (bit f 0 \<or> bit g 0)"
    "(f OR g) AND (MEM_Int OR MEM_Real OR MEM_IntReal) = 0 \<longleftrightarrow> \<not> (numeric f \<or> numeric g \<or> bit f 3 \<or> bit g 3)"
    "f AND g AND (MEM_Int OR MEM_IntReal) = 0 \<longleftrightarrow> \<not> (bit f 2 \<and> bit g 2 \<or> bit f 5 \<and> bit g 5)"
    "f AND g AND MEM_Real = 0 \<longleftrightarrow> \<not> (bit f 3 \<and> bit g 3)" "f AND (MEM_Int OR MEM_IntReal) = 0 \<longleftrightarrow> \<not> numeric f"
    "(f OR g) AND MEM_Str = 0 \<longleftrightarrow> \<not> (bit f 1 \<or> bit g 1)" for f g :: u16
    by (auto simp: or_flags flag_bits bit_and_iff bit_or_iff simp flip: and.assoc)
  have ints: "(if a < b then - 1 else if b < a then 1 else 0) = sgn (a - b)" for a b :: int by simp
  show ?thesis
    unfolding sqlite3MemCompare_def Let_def c unfolding flag_bits null_bit not_not ints
    by (cases "bit (cell_flags m1) 1"; cases "bit (cell_flags m2) 1") (simp_all split: option.split)
qed


lemma MemCompare_values:
  assumes "proper m1" "proper m2" "is_enc enc" "known_enc pColl" "plenty al"
    and "sqlite3MemCompare ld enc m1 m2 pColl al = (rc, al')"
  shows "sgn rc = value_order enc pColl (cell_value m1) (cell_value m2) \<and> plenty al' \<and> live al' = live al"
proof -
  have i: "is_i64 (u_i m1)" "is_i64 (u_i m2)" using assms(1,2) by (simp_all add: proper_def)
  note V = value_order_class IntFloatCompare_exact [OF i(1)] IntFloatCompare_exact [OF i(2)]
  note r = assms(6) [unfolded MemCompare_flags Let_def] assms(5)
  have ints: "sgn (u_i m1 * one_unit - u_i m2 * one_unit) = sgn (u_i m1 - u_i m2)"
    using one_unit_pos by (simp add: sgn_mult flip: left_diff_distrib)
  note d = or_flags flag_bits
  have neg: "- sgn (a - b) = sgn (b - a)" for a b :: int by (simp add: sgn_if)
  show ?thesis
    using assms(1)
  proof (cases rule: proper_cases)
    case is_null
    show ?thesis using assms(2) by (cases rule: proper_cases) (use is_null r V in \<open>auto simp: d\<close>)
  next
    case is_int
    show ?thesis using assms(2) by (cases rule: proper_cases) (use is_int r V ints in \<open>auto simp: d split: if_splits\<close>)
  next
    case is_real
    show ?thesis using assms(2) by (cases rule: proper_cases) (use is_real r V in \<open>auto simp: d neg\<close>)
  next
    case is_str
    show ?thesis using assms(2)
    proof (cases rule: proper_cases)
      case s: is_str
      show ?thesis
      proof (cases pColl)
        case None
        then show ?thesis using is_str s r BlobCompare_order [of m1 m2] by (auto simp: d text_order_def)
      next
        case (Some coll)
        obtain c err al1 where c: "vdbeCompareMemString enc coll (cell_z m1) (cell_z m2) al = (c, err, al1)" by (metis prod_cases3)
        have "is_enc (coll_enc coll)" using assms(4) Some by simp
        note C = CompareMemString_order [OF c assms(3) this]
        have "rc = c" "al' = al1" using is_str s r Some c by (auto simp: d)
        then show ?thesis using C assms(5) is_str(6) s(6) Some by (auto simp: SQLITE_NOMEM_def)
      qed
    qed (use is_str r V in \<open>auto simp: d\<close>)
  next
    case is_blob
    show ?thesis using assms(2) by (cases rule: proper_cases) (use is_blob r V BlobCompare_order [of m1 m2] in \<open>auto simp: d split: option.splits\<close>)
  qed
qed

text \<open>
  C31. SQL values have one order.  For cells in every combination of types the comparison has the sign of the documented order: \<open>NULL\<close>, then numbers by value, then text by the
  collating sequence (converted to its encoding), then blobs by their bytes with the zeros that are not written out; and that order is a
  total preorder whenever the collating function is one, as the three built-in ones are: exchanging the cells negates it, and it is transitive, integers
  and doubles mixed.  A comparison allocates nothing that it does not free.
\<close>
theorem MemCompare_total_order:
  assumes "proper m1" "proper m2" "proper m3" "is_enc enc" "known_enc pColl" "plenty al"
    and "case pColl of None \<Rightarrow> True | Some coll \<Rightarrow> xCmp coll \<in> {binCollFunc, rtrimCollFunc, nocaseCollatingFunc} \<or> comparison (xCmp coll)"
  shows "let cmp = \<lambda>a b. fst (sqlite3MemCompare ld enc a b pColl al) in
    sgn (cmp m1 m2) = value_order enc pColl (cell_value m1) (cell_value m2)
    \<and> sgn (cmp m2 m1) = - sgn (cmp m1 m2)
    \<and> (cmp m1 m2 \<le> 0 \<and> cmp m2 m3 \<le> 0 \<longrightarrow> cmp m1 m3 \<le> 0)
    \<and> live (snd (sqlite3MemCompare ld enc m1 m2 pColl al)) = live al"
proof -
  have "collates pColl"
    using assms(7) binary.comparison_axioms rtrim.comparison_axioms nocase.comparison_axioms by (auto split: option.splits)
  then have C: "comparison (value_order enc pColl)" by (rule value_order_comparison)
  have val: "sgn (fst (sqlite3MemCompare ld enc a b pColl al)) = value_order enc pColl (cell_value a) (cell_value b)
      \<and> live (snd (sqlite3MemCompare ld enc a b pColl al)) = live al" if "proper a" "proper b" for a b
    using MemCompare_values [OF that assms(4-6)] by (metis prod.collapse)
  have le: "fst (sqlite3MemCompare ld enc a b pColl al) \<le> 0 \<longleftrightarrow> value_order enc pColl (cell_value a) (cell_value b) \<le> 0"
    if "proper a" "proper b" for a b
    using val [OF that] by (auto simp: sgn_if split: if_splits)
  have "sgn (value_order enc pColl (cell_value a) (cell_value b)) = value_order enc pColl (cell_value a) (cell_value b)"
    if "proper a" "proper b" for a b
    using val [OF that] by (metis sgn_sgn)
  then have "value_order enc pColl (cell_value m2) (cell_value m1) = - value_order enc pColl (cell_value m1) (cell_value m2)"
    using comparison.swap [OF C] assms(1,2) by metis
  then show ?thesis
    using val [OF assms(1,2)] val [OF assms(2,1)] le [OF assms(1,2)] le [OF assms(2,3)] le [OF assms(1,3)] comparison.trans [OF C]
    unfolding Let_def by metis
qed

theorem MemCompare_total_order_witness:
  "let a = a_cell\<lparr>cell_flags := MEM_Int, u_i := 9007199254740993\<rparr>; b = a_cell\<lparr>cell_flags := MEM_Real, u_r := 0x4340000000000000\<rparr>;
     cmp = \<lambda>a b. fst (sqlite3MemCompare True SQLITE_UTF8 a b (Some \<lparr>coll_enc = SQLITE_UTF8, xCmp = nocaseCollatingFunc\<rparr>) \<lparr>verdicts = [], live = 0\<rparr>)
   in sgn (cmp a b) = - sgn (cmp b a) \<and> (cmp b a \<le> 0 \<longrightarrow> cmp a_cell a \<le> 0)"
proof -
  let ?a = "a_cell\<lparr>cell_flags := MEM_Int, u_i := 9007199254740993\<rparr>" and ?b = "a_cell\<lparr>cell_flags := MEM_Real, u_r := 0x4340000000000000\<rparr>"
    and ?coll = "Some \<lparr>coll_enc = SQLITE_UTF8, xCmp = nocaseCollatingFunc\<rparr>" and ?al = "\<lparr>verdicts = [], live = 0\<rparr>"
  have p: "proper ?a" "proper ?b" "proper a_cell"
    by (simp_all add: proper_def a_cell_def is_i64_def flag_masks or_flags flag_bits MEM_Int_def MEM_Real_def MEM_Null_def IsNaN_def EXP754_def)
  have al: "plenty ?al" by (simp add: plenty_def)
  have "fst (sqlite3MemCompare True SQLITE_UTF8 a_cell ?b ?coll ?al) \<le> 0"
    by (simp add: MemCompare_flags a_cell_def MEM_Null_def MEM_Real_def Let_def)
  then show ?thesis
    using MemCompare_total_order [OF p(3,2,1) _ _ al, of SQLITE_UTF8 ?coll True] MemCompare_total_order [OF p(2,1,1) _ _ al, of SQLITE_UTF8 ?coll True]
    by (simp add: Let_def)
qed

end
