(* ===== verification/Record_Compare.thy ===== *)
theory Record_Compare
  imports Value_Order
begin

text \<open>
  The comparison of a record with an unpacked key (\<open>src/db/sqlite3.c\<close>, \<open>vdbeaux.c\<close>): the general routine, which decodes
  the record only as far as needed, and the two fast routines that \<open>sqlite3VdbeFindCompare\<close> chooses for keys that start
  with an integer or a string.  The theorems show that all of them compare the fields one after the other in the
  order of \<open>Value_Order\<close>, with the sort flags of the key.  A result \<open>None\<close> is a read past the fields of the key.
\<close>

section \<open>Keys\<close>

definition KEYINFO_ORDER_DESC :: nat where "KEYINFO_ORDER_DESC = 1"
definition KEYINFO_ORDER_BIGNULL :: nat where "KEYINFO_ORDER_BIGNULL = 2"
definition SQLITE_CORRUPT :: nat where "SQLITE_CORRUPT = 11"

record KeyInfo =
  ki_enc :: nat
  nAllField :: nat
  aSortFlags :: "nat list"
  aColl :: "CollSeq option list"

text \<open>The members of the union \<open>u\<close> are fields of their own; \<open>n\<close> is the length of \<open>u_z\<close>.\<close>
record UnpackedRecord =
  pKeyInfo :: KeyInfo
  aMem :: "Mem list"
  key_i :: int
  key_z :: bytes
  nField :: nat
  default_rc :: int
  errCode :: nat
  r1 :: int
  r2 :: int
  eqSeen :: bool

section \<open>The general routine\<close>

definition serialGet7 :: "mem \<Rightarrow> u64 \<times> bool" where
  "serialGet7 buf =
     (let x = push_bit 32 (ucast (FOUR_BYTE_UINT buf)) + ucast (FOUR_BYTE_UINT (\<lambda>i. buf (4 + i))) in (x, IsNaN x))"

definition vdbeRecordDecodeInt :: "u32 \<Rightarrow> mem \<Rightarrow> int" where
  "vdbeRecordDecodeInt serial_type aKey =
     (if serial_type = 0 \<or> serial_type = 1 then ONE_BYTE_INT aKey
      else if serial_type = 2 then TWO_BYTE_INT aKey
      else if serial_type = 3 then THREE_BYTE_INT aKey
      else if serial_type = 4 then sint (FOUR_BYTE_UINT aKey)
      else if serial_type = 5 then uint (FOUR_BYTE_UINT (\<lambda>i. aKey (2 + i))) + 2 ^ 32 * TWO_BYTE_INT aKey
      else if serial_type = 6 then
        sint (push_bit 32 (ucast (FOUR_BYTE_UINT aKey)) OR ucast (FOUR_BYTE_UINT (\<lambda>i. aKey (4 + i))) :: u64)
      else uint (serial_type - 8))"

text \<open>
  The comparison of one field, at \<open>idx1\<close> in the header and \<open>d1\<close> in the data: the serial type as it was read, and \<open>None\<close>
  for a damaged record or else the comparison with the error code and the allocator.
\<close>
definition compare_int :: "bool \<Rightarrow> mem \<Rightarrow> u32 \<Rightarrow> Mem \<Rightarrow> int" where
  "compare_int ld data serial_type pRhs =
     (if serial_type \<ge> 10 then (if serial_type = 10 then - 1 else 1)
      else if serial_type = 0 then - 1
      else if serial_type = 7 then - sqlite3IntFloatCompare ld (u_i pRhs) (fst (serialGet7 data))
      else
        let lhs = vdbeRecordDecodeInt serial_type data; rhs = u_i pRhs
        in if lhs < rhs then - 1 else if lhs > rhs then 1 else 0)"

definition compare_real :: "bool \<Rightarrow> mem \<Rightarrow> u32 \<Rightarrow> Mem \<Rightarrow> int" where
  "compare_real ld data serial_type pRhs =
     (if serial_type \<ge> 10 then (if serial_type = 10 then - 1 else 1)
      else if serial_type = 0 then - 1
      else if serial_type = 7 then
        (case serialGet7 data of (r, isnan) \<Rightarrow>
           if isnan then - 1
           else if double_value r < double_value (u_r pRhs) then - 1
           else if double_value r > double_value (u_r pRhs) then 1 else 0)
      else sqlite3IntFloatCompare ld (u_i (sqlite3VdbeSerialGet data serial_type pRhs)) (u_r pRhs))"

definition compare_str :: "KeyInfo \<Rightarrow> nat \<Rightarrow> mem \<Rightarrow> nat \<Rightarrow> nat \<Rightarrow> u32 \<Rightarrow> Mem \<Rightarrow> allocator \<Rightarrow> (int \<times> nat \<times> allocator) option" where
  "compare_str ki i aKey1 nKey1 d1 serial_type pRhs al =
     (if serial_type < 12 then Some (- 1, 0, al)
      else if even (unat serial_type) then Some (1, 0, al)
      else
        let n = (unat serial_type - 12) div 2
        in if d1 + n > nKey1 \<or> nAllField ki \<le> i then None
           else
             let z = map (\<lambda>k. aKey1 (d1 + k)) [0..<n]
             in case aColl ki ! i of
                  Some coll \<Rightarrow> Some (vdbeCompareMemString (ki_enc ki) coll z (cell_z pRhs) al)
                | None \<Rightarrow>
                    let nCmp = min n (length (cell_z pRhs)); rc = memcmp (take nCmp z) (take nCmp (cell_z pRhs))
                    in Some (if rc = 0 then int n - int (length (cell_z pRhs)) else rc, 0, al))"

definition compare_blob :: "mem \<Rightarrow> nat \<Rightarrow> nat \<Rightarrow> u32 \<Rightarrow> Mem \<Rightarrow> int option" where
  "compare_blob aKey1 nKey1 d1 serial_type pRhs =
     (if serial_type < 12 \<or> odd (unat serial_type) then Some (- 1)
      else
        let nStr = (unat serial_type - 12) div 2
        in if d1 + nStr > nKey1 then None
           else
             let z = map (\<lambda>k. aKey1 (d1 + k)) [0..<nStr]
             in if has pRhs MEM_Zero then Some (if \<not> isAllZero z then 1 else int nStr - int (u_nZero pRhs))
                else
                  let nCmp = min nStr (length (cell_z pRhs)); rc = memcmp (take nCmp z) (take nCmp (cell_z pRhs))
                  in Some (if rc = 0 then int nStr - int (length (cell_z pRhs)) else rc))"

definition compare_null :: "mem \<Rightarrow> u32 \<Rightarrow> int" where
  "compare_null data serial_type =
     (if serial_type = 0 \<or> serial_type = 10 \<or> serial_type = 7 \<and> snd (serialGet7 data) then 0 else 1)"

definition compare_field :: "bool \<Rightarrow> KeyInfo \<Rightarrow> nat \<Rightarrow> mem \<Rightarrow> nat \<Rightarrow> nat \<Rightarrow> nat \<Rightarrow> Mem \<Rightarrow> allocator
    \<Rightarrow> u32 \<times> (int \<times> nat \<times> allocator) option" where
  "compare_field ld ki i aKey1 nKey1 idx1 d1 pRhs al =
     (let byte = ucast (aKey1 idx1); varint = fst (getVarint32 (\<lambda>k. aKey1 (idx1 + k))); data = (\<lambda>k. aKey1 (d1 + k))
      in if has pRhs (MEM_Int OR MEM_IntReal) then (byte, Some (compare_int ld data byte pRhs, 0, al))
         else if has pRhs MEM_Real then (byte, Some (compare_real ld data byte pRhs, 0, al))
         else if has pRhs MEM_Str then (varint, compare_str ki i aKey1 nKey1 d1 varint pRhs al)
         else if has pRhs MEM_Blob then (varint, map_option (\<lambda>rc. (rc, 0, al)) (compare_blob aKey1 nKey1 d1 varint pRhs))
         else (byte, Some (compare_null data byte, 0, al)))"

text \<open>What the sort flags make of a difference.\<close>
definition sorted_rc :: "nat \<Rightarrow> u32 \<Rightarrow> Mem \<Rightarrow> int \<Rightarrow> int" where
  "sorted_rc sortFlags serial_type pRhs rc =
     (if sortFlags \<noteq> 0
         \<and> (sortFlags AND KEYINFO_ORDER_BIGNULL = 0
            \<or> (sortFlags AND KEYINFO_ORDER_DESC \<noteq> 0) \<noteq> (serial_type = 0 \<or> has pRhs MEM_Null))
      then - rc else rc)"

fun compare_loop :: "bool \<Rightarrow> mem \<Rightarrow> nat \<Rightarrow> nat \<Rightarrow> nat \<Rightarrow> nat \<Rightarrow> nat \<Rightarrow> Mem list \<Rightarrow> UnpackedRecord \<Rightarrow> allocator
    \<Rightarrow> (int \<times> UnpackedRecord \<times> allocator) option" where
  "compare_loop ld aKey1 nKey1 szHdr1 i idx1 d1 [] p al = None"
| "compare_loop ld aKey1 nKey1 szHdr1 i idx1 d1 (pRhs # ms) p al =
     (case compare_field ld (pKeyInfo p) i aKey1 nKey1 idx1 d1 pRhs al of
        (serial_type, None) \<Rightarrow> Some (0, p\<lparr>errCode := SQLITE_CORRUPT\<rparr>, al)
      | (serial_type, Some (rc, err, al)) \<Rightarrow>
          let p = (if err \<noteq> 0 then p\<lparr>errCode := err\<rparr> else p)
          in if rc \<noteq> 0 then Some (sorted_rc (aSortFlags (pKeyInfo p) ! i) serial_type pRhs rc, p, al)
             else if i + 1 = nField p then Some (default_rc p, p\<lparr>eqSeen := True\<rparr>, al)
             else
               let d1 = d1 + sqlite3VdbeSerialTypeLen serial_type
               in if d1 > nKey1 then Some (default_rc p, p\<lparr>eqSeen := True\<rparr>, al)
                  else
                    let idx1 = idx1 + sqlite3VarintLen (ucast serial_type)
                    in if idx1 \<ge> szHdr1 then Some (0, p\<lparr>errCode := SQLITE_CORRUPT\<rparr>, al)
                       else compare_loop ld aKey1 nKey1 szHdr1 (i + 1) idx1 d1 ms p al)"

definition sqlite3VdbeRecordCompareWithSkip :: "bool \<Rightarrow> nat \<Rightarrow> mem \<Rightarrow> UnpackedRecord \<Rightarrow> bool \<Rightarrow> allocator
    \<Rightarrow> (int \<times> UnpackedRecord \<times> allocator) option" where
  "sqlite3VdbeRecordCompareWithSkip ld nKey1 aKey1 p bSkip al =
     (let (szHdr1, idx1, d1, i, ms) =
            (if bSkip then
               let (s1, n) = (if aKey1 1 < 0x80 then (ucast (aKey1 1), 1) else sqlite3GetVarint32 (\<lambda>k. aKey1 (1 + k)));
                   szHdr1 = unat (aKey1 0)
               in (szHdr1, 1 + n, szHdr1 + sqlite3VdbeSerialTypeLen s1, 1, drop 1 (aMem p))
             else
               let (szHdr1, n) = (if aKey1 0 < 0x80 then (ucast (aKey1 0), 1) else sqlite3GetVarint32 aKey1)
               in (unat szHdr1, n, unat szHdr1, 0, aMem p))
      in if d1 > nKey1 then Some (0, p\<lparr>errCode := SQLITE_CORRUPT\<rparr>, al)
         else compare_loop ld aKey1 nKey1 szHdr1 i idx1 d1 ms p al)"

definition sqlite3VdbeRecordCompare :: "bool \<Rightarrow> nat \<Rightarrow> mem \<Rightarrow> UnpackedRecord \<Rightarrow> allocator
    \<Rightarrow> (int \<times> UnpackedRecord \<times> allocator) option" where
  "sqlite3VdbeRecordCompare ld nKey1 aKey1 p al = sqlite3VdbeRecordCompareWithSkip ld nKey1 aKey1 p False al"

section \<open>The fast routines\<close>

text \<open>The integer in the first field, if it has an integer type.\<close>
definition first_int :: "mem \<Rightarrow> int option" where
  "first_int pKey1 =
     (let aKey = (\<lambda>k. pKey1 (unat (pKey1 0 AND 0x3f) + k)); serial_type = pKey1 1
      in if serial_type = 1 then Some (ONE_BYTE_INT aKey)
         else if serial_type = 2 then Some (TWO_BYTE_INT aKey)
         else if serial_type = 3 then Some (THREE_BYTE_INT aKey)
         else if serial_type = 4 then Some (sint (FOUR_BYTE_UINT aKey))
         else if serial_type = 5 then Some (uint (FOUR_BYTE_UINT (\<lambda>i. aKey (2 + i))) + 2 ^ 32 * TWO_BYTE_INT aKey)
         else if serial_type = 6 then
           Some (sint (push_bit 32 (ucast (FOUR_BYTE_UINT aKey)) OR ucast (FOUR_BYTE_UINT (\<lambda>i. aKey (4 + i))) :: u64))
         else if serial_type = 8 then Some 0
         else if serial_type = 9 then Some 1
         else None)"

text \<open>The first fields are equal: the other fields decide.\<close>
definition rest_fields :: "bool \<Rightarrow> nat \<Rightarrow> mem \<Rightarrow> UnpackedRecord \<Rightarrow> allocator \<Rightarrow> (int \<times> UnpackedRecord \<times> allocator) option" where
  "rest_fields ld nKey1 pKey1 p al =
     (if nField p > 1 then sqlite3VdbeRecordCompareWithSkip ld nKey1 pKey1 p True al
      else Some (default_rc p, p\<lparr>eqSeen := True\<rparr>, al))"

definition vdbeRecordCompareInt :: "bool \<Rightarrow> nat \<Rightarrow> mem \<Rightarrow> UnpackedRecord \<Rightarrow> allocator
    \<Rightarrow> (int \<times> UnpackedRecord \<times> allocator) option" where
  "vdbeRecordCompareInt ld nKey1 pKey1 p al =
     (case first_int pKey1 of
        None \<Rightarrow> sqlite3VdbeRecordCompare ld nKey1 pKey1 p al
      | Some lhs \<Rightarrow>
          if key_i p > lhs then Some (r1 p, p, al)
          else if key_i p < lhs then Some (r2 p, p, al)
          else rest_fields ld nKey1 pKey1 p al)"

definition vdbeRecordCompareString :: "bool \<Rightarrow> nat \<Rightarrow> mem \<Rightarrow> UnpackedRecord \<Rightarrow> allocator
    \<Rightarrow> (int \<times> UnpackedRecord \<times> allocator) option" where
  "vdbeRecordCompareString ld nKey1 aKey1 p al =
     (let serial_type = sint (aKey1 1);
          serial_type = (if serial_type < 0 then sint (fst (sqlite3GetVarint32 (\<lambda>k. aKey1 (1 + k)))) else serial_type)
      in if serial_type < 12 then Some (r1 p, p, al)
         else if even serial_type then Some (r2 p, p, al)
         else
           let szHdr = unat (aKey1 0); nStr = nat ((serial_type - 12) div 2)
           in if szHdr + nStr > nKey1 then Some (0, p\<lparr>errCode := SQLITE_CORRUPT\<rparr>, al)
              else
                let nCmp = min (length (key_z p)) nStr;
                    res = memcmp (map (\<lambda>k. aKey1 (szHdr + k)) [0..<nCmp]) (take nCmp (key_z p));
                    res = (if res = 0 then int nStr - int (length (key_z p)) else res)
                in if res > 0 then Some (r2 p, p, al)
                   else if res < 0 then Some (r1 p, p, al)
                   else rest_fields ld nKey1 aKey1 p al)"

datatype RecordCompare = Compare_General | Compare_Int | Compare_String

definition sqlite3VdbeFindCompare :: "UnpackedRecord \<Rightarrow> RecordCompare \<times> UnpackedRecord" where
  "sqlite3VdbeFindCompare p =
     (let ki = pKeyInfo p; flags = cell_flags (aMem p ! 0); sf = aSortFlags ki ! 0 in
      if nAllField ki \<le> 13 then
        if sf \<noteq> 0 \<and> sf AND KEYINFO_ORDER_BIGNULL \<noteq> 0 then (Compare_General, p)
        else
          let p = (if sf \<noteq> 0 then p\<lparr>r1 := 1, r2 := - 1\<rparr> else p\<lparr>r1 := - 1, r2 := 1\<rparr>)
          in if flags AND MEM_Int \<noteq> 0 then (Compare_Int, p\<lparr>key_i := u_i (aMem p ! 0)\<rparr>)
             else if flags AND (MEM_Real OR MEM_IntReal OR MEM_Null OR MEM_Blob) = 0 \<and> aColl ki ! 0 = None
             then (Compare_String, p\<lparr>key_z := cell_z (aMem p ! 0)\<rparr>)
             else (Compare_General, p)
      else (Compare_General, p))"

text \<open>A call through the function pointer.\<close>
definition xRecordCompare :: "RecordCompare \<Rightarrow> bool \<Rightarrow> nat \<Rightarrow> mem \<Rightarrow> UnpackedRecord \<Rightarrow> allocator
    \<Rightarrow> (int \<times> UnpackedRecord \<times> allocator) option" where
  "xRecordCompare f =
     (case f of
        Compare_General \<Rightarrow> sqlite3VdbeRecordCompare
      | Compare_Int \<Rightarrow> vdbeRecordCompareInt
      | Compare_String \<Rightarrow> vdbeRecordCompareString)"

section \<open>The order of records\<close>

definition is_null :: "stored_value \<Rightarrow> bool" where
  "is_null v \<longleftrightarrow> value_class v = 0"

text \<open>One column: \<open>NULL\<close> is smallest, or largest if the flags say so, and a descending column is reversed.\<close>
definition field_order :: "nat \<Rightarrow> nat \<Rightarrow> CollSeq option \<Rightarrow> stored_value \<Rightarrow> stored_value \<Rightarrow> int" where
  "field_order sf enc coll v w =
     (let c = value_order enc coll v w;
          c = (if sf AND KEYINFO_ORDER_BIGNULL \<noteq> 0 \<and> (is_null v \<or> is_null w) then - c else c)
      in if sf AND KEYINFO_ORDER_DESC \<noteq> 0 then - c else c)"

text \<open>The first column that differs decides.\<close>
fun record_order :: "KeyInfo \<Rightarrow> nat \<Rightarrow> stored_value list \<Rightarrow> stored_value list \<Rightarrow> int" where
  "record_order ki i (v # vs) (w # ws) =
     (let c = field_order (aSortFlags ki ! i) (ki_enc ki) (aColl ki ! i) v w
      in if c \<noteq> 0 then c else record_order ki (i + 1) vs ws)"
| "record_order ki i _ _ = 0"

section \<open>Decoding a field\<close>

abbreviation int_types :: "u32 set" where "int_types \<equiv> {1, 2, 3, 4, 5, 6, 8, 9}"

lemma signed_wrap: "signed_take_bit k u = (if u < 2 ^ k then u else u - 2 ^ Suc k)" if "0 \<le> u" "u < 2 ^ Suc k" for u :: int
proof -
  have e: "signed_take_bit k u = (u + 2 ^ k) mod 2 ^ Suc k - 2 ^ k"
    by (simp add: signed_take_bit_eq_take_bit_shift take_bit_eq_mod)
  show ?thesis
  proof (cases "u < 2 ^ k")
    case True
    then show ?thesis unfolding e using that by simp
  next
    case False
    have "(u + 2 ^ k) mod 2 ^ Suc k = (u + 2 ^ k - 2 ^ Suc k) mod 2 ^ Suc k" by (simp only: minus_mod_self2)
    also have "\<dots> = u - 2 ^ k" using that False by (subst mod_pos_pos_trivial) simp_all
    finally show ?thesis unfolding e using False by simp
  qed
qed

lemma sint_macro: "sint (FOUR_BYTE_UINT x) = FOUR_BYTE_INT x"
proof -
  have s: "sint b = (if uint b < 128 then uint b else uint b - 256)" for b :: u8
    using signed_wrap [of "uint b" 7] uint_lt2p [of b] by (simp add: sint_uint)
  have w: "sint w = (if uint w < 2 ^ 31 then uint w else uint w - 2 ^ 32)" for w :: u32
    using signed_wrap [of "uint w" 31] uint_lt2p [of w] by (simp add: sint_uint)
  have "256 * (256 * (256 * a + b) + c) + d < 2147483648 \<longleftrightarrow> a < 128"
    if "0 \<le> b" "b < 256" "0 \<le> c" "c < 256" "0 \<le> d" "d < 256" for a b c d :: int
    using that by (cases "a \<le> 127") (simp_all add: not_le; linarith)+
  then have "uint (FOUR_BYTE_UINT x) < 2 ^ 31 \<longleftrightarrow> uint (x 0) < 128" unfolding uint_macro by simp
  then show ?thesis unfolding w uint_macro int_macros s by (auto simp: algebra_simps)
qed

lemma word_or_plus: "push_bit 32 (ucast (a :: u32)) OR ucast (b :: u32) = (push_bit 32 (ucast a) + ucast b :: u64)"
  by (rule disjunctive_add [symmetric]) (auto simp: bit_simps dest: bit_imp_le_length)

lemma decode_int:
  "t \<in> int_types \<Longrightarrow> sqlite3VdbeSerialGet buf t c = c\<lparr>u_i := vdbeRecordDecodeInt t buf, cell_flags := MEM_Int\<rparr>"
  by (auto simp: vdbeRecordDecodeInt_def sqlite3VdbeSerialGet_def serialGet_def sint_macro word_or_plus)

lemma decode_range:
  assumes "t \<in> int_types"
  shows "is_i64 (vdbeRecordDecodeInt t buf)"
proof -
  have b: "- 128 \<le> sint b" "sint b < 128" for b :: u8 using sint_greater_eq [of b] sint_less [of b] by simp_all
  have w: "- (2 ^ 31) \<le> sint w" "sint w < 2 ^ 31" for w :: u32 using sint_greater_eq [of w] sint_less [of w] by simp_all
  have l: "- (2 ^ 63) \<le> sint x" "sint x < 2 ^ 63" for x :: u64 using sint_greater_eq [of x] sint_less [of x] by simp_all
  have two: "- 32768 \<le> TWO_BYTE_INT x" "TWO_BYTE_INT x < 32768" for x
    using b [of "x 0"] byte_range [of "x 1"] unfolding int_macros by linarith+
  have three: "- 8388608 \<le> THREE_BYTE_INT x" "THREE_BYTE_INT x < 8388608" for x
    using b [of "x 0"] byte_range [of "x 1"] byte_range [of "x 2"] unfolding int_macros distrib_left by linarith+
  have six: "- (2 ^ 63) \<le> uint w + 4294967296 * TWO_BYTE_INT x" "uint w + 4294967296 * TWO_BYTE_INT x < 2 ^ 63" for w :: u32 and x
    using two [of x] uint_lt2p [of w] uint_ge_0 [of w] by (simp_all; linarith)+
  have one: "- 128 \<le> ONE_BYTE_INT buf" "ONE_BYTE_INT buf < 128" using b by (simp_all add: ONE_BYTE_INT_def)
  show ?thesis
    using assms one two [of buf] three [of buf] w [of "FOUR_BYTE_UINT buf"] six [of "FOUR_BYTE_UINT (\<lambda>i. buf (2 + i))" buf]
      l [of "push_bit 32 (ucast (FOUR_BYTE_UINT buf)) OR ucast (FOUR_BYTE_UINT (\<lambda>i. buf (4 + i)))"]
    by (auto simp: vdbeRecordDecodeInt_def is_i64_def)
qed

text \<open>The value of a field by its serial type.\<close>
lemma stored_by_type:
  "stored (sqlite3VdbeSerialGet buf 0 c) = SNull"
  "t \<in> int_types \<Longrightarrow> stored (sqlite3VdbeSerialGet buf t c) = SInt (vdbeRecordDecodeInt t buf)"
  "stored (sqlite3VdbeSerialGet buf 7 c) = (if snd (serialGet7 buf) then SNull else SReal (fst (serialGet7 buf)))"
  "12 \<le> t \<Longrightarrow> stored (sqlite3VdbeSerialGet buf t c)
     = (if odd (unat t) then SText (map buf [0..<(unat t - 12) div 2]) else SBlob (map buf [0..<(unat t - 12) div 2]))"
proof -
  show "stored (sqlite3VdbeSerialGet buf 0 c) = SNull" by (simp add: sqlite3VdbeSerialGet_def stored_def flag_masks)
  show "t \<in> int_types \<Longrightarrow> stored (sqlite3VdbeSerialGet buf t c) = SInt (vdbeRecordDecodeInt t buf)"
    by (simp only: decode_int stored_int)
  show "stored (sqlite3VdbeSerialGet buf 7 c) = (if snd (serialGet7 buf) then SNull else SReal (fst (serialGet7 buf)))"
    by (simp add: sqlite3VdbeSerialGet_def serialGet_def serialGet7_def Let_def stored_def flag_masks)
  assume "12 \<le> t"
  then have "t \<noteq> k" if "unat k < 12" for k using that by (auto simp: word_le_nat_alt)
  then have "sqlite3VdbeSerialGet buf t c
      = c\<lparr>cell_z := map buf [0..<(unat t - 12) div 2], cell_flags := (if odd (unat t) then MEM_Str else MEM_Blob) OR MEM_Ephem\<rparr>"
    by (simp add: sqlite3VdbeSerialGet_def)
  then show "stored (sqlite3VdbeSerialGet buf t c)
     = (if odd (unat t) then SText (map buf [0..<(unat t - 12) div 2]) else SBlob (map buf [0..<(unat t - 12) div 2]))"
    by (simp only: stored_text)
qed

text \<open>
  A field of a sound record: its serial type \<open>t\<close> stands in the header in its shortest form, its data lies inside the key, and its value is
  \<open>v\<close>.
\<close>
definition field_at :: "mem \<Rightarrow> nat \<Rightarrow> nat \<Rightarrow> nat \<Rightarrow> u32 \<Rightarrow> stored_value \<Rightarrow> bool" where
  "field_at aKey nKey idx d t v \<longleftrightarrow>
     getVarint32 (\<lambda>k. aKey (idx + k)) = (t, sqlite3VarintLen (ucast t)) \<and> d + sqlite3VdbeSerialTypeLen t \<le> nKey
     \<and> (\<forall>c. stored (sqlite3VdbeSerialGet (\<lambda>k. aKey (d + k)) t c) = v) \<and> t \<noteq> 10 \<and> t \<noteq> 11 \<and> (is_null v \<longrightarrow> t = 0)"

lemma varint_spec_count: "varint_spec k acc p = (v, n) \<Longrightarrow> k < n"
proof (induction k acc p rule: varint_spec.induct)
  case (1 k acc p)
  then show ?case by (subst (asm) (2) varint_spec.simps) (auto split: if_splits)
qed

lemma byte_u32: "unat (ucast (b :: u8) :: u32) = unat b"
proof -
  have "unat b < 2 ^ LENGTH(8)" by (rule unsigned_less)
  then have "unat b < 2 ^ LENGTH(32)" by (rule less_le_trans) simp
  then show ?thesis unfolding unsigned_ucast_eq unsigned_take_bit_eq by (rule take_bit_nat_eq_self)
qed

lemma small_types:
  fixes t :: u32
  assumes "t < 12"
  shows "t \<in> {0, 7, 10, 11} \<union> int_types"
proof -
  obtain k where k: "t = of_nat k" "k < 12" using assms by (intro that [of "unat t"]) (simp_all add: word_less_nat_alt)
  then have "k \<in> {0, 1, 2, 3, 4, 5, 6, 7, 8, 9, 10, 11}" by (simp add: less_Suc_eq numeral_eq_Suc)
  then show ?thesis using k(1) by auto
qed

lemma first_byte:
  assumes "getVarint32 p = (t, sqlite3VarintLen (ucast t))"
  shows "t < 0x80 \<and> ucast (p 0) = t \<or> 0x80 \<le> t \<and> 0x80 \<le> (ucast (p 0) :: u32)"
proof (cases "p 0 < 0x80")
  case True
  then have "t = ucast (p 0)" using assms by (simp add: getVarint32_def)
  then show ?thesis using True by (simp add: word_less_nat_alt byte_u32)
next
  case False
  then have b: "bit (p 0) 7" by (simp add: u8_less_0x80)
  have "2 \<le> sqlite3VarintLen (ucast t)"
    using assms b varint_spec_count [of 1] by (fastforce simp: getVarint32_saturates getVarint_matches_format varint_spec.simps [of 0] split: prod.splits)
  moreover have "t < 0x80 \<Longrightarrow> sqlite3VarintLen (ucast t) = 1" using hdr_length [of t] hdr_small [of t] by simp
  ultimately show ?thesis using False by (auto simp: word_less_nat_alt word_le_nat_alt byte_u32)
qed

lemma field_types:
  assumes "field_at aKey nKey idx d t v"
  obtains (null) "t = 0" "v = SNull" | (int) "t \<in> int_types" "v = SInt (vdbeRecordDecodeInt t (\<lambda>k. aKey (d + k)))"
  | (real) "t = 7" "v = SReal (fst (serialGet7 (\<lambda>k. aKey (d + k))))" "\<not> snd (serialGet7 (\<lambda>k. aKey (d + k)))"
  | (str) "12 \<le> t" "odd (unat t)" "v = SText (map (\<lambda>k. aKey (d + k)) [0..<(unat t - 12) div 2])" "d + (unat t - 12) div 2 \<le> nKey"
  | (blob) "12 \<le> t" "even (unat t)" "v = SBlob (map (\<lambda>k. aKey (d + k)) [0..<(unat t - 12) div 2])" "d + (unat t - 12) div 2 \<le> nKey"
proof -
  note F = assms [unfolded field_at_def] 
  have len: "12 \<le> t \<Longrightarrow> sqlite3VdbeSerialTypeLen t = (unat t - 12) div 2"
    using small_sizes [of "unat t"] by (auto simp: sqlite3VdbeSerialTypeLen_def word_le_nat_alt)
  have "t \<noteq> 10" "t \<noteq> 11" using F by simp_all
  then have "t = 0 \<or> t \<in> int_types \<or> t = 7 \<or> 12 \<le> t" using small_types [of t] by (cases "t < 12") auto
  then consider "t = 0" | "t \<in> int_types" | "t = 7" | "12 \<le> t" by blast
  then show thesis
  proof cases
    case 1
    then show ?thesis using F stored_by_type(1) that(1) by metis
  next
    case 2
    then show ?thesis using F stored_by_type(2) that(2) by metis
  next
    case 3
    have "v = (if snd (serialGet7 (\<lambda>k. aKey (d + k))) then SNull else SReal (fst (serialGet7 (\<lambda>k. aKey (d + k)))))"
      using F 3 stored_by_type(3) by metis
    then show ?thesis using that(3) 3 F by (auto simp: is_null_def split: if_splits)
  next
    case 4
    then show ?thesis using F stored_by_type(4) [OF 4] len that(4,5) by metis
  qed
qed

section \<open>Comparing a field\<close>

lemma types_below_10:
  "t \<in> int_types \<Longrightarrow> \<not> 10 \<le> t \<and> t \<noteq> 0 \<and> t \<noteq> 7" for t :: u32
  by (auto simp: word_le_nat_alt)

lemma mem_text_order:
  assumes "length z = n"
  shows "(let nCmp = min n (length w); rc = memcmp (take nCmp z) (take nCmp w) in if rc = 0 then int n - int (length w) else rc)
    = binCollFunc z w"
  unfolding assms [symmetric] binCollFunc_def ..

lemma compare_int_order:
  assumes "field_at aKey nKey idx d t v" "is_i64 (u_i w)" "value = SInt (u_i w)"
    "b = t \<or> 0x80 \<le> t \<and> 0x80 \<le> b"
  shows "sgn (compare_int ld (\<lambda>k. aKey (d + k)) b w) = value_order enc coll v value" 
  using assms(1)
proof (cases rule: field_types)
  case null
  then show ?thesis using assms(3,4) by (auto simp: compare_int_def)
next
  case int
  have "sgn (x * one_unit - y * one_unit) = sgn (x - y)" for x y
    using one_unit_pos by (simp add: sgn_mult flip: left_diff_distrib)
  then show ?thesis using int assms(3,4) types_below_10 [OF int(1)] by (auto simp: compare_int_def Let_def word_le_nat_alt)
next
  case real
  then show ?thesis using assms(2-4) IntFloatCompare_exact [of "u_i w"] 
    by (auto simp: compare_int_def serialGet7_def Let_def sgn_if word_le_nat_alt)
next
  case str
  then have "10 \<le> b" "b \<noteq> 10" "b \<noteq> 11" using assms(4) by (auto simp: word_le_nat_alt)
  then show ?thesis using str assms(3) by (simp add: compare_int_def)
next
  case blob
  then have "10 \<le> b" "b \<noteq> 10" "b \<noteq> 11" using assms(4) by (auto simp: word_le_nat_alt)
  then show ?thesis using blob assms(3) by (simp add: compare_int_def)
qed

lemma compare_real_order:
  assumes "field_at aKey nKey idx d t v" "\<not> IsNaN (u_r w)" "value = SReal (u_r w)"
    "b = t \<or> 0x80 \<le> t \<and> 0x80 \<le> b"
  shows "sgn (compare_real ld (\<lambda>k. aKey (d + k)) b w) = value_order enc coll v value" 
  using assms(1)
proof (cases rule: field_types)
  case null
  then show ?thesis using assms(3,4) by (auto simp: compare_real_def)
next
  case int
  then show ?thesis using decode_range [OF int(1)] assms(2-4) types_below_10 [OF int(1)] decode_int [OF int(1)] IntFloatCompare_exact
    by (auto simp: compare_real_def Let_def word_le_nat_alt)
next
  case real
  then show ?thesis using assms(2-4)
    by (auto simp: compare_real_def sgn_if word_le_nat_alt split: prod.splits)
next
  case str
  then have "10 \<le> b" "b \<noteq> 10" "b \<noteq> 11" using assms(4) by (auto simp: word_le_nat_alt)
  then show ?thesis using str assms(3) by (simp add: compare_real_def)
next
  case blob
  then have "10 \<le> b" "b \<noteq> 10" "b \<noteq> 11" using assms(4) by (auto simp: word_le_nat_alt)
  then show ?thesis using blob assms(3) by (simp add: compare_real_def)
qed

lemma compare_str_order:
  assumes "field_at aKey nKey idx d t v" "i < nAllField ki" "is_enc (ki_enc ki)" "known_enc (aColl ki ! i)" "plenty al"
  shows "\<exists>rc al'. compare_str ki i aKey nKey d t w al = Some (rc, 0, al')
    \<and> sgn rc = value_order (ki_enc ki) (aColl ki ! i) v (SText (cell_z w)) \<and> plenty al' \<and> live al' = live al"
  using assms(1)
proof (cases rule: field_types)
  case str
  define n where "n = (unat t - 12) div 2"
  define z where "z = map (\<lambda>k. aKey (d + k)) [0..<n]"
  have z: "length z = n" by (simp add: z_def)
  note str = str(1,2) str(3,4) [folded n_def, folded z_def]
  show ?thesis
  proof (cases "aColl ki ! i")
    case None
    have "compare_str ki i aKey nKey d t w al = Some (binCollFunc z (cell_z w), 0, al)"
      using str leD [OF str(1)] None assms(2) mem_text_order [OF z, of "cell_z w"]
      unfolding compare_str_def n_def [symmetric] z_def [symmetric] Let_def by simp
    then show ?thesis using str None assms(5) by (simp add: binCollFunc_order text_order_def)
  next
    case (Some coll)
    obtain rc err al' where c: "vdbeCompareMemString (ki_enc ki) coll z (cell_z w) al = (rc, err, al')"
      by (metis prod_cases3)
    have "is_enc (coll_enc coll)" using assms(4) Some by simp
    note C = CompareMemString_order [OF c assms(3) this]
    have "compare_str ki i aKey nKey d t w al = Some (rc, err, al')"
      using str leD [OF str(1)] Some c assms(2) unfolding compare_str_def n_def [symmetric] z_def [symmetric] Let_def by simp
    then show ?thesis using C str assms(5) Some by (auto simp: SQLITE_NOMEM_def)
  qed
next
  case int
  then have "t < 12" by (auto simp: word_less_nat_alt)
  then show ?thesis using int assms(5) by (simp add: compare_str_def)
qed (use assms(5) in \<open>auto simp: compare_str_def word_less_nat_alt word_le_nat_alt\<close>)

lemma compare_blob_order:
  assumes "field_at aKey nKey idx d t v" "has w MEM_Zero \<Longrightarrow> cell_z w = []"
  shows "\<exists>rc. compare_blob aKey nKey d t w = Some rc \<and> sgn rc = value_order enc coll v (SBlob (blob_bytes w))"
  using assms(1)
proof (cases rule: field_types)
  case blob
  define n where "n = (unat t - 12) div 2"
  define z where "z = map (\<lambda>k. aKey (d + k)) [0..<n]"
  have z: "length z = n" by (simp add: z_def)
  note blob = blob(1,2) blob(3,4) [folded n_def, folded z_def]
  have "compare_blob aKey nKey d t w =
      Some (if has w MEM_Zero then if isAllZero z then int n - int (u_nZero w) else 1 else binCollFunc z (cell_z w))"
    using blob leD [OF blob(1)] mem_text_order [OF z, of "cell_z w"]
    unfolding compare_blob_def n_def [symmetric] z_def [symmetric] Let_def by simp
  then show ?thesis using blob assms(2) z by (auto simp: binCollFunc_order blob_bytes_def order_zeros)
next
  case int
  then have "t < 12" by (auto simp: word_less_nat_alt)
  then show ?thesis using int by (simp add: compare_blob_def)
qed (auto simp: compare_blob_def word_less_nat_alt word_le_nat_alt)

lemma compare_null_order:
  assumes "field_at aKey nKey idx d t v" "b = t \<or> 0x80 \<le> t \<and> 0x80 \<le> b"
  shows "compare_null (\<lambda>k. aKey (d + k)) b = value_order enc coll v SNull"
  using assms(1)
proof (cases rule: field_types)
  case str
  then have "b \<noteq> 0" "b \<noteq> 10" "b \<noteq> 7" using assms(2) by (auto simp: word_le_nat_alt)
  then show ?thesis using str by (simp add: compare_null_def)
next
  case blob
  then have "b \<noteq> 0" "b \<noteq> 10" "b \<noteq> 7" using assms(2) by (auto simp: word_le_nat_alt)
  then show ?thesis using blob by (simp add: compare_null_def)
qed (use assms(2) in \<open>auto simp: compare_null_def word_le_nat_alt\<close>)

text \<open>One turn of the loop: a field is compared in the order of values, and its serial type is known when it is equal.\<close>
lemma compare_field_order:
  assumes F: "field_at aKey nKey idx d t v" and w: "proper w"
    and ki: "i < nAllField ki" "is_enc (ki_enc ki)" "known_enc (aColl ki ! i)" and al: "plenty al"
  shows "\<exists>t' rc al'. compare_field ld ki i aKey nKey idx d w al = (t', Some (rc, 0, al'))
    \<and> sgn rc = value_order (ki_enc ki) (aColl ki ! i) v (cell_value w) \<and> (rc = 0 \<longrightarrow> t' = t) \<and> (t' = 0 \<longleftrightarrow> is_null v)
    \<and> plenty al' \<and> live al' = live al"
proof -
  define b :: u32 where "b = ucast (aKey idx)"
  have g: "getVarint32 (\<lambda>k. aKey (idx + k)) = (t, sqlite3VarintLen (ucast t))" using F by (simp add: field_at_def)
  have b: "t < 0x80 \<and> b = t \<or> 0x80 \<le> t \<and> 0x80 \<le> b" using first_byte [OF g] by (simp add: b_def)
  then have b': "b = t \<or> 0x80 \<le> t \<and> 0x80 \<le> b" by blast
  have big: "value_class v \<noteq> 2 \<and> value_class v \<noteq> 3 \<Longrightarrow> t < 12"
    using F by (cases rule: field_types) (auto simp: word_less_nat_alt)
  have null: "b = 0 \<longleftrightarrow> is_null v" "t = 0 \<longleftrightarrow> is_null v"
    using F b by (cases rule: field_types; auto simp: is_null_def word_le_nat_alt)+
  have eq: "b = t" if "value_order (ki_enc ki) (aColl ki ! i) v (cell_value w) = 0" "value_class (cell_value w) < 2"
  proof -
    have "value_class v = value_class (cell_value w)"
      using that(1) value_order_class(1) [of v "cell_value w" "ki_enc ki" "aColl ki ! i"]
      by (cases "value_class v = value_class (cell_value w)") (simp_all add: sgn_eq_0_iff)
    then have "t < 12" using big that(2) by auto
    then show ?thesis using b by (auto simp: word_less_nat_alt word_le_nat_alt)
  qed
  note d = compare_field_def Let_def g fst_conv b_def [symmetric]
  show ?thesis
    using w
  proof (cases rule: proper_cases)
    case is_null
    have "\<not> has w MEM_Blob" using w is_null(1) by (simp add: proper_def)
    then have "compare_field ld ki i aKey nKey idx d w al = (b, Some (compare_null (\<lambda>k. aKey (d + k)) b, 0, al))"
      using is_null by (simp add: d)
    moreover have "sgn (compare_null (\<lambda>k. aKey (d + k)) b) = value_order (ki_enc ki) (aColl ki ! i) v (cell_value w)"
      using compare_null_order [OF F b'] is_null(5) by (simp add: compare_null_def split: if_splits)
    ultimately show ?thesis using al null eq is_null(5) by auto
  next
    case is_int
    have i: "is_i64 (u_i w)" using w by (simp add: proper_def)
    have "compare_field ld ki i aKey nKey idx d w al = (b, Some (compare_int ld (\<lambda>k. aKey (d + k)) b w, 0, al))"
      using is_int by (simp add: d)
    moreover note compare_int_order [OF F i is_int(4) b', of ld "ki_enc ki" "aColl ki ! i"]
    ultimately show ?thesis using al null eq is_int(4) by (auto simp: sgn_0_0)
  next
    case is_real
    have "compare_field ld ki i aKey nKey idx d w al = (b, Some (compare_real ld (\<lambda>k. aKey (d + k)) b w, 0, al))"
      using is_real by (simp add: d)
    moreover note compare_real_order [OF F is_real(5,4) b', of ld "ki_enc ki" "aColl ki ! i"]
    ultimately show ?thesis using al null eq is_real(4) by auto
  next
    case is_str
    have "compare_field ld ki i aKey nKey idx d w al = (t, compare_str ki i aKey nKey d t w al)"
      using is_str by (simp add: d)
    then show ?thesis using compare_str_order [OF F ki al, of w] null is_str(6) by auto
  next
    case is_blob
    have "compare_field ld ki i aKey nKey idx d w al = (t, map_option (\<lambda>rc. (rc, 0, al)) (compare_blob aKey nKey d t w))"
      using is_blob by (simp add: d)
    then show ?thesis using compare_blob_order [OF F is_blob(7), of "ki_enc ki" "aColl ki ! i"] al null is_blob(6) by auto
  qed
qed

section \<open>Comparing records\<close>

text \<open>The sort flags reverse a difference as the order of columns does.\<close>
lemma sorted_rc_order:
  assumes "sf < 4" "sgn rc = value_order enc coll v (cell_value w)" "t = 0 \<longleftrightarrow> is_null v" "proper w"
  shows "sgn (sorted_rc sf t w rc) = field_order sf enc coll v (cell_value w)"
proof -
  have n: "has w MEM_Null \<longleftrightarrow> is_null (cell_value w)"
    using assms(4) by (cases rule: proper_cases) (auto simp: is_null_def)
  have "sf \<in> {0, 1, 2, 3}" using assms(1) by auto
  then show ?thesis
    using assms(2,3) n
    by (auto simp: sorted_rc_def field_order_def KEYINFO_ORDER_DESC_def KEYINFO_ORDER_BIGNULL_def Let_def)
qed

lemma field_order_zero: "field_order sf enc coll v w = 0 \<longleftrightarrow> value_order enc coll v w = 0"
  by (simp add: field_order_def Let_def)

text \<open>The fields of a record from the offsets \<open>idx\<close> and \<open>d\<close> on, with their serial types.\<close>
fun fields_at :: "mem \<Rightarrow> nat \<Rightarrow> nat \<Rightarrow> nat \<Rightarrow> nat \<Rightarrow> (u32 \<times> stored_value) list \<Rightarrow> bool" where
  "fields_at aKey nKey szHdr idx d [] = True"
| "fields_at aKey nKey szHdr idx d ((t, v) # fs) =
     (field_at aKey nKey idx d t v \<and> idx < szHdr
      \<and> fields_at aKey nKey szHdr (idx + sqlite3VarintLen (ucast t)) (d + sqlite3VdbeSerialTypeLen t) fs)"

text \<open>What a comparison reports for a difference \<open>c\<close> of the records.\<close>
definition reports :: "int \<Rightarrow> UnpackedRecord \<Rightarrow> int \<Rightarrow> UnpackedRecord \<Rightarrow> bool" where
  "reports c p rc p' \<longleftrightarrow> (if c = 0 then rc = default_rc p \<and> p' = p\<lparr>eqSeen := True\<rparr> else sgn rc = c \<and> p' = p)"

text \<open>The columns of a key from \<open>i\<close> to \<open>n\<close> are described.\<close>
definition key_ok :: "KeyInfo \<Rightarrow> nat \<Rightarrow> bool" where
  "key_ok ki n \<longleftrightarrow> is_enc (ki_enc ki) \<and> n \<le> nAllField ki \<and> (\<forall>i < n. known_enc (aColl ki ! i) \<and> aSortFlags ki ! i < 4)"

lemma compare_loop_order:
  assumes "fields_at aKey nKey szHdr idx d fs" "length ws \<le> length fs" "ws \<noteq> []" "list_all proper ws"
    and "nField p = i + length ws" "key_ok (pKeyInfo p) (nField p)" "plenty al"
  shows "\<exists>rc p' al'. compare_loop ld aKey nKey szHdr i idx d ws p al = Some (rc, p', al')
    \<and> reports (record_order (pKeyInfo p) i (map snd fs) (map cell_value ws)) p rc p' \<and> live al' = live al"
  using assms
proof (induction ws arbitrary: fs i idx d al)
  case (Cons w ws)
  obtain t v fs' where fs: "fs = (t, v) # fs'" using Cons.prems(2) by (cases fs) auto
  let ?ki = "pKeyInfo p"
  have F: "field_at aKey nKey idx d t v" "fields_at aKey nKey szHdr (idx + sqlite3VarintLen (ucast t)) (d + sqlite3VdbeSerialTypeLen t) fs'"
    using Cons.prems(1) fs by simp_all
  have ki: "i < nAllField ?ki" "is_enc (ki_enc ?ki)" "known_enc (aColl ?ki ! i)" "aSortFlags ?ki ! i < 4"
    using Cons.prems(5,6) by (simp_all add: key_ok_def)
  have w: "proper w" "list_all proper ws" using Cons.prems(4) by simp_all
  obtain t' rc al' where c: "compare_field ld ?ki i aKey nKey idx d w al = (t', Some (rc, 0, al'))"
      "sgn rc = value_order (ki_enc ?ki) (aColl ?ki ! i) v (cell_value w)" "rc = 0 \<longrightarrow> t' = t" "t' = 0 \<longleftrightarrow> is_null v"
      "plenty al'" "live al' = live al"
    using compare_field_order [OF F(1) w(1) ki(1-3) Cons.prems(7)] by blast
  let ?c = "field_order (aSortFlags ?ki ! i) (ki_enc ?ki) (aColl ?ki ! i) v (cell_value w)"
  note o = sorted_rc_order [OF ki(4) c(2,4) w(1)]
  show ?case
  proof (cases "rc = 0")
    case False
    then have "?c \<noteq> 0" using c(2) by (simp add: field_order_zero sgn_eq_0_iff flip: c(2))
    then show ?thesis using False c o fs by (simp add: reports_def Let_def)
  next
    case rc: True
    then have zero: "?c = 0" using c(2) by (simp add: field_order_zero)
    show ?thesis
    proof (cases ws)
      case Nil
      then show ?thesis using rc zero c fs Cons.prems(5) by (simp add: reports_def)
    next
      case (Cons w' ws')
      have "field_at aKey nKey (idx + sqlite3VarintLen (ucast t)) (d + sqlite3VdbeSerialTypeLen t) (fst (hd fs')) (snd (hd fs'))
          \<and> idx + sqlite3VarintLen (ucast t) < szHdr" using F(2) Cons Cons.prems(2) fs by (cases fs') auto
      then have "\<not> nKey < d + sqlite3VdbeSerialTypeLen t" "\<not> szHdr \<le> idx + sqlite3VarintLen (ucast t)"
        by (auto simp: field_at_def)
      moreover have "i + 1 \<noteq> nField p" using Cons Cons.prems(5) by simp
      ultimately have "compare_loop ld aKey nKey szHdr i idx d (w # ws) p al
          = compare_loop ld aKey nKey szHdr (Suc i) (idx + sqlite3VarintLen (ucast t)) (d + sqlite3VdbeSerialTypeLen t) ws p al'"
        using rc c by (simp add: Let_def)
      moreover have "length ws \<le> length fs'" "ws \<noteq> []" "nField p = Suc i + length ws" using Cons Cons.prems(2,5) fs by simp_all
      ultimately show ?thesis
        using Cons.IH [OF F(2) _ _ w(2) _ Cons.prems(6) c(5), of "Suc i"] zero c(6) fs by simp
    qed
  qed
qed simp

text \<open>A sound record whose fields have the serial types and values \<open>fs\<close>.\<close>
definition sound_key :: "mem \<Rightarrow> nat \<Rightarrow> (u32 \<times> stored_value) list \<Rightarrow> bool" where
  "sound_key aKey nKey fs \<longleftrightarrow>
     (\<exists>szHdr. getVarint32 aKey = (szHdr, sqlite3VarintLen (ucast szHdr)) \<and> unat szHdr \<le> nKey
        \<and> unat szHdr = sqlite3VarintLen (ucast szHdr) + (\<Sum>(t, v) \<leftarrow> fs. sqlite3VarintLen (ucast t))
        \<and> fields_at aKey nKey (unat szHdr) (sqlite3VarintLen (ucast szHdr)) (unat szHdr) fs)"

text \<open>The key the record is compared with.\<close>
definition search_key :: "UnpackedRecord \<Rightarrow> bool" where
  "search_key p \<longleftrightarrow> aMem p \<noteq> [] \<and> nField p = length (aMem p) \<and> list_all proper (aMem p) \<and> key_ok (pKeyInfo p) (nField p)"

lemma RecordCompare_general:
  assumes "sound_key aKey nKey fs" "search_key p" "nField p \<le> length fs" "plenty al"
  shows "\<exists>rc p' al'. sqlite3VdbeRecordCompare ld nKey aKey p al = Some (rc, p', al')
    \<and> reports (record_order (pKeyInfo p) 0 (map snd fs) (map cell_value (aMem p))) p rc p' \<and> live al' = live al"
proof -
  obtain h where h: "getVarint32 aKey = (h, sqlite3VarintLen (ucast h))" "unat h \<le> nKey"
      "fields_at aKey nKey (unat h) (sqlite3VarintLen (ucast h)) (unat h) fs"
    using assms(1) by (auto simp: sound_key_def)
  have "sqlite3VdbeRecordCompare ld nKey aKey p al
      = compare_loop ld aKey nKey (unat h) 0 (sqlite3VarintLen (ucast h)) (unat h) (aMem p) p al"
    using h(1,2) by (simp add: sqlite3VdbeRecordCompare_def sqlite3VdbeRecordCompareWithSkip_def flip: getVarint32_def)
  then show ?thesis
    using compare_loop_order [OF h(3), of "aMem p" p 0 al ld] assms(2-4) by (auto simp: search_key_def)
qed

lemma VarintLen_u32: "1 \<le> sqlite3VarintLen (ucast (t :: u32))" "sqlite3VarintLen (ucast (t :: u32)) \<le> 5"
  "sqlite3VarintLen (ucast t) = 1 \<longleftrightarrow> t < 0x80"
proof -
  have u: "(ucast t :: u64) = of_nat (unat t)" by simp
  have n: "unat t < 2 ^ LENGTH(32)" by (rule unsigned_less)
  then have "unat t < 2 ^ 62" "unat t < 2 ^ (7 * Suc 4)" by simp_all
  note L = VarintLen_nat [OF this(1), folded u] this(2)
  show "1 \<le> sqlite3VarintLen (ucast t)" using varint_bytes_nonempty [of "ucast t"] hdr_length [of t] by simp
  show "sqlite3VarintLen (ucast t) \<le> 5" using L(3) [OF L(4)] by simp
  show "sqlite3VarintLen (ucast t) = 1 \<longleftrightarrow> t < 0x80"
  proof (cases "t < 0x80")
    case True
    then show ?thesis using hdr_length [of t] hdr_small [of t] by simp
  next
    case False
    then have "2 ^ (7 * 1) \<le> unat t" by (simp add: word_less_nat_alt)
    then show ?thesis using L(2) [of 1] False by simp
  qed
qed

text \<open>The header of a record of at most thirteen fields has a size of one byte, and 62 at most if its first field is not long.\<close>
lemma short_header:
  assumes "sound_key aKey nKey ((t, v) # fs)" "length fs \<le> 12"
  obtains n where "aKey 0 = of_nat n" "n < 0x80" "t < 0x80 \<Longrightarrow> n \<le> 62" "field_at aKey nKey 1 n t v"
    "fields_at aKey nKey n (1 + sqlite3VarintLen (ucast t)) (n + sqlite3VdbeSerialTypeLen t) fs" "n \<le> nKey"
proof -
  obtain h where h: "getVarint32 aKey = (h, sqlite3VarintLen (ucast h))" "unat h \<le> nKey"
      "unat h = sqlite3VarintLen (ucast h) + (sqlite3VarintLen (ucast t) + (\<Sum>(t, v) \<leftarrow> fs. sqlite3VarintLen (ucast t)))"
      "fields_at aKey nKey (unat h) (sqlite3VarintLen (ucast h)) (unat h) ((t, v) # fs)"
    using assms(1) by (auto simp: sound_key_def)
  have "(\<Sum>(t, v) \<leftarrow> fs. sqlite3VarintLen (ucast t)) \<le> 5 * length fs"
  proof (induction fs)
    case (Cons f fs)
    then show ?case using VarintLen_u32(2) [of "fst f"] by (cases f) simp
  qed simp
  then have s: "(\<Sum>(t, v) \<leftarrow> fs. sqlite3VarintLen (ucast t)) \<le> 60" using assms(2) by linarith
  then have "unat h < 128" using h(3) VarintLen_u32(2) [of h] VarintLen_u32(2) [of t] by linarith
  then have small: "h < 0x80" by (simp add: word_less_nat_alt)
  then have one: "sqlite3VarintLen (ucast h) = 1" using VarintLen_u32(3) by blast
  have "ucast (aKey 0) = h" using first_byte [OF h(1)] small by (auto simp: not_less [symmetric])
  then have "aKey 0 = of_nat (unat h)" using byte_u32 [of "aKey 0"] by (metis of_nat_unat ucast_id)
  moreover have "t < 0x80 \<Longrightarrow> unat h \<le> 62" using h(3) s one VarintLen_u32(3) [of t] by simp
  ultimately show thesis using that [of "unat h"] h(2,4) \<open>unat h < 128\<close> one by simp
qed

text \<open>The fields after the first, when the first are equal.\<close>
lemma rest_fields_order:
  assumes "sound_key aKey nKey ((t, v) # fs)" "length fs \<le> 12" "search_key p" "nField p \<le> Suc (length fs)" "plenty al"
  shows "\<exists>rc p' al'. rest_fields ld nKey aKey p al = Some (rc, p', al')
    \<and> reports (record_order (pKeyInfo p) 1 (map snd fs) (map cell_value (tl (aMem p)))) p rc p' \<and> live al' = live al"
proof (cases "nField p > 1")
  case False
  then have "tl (aMem p) = []" "\<not> nField p > 1" using assms(3) by (cases "aMem p"; auto simp: search_key_def)+
  then show ?thesis by (simp add: rest_fields_def reports_def)
next
  case True
  obtain n where n: "aKey 0 = of_nat n" "n < 0x80" "field_at aKey nKey 1 n t v"
    "fields_at aKey nKey n (1 + sqlite3VarintLen (ucast t)) (n + sqlite3VdbeSerialTypeLen t) fs" "n \<le> nKey"
    by (rule short_header [OF assms(1,2)])
  have u: "unat (aKey 0) = n" using n(1,2) by (simp add: unat_of_nat)
  have g: "(if aKey 1 < 0x80 then (ucast (aKey 1), 1) else sqlite3GetVarint32 (\<lambda>k. aKey (1 + k))) = (t, sqlite3VarintLen (ucast t))"
    using n(3) unfolding field_at_def getVarint32_def by (auto split: if_splits)
  have "n + sqlite3VdbeSerialTypeLen t \<le> nKey" using n(3) by (simp add: field_at_def)
  then have "rest_fields ld nKey aKey p al
      = compare_loop ld aKey nKey n 1 (1 + sqlite3VarintLen (ucast t)) (n + sqlite3VdbeSerialTypeLen t) (drop 1 (aMem p)) p al"
    using True u unfolding rest_fields_def sqlite3VdbeRecordCompareWithSkip_def g by simp
  moreover have "drop 1 (aMem p) = tl (aMem p)" "length (tl (aMem p)) \<le> length fs" "tl (aMem p) \<noteq> []" "list_all proper (tl (aMem p))"
      "nField p = 1 + length (tl (aMem p))" "key_ok (pKeyInfo p) (nField p)"
    using assms(3,4) True by (cases "aMem p"; auto simp: search_key_def)+
  ultimately show ?thesis using compare_loop_order [OF n(4), of "tl (aMem p)" p 1 al ld] assms(5) by simp
qed

section \<open>The fast routines\<close>

lemma first_int_types:
  assumes "field_at aKey nKey 1 n t v" "aKey 0 = of_nat n" "n < 0x80" "t < 0x80 \<Longrightarrow> n \<le> 62"
  shows "first_int aKey = (case v of SInt i \<Rightarrow> Some i | _ \<Rightarrow> None)"
proof -
  have g: "getVarint32 (\<lambda>k. aKey (1 + k)) = (t, sqlite3VarintLen (ucast t))" using assms(1) by (simp add: field_at_def)
  have b: "t < 0x80 \<and> ucast (aKey 1) = t \<or> 0x80 \<le> t \<and> 0x80 \<le> (ucast (aKey 1) :: u32)" using first_byte [OF g] by simp
  have eq: "aKey 1 = k \<longleftrightarrow> (ucast (aKey 1) :: u32) = ucast k" for k
    by (metis byte_u32 word_unat_eq_iff)
  show ?thesis
    using assms(1)
  proof (cases rule: field_types)
    case int
    then have "t < 0x80" by (auto simp: word_less_nat_alt)
    then have le: "n \<le> 62" by (rule assms(4))
    have "aKey 0 AND 0x3f = take_bit 6 (aKey 0)" by (simp add: take_bit_eq_mask mask_eq_exp_minus_1)
    then have n: "unat (aKey 0 AND 0x3f) = n"
      using le assms(2) by (simp add: unat_mod unat_of_nat take_bit_eq_mod)
    have t: "ucast (aKey 1) = t" using b \<open>t < 0x80\<close> by auto
    show ?thesis using int unfolding first_int_def Let_def n unfolding eq t by (auto simp: vdbeRecordDecodeInt_def)
  next
    case null
    then have t: "ucast (aKey 1) = (0 :: u32)" using b by auto
    show ?thesis using null unfolding first_int_def Let_def unfolding eq t by simp
  next
    case real
    then have t: "ucast (aKey 1) = (7 :: u32)" using b by auto
    show ?thesis using real unfolding first_int_def Let_def unfolding eq t by simp
  next
    case str
    then have "ucast (aKey 1) \<noteq> k" if "unat k < 12" for k :: u32 using b that by (auto simp: word_le_nat_alt)
    then show ?thesis using str unfolding first_int_def Let_def unfolding eq by simp
  next
    case blob
    then have "ucast (aKey 1) \<noteq> k" if "unat k < 12" for k :: u32 using b that by (auto simp: word_le_nat_alt)
    then show ?thesis using blob unfolding first_int_def Let_def unfolding eq by simp
  qed
qed

text \<open>A key prepared for a fast routine: its first column and the results for smaller and greater.\<close>
definition prepared :: "UnpackedRecord \<Rightarrow> bool" where
  "prepared p \<longleftrightarrow> (let sf = aSortFlags (pKeyInfo p) ! 0 in
     sf AND KEYINFO_ORDER_BIGNULL = 0 \<and> (r1 p, r2 p) = (if sf \<noteq> 0 then (1, - 1) else (- 1, 1)))"

lemma prepared_reports:
  assumes "prepared p" "search_key p" "aMem p = w # ws" "fs = (t, v) # fs'"
    and c: "value_order (ki_enc (pKeyInfo p)) (aColl (pKeyInfo p) ! 0) v (cell_value w) = c" "c = - 1 \<or> c = 1"
  shows "reports (record_order (pKeyInfo p) 0 (map snd fs) (map cell_value (aMem p))) p (if c = - 1 then r1 p else r2 p) p"
proof -
  let ?sf = "aSortFlags (pKeyInfo p) ! 0"
  have "?sf \<in> {0, 1, 2, 3}" using assms(2,3) by (auto simp: search_key_def key_ok_def)
  then have "?sf = 0 \<or> ?sf = 1" using assms(1) by (auto simp: prepared_def Let_def KEYINFO_ORDER_BIGNULL_def)
  then consider "?sf = 0" "r1 p = - 1" "r2 p = 1" | "?sf = 1" "r1 p = 1" "r2 p = - 1"
    using assms(1) by (auto simp: prepared_def Let_def)
  then have "field_order ?sf (ki_enc (pKeyInfo p)) (aColl (pKeyInfo p) ! 0) v (cell_value w) = (if c = - 1 then r1 p else r2 p)"
    "r1 p \<noteq> 0" "r2 p \<noteq> 0" "sgn (r1 p) = r1 p" "sgn (r2 p) = r2 p"
    using c by (cases; force simp: field_order_def KEYINFO_ORDER_DESC_def KEYINFO_ORDER_BIGNULL_def)+
  then show ?thesis using assms(3,4) by (simp add: reports_def)
qed

lemma equal_first:
  assumes "aMem p = w # ws" "fs = (t, v) # fs'"
    "value_order (ki_enc (pKeyInfo p)) (aColl (pKeyInfo p) ! 0) v (cell_value w) = 0"
  shows "record_order (pKeyInfo p) 0 (map snd fs) (map cell_value (aMem p))
    = record_order (pKeyInfo p) 1 (map snd fs') (map cell_value (tl (aMem p)))"
  using assms by (simp add: field_order_zero [THEN iffD2])

lemma RecordCompareInt_order:
  assumes key: "sound_key aKey nKey fs" "length fs \<le> 13" "search_key p" "nField p \<le> length fs" "plenty al"
    and p: "prepared p" "cell_value (aMem p ! 0) = SInt (key_i p)"
  shows "\<exists>rc p' al'. vdbeRecordCompareInt ld nKey aKey p al = Some (rc, p', al')
    \<and> reports (record_order (pKeyInfo p) 0 (map snd fs) (map cell_value (aMem p))) p rc p' \<and> live al' = live al"
proof -
  obtain w ws where w: "aMem p = w # ws" using key(3) by (cases "aMem p") (auto simp: search_key_def)
  obtain t v fs' where fs: "fs = (t, v) # fs'" using key(3,4) w by (cases fs) (auto simp: search_key_def)
  have len: "length fs' \<le> 12" using key(2) fs by simp
  obtain n where n: "aKey 0 = of_nat n" "n < 0x80" "t < 0x80 \<Longrightarrow> n \<le> 62" "field_at aKey nKey 1 n t v"
    by (rule short_header [OF key(1) [unfolded fs] len]) blast
  note I = first_int_types [OF n(4,1-3)]
  show ?thesis
  proof (cases "\<exists>i. v = SInt i")
    case False
    then have "first_int aKey = None" using I by (cases v) simp_all
    then show ?thesis using RecordCompare_general [OF key(1,3-5)] by (simp add: vdbeRecordCompareInt_def)
  next
    case True
    then obtain i where v: "v = SInt i" by blast
    have "sgn (i * one_unit - key_i p * one_unit) = sgn (i - key_i p)"
      using one_unit_pos by (simp add: sgn_mult flip: left_diff_distrib)
    then have c: "value_order (ki_enc (pKeyInfo p)) (aColl (pKeyInfo p) ! 0) v (cell_value w) = sgn (i - key_i p)"
      using p(2) v w by simp
    have r: "vdbeRecordCompareInt ld nKey aKey p al = (if key_i p > i then Some (r1 p, p, al)
        else if key_i p < i then Some (r2 p, p, al) else rest_fields ld nKey aKey p al)"
      using I v by (simp add: vdbeRecordCompareInt_def)
    show ?thesis
    proof (cases "key_i p = i")
      case True
      then show ?thesis using rest_fields_order [OF key(1) [unfolded fs] len key(3) _ key(5), of ld] equal_first [OF w fs] c r key(4) fs by simp
    next
      case False
      then show ?thesis using prepared_reports [OF p(1) key(3) w fs c] r by (auto simp: sgn_if)
    qed
  qed
qed

text \<open>Within the length limit a serial type read as a signed integer is itself.\<close>
lemma string_type:
  assumes "field_at aKey nKey 1 n t v" "nKey \<le> 1000000000" "s = sint (aKey 1)"
  shows "(if s < 0 then sint (fst (sqlite3GetVarint32 (\<lambda>k. aKey (1 + k)))) else s) = int (unat t)"
proof -
  have g: "getVarint32 (\<lambda>k. aKey (1 + k)) = (t, sqlite3VarintLen (ucast t))" using assms(1) by (simp add: field_at_def)
  have t31: "unat t < 2147483648"
    using assms(1) by (cases rule: field_types) (use assms(2) in \<open>auto simp: word_le_nat_alt\<close>)
  have u8: "sint b = (if unat b < 128 then int (unat b) else int (unat b) - 256)" for b :: u8
    using signed_wrap [of "uint b" 7] uint_lt2p [of b] by (simp add: sint_uint uint_nat del: of_nat_unat)
  have u32: "sint t = int (unat t)"
    using signed_wrap [of "uint t" 31] uint_lt2p [of t] t31 by (simp add: sint_uint uint_nat del: of_nat_unat)
  have lt: "unat b < 256" for b :: u8 using uint_lt2p [of b] by (simp add: uint_nat del: of_nat_unat)
  show ?thesis
  proof (cases "aKey 1 < 0x80")
    case True
    then have "getVarint32 (\<lambda>k. aKey (1 + k)) = (ucast (aKey 1), 1)" by (simp add: getVarint32_def)
    then have "t = ucast (aKey 1)" using g by (metis prod.inject)
    then show ?thesis using True assms(3) u8 [of "aKey 1"] by (simp add: word_less_nat_alt byte_u32 del: of_nat_unat)
  next
    case False
    then have "s < 0" using assms(3) u8 [of "aKey 1"] lt [of "aKey 1"] by (simp add: word_less_nat_alt del: of_nat_unat)
    moreover have "getVarint32 (\<lambda>k. aKey (1 + k)) = sqlite3GetVarint32 (\<lambda>k. aKey (1 + k))" using False by (simp add: getVarint32_def)
    then have "fst (sqlite3GetVarint32 (\<lambda>k. aKey (1 + k))) = t" using g by simp
    ultimately show ?thesis using u32 by simp
  qed
qed

lemma RecordCompareString_order:
  assumes key: "sound_key aKey nKey fs" "length fs \<le> 13" "search_key p" "nField p \<le> length fs" "plenty al" "nKey \<le> 1000000000"
    and p: "prepared p" "cell_value (aMem p ! 0) = SText (key_z p)" "aColl (pKeyInfo p) ! 0 = None"
  shows "\<exists>rc p' al'. vdbeRecordCompareString ld nKey aKey p al = Some (rc, p', al')
    \<and> reports (record_order (pKeyInfo p) 0 (map snd fs) (map cell_value (aMem p))) p rc p' \<and> live al' = live al"
proof -
  obtain w ws where w: "aMem p = w # ws" using key(3) by (cases "aMem p") (auto simp: search_key_def)
  obtain t v fs' where fs: "fs = (t, v) # fs'" using key(3,4) w by (cases fs) (auto simp: search_key_def)
  have len: "length fs' \<le> 12" using key(2) fs by simp
  obtain n where n: "aKey 0 = of_nat n" "n < 0x80" "t < 0x80 \<Longrightarrow> n \<le> 62" "field_at aKey nKey 1 n t v"
    by (rule short_header [OF key(1) [unfolded fs] len]) blast
  have u: "unat (aKey 0) = n" using n(1,2) by (simp add: unat_of_nat)
  note d = vdbeRecordCompareString_def string_type [OF n(4) key(6) refl] u
  note P = prepared_reports [OF p(1) key(3) w fs]
  have W: "cell_value w = SText (key_z p)" using p(2) w by simp
  have small: "t < 12 \<Longrightarrow> vdbeRecordCompareString ld nKey aKey p al = Some (r1 p, p, al)"
    unfolding d Let_def by (simp add: word_less_nat_alt del: of_nat_unat)
  show ?thesis
    using n(4)
  proof (cases rule: field_types)
    case str
    define k where "k = (unat t - 12) div 2"
    define z where "z = map (\<lambda>i. aKey (n + i)) [0..<k]"
    have z: "length z = k" by (simp add: z_def)
    note str = str(1,2) str(3,4) [folded k_def, folded z_def]
    have t: "\<not> int (unat t) < 12" "odd (int (unat t))" "nat ((int (unat t) - 12) div 2) = k"
      using str(1,2) unfolding k_def by (simp_all add: word_le_nat_alt nat_div_distrib nat_diff_distrib del: of_nat_unat)
    define m where "m = min k (length (key_z p))"
    have m: "min (length (key_z p)) k = m" "map (\<lambda>i. aKey (n + i)) [0..<m] = take m z" by (simp_all add: z_def take_map m_def)
    have bin: "(if memcmp (take m z) (take m (key_z p)) = 0 then int k - int (length (key_z p)) else memcmp (take m z) (take m (key_z p)))
        = binCollFunc z (key_z p)"
      using mem_text_order [OF z, of "key_z p"] unfolding Let_def m_def [symmetric] .
    have r: "vdbeRecordCompareString ld nKey aKey p al =
        (let res = binCollFunc z (key_z p) in
         if res > 0 then Some (r2 p, p, al) else if res < 0 then Some (r1 p, p, al) else rest_fields ld nKey aKey p al)"
      using t(1,2) str(4) unfolding d Let_def t(3) m bin by (simp del: of_nat_unat)
    have c: "value_order (ki_enc (pKeyInfo p)) (aColl (pKeyInfo p) ! 0) v (cell_value w) = sgn (binCollFunc z (key_z p))"
      using str(3) W p(3) by (simp add: text_order_def binCollFunc_order)
    show ?thesis
    proof (cases "binCollFunc z (key_z p) = 0")
      case True
      then show ?thesis
        using rest_fields_order [OF key(1) [unfolded fs] len key(3) _ key(5), of ld] equal_first [OF w fs] c r key(4) fs by simp
    next
      case False
      then show ?thesis using P [OF c] r by (auto simp: sgn_if Let_def)
    qed
  next
    case blob
    then have "vdbeRecordCompareString ld nKey aKey p al = Some (r2 p, p, al)"
      unfolding d Let_def by (simp add: word_le_nat_alt del: of_nat_unat)
    then show ?thesis using P [of 1] blob W by simp
  next
    case null
    then show ?thesis using small P [of "- 1"] W by simp
  next
    case int
    then have "t < 12" by (auto simp: word_less_nat_alt)
    then show ?thesis using small P [of "- 1"] W int by simp
  next
    case real
    then show ?thesis using small P [of "- 1"] W by simp
  qed
qed

lemma FindCompare_sound:
  assumes "sound_key aKey nKey fs" "search_key p" "nField p \<le> length fs" "length fs \<le> nAllField (pKeyInfo p)" "nKey \<le> 1000000000" "plenty al"
    and "sqlite3VdbeFindCompare p = (f, p1)"
  shows "\<exists>rc p' al'. xRecordCompare f ld nKey aKey p1 al = Some (rc, p', al')
    \<and> (let c = record_order (pKeyInfo p) 0 (map snd fs) (map cell_value (aMem p)) in
       if c = 0 then rc = default_rc p \<and> p' = p1\<lparr>eqSeen := True\<rparr> else sgn rc = c \<and> p' = p1)
    \<and> live al' = live al"
proof -
  obtain w ws where w: "aMem p = w # ws" using assms(2) by (cases "aMem p") (auto simp: search_key_def)
  have same: "pKeyInfo p1 = pKeyInfo p" "aMem p1 = aMem p" "nField p1 = nField p" "default_rc p1 = default_rc p" "search_key p1"
    using assms(7,2) by (auto simp: sqlite3VdbeFindCompare_def Let_def search_key_def split: if_splits)
  have n: "nField p1 \<le> length fs" using assms(3) same(3) by simp
  have "\<exists>rc p' al'. xRecordCompare f ld nKey aKey p1 al = Some (rc, p', al')
      \<and> reports (record_order (pKeyInfo p1) 0 (map snd fs) (map cell_value (aMem p1))) p1 rc p' \<and> live al' = live al"
  proof (cases f)
    case Compare_General
    then show ?thesis using RecordCompare_general [OF assms(1) same(5) n assms(6)] by (simp add: xRecordCompare_def)
  next
    case Compare_Int
    then have i: "nAllField (pKeyInfo p) \<le> 13" "prepared p1" "has w MEM_Int" "key_i p1 = u_i w"
      using assms(7) w by (auto simp: sqlite3VdbeFindCompare_def Let_def prepared_def split: if_splits)
    then have "cell_value (aMem p1 ! 0) = SInt (key_i p1)"
      using assms(2) w same(2) by (auto simp: cell_value_def search_key_def proper_def or_flags)
    then show ?thesis using RecordCompareInt_order [OF assms(1) _ same(5) n assms(6)] i assms(4) Compare_Int by (simp add: xRecordCompare_def)
  next
    case Compare_String
    then have i: "nAllField (pKeyInfo p) \<le> 13" "prepared p1" "\<not> has w MEM_Int" "\<not> has w (MEM_Real OR MEM_IntReal OR MEM_Null OR MEM_Blob)"
        "key_z p1 = cell_z w" "aColl (pKeyInfo p1) ! 0 = None"
      using assms(7) w by (auto simp: sqlite3VdbeFindCompare_def Let_def prepared_def split: if_splits)
    then have "cell_value (aMem p1 ! 0) = SText (key_z p1)"
      using assms(2) w same(2) by (auto simp: cell_value_def search_key_def proper_def or_flags)
    then show ?thesis using RecordCompareString_order [OF assms(1) _ same(5) n assms(6,5)] i assms(4) Compare_String by (simp add: xRecordCompare_def)
  qed
  then show ?thesis unfolding reports_def same(1,2,4) Let_def .
qed

section \<open>Records that were written\<close>

text \<open>A cell as \<open>OP_MakeRecord\<close> is given it for an index: not the mark for an unchanged column, and no \<open>NaN\<close>.\<close>
definition storable :: "Mem \<Rightarrow> bool" where
  "storable m \<longleftrightarrow> cell_ok m \<and> stored m \<noteq> SNoChange \<and> (stored m = SNull \<longrightarrow> has m MEM_Null)"

lemma made_field:
  assumes "sized m m'" "storable m" "holds aKey idx (hdr m')" "holds aKey d (full m')" "d + length (full m') \<le> nKey"
  shows "field_at aKey nKey idx d (uTemp m') (stored m)"
proof -
  have g: "getVarint32 (\<lambda>i. aKey (idx + i)) = (uTemp m', sqlite3VarintLen (ucast (uTemp m')))"
    using assms(3) getVarint32_bytes [of "\<lambda>i. aKey (idx + i)" "uTemp m'"] by (simp add: holds_shift hdr_length)
  have s: "stored (sqlite3VdbeSerialGet (\<lambda>k. aKey (d + k)) (uTemp m') c) = stored m" for c
    using assms(1,4) by (simp add: sized_def holds_shift)
  have null: "stored m = SNull \<Longrightarrow> uTemp m' \<in> {0, 10}" using assms(1,2) by (auto simp: sized_def storable_def)
  have r: "stored (sqlite3VdbeSerialGet b 10 c) = SNoChange" "stored (sqlite3VdbeSerialGet b 11 c) = SNull" for b c
    by (simp_all add: sqlite3VdbeSerialGet_def stored_def flag_masks MEM_Zero_def MEM_Null_def)
  have 10: "uTemp m' \<noteq> 10" using s r(1) assms(2) by (metis storable_def)
  have "uTemp m' = 11 \<Longrightarrow> stored m = SNull" using s r(2) by metis
  then have "uTemp m' \<noteq> 11" using null by auto
  moreover have "is_null (stored m) \<Longrightarrow> uTemp m' = 0"
    using null 10 assms(2) by (cases "stored m") (auto simp: is_null_def storable_def)
  ultimately show ?thesis using g s 10 assms(1,5) by (simp add: field_at_def sized_def)
qed

lemma made_fields:
  assumes "list_all2 sized ms ms'" "list_all storable ms" "holds aKey idx (hdrs ms')" "holds aKey d (fulls ms')"
    "szHdr = idx + length (hdrs ms')" "nKey = d + length (fulls ms')"
  shows "fields_at aKey nKey szHdr idx d (zip (map uTemp ms') (map stored ms))"
  using assms
proof (induction ms ms' arbitrary: idx d rule: list_all2_induct)
  case (Cons m ms m' ms')
  have h: "holds aKey idx (hdr m')" "holds aKey (idx + length (hdr m')) (hdrs ms')"
    "holds aKey d (full m')" "holds aKey (d + length (full m')) (fulls ms')"
    using Cons.prems by (simp_all add: holds_append)
  have "field_at aKey nKey idx d (uTemp m') (stored m)"
    using made_field [OF Cons.hyps(1) _ h(1,3)] Cons.prems by simp
  moreover have "sqlite3VdbeSerialTypeLen (uTemp m') = length (full m')" using Cons.hyps(1) by (simp add: sized_def)
  moreover have "idx < szHdr" using Cons.prems varint_bytes_nonempty by simp
  ultimately show ?case using Cons.IH [OF _ h(2,4)] Cons.prems by (simp add: hdr_length [symmetric] add.assoc)
qed simp

text \<open>What \<open>OP_MakeRecord\<close> writes is a sound record of its fields.\<close>
lemma made_key_sound:
  assumes "list_all storable cells" "limit < 2 ^ 31" "szMalloc < 2 ^ 31"
    and "OP_MakeRecord fmt limit szMalloc buf cells al = Made z nZero"
  obtains ts where "length ts = length cells" "sound_key (mem_of (z @ replicate nZero 0)) (length z + nZero) (zip ts (map stored cells))"
proof -
  have "list_all cell_ok cells" using assms(1) by (auto simp: list_all_iff storable_def)
  then obtain ms n where m: "list_all2 sized cells ms" "z = varint_bytes (of_nat n) @ hdrs ms @ pays ms"
    "fulls ms = pays ms @ replicate nZero 0" "n = length (varint_bytes (of_nat n) @ hdrs ms)" "n < 2 ^ 31"
    by (rule MakeRecord_bytes [OF _ assms(2-4)])
  let ?k = "mem_of (z @ replicate nZero 0)" and ?v = "varint_bytes (of_nat n)"
  have "holds ?k 0 (?v @ hdrs ms @ fulls ms)" using holds_mem_of [of "z @ replicate nZero 0"] by (simp add: m(2,3))
  then have h: "holds ?k 0 ?v" "holds ?k (length ?v) (hdrs ms)" "holds ?k n (fulls ms)"
    using m(4) by (simp_all add: holds_append)
  have e: "ucast (of_nat n :: u32) = (of_nat n :: u64)" "unat (of_nat n :: u32) = n"
    using m(5) by (simp_all add: ucast_of_nat_unat unat_of_nat)
  then have g: "getVarint32 ?k = (of_nat n, length ?v)" "length ?v = sqlite3VarintLen (ucast (of_nat n :: u32))"
    using getVarint32_bytes [of ?k "of_nat n"] h(1) hdr_length [of "of_nat n"] by simp_all
  have nK: "length z + nZero = n + length (fulls ms)" using m(2-4) by simp
  have len: "length cells = length ms" using m(1) by (rule list_all2_lengthD)
  have sum: "(\<Sum>(t, v) \<leftarrow> zip (map uTemp ms) (map stored cells). sqlite3VarintLen (ucast t)) = length (hdrs ms)"
    using len by (induction ms cells rule: list_induct2') (simp_all add: hdr_length)
  have "fields_at ?k (length z + nZero) n (length ?v) n (zip (map uTemp ms) (map stored cells))"
    using made_fields [OF m(1) assms(1) h(2,3) _ nK, of n] m(4) by simp
  then have "sound_key ?k (length z + nZero) (zip (map uTemp ms) (map stored cells))"
    unfolding sound_key_def using g e(2) sum m(4) nK by (intro exI [of _ "of_nat n"]) simp
  then show thesis using that [of "map uTemp ms"] len by simp
qed

text \<open>
  C30. Keys are found by comparing records without decoding them, and the comparison is the order of the columns.  Whatever routine \<open>sqlite3VdbeFindCompare\<close> chooses for a key, comparing it with a
  sound record gives the sign of the first column that differs, columns compared in the order of values, reversed where they are
  descending and with \<open>NULL\<close> last where the index says so; records that agree in all columns of the key give its \<open>default_rc\<close> and are
  noted.  No error is reported, no block is lost, and no read leaves the key's fields.
\<close>
theorem FindCompare_correct:
  assumes "list_all storable cells" "limit < 2 ^ 31" "szMalloc < 2 ^ 31"
    and "OP_MakeRecord fmt limit szMalloc buf cells al0 = Made z nZero" "length z + nZero \<le> 1000000000"
    and "search_key p" "nField p \<le> length cells" "length cells \<le> nAllField (pKeyInfo p)" "plenty al"
    and "sqlite3VdbeFindCompare p = (f, p1)"
  shows "\<exists>rc p' al'. xRecordCompare f ld (length z + nZero) (mem_of (z @ replicate nZero 0)) p1 al = Some (rc, p', al')
    \<and> (let c = record_order (pKeyInfo p) 0 (map stored cells) (map cell_value (aMem p)) in
       if c = 0 then rc = default_rc p \<and> p' = p1\<lparr>eqSeen := True\<rparr> else sgn rc = c \<and> p' = p1)
    \<and> live al' = live al"
proof -
  obtain ts where ts: "length ts = length cells"
      "sound_key (mem_of (z @ replicate nZero 0)) (length z + nZero) (zip ts (map stored cells))"
    by (rule made_key_sound [OF assms(1-4)])
  have "map snd (zip ts (map stored cells)) = map stored cells" using ts(1) by simp
  then show ?thesis using FindCompare_sound [OF ts(2) assms(6) _ _ assms(5,9,10), of ld] ts(1) assms(7,8) by simp
qed


definition a_key :: UnpackedRecord where
  "a_key = \<lparr>pKeyInfo = \<lparr>ki_enc = SQLITE_UTF8, nAllField = 4, aSortFlags = [1, 0, 0, 0], aColl = [None, None, None, None]\<rparr>,
     aMem = [a_cell\<lparr>cell_flags := MEM_Int, u_i := - 300\<rparr>, a_cell\<lparr>cell_flags := MEM_Str, cell_z := [0x61, 0x63]\<rparr>],
     key_i = 0, key_z = [], nField = 2, default_rc = 0, errCode = 0, r1 = 0, r2 = 0, eqSeen = False\<rparr>"

theorem FindCompare_correct_witness:
  "\<exists>rc p' al'. vdbeRecordCompareInt True 12 (mem_of [5, 2, 17, 0, 18, 0xfe, 0xd4, 0x61, 0x62, 7, 0, 0]) (a_key\<lparr>r1 := 1, r2 := - 1, key_i := - 300\<rparr>)
     \<lparr>verdicts = [], live = 0\<rparr> = Some (rc, p', al') \<and> sgn rc = - 1"
proof -
  let ?z = "[5, 2, 17, 0, 18, 0xfe, 0xd4, 0x61, 0x62, 7] :: bytes"
  note f = flag_masks or_flags flag_bits MEM_Int_def MEM_Str_def MEM_Blob_def MEM_Zero_def MEM_Null_def MEM_IntReal_def MEM_Real_def
  have ok: "list_all storable a_row" by (simp add: a_row_def a_cell_def storable_def cell_ok_def is_i64_def stored_def f)
  have key: "search_key a_key"
    by (simp add: search_key_def a_key_def key_ok_def proper_def a_cell_def is_i64_def f nth_Cons less_Suc_eq split: nat.splits)
  have al: "plenty \<lparr>verdicts = [], live = 0\<rparr>" by (simp add: plenty_def)
  have fc: "sqlite3VdbeFindCompare a_key = (Compare_Int, a_key\<lparr>r1 := 1, r2 := - 1, key_i := - 300\<rparr>)"
    by (simp add: sqlite3VdbeFindCompare_def a_key_def KEYINFO_ORDER_BIGNULL_def a_cell_def f)
  have c: "record_order (pKeyInfo a_key) 0 (map stored a_row) (map cell_value (aMem a_key)) = - 1"
    by (simp add: a_key_def a_row_def a_cell_def stored_def cell_value_def f field_order_def KEYINFO_ORDER_DESC_def KEYINFO_ORDER_BIGNULL_def text_order_def)
  have z: "?z @ replicate 2 0 = [5, 2, 17, 0, 18, 0xfe, 0xd4, 0x61, 0x62, 7, 0, 0]" "length ?z + 2 = 12"
    by (simp_all add: numeral_2_eq_2)
  show ?thesis
    using FindCompare_correct [OF ok _ _ a_row_record _ key _ _ al fc, of True, unfolded z c]
    by (auto simp: a_key_def a_row_def xRecordCompare_def Let_def)
qed

text \<open>
  A record with fewer fields than the key is taken for a damaged one when its fields are equal to those of the key: here the record
  \<open>(5)\<close> against the key \<open>(5, NULL)\<close>, whose \<open>default_rc\<close> is 1.
\<close>
lemma short_record_is_corrupt:
  "map_option (\<lambda>(rc, p, al). (rc, errCode p)) (sqlite3VdbeRecordCompare True 3 (mem_of [2, 1, 5])
     (a_key\<lparr>aMem := [a_cell\<lparr>cell_flags := MEM_Int, u_i := 5\<rparr>, a_cell], default_rc := 1\<rparr>) \<lparr>verdicts = [], live = 0\<rparr>)
   = Some (0, SQLITE_CORRUPT)"
  by code_simp

end
