(* ===== verification/Affinity.thy ===== *)
theory Affinity
  imports IntText "HOL-Library.Sublist"
begin

text \<open>
  The affinity of a column from its declared type (\<open>src/db/sqlite3.c\<close>, \<open>sqlite3AffinityType\<close> of
  \<open>build.c\<close>), compared with the rules of the SQLite documentation, and the size estimate it makes.
\<close>

definition SQLITE_AFF_BLOB :: nat where "SQLITE_AFF_BLOB = 0x41"
definition SQLITE_AFF_TEXT :: nat where "SQLITE_AFF_TEXT = 0x42"
definition SQLITE_AFF_NUMERIC :: nat where "SQLITE_AFF_NUMERIC = 0x43"
definition SQLITE_AFF_INTEGER :: nat where "SQLITE_AFF_INTEGER = 0x44"
definition SQLITE_AFF_REAL :: nat where "SQLITE_AFF_REAL = 0x45"

lemmas aff_defs = SQLITE_AFF_BLOB_def SQLITE_AFF_TEXT_def SQLITE_AFF_NUMERIC_def SQLITE_AFF_INTEGER_def SQLITE_AFF_REAL_def

text \<open>
  The loop over the declared type: the last four characters, folded to lower case, are in \<open>h\<close>.  The result is the
  affinity and \<open>zChar\<close>, the text after the word that may carry a length.
\<close>
fun aff_loop :: "u32 \<Rightarrow> nat \<Rightarrow> bytes option \<Rightarrow> bytes \<Rightarrow> nat \<times> bytes option" where
  "aff_loop h aff zChar [] = (aff, zChar)"
| "aff_loop h aff zChar (x # zIn) =
     (let h = push_bit 8 h + ucast (UpperToLower x) in
      if h = 0x63686172 then aff_loop h SQLITE_AFF_TEXT (Some zIn) zIn
      else if h = 0x636c6f62 then aff_loop h SQLITE_AFF_TEXT zChar zIn
      else if h = 0x74657874 then aff_loop h SQLITE_AFF_TEXT zChar zIn
      else if h = 0x626c6f62 \<and> (aff = SQLITE_AFF_NUMERIC \<or> aff = SQLITE_AFF_REAL)
      then aff_loop h SQLITE_AFF_BLOB (if first zIn = 0x28 then Some zIn else zChar) zIn
      else if h = 0x7265616c \<and> aff = SQLITE_AFF_NUMERIC then aff_loop h SQLITE_AFF_REAL zChar zIn
      else if h = 0x666c6f61 \<and> aff = SQLITE_AFF_NUMERIC then aff_loop h SQLITE_AFF_REAL zChar zIn
      else if h = 0x646f7562 \<and> aff = SQLITE_AFF_NUMERIC then aff_loop h SQLITE_AFF_REAL zChar zIn
      else if h AND 0x00FFFFFF = 0x696e74 then (SQLITE_AFF_INTEGER, zChar)
      else aff_loop h aff zChar zIn)"

text \<open>The size estimate of the column, scaled so that an integer is 1.\<close>
definition szEst :: "nat \<Rightarrow> bytes option \<Rightarrow> int" where
  "szEst aff zChar =
     (let v = (if aff < SQLITE_AFF_NUMERIC then
                 case zChar of
                   None \<Rightarrow> 16
                 | Some z \<Rightarrow>
                     let z = dropWhile (\<lambda>c. \<not> sqlite3Isdigit c) z
                     in if z = [] then 0 else case sqlite3GetInt32 z of None \<Rightarrow> 0 | Some v \<Rightarrow> v
               else 0);
          v = c_div v 4 + 1
      in if v > 255 then 255 else v)"

text \<open>The affinity, and the estimate stored when a column is given.\<close>
definition sqlite3AffinityType :: "bytes \<Rightarrow> nat \<times> int" where
  "sqlite3AffinityType zIn =
     (case aff_loop 0 SQLITE_AFF_NUMERIC None zIn of (aff, zChar) \<Rightarrow> (aff, szEst aff zChar))"

section \<open>The documented rules\<close>

definition lower :: "bytes \<Rightarrow> bytes" where
  "lower z = map UpperToLower z"

text \<open>
  The first rule that applies: \<open>INT\<close>; \<open>CHAR\<close>, \<open>CLOB\<close> or \<open>TEXT\<close>; \<open>BLOB\<close>; \<open>REAL\<close>, \<open>FLOA\<close> or
  \<open>DOUB\<close>; otherwise the affinity is numeric.
\<close>
definition text_words :: "bytes list" where
  "text_words = [[0x63, 0x68, 0x61, 0x72], [0x63, 0x6c, 0x6f, 0x62], [0x74, 0x65, 0x78, 0x74]]"
definition real_words :: "bytes list" where
  "real_words = [[0x72, 0x65, 0x61, 0x6c], [0x66, 0x6c, 0x6f, 0x61], [0x64, 0x6f, 0x75, 0x62]]"

definition rank_affinity :: "bytes \<Rightarrow> nat" where
  "rank_affinity z =
     (if list_ex (\<lambda>w. sublist w z) text_words then SQLITE_AFF_TEXT
      else if sublist [0x62, 0x6c, 0x6f, 0x62] z then SQLITE_AFF_BLOB
      else if list_ex (\<lambda>w. sublist w z) real_words then SQLITE_AFF_REAL
      else SQLITE_AFF_NUMERIC)"

definition documented_affinity :: "bytes \<Rightarrow> nat" where
  "documented_affinity z =
     (if sublist [0x69, 0x6e, 0x74] (lower z) then SQLITE_AFF_INTEGER else rank_affinity (lower z))"

section \<open>The window of four characters\<close>

definition w4 :: "u8 \<Rightarrow> u8 \<Rightarrow> u8 \<Rightarrow> u8 \<Rightarrow> u32" where
  "w4 a b c d = push_bit 24 (ucast a) OR push_bit 16 (ucast b) OR push_bit 8 (ucast c) OR ucast d"

lemma w4_step: "push_bit 8 (w4 a b c d) + ucast x = w4 b c d x"
proof -
  have "push_bit 8 (w4 a b c d) + ucast x = push_bit 8 (w4 a b c d) OR (ucast x :: u32)"
    by (rule disjunctive_add) (auto simp: bit_simps dest: bit_imp_le_length)
  also have "\<dots> = w4 b c d x" unfolding w4_def by (rule u32_eq_by_bits) (simp add: bitblast)
  finally show ?thesis .
qed

lemma w4_bytes:
  "ucast (drop_bit 24 (w4 a b c d)) = a" "ucast (drop_bit 16 (w4 a b c d)) = b"
  "ucast (drop_bit 8 (w4 a b c d)) = c" "ucast (w4 a b c d) = d"
  unfolding w4_def by (rule u8_eq_by_bits, simp add: bitblast)+

lemma w4_inject: "w4 a b c d = w4 a' b' c' d' \<longleftrightarrow> [a, b, c, d] = [a', b', c', d']"
  using w4_bytes [of a b c d] w4_bytes [of a' b' c' d'] by auto

lemma w4_low: "w4 a b c d AND 0x00FFFFFF = w4 0 b c d"
  unfolding w4_def by (rule u32_eq_by_bits) (simp add: bitblast)

text \<open>The constants of the code as windows.\<close>
lemma w4_words:
  "0x63686172 = w4 0x63 0x68 0x61 0x72" "0x636c6f62 = w4 0x63 0x6c 0x6f 0x62" "0x74657874 = w4 0x74 0x65 0x78 0x74"
  "0x626c6f62 = w4 0x62 0x6c 0x6f 0x62" "0x7265616c = w4 0x72 0x65 0x61 0x6c" "0x666c6f61 = w4 0x66 0x6c 0x6f 0x61"
  "0x646f7562 = w4 0x64 0x6f 0x75 0x62" "0x696e74 = w4 0 0x69 0x6e 0x74"
  by (simp_all add: w4_def)

lemma sublist_snoc: "sublist w (us @ [x]) \<longleftrightarrow> sublist w us \<or> suffix w (us @ [x])"
  using sublist_Cons_right [of "rev w" x "rev us"] sublist_rev [of w "us @ [x]"]
  by (auto simp: suffix_to_prefix)

lemma suffix_padded: "0 \<notin> set w \<Longrightarrow> suffix w (replicate k 0 @ us) \<longleftrightarrow> suffix w us" for w :: bytes
proof (induction k)
  case (Suc k)
  then show ?case by (auto simp: suffix_Cons)
qed simp

text \<open>The last four characters of \<open>us\<close>, after zeros where there are fewer.\<close>
definition window :: "bytes \<Rightarrow> u8 \<Rightarrow> u8 \<Rightarrow> u8 \<Rightarrow> u8 \<Rightarrow> bool" where
  "window us a b c d \<longleftrightarrow> suffix [a, b, c, d] (replicate 4 0 @ us)"

lemma window_step: "window us a b c d \<Longrightarrow> window (us @ [x]) b c d x"
  by (auto simp: window_def suffix_def)

lemma suffix_unique: "suffix v us \<Longrightarrow> suffix w us \<Longrightarrow> length v = length w \<Longrightarrow> v = w"
  by (auto simp: suffix_def)

lemma window_word:
  assumes "window us a b c d"
  shows "0 \<notin> set [p, q, r, s] \<Longrightarrow> [a, b, c, d] = [p, q, r, s] \<longleftrightarrow> suffix [p, q, r, s] us"
    "0 \<notin> set [q, r, s] \<Longrightarrow> [b, c, d] = [q, r, s] \<longleftrightarrow> suffix [q, r, s] us"
proof -
  let ?p = "replicate 4 0 @ us"
  show "[a, b, c, d] = [p, q, r, s] \<longleftrightarrow> suffix [p, q, r, s] us" if "0 \<notin> set [p, q, r, s]"
    using suffix_unique [of "[a, b, c, d]" ?p "[p, q, r, s]"] suffix_padded [OF that, of 4 us] assms
    by (auto simp: window_def)
  have "suffix [b, c, d] ?p" using assms by (auto simp: window_def suffix_def)
  then show "[b, c, d] = [q, r, s] \<longleftrightarrow> suffix [q, r, s] us" if "0 \<notin> set [q, r, s]"
    using suffix_unique [of "[b, c, d]" ?p "[q, r, s]"] suffix_padded [OF that, of 4 us] by auto
qed

lemma rank_snoc:
  "rank_affinity (us @ [x]) =
     (if rank_affinity us = SQLITE_AFF_TEXT \<or> list_ex (\<lambda>w. suffix w (us @ [x])) text_words then SQLITE_AFF_TEXT
      else if rank_affinity us = SQLITE_AFF_BLOB \<or> suffix [0x62, 0x6c, 0x6f, 0x62] (us @ [x]) then SQLITE_AFF_BLOB
      else if rank_affinity us = SQLITE_AFF_REAL \<or> list_ex (\<lambda>w. suffix w (us @ [x])) real_words then SQLITE_AFF_REAL
      else SQLITE_AFF_NUMERIC)"
  by (auto simp: rank_affinity_def sublist_snoc text_words_def real_words_def aff_defs)

lemma rank_values: "rank_affinity us \<in> {SQLITE_AFF_TEXT, SQLITE_AFF_BLOB, SQLITE_AFF_REAL, SQLITE_AFF_NUMERIC}"
  by (simp add: rank_affinity_def)

lemma aff_loop_window:
  fixes y :: u8
  defines "hit \<equiv> \<lambda>b c d y p q r s. [b, c, d, y] = [p, q, r, s :: u8]"
  assumes "y = UpperToLower x"
  shows "aff_loop (w4 a b c d) aff zChar (x # z) =
     (if hit b c d y 0x63 0x68 0x61 0x72 then aff_loop (w4 b c d y) SQLITE_AFF_TEXT (Some z) z
      else if hit b c d y 0x63 0x6c 0x6f 0x62 then aff_loop (w4 b c d y) SQLITE_AFF_TEXT zChar z
      else if hit b c d y 0x74 0x65 0x78 0x74 then aff_loop (w4 b c d y) SQLITE_AFF_TEXT zChar z
      else if hit b c d y 0x62 0x6c 0x6f 0x62 \<and> (aff = SQLITE_AFF_NUMERIC \<or> aff = SQLITE_AFF_REAL)
      then aff_loop (w4 b c d y) SQLITE_AFF_BLOB (if first z = 0x28 then Some z else zChar) z
      else if hit b c d y 0x72 0x65 0x61 0x6c \<and> aff = SQLITE_AFF_NUMERIC then aff_loop (w4 b c d y) SQLITE_AFF_REAL zChar z
      else if hit b c d y 0x66 0x6c 0x6f 0x61 \<and> aff = SQLITE_AFF_NUMERIC then aff_loop (w4 b c d y) SQLITE_AFF_REAL zChar z
      else if hit b c d y 0x64 0x6f 0x75 0x62 \<and> aff = SQLITE_AFF_NUMERIC then aff_loop (w4 b c d y) SQLITE_AFF_REAL zChar z
      else if [c, d, y] = [0x69, 0x6e, 0x74] then (SQLITE_AFF_INTEGER, zChar)
      else aff_loop (w4 b c d y) aff zChar z)"
  unfolding aff_loop.simps Let_def w4_step w4_low w4_words w4_inject assms list.inject by (simp only: simp_thms)

lemma aff_loop_rank:
  assumes "window us a b c d" "\<not> sublist [0x69, 0x6e, 0x74] us"
  shows "fst (aff_loop (w4 a b c d) (rank_affinity us) zChar z)
    = (if sublist [0x69, 0x6e, 0x74] (us @ lower z) then SQLITE_AFF_INTEGER else rank_affinity (us @ lower z))"
  using assms
proof (induction z arbitrary: us a b c d zChar)
  case Nil
  then show ?case by (simp add: lower_def)
next
  case (Cons x z)
  define y where "y = UpperToLower x"
  note W = window_step [OF Cons.prems(1), of y]
  note word = window_word(1) [OF W]
  have int: "suffix [0x69, 0x6e, 0x74] (us @ [y]) \<longleftrightarrow> [c, d, y] = [0x69, 0x6e, 0x74]"
    using window_word(2) [OF W, of "0x69" "0x6e" "0x74"] by simp
  have rest: "us @ lower (x # z) = (us @ [y]) @ lower z" by (simp add: lower_def y_def)
  let ?hit = "\<lambda>p q r s. [b, c, d, y] = [p, q, r, s]"
  have hits:
    "suffix [0x63, 0x68, 0x61, 0x72] (us @ [y]) = ?hit 0x63 0x68 0x61 0x72"
    "suffix [0x63, 0x6c, 0x6f, 0x62] (us @ [y]) = ?hit 0x63 0x6c 0x6f 0x62"
    "suffix [0x74, 0x65, 0x78, 0x74] (us @ [y]) = ?hit 0x74 0x65 0x78 0x74"
    "suffix [0x62, 0x6c, 0x6f, 0x62] (us @ [y]) = ?hit 0x62 0x6c 0x6f 0x62"
    "suffix [0x72, 0x65, 0x61, 0x6c] (us @ [y]) = ?hit 0x72 0x65 0x61 0x6c"
    "suffix [0x66, 0x6c, 0x6f, 0x61] (us @ [y]) = ?hit 0x66 0x6c 0x6f 0x61"
    "suffix [0x64, 0x6f, 0x75, 0x62] (us @ [y]) = ?hit 0x64 0x6f 0x75 0x62"
    by (rule word [symmetric], simp)+
  have rank: "rank_affinity (us @ [y]) =
     (if rank_affinity us = SQLITE_AFF_TEXT \<or> ?hit 0x63 0x68 0x61 0x72 \<or> ?hit 0x63 0x6c 0x6f 0x62 \<or> ?hit 0x74 0x65 0x78 0x74 then SQLITE_AFF_TEXT
      else if rank_affinity us = SQLITE_AFF_BLOB \<or> ?hit 0x62 0x6c 0x6f 0x62 then SQLITE_AFF_BLOB
      else if rank_affinity us = SQLITE_AFF_REAL \<or> ?hit 0x72 0x65 0x61 0x6c \<or> ?hit 0x66 0x6c 0x6f 0x61 \<or> ?hit 0x64 0x6f 0x75 0x62 then SQLITE_AFF_REAL
      else SQLITE_AFF_NUMERIC)"
    unfolding rank_snoc text_words_def real_words_def list_ex_Nil_iff list_ex_Cons_iff hits by (simp only: disj_ac simp_thms)
  show ?case
  proof (cases "[c, d, y] = [0x69, 0x6e, 0x74]")
    case True
    then have "sublist [0x69, 0x6e, 0x74] (us @ [y])" unfolding sublist_snoc using int by blast
    then have "sublist [0x69, 0x6e, 0x74] (us @ lower (x # z))" unfolding rest sublist_append by blast
    moreover have "fst (aff_loop (w4 a b c d) (rank_affinity us) zChar (x # z)) = SQLITE_AFF_INTEGER"
      using True unfolding aff_loop_window [OF y_def] by auto
    ultimately show ?thesis by simp
  next
    case False
    then have "\<not> sublist [0x69, 0x6e, 0x74] (us @ [y])" using int Cons.prems(2) by (simp add: sublist_snoc)
    define G where "G = (if sublist [0x69, 0x6e, 0x74] (us @ lower (x # z)) then SQLITE_AFF_INTEGER else rank_affinity (us @ lower (x # z)))"
    note IH = Cons.IH [OF W \<open>\<not> sublist _ (us @ [y])\<close>, folded rest, folded G_def]
    define T B R where "T = (?hit 0x63 0x68 0x61 0x72 \<or> ?hit 0x63 0x6c 0x6f 0x62 \<or> ?hit 0x74 0x65 0x78 0x74)"
      and "B = ?hit 0x62 0x6c 0x6f 0x62" and "R = (?hit 0x72 0x65 0x61 0x6c \<or> ?hit 0x66 0x6c 0x6f 0x61 \<or> ?hit 0x64 0x6f 0x75 0x62)"
    note defs = T_def B_def R_def
    consider T | B | R | "\<not> T" "\<not> B" "\<not> R" by blast
    then have "fst (aff_loop (w4 a b c d) (rank_affinity us) zChar (x # z)) = G"
    proof cases
      case 1
      then have "rank_affinity (us @ [y]) = SQLITE_AFF_TEXT" unfolding rank T_def by simp
      then have "fst (aff_loop (w4 b c d y) SQLITE_AFF_TEXT zc z) = G" for zc using IH [of zc] by simp
      then show ?thesis using 1 unfolding aff_loop_window [OF y_def] T_def by (elim disjE) simp_all
    next
      case 2
      consider "rank_affinity us = SQLITE_AFF_TEXT" "rank_affinity (us @ [y]) = SQLITE_AFF_TEXT"
        | "rank_affinity us \<noteq> SQLITE_AFF_TEXT" "rank_affinity (us @ [y]) = SQLITE_AFF_BLOB"
        using 2 unfolding rank B_def by (cases "rank_affinity us = SQLITE_AFF_TEXT") auto
      then show ?thesis using IH 2 rank_values [of us] unfolding aff_loop_window [OF y_def] B_def
        by cases (auto simp: aff_defs)
    next
      case 3
      then have "rank_affinity (us @ [y]) = (if rank_affinity us = SQLITE_AFF_NUMERIC then SQLITE_AFF_REAL else rank_affinity us)"
        using rank_values [of us] unfolding rank R_def by (elim disjE) (auto simp: aff_defs)
      then show ?thesis using IH 3 unfolding aff_loop_window [OF y_def] R_def by (elim disjE) auto
    next
      case 4
      then have "rank_affinity (us @ [y]) = (if rank_affinity us = SQLITE_AFF_TEXT then SQLITE_AFF_TEXT
          else if rank_affinity us = SQLITE_AFF_BLOB then SQLITE_AFF_BLOB
          else if rank_affinity us = SQLITE_AFF_REAL then SQLITE_AFF_REAL else SQLITE_AFF_NUMERIC)"
        unfolding rank defs de_Morgan_disj by (simp only: simp_thms)
      also have "\<dots> = rank_affinity us" using rank_values [of us] by auto
      finally show ?thesis using IH 4 False unfolding aff_loop_window [OF y_def] defs de_Morgan_disj
        by (simp only: if_False simp_thms)
    qed
    then show ?thesis unfolding G_def .
  qed
qed

text \<open>
  C33. The affinity of a column is the one the documentation gives: the first of the rules for \<open>INT\<close>, for \<open>CHAR\<close>, \<open>CLOB\<close> and
  \<open>TEXT\<close>, for \<open>BLOB\<close>, and for \<open>REAL\<close>, \<open>FLOA\<close> and \<open>DOUB\<close> whose word occurs anywhere in the declared type in any
  case, although the code reads the type once and looks only at its last four characters.
\<close>
theorem affinity_documented: "fst (sqlite3AffinityType z) = documented_affinity z"
proof -
  have "window [] 0 0 0 0" "0 = w4 0 0 0 0" "rank_affinity [] = SQLITE_AFF_NUMERIC"
    by (simp_all add: window_def w4_def rank_affinity_def text_words_def real_words_def numeral_eq_Suc)
  then show ?thesis using aff_loop_rank [of "[]" 0 0 0 0 None z]
    by (cases "aff_loop 0 SQLITE_AFF_NUMERIC None z") (simp add: sqlite3AffinityType_def documented_affinity_def)
qed

section \<open>The size estimate\<close>

lemma GetInt32_digit:
  assumes "sqlite3Isdigit (first z)" "sqlite3GetInt32 z = Some v"
  shows "0 \<le> v"
proof -
  have nb: "first z \<noteq> 0x2d" "first z \<noteq> 0x2b" using assms(1) by (auto simp: Isdigit_iff)
  have "0 \<le> sint u" if "u AND 0x80000000 = 0" for u :: u32
    using that and_exp_eq_0_iff_not_bit [of u 31] bit_last_iff [of u] by (simp add: linorder_not_less)
  then show ?thesis using assms(2) nb
    by (auto simp: sqlite3GetInt32_def getInt32_decimal_def Let_def split: if_splits)
qed

text \<open>The estimate fits the byte it is stored in and is never zero.\<close>
lemma szEst_range: "1 \<le> snd (sqlite3AffinityType z) \<and> snd (sqlite3AffinityType z) \<le> 255"
proof -
  have d: "0 \<le> v" if "dropWhile (\<lambda>c. \<not> sqlite3Isdigit c) s = y" "y \<noteq> []" "sqlite3GetInt32 y = Some v" for s y v
    using that hd_dropWhile [of "\<lambda>c. \<not> sqlite3Isdigit c" s] GetInt32_digit [of y v]
    by (cases y) (auto simp: first_def)
  have "0 \<le> c_div v 4" if "0 \<le> v" for v using that by (simp add: c_div_def sgn_if)
  then show ?thesis
    using d by (auto simp: sqlite3AffinityType_def szEst_def Let_def c_div_def sgn_if split: prod.splits option.splits)
qed

end
