(* ===== verification/Str_Accum.thy ===== *)
theory Str_Accum
  imports Alloc "HOL-Library.Monad_Syntax"
begin

text \<open>
  The string accumulator (\<open>src/db/sqlite3.c\<close>, \<open>sqlite3_str\<close> of \<open>printf.c\<close>): a byte buffer that starts on the
  stack or empty, moves to the heap when it grows, and remembers its first error.  A result \<open>None\<close> is a write or
  a read outside the buffer; the theorems show that it does not occur.  The shape of heap blocks is the argument \<open>M\<close>:
  the contents \<open>junk\<close> of fresh memory, and the usable size \<open>xSize\<close> of a block, which may be more than was asked for.
\<close>

record blocks =
  junk :: "nat \<Rightarrow> u8"
  xSize :: "nat \<Rightarrow> nat"

text \<open>The allocator, and the error code and count of the parse in progress on the connection.\<close>
record world =
  heap :: allocator
  pParse :: "(nat \<times> nat) option"

record sqlite3_str =
  db :: bool
  zText :: "bytes option"
  nAlloc :: u32
  mxAlloc :: u32
  nChar :: u32
  accError :: nat
  printfFlags :: u8

definition SQLITE_PRINTF_INTERNAL :: u8 where "SQLITE_PRINTF_INTERNAL = 0x01"
definition SQLITE_PRINTF_SQLFUNC :: u8 where "SQLITE_PRINTF_SQLFUNC = 0x02"
definition SQLITE_PRINTF_MALLOCED :: u8 where "SQLITE_PRINTF_MALLOCED = 0x04"
definition SQLITE_MAX_LENGTH :: int where "SQLITE_MAX_LENGTH = 1000000000"

definition isMalloced :: "sqlite3_str \<Rightarrow> bool" where
  "isMalloced p \<longleftrightarrow> printfFlags p AND SQLITE_PRINTF_MALLOCED \<noteq> 0"

section \<open>Memory\<close>

text \<open>\<open>memcpy\<close> of \<open>z\<close> to the offset \<open>k\<close> of a block, and of \<open>n\<close> bytes from its start.\<close>
definition put_bytes :: "bytes option \<Rightarrow> nat \<Rightarrow> bytes \<Rightarrow> bytes option option" where
  "put_bytes b k z =
     (if z = [] then Some b
      else case b of
        None \<Rightarrow> None
      | Some b \<Rightarrow> if k + length z \<le> length b then Some (Some (take k b @ z @ drop (k + length z) b)) else None)"

definition get_bytes :: "bytes option \<Rightarrow> nat \<Rightarrow> bytes option" where
  "get_bytes b n =
     (if n = 0 then Some []
      else case b of None \<Rightarrow> None | Some b \<Rightarrow> if n \<le> length b then Some (take n b) else None)"

text \<open>A block for \<open>n\<close> bytes, holding first what it takes over from the block it replaces.\<close>
definition fresh_block :: "blocks \<Rightarrow> bytes \<Rightarrow> nat \<Rightarrow> bytes" where
  "fresh_block M old n = take n old @ map (junk M) [length (take n old)..<xSize M n]"

text \<open>\<open>sqlite3DbRealloc\<close> or \<open>sqlite3Realloc\<close>: with no old block, an allocation; on failure the old block stays.\<close>
definition realloc_block :: "blocks \<Rightarrow> bytes option \<Rightarrow> nat \<Rightarrow> world \<Rightarrow> bytes option \<times> world" where
  "realloc_block M zOld n w =
     (case alloc_block (heap w) of (ok, al) \<Rightarrow>
        if \<not> ok then (None, w\<lparr>heap := al\<rparr>)
        else case zOld of
          None \<Rightarrow> (Some (fresh_block M [] n), w\<lparr>heap := al\<rparr>)
        | Some b \<Rightarrow> (Some (fresh_block M b n), w\<lparr>heap := free_block al\<rparr>))"

section \<open>The operations\<close>

definition sqlite3ErrorToParser :: "bool \<Rightarrow> nat \<Rightarrow> world \<Rightarrow> world" where
  "sqlite3ErrorToParser has_db errCode w =
     (if \<not> has_db then w
      else case pParse w of None \<Rightarrow> w | Some (rc, nErr) \<Rightarrow> w\<lparr>pParse := Some (errCode, nErr + 1)\<rparr>)"

definition sqlite3_str_reset :: "sqlite3_str \<Rightarrow> world \<Rightarrow> sqlite3_str \<times> world" where
  "sqlite3_str_reset p w =
     (let (p, w) =
        (if isMalloced p
         then (p\<lparr>printfFlags := printfFlags p AND NOT SQLITE_PRINTF_MALLOCED\<rparr>, w\<lparr>heap := free_block (heap w)\<rparr>)
         else (p, w))
      in (p\<lparr>nAlloc := 0, nChar := 0, zText := None\<rparr>, w))"

definition sqlite3StrAccumSetError :: "sqlite3_str \<Rightarrow> nat \<Rightarrow> world \<Rightarrow> sqlite3_str \<times> world" where
  "sqlite3StrAccumSetError p eError w =
     (let p = p\<lparr>accError := eError\<rparr>;
          (p, w) = (if mxAlloc p \<noteq> 0 then sqlite3_str_reset p w else (p, w));
          w = (if eError = SQLITE_TOOBIG then sqlite3ErrorToParser (db p) eError w else w)
      in (p, w))"

text \<open>The size to allocate: doubled when the limit permits.\<close>
definition szNew :: "sqlite3_str \<Rightarrow> int \<Rightarrow> int" where
  "szNew p N =
     (let szNew = uint (nChar p) + N + 1
      in if szNew + uint (nChar p) \<le> uint (mxAlloc p) then szNew + uint (nChar p) else szNew)"

text \<open>The text of a buffer that is not on the heap is copied to the new block.\<close>
definition move_text :: "sqlite3_str \<Rightarrow> bytes \<Rightarrow> bytes option option" where
  "move_text p zNew =
     (if \<not> isMalloced p \<and> nChar p > 0
      then do { z \<leftarrow> get_bytes (zText p) (unat (nChar p)); put_bytes (Some zNew) 0 z }
      else Some (Some zNew))"

text \<open>Reallocation to \<open>nAlloc\<close> bytes.\<close>
definition grow_block :: "blocks \<Rightarrow> sqlite3_str \<Rightarrow> int \<Rightarrow> world \<Rightarrow> (int \<times> sqlite3_str \<times> world) option" where
  "grow_block M p N w =
     (case realloc_block M (if isMalloced p then zText p else None) (unat (nAlloc p)) w of
        (Some zNew, w) \<Rightarrow> do {
          zNew \<leftarrow> move_text p zNew;
          Some (to_i32 N,
            p\<lparr>zText := zNew, nAlloc := word_of_nat (case zNew of None \<Rightarrow> 0 | Some b \<Rightarrow> length b),
              printfFlags := printfFlags p OR SQLITE_PRINTF_MALLOCED\<rparr>, w) }
      | (None, w) \<Rightarrow>
          (let (p, w) = sqlite3_str_reset p w;
               (p, w) = sqlite3StrAccumSetError p SQLITE_NOMEM w
           in Some (0, p, w)))"

text \<open>Room for \<open>N\<close> more bytes: the number of bytes that can be appended, the accumulator and the world.\<close>
definition sqlite3StrAccumEnlarge :: "blocks \<Rightarrow> sqlite3_str \<Rightarrow> int \<Rightarrow> world \<Rightarrow> (int \<times> sqlite3_str \<times> world) option" where
  "sqlite3StrAccumEnlarge M p N w =
     (if accError p \<noteq> 0 then Some (0, p, w)
      else if mxAlloc p = 0 then
        (let (p, w) = sqlite3StrAccumSetError p SQLITE_TOOBIG w
         in Some (sint (nAlloc p - nChar p - 1), p, w))
      else if szNew p N > uint (mxAlloc p) then
        (let (p, w) = sqlite3_str_reset p w;
             (p, w) = sqlite3StrAccumSetError p SQLITE_TOOBIG w
         in Some (0, p, w))
      else grow_block M (p\<lparr>nAlloc := word_of_int (szNew p N)\<rparr>) N w)"

text \<open>\<open>while( (N--)>0 ) p->zText[p->nChar++] = c\<close>.\<close>
fun fill_loop :: "nat \<Rightarrow> u8 \<Rightarrow> sqlite3_str \<Rightarrow> sqlite3_str option" where
  "fill_loop 0 c p = Some p"
| "fill_loop (Suc N) c p = do {
     z \<leftarrow> put_bytes (zText p) (unat (nChar p)) [c];
     fill_loop N c (p\<lparr>zText := z, nChar := nChar p + 1\<rparr>) }"

definition sqlite3_str_appendchar :: "blocks \<Rightarrow> sqlite3_str \<Rightarrow> int \<Rightarrow> u8 \<Rightarrow> world \<Rightarrow> (sqlite3_str \<times> world) option" where
  "sqlite3_str_appendchar M p N c w = do {
     (N, p, w) \<leftarrow> (if uint (nChar p) + N \<ge> uint (nAlloc p) then sqlite3StrAccumEnlarge M p N w else Some (N, p, w));
     p \<leftarrow> fill_loop (nat N) c p;
     Some (p, w) }"

definition enlargeAndAppend :: "blocks \<Rightarrow> sqlite3_str \<Rightarrow> bytes \<Rightarrow> world \<Rightarrow> (sqlite3_str \<times> world) option" where
  "enlargeAndAppend M p z w = do {
     (N, p, w) \<leftarrow> sqlite3StrAccumEnlarge M p (int (length z)) w;
     if N > 0 then do {
       t \<leftarrow> put_bytes (zText p) (unat (nChar p)) (take (nat N) z);
       Some (p\<lparr>zText := t, nChar := nChar p + word_of_int N\<rparr>, w) }
     else Some (p, w) }"

text \<open>The \<open>N\<close> bytes at the pointer \<open>z\<close> are the list \<open>z\<close>.\<close>
definition sqlite3_str_append :: "blocks \<Rightarrow> sqlite3_str \<Rightarrow> bytes \<Rightarrow> world \<Rightarrow> (sqlite3_str \<times> world) option" where
  "sqlite3_str_append M p z w =
     (let N = word_of_nat (length z) in
      if nChar p + N \<ge> nAlloc p then enlargeAndAppend M p z w
      else if N \<noteq> 0 then
        (let p = p\<lparr>nChar := nChar p + N\<rparr> in do {
           t \<leftarrow> put_bytes (zText p) (unat (nChar p - N)) z;
           Some (p\<lparr>zText := t\<rparr>, w) })
      else Some (p, w))"

text \<open>\<open>sqlite3Strlen30\<close> keeps 30 bits of the length.\<close>
definition sqlite3_str_appendall :: "blocks \<Rightarrow> sqlite3_str \<Rightarrow> bytes \<Rightarrow> world \<Rightarrow> (sqlite3_str \<times> world) option" where
  "sqlite3_str_appendall M p z w = sqlite3_str_append M p (take (length z mod 2 ^ 30) z) w"

definition strAccumFinishRealloc :: "blocks \<Rightarrow> sqlite3_str \<Rightarrow> world \<Rightarrow> (bytes option \<times> sqlite3_str \<times> world) option" where
  "strAccumFinishRealloc M p w =
     (case realloc_block M None (unat (nChar p + 1)) w of
        (Some zNew, w) \<Rightarrow> do {
          z \<leftarrow> get_bytes (zText p) (unat (nChar p + 1));
          zNew \<leftarrow> put_bytes (Some zNew) 0 z;
          Some (zNew, p\<lparr>printfFlags := printfFlags p OR SQLITE_PRINTF_MALLOCED, zText := zNew\<rparr>, w) }
      | (None, w) \<Rightarrow>
          (let (p, w) = sqlite3StrAccumSetError p SQLITE_NOMEM w in Some (None, p\<lparr>zText := None\<rparr>, w)))"

definition sqlite3StrAccumFinish :: "blocks \<Rightarrow> sqlite3_str \<Rightarrow> world \<Rightarrow> (bytes option \<times> sqlite3_str \<times> world) option" where
  "sqlite3StrAccumFinish M p w =
     (case zText p of
        None \<Rightarrow> Some (None, p, w)
      | Some _ \<Rightarrow> do {
          z \<leftarrow> put_bytes (zText p) (unat (nChar p)) [0];
          let p = p\<lparr>zText := z\<rparr>;
          if mxAlloc p > 0 \<and> \<not> isMalloced p then strAccumFinishRealloc M p w else Some (zText p, p, w) })"

definition sqlite3StrAccumInit :: "bool \<Rightarrow> bytes option \<Rightarrow> int \<Rightarrow> int \<Rightarrow> sqlite3_str" where
  "sqlite3StrAccumInit has_db zBase n mx =
     \<lparr>db = has_db, zText = zBase, nAlloc = word_of_int n, mxAlloc = word_of_int mx, nChar = 0, accError = 0, printfFlags = 0\<rparr>"

text \<open>
  The result of an SQL function: an error code, a text whose block the result now owns, or a static text.
\<close>
datatype text_result = Error_Code nat | Dynamic_Text bytes | Static_Text bytes

definition sqlite3ResultStrAccum :: "sqlite3_str \<Rightarrow> world \<Rightarrow> (text_result \<times> sqlite3_str \<times> world) option" where
  "sqlite3ResultStrAccum p w =
     (if accError p \<noteq> 0 then Some (Error_Code (accError p), sqlite3_str_reset p w)
      else if isMalloced p then do {
        z \<leftarrow> get_bytes (zText p) (unat (nChar p));
        Some (Dynamic_Text z, p, w) }
      else Some (Static_Text [], sqlite3_str_reset p w))"

text \<open>
  The dynamic strings of the interface: a null pointer, the static object \<open>sqlite3OomStr\<close>, or an object of the heap.
  \<open>aLimit\<close> is the length limit of the connection, if one is given.
\<close>
datatype str_handle = Null_Str | Oom_Str | Heap_Str sqlite3_str

definition sqlite3OomStr :: sqlite3_str where
  "sqlite3OomStr = \<lparr>db = False, zText = None, nAlloc = 0, mxAlloc = 0, nChar = 0, accError = SQLITE_NOMEM, printfFlags = 0\<rparr>"

definition sqlite3_str_new :: "int option \<Rightarrow> world \<Rightarrow> str_handle \<times> world" where
  "sqlite3_str_new aLimit w =
     (case alloc_block (heap w) of (ok, al) \<Rightarrow>
        if ok
        then (Heap_Str (sqlite3StrAccumInit False None 0 (case aLimit of None \<Rightarrow> SQLITE_MAX_LENGTH | Some l \<Rightarrow> l)), w\<lparr>heap := al\<rparr>)
        else (Oom_Str, w\<lparr>heap := al\<rparr>))"

definition sqlite3_str_finish :: "blocks \<Rightarrow> str_handle \<Rightarrow> world \<Rightarrow> (bytes option \<times> world) option" where
  "sqlite3_str_finish M h w =
     (case h of
        Heap_Str p \<Rightarrow> do {
          (z, p, w) \<leftarrow> sqlite3StrAccumFinish M p w;
          Some (z, w\<lparr>heap := free_block (heap w)\<rparr>) }
      | _ \<Rightarrow> Some (None, w))"

definition the_str :: "str_handle \<Rightarrow> sqlite3_str option" where
  "the_str h = (case h of Null_Str \<Rightarrow> None | Oom_Str \<Rightarrow> Some sqlite3OomStr | Heap_Str p \<Rightarrow> Some p)"

definition sqlite3_str_errcode :: "str_handle \<Rightarrow> nat" where
  "sqlite3_str_errcode h = (case the_str h of Some p \<Rightarrow> accError p | None \<Rightarrow> SQLITE_NOMEM)"

definition sqlite3_str_length :: "str_handle \<Rightarrow> int" where
  "sqlite3_str_length h = (case the_str h of Some p \<Rightarrow> sint (nChar p) | None \<Rightarrow> 0)"

text \<open>The value: a pointer to the text, which has its terminator written first.\<close>
definition sqlite3_str_value :: "str_handle \<Rightarrow> (bytes option \<times> str_handle) option" where
  "sqlite3_str_value h =
     (case h of
        Heap_Str p \<Rightarrow>
          if nChar p = 0 then Some (None, h)
          else do {
            z \<leftarrow> put_bytes (zText p) (unat (nChar p)) [0];
            Some (z, Heap_Str (p\<lparr>zText := z\<rparr>)) }
      | _ \<Rightarrow> Some (None, h))"

section \<open>The invariant\<close>

text \<open>The text collected so far.\<close>
definition text_of :: "sqlite3_str \<Rightarrow> bytes" where
  "text_of p = (case zText p of None \<Rightarrow> [] | Some b \<Rightarrow> take (unat (nChar p)) b)"

text \<open>
  The buffer, if there is one, has the recorded size and room for a terminator; heap blocks belong to accumulators that
  may grow; after an error a growing accumulator is empty and a fixed one full.
\<close>
definition buf_ok :: "sqlite3_str \<Rightarrow> bool" where
  "buf_ok p \<longleftrightarrow>
     (case zText p of
        None \<Rightarrow> nAlloc p = 0 \<and> nChar p = 0 \<and> \<not> isMalloced p
      | Some b \<Rightarrow> length b = unat (nAlloc p) \<and> nChar p < nAlloc p)
     \<and> unat (nAlloc p) < 2 ^ 31 \<and> unat (mxAlloc p) < 2 ^ 31
     \<and> (isMalloced p \<longrightarrow> mxAlloc p \<noteq> 0)"

definition acc_inv :: "sqlite3_str \<Rightarrow> bool" where
  "acc_inv p \<longleftrightarrow> buf_ok p
     \<and> (accError p \<noteq> 0 \<longrightarrow> (if mxAlloc p = 0 then unat (nAlloc p) \<le> unat (nChar p) + 1 else zText p = None))"

text \<open>Blocks are at least as large as asked for, and SQLite's allocator refuses requests of \<open>2 ^ 31\<close> bytes.\<close>
definition sizes_ok :: "blocks \<Rightarrow> bool" where
  "sizes_ok M \<longleftrightarrow> (\<forall>n < 2 ^ 31. n \<le> xSize M n \<and> xSize M n < 2 ^ 31)"

text \<open>The blocks in use: \<open>k\<close> apart from the accumulator's own.\<close>
definition accounts :: "nat \<Rightarrow> sqlite3_str \<Rightarrow> world \<Rightarrow> bool" where
  "accounts k p w \<longleftrightarrow> live (heap w) = k + (if isMalloced p then 1 else 0)"

definition malloced_flag :: "u8 \<Rightarrow> bool" where
  "malloced_flag f \<longleftrightarrow> bit f 2"

lemma isMalloced_flag: "isMalloced p = malloced_flag (printfFlags p)"
proof -
  have "f AND 4 = (0 :: u8) \<longleftrightarrow> \<not> bit f 2" for f using and_exp_eq_0_iff_not_bit [of f 2] by simp
  then show ?thesis by (simp add: isMalloced_def malloced_flag_def SQLITE_PRINTF_MALLOCED_def)
qed

lemma malloced_flags [simp]:
  "malloced_flag (f OR SQLITE_PRINTF_MALLOCED)" "\<not> malloced_flag (f AND NOT SQLITE_PRINTF_MALLOCED)" "\<not> malloced_flag 0"
  by (simp_all add: malloced_flag_def SQLITE_PRINTF_MALLOCED_def bit_simps bit_numeral_rec(1))

lemma heap_ErrorToParser [simp]: "heap (sqlite3ErrorToParser d e w) = heap w"
  by (simp add: sqlite3ErrorToParser_def split: option.split prod.split)

lemma toobig_nomem [simp]: "0 < SQLITE_TOOBIG" "0 < SQLITE_NOMEM" "SQLITE_TOOBIG \<noteq> 0" "SQLITE_NOMEM \<noteq> 0" "SQLITE_TOOBIG \<noteq> SQLITE_NOMEM" "SQLITE_NOMEM \<noteq> SQLITE_TOOBIG"
  by (simp_all add: SQLITE_TOOBIG_def SQLITE_NOMEM_def)

text \<open>An accumulator in error without a buffer: what every failure of a growing one leaves.\<close>
definition dead :: "nat \<Rightarrow> sqlite3_str \<Rightarrow> sqlite3_str \<Rightarrow> bool" where
  "dead e p p' \<longleftrightarrow> zText p' = None \<and> nAlloc p' = 0 \<and> nChar p' = 0 \<and> \<not> isMalloced p'
     \<and> accError p' = e \<and> mxAlloc p' = mxAlloc p"

lemma set_error_dead:
  assumes "mxAlloc p \<noteq> 0" "accounts k p w" "sqlite3StrAccumSetError p e w = (p', w')"
  shows "dead e p p' \<and> accounts k p' w'"
  using assms
  by (auto simp: sqlite3StrAccumSetError_def sqlite3_str_reset_def dead_def accounts_def isMalloced_flag Let_def split: if_splits)

lemma reset_accounts:
  assumes "sqlite3_str_reset p w = (p', w')"
  shows "mxAlloc p' = mxAlloc p" "accError p' = accError p" "zText p' = None" "nAlloc p' = 0" "nChar p' = 0" "\<not> isMalloced p'"
    "accounts k p w \<Longrightarrow> accounts k p' w'"
  using assms by (auto simp: sqlite3_str_reset_def accounts_def isMalloced_flag Let_def split: if_splits)

lemma dead_inv: "dead e p p' \<Longrightarrow> unat (mxAlloc p) < 2 ^ 31 \<Longrightarrow> acc_inv p' \<and> text_of p' = []"
  by (simp add: dead_def acc_inv_def buf_ok_def text_of_def)

lemma length_fresh [simp]: "sizes_ok M \<Longrightarrow> n < 2 ^ 31 \<Longrightarrow> length (fresh_block M old n) = xSize M n"
  by (auto simp: fresh_block_def sizes_ok_def)

lemma take_fresh: "k \<le> n \<Longrightarrow> k \<le> length old \<Longrightarrow> take k (fresh_block M old n) = take k old"
  by (simp add: fresh_block_def min_def)

lemma realloc_cases:
  assumes "realloc_block M zOld n w = (z, w')"
  shows "z = Some (fresh_block M (case zOld of None \<Rightarrow> [] | Some b \<Rightarrow> b) n)
      \<and> live (heap w') = live (heap w) + (if zOld = None then 1 else 0)
      \<and> (plenty (heap w) \<longrightarrow> plenty (heap w'))
    \<or> z = None \<and> live (heap w') = live (heap w) \<and> \<not> plenty (heap w)"
  using assms plenty_alloc live_alloc [of "heap w"]
  by (auto simp: realloc_block_def split: prod.splits if_splits option.splits)

section \<open>Enlarging\<close>

lemma unat_u32_of_nat: "n < 2 ^ 32 \<Longrightarrow> unat (word_of_nat n :: u32) = n"
  by (simp add: unat_of_nat)

lemma enlarge_error: "accError p \<noteq> 0 \<Longrightarrow> sqlite3StrAccumEnlarge M p N w = Some (0, p, w)"
  by (simp add: sqlite3StrAccumEnlarge_def)

lemma enlarge_fixed:
  assumes "accError p = 0" "mxAlloc p = 0"
  shows "sqlite3StrAccumEnlarge M p N w = Some (sint (nAlloc p - nChar p - 1), p\<lparr>accError := SQLITE_TOOBIG\<rparr>,
      sqlite3ErrorToParser (db p) SQLITE_TOOBIG w)"
  using assms by (simp add: sqlite3StrAccumEnlarge_def sqlite3StrAccumSetError_def Let_def)

text \<open>Growing to \<open>sz\<close> bytes: the same text in a heap block with room for \<open>sz - 1\<close> bytes, or nothing.\<close>
definition grown :: "sqlite3_str \<Rightarrow> nat \<Rightarrow> sqlite3_str \<Rightarrow> bool" where
  "grown p sz p' \<longleftrightarrow> acc_inv p' \<and> text_of p' = text_of p \<and> nChar p' = nChar p \<and> accError p' = 0
     \<and> mxAlloc p' = mxAlloc p \<and> sz \<le> unat (nAlloc p')"

lemma text_length: "buf_ok p \<Longrightarrow> length (text_of p) = unat (nChar p)"
  by (auto simp: buf_ok_def text_of_def word_less_nat_alt split: option.splits)

lemma move_text_keeps:
  assumes "acc_inv p" "sizes_ok M" "unat (nChar p) < n" "n < 2 ^ 31"
  shows "\<exists>b. move_text p (fresh_block M (case if isMalloced p then zText p else None of None \<Rightarrow> [] | Some b \<Rightarrow> b) n) = Some (Some b)
    \<and> length b = xSize M n \<and> take (unat (nChar p)) b = text_of p"
proof -
  have n: "n \<le> xSize M n" using assms(2,4) by (simp add: sizes_ok_def)
  show ?thesis
  proof (cases "zText p")
    case None
    then show ?thesis using assms n by (auto simp: acc_inv_def buf_ok_def move_text_def text_of_def)
  next
    case (Some z)
    then have z: "unat (nChar p) < length z" using assms(1) by (simp add: acc_inv_def buf_ok_def word_less_nat_alt)
    show ?thesis
    proof (cases "isMalloced p")
      case True
      then show ?thesis using Some z assms take_fresh [of "unat (nChar p)" n z M]
        by (simp add: move_text_def text_of_def)
    next
      case False
      then show ?thesis using Some z assms n
        by (auto simp: move_text_def text_of_def get_bytes_def put_bytes_def word_gt_0 unat_gt_0)
    qed
  qed
qed

text \<open>What growing by \<open>N\<close> bytes does, on every path.\<close>
definition grow_outcome :: "blocks \<Rightarrow> sqlite3_str \<Rightarrow> int \<Rightarrow> nat \<Rightarrow> world \<Rightarrow> (int \<times> sqlite3_str \<times> world) option \<Rightarrow> bool" where
  "grow_outcome M p N k w r \<longleftrightarrow> (\<exists>p' w'. accounts k p' w' \<and> (plenty (heap w) \<longrightarrow> plenty (heap w')) \<and>
     (r = Some (N, p', w') \<and> grown p (unat (nChar p) + nat N + 1) p'
      \<or> r = Some (0, p', w')
        \<and> (dead SQLITE_TOOBIG p p' \<and> unat (mxAlloc p) \<le> unat (nChar p) + nat N
           \<or> dead SQLITE_NOMEM p p' \<and> \<not> plenty (heap w))))"

lemma grow_block_outcome:
  assumes p: "acc_inv p" "accError p = 0" "mxAlloc p \<noteq> 0" "accounts k p w" and M: "sizes_ok M" and N: "0 \<le> N" "N < 2 ^ 31"
    and n: "n < 2 ^ 31" "unat (nChar p) + nat N + 1 \<le> n"
  shows "grow_outcome M p N k w (grow_block M (p\<lparr>nAlloc := word_of_nat n\<rparr>) N w)"
proof -
  define q where "q = p\<lparr>nAlloc := word_of_nat n\<rparr>"
  define zOld where "zOld = (if isMalloced p then zText p else None)"
  have q: "unat (nAlloc q) = n" "isMalloced q = isMalloced p" "zText q = zText p"
      "move_text q = move_text p" "printfFlags q = printfFlags p"
    using n by (simp_all add: q_def unat_u32_of_nat isMalloced_flag move_text_def fun_eq_iff)
  have fold: "(if isMalloced q then zText q else None) = zOld" by (simp add: zOld_def q)
  have zOld: "(zOld = None) = (\<not> isMalloced p)" using p(1) by (auto simp: zOld_def acc_inv_def buf_ok_def split: option.splits)
  obtain z w1 where 1: "realloc_block M zOld n w = (z, w1)" by fastforce
  have to: "to_i32 N = N" using N by (simp add: to_i32_def signed_take_bit_int_eq_self)
  show ?thesis
  proof (cases z)
    case None
    then have w1: "live (heap w1) = live (heap w)" "\<not> plenty (heap w)" using realloc_cases [OF 1] by auto
    obtain p2 w2 where 2: "sqlite3_str_reset q w1 = (p2, w2)" by fastforce
    obtain p3 w3 where 3: "sqlite3StrAccumSetError p2 SQLITE_NOMEM w2 = (p3, w3)" by fastforce
    note r = reset_accounts [OF 2]
    have "accounts k q w1" using p(4) w1 q(2) by (simp add: accounts_def)
    then have "dead SQLITE_NOMEM p2 p3 \<and> accounts k p3 w3"
      using set_error_dead [OF _ _ 3] r(1) r(7) [of k] p(3) by (simp add: q_def)
    moreover have "dead SQLITE_NOMEM p2 p3 = dead SQLITE_NOMEM p p3" using r(1) by (simp add: dead_def q_def)
    moreover have "grow_block M q N w = Some (0, p3, w3)"
      unfolding grow_block_def fold using 1 None 2 3 q by simp
    ultimately show ?thesis using w1 by (auto simp: grow_outcome_def q_def)
  next
    case (Some zNew)
    then have w1: "zNew = fresh_block M (case zOld of None \<Rightarrow> [] | Some b \<Rightarrow> b) n"
        "live (heap w1) = live (heap w) + (if zOld = None then 1 else 0)" "plenty (heap w) \<longrightarrow> plenty (heap w1)"
      using realloc_cases [OF 1] by auto
    have "unat (nChar p) < n" using n(2) by simp
    then obtain b where b: "move_text p zNew = Some (Some b)" "length b = xSize M n" "take (unat (nChar p)) b = text_of p"
      using move_text_keeps [OF p(1) M _ n(1)] w1(1) zOld_def by auto
    have x: "n \<le> xSize M n" "xSize M n < 2 ^ 31" using M n(1) by (simp_all add: sizes_ok_def)
    then have u: "unat (word_of_nat (xSize M n) :: u32) = xSize M n" by (simp add: unat_u32_of_nat)
    define p' where "p' = q\<lparr>zText := Some b, nAlloc := word_of_nat (length b),
        printfFlags := printfFlags p OR SQLITE_PRINTF_MALLOCED\<rparr>"
    have mal: "isMalloced p'" by (simp add: isMalloced_flag p'_def)
    have "grown p (unat (nChar p) + nat N + 1) p'"
      using b x u n p(1-3) mal by (simp add: grown_def acc_inv_def buf_ok_def text_of_def p'_def q_def word_less_nat_alt)
    moreover have "accounts k p' w1" using p(4) w1(2) zOld mal by (simp add: accounts_def)
    moreover have "grow_block M q N w = Some (N, p', w1)"
      unfolding grow_block_def fold using 1 Some b q to by (simp add: p'_def)
    ultimately show ?thesis using w1(3) by (auto simp: grow_outcome_def q_def)
  qed
qed

lemma enlarge_grow:
  assumes p: "acc_inv p" "accError p = 0" "mxAlloc p \<noteq> 0" "accounts k p w" and M: "sizes_ok M" and N: "0 \<le> N" "N < 2 ^ 31"
  shows "grow_outcome M p N k w (sqlite3StrAccumEnlarge M p N w)"
proof -
  obtain c m where cm: "uint (nChar p) = int c" "unat (nChar p) = c" "uint (mxAlloc p) = int m" "unat (mxAlloc p) = m"
    by (metis uint_nat)
  have m: "m < 2 ^ 31" using p(1) cm(4) by (simp add: acc_inv_def buf_ok_def)
  have sz: "int c + N + 1 \<le> szNew p N" using N by (auto simp: szNew_def Let_def cm)
  show ?thesis
  proof (cases "szNew p N > uint (mxAlloc p)")
    case True
    obtain p1 w1 where 1: "sqlite3_str_reset p w = (p1, w1)" by fastforce
    obtain p2 w2 where 2: "sqlite3StrAccumSetError p1 SQLITE_TOOBIG w1 = (p2, w2)" by fastforce
    note r = reset_accounts [OF 1]
    have "dead SQLITE_TOOBIG p1 p2 \<and> accounts k p2 w2"
      using set_error_dead [OF _ _ 2] r(1) r(7) [of k] p(3,4) by simp
    moreover have "plenty (heap w) \<longrightarrow> plenty (heap w2)"
      using 1 2 by (auto simp: sqlite3_str_reset_def sqlite3StrAccumSetError_def Let_def split: if_splits)
    moreover have "unat (mxAlloc p) \<le> unat (nChar p) + nat N"
      using True N by (auto simp: szNew_def Let_def cm split: if_splits)
    moreover have "sqlite3StrAccumEnlarge M p N w = Some (0, p2, w2)"
      using p(2,3) True 1 2 by (simp add: sqlite3StrAccumEnlarge_def Let_def)
    ultimately show ?thesis using r(1) by (auto simp: dead_def grow_outcome_def)
  next
    case False
    define n where "n = nat (szNew p N)"
    have n: "n < 2 ^ 31" "unat (nChar p) + nat N + 1 \<le> n" "word_of_int (szNew p N) = (word_of_nat n :: u32)"
      using sz False m N by (auto simp: n_def nat_less_iff cm)
    have "sqlite3StrAccumEnlarge M p N w = grow_block M (p\<lparr>nAlloc := word_of_nat n\<rparr>) N w"
      using p(2,3) False n(3) by (simp add: sqlite3StrAccumEnlarge_def)
    then show ?thesis using grow_block_outcome [OF p M N n(1,2)] by simp
  qed
qed

section \<open>Appending\<close>

lemma put_room:
  assumes "buf_ok p" "unat (nChar p) + length z < unat (nAlloc p)"
  shows "\<exists>t. put_bytes (zText p) (unat (nChar p)) z = Some t
    \<and> buf_ok (p\<lparr>zText := t, nChar := nChar p + word_of_nat (length z)\<rparr>)
    \<and> text_of (p\<lparr>zText := t, nChar := nChar p + word_of_nat (length z)\<rparr>) = text_of p @ z
    \<and> (mxAlloc p \<noteq> 0 \<longrightarrow> t \<noteq> None)"
proof -
  obtain b where b: "zText p = Some b" "length b = unat (nAlloc p)" "unat (nAlloc p) < 2 ^ 31"
    using assms by (auto simp: buf_ok_def split: option.splits)
  have "unat (nChar p + word_of_nat (length z)) = unat (nChar p) + length z"
    using assms b by (simp add: unat_word_ariths unat_of_nat)
  then show ?thesis using assms b
    by (auto simp: put_bytes_def buf_ok_def text_of_def word_less_nat_alt isMalloced_flag)
qed

text \<open>What appending \<open>z\<close> does, on every path; \<open>k\<close> blocks are in use elsewhere.\<close>
definition appended :: "nat \<Rightarrow> sqlite3_str \<Rightarrow> bytes \<Rightarrow> world \<Rightarrow> sqlite3_str \<Rightarrow> world \<Rightarrow> bool" where
  "appended k p z w p' w' \<longleftrightarrow>
     acc_inv p' \<and> accounts k p' w' \<and> (plenty (heap w) \<longrightarrow> plenty (heap w')) \<and> mxAlloc p' = mxAlloc p \<and>
     (if accError p \<noteq> 0 then p' = p \<and> w' = w
      else if mxAlloc p = 0 then
        nAlloc p' = nAlloc p \<and> text_of p' = take (unat (nAlloc p) - 1) (text_of p @ z)
        \<and> accError p' = (if length (text_of p @ z) < unat (nAlloc p) then 0 else SQLITE_TOOBIG)
      else accError p' = 0 \<and> text_of p' = text_of p @ z
        \<or> text_of p' = [] \<and> (accError p' = SQLITE_TOOBIG \<and> unat (mxAlloc p) \<le> length (text_of p @ z)
                          \<or> accError p' = SQLITE_NOMEM \<and> \<not> plenty (heap w)))"

text \<open>Appending within the buffer, and after enlarging.\<close>
definition store :: "sqlite3_str \<Rightarrow> bytes \<Rightarrow> sqlite3_str option" where
  "store p z = do {
     t \<leftarrow> put_bytes (zText p) (unat (nChar p)) z;
     Some (p\<lparr>zText := t, nChar := nChar p + word_of_nat (length z)\<rparr>) }"

lemma store_room:
  assumes "buf_ok p" "unat (nChar p) + length z < unat (nAlloc p)"
  shows "\<exists>p'. store p z = Some p' \<and> buf_ok p' \<and> text_of p' = text_of p @ z \<and> accError p' = accError p
    \<and> mxAlloc p' = mxAlloc p \<and> nAlloc p' = nAlloc p \<and> isMalloced p' = isMalloced p"
  using put_room [OF assms] by (auto simp: store_def isMalloced_flag)

lemma put_Nil [simp]: "put_bytes b k [] = Some b"
  by (simp add: put_bytes_def)

lemma store_Nil [simp]: "store p [] = Some p"
  by (simp add: store_def)

text \<open>The common shape of the append operations: enlarge when the text does not fit, then store what fits.\<close>
definition append_by :: "blocks \<Rightarrow> sqlite3_str \<Rightarrow> bytes \<Rightarrow> world \<Rightarrow> (sqlite3_str \<times> world) option" where
  "append_by M p z w =
     (if unat (nChar p) + length z < unat (nAlloc p) then do { p \<leftarrow> store p z; Some (p, w) }
      else do {
        (N, p, w) \<leftarrow> sqlite3StrAccumEnlarge M p (int (length z)) w;
        p \<leftarrow> store p (take (nat N) z);
        Some (p, w) })"

lemma room_left:
  assumes "buf_ok p"
  shows "nat (sint (nAlloc p - nChar p - 1)) = unat (nAlloc p) - unat (nChar p) - 1"
proof (cases "nAlloc p = 0")
  case True
  then have "nChar p = 0" using assms by (auto simp: buf_ok_def split: option.splits)
  then show ?thesis using True by simp
next
  case False
  then have "nChar p < nAlloc p" using assms by (auto simp: buf_ok_def split: option.splits)
  moreover have "unat (nAlloc p) < 2 ^ 31" using assms by (simp add: buf_ok_def)
  ultimately have u: "unat (nAlloc p - nChar p - 1) = unat (nAlloc p) - unat (nChar p) - 1"
      "unat (nAlloc p - nChar p - 1) < 2 ^ 31"
    by (simp_all add: unat_sub word_le_nat_alt word_less_nat_alt)
  have "sint x = int (unat x)" if "unat x < 2 ^ 31" for x :: u32
  proof -
    have "uint x < 2147483648" using that [simplified] uint_nat [of x] by linarith
    moreover have "- (2 ^ 31) \<le> uint x" by (rule order_trans [OF _ uint_ge_0]) simp
    ultimately show ?thesis by (simp add: sint_uint signed_take_bit_int_eq_self)
  qed
  then show ?thesis using u by simp
qed

lemma append_by_fixed:
  assumes p: "acc_inv p" "accounts k p w" and "unat (nAlloc p) \<le> unat (nChar p) + length z" "accError p = 0" "mxAlloc p = 0"
  shows "\<exists>p' w'. append_by M p z w = Some (p', w') \<and> appended k p z w p' w'"
proof -
  note fixed = assms(3-5)
  have buf: "buf_ok p" and len: "length (text_of p) = unat (nChar p)"
    using p text_length by (auto simp: acc_inv_def)
  define q where "q = p\<lparr>accError := SQLITE_TOOBIG\<rparr>"
  define c where "c = unat (nAlloc p) - unat (nChar p) - 1"
  have q: "buf_ok q" "nChar q = nChar p" "nAlloc q = nAlloc p" "text_of q = text_of p" "accError q = SQLITE_TOOBIG"
      "mxAlloc q = 0" "isMalloced q = isMalloced p"
    using buf fixed by (auto simp: q_def buf_ok_def isMalloced_flag text_of_def split: option.splits)
  have N: "nat (sint (nAlloc p - nChar p - 1)) = c" using room_left [OF buf] by (simp add: c_def)
  obtain p' where p': "store q (take c z) = Some p'" "buf_ok p'" "text_of p' = text_of q @ take c z" "accError p' = accError q"
      "mxAlloc p' = mxAlloc q" "nAlloc p' = nAlloc q" "isMalloced p' = isMalloced q"
  proof (cases "take c z = []")
    case True
    then show ?thesis using q by (auto intro: that [of q])
  next
    case False
    then have "unat (nChar q) + length (take c z) < unat (nAlloc q)" using q c_def by auto
    then show ?thesis using store_room [OF q(1)] that by blast
  qed
  have t: "text_of p' = take (unat (nAlloc p) - 1) (text_of p @ z)"
    using p'(3) q(4) len c_def buf by (auto simp: buf_ok_def text_of_def word_less_nat_alt split: option.splits)
  then have "length (text_of p') = unat (nAlloc p) - 1" using fixed(1) len by simp
  then have "acc_inv p'" using p' q text_length [OF p'(2)] by (simp add: acc_inv_def)
  then have "appended k p z w p' (sqlite3ErrorToParser (db p) SQLITE_TOOBIG w)"
    using fixed p' q t p(2) len by (simp add: appended_def accounts_def)
  then show ?thesis using fixed p'(1) N by (simp add: append_by_def enlarge_fixed q_def)
qed

lemma append_by_grow:
  assumes p: "acc_inv p" "accounts k p w" and M: "sizes_ok M" and z: "length z < 2 ^ 31"
    and "unat (nAlloc p) \<le> unat (nChar p) + length z" "accError p = 0" "mxAlloc p \<noteq> 0"
  shows "\<exists>p' w'. append_by M p z w = Some (p', w') \<and> appended k p z w p' w'"
proof -
  note grow = assms(5-7)
  have buf: "buf_ok p" and len: "length (text_of p) = unat (nChar p)"
    using p text_length by (auto simp: acc_inv_def)
  obtain p1 w1 where w1: "accounts k p1 w1" "plenty (heap w) \<longrightarrow> plenty (heap w1)" and
    out: "sqlite3StrAccumEnlarge M p (int (length z)) w = Some (int (length z), p1, w1) \<and> grown p (unat (nChar p) + length z + 1) p1
      \<or> sqlite3StrAccumEnlarge M p (int (length z)) w = Some (0, p1, w1)
        \<and> (dead SQLITE_TOOBIG p p1 \<and> unat (mxAlloc p) \<le> unat (nChar p) + length z
           \<or> dead SQLITE_NOMEM p p1 \<and> \<not> plenty (heap w))"
    using enlarge_grow [OF p(1) grow(2,3) p(2) M, of "int (length z)"] z by (auto simp: grow_outcome_def)
  from out show ?thesis
  proof (elim disjE conjE)
    assume e: "sqlite3StrAccumEnlarge M p (int (length z)) w = Some (int (length z), p1, w1)"
      and g: "grown p (unat (nChar p) + length z + 1) p1"
    then obtain p' where p': "store p1 z = Some p'" "buf_ok p'" "text_of p' = text_of p1 @ z" "accError p' = accError p1"
        "mxAlloc p' = mxAlloc p1" "isMalloced p' = isMalloced p1"
      using store_room [of p1 z] by (auto simp: grown_def acc_inv_def)
    then have "appended k p z w p' w1" using g grow w1 by (simp add: appended_def grown_def acc_inv_def accounts_def)
    then show ?thesis using grow(1) e p'(1) by (simp add: append_by_def)
  qed (use grow w1 len dead_inv [of _ p p1] buf in \<open>auto simp: append_by_def appended_def buf_ok_def dead_def\<close>)
qed

lemma append_by_outcome:
  assumes p: "acc_inv p" "accounts k p w" and M: "sizes_ok M" and z: "length z < 2 ^ 31"
  shows "\<exists>p' w'. append_by M p z w = Some (p', w') \<and> appended k p z w p' w'"
proof -
  have buf: "buf_ok p" and len: "length (text_of p) = unat (nChar p)"
    using p text_length by (auto simp: acc_inv_def)
  consider (fits) "unat (nChar p) + length z < unat (nAlloc p)" "accError p = 0"
    | (full) "unat (nChar p) + length z < unat (nAlloc p)" "accError p \<noteq> 0"
    | (err) "unat (nAlloc p) \<le> unat (nChar p) + length z" "accError p \<noteq> 0"
    | (large) "unat (nAlloc p) \<le> unat (nChar p) + length z" "accError p = 0"
    by linarith
  then show ?thesis
  proof cases
    case fits
    then obtain p' where p': "store p z = Some p'" "buf_ok p'" "text_of p' = text_of p @ z" "accError p' = accError p"
        "mxAlloc p' = mxAlloc p" "nAlloc p' = nAlloc p" "isMalloced p' = isMalloced p"
      using store_room [OF buf] by blast
    then have "appended k p z w p' w" using p fits len by (simp add: appended_def acc_inv_def accounts_def)
    then show ?thesis using fits p'(1) by (simp add: append_by_def)
  next
    case full
    then have "z = []" using p(1) by (cases z) (auto simp: acc_inv_def buf_ok_def split: if_splits)
    then show ?thesis using full p by (simp add: append_by_def appended_def)
  next
    case err
    then show ?thesis using p by (simp add: append_by_def enlarge_error appended_def)
  next
    case large
    then show ?thesis using append_by_fixed [OF p] append_by_grow [OF p M z] by blast
  qed
qed

lemma enlarge_room:
  assumes p: "acc_inv p" "accounts k p w" and M: "sizes_ok M" and n: "n < 2 ^ 31" "unat (nAlloc p) \<le> unat (nChar p) + n"
  shows "\<exists>N p' w'. sqlite3StrAccumEnlarge M p (int n) w = Some (N, p', w') \<and> N \<le> int n
    \<and> (N \<le> 0 \<or> buf_ok p' \<and> unat (nChar p') + nat N < unat (nAlloc p'))"
proof -
  have buf: "buf_ok p" using p(1) by (simp add: acc_inv_def)
  consider "accError p \<noteq> 0" | "accError p = 0" "mxAlloc p = 0" | "accError p = 0" "mxAlloc p \<noteq> 0" by blast
  then show ?thesis
  proof cases
    case 2
    let ?s = "sint (nAlloc p - nChar p - 1)"
    have "?s \<le> int n" "?s \<le> 0 \<or> unat (nChar p) + nat ?s < unat (nAlloc p)"
      using room_left [OF buf] n(2) by linarith+
    moreover have "buf_ok (p\<lparr>accError := SQLITE_TOOBIG\<rparr>)"
      using buf by (auto simp: buf_ok_def isMalloced_flag split: option.splits)
    ultimately show ?thesis using enlarge_fixed [OF 2, of M "int n" w] by auto
  next
    case 3
    then show ?thesis using enlarge_grow [OF p(1) 3 p(2) M, of "int n"] n(1)
      by (fastforce simp: grow_outcome_def grown_def acc_inv_def)
  qed (simp add: enlarge_error)
qed

lemma str_append_by:
  assumes p: "acc_inv p" "accounts k p w" and M: "sizes_ok M" and z: "length z < 2 ^ 31"
  shows "sqlite3_str_append M p z w = append_by M p z w"
proof -
  have c: "unat (nChar p) < 2 ^ 31" and buf: "buf_ok p"
    using p(1) by (auto simp: acc_inv_def buf_ok_def word_less_nat_alt split: option.splits)
  have s: "unat (nChar p + word_of_nat (length z)) = unat (nChar p) + length z"
    using c z by (simp add: unat_word_ariths unat_of_nat)
  have le: "nChar p + word_of_nat (length z) \<ge> nAlloc p \<longleftrightarrow> \<not> unat (nChar p) + length z < unat (nAlloc p)"
    using s by (simp add: word_le_nat_alt linorder_not_less)
  show ?thesis
  proof (cases "unat (nChar p) + length z < unat (nAlloc p)")
    case True
    have "word_of_nat (length z) = (0 :: u32) \<longleftrightarrow> z = []"
      using unat_u32_of_nat [of "length z"] z by (cases z) (auto simp flip: unat_eq_0)
    then show ?thesis using True le
      by (cases p) (simp add: sqlite3_str_append_def append_by_def store_def Let_def)
  next
    case False
    then obtain N p' w' where e: "sqlite3StrAccumEnlarge M p (int (length z)) w = Some (N, p', w')" "N \<le> int (length z)"
      using enlarge_room [OF p M z] by auto
    have "word_of_nat (length (take (nat N) z)) = (word_of_int N :: u32)" if "N > 0" using that e(2) by simp
    then show ?thesis using False le e
      by (simp add: sqlite3_str_append_def enlargeAndAppend_def append_by_def store_def Let_def)
  qed
qed

lemma store_store:
  assumes "buf_ok p" "unat (nChar p) + length z + length y < unat (nAlloc p)" "store p z = Some p1"
  shows "store p1 y = store p (z @ y)"
proof -
  obtain b where b: "zText p = Some b" "length b = unat (nAlloc p)" "unat (nAlloc p) < 2 ^ 31"
    using assms by (auto simp: buf_ok_def split: option.splits)
  have "unat (nChar p + word_of_nat (length z)) = unat (nChar p) + length z"
    using assms b by (simp add: unat_word_ariths unat_of_nat)
  then show ?thesis using assms b
    by (cases "z = []"; cases "y = []") (auto simp: store_def put_bytes_def ac_simps split: if_splits)
qed

lemma fill_store:
  "buf_ok p \<Longrightarrow> unat (nChar p) + n < unat (nAlloc p) \<Longrightarrow> fill_loop n c p = store p (replicate n c)"
proof (induction n arbitrary: p)
  case (Suc n)
  obtain p1 where p1: "store p [c] = Some p1" "buf_ok p1" "nAlloc p1 = nAlloc p" "text_of p1 = text_of p @ [c]"
    using store_room [of p "[c]"] Suc.prems by auto
  have "unat (nChar p1) = unat (nChar p) + 1"
    using text_length [OF p1(2)] text_length [OF Suc.prems(1)] p1(4) by simp
  then have "fill_loop n c p1 = store p1 (replicate n c)" using Suc p1 by simp
  moreover have "fill_loop (Suc n) c p = fill_loop n c p1"
    using p1(1) by (auto simp: store_def split: bind_splits)
  moreover have "store p1 (replicate n c) = store p ([c] @ replicate n c)"
    using store_store [OF Suc.prems(1) _ p1(1)] Suc.prems(2) by simp
  ultimately show ?case by simp
qed simp

lemma str_appendchar_by:
  assumes p: "acc_inv p" "accounts k p w" and M: "sizes_ok M" and n: "n < 2 ^ 31"
  shows "sqlite3_str_appendchar M p (int n) c w = append_by M p (replicate n c) w"
proof (cases "unat (nChar p) + n < unat (nAlloc p)")
  case True
  then have "\<not> uint (nChar p) + int n \<ge> uint (nAlloc p)" using uint_nat [of "nChar p"] uint_nat [of "nAlloc p"] by linarith
  then show ?thesis using True p fill_store [of p n c]
    by (simp add: sqlite3_str_appendchar_def append_by_def acc_inv_def)
next
  case False
  then have "uint (nChar p) + int n \<ge> uint (nAlloc p)" using uint_nat [of "nChar p"] uint_nat [of "nAlloc p"] by linarith
  moreover obtain N p' w' where e: "sqlite3StrAccumEnlarge M p (int n) w = Some (N, p', w')" "N \<le> int n"
      "N \<le> 0 \<or> buf_ok p' \<and> unat (nChar p') + nat N < unat (nAlloc p')"
    using enlarge_room [OF p M n] False by auto
  moreover have "fill_loop (nat N) c p' = store p' (take (nat N) (replicate n c))"
    using e fill_store [of p' "nat N" c] by (auto simp: min_def)
  ultimately show ?thesis using False by (simp add: sqlite3_str_appendchar_def append_by_def)
qed

lemma str_appendchar_negative:
  assumes "acc_inv p" "N < 0"
  shows "sqlite3_str_appendchar M p N c w = Some (p, w)"
proof -
  have "unat (nChar p) \<le> unat (nAlloc p)"
    using assms(1) by (auto simp: acc_inv_def buf_ok_def word_less_nat_alt split: option.splits)
  then have "\<not> uint (nChar p) + N \<ge> uint (nAlloc p)"
    using assms(2) uint_nat [of "nChar p"] uint_nat [of "nAlloc p"] by linarith
  then show ?thesis using assms by (simp add: sqlite3_str_appendchar_def)
qed

section \<open>Sequences of operations\<close>

datatype str_op = Append bytes | Append_Char int u8 | Append_All bytes

fun str_step :: "blocks \<Rightarrow> str_op \<Rightarrow> sqlite3_str \<times> world \<Rightarrow> (sqlite3_str \<times> world) option" where
  "str_step M (Append z) (p, w) = sqlite3_str_append M p z w"
| "str_step M (Append_Char N c) (p, w) = sqlite3_str_appendchar M p N c w"
| "str_step M (Append_All z) (p, w) = sqlite3_str_appendall M p z w"

fun op_text :: "str_op \<Rightarrow> bytes" where
  "op_text (Append z) = z"
| "op_text (Append_Char N c) = replicate (nat N) c"
| "op_text (Append_All z) = z"

fun op_ok :: "str_op \<Rightarrow> bool" where
  "op_ok (Append z) = (length z < 2 ^ 31)"
| "op_ok (Append_Char N c) = (N < 2 ^ 31)"
| "op_ok (Append_All z) = (length z < 2 ^ 30)"

fun run_ops :: "('o \<Rightarrow> 's \<Rightarrow> 's option) \<Rightarrow> 'o list \<Rightarrow> 's \<Rightarrow> 's option" where
  "run_ops step [] s = Some s"
| "run_ops step (x # xs) s = do { s \<leftarrow> step x s; run_ops step xs s }"

definition said :: "str_op list \<Rightarrow> bytes" where
  "said xs = concat (map op_text xs)"

lemma append_nothing: "acc_inv p \<Longrightarrow> accounts k p w \<Longrightarrow> nAlloc p \<noteq> 0 \<or> mxAlloc p \<noteq> 0 \<Longrightarrow> appended k p [] w p w"
  using text_length [of p]
  by (auto simp: appended_def acc_inv_def buf_ok_def word_less_nat_alt text_of_def split: option.splits)

lemma str_step_appended:
  assumes p: "acc_inv p" "accounts k p w" and M: "sizes_ok M" and x: "op_ok x" and n: "nAlloc p \<noteq> 0 \<or> mxAlloc p \<noteq> 0"
  shows "\<exists>p' w'. str_step M x (p, w) = Some (p', w') \<and> appended k p (op_text x) w p' w'"
proof (cases x)
  case (Append z)
  then show ?thesis using x str_append_by [OF p M] append_by_outcome [OF p M] by simp
next
  case (Append_All z)
  then show ?thesis using x str_append_by [OF p M, of z] append_by_outcome [OF p M, of z]
    by (simp add: sqlite3_str_appendall_def)
next
  case (Append_Char N c)
  show ?thesis
  proof (cases "N < 0")
    case True
    then show ?thesis using Append_Char append_nothing [OF p n] str_appendchar_negative [OF p(1) True] by simp
  next
    case False
    then show ?thesis using Append_Char x str_appendchar_by [OF p M, of "nat N" c] append_by_outcome [OF p M, of "replicate (nat N) c"]
      by (simp add: nat_less_iff)
  qed
qed

lemma take_take_append: "take n (take n xs @ ys) = take n (xs @ ys)"
  by (simp add: take_append min_def)

text \<open>A log in a fixed buffer keeps the first \<open>cap\<close> bytes of all that was written.\<close>
locale fixed_log =
  fixes step :: "'o \<Rightarrow> 's \<Rightarrow> 's option" and ok :: "'o \<Rightarrow> bool" and entry :: "'o \<Rightarrow> bytes"
    and inv :: "'s \<Rightarrow> bool" and content :: "'s \<Rightarrow> bytes" and full :: "'s \<Rightarrow> bool" and cap :: nat
  assumes step_fixed: "inv s \<Longrightarrow> ok x \<Longrightarrow> \<exists>s'. step x s = Some s' \<and> inv s'
      \<and> content s' = take cap (content s @ entry x) \<and> (full s' \<longleftrightarrow> full s \<or> cap < length (content s @ entry x))"
    and full_cap: "inv s \<Longrightarrow> full s \<Longrightarrow> length (content s) = cap"
begin

lemma run_fixed:
  "inv s \<Longrightarrow> list_all ok xs \<Longrightarrow> length (content s) \<le> cap \<Longrightarrow> \<exists>s'. run_ops step xs s = Some s' \<and> inv s'
    \<and> content s' = take cap (content s @ concat (map entry xs))
    \<and> (full s' \<longleftrightarrow> full s \<or> cap < length (content s @ concat (map entry xs)))"
proof (induction xs arbitrary: s)
  case (Cons x xs)
  then obtain s1 where s1: "step x s = Some s1" "inv s1" "content s1 = take cap (content s @ entry x)"
      "full s1 \<longleftrightarrow> full s \<or> cap < length (content s @ entry x)"
    using step_fixed [of s x] by auto
  have l1: "length (content s1) \<le> cap" using s1(3) by simp
  obtain s2 where s2: "run_ops step xs s1 = Some s2" "inv s2" "content s2 = take cap (content s1 @ concat (map entry xs))"
      "full s2 \<longleftrightarrow> full s1 \<or> cap < length (content s1 @ concat (map entry xs))"
    using Cons.IH [OF s1(2) _ l1] Cons.prems(2) unfolding list.pred_inject by blast
  have "content s2 = take cap (content s @ entry x @ concat (map entry xs))"
    unfolding s2(3) s1(3) using take_take_append [of cap "content s @ entry x"] by simp
  moreover have "full s2 \<longleftrightarrow> full s \<or> cap < length (content s @ entry x @ concat (map entry xs))"
    unfolding s2(4) s1(3,4) by (auto simp: min_def split: if_splits)
  ultimately show ?case using s1(1) s2(1,2) by simp
qed simp

end

text \<open>A log that grows keeps all that was written, or fails for good with a reason and nothing.\<close>
locale growing_log =
  fixes step :: "'o \<Rightarrow> 's \<Rightarrow> 's option" and ok :: "'o \<Rightarrow> bool" and entry :: "'o \<Rightarrow> bytes"
    and inv :: "'s \<Rightarrow> bool" and content :: "'s \<Rightarrow> bytes" and error :: "'s \<Rightarrow> nat" and scarce :: "'s \<Rightarrow> bool" and limit :: nat
  assumes step_failed: "inv s \<Longrightarrow> ok x \<Longrightarrow> error s \<noteq> 0 \<Longrightarrow> step x s = Some s"
    and step_grows: "inv s \<Longrightarrow> ok x \<Longrightarrow> error s = 0 \<Longrightarrow> \<exists>s'. step x s = Some s' \<and> inv s' \<and> (scarce s' \<longrightarrow> scarce s)
      \<and> (error s' = 0 \<and> content s' = content s @ entry x
        \<or> content s' = [] \<and> (error s' = SQLITE_TOOBIG \<and> limit \<le> length (content s @ entry x) \<or> error s' = SQLITE_NOMEM \<and> scarce s))"
begin

lemma run_failed: "inv s \<Longrightarrow> list_all ok xs \<Longrightarrow> error s \<noteq> 0 \<Longrightarrow> run_ops step xs s = Some s"
  by (induction xs) (auto simp: step_failed)

lemma run_grows:
  "inv s \<Longrightarrow> list_all ok xs \<Longrightarrow> error s = 0 \<Longrightarrow> \<exists>s'. run_ops step xs s = Some s' \<and> inv s' \<and> (scarce s' \<longrightarrow> scarce s)
    \<and> (error s' = 0 \<and> content s' = content s @ concat (map entry xs)
      \<or> content s' = [] \<and> (error s' = SQLITE_TOOBIG \<and> limit \<le> length (content s @ concat (map entry xs))
                         \<or> error s' = SQLITE_NOMEM \<and> scarce s))"
proof (induction xs arbitrary: s)
  case (Cons x xs)
  then obtain s1 where s1: "step x s = Some s1" "inv s1" "scarce s1 \<longrightarrow> scarce s"
      "error s1 = 0 \<and> content s1 = content s @ entry x
        \<or> content s1 = [] \<and> (error s1 = SQLITE_TOOBIG \<and> limit \<le> length (content s @ entry x) \<or> error s1 = SQLITE_NOMEM \<and> scarce s)"
    using step_grows [of s x] by auto
  show ?case
  proof (cases "error s1 = 0")
    case True
    then show ?thesis using Cons.IH [OF s1(2)] Cons.prems s1 by auto
  next
    case False
    then show ?thesis using run_failed [OF s1(2) _ False] Cons.prems s1 by auto
  qed
qed simp

end

definition fixed_inv :: "blocks \<Rightarrow> nat \<Rightarrow> nat \<Rightarrow> sqlite3_str \<times> world \<Rightarrow> bool" where
  "fixed_inv M k cap = (\<lambda>(p, w). acc_inv p \<and> accounts k p w \<and> sizes_ok M \<and> mxAlloc p = 0 \<and> unat (nAlloc p) = cap + 1
     \<and> accError p \<in> {0, SQLITE_TOOBIG})"

definition growing_inv :: "blocks \<Rightarrow> nat \<Rightarrow> nat \<Rightarrow> sqlite3_str \<times> world \<Rightarrow> bool" where
  "growing_inv M k limit = (\<lambda>(p, w). acc_inv p \<and> accounts k p w \<and> sizes_ok M \<and> mxAlloc p \<noteq> 0 \<and> unat (mxAlloc p) = limit)"

interpretation fixed: fixed_log "str_step M" op_ok op_text "fixed_inv M k cap" "text_of \<circ> fst" "\<lambda>s. accError (fst s) \<noteq> 0" cap
  for M k cap
proof
  fix s x assume "fixed_inv M k cap s" "op_ok x"
  then obtain p w where s: "s = (p, w)" "acc_inv p" "accounts k p w" "sizes_ok M" "mxAlloc p = 0" "unat (nAlloc p) = cap + 1"
      "accError p \<in> {0, SQLITE_TOOBIG}"
    by (auto simp: fixed_inv_def)
  then obtain p' w' where a: "str_step M x (p, w) = Some (p', w')" "appended k p (op_text x) w p' w'"
    using str_step_appended [OF s(2-4) \<open>op_ok x\<close>] by force
  have "length (text_of p) = cap" if "accError p \<noteq> 0"
    using that s text_length [of p] by (auto simp: acc_inv_def buf_ok_def word_less_nat_alt split: option.splits)
  then show "\<exists>s'. str_step M x s = Some s' \<and> fixed_inv M k cap s' \<and> (text_of \<circ> fst) s' = take cap ((text_of \<circ> fst) s @ op_text x)
      \<and> (accError (fst s') \<noteq> 0 \<longleftrightarrow> accError (fst s) \<noteq> 0 \<or> cap < length ((text_of \<circ> fst) s @ op_text x))"
    using a s by (cases "accError p = 0") (auto simp: appended_def fixed_inv_def)
next
  fix s assume "fixed_inv M k cap s" "accError (fst s) \<noteq> 0"
  then show "length ((text_of \<circ> fst) s) = cap"
    using text_length [of "fst s"]
    by (auto simp: fixed_inv_def acc_inv_def buf_ok_def word_less_nat_alt split: option.splits)
qed

interpretation growing: growing_log "str_step M" op_ok op_text "growing_inv M k limit" "text_of \<circ> fst" "accError \<circ> fst"
    "\<lambda>s. \<not> plenty (heap (snd s))" limit
  for M k limit
proof
  fix s x assume "growing_inv M k limit s" "op_ok x"
  then obtain p w where s: "s = (p, w)" "acc_inv p" "accounts k p w" "sizes_ok M" "mxAlloc p \<noteq> 0" "unat (mxAlloc p) = limit"
    by (auto simp: growing_inv_def)
  then obtain p' w' where a: "str_step M x (p, w) = Some (p', w')" "appended k p (op_text x) w p' w'"
    using str_step_appended [OF s(2-4) \<open>op_ok x\<close>] by force
  show "str_step M x s = Some s" if "(accError \<circ> fst) s \<noteq> 0"
    using a s that by (simp add: appended_def)
  show "\<exists>s'. str_step M x s = Some s' \<and> growing_inv M k limit s' \<and> (\<not> plenty (heap (snd s')) \<longrightarrow> \<not> plenty (heap (snd s)))
      \<and> ((accError \<circ> fst) s' = 0 \<and> (text_of \<circ> fst) s' = (text_of \<circ> fst) s @ op_text x
        \<or> (text_of \<circ> fst) s' = [] \<and> ((accError \<circ> fst) s' = SQLITE_TOOBIG \<and> limit \<le> length ((text_of \<circ> fst) s @ op_text x)
            \<or> (accError \<circ> fst) s' = SQLITE_NOMEM \<and> \<not> plenty (heap (snd s))))" if "(accError \<circ> fst) s = 0"
    using a s that by (auto simp: appended_def growing_inv_def)
qed

section \<open>Finishing\<close>

lemma finish_growing:
  assumes p: "acc_inv p" "accounts k p w" "mxAlloc p \<noteq> 0" and M: "sizes_ok M"
  shows "\<exists>z p' w'. sqlite3StrAccumFinish M p w = Some (z, p', w')
    \<and> live (heap w') = k + (if z = None then 0 else 1)
    \<and> (\<forall>b. z = Some b \<longrightarrow> take (unat (nChar p) + 1) b = text_of p @ [0])
    \<and> (z = None \<longrightarrow> zText p = None \<or> \<not> plenty (heap w))"
proof (cases "zText p")
  case None
  then show ?thesis using p by (auto simp: sqlite3StrAccumFinish_def accounts_def acc_inv_def buf_ok_def)
next
  case (Some b)
  then have b: "length b = unat (nAlloc p)" "unat (nChar p) < length b" "unat (nAlloc p) < 2 ^ 31"
    using p by (auto simp: acc_inv_def buf_ok_def word_less_nat_alt)
  define b' where "b' = take (unat (nChar p)) b @ 0 # drop (unat (nChar p) + 1) b"
  have b': "put_bytes (Some b) (unat (nChar p)) [0] = Some (Some b')" "take (unat (nChar p) + 1) b' = text_of p @ [0]"
      "length b' = length b"
    using b Some by (simp_all add: put_bytes_def b'_def text_of_def)
  show ?thesis
  proof (cases "isMalloced p")
    case True
    then have "sqlite3StrAccumFinish M p w = Some (Some b', p\<lparr>zText := Some b'\<rparr>, w)"
      using Some b' by (simp add: sqlite3StrAccumFinish_def isMalloced_flag)
    then show ?thesis using True p b' by (simp add: accounts_def)
  next
    case False
    define q where "q = p\<lparr>zText := Some b'\<rparr>"
    have fin: "sqlite3StrAccumFinish M p w = strAccumFinishRealloc M q w"
      using False Some b' p(3) by (simp add: sqlite3StrAccumFinish_def isMalloced_flag q_def word_gt_0)
    have n: "unat (nChar p + 1) = unat (nChar p) + 1" "unat (nChar p) + 1 < 2 ^ 31"
      using b by (simp_all add: unat_word_ariths)
    obtain z w1 where 1: "realloc_block M None (unat (nChar p) + 1) w = (z, w1)" by fastforce
    show ?thesis
    proof (cases z)
      case None
      obtain p2 w2 where 2: "sqlite3StrAccumSetError q SQLITE_NOMEM w1 = (p2, w2)" by fastforce
      have "accounts k q w1" using p(2) realloc_cases [OF 1] None by (simp add: accounts_def isMalloced_flag q_def)
      then have "live (heap w2) = k" using set_error_dead [OF _ _ 2] p(3) by (auto simp: accounts_def dead_def q_def)
      moreover have "strAccumFinishRealloc M q w = Some (None, p2\<lparr>zText := None\<rparr>, w2)"
        using 1 2 None n by (simp add: strAccumFinishRealloc_def q_def)
      ultimately show ?thesis using fin realloc_cases [OF 1] None by simp
    next
      case Some
      then have z: "z = Some (fresh_block M [] (unat (nChar p) + 1))" "live (heap w1) = live (heap w) + 1"
        using realloc_cases [OF 1] by auto
      have g: "get_bytes (Some b') (unat (nChar p) + 1) = Some (text_of p @ [0])"
        using b b'(2,3) by (simp add: get_bytes_def)
      have "unat (nChar p) + 1 \<le> xSize M (unat (nChar p) + 1)" using M n(2) by (simp add: sizes_ok_def)
      then obtain c where c: "put_bytes z 0 (text_of p @ [0]) = Some (Some c)" "take (unat (nChar p) + 1) c = text_of p @ [0]"
        using z(1) length_fresh [OF M n(2), of "[]"] text_length [of p] p(1) by (simp add: put_bytes_def acc_inv_def)
      have "strAccumFinishRealloc M q w
          = Some (Some c, q\<lparr>printfFlags := printfFlags q OR SQLITE_PRINTF_MALLOCED, zText := Some c\<rparr>, w1)"
        using 1 z(1) n g c(1) by (simp add: strAccumFinishRealloc_def q_def)
      then show ?thesis using fin c(2) z(2) False p(2) by (simp add: accounts_def)
    qed
  qed
qed

section \<open>Whole lives\<close>

text \<open>Set-up, operations and \<open>sqlite3StrAccumFinish\<close>: the way the formatting functions use an accumulator.\<close>
definition collect :: "blocks \<Rightarrow> bool \<Rightarrow> bytes option \<Rightarrow> int \<Rightarrow> str_op list \<Rightarrow> world \<Rightarrow> (bytes option \<times> sqlite3_str \<times> world) option" where
  "collect M d zBase mx xs w = do {
     (p, w) \<leftarrow> run_ops (str_step M) xs (sqlite3StrAccumInit d zBase (case zBase of None \<Rightarrow> 0 | Some b \<Rightarrow> int (length b)) mx, w);
     sqlite3StrAccumFinish M p w }"

lemma init_inv:
  assumes "0 \<le> mx" "mx < 2 ^ 31" "case zBase of None \<Rightarrow> True | Some b \<Rightarrow> b \<noteq> [] \<and> length b < 2 ^ 31"
    and p_def: "p = sqlite3StrAccumInit d zBase (case zBase of None \<Rightarrow> 0 | Some b \<Rightarrow> int (length b)) mx"
  shows "acc_inv p" "accounts (live (heap w)) p w" "text_of p = []" "accError p = 0" "unat (mxAlloc p) = nat mx"
    "unat (nAlloc p) = (case zBase of None \<Rightarrow> 0 | Some b \<Rightarrow> length b)" "\<not> isMalloced p"
proof -
  have mx: "unat (word_of_int mx :: u32) = nat mx"
    using unat_u32_of_nat [of "nat mx"] assms(1,2) by (simp add: nat_less_iff)
  have n: "unat (word_of_nat (length b) :: u32) = length b" if "zBase = Some b" for b
    using assms(3) that by (simp add: unat_u32_of_nat)
  show "unat (mxAlloc p) = nat mx" "unat (nAlloc p) = (case zBase of None \<Rightarrow> 0 | Some b \<Rightarrow> length b)" "text_of p = []" "accError p = 0"
      "accounts (live (heap w)) p w" "\<not> isMalloced p"
    using mx n by (auto simp: p_def sqlite3StrAccumInit_def text_of_def accounts_def isMalloced_flag split: option.split)
  then show "acc_inv p"
    using mx n assms by (auto simp: p_def sqlite3StrAccumInit_def acc_inv_def buf_ok_def isMalloced_flag word_less_nat_alt
        nat_less_iff split: option.splits)
qed

text \<open>
  An accumulator that may grow, started on a stack buffer or on none, never writes outside its buffer and
  returns, whatever is appended in whatever pieces and whichever allocations fail: a zero-terminated copy of all that was
  appended in a heap block that now belongs to the caller, or no text, and then it holds no memory.  No text is
  returned only if nothing was appended, or the text reaches the limit, or an allocation failed.
\<close>
lemma collect_growing:
  assumes "sizes_ok M" "list_all op_ok xs" "0 < mx" "mx < 2 ^ 31"
    "case zBase of None \<Rightarrow> True | Some b \<Rightarrow> b \<noteq> [] \<and> length b < 2 ^ 31"
  shows "\<exists>z p' w'. collect M d zBase mx xs w = Some (z, p', w')
    \<and> live (heap w') = live (heap w) + (if z = None then 0 else 1)
    \<and> (\<forall>b. z = Some b \<longrightarrow> take (length (said xs) + 1) b = said xs @ [0])
    \<and> (z = None \<longrightarrow> said xs = [] \<or> mx \<le> int (length (said xs)) \<or> \<not> plenty (heap w))"
proof -
  define p where "p = sqlite3StrAccumInit d zBase (case zBase of None \<Rightarrow> 0 | Some b \<Rightarrow> int (length b)) mx"
  note init = init_inv [OF _ assms(4,5) p_def]
  have "growing_inv M (live (heap w)) (nat mx) (p, w)"
    using init assms by (auto simp: growing_inv_def simp flip: unat_eq_0)
  from growing.run_grows [OF this assms(2)] obtain p1 w1 where run: "run_ops (str_step M) xs (p, w) = Some (p1, w1)"
      "growing_inv M (live (heap w)) (nat mx) (p1, w1)" "plenty (heap w) \<longrightarrow> plenty (heap w1)" and
      out: "accError p1 = 0 \<and> text_of p1 = said xs
        \<or> text_of p1 = [] \<and> (accError p1 = SQLITE_TOOBIG \<and> nat mx \<le> length (said xs) \<or> accError p1 = SQLITE_NOMEM \<and> \<not> plenty (heap w))"
    using init assms(3) by (auto simp: said_def)
  have inv: "acc_inv p1" "accounts (live (heap w)) p1 w1" "mxAlloc p1 \<noteq> 0" using run(2) by (auto simp: growing_inv_def)
  obtain z p' w' where fin: "sqlite3StrAccumFinish M p1 w1 = Some (z, p', w')" "live (heap w') = live (heap w) + (if z = None then 0 else 1)"
      "\<forall>b. z = Some b \<longrightarrow> take (unat (nChar p1) + 1) b = text_of p1 @ [0]" "z = None \<longrightarrow> zText p1 = None \<or> \<not> plenty (heap w1)"
    using finish_growing [OF inv assms(1)] by auto
  have len: "unat (nChar p1) = length (text_of p1)" using text_length inv(1) by (simp add: acc_inv_def)
  have none: "accError p1 \<noteq> 0 \<Longrightarrow> z = None"
    using inv(1,3) fin(1) by (auto simp: acc_inv_def sqlite3StrAccumFinish_def)
  have empty: "zText p1 = None \<Longrightarrow> text_of p1 = []" by (simp add: text_of_def)
  have "collect M d zBase mx xs w = Some (z, p', w')" using run(1) fin(1) by (simp add: collect_def p_def)
  then show ?thesis using fin out none empty len run(3) by (auto simp: nat_le_iff)
qed

definition exact_blocks :: blocks where "exact_blocks = \<lparr>junk = \<lambda>_. 0, xSize = id\<rparr>"
definition fresh_world :: world where "fresh_world = \<lparr>heap = \<lparr>verdicts = [], live = 0\<rparr>, pParse = None\<rparr>"

lemma exact_blocks_ok: "sizes_ok exact_blocks" "plenty (heap fresh_world)"
  by (simp_all add: sizes_ok_def exact_blocks_def fresh_world_def plenty_def)

text \<open>
  C35. An accumulator on a fixed buffer of \<open>n\<close> bytes, as in \<open>sqlite3_snprintf\<close>, allocates nothing and never writes outside
  the buffer: at the end the buffer holds the first \<open>n - 1\<close> bytes of all that was appended, terminated, and the error
  \<open>SQLITE_TOOBIG\<close> is recorded exactly when that is not everything.
\<close>
theorem collect_truncates:
  assumes "sizes_ok M" "list_all op_ok xs" "b \<noteq> []" "length b < 2 ^ 31"
  shows "\<exists>b' p' w'. collect M d (Some b) 0 xs w = Some (Some b', p', w')
    \<and> length b' = length b \<and> live (heap w') = live (heap w)
    \<and> take (min (length (said xs)) (length b - 1) + 1) b' = take (length b - 1) (said xs) @ [0]
    \<and> (accError p' = (if length (said xs) < length b then 0 else SQLITE_TOOBIG))"
proof -
  define p where "p = sqlite3StrAccumInit d (Some b) (int (length b)) 0"
  have init: "acc_inv p" "accounts (live (heap w)) p w" "text_of p = []" "accError p = 0" "mxAlloc p = 0" "unat (nAlloc p) = length b" "\<not> isMalloced p"
    using init_inv [of 0 "Some b" p d] assms(3,4) by (simp_all add: p_def unat_eq_0)
  have "fixed_inv M (live (heap w)) (length b - 1) (p, w)" using init assms by (simp add: fixed_inv_def)
  from fixed.run_fixed [OF this assms(2)] obtain p1 w1 where run: "run_ops (str_step M) xs (p, w) = Some (p1, w1)"
      "fixed_inv M (live (heap w)) (length b - 1) (p1, w1)" "text_of p1 = take (length b - 1) (said xs)"
      "accError p1 \<noteq> 0 \<longleftrightarrow> length b - 1 < length (said xs)"
    using init by (auto simp: said_def)
  have p1: "acc_inv p1" "accounts (live (heap w)) p1 w1" "mxAlloc p1 = 0" "unat (nAlloc p1) = length b" "accError p1 \<in> {0, SQLITE_TOOBIG}"
    using run(2) assms(3) by (auto simp: fixed_inv_def)
  then obtain c where c: "zText p1 = Some c" "length c = length b" "unat (nChar p1) < length c" "\<not> isMalloced p1"
    using assms(3) by (auto simp: acc_inv_def buf_ok_def word_less_nat_alt split: option.splits)
  have len: "length (text_of p1) = unat (nChar p1)" using text_length p1(1) by (simp add: acc_inv_def)
  define c' where "c' = take (unat (nChar p1)) c @ 0 # drop (unat (nChar p1) + 1) c"
  have "sqlite3StrAccumFinish M p1 w1 = Some (Some c', p1\<lparr>zText := Some c'\<rparr>, w1)"
    using c p1(3) by (simp add: sqlite3StrAccumFinish_def put_bytes_def c'_def)
  then have "collect M d (Some b) 0 xs w = Some (Some c', p1\<lparr>zText := Some c'\<rparr>, w1)"
    using run(1) by (simp add: collect_def p_def)
  moreover have "take (unat (nChar p1) + 1) c' = text_of p1 @ [0]" "length c' = length b"
    using c by (simp_all add: c'_def text_of_def)
  moreover have "unat (nChar p1) = min (length (said xs)) (length b - 1)" using len run(3) by simp
  moreover have "length b - 1 < length (said xs) \<longleftrightarrow> \<not> length (said xs) < length b" using assms(3) by (cases b) auto
  ultimately show ?thesis using run(3,4) p1(2,5) c(4) by (auto simp: accounts_def)
qed

theorem collect_truncates_witness:
  "\<exists>b' p' w'. collect exact_blocks False (Some [1, 2, 3]) 0 [Append [65, 66], Append_Char 2 67] fresh_world = Some (Some b', p', w')
    \<and> take 3 b' = [65, 66, 0] \<and> accError p' = SQLITE_TOOBIG"
proof -
  have said: "said [Append [65, 66], Append_Char 2 67] = [65, 66, 67, 67]" by (simp add: said_def numeral_2_eq_2)
  show ?thesis unfolding numeral_3_eq_3
    using collect_truncates [of exact_blocks "[Append [65, 66], Append_Char 2 67]" "[1, 2, 3]" False fresh_world] exact_blocks_ok
    by (auto simp: said min_def)
qed

text \<open>
  A dynamic string of the interface, from \<open>sqlite3_str_new\<close> through appends to \<open>sqlite3_str_finish\<close>: operations on the
  static object that stands for a failed \<open>sqlite3_str_new\<close> do nothing.
\<close>
lemma oom_fields [simp]: "nAlloc sqlite3OomStr = 0" "nChar sqlite3OomStr = 0" "accError sqlite3OomStr = SQLITE_NOMEM"
  by (simp_all add: sqlite3OomStr_def)

lemma oom_str_inert: "str_step M x (sqlite3OomStr, w) = Some (sqlite3OomStr, w)"
  by (cases x) (simp_all add: enlarge_error enlargeAndAppend_def sqlite3_str_append_def sqlite3_str_appendall_def
      sqlite3_str_appendchar_def Let_def)

definition str_limit :: "int option \<Rightarrow> int" where
  "str_limit aLimit = (case aLimit of None \<Rightarrow> SQLITE_MAX_LENGTH | Some l \<Rightarrow> l)"

definition build_str :: "blocks \<Rightarrow> int option \<Rightarrow> str_op list \<Rightarrow> world \<Rightarrow> (bytes option \<times> world) option" where
  "build_str M aLimit xs w =
     (case sqlite3_str_new aLimit w of
        (Heap_Str p, w) \<Rightarrow> do { (p, w) \<leftarrow> run_ops (str_step M) xs (p, w); sqlite3_str_finish M (Heap_Str p) w }
      | (Oom_Str, w) \<Rightarrow> do { (p, w) \<leftarrow> run_ops (str_step M) xs (sqlite3OomStr, w); sqlite3_str_finish M Oom_Str w }
      | (Null_Str, w) \<Rightarrow> None)"

lemma oom_run: "run_ops (str_step M) xs (sqlite3OomStr, w) = Some (sqlite3OomStr, w)"
  by (induction xs) (simp_all add: oom_str_inert)

text \<open>
  C34. A dynamic string, created by \<open>sqlite3_str_new\<close>, filled by appends in whatever pieces and closed by
  \<open>sqlite3_str_finish\<close>, never touches memory outside its buffer, whichever allocations fail.  At the end the object is freed
  and the result is a zero-terminated copy of all that was appended, the one block that remains, or null with nothing
  left behind.  It is null only if nothing was appended, the text reaches the length limit, or an allocation failed.
\<close>
theorem build_str_life:
  assumes "sizes_ok M" "list_all op_ok xs" "0 < str_limit aLimit" "str_limit aLimit < 2 ^ 31"
  shows "\<exists>z w'. build_str M aLimit xs w = Some (z, w') \<and> live (heap w') = live (heap w) + (if z = None then 0 else 1)
    \<and> (\<forall>b. z = Some b \<longrightarrow> take (length (said xs) + 1) b = said xs @ [0])
    \<and> (z = None \<longrightarrow> said xs = [] \<or> str_limit aLimit \<le> int (length (said xs)) \<or> \<not> plenty (heap w))"
proof (cases "alloc_block (heap w)")
  case (Pair ok al)
  show ?thesis
  proof (cases ok)
    case True
    define w1 where "w1 = w\<lparr>heap := al\<rparr>"
    have w1: "live (heap w1) = live (heap w) + 1" "plenty (heap w) \<Longrightarrow> plenty (heap w1)"
      using live_alloc [OF Pair] plenty_alloc [OF _ Pair] True by (auto simp: w1_def)
    obtain z p' w2 where c: "collect M False None (str_limit aLimit) xs w1 = Some (z, p', w2)"
        "live (heap w2) = live (heap w1) + (if z = None then 0 else 1)"
        "\<forall>b. z = Some b \<longrightarrow> take (length (said xs) + 1) b = said xs @ [0]"
        "z = None \<longrightarrow> said xs = [] \<or> str_limit aLimit \<le> int (length (said xs)) \<or> \<not> plenty (heap w1)"
      using collect_growing [OF assms, of None False w1] by auto
    have "build_str M aLimit xs w = Some (z, w2\<lparr>heap := free_block (heap w2)\<rparr>)"
      using c(1) Pair True
      by (auto simp: build_str_def sqlite3_str_new_def collect_def sqlite3_str_finish_def str_limit_def w1_def
          split: bind_splits)
    then show ?thesis using c w1 by auto
  next
    case False
    then have "\<not> plenty (heap w)" "live al = live (heap w)" using plenty_alloc [OF _ Pair] live_alloc [OF Pair] by auto
    then show ?thesis using Pair False
      by (simp add: build_str_def sqlite3_str_new_def sqlite3_str_finish_def oom_run)
  qed
qed

theorem build_str_life_witness:
  "\<exists>b w'. build_str exact_blocks None [Append [65, 66], Append_Char 2 67] fresh_world = Some (Some b, w')
    \<and> take 5 b = [65, 66, 67, 67, 0] \<and> live (heap w') = 1"
proof -
  have said: "said [Append [65, 66], Append_Char 2 67] = [65, 66, 67, 67]" by (simp add: said_def numeral_2_eq_2)
  have five: "5 = Suc (Suc (Suc (Suc (Suc 0))))" by simp
  have lim: "str_limit None = 1000000000" by (simp add: str_limit_def SQLITE_MAX_LENGTH_def)
  have none: "live (heap fresh_world) = 0" by (simp add: fresh_world_def)
  show ?thesis unfolding five
    using build_str_life [of exact_blocks "[Append [65, 66], Append_Char 2 67]" None fresh_world] exact_blocks_ok
    by (auto simp: said lim none)
qed

end
