(* ===== verification/Format.thy ===== *)
theory Format
  imports Str_Accum Utf Keyword
begin

text \<open>
  Formatted printing (\<open>src/db/sqlite3.c\<close>, \<open>sqlite3_str_vappendf\<close> of \<open>printf.c\<close> and the functions that call it): the loop
  over the format, the flags, and the integer, character, string and SQL-quoting conversions, with their conversion
  buffers.  The floating-point conversions and the two that print parser objects are the argument \<open>X\<close>.  A result
  \<open>None\<close> is an access outside a buffer or an argument that is missing or of another type than the format says.
\<close>

section \<open>Conversion types\<close>

datatype et_type = etRADIX | etFLOAT | etEXP | etGENERIC | etSIZE | etSTRING | etDYNSTRING | etPERCENT | etCHARX
  | etSQLESCAPE | etSQLESCAPE2 | etTOKEN | etSRCITEM | etPOINTER | etSQLESCAPE3 | etORDINAL | etDECIMAL | etINVALID

record et_info =
  fmttype :: u8
  base :: nat
  flags :: nat
  type :: et_type
  charset :: nat
  prefix :: nat

definition FLAG_SIGNED :: nat where "FLAG_SIGNED = 1"

definition aDigits :: bytes where
  "aDigits = ascii ''0123456789ABCDEF0123456789abcdef''"

definition aPrefix :: bytes where
  "aPrefix = [0x2d, 0x78, 0x30, 0, 0x58, 0x30, 0]"

definition et :: "char \<Rightarrow> nat \<Rightarrow> nat \<Rightarrow> et_type \<Rightarrow> nat \<Rightarrow> nat \<Rightarrow> et_info" where
  "et c b f t s p = \<lparr>fmttype = of_char c, base = b, flags = f, type = t, charset = s, prefix = p\<rparr>"

definition fmtinfo :: "et_info list" where
  "fmtinfo =
    [et CHR ''d'' 10 1 etDECIMAL 0 0, et CHR ''s'' 0 4 etSTRING 0 0, et CHR ''g'' 0 1 etGENERIC 30 0,
     et CHR ''z'' 0 4 etDYNSTRING 0 0, et CHR ''q'' 0 4 etSQLESCAPE 0 0, et CHR ''Q'' 0 4 etSQLESCAPE2 0 0,
     et CHR ''w'' 0 4 etSQLESCAPE3 0 0, et CHR ''c'' 0 0 etCHARX 0 0, et CHR ''o'' 8 0 etRADIX 0 2,
     et CHR ''u'' 10 0 etDECIMAL 0 0, et CHR ''x'' 16 0 etRADIX 16 1, et CHR ''X'' 16 0 etRADIX 0 4,
     et CHR ''f'' 0 1 etFLOAT 0 0, et CHR ''e'' 0 1 etEXP 30 0, et CHR ''E'' 0 1 etEXP 14 0,
     et CHR ''G'' 0 1 etGENERIC 14 0, et CHR ''i'' 10 1 etDECIMAL 0 0, et CHR ''n'' 0 0 etSIZE 0 0,
     et CHR ''%'' 0 0 etPERCENT 0 0, et CHR ''p'' 16 0 etPOINTER 0 1, et CHR ''T'' 0 0 etTOKEN 0 0,
     et CHR ''S'' 0 0 etSRCITEM 0 0, et CHR ''r'' 10 1 etORDINAL 0 0]"

text \<open>The entry of a conversion character, and its type; the first entry stands in for none.\<close>
definition find_info :: "u8 \<Rightarrow> et_info \<times> et_type" where
  "find_info c =
     (case find (\<lambda>i. fmttype i = c) fmtinfo of
        Some i \<Rightarrow> (i, type i)
      | None \<Rightarrow> (fmtinfo ! 0, etINVALID))"

section \<open>Arguments\<close>

text \<open>
  What a \<open>va_list\<close> or the argument list of an SQL function holds: an integer, a string that is not released, a string in
  a heap block, a pointer for \<open>%n\<close>, or an SQL value given by what \<open>sqlite3_value_int64\<close> and \<open>sqlite3_value_text\<close> read.
\<close>
datatype printf_arg = Arg_Int int | Arg_Text "bytes option" | Arg_Block bytes | Arg_Pointer
  | Arg_Value int "bytes option"

text \<open>\<open>va_arg\<close> of an integer, or \<open>getIntArg\<close>, which reads 0 past the end.\<close>
definition getIntArg :: "bool \<Rightarrow> printf_arg list \<Rightarrow> (int \<times> printf_arg list) option" where
  "getIntArg bArgList args =
     (case args of
        [] \<Rightarrow> if bArgList then Some (0, []) else None
      | Arg_Int v # args \<Rightarrow> if bArgList then None else Some (v, args)
      | Arg_Value v t # args \<Rightarrow> if bArgList then Some (v, args) else None
      | _ \<Rightarrow> None)"

text \<open>\<open>va_arg\<close> of a string, or \<open>getTextArg\<close>; with the string, whether it is in a heap block.\<close>
definition getTextArg :: "bool \<Rightarrow> printf_arg list \<Rightarrow> (bytes option \<times> bool \<times> printf_arg list) option" where
  "getTextArg bArgList args =
     (case args of
        [] \<Rightarrow> if bArgList then Some (None, False, []) else None
      | Arg_Text t # args \<Rightarrow> if bArgList then None else Some (t, False, args)
      | Arg_Block t # args \<Rightarrow> if bArgList then None else Some (Some t, True, args)
      | Arg_Value v t # args \<Rightarrow> if bArgList then Some (t, False, args) else None
      | _ \<Rightarrow> None)"

section \<open>Flags\<close>

record fspec =
  flag_leftjustify :: bool
  flag_prefix :: u8
  flag_alternateform :: bool
  flag_altform2 :: bool
  flag_zeropad :: bool
  flag_long :: nat
  cThousand :: u8
  width :: int
  precision :: int

definition no_flags :: fspec where
  "no_flags = \<lparr>flag_leftjustify = False, flag_prefix = 0, flag_alternateform = False, flag_altform2 = False,
     flag_zeropad = False, flag_long = 0, cThousand = 0, width = 0, precision = - 1\<rparr>"

definition spec_digit :: "u8 \<Rightarrow> bool" where
  "spec_digit c \<longleftrightarrow> 0x30 \<le> c \<and> c \<le> 0x39"

text \<open>\<open>wx = wx*10 + c - '0'\<close> over the digits, in \<open>unsigned\<close> arithmetic.\<close>
definition read_number :: "bytes \<Rightarrow> u32" where
  "read_number ds = foldl (\<lambda>wx c. wx * 10 + ucast c - 0x30) 0 ds"

definition spec_number :: "bytes \<Rightarrow> int" where
  "spec_number ds = uint (read_number ds AND 0x7fffffff)"

text \<open>A negative width means left justification.\<close>
definition star_width :: "fspec \<Rightarrow> int \<Rightarrow> fspec" where
  "star_width s v =
     (let v = to_i32 v in
      if v < 0 then s\<lparr>flag_leftjustify := True, width := if v \<ge> - 2147483647 then - v else 0\<rparr>
      else s\<lparr>width := v\<rparr>)"

definition star_precision :: "fspec \<Rightarrow> int \<Rightarrow> fspec" where
  "star_precision s v =
     (let v = to_i32 v in
      s\<lparr>precision := if v < 0 then (if v \<ge> - 2147483647 then - v else - 1) else v\<rparr>)"

text \<open>The flags of one character.\<close>
definition simple_flag :: "u8 \<Rightarrow> fspec \<Rightarrow> fspec option" where
  "simple_flag c s =
     (if c = 0x2d then Some (s\<lparr>flag_leftjustify := True\<rparr>)
      else if c = 0x2b then Some (s\<lparr>flag_prefix := 0x2b\<rparr>)
      else if c = 0x20 then Some (s\<lparr>flag_prefix := 0x20\<rparr>)
      else if c = 0x23 then Some (s\<lparr>flag_alternateform := True\<rparr>)
      else if c = 0x21 then Some (s\<lparr>flag_altform2 := True\<rparr>)
      else if c = 0x30 then Some (s\<lparr>flag_zeropad := True\<rparr>)
      else if c = 0x2c then Some (s\<lparr>cThousand := 0x2c\<rparr>)
      else None)"

text \<open>The \<open>l\<close> and \<open>ll\<close> modifiers end the loop.\<close>
definition long_flag :: "bytes \<Rightarrow> fspec \<Rightarrow> fspec \<times> u8 \<times> bytes" where
  "long_flag z s =
     (if first z = 0x6c then (s\<lparr>flag_long := 2\<rparr>, first (tl z), tl (tl z))
      else (s\<lparr>flag_long := 1\<rparr>, first z, tl z))"

lemma dropWhile_shorter: "dropWhile P z = d # r \<Longrightarrow> length r < length z"
  using length_dropWhile_le [of P z] by simp

lemma tl_shorter: "tl z = d # r \<Longrightarrow> length r < length z"
  by (cases z) auto

text \<open>
  The loop over the flags: \<open>c\<close> is the current character and \<open>z\<close> what follows it.  The result has the conversion
  character, which is 0 at the end of the format, and what follows that.
\<close>
function parse_spec ::
    "bool \<Rightarrow> u8 \<Rightarrow> bytes \<Rightarrow> printf_arg list \<Rightarrow> fspec \<Rightarrow> ((fspec \<times> u8 \<times> bytes) \<times> printf_arg list) option" where
  "parse_spec bArgList c z args s =
     (case simple_flag c s of
        Some s \<Rightarrow> (case z of [] \<Rightarrow> Some ((s, 0, []), args) | d # z \<Rightarrow> parse_spec bArgList d z args s)
      | None \<Rightarrow>
          if c = 0x6c then Some (long_flag z s, args)
          else if spec_digit c then
            (let s = s\<lparr>width := spec_number (c # takeWhile spec_digit z)\<rparr>
             in case dropWhile spec_digit z of
                  [] \<Rightarrow> Some ((s, 0, []), args)
                | d # z \<Rightarrow> if d = 0x2e \<or> d = 0x6c then parse_spec bArgList d z args s else Some ((s, d, z), args))
          else if c = 0x2a then
            (case getIntArg bArgList args of
               None \<Rightarrow> None
             | Some (v, args) \<Rightarrow>
                 (case z of
                    [] \<Rightarrow> Some ((star_width s v, 0, []), args)
                  | d # z \<Rightarrow> if d = 0x2e \<or> d = 0x6c then parse_spec bArgList d z args (star_width s v)
                             else Some ((star_width s v, d, z), args)))
          else if c = 0x2e then
            (if first z = 0x2a then
               (case getIntArg bArgList args of
                  None \<Rightarrow> None
                | Some (v, args) \<Rightarrow>
                    (case tl z of
                       [] \<Rightarrow> Some ((star_precision s v, 0, []), args)
                     | d # z \<Rightarrow> if d = 0x6c then parse_spec bArgList d z args (star_precision s v)
                                else Some ((star_precision s v, d, z), args)))
             else
               (let s = s\<lparr>precision := spec_number (takeWhile spec_digit z)\<rparr>
                in case dropWhile spec_digit z of
                     [] \<Rightarrow> Some ((s, 0, []), args)
                   | d # z \<Rightarrow> if d = 0x6c then parse_spec bArgList d z args s else Some ((s, d, z), args)))
          else Some ((s, c, z), args))"
  by pat_completeness auto

termination
  by (relation "measure (\<lambda>(b, c, z, args, s). length z)") (auto dest: dropWhile_shorter tl_shorter)

declare parse_spec.simps [simp del]

text \<open>The rest of the format is no longer than what followed the first character.\<close>
definition leaves :: "nat \<Rightarrow> ((fspec \<times> u8 \<times> bytes) \<times> printf_arg list) option \<Rightarrow> bool" where
  "leaves n r \<longleftrightarrow> (case r of None \<Rightarrow> True | Some ((s, c, z), args) \<Rightarrow> length z \<le> n)"

lemma leaves_simps [simp]:
  "leaves n None" "leaves n (Some ((s, c, z), args)) \<longleftrightarrow> length z \<le> n" "leaves (length z) (Some (long_flag z s, args))"
proof -
  have "length (tl z) \<le> length z" "length (tl (tl z)) \<le> length z" by (cases z; simp)+
  then show "leaves n None" "leaves n (Some ((s, c, z), args)) \<longleftrightarrow> length z \<le> n" "leaves (length z) (Some (long_flag z s, args))"
    by (simp_all add: leaves_def long_flag_def)
qed

lemma leaves_cases:
  "(P \<Longrightarrow> leaves n a) \<Longrightarrow> (\<not> P \<Longrightarrow> leaves n b) \<Longrightarrow> leaves n (if P then a else b)"
  "(ys = [] \<Longrightarrow> leaves n a) \<Longrightarrow> (\<And>d r. ys = d # r \<Longrightarrow> leaves n (f d r)) \<Longrightarrow> leaves n (case ys of [] \<Rightarrow> a | d # r \<Rightarrow> f d r)"
  "(x = None \<Longrightarrow> leaves n a) \<Longrightarrow> (\<And>y. x = Some y \<Longrightarrow> leaves n (g y)) \<Longrightarrow> leaves n (case x of None \<Rightarrow> a | Some y \<Rightarrow> g y)"
  "(\<And>u v. p = (u, v) \<Longrightarrow> leaves n (h u v)) \<Longrightarrow> leaves n (case p of (u, v) \<Rightarrow> h u v)"
  by (auto split: list.split option.split prod.split)

lemma parse_spec_leaves: "leaves (length z) (parse_spec b c z args s)"
proof (induction "length z" arbitrary: c z args s rule: less_induct)
  case less
  define n where "n = length z"
  have rec: "leaves n (parse_spec b d r args s)" if "length r < n" for d r args s
    using less [of r d args s] that by (auto simp: leaves_def n_def split: option.splits)
  have long: "leaves n (Some (long_flag z s, args))" for s args unfolding n_def by simp
  have shorter: "z = d # r \<Longrightarrow> length r < n" "tl z = d # r \<Longrightarrow> length r < n" "dropWhile P z = d # r \<Longrightarrow> length r < n" for d r P
    using dropWhile_shorter [of P z d r] tl_shorter [of z d r] by (auto simp: n_def)
  have keep: "length r < n \<Longrightarrow> leaves n (Some ((s, d, r), args))" for r s d args by simp
  have "leaves n (parse_spec b c z args s)"
    by (subst parse_spec.simps, unfold Let_def, intro leaves_cases)
      ((rule rec, erule shorter) | (rule keep, erule shorter) | rule long | simp add: n_def)+
  then show ?case by (simp add: n_def)
qed

section \<open>Conversion buffers\<close>

definition etBUFSIZE :: nat where "etBUFSIZE = 70"

text \<open>\<open>*(--bufpt) = c\<close> in a buffer of \<open>nOut\<close> bytes whose last byte is left alone; \<open>t\<close> is the text from \<open>bufpt\<close> on.\<close>
definition push :: "nat \<Rightarrow> u8 \<Rightarrow> bytes \<Rightarrow> bytes option" where
  "push nOut c t = (if length t + 1 < nOut then Some (c # t) else None)"

text \<open>Room for a conversion of \<open>n\<close> bytes that does not fit the buffer on the stack: \<open>True\<close> when there is.\<close>
definition printfTempBuf :: "sqlite3_str \<Rightarrow> int \<Rightarrow> world \<Rightarrow> bool \<times> sqlite3_str \<times> world" where
  "printfTempBuf p n w =
     (if accError p \<noteq> 0 then (False, p, w)
      else if n > uint (nAlloc p) \<and> n > uint (mxAlloc p) then
        (False, sqlite3StrAccumSetError p SQLITE_TOOBIG w)
      else case alloc_block (heap w) of (ok, al) \<Rightarrow>
        if ok then (True, p, w\<lparr>heap := al\<rparr>)
        else (False, sqlite3StrAccumSetError p SQLITE_NOMEM (w\<lparr>heap := al\<rparr>)))"

section \<open>Integers\<close>

text \<open>The argument as \<open>va_arg\<close> reads it: as \<open>int\<close>, \<open>long\<close> (64 bits if \<open>lp64\<close>) or \<open>i64\<close>; an SQL integer is an \<open>i64\<close>.\<close>
definition signed_arg :: "bool \<Rightarrow> bool \<Rightarrow> nat \<Rightarrow> int \<Rightarrow> int" where
  "signed_arg lp64 bArgList flag v =
     (if bArgList \<or> flag = 2 \<or> flag = 1 \<and> lp64 then to_i64 v else to_i32 v)"

definition unsigned_arg :: "bool \<Rightarrow> bool \<Rightarrow> nat \<Rightarrow> int \<Rightarrow> u64" where
  "unsigned_arg lp64 bArgList flag v =
     (if bArgList \<or> flag = 2 \<or> flag = 1 \<and> lp64 then word_of_int v else ucast (word_of_int v :: u32))"

text \<open>The magnitude and the sign character.\<close>
definition int_value :: "bool \<Rightarrow> bool \<Rightarrow> et_info \<Rightarrow> fspec \<Rightarrow> int \<Rightarrow> u64 \<times> u8" where
  "int_value lp64 bArgList info s v =
     (if flags info AND FLAG_SIGNED \<noteq> 0 then
        (let v = signed_arg lp64 bArgList (flag_long s) v in
         if v < 0 then (NOT (word_of_int v) + 1, 0x2d) else (word_of_int v, flag_prefix s))
      else (unsigned_arg lp64 bArgList (flag_long s) v, 0))"

definition zOrd :: bytes where
  "zOrd = ascii ''thstndrd''"

definition ordinal_suffix :: "nat \<Rightarrow> nat \<Rightarrow> bytes \<Rightarrow> bytes option" where
  "ordinal_suffix nOut n t =
     (let x = n mod 10; x = (if x \<ge> 4 \<or> n div 10 mod 10 = 1 then 0 else x) in do {
        t \<leftarrow> push nOut (zOrd ! (x * 2 + 1)) t;
        push nOut (zOrd ! (x * 2)) t })"

text \<open>The digits from the last to the first; with a base below 2 the loop would not end.\<close>
function digits_loop :: "nat \<Rightarrow> nat \<Rightarrow> bytes \<Rightarrow> nat \<Rightarrow> bytes \<Rightarrow> bytes option" where
  "digits_loop nOut b cset n t =
     (if b < 2 then None
      else case push nOut (cset ! (n mod b)) t of
        None \<Rightarrow> None
      | Some t \<Rightarrow> if n div b > 0 then digits_loop nOut b cset (n div b) t else Some t)"
  by pat_completeness auto
termination
  by (relation "measure (\<lambda>(nOut, b, cset, n, t). n)") (auto intro!: div_less_dividend gr0I)

declare digits_loop.simps [simp del]

fun pad_loop :: "nat \<Rightarrow> nat \<Rightarrow> bytes \<Rightarrow> bytes option" where
  "pad_loop nOut 0 t = Some t"
| "pad_loop nOut (Suc k) t = do { t \<leftarrow> push nOut 0x30 t; pad_loop nOut k t }"

text \<open>
  The thousands separators: the digits move to the left over \<open>nn\<close> free bytes.  \<open>a\<close> is the buffer from \<open>bufpt\<close> on.
\<close>
function comma_loop :: "u8 \<Rightarrow> nat \<Rightarrow> nat \<Rightarrow> nat \<Rightarrow> bytes \<Rightarrow> bytes option" where
  "comma_loop ct idx nn ix a =
     (if nn = 0 then Some a
      else if \<not> idx + nn < length a then None
      else
        let a = a[idx := a ! (idx + nn)]
        in if ix \<le> 1 then comma_loop ct (idx + 2) (nn - 1) 3 (a[idx + 1 := ct])
           else comma_loop ct (idx + 1) nn (ix - 1) a)"
  by pat_completeness auto
termination
  by (relation "measure (\<lambda>(ct, idx, nn, ix, a). length a - idx)") auto

declare comma_loop.simps [simp del]

definition add_commas :: "nat \<Rightarrow> u8 \<Rightarrow> bytes \<Rightarrow> bytes option" where
  "add_commas nOut ct t =
     (let nn = (length t - 1) div 3; ix = (length t - 1) mod 3 + 1
      in if nn + length t < nOut then comma_loop ct 0 nn ix (replicate nn 0 @ t) else None)"

fun push_all :: "nat \<Rightarrow> bytes \<Rightarrow> bytes \<Rightarrow> bytes option" where
  "push_all nOut [] t = Some t"
| "push_all nOut (x # pre) t = do { t \<leftarrow> push nOut x t; push_all nOut pre t }"

text \<open>The text of an integer in a buffer of \<open>nOut\<close> bytes.\<close>
definition int_text :: "nat \<Rightarrow> et_info \<Rightarrow> bool \<Rightarrow> u8 \<Rightarrow> u8 \<Rightarrow> bool \<Rightarrow> int \<Rightarrow> nat \<Rightarrow> bytes option" where
  "int_text nOut info ordinal ct sgn_char alt prec n = do {
     t \<leftarrow> (if ordinal then ordinal_suffix nOut n [] else Some []);
     t \<leftarrow> digits_loop nOut (base info) (drop (charset info) aDigits) n t;
     t \<leftarrow> pad_loop nOut (nat prec - length t) t;
     t \<leftarrow> (if ct \<noteq> 0 then add_commas nOut ct t else Some t);
     t \<leftarrow> (if sgn_char \<noteq> 0 then push nOut sgn_char t else Some t);
     if alt \<and> prefix info \<noteq> 0 then push_all nOut (takeWhile (\<lambda>x. x \<noteq> 0) (drop (prefix info) aPrefix)) t else Some t }"

text \<open>
  What a conversion leaves for the output step: it ends the whole function, or it gives the text, the remaining field
  width, and whether the text is in a temporary block.
\<close>
datatype conv = Quit sqlite3_str world | Field bytes int bool sqlite3_str world

text \<open>With the \<open>0\<close> flag the digits fill the field.\<close>
definition int_precision :: "fspec \<Rightarrow> u8 \<Rightarrow> int" where
  "int_precision s pre =
     (let field = width s - (if pre \<noteq> 0 then 1 else 0)
      in if flag_zeropad s \<and> precision s < field then field else precision s)"

text \<open>The choice of the buffer, in which \<open>text\<close> makes the digits and all that surrounds them.\<close>
definition int_buffer :: "(nat \<Rightarrow> bytes option) \<Rightarrow> u8 \<Rightarrow> int \<Rightarrow> int \<Rightarrow> sqlite3_str \<Rightarrow> world \<Rightarrow> conv option" where
  "int_buffer text ct prec wd p w =
     (if prec < int (etBUFSIZE - 10 - etBUFSIZE div 3) then do { t \<leftarrow> text etBUFSIZE; Some (Field t wd False p w) }
      else
        let n = prec + 10 + (if ct \<noteq> 0 then prec div 3 else 0)
        in case printfTempBuf p n w of
             (False, p, w) \<Rightarrow> Some (Quit p w)
           | (True, p, w) \<Rightarrow> do { t \<leftarrow> text (nat (to_i32 n)); Some (Field t wd True p w) })"

definition int_conv :: "bool \<Rightarrow> bool \<Rightarrow> et_info \<Rightarrow> et_type \<Rightarrow> fspec \<Rightarrow> int \<Rightarrow> sqlite3_str \<Rightarrow> world \<Rightarrow> conv option" where
  "int_conv lp64 bArgList info xtype s v p w =
     (let s = (if xtype = etPOINTER then s\<lparr>flag_long := 2\<rparr> else s);
          ct = (if xtype = etDECIMAL then cThousand s else 0);
          (longvalue, pre) = int_value lp64 bArgList info s v;
          alt = (flag_alternateform s \<and> longvalue \<noteq> 0);
          prec = int_precision s pre
      in int_buffer (\<lambda>nOut. int_text nOut info (xtype = etORDINAL) ct pre alt prec (unat longvalue)) ct prec (width s) p w)"

section \<open>Strings\<close>

fun skip_chars :: "nat \<Rightarrow> bytes \<Rightarrow> bytes" where
  "skip_chars 0 z = z"
| "skip_chars (Suc n) z = (if first z = 0 then z else skip_chars n (SQLITE_SKIP_UTF8 z))"

text \<open>The bytes of the string that are printed.\<close>
definition str_part :: "fspec \<Rightarrow> bytes \<Rightarrow> bytes" where
  "str_part s z =
     (if precision s \<ge> 0 then
        if flag_altform2 s then take (length z - length (skip_chars (nat (precision s)) z)) z
        else take (nat (precision s)) z
      else take (unat (word_of_nat (length z) AND (0x7fffffff :: u32))) z)"

text \<open>With the \<open>!\<close> flag a width counts characters.\<close>
definition adjust_width_for_utf8 :: "bool \<Rightarrow> int \<Rightarrow> bytes \<Rightarrow> int" where
  "adjust_width_for_utf8 altform2 wd t =
     (if altform2 \<and> wd > 0 then to_i32 (wd + int (length (filter (\<lambda>b. b AND 0xc0 = 0x80) t))) else wd)"

text \<open>\<open>%z\<close> as the first output takes over the block of its argument.\<close>
definition adopt_block :: "blocks \<Rightarrow> bytes \<Rightarrow> sqlite3_str \<Rightarrow> sqlite3_str" where
  "adopt_block M z p =
     (let b = fresh_block M (z @ [0]) (length z + 1)
      in p\<lparr>zText := Some b, nAlloc := word_of_nat (length b), nChar := word_of_nat (length z) AND 0x7fffffff,
           printfFlags := printfFlags p OR SQLITE_PRINTF_MALLOCED\<rparr>)"

definition str_conv :: "blocks \<Rightarrow> bool \<Rightarrow> et_type \<Rightarrow> fspec \<Rightarrow> bytes option \<Rightarrow> bool \<Rightarrow> sqlite3_str \<Rightarrow> world \<Rightarrow> conv option" where
  "str_conv M bArgList xtype s arg block p w =
     (let dynamic = (xtype = etDYNSTRING \<and> \<not> bArgList)
      in case arg of
           None \<Rightarrow> Some (Field [] (width s) False p w)
         | Some z \<Rightarrow>
             if dynamic \<and> \<not> block then None
             else if dynamic \<and> nChar p = 0 \<and> mxAlloc p \<noteq> 0 \<and> width s = 0 \<and> precision s < 0 \<and> accError p = 0
             then Some (Field [] 0 False (adopt_block M z p) w)
             else
               (let t = str_part s z
                in Some (Field t (adjust_width_for_utf8 (flag_altform2 s) (width s) t) dynamic p w)))"

section \<open>Quoted strings\<close>

text \<open>
  The first pass of \<open>%q\<close>, \<open>%Q\<close> and \<open>%w\<close>: how many bytes of the string are taken when the precision is \<open>k\<close> (negative:
  all), and how many quotes are among them.
\<close>
function esc_scan :: "bool \<Rightarrow> u8 \<Rightarrow> int \<Rightarrow> bytes \<Rightarrow> nat \<times> nat" where
  "esc_scan altform2 q k z =
     (if k = 0 \<or> z = [] then (0, 0)
      else
        let ch = hd z;
            more = (if altform2 \<and> ch AND 0xc0 = 0xc0 then length (takeWhile (\<lambda>b. b AND 0xc0 = 0x80) (tl z)) else 0);
            (i, n) = esc_scan altform2 q (k - 1) (drop (more + 1) z)
        in (i + more + 1, n + (if ch = q then 1 else 0)))"
  by pat_completeness auto
termination
  by (relation "measure (\<lambda>(altform2, q, k, z). length z)") auto

declare esc_scan.simps [simp del]

text \<open>The second pass writes upwards into a buffer of \<open>cap\<close> bytes; \<open>out\<close> is what is written so far.\<close>
definition write_up :: "nat \<Rightarrow> bytes \<Rightarrow> u8 \<Rightarrow> bytes option" where
  "write_up cap out c = (if length out < cap then Some (out @ [c]) else None)"

fun esc_copy :: "nat \<Rightarrow> u8 \<Rightarrow> bytes \<Rightarrow> bytes \<Rightarrow> bytes option" where
  "esc_copy cap q [] out = Some out"
| "esc_copy cap q (ch # z) out = do {
     out \<leftarrow> write_up cap out ch;
     out \<leftarrow> (if ch = q then write_up cap out ch else Some out);
     esc_copy cap q z out }"

definition esc_text :: "nat \<Rightarrow> u8 \<Rightarrow> bool \<Rightarrow> bytes \<Rightarrow> bytes option" where
  "esc_text cap q needQuote z = do {
     out \<leftarrow> (if needQuote then write_up cap [] q else Some []);
     out \<leftarrow> esc_copy cap q z out;
     out \<leftarrow> (if needQuote then write_up cap out q else Some out);
     _ \<leftarrow> write_up cap out 0;
     Some out }"

definition esc_conv :: "et_type \<Rightarrow> fspec \<Rightarrow> bytes option \<Rightarrow> sqlite3_str \<Rightarrow> world \<Rightarrow> conv option" where
  "esc_conv xtype s arg p w =
     (let q = (if xtype = etSQLESCAPE3 then 0x22 else 0x27);
          escarg = (case arg of Some z \<Rightarrow> z | None \<Rightarrow> if xtype = etSQLESCAPE2 then ascii ''NULL'' else ascii ''(NULL)'');
          (i, n) = esc_scan (flag_altform2 s) q (precision s) escarg;
          needQuote = (arg \<noteq> None \<and> xtype = etSQLESCAPE2);
          n = n + i + 3;
          field = (\<lambda>t. Field t (adjust_width_for_utf8 (flag_altform2 s) (width s) t))
      in if n > etBUFSIZE then
           (case printfTempBuf p (int n) w of
              (False, p, w) \<Rightarrow> Some (Quit p w)
            | (True, p, w) \<Rightarrow> do { t \<leftarrow> esc_text n q needQuote (take i escarg); Some (field t True p w) })
         else do { t \<leftarrow> esc_text etBUFSIZE q needQuote (take i escarg); Some (field t False p w) })"

section \<open>Characters\<close>

text \<open>The bytes of the character: the first character of an SQL text, or the UTF-8 form of a code point.\<close>
definition char_of_text :: "bytes option \<Rightarrow> bytes" where
  "char_of_text arg =
     (case arg of
        None \<Rightarrow> [0]
      | Some z \<Rightarrow>
          let c = first z
          in if c AND 0xc0 = 0xc0 then c # take 3 (takeWhile (\<lambda>b. b AND 0xc0 = 0x80) (tl z)) else [c])"

definition char_of_code :: "u32 \<Rightarrow> bytes" where
  "char_of_code ch =
     (if ch < 0x00080 then [ucast (ch AND 0xff)]
      else if ch < 0x00800 then [0xc0 + ucast (drop_bit 6 ch AND 0x1f), 0x80 + ucast (ch AND 0x3f)]
      else if ch < 0x10000 then
        [0xe0 + ucast (drop_bit 12 ch AND 0x0f), 0x80 + ucast (drop_bit 6 ch AND 0x3f), 0x80 + ucast (ch AND 0x3f)]
      else
        [0xf0 + ucast (drop_bit 18 ch AND 0x07), 0x80 + ucast (drop_bit 12 ch AND 0x3f),
         0x80 + ucast (drop_bit 6 ch AND 0x3f), 0x80 + ucast (ch AND 0x3f)])"

definition get_last :: "sqlite3_str \<Rightarrow> nat \<Rightarrow> bytes option" where
  "get_last p n =
     (if n \<le> unat (nChar p)
      then map_option (drop (unat (nChar p) - n)) (get_bytes (zText p) (unat (nChar p)))
      else None)"

text \<open>
  The copies for a precision: each turn appends again the last \<open>nPrior\<close> characters, twice as many as before.
  The count starts at 1; with none the loop would not end.
\<close>
function repeat_loop :: "blocks \<Rightarrow> nat \<Rightarrow> int \<Rightarrow> int \<Rightarrow> sqlite3_str \<Rightarrow> world \<Rightarrow> (sqlite3_str \<times> world) option" where
  "repeat_loop M len prec nPrior p w =
     (if \<not> prec > 1 then Some (p, w)
      else if nPrior \<le> 0 then None
      else
        let nPrior = (if nPrior > prec - 1 then prec - 1 else nPrior);
            nCopyBytes = int len * nPrior
        in case (if nCopyBytes + uint (nChar p) \<ge> uint (nAlloc p) then sqlite3StrAccumEnlarge M p nCopyBytes w
                 else Some (0, p, w)) of
             None \<Rightarrow> None
           | Some (_, p, w) \<Rightarrow>
               if accError p \<noteq> 0 then Some (p, w)
               else case get_last p (nat nCopyBytes) of
                 None \<Rightarrow> None
               | Some z \<Rightarrow>
                   case sqlite3_str_append M p z w of
                     None \<Rightarrow> None
                   | Some (p, w) \<Rightarrow> repeat_loop M len (prec - nPrior) (nPrior * 2) p w)"
  by pat_completeness auto
termination
  by (relation "measure (\<lambda>(M, len, prec, nPrior, p, w). nat prec)") (auto split: if_splits)

declare repeat_loop.simps [simp del]

definition char_conv :: "blocks \<Rightarrow> fspec \<Rightarrow> bytes \<Rightarrow> sqlite3_str \<Rightarrow> world \<Rightarrow> conv option" where
  "char_conv M s buf p w = do {
     (wd, p, w) \<leftarrow>
       (if precision s > 1 then
          (let wd = width s - (precision s - 1) in do {
             (wd, p, w) \<leftarrow>
               (if wd > 1 \<and> \<not> flag_leftjustify s
                then do { (p, w) \<leftarrow> sqlite3_str_appendchar M p (wd - 1) 0x20 w; Some (0, p, w) }
                else Some (wd, p, w));
             (p, w) \<leftarrow> sqlite3_str_append M p buf w;
             (p, w) \<leftarrow> repeat_loop M (length buf) (precision s - 1) 1 p w;
             Some (wd, p, w) })
        else Some (width s, p, w));
     Some (Field buf (adjust_width_for_utf8 True wd buf) False p w) }"

section \<open>The loop over the format\<close>

text \<open>The output step, with the release of the temporary block.\<close>
definition put_field :: "blocks \<Rightarrow> bool \<Rightarrow> bytes \<Rightarrow> int \<Rightarrow> bool \<Rightarrow> sqlite3_str \<Rightarrow> world \<Rightarrow> (sqlite3_str \<times> world) option" where
  "put_field M left t wd zExtra p w =
     (let wd = to_i32 (wd - int (length t)) in do {
        (p, w) \<leftarrow>
          (if wd > 0 then do {
             (p, w) \<leftarrow> (if \<not> left then sqlite3_str_appendchar M p wd 0x20 w else Some (p, w));
             (p, w) \<leftarrow> sqlite3_str_append M p t w;
             if left then sqlite3_str_appendchar M p wd 0x20 w else Some (p, w) }
           else sqlite3_str_append M p t w);
        Some (p, if zExtra then w\<lparr>heap := free_block (heap w)\<rparr> else w) })"

text \<open>The conversions this theory leaves out: what they give for a type, an entry, flags and arguments.\<close>
type_synonym other_conv =
  "et_type \<Rightarrow> et_info \<Rightarrow> fspec \<Rightarrow> printf_arg list \<Rightarrow> sqlite3_str \<Rightarrow> world \<Rightarrow> (conv \<times> printf_arg list) option"

text \<open>The switch over the conversion type; the number that \<open>%n\<close> stores through its pointer is not kept.\<close>
definition convert :: "blocks \<Rightarrow> bool \<Rightarrow> other_conv \<Rightarrow> bool \<Rightarrow> et_info \<Rightarrow> et_type \<Rightarrow> fspec \<Rightarrow> printf_arg list \<Rightarrow> sqlite3_str \<Rightarrow> world
    \<Rightarrow> (conv \<times> printf_arg list) option" where
  "convert M lp64 X bArgList info xtype s args p w =
     (case xtype of
        etINVALID \<Rightarrow> Some (Quit p w, args)
      | etFLOAT \<Rightarrow> X xtype info s args p w
      | etEXP \<Rightarrow> X xtype info s args p w
      | etGENERIC \<Rightarrow> X xtype info s args p w
      | etTOKEN \<Rightarrow> if printfFlags p AND SQLITE_PRINTF_INTERNAL = 0 then Some (Quit p w, args) else X xtype info s args p w
      | etSRCITEM \<Rightarrow> if printfFlags p AND SQLITE_PRINTF_INTERNAL = 0 then Some (Quit p w, args) else X xtype info s args p w
      | etSIZE \<Rightarrow>
          (if bArgList then Some (Field [] 0 False p w, args)
           else case args of Arg_Pointer # args \<Rightarrow> Some (Field [] 0 False p w, args) | _ \<Rightarrow> None)
      | etPERCENT \<Rightarrow> Some (Field [0x25] (width s) False p w, args)
      | etCHARX \<Rightarrow>
          (if bArgList then do {
             (z, block, args) \<leftarrow> getTextArg bArgList args;
             c \<leftarrow> char_conv M s (char_of_text z) p w;
             Some (c, args) }
           else do {
             (v, args) \<leftarrow> getIntArg bArgList args;
             c \<leftarrow> char_conv M s (char_of_code (word_of_int v)) p w;
             Some (c, args) })
      | etSTRING \<Rightarrow> do {
          (z, block, args) \<leftarrow> getTextArg bArgList args;
          c \<leftarrow> str_conv M bArgList xtype s z block p w;
          Some (c, args) }
      | etDYNSTRING \<Rightarrow> do {
          (z, block, args) \<leftarrow> getTextArg bArgList args;
          c \<leftarrow> str_conv M bArgList xtype s z block p w;
          Some (c, args) }
      | etSQLESCAPE \<Rightarrow> do {
          (z, block, args) \<leftarrow> getTextArg bArgList args;
          c \<leftarrow> esc_conv xtype s z p w;
          Some (c, args) }
      | etSQLESCAPE2 \<Rightarrow> do {
          (z, block, args) \<leftarrow> getTextArg bArgList args;
          c \<leftarrow> esc_conv xtype s z p w;
          Some (c, args) }
      | etSQLESCAPE3 \<Rightarrow> do {
          (z, block, args) \<leftarrow> getTextArg bArgList args;
          c \<leftarrow> esc_conv xtype s z p w;
          Some (c, args) }
      | _ \<Rightarrow> do {
          (v, args) \<leftarrow> getIntArg bArgList args;
          c \<leftarrow> int_conv lp64 bArgList info xtype s v p w;
          Some (c, args) })"

text \<open>
  One conversion: \<open>z\<close> is the format after the percent sign.  With the new state comes the rest of the format, or \<open>None\<close>
  when the function returns.
\<close>
definition directive :: "blocks \<Rightarrow> bool \<Rightarrow> other_conv \<Rightarrow> bool \<Rightarrow> bytes \<Rightarrow> printf_arg list \<Rightarrow> sqlite3_str \<Rightarrow> world
    \<Rightarrow> (bytes option \<times> printf_arg list \<times> sqlite3_str \<times> world) option" where
  "directive M lp64 X bArgList z args p w =
     (case z of
        [] \<Rightarrow> do { (p, w) \<leftarrow> sqlite3_str_append M p [0x25] w; Some (None, args, p, w) }
      | c # z \<Rightarrow> do {
          ((s, c, z), args) \<leftarrow> parse_spec bArgList c z args no_flags;
          (r, args) \<leftarrow> convert M lp64 X bArgList (fst (find_info c)) (snd (find_info c)) s args p w;
          case r of
            Quit p w \<Rightarrow> Some (None, args, p, w)
          | Field t wd zExtra p w \<Rightarrow> do {
              (p, w) \<leftarrow> put_field M (flag_leftjustify s) t wd zExtra p w;
              Some (Some z, args, p, w) } })"

lemma directive_rest:
  assumes "directive M lp64 X b z args p w = Some (Some r, args', p', w')"
  shows "length r < length z"
proof (cases z)
  case (Cons c y)
  then obtain s c' a where "parse_spec b c y args no_flags = Some ((s, c', r), a)"
    using assms by (auto simp: directive_def split: bind_splits conv.splits)
  then show ?thesis using parse_spec_leaves [of y b c args no_flags] Cons by simp
qed (use assms in \<open>auto simp: directive_def split: bind_splits\<close>)

function format_loop :: "blocks \<Rightarrow> bool \<Rightarrow> other_conv \<Rightarrow> bool \<Rightarrow> bytes \<Rightarrow> printf_arg list \<Rightarrow> sqlite3_str \<Rightarrow> world
    \<Rightarrow> (printf_arg list \<times> sqlite3_str \<times> world) option" where
  "format_loop M lp64 X bArgList fmt args p w =
     (if fmt = [] then Some (args, p, w)
      else
        let lit = takeWhile (\<lambda>c. c \<noteq> 0x25) fmt
        in case (if lit \<noteq> [] then sqlite3_str_append M p lit w else Some (p, w)) of
             None \<Rightarrow> None
           | Some (p, w) \<Rightarrow>
               case dropWhile (\<lambda>c. c \<noteq> 0x25) fmt of
                 [] \<Rightarrow> Some (args, p, w)
               | c # z \<Rightarrow>
                   case directive M lp64 X bArgList z args p w of
                     None \<Rightarrow> None
                   | Some (None, args, p, w) \<Rightarrow> Some (args, p, w)
                   | Some (Some fmt, args, p, w) \<Rightarrow> format_loop M lp64 X bArgList fmt args p w)"
  by pat_completeness auto
termination
  by (relation "measure (\<lambda>(M, lp64, X, b, fmt, args, p, w). length fmt)") (auto dest!: directive_rest dropWhile_shorter)

declare format_loop.simps [simp del]

definition sqlite3_str_vappendf :: "blocks \<Rightarrow> bool \<Rightarrow> other_conv \<Rightarrow> sqlite3_str \<Rightarrow> bytes \<Rightarrow> printf_arg list \<Rightarrow> world
    \<Rightarrow> (printf_arg list \<times> sqlite3_str \<times> world) option" where
  "sqlite3_str_vappendf M lp64 X p fmt args w =
     format_loop M lp64 X (printfFlags p AND SQLITE_PRINTF_SQLFUNC \<noteq> 0) fmt args p w"

section \<open>Its callers\<close>

definition sqlite3_vmprintf :: "blocks \<Rightarrow> bool \<Rightarrow> other_conv \<Rightarrow> bytes \<Rightarrow> printf_arg list \<Rightarrow> world \<Rightarrow> (bytes option \<times> world) option" where
  "sqlite3_vmprintf M lp64 X fmt args w = do {
     (args, p, w) \<leftarrow> sqlite3_str_vappendf M lp64 X
       (sqlite3StrAccumInit False (Some (map (junk M) [0..<etBUFSIZE])) (int etBUFSIZE) SQLITE_MAX_LENGTH) fmt args w;
     (z, p, w) \<leftarrow> sqlite3StrAccumFinish M p w;
     Some (z, w) }"

text \<open>The length limit of the connection is \<open>limit\<close>; the result tells too whether memory ran out.\<close>
definition sqlite3VMPrintf :: "blocks \<Rightarrow> bool \<Rightarrow> other_conv \<Rightarrow> int \<Rightarrow> bytes \<Rightarrow> printf_arg list \<Rightarrow> world
    \<Rightarrow> (bytes option \<times> bool \<times> world) option" where
  "sqlite3VMPrintf M lp64 X limit fmt args w = do {
     (args, p, w) \<leftarrow> sqlite3_str_vappendf M lp64 X
       ((sqlite3StrAccumInit True (Some (map (junk M) [0..<etBUFSIZE])) (int etBUFSIZE) limit)\<lparr>printfFlags := SQLITE_PRINTF_INTERNAL\<rparr>)
       fmt args w;
     (z, p, w) \<leftarrow> sqlite3StrAccumFinish M p w;
     Some (z, accError p = SQLITE_NOMEM, w) }"

text \<open>Printing into the buffer \<open>zBuf\<close> of \<open>n\<close> bytes.\<close>
definition sqlite3_vsnprintf :: "blocks \<Rightarrow> bool \<Rightarrow> other_conv \<Rightarrow> int \<Rightarrow> bytes \<Rightarrow> bytes \<Rightarrow> printf_arg list \<Rightarrow> world
    \<Rightarrow> (bytes option \<times> world) option" where
  "sqlite3_vsnprintf M lp64 X n zBuf fmt args w =
     (if n \<le> 0 then Some (Some zBuf, w)
      else do {
        (args, p, w) \<leftarrow> sqlite3_str_vappendf M lp64 X (sqlite3StrAccumInit False (Some zBuf) n 0) fmt args w;
        z \<leftarrow> put_bytes (zText p) (unat (nChar p)) [0];
        Some (z, w) })"

end
