(* ===== verification/Format_Correct.thy ===== *)
theory Format_Correct
  imports Format
begin

text \<open>
  Formatted printing without its buffers.  \<open>render\<close> gives the text of a format and its arguments with the flags, widths and
  argument sizes read as the code reads them, but without accumulator, conversion buffers and passes; it is defined for
  all conversions but \<open>%f\<close>, \<open>%e\<close>, \<open>%g\<close>, \<open>%T\<close>, \<open>%S\<close> and a \<open>%z\<close> of a C argument.  The lemmas show that on a growing
  accumulator \<open>sqlite3_str_vappendf\<close> and its callers produce that text whichever allocations fail, inside
  their buffers and without losing memory.  What the text is, independently of the code, is the subject of \<open>Format_Items\<close>.
\<close>

section \<open>The text of a conversion\<close>

text \<open>Digits in a base, most significant first.\<close>
fun digits_in :: "nat \<Rightarrow> bytes \<Rightarrow> nat \<Rightarrow> bytes" where
  "digits_in b cset n = (if n < b \<or> b < 2 then [cset ! n] else digits_in b cset (n div b) @ [cset ! (n mod b)])"

declare digits_in.simps [simp del]

text \<open>A separator before every group of three, counted from the right.\<close>
fun group3 :: "u8 \<Rightarrow> bytes \<Rightarrow> bytes" where
  "group3 ct ds = (if length ds \<le> 3 then ds else group3 ct (take (length ds - 3) ds) @ ct # drop (length ds - 3) ds)"

declare group3.simps [simp del]

definition ordinal_ending :: "nat \<Rightarrow> bytes" where
  "ordinal_ending n =
     (if n div 10 mod 10 = 1 then ascii ''th''
      else if n mod 10 = 1 then ascii ''st'' else if n mod 10 = 2 then ascii ''nd'' else if n mod 10 = 3 then ascii ''rd''
      else ascii ''th'')"

definition int_ref :: "et_info \<Rightarrow> bool \<Rightarrow> u8 \<Rightarrow> u8 \<Rightarrow> bool \<Rightarrow> int \<Rightarrow> nat \<Rightarrow> bytes" where
  "int_ref info ordinal ct sgn_char alt prec n =
     (let ds = digits_in (base info) (drop (charset info) aDigits) n @ (if ordinal then ordinal_ending n else []);
          ds = replicate (nat prec - length ds) 0x30 @ ds;
          ds = (if ct \<noteq> 0 then group3 ct ds else ds);
          ds = (if sgn_char \<noteq> 0 then [sgn_char] else []) @ ds
      in (if alt \<and> prefix info \<noteq> 0 then rev (takeWhile (\<lambda>x. x \<noteq> 0) (drop (prefix info) aPrefix)) else []) @ ds)"

lemma digits_loop_eq:
  "2 \<le> b \<Longrightarrow> length (digits_in b cset n) + length t < nOut \<Longrightarrow> digits_loop nOut b cset n t = Some (digits_in b cset n @ t)"
proof (induction nOut b cset n t rule: digits_loop.induct)
  case (1 nOut b cset n t)
  show ?case
  proof (cases "n < b")
    case True
    then show ?thesis using 1 by (simp add: digits_loop.simps [of nOut b] digits_in.simps [of b cset n] push_def)
  next
    case False
    then have d: "digits_in b cset n = digits_in b cset (n div b) @ [cset ! (n mod b)]" and "n div b > 0"
      using "1.prems"(1) by (simp_all add: digits_in.simps [of b cset n] div_greater_zero_iff)
    then have p: "push nOut (cset ! (n mod b)) t = Some (cset ! (n mod b) # t)"
      using "1.prems"(2) by (auto simp: push_def)
    show ?thesis using "1.IH" [OF _ p \<open>n div b > 0\<close>] "1.prems" d p \<open>n div b > 0\<close>
      by (simp add: digits_loop.simps [of nOut b cset n t])
  qed
qed

lemma pad_loop_eq: "k + length t < nOut \<Longrightarrow> pad_loop nOut k t = Some (replicate k 0x30 @ t)"
  by (induction k arbitrary: t) (auto simp: push_def replicate_app_Cons_same)

lemma push_all_eq: "length pre + length t < nOut \<Longrightarrow> push_all nOut pre t = Some (rev pre @ t)"
  by (induction pre arbitrary: t) (auto simp: push_def)

lemma ordinal_texts:
  "zOrd = [0x74, 0x68, 0x73, 0x74, 0x6e, 0x64, 0x72, 0x64]"
  "ascii ''th'' = [0x74, 0x68]" "ascii ''st'' = [0x73, 0x74]" "ascii ''nd'' = [0x6e, 0x64]" "ascii ''rd'' = [0x72, 0x64]"
  by (simp_all add: zOrd_def ascii_def)

lemma ordinal_suffix_eq: "2 < nOut \<Longrightarrow> ordinal_suffix nOut n [] = Some (ordinal_ending n)"
proof -
  assume n: "2 < nOut"
  consider "n div 10 mod 10 = 1 \<or> 4 \<le> n mod 10" | "n div 10 mod 10 \<noteq> 1" "n mod 10 = 0" | "n div 10 mod 10 \<noteq> 1" "n mod 10 = 1"
    | "n div 10 mod 10 \<noteq> 1" "n mod 10 = 2" | "n div 10 mod 10 \<noteq> 1" "n mod 10 = 3"
    by linarith
  then show ?thesis
    using n by cases (auto simp: ordinal_suffix_def ordinal_ending_def push_def ordinal_texts Let_def)
qed

subsection \<open>Separators\<close>

fun spread :: "u8 \<Rightarrow> nat \<Rightarrow> nat \<Rightarrow> bytes \<Rightarrow> bytes" where
  "spread ct 0 ix ds = ds"
| "spread ct (Suc nn) ix ds = take ix ds @ ct # spread ct nn 3 (drop ix ds)"

lemma group3_head:
  "length ds = ix + 3 * Suc nn \<Longrightarrow> 1 \<le> ix \<Longrightarrow> ix \<le> 3 \<Longrightarrow> group3 ct ds = take ix ds @ ct # group3 ct (drop ix ds)"
proof (induction nn arbitrary: ds)
  case 0
  then show ?case by (simp add: group3.simps [of ct ds] group3.simps [of ct "take ix ds"] group3.simps [of ct "drop ix ds"])
next
  case (Suc nn)
  let ?l = "length ds - 3"
  have "group3 ct (take ?l ds) = take ix ds @ ct # group3 ct (drop ix (take ?l ds))"
    using Suc.IH [of "take ?l ds"] Suc.prems by (simp add: min_def)
  moreover have "drop ix (take ?l ds) = take (length (drop ix ds) - 3) (drop ix ds)" using Suc.prems by (simp add: drop_take)
  moreover have "drop ?l ds = drop (length (drop ix ds) - 3) (drop ix ds)" using Suc.prems by (simp add: ac_simps)
  ultimately show ?case
    using Suc.prems by (simp add: group3.simps [of ct ds] group3.simps [of ct "drop ix ds"])
qed

lemma spread_group3:
  "length ds = ix + 3 * nn \<Longrightarrow> 1 \<le> ix \<Longrightarrow> ix \<le> 3 \<Longrightarrow> spread ct nn ix ds = group3 ct ds"
proof (induction nn arbitrary: ix ds)
  case 0
  then show ?case by (simp add: group3.simps)
next
  case (Suc nn)
  then show ?case using group3_head [of ds ix nn ct] by simp
qed

lemma comma_loop_eq:
  assumes "length a = idx + nn + ix + 3 * nn" "1 \<le> ix" "ix \<le> 3"
  shows "comma_loop ct idx nn ix a = Some (take idx a @ spread ct nn ix (drop (idx + nn) a))"
  using assms
proof (induction ct idx nn ix a rule: comma_loop.induct)
  case (1 ct idx nn ix a)
  show ?case
  proof (cases nn)
    case 0
    then show ?thesis by (simp add: comma_loop.simps)
  next
    case (Suc m)
    define x where "x = a ! (idx + nn)"
    have i: "idx + nn < length a" using "1.prems" Suc by simp
    have rest: "drop (idx + nn) a = x # drop (idx + nn + 1) a" using Cons_nth_drop_Suc [OF i] by (simp add: x_def)
    have take: "take (Suc idx) (a[idx := x]) = take idx a @ [x]" using i by (simp add: take_Suc_conv_app_nth)
    show ?thesis
    proof (cases "ix \<le> 1")
      case True
      have "comma_loop ct idx nn ix a = comma_loop ct (idx + 2) m 3 (a[idx := x, idx + 1 := ct])"
        by (subst comma_loop.simps) (use True Suc i in \<open>simp add: x_def Let_def\<close>)
      also have "\<dots> = Some (take (idx + 2) (a[idx := x, idx + 1 := ct]) @ spread ct m 3 (drop (idx + 2 + m) (a[idx := x, idx + 1 := ct])))"
        using "1.IH"(1) [OF _ _ refl True] "1.prems" Suc i True by (simp add: x_def)
      also have "take (idx + 2) (a[idx := x, idx + 1 := ct]) = take idx a @ [x, ct]"
        using i Suc take by (simp add: take_Suc_conv_app_nth [of "Suc idx"])
      finally have "comma_loop ct idx nn ix a = Some (take idx a @ x # ct # spread ct m 3 (drop (idx + 2 + m) a))" by simp
      moreover have "ix = 1" using True "1.prems" by simp
      ultimately show ?thesis using Suc rest by simp
    next
      case False
      have "comma_loop ct idx nn ix a = comma_loop ct (idx + 1) nn (ix - 1) (a[idx := x])"
        by (subst comma_loop.simps) (use False Suc i in \<open>simp add: x_def Let_def\<close>)
      also have "\<dots> = Some (take (idx + 1) (a[idx := x]) @ spread ct nn (ix - 1) (drop (idx + 1 + nn) (a[idx := x])))"
        using "1.IH"(2) [OF _ _ refl False] "1.prems" Suc i False by (simp add: x_def)
      finally show ?thesis using False Suc rest take by (cases ix) auto
    qed
  qed
qed

lemma length_group3: "length (group3 ct ds) = length ds + (length ds - 1) div 3"
proof (induction ct ds rule: group3.induct)
  case (1 ct ds)
  show ?case
  proof (cases "length ds \<le> 3")
    case True
    then show ?thesis by (simp add: group3.simps [of ct ds])
  next
    case False
    have "(length ds - 1) div 3 = (length ds - 3 - 1) div 3 + 1" using False by (simp add: div_eq_dividend_iff)
    moreover have "length (take (length ds - 3) ds) = length ds - 3" unfolding length_take by (rule min_absorb2) simp
    ultimately show ?thesis using False 1 by (simp add: group3.simps [of ct ds])
  qed
qed

lemma add_commas_eq:
  assumes "ds \<noteq> []" "length (group3 ct ds) < nOut"
  shows "add_commas nOut ct ds = Some (group3 ct ds)"
proof -
  let ?nn = "(length ds - 1) div 3" and ?ix = "(length ds - 1) mod 3 + 1"
  have len: "length ds = ?ix + 3 * ?nn" using assms(1) mod_mult_div_eq [of "length ds - 1" 3] by (cases ds) auto
  have "(length ds - 1) mod 3 < 3" by simp
  then have ix: "1 \<le> ?ix" "?ix \<le> 3" by linarith+
  have "comma_loop ct 0 ?nn ?ix (replicate ?nn 0 @ ds) = Some (spread ct ?nn ?ix ds)"
    using comma_loop_eq [of "replicate ?nn 0 @ ds" 0 ?nn ?ix ct] len ix by simp
  then show ?thesis using assms(2) spread_group3 [OF len ix] by (simp add: add_commas_def length_group3 Let_def)
qed

subsection \<open>Integers\<close>

lemma int_text_ref:
  assumes "2 \<le> base info" "length (int_ref info ordinal ct sg alt prec n) < nOut" "2 < nOut"
  shows "int_text nOut info ordinal ct sg alt prec n = Some (int_ref info ordinal ct sg alt prec n)"
proof -
  define od where "od = (if ordinal then ordinal_ending n else [])"
  define ds where "ds = digits_in (base info) (drop (charset info) aDigits) n @ od"
  define ps where "ps = replicate (nat prec - length ds) 0x30 @ ds"
  define gs where "gs = (if ct \<noteq> 0 then group3 ct ps else ps)"
  define ss where "ss = (if sg \<noteq> 0 then [sg] else []) @ gs"
  define pre where "pre = (if alt \<and> prefix info \<noteq> 0 then takeWhile (\<lambda>x. x \<noteq> 0) (drop (prefix info) aPrefix) else [])"
  have ref: "int_ref info ordinal ct sg alt prec n = rev pre @ ss"
    by (simp add: int_ref_def od_def ds_def ps_def gs_def ss_def pre_def Let_def)
  have gs: "length gs = length ps + (if ct \<noteq> 0 then (length ps - 1) div 3 else 0)" by (simp add: gs_def length_group3)
  have ne: "ps \<noteq> []" by (simp add: ps_def ds_def digits_in.simps [of "base info" "drop (charset info) aDigits" n])
  have le: "length pre + length ss < nOut" "length gs < nOut" "length ps < nOut" "length ds < nOut" "nat prec - length ds + length ds < nOut"
    using assms(2) ref gs by (auto simp: ss_def ps_def)
  have "(if ordinal then ordinal_suffix nOut n [] else Some []) = Some od"
    using ordinal_suffix_eq [OF assms(3)] by (simp add: od_def)
  moreover have "digits_loop nOut (base info) (drop (charset info) aDigits) n od = Some ds"
    using digits_loop_eq [OF assms(1)] le(4) by (simp add: ds_def)
  moreover have "pad_loop nOut (nat prec - length ds) ds = Some ps" using pad_loop_eq le(5) by (simp add: ps_def)
  moreover have "(if ct \<noteq> 0 then add_commas nOut ct ps else Some ps) = Some gs"
    using add_commas_eq [OF ne, of ct nOut] le(2) by (simp add: gs_def split: if_splits)
  moreover have "(if sg \<noteq> 0 then push nOut sg gs else Some gs) = Some ss"
    using le(1) by (simp add: ss_def push_def split: if_splits)
  moreover have "(if alt \<and> prefix info \<noteq> 0 then push_all nOut (takeWhile (\<lambda>x. x \<noteq> 0) (drop (prefix info) aPrefix)) ss else Some ss)
      = Some (rev pre @ ss)"
    using push_all_eq [of pre ss nOut] le(1) by (cases "alt \<and> prefix info \<noteq> 0") (auto simp: pre_def)
  ultimately show ?thesis unfolding int_text_def ref by (simp only: bind.bind_lunit)
qed

lemma length_digits_in: "2 \<le> b \<Longrightarrow> n < b ^ k \<Longrightarrow> 0 < k \<Longrightarrow> length (digits_in b cset n) \<le> k"
proof (induction k arbitrary: n)
  case (Suc k)
  show ?case
  proof (cases "n < b")
    case False
    then have "n div b < b ^ k" "0 < k" using Suc.prems by (auto simp: less_mult_imp_div_less mult.commute intro!: gr0I)
    then show ?thesis using Suc.IH [of "n div b"] Suc.prems False by (simp add: digits_in.simps [of b cset n])
  qed (simp add: digits_in.simps)
qed simp

lemma length_int_ref:
  assumes "8 \<le> base info" "prefix info \<noteq> 0 \<Longrightarrow> length (takeWhile (\<lambda>x. x \<noteq> 0) (drop (prefix info) aPrefix)) \<le> 2" "n < 2 ^ 64"
  shows "length (int_ref info ordinal ct sg alt prec n)
    \<le> max (nat prec) 24 + (if ct \<noteq> 0 then (max (nat prec) 24 - 1) div 3 else 0) + 3"
proof -
  have "n < 8 ^ 22" using assms(3) by simp
  also have "\<dots> \<le> base info ^ 22" using assms(1) by (intro power_mono) simp_all
  finally have d: "length (digits_in (base info) (drop (charset info) aDigits) n) \<le> 22"
    using length_digits_in [of "base info" n 22] assms(1) by simp
  define ds where "ds = digits_in (base info) (drop (charset info) aDigits) n @ (if ordinal then ordinal_ending n else [])"
  have "length (ordinal_ending n) = 2" by (simp add: ordinal_ending_def ordinal_texts)
  then have ds: "length ds \<le> 24" using d by (simp add: ds_def)
  define ps where "ps = replicate (nat prec - length ds) 0x30 @ ds"
  have ps: "length ps \<le> max (nat prec) 24" using ds by (auto simp: ps_def)
  then have "(length ps - 1) div 3 \<le> (max (nat prec) 24 - 1) div 3" by (intro div_le_mono diff_le_mono)
  then have gs: "length (if ct \<noteq> 0 then group3 ct ps else ps)
      \<le> max (nat prec) 24 + (if ct \<noteq> 0 then (max (nat prec) 24 - 1) div 3 else 0)"
    using ps length_group3 [of ct ps] by (cases "ct = 0") (simp_all del: max_less_iff_conj)
  have "length (if sg \<noteq> 0 then [sg] else []) \<le> 1" by simp
  moreover have "length (if alt \<and> prefix info \<noteq> 0 then rev (takeWhile (\<lambda>x. x \<noteq> 0) (drop (prefix info) aPrefix)) else []) \<le> 2"
    using assms(2) by auto
  ultimately show ?thesis
    using gs unfolding int_ref_def Let_def ds_def [symmetric] ps_def [symmetric] length_append by linarith
qed

subsection \<open>Quoting\<close>

text \<open>Quotes doubled.\<close>
definition doubled :: "u8 \<Rightarrow> bytes \<Rightarrow> bytes" where
  "doubled q z = concat (map (\<lambda>c. if c = q then [c, c] else [c]) z)"

lemma length_doubled: "length (doubled q z) = length z + count_list z q"
  by (induction z) (auto simp: doubled_def)

text \<open>The continuation bytes that go with a byte.\<close>
definition tail_of :: "bool \<Rightarrow> u8 \<Rightarrow> bytes \<Rightarrow> bytes" where
  "tail_of a ch r = (if a \<and> ch AND 0xc0 = 0xc0 then takeWhile (\<lambda>b. b AND 0xc0 = 0x80) r else [])"

lemma tail_of_split: "tail_of a ch r @ drop (length (tail_of a ch r)) r = r"
  by (simp add: tail_of_def dropWhile_eq_drop [symmetric])

lemma tail_of_quote: "q = 0x22 \<or> q = 0x27 \<Longrightarrow> q \<notin> set (tail_of a ch r)"
  using set_takeWhileD [of q "\<lambda>b. b AND 0xc0 = 0x80" r] by (auto simp: tail_of_def)

lemma esc_scan_Nil: "esc_scan a q k [] = (0, 0)"
  by (simp add: esc_scan.simps)

lemma esc_scan_Cons:
  "esc_scan a q k (ch # r) =
     (if k = 0 then (0, 0)
      else case esc_scan a q (k - 1) (drop (length (tail_of a ch r)) r) of
        (i, n) \<Rightarrow> (i + length (tail_of a ch r) + 1, n + (if ch = q then 1 else 0)))"
  by (subst esc_scan.simps) (auto simp: tail_of_def Let_def split: prod.split)

lemma esc_scan_count:
  assumes "q = 0x22 \<or> q = 0x27"
  shows "fst (esc_scan a q k z) \<le> length z \<and> snd (esc_scan a q k z) = count_list (take (fst (esc_scan a q k z)) z) q"
proof (induction "length z" arbitrary: k z rule: less_induct)
  case less
  show ?case
  proof (cases z)
    case (Cons ch r)
    define t u where "t = tail_of a ch r" and "u = drop (length t) r"
    have r: "r = t @ u" "q \<notin> set t" using tail_of_split [of a ch r] tail_of_quote [OF assms] by (simp_all add: t_def u_def)
    obtain j m where jm: "esc_scan a q (k - 1) u = (j, m)" by fastforce
    have "length u < length z" using Cons u_def by simp
    from less [OF this, of "k - 1"] have IH: "j \<le> length u" "m = count_list (take j u) q" by (simp_all add: jm)
    have "esc_scan a q k z = (if k = 0 then (0, 0) else (j + length t + 1, m + (if ch = q then 1 else 0)))"
      using jm Cons by (simp add: esc_scan_Cons t_def u_def)
    then show ?thesis using IH r Cons by (cases "k = 0") simp_all
  qed (simp add: esc_scan_Nil)
qed

lemma esc_scan_all: "k < 0 \<Longrightarrow> fst (esc_scan a q k z) = length z"
proof (induction "length z" arbitrary: k z rule: less_induct)
  case less
  show ?case
  proof (cases z)
    case (Cons ch r)
    define t u where "t = tail_of a ch r" and "u = drop (length t) r"
    have r: "r = t @ u" using tail_of_split [of a ch r] by (simp add: t_def u_def)
    have "fst (esc_scan a q (k - 1) u) = length u" using less(1) [of u "k - 1"] less(2) Cons u_def by simp
    moreover obtain j m where jm: "esc_scan a q (k - 1) u = (j, m)" by fastforce
    ultimately have "fst (esc_scan a q k z) = length u + length t + 1"
      using less(2) Cons by (simp add: esc_scan_Cons t_def [symmetric] u_def [symmetric])
    then show ?thesis using r Cons by simp
  qed (simp add: esc_scan_Nil)
qed

lemma esc_copy_eq: "length out + length (doubled q z) \<le> cap \<Longrightarrow> esc_copy cap q z out = Some (out @ doubled q z)"
  by (induction z arbitrary: out) (auto simp: doubled_def write_up_def)

lemma esc_text_eq:
  assumes "length (doubled q z) + 2 < cap"
  shows "esc_text cap q needQuote z = Some ((if needQuote then [q] else []) @ doubled q z @ (if needQuote then [q] else []))"
  using assms esc_copy_eq [of "[]" q z cap] esc_copy_eq [of "[q]" q z cap]
  by (simp add: esc_text_def write_up_def)

section \<open>Fields\<close>

text \<open>A text in a field of \<open>wd\<close> bytes.\<close>
definition pad_ref :: "bool \<Rightarrow> int \<Rightarrow> bytes \<Rightarrow> bytes" where
  "pad_ref left wd t =
     (let blanks = replicate (nat (wd - int (length t))) 0x20 in if left then t @ blanks else blanks @ t)"

text \<open>The width in bytes of a field whose width is in characters.\<close>
definition conts :: "bytes \<Rightarrow> int" where
  "conts t = int (length (filter (\<lambda>b. b AND 0xc0 = 0x80) t))"

definition wide :: "bool \<Rightarrow> int \<Rightarrow> bytes \<Rightarrow> int" where
  "wide altform2 wd t = (if altform2 \<and> wd > 0 then wd + conts t else wd)"

definition char_ref :: "fspec \<Rightarrow> bytes \<Rightarrow> bytes" where
  "char_ref s buf =
     (if precision s > 1 then
        (let wd = width s - (precision s - 1); early = (wd > 1 \<and> \<not> flag_leftjustify s)
         in (if early then replicate (nat (wd - 1)) 0x20 else []) @ concat (replicate (nat (precision s) - 1) buf)
            @ pad_ref (flag_leftjustify s) (wide True (if early then 0 else wd) buf) buf)
      else pad_ref (flag_leftjustify s) (wide True (width s) buf) buf)"

text \<open>The text of an integer conversion.\<close>
definition int_field :: "bool \<Rightarrow> bool \<Rightarrow> et_info \<Rightarrow> et_type \<Rightarrow> fspec \<Rightarrow> int \<Rightarrow> bytes" where
  "int_field lp64 b info xtype s v =
     (let s = (if xtype = etPOINTER then s\<lparr>flag_long := 2\<rparr> else s);
          (n, pre) = int_value lp64 b info s v
      in int_ref info (xtype = etORDINAL) (if xtype = etDECIMAL then cThousand s else 0) pre
           (flag_alternateform s \<and> n \<noteq> 0) (int_precision s pre) (unat n))"

definition esc_field :: "et_type \<Rightarrow> fspec \<Rightarrow> bytes option \<Rightarrow> bytes" where
  "esc_field xtype s arg =
     (let q = (if xtype = etSQLESCAPE3 then 0x22 else 0x27);
          z = (case arg of Some z \<Rightarrow> z | None \<Rightarrow> if xtype = etSQLESCAPE2 then ascii ''NULL'' else ascii ''(NULL)'');
          t = doubled q (take (fst (esc_scan (flag_altform2 s) q (precision s) z)) z);
          quotes = (if arg \<noteq> None \<and> xtype = etSQLESCAPE2 then [q] else [])
      in quotes @ t @ quotes)"

text \<open>Widths, precisions and strings of ordinary size.\<close>
definition sane :: "fspec \<Rightarrow> bool" where
  "sane s \<longleftrightarrow> 0 \<le> width s \<and> width s < 2 ^ 30 \<and> - 1 \<le> precision s \<and> precision s < 2 ^ 30"

definition short :: "bytes option \<Rightarrow> bool" where
  "short arg \<longleftrightarrow> (case arg of None \<Rightarrow> True | Some z \<Rightarrow> length z < 2 ^ 29)"

definition text_field :: "fspec \<Rightarrow> bytes \<Rightarrow> bytes" where
  "text_field s t = pad_ref (flag_leftjustify s) (wide (flag_altform2 s) (width s) t) t"

definition with_text :: "bool \<Rightarrow> printf_arg list \<Rightarrow> (bytes option \<Rightarrow> bytes) \<Rightarrow> (bytes option \<times> printf_arg list) option" where
  "with_text b args f =
     (case getTextArg b args of Some (z, False, args) \<Rightarrow> if short z then Some (Some (f z), args) else None | _ \<Rightarrow> None)"

definition with_int :: "bool \<Rightarrow> printf_arg list \<Rightarrow> (int \<Rightarrow> bytes) \<Rightarrow> (bytes option \<times> printf_arg list) option" where
  "with_int b args f = map_option (\<lambda>(v, args). (Some (f v), args)) (getIntArg b args)"

text \<open>
  The text of a conversion: \<open>None\<close> when the conversion is not covered or the arguments do not fit; \<open>Some None\<close> when
  printing ends here.
\<close>
definition conv_ref :: "bool \<Rightarrow> bool \<Rightarrow> et_info \<Rightarrow> et_type \<Rightarrow> fspec \<Rightarrow> printf_arg list \<Rightarrow> (bytes option \<times> printf_arg list) option" where
  "conv_ref lp64 b info xtype s args =
     (let str = (\<lambda>z. text_field s (case z of None \<Rightarrow> [] | Some z \<Rightarrow> str_part s z));
          esc = (\<lambda>z. text_field s (esc_field xtype s z));
          num = (\<lambda>v. pad_ref (flag_leftjustify s) (width s) (int_field lp64 b info xtype s v))
      in case xtype of
        etINVALID \<Rightarrow> Some (None, args)
      | etSIZE \<Rightarrow> (if b then Some (Some [], args) else case args of Arg_Pointer # args \<Rightarrow> Some (Some [], args) | _ \<Rightarrow> None)
      | etPERCENT \<Rightarrow> Some (Some (pad_ref (flag_leftjustify s) (width s) [0x25]), args)
      | etCHARX \<Rightarrow>
          if b then with_text b args (\<lambda>z. char_ref s (char_of_text z))
          else with_int b args (\<lambda>v. char_ref s (char_of_code (word_of_int v)))
      | etSTRING \<Rightarrow> with_text b args str
      | etDYNSTRING \<Rightarrow> if b then with_text b args str else None
      | etSQLESCAPE \<Rightarrow> with_text b args esc
      | etSQLESCAPE2 \<Rightarrow> with_text b args esc
      | etSQLESCAPE3 \<Rightarrow> with_text b args esc
      | etRADIX \<Rightarrow> with_int b args num
      | etPOINTER \<Rightarrow> with_int b args num
      | etORDINAL \<Rightarrow> with_int b args num
      | etDECIMAL \<Rightarrow> with_int b args num
      | _ \<Rightarrow> None)"

lemma parse_spec_shorter: "parse_spec b c z args s = Some ((s', c', z'), args') \<Longrightarrow> length z' \<le> length z"
  using parse_spec_leaves [of z b c args s] by simp

text \<open>The text of a format and its arguments.\<close>
function render :: "bool \<Rightarrow> bool \<Rightarrow> bytes \<Rightarrow> printf_arg list \<Rightarrow> bytes option" where
  "render lp64 b fmt args =
     (let lit = takeWhile (\<lambda>c. c \<noteq> 0x25) fmt
      in case dropWhile (\<lambda>c. c \<noteq> 0x25) fmt of
           [] \<Rightarrow> Some lit
         | _ # [] \<Rightarrow> Some (lit @ [0x25])
         | _ # c # z \<Rightarrow>
             case parse_spec b c z args no_flags of
               None \<Rightarrow> None
             | Some ((s, c, z), args) \<Rightarrow>
                 if \<not> sane s then None
                 else case conv_ref lp64 b (fst (find_info c)) (snd (find_info c)) s args of
                   None \<Rightarrow> None
                 | Some (None, args) \<Rightarrow> Some lit
                 | Some (Some out, args) \<Rightarrow> map_option (\<lambda>rest. lit @ out @ rest) (render lp64 b z args))"
  by pat_completeness auto
termination
  by (relation "measure (\<lambda>(lp64, b, fmt, args). length fmt)") (auto dest!: parse_spec_shorter dropWhile_shorter)

declare render.simps [simp del]

section \<open>Printing into an accumulator that grows\<close>

text \<open>
  \<open>out\<close> was printed: it is added to the text, or the accumulator has failed for want of memory or room.  The room for a
  conversion is checked before its text is made, with an allowance of up to twelve bytes.
\<close>
definition prints :: "blocks \<Rightarrow> nat \<Rightarrow> nat \<Rightarrow> sqlite3_str \<Rightarrow> world \<Rightarrow> bytes \<Rightarrow> sqlite3_str \<Rightarrow> world \<Rightarrow> bool" where
  "prints M k lim p w out p' w' \<longleftrightarrow>
     growing_inv M k lim (p', w') \<and> (plenty (heap w) \<longrightarrow> plenty (heap w'))
     \<and> (if accError p \<noteq> 0 then accError p' = accError p
        else accError p' = 0 \<and> text_of p' = text_of p @ out
          \<or> accError p' = SQLITE_TOOBIG \<and> lim \<le> length (text_of p @ out) + 12
          \<or> accError p' = SQLITE_NOMEM \<and> \<not> plenty (heap w))"

lemma prints_refl: "growing_inv M k lim (p, w) \<Longrightarrow> prints M k lim p w [] p w"
  by (simp add: prints_def)

lemma prints_trans:
  assumes "prints M k lim p w a p1 w1" "prints M k' lim p1 w1 b p2 w2"
  shows "prints M k' lim p w (a @ b) p2 w2"
  using assms by (auto simp: prints_def split: if_splits)

text \<open>Once it has failed, nothing more matters.\<close>
lemma prints_failed:
  assumes "prints M k lim p w a p1 w1" "accError p1 \<noteq> 0"
  shows "prints M k lim p w (a @ b) p1 w1"
  using assms by (auto simp: prints_def split: if_splits)

lemma step_prints:
  assumes "growing_inv M k lim (p, w)" "op_ok x"
  shows "\<exists>p' w'. str_step M x (p, w) = Some (p', w') \<and> prints M k lim p w (op_text x) p' w'"
proof (cases "accError p = 0")
  case True
  then show ?thesis using growing.step_grows [OF assms] by (fastforce simp: prints_def)
next
  case False
  then show ?thesis using growing.step_failed [OF assms] assms(1) by (simp add: prints_def)
qed

lemma append_prints:
  assumes "growing_inv M k lim (p, w)" "length z < 2 ^ 31"
  shows "\<exists>p' w'. sqlite3_str_append M p z w = Some (p', w') \<and> prints M k lim p w z p' w'"
  using step_prints [of M k lim p w "Append z"] assms by simp

lemma blanks_prints:
  assumes "growing_inv M k lim (p, w)" "n < 2 ^ 31"
  shows "\<exists>p' w'. sqlite3_str_appendchar M p n c w = Some (p', w') \<and> prints M k lim p w (replicate (nat n) c) p' w'"
  using step_prints [of M k lim p w "Append_Char n c"] assms by simp

lemma prints_inv: "prints M k lim p w a p' w' \<Longrightarrow> growing_inv M k lim (p', w')"
  by (simp add: prints_def)

lemma to_i32_self: "- (2 ^ 31) \<le> x \<Longrightarrow> x < 2 ^ 31 \<Longrightarrow> to_i32 x = x"
  by (simp add: to_i32_def signed_take_bit_int_eq_self)

lemma free_temp:
  "growing_inv M (Suc k) lim (p, w) \<Longrightarrow> growing_inv M k lim (p, w\<lparr>heap := free_block (heap w)\<rparr>)"
  by (auto simp: growing_inv_def accounts_def)

lemma put_field_prints:
  assumes g: "growing_inv M (if zExtra then Suc k else k) lim (p, w)"
    and wd: "- (2 ^ 31) \<le> wd - int (length t)" "wd < 2 ^ 31" and t: "length t < 2 ^ 31"
  shows "\<exists>p' w'. put_field M left t wd zExtra p w = Some (p', w') \<and> prints M k lim p w (pad_ref left wd t) p' w'"
proof -
  define n where "n = wd - int (length t)"
  have n: "to_i32 n = n" "n < 2 ^ 31" using wd t by (auto intro!: to_i32_self simp: n_def)
  let ?k = "if zExtra then Suc k else k"
  have "\<exists>p' w'. (if n > 0 then do {
             (p, w) \<leftarrow> (if \<not> left then sqlite3_str_appendchar M p n 0x20 w else Some (p, w));
             (p, w) \<leftarrow> sqlite3_str_append M p t w;
             if left then sqlite3_str_appendchar M p n 0x20 w else Some (p, w) }
           else sqlite3_str_append M p t w) = Some (p', w') \<and> prints M ?k lim p w (pad_ref left wd t) p' w'"
  proof (cases "n > 0")
    case False
    then show ?thesis using append_prints [OF g, of t] t by (simp add: pad_ref_def n_def)
  next
    case True
    show ?thesis
    proof (cases left)
      case True
      obtain p1 w1 where 1: "sqlite3_str_append M p t w = Some (p1, w1)" "prints M ?k lim p w t p1 w1"
        using append_prints [OF g, of t] t by auto
      obtain p2 w2 where 2: "sqlite3_str_appendchar M p1 n 0x20 w1 = Some (p2, w2)" "prints M ?k lim p1 w1 (replicate (nat n) 0x20) p2 w2"
        using blanks_prints [OF prints_inv [OF 1(2)] n(2)] by blast
      show ?thesis using \<open>n > 0\<close> True 1(1) 2(1) prints_trans [OF 1(2) 2(2)] by (simp add: pad_ref_def n_def)
    next
      case False
      obtain p1 w1 where 1: "sqlite3_str_appendchar M p n 0x20 w = Some (p1, w1)" "prints M ?k lim p w (replicate (nat n) 0x20) p1 w1"
        using blanks_prints [OF g n(2)] by blast
      obtain p2 w2 where 2: "sqlite3_str_append M p1 t w1 = Some (p2, w2)" "prints M ?k lim p1 w1 t p2 w2"
        using append_prints [OF prints_inv [OF 1(2)], of t] t by auto
      show ?thesis using \<open>n > 0\<close> False 1(1) 2(1) prints_trans [OF 1(2) 2(2)] by (simp add: pad_ref_def n_def)
    qed
  qed
  then obtain p' w' where r: "(if n > 0 then do {
             (p, w) \<leftarrow> (if \<not> left then sqlite3_str_appendchar M p n 0x20 w else Some (p, w));
             (p, w) \<leftarrow> sqlite3_str_append M p t w;
             if left then sqlite3_str_appendchar M p n 0x20 w else Some (p, w) }
           else sqlite3_str_append M p t w) = Some (p', w')" "prints M ?k lim p w (pad_ref left wd t) p' w'" by blast
  have "put_field M left t wd zExtra p w = Some (p', if zExtra then w'\<lparr>heap := free_block (heap w')\<rparr> else w')"
    unfolding put_field_def n_def [symmetric] Let_def n(1) r(1) by simp
  moreover have "prints M k lim p w (pad_ref left wd t) p' (if zExtra then w'\<lparr>heap := free_block (heap w')\<rparr> else w')"
    using r(2) free_temp [of M k lim p' w'] by (cases zExtra) (auto simp: prints_def)
  ultimately show ?thesis by blast
qed

lemma set_error_inv:
  assumes "growing_inv M k lim (p, w)" "sqlite3StrAccumSetError p e w = (p', w')"
  shows "growing_inv M k lim (p', w')" "accError p' = e" "plenty (heap w) \<Longrightarrow> plenty (heap w')"
proof -
  have inv: "acc_inv p" "accounts k p w" "mxAlloc p \<noteq> 0" "unat (mxAlloc p) = lim" "sizes_ok M" using assms(1) by (auto simp: growing_inv_def)
  have d: "dead e p p'" "accounts k p' w'" using set_error_dead [OF inv(3,2) assms(2)] by auto
  show "growing_inv M k lim (p', w')" "accError p' = e"
    using d dead_inv [OF d(1)] inv by (auto simp: growing_inv_def dead_def acc_inv_def buf_ok_def)
  show "plenty (heap w')" if "plenty (heap w)"
    using assms(2) that by (auto simp: sqlite3StrAccumSetError_def sqlite3_str_reset_def Let_def split: if_splits)
qed

text \<open>The temporary buffer: granted, or the accumulator has failed.\<close>
lemma temp_buf:
  assumes g: "growing_inv M k lim (p, w)" and r: "printfTempBuf p n w = (ok, p', w')" and out: "n \<le> int (length out) + 12"
  shows "if ok then p' = p \<and> accError p = 0 \<and> n < 2 ^ 31 \<and> growing_inv M (Suc k) lim (p, w') \<and> (plenty (heap w) \<longrightarrow> plenty (heap w'))
    else accError p' \<noteq> 0 \<and> prints M k lim p w out p' w'"
proof -
  have inv: "acc_inv p" "accounts k p w" "unat (mxAlloc p) = lim" using g by (auto simp: growing_inv_def)
  have "unat (nAlloc p) < 2147483648" "lim < 2147483648" using inv by (auto simp: acc_inv_def buf_ok_def)
  then have u: "uint (mxAlloc p) = int lim" "uint (nAlloc p) < 2147483648" "lim < 2147483648"
    using inv(3) uint_nat [of "mxAlloc p"] uint_nat [of "nAlloc p"] by linarith+
  consider "accError p \<noteq> 0" | "accError p = 0" "n > uint (nAlloc p) \<and> n > uint (mxAlloc p)"
    | "accError p = 0" "\<not> (n > uint (nAlloc p) \<and> n > uint (mxAlloc p))" by blast
  then show ?thesis
  proof cases
    case 1
    then show ?thesis using r g by (simp add: printfTempBuf_def prints_def)
  next
    case 2
    then have s: "sqlite3StrAccumSetError p SQLITE_TOOBIG w = (p', w')" "\<not> ok" using r by (simp_all add: printfTempBuf_def)
    have "lim \<le> length (text_of p @ out) + 12" using 2(2) out u(1) by simp
    then show ?thesis using set_error_inv [OF g s(1)] s(2) 2(1) by (simp add: prints_def)
  next
    case 3
    obtain ok1 al where a: "alloc_block (heap w) = (ok1, al)" by fastforce
    define w1 where "w1 = w\<lparr>heap := al\<rparr>"
    have n: "n < 2 ^ 31" using 3(2) u unfolding u(1) by (cases "uint (nAlloc p) < n") auto
    have eq: "printfTempBuf p n w = (if ok1 then (True, p, w1) else (False, sqlite3StrAccumSetError p SQLITE_NOMEM w1))"
      unfolding printfTempBuf_def using 3 a w1_def by auto
    show ?thesis
    proof (cases ok1)
      case True
      then show ?thesis using r eq 3(1) n g live_alloc [OF a] plenty_alloc [OF _ a]
        by (auto simp: growing_inv_def accounts_def w1_def)
    next
      case False
      have g1: "growing_inv M k lim (p, w1)" using g live_alloc [OF a] False by (auto simp: growing_inv_def accounts_def w1_def)
      have "\<not> plenty (heap w)" using plenty_alloc [OF _ a] False by auto
      then show ?thesis using r eq False set_error_inv [OF g1] 3(1) by (auto simp: prints_def)
    qed
  qed
qed

lemma int_ref_length_ge:
  "nat prec + (if ct \<noteq> 0 then (nat prec - 1) div 3 else 0) \<le> length (int_ref info ordinal ct sg alt prec n)"
proof -
  define ds where "ds = digits_in (base info) (drop (charset info) aDigits) n @ (if ordinal then ordinal_ending n else [])"
  define ps where "ps = replicate (nat prec - length ds) 0x30 @ ds"
  have ps: "nat prec \<le> length ps" by (simp add: ps_def)
  then have "(nat prec - 1) div 3 \<le> (length ps - 1) div 3" by (intro div_le_mono diff_le_mono)
  then show ?thesis using ps length_group3 [of ct ps]
    unfolding int_ref_def Let_def ds_def [symmetric] ps_def [symmetric] length_append by (cases "ct = 0") simp_all
qed

text \<open>What a conversion must achieve so that its output step prints \<open>out\<close>.\<close>
definition conv_ok :: "blocks \<Rightarrow> nat \<Rightarrow> nat \<Rightarrow> bool \<Rightarrow> sqlite3_str \<Rightarrow> world \<Rightarrow> bytes \<Rightarrow> conv \<Rightarrow> bool" where
  "conv_ok M k lim left p w out c \<longleftrightarrow>
     (case c of
        Quit p' w' \<Rightarrow> accError p' \<noteq> 0 \<and> prints M k lim p w out p' w'
      | Field t wd zExtra p' w' \<Rightarrow>
          - (2 ^ 31) \<le> wd - int (length t) \<and> wd < 2 ^ 31 \<and> length t < 2 ^ 31
          \<and> (\<exists>pre. out = pre @ pad_ref left wd t \<and> prints M (if zExtra then Suc k else k) lim p w pre p' w'))"

lemma field_ok:
  assumes "growing_inv M k lim (p, w)" "- (2 ^ 31) \<le> wd - int (length t)" "wd < 2 ^ 31" "length t < 2 ^ 31"
  shows "conv_ok M k lim left p w (pad_ref left wd t) (Field t wd False p w)"
  using assms prints_refl by (simp add: conv_ok_def)

lemma length_pad_ref: "length t \<le> length (pad_ref left wd t)"
  by (simp add: pad_ref_def Let_def)

text \<open>The two ways to make a text: in the buffer on the stack, or in a temporary block.\<close>
lemma temp_field_ok:
  assumes g: "growing_inv M k lim (p, w)" and n: "n \<le> int (length t) + 12" and t: "int (length t) < n" and wd: "0 \<le> wd" "wd < 2 ^ 31"
    and r: "printfTempBuf p n w = (ok, p', w')"
  shows "conv_ok M k lim left p w (pad_ref left wd t) (if ok then Field t wd True p' w' else Quit p' w')"
proof -
  have out: "n \<le> int (length (pad_ref left wd t)) + 12" using n length_pad_ref [of t left wd] by linarith
  show ?thesis
  proof (cases ok)
    case True
    then have *: "p' = p" "accError p = 0" "n < 2 ^ 31" "growing_inv M (Suc k) lim (p, w')" "plenty (heap w) \<longrightarrow> plenty (heap w')"
      using temp_buf [OF g r out] by auto
    then have "prints M (Suc k) lim p w [] p' w'" by (simp add: prints_def)
    then show ?thesis using True t wd * by (auto simp: conv_ok_def)
  next
    case False
    then show ?thesis using temp_buf [OF g r out] by (simp add: conv_ok_def)
  qed
qed

lemma int_buffer_ok:
  assumes g: "growing_inv M k lim (p, w)" and wd: "0 \<le> wd" "wd < 2 ^ 31"
    and made: "\<And>nOut. length t < nOut \<Longrightarrow> 2 < nOut \<Longrightarrow> f nOut = Some t"
    and le: "length t \<le> max (nat prec) 24 + (if ct \<noteq> 0 then (max (nat prec) 24 - 1) div 3 else 0) + 3"
    and ge: "nat prec + (if ct \<noteq> 0 then (nat prec - 1) div 3 else 0) \<le> length t"
  shows "\<exists>c. int_buffer f ct prec wd p w = Some c \<and> conv_ok M k lim left p w (pad_ref left wd t) c"
proof (cases "prec < 37")
  case True
  define m where "m = max (nat prec) 24"
  have "m \<le> 36" using True by (auto simp: m_def)
  then have "(m - 1) div 3 \<le> 11" by simp
  then have len: "length t < 70" using le [folded m_def] \<open>m \<le> 36\<close> by (cases "ct = 0") simp_all
  then have "int_buffer f ct prec wd p w = Some (Field t wd False p w)"
    using True made [of 70] by (simp add: int_buffer_def etBUFSIZE_def)
  then show ?thesis using field_ok [OF g _ wd(2), of t left] len wd by auto
next
  case False
  then obtain P where P: "prec = int P" "37 \<le> P" using nonneg_int_cases [of prec] by auto
  define N where "N = prec + 10 + (if ct \<noteq> 0 then prec div 3 else 0)"
  have N: "N = int (P + 10 + (if ct \<noteq> 0 then P div 3 else 0))" by (simp add: N_def P zdiv_int)
  have "P div 3 \<le> (P - 1) div 3 + 1" "(P - 1) div 3 \<le> P div 3" by linarith+
  then have len: "int (length t) < N" "N \<le> int (length t) + 12"
    using le ge P N by (cases "ct = 0"; simp add: max_def)+
  obtain ok p' w' where r: "printfTempBuf p N w = (ok, p', w')" by (cases "printfTempBuf p N w") auto
  have "N < 2 ^ 31" if "ok" using temp_buf [OF g r, of t] that len(2) by simp
  then have "f (nat (to_i32 N)) = Some t" if "ok"
    using that made [of "nat N"] len(1) N by (simp add: to_i32_self zless_nat_eq_int_zless)
  then have "int_buffer f ct prec wd p w = Some (if ok then Field t wd True p' w' else Quit p' w')"
    using False r by (cases ok) (simp_all add: int_buffer_def etBUFSIZE_def N_def [symmetric])
  then show ?thesis using temp_field_ok [OF g len(2,1) wd r, of left] by simp
qed

lemma int_conv_ok:
  assumes g: "growing_inv M k lim (p, w)" and s: "sane s"
    and info: "8 \<le> base info" "prefix info \<noteq> 0 \<Longrightarrow> length (takeWhile (\<lambda>x. x \<noteq> 0) (drop (prefix info) aPrefix)) \<le> 2"
  shows "\<exists>c. int_conv lp64 b info xtype s v p w = Some c
    \<and> conv_ok M k lim left p w (pad_ref left (width s) (int_field lp64 b info xtype s v)) c"
proof -
  define s' where "s' = (if xtype = etPOINTER then s\<lparr>flag_long := 2\<rparr> else s)"
  define ct where "ct = (if xtype = etDECIMAL then cThousand s' else 0)"
  obtain n sg where v: "int_value lp64 b info s' v = (n, sg)" by fastforce
  define t where "t = int_ref info (xtype = etORDINAL) ct sg (flag_alternateform s' \<and> n \<noteq> 0) (int_precision s' sg) (unat n)"
  have n: "unat n < 2 ^ 64" using unsigned_less [of n] by simp
  have wd: "0 \<le> width s'" "width s' < 2 ^ 31" "width s' = width s" using s by (auto simp: sane_def s'_def)
  have eqs: "int_conv lp64 b info xtype s v p w = int_buffer (\<lambda>nOut. int_text nOut info (xtype = etORDINAL) ct sg
        (flag_alternateform s' \<and> n \<noteq> 0) (int_precision s' sg) (unat n)) ct (int_precision s' sg) (width s') p w"
      "int_field lp64 b info xtype s v = t"
    unfolding int_conv_def int_field_def s'_def [symmetric] t_def ct_def using v by (simp_all add: Let_def)
  show ?thesis unfolding eqs wd(3) [symmetric]
  proof (rule int_buffer_ok [OF g wd(1,2)])
    have "2 \<le> base info" using info(1) by simp
    then show "int_text nOut info (xtype = etORDINAL) ct sg (flag_alternateform s' \<and> n \<noteq> 0) (int_precision s' sg) (unat n) = Some t"
      if "length t < nOut" "2 < nOut" for nOut using that int_text_ref by (simp add: t_def)
    show "length t \<le> max (nat (int_precision s' sg)) 24 + (if ct \<noteq> 0 then (max (nat (int_precision s' sg)) 24 - 1) div 3 else 0) + 3"
      unfolding t_def by (rule length_int_ref) (use info n in auto)
    show "nat (int_precision s' sg) + (if ct \<noteq> 0 then (nat (int_precision s' sg) - 1) div 3 else 0) \<le> length t"
      unfolding t_def by (rule int_ref_length_ge)
  qed
qed

section \<open>The other conversions\<close>

text \<open>Widths counted in characters do not overflow.\<close>
lemma wide_range:
  assumes "sane s" "length t \<le> 2 ^ 30"
  shows "0 \<le> wide a (width s) t" "wide a (width s) t < 2 ^ 31" "adjust_width_for_utf8 a (width s) t = wide a (width s) t"
proof -
  have c: "conts t \<le> int (length t)" "0 \<le> conts t" by (simp_all add: conts_def)
  have l: "int (length t) \<le> 1073741824" using assms(2) by simp
  have s: "0 \<le> width s" "width s < 1073741824" using assms(1) by (simp_all add: sane_def)
  have "0 \<le> width s + conts t" "width s + conts t < 2147483648" using c l s by linarith+
  then show w: "0 \<le> wide a (width s) t" "wide a (width s) t < 2 ^ 31" using s by (simp_all add: wide_def)
  show "adjust_width_for_utf8 a (width s) t = wide a (width s) t"
    using w unfolding adjust_width_for_utf8_def wide_def conts_def [symmetric]
    by (cases "a \<and> 0 < width s") (auto simp: to_i32_self)
qed

lemma str_conv_ok:
  assumes g: "growing_inv M k lim (p, w)" and s: "sane s" and z: "short z" and x: "xtype = etDYNSTRING \<Longrightarrow> b"
  defines "t \<equiv> case z of None \<Rightarrow> [] | Some z \<Rightarrow> str_part s z"
  shows "\<exists>c. str_conv M b xtype s z False p w = Some c
    \<and> conv_ok M k lim left p w (pad_ref left (wide (flag_altform2 s) (width s) t) t) c"
proof -
  have len: "length t < 2 ^ 29"
    using z by (auto simp: t_def short_def str_part_def split: option.splits intro: order_le_less_trans [OF _ _])
  then have "length t \<le> 2 ^ 30" by simp
  note wd = wide_range [OF s this, of "flag_altform2 s"]
  have nil: "wide a (width s) [] = width s" for a by (simp add: wide_def conts_def)
  have "str_conv M b xtype s z False p w = Some (Field t (wide (flag_altform2 s) (width s) t) False p w)"
    using x wd(3) nil by (cases z) (auto simp: str_conv_def t_def Let_def)
  then show ?thesis using field_ok [OF g _ wd(2), of t left] wd len by auto
qed

lemma esc_conv_ok:
  assumes g: "growing_inv M k lim (p, w)" and s: "sane s" and z: "short z"
    and t_def: "t = esc_field xtype s z"
  shows "\<exists>c. esc_conv xtype s z p w = Some c \<and> conv_ok M k lim left p w (pad_ref left (wide (flag_altform2 s) (width s) t) t) c"
proof -
  define q :: u8 where "q = (if xtype = etSQLESCAPE3 then 0x22 else 0x27)"
  define e where "e = (case z of Some z \<Rightarrow> z | None \<Rightarrow> if xtype = etSQLESCAPE2 then ascii ''NULL'' else ascii ''(NULL)'')"
  define need where "need = (z \<noteq> None \<and> xtype = etSQLESCAPE2)"
  obtain i n where in': "esc_scan (flag_altform2 s) q (precision s) e = (i, n)" by fastforce
  have q: "q = 0x22 \<or> q = 0x27" by (simp add: q_def)
  have i: "i \<le> length e" "n = count_list (take i e) q" using esc_scan_count [OF q, of "flag_altform2 s" "precision s" e] in' by simp_all
  have len_d: "length (doubled q (take i e)) = i + n" using i by (simp add: length_doubled)
  have t: "t = (if need then [q] else []) @ doubled q (take i e) @ (if need then [q] else [])"
    using in' unfolding t_def esc_field_def Let_def q_def [symmetric] e_def [symmetric] need_def [symmetric] by simp
  have e: "length e < 2 ^ 29" using z by (auto simp: e_def short_def ascii_def split: option.splits)
  have n: "n \<le> i" using i count_le_length [of "take i e" q] by simp
  have "length t \<le> i + n + 2" using len_d t by simp
  then have lt: "length t \<le> 2 ^ 30" "length t < n + i + 3" "n + i + 3 \<le> length t + 12" using n i(1) e len_d t by auto
  note wd = wide_range [OF s lt(1), of "flag_altform2 s"]
  have made: "esc_text cap q need (take i e) = Some t" if "n + i + 3 \<le> cap" for cap
    using esc_text_eq [of q "take i e" cap need] len_d that t by simp
  have conv: "esc_conv xtype s z p w =
      (if n + i + 3 > etBUFSIZE then
         (case printfTempBuf p (int (n + i + 3)) w of
            (False, p, w) \<Rightarrow> Some (Quit p w)
          | (True, p, w) \<Rightarrow> Some (Field t (wide (flag_altform2 s) (width s) t) True p w))
       else Some (Field t (wide (flag_altform2 s) (width s) t) False p w))"
    using in' made [of "n + i + 3"] made [of etBUFSIZE] wd(3)
    unfolding esc_conv_def Let_def q_def [symmetric] e_def [symmetric] need_def [symmetric]
    by (auto split: prod.split bool.split)
  show ?thesis
  proof (cases "n + i + 3 > etBUFSIZE")
    case True
    obtain ok p' w' where r: "printfTempBuf p (int (n + i + 3)) w = (ok, p', w')" by (cases "printfTempBuf p (int (n + i + 3)) w") auto
    have c: "esc_conv xtype s z p w = Some (if ok then Field t (wide (flag_altform2 s) (width s) t) True p' w' else Quit p' w')"
      unfolding conv using True r by (cases ok) auto
    show ?thesis using c temp_field_ok [OF g _ _ wd(1,2) r, of t left] lt(2,3) by simp
  next
    case False
    then show ?thesis using field_ok [OF g _ wd(2), of t left] wd lt conv by auto
  qed
qed

subsection \<open>Repeated characters\<close>

definition copies :: "nat \<Rightarrow> bytes \<Rightarrow> bytes" where
  "copies m buf = concat (replicate m buf)"

lemma copies_add: "copies (m + n) buf = copies m buf @ copies n buf"
  by (simp add: copies_def replicate_add)

lemma length_copies: "length (copies m buf) = m * length buf"
  by (induction m) (simp_all add: copies_def)

lemma get_last_eq:
  assumes "buf_ok p" "n \<le> unat (nChar p)"
  shows "get_last p n = Some (drop (unat (nChar p) - n) (text_of p))"
  using assms by (auto simp: get_last_def get_bytes_def buf_ok_def text_of_def word_less_nat_alt split: option.splits)

lemma enlarge_prints:
  assumes g: "growing_inv M k lim (p, w)" and p: "accError p = 0" and n: "n < 2 ^ 31" and out: "n \<le> length out"
  shows "\<exists>N p' w'. sqlite3StrAccumEnlarge M p (int n) w = Some (N, p', w')
    \<and> (if accError p' = 0 then prints M k lim p w [] p' w' else prints M k lim p w out p' w')"
proof -
  have inv: "acc_inv p" "accounts k p w" "mxAlloc p \<noteq> 0" "unat (mxAlloc p) = lim" "sizes_ok M" using g by (auto simp: growing_inv_def)
  have len: "length (text_of p) = unat (nChar p)" using inv(1) text_length by (simp add: acc_inv_def)
  obtain p' w' where w': "accounts k p' w'" "plenty (heap w) \<longrightarrow> plenty (heap w')" and
    o: "sqlite3StrAccumEnlarge M p (int n) w = Some (int n, p', w') \<and> grown p (unat (nChar p) + n + 1) p'
      \<or> sqlite3StrAccumEnlarge M p (int n) w = Some (0, p', w')
        \<and> (dead SQLITE_TOOBIG p p' \<and> unat (mxAlloc p) \<le> unat (nChar p) + n \<or> dead SQLITE_NOMEM p p' \<and> \<not> plenty (heap w))"
    using enlarge_grow [OF inv(1) p inv(3,2,5), of "int n"] n by (auto simp: grow_outcome_def)
  have dead: "growing_inv M k lim (p', w')" if "dead e p p'" for e
    using that dead_inv [OF that] inv w' by (auto simp: growing_inv_def acc_inv_def buf_ok_def dead_def)
  from o show ?thesis
  proof (elim disjE conjE)
    assume e: "sqlite3StrAccumEnlarge M p (int n) w = Some (int n, p', w')" and "grown p (unat (nChar p) + n + 1) p'"
    then have "growing_inv M k lim (p', w')" "accError p' = 0" "text_of p' = text_of p"
      using w' inv by (auto simp: growing_inv_def grown_def)
    then show ?thesis using e w'(2) p by (auto simp: prints_def)
  qed (use dead w' p out len inv(4) in \<open>auto simp: prints_def dead_def\<close>)
qed

lemma repeat_loop_prints:
  assumes "growing_inv M k lim (p, w)" "0 < nPrior" "accError p = 0 \<Longrightarrow> \<exists>pre. text_of p = pre @ copies (nat nPrior) buf"
  shows "\<exists>p' w'. repeat_loop M (length buf) prec nPrior p w = Some (p', w') \<and> prints M k lim p w (copies (nat prec - 1) buf) p' w'"
  using assms
proof (induction "nat prec" arbitrary: prec nPrior p w rule: less_induct)
  case less
  note g = less.prems(1)
  show ?case
  proof (cases "prec > 1")
    case False
    then show ?thesis using prints_refl [OF g] by (simp add: repeat_loop.simps copies_def)
  next
    case True
    define nP where "nP = (if nPrior > prec - 1 then prec - 1 else nPrior)"
    have nP: "0 < nP" "nP \<le> nPrior" "nP \<le> prec - 1" using True less.prems(2) by (auto simp: nP_def)
    define n where "n = nat nP * length buf"
    have n: "int (length buf) * nP = int n" using nP(1) by (simp add: n_def)
    show ?thesis
    proof (cases "accError p = 0")
      case False
      then have "repeat_loop M (length buf) prec nPrior p w = Some (p, w)"
        using True less.prems(2) by (subst repeat_loop.simps) (simp add: Let_def enlarge_error)
      then show ?thesis using False g by (simp add: prints_def)
    next
      case ok: True
      obtain pre where pre: "text_of p = pre @ copies (nat nPrior) buf" using less.prems(3) [OF ok] by blast
      have c: "copies (nat nPrior) buf = copies (nat nPrior - nat nP) buf @ copies (nat nP) buf"
        using nP copies_add [of "nat nPrior - nat nP" "nat nP" buf] by (simp add: nat_mono)
      have len: "length (text_of q) = unat (nChar q)" "buf_ok q" "unat (nChar q) < 2 ^ 31" if "growing_inv M k lim (q, v)" for q v
        using that text_length [of q] by (auto simp: growing_inv_def acc_inv_def buf_ok_def word_less_nat_alt split: option.splits)
      have small: "n \<le> length (text_of p)" "n < 2 ^ 31" using pre c len(1,3) [OF g] by (auto simp: n_def length_copies)
      have out: "n \<le> length (copies (nat prec - 1) buf)" using nP by (auto simp: n_def length_copies intro!: mult_le_mono1)
      obtain N p1 w1 where 1: "(if int n + uint (nChar p) \<ge> uint (nAlloc p) then sqlite3StrAccumEnlarge M p (int n) w else Some (0, p, w)) = Some (N, p1, w1)"
          "if accError p1 = 0 then prints M k lim p w [] p1 w1 else prints M k lim p w (copies (nat prec - 1) buf) p1 w1"
      proof (cases "int n + uint (nChar p) \<ge> uint (nAlloc p)")
        case True
        then show ?thesis using that enlarge_prints [OF g ok small(2) out] by auto
      next
        case False
        then show ?thesis using that [of 0 p w] prints_refl [OF g] ok by auto
      qed
      show ?thesis
      proof (cases "accError p1 = 0")
        case False
        then have "repeat_loop M (length buf) prec nPrior p w = Some (p1, w1)"
          using True less.prems(2) 1(1) unfolding repeat_loop.simps [of M "length buf" prec] Let_def nP_def [symmetric] n by simp
        then show ?thesis using 1(2) False by simp
      next
        case ok1: True
        then have t1: "prints M k lim p w [] p1 w1" "text_of p1 = text_of p" using 1(2) ok by (auto simp: prints_def)
        note g1 = prints_inv [OF t1(1)]
        have last: "get_last p1 n = Some (copies (nat nP) buf)"
          using get_last_eq [OF len(2) [OF g1], of n] len(1) [OF g1] small(1) t1(2) pre c by (simp add: n_def length_copies)
        obtain p2 w2 where 2: "sqlite3_str_append M p1 (copies (nat nP) buf) w1 = Some (p2, w2)" "prints M k lim p1 w1 (copies (nat nP) buf) p2 w2"
          using append_prints [OF g1, of "copies (nat nP) buf"] small(2) by (auto simp: length_copies n_def)
        have "\<exists>pre. text_of p2 = pre @ copies (nat (nP * 2)) buf" if "accError p2 = 0"
        proof -
          have "text_of p2 = pre @ copies (nat nPrior - nat nP) buf @ copies (nat nP + nat nP) buf"
            using 2(2) ok1 that t1(2) pre c by (auto simp: prints_def copies_add)
          moreover have "nat (nP * 2) = nat nP + nat nP" using nP by (simp add: nat_add_distrib [symmetric])
          ultimately show ?thesis by (metis append.assoc)
        qed
        then obtain p3 w3 where 3: "repeat_loop M (length buf) (prec - nP) (nP * 2) p2 w2 = Some (p3, w3)"
            "prints M k lim p2 w2 (copies (nat (prec - nP) - 1) buf) p3 w3"
          using less.hyps [of "prec - nP" p2 w2 "nP * 2"] prints_inv [OF 2(2)] nP True by auto
        have "repeat_loop M (length buf) prec nPrior p w = Some (p3, w3)"
          using True less.prems(2) 1(1) ok1 last 2(1) 3(1) unfolding repeat_loop.simps [of M "length buf" prec] Let_def nP_def [symmetric] n by simp
        moreover have "copies (nat prec - 1) buf = copies (nat nP) buf @ copies (nat (prec - nP) - 1) buf"
        proof -
          have "nat prec - 1 = nat nP + (nat (prec - nP) - 1)" using nP True by linarith
          then show ?thesis by (simp only: copies_add)
        qed
        ultimately show ?thesis using prints_trans [OF t1(1) prints_trans [OF 2(2) 3(2)]] by simp
      qed
    qed
  qed
qed

lemma char_lengths:
  "0 < length (char_of_code ch)" "length (char_of_code ch) \<le> 4" "0 < length (char_of_text z)" "length (char_of_text z) \<le> 4"
  by (auto simp: char_of_code_def char_of_text_def Let_def split: option.split)

lemma wide_char:
  assumes "- (2 ^ 30) \<le> wd" "wd < 2 ^ 30" "length buf \<le> 4"
  shows "adjust_width_for_utf8 True wd buf = wide True wd buf" "- (2 ^ 31) \<le> wide True wd buf - int (length buf)" "wide True wd buf < 2 ^ 31"
proof -
  have c: "conts buf \<le> 4" "0 \<le> conts buf"
    using order_trans [OF length_filter_le [of "\<lambda>b. b AND 0xc0 = 0x80" buf] assms(3)] by (simp_all add: conts_def)
  show "- (2 ^ 31) \<le> wide True wd buf - int (length buf)" "wide True wd buf < 2 ^ 31"
    using assms c by (simp_all add: wide_def)
  show "adjust_width_for_utf8 True wd buf = wide True wd buf"
    using assms c by (auto simp: adjust_width_for_utf8_def wide_def conts_def [symmetric] to_i32_self)
qed

lemma char_conv_ok:
  assumes g: "growing_inv M k lim (p, w)" and s: "sane s" and buf: "length buf \<le> 4"
  shows "\<exists>c. char_conv M s buf p w = Some c \<and> conv_ok M k lim (flag_leftjustify s) p w (char_ref s buf) c"
proof (cases "precision s > 1")
  case False
  have "- (2 ^ 30) \<le> width s" "width s < 2 ^ 30" using s by (auto simp: sane_def)
  note wd = wide_char [OF this buf]
  show ?thesis using False wd field_ok [OF g wd(2,3)] buf by (auto simp: char_conv_def char_ref_def)
next
  case True
  define wd where "wd = width s - (precision s - 1)"
  define early where "early = (wd > 1 \<and> \<not> flag_leftjustify s)"
  define blanks where "blanks = (if early then replicate (nat (wd - 1)) (0x20 :: u8) else [])"
  define wd' where "wd' = (if early then 0 else wd)"
  have "- (2 ^ 30) \<le> wd" "wd < 2 ^ 30" using s True by (auto simp: sane_def wd_def)
  then have "- (2 ^ 30) \<le> wd'" "wd' < 2 ^ 30" by (auto simp: wd'_def)
  note wide = wide_char [OF this buf]
  obtain p1 w1 where 1: "(if early then do { (p, w) \<leftarrow> sqlite3_str_appendchar M p (wd - 1) 0x20 w; Some (0, p, w) } else Some (wd, p, w))
      = Some (wd', p1, w1)" "prints M k lim p w blanks p1 w1"
  proof (cases early)
    case True
    moreover have "wd - 1 < 2 ^ 31" using \<open>wd < 2 ^ 30\<close> by simp
    ultimately show ?thesis using that blanks_prints [OF g, of "wd - 1" "0x20"] by (auto simp: blanks_def wd'_def)
  next
    case False
    then show ?thesis using that [of p w] prints_refl [OF g] by (simp add: blanks_def wd'_def)
  qed
  obtain p2 w2 where 2: "sqlite3_str_append M p1 buf w1 = Some (p2, w2)" "prints M k lim p1 w1 buf p2 w2"
    using append_prints [OF prints_inv [OF 1(2)], of buf] buf by auto
  have "\<exists>pre. text_of p2 = pre @ copies (nat 1) buf" if "accError p2 = 0"
    using 2(2) that by (auto simp: prints_def copies_def split: if_splits)
  then obtain p3 w3 where 3: "repeat_loop M (length buf) (precision s - 1) 1 p2 w2 = Some (p3, w3)"
      "prints M k lim p2 w2 (copies (nat (precision s - 1) - 1) buf) p3 w3"
    using repeat_loop_prints [OF prints_inv [OF 2(2)], of 1 buf "precision s - 1"] by auto
  have "nat (precision s) - 1 = 1 + (nat (precision s - 1) - 1)" using True by linarith
  then have "copies (nat (precision s) - 1) buf = buf @ copies (nat (precision s - 1) - 1) buf"
    using copies_add [of 1 "nat (precision s - 1) - 1" buf] by (simp add: copies_def)
  then have "prints M k lim p w (blanks @ copies (nat (precision s) - 1) buf) p3 w3"
    using prints_trans [OF 1(2) prints_trans [OF 2(2) 3(2)]] by simp
  moreover have "char_conv M s buf p w = Some (Field buf (wide True wd' buf) False p3 w3)"
    unfolding char_conv_def Let_def wd_def [symmetric] early_def [symmetric] using True 1(1) 2(1) 3(1) wide(1) by simp
  moreover have "char_ref s buf = (blanks @ copies (nat (precision s) - 1) buf) @ pad_ref (flag_leftjustify s) (wide True wd' buf) buf"
    unfolding char_ref_def Let_def wd_def [symmetric] early_def [symmetric] wd'_def [symmetric] blanks_def [symmetric] copies_def
    using True by simp
  ultimately show ?thesis using wide buf by (auto simp: conv_ok_def)
qed

section \<open>Whole formats\<close>

lemma fmtinfo_ints:
  "list_all (\<lambda>i. type i \<in> {etRADIX, etPOINTER, etORDINAL, etDECIMAL} \<longrightarrow>
     8 \<le> base i \<and> length (takeWhile (\<lambda>x. x \<noteq> 0) (drop (prefix i) aPrefix)) \<le> 3
     \<and> (prefix i \<noteq> 0 \<longrightarrow> length (takeWhile (\<lambda>x. x \<noteq> 0) (drop (prefix i) aPrefix)) \<le> 2)) fmtinfo"
  by (simp add: fmtinfo_def et_def aPrefix_def)

lemma find_info_int:
  assumes "snd (find_info c) \<in> {etRADIX, etPOINTER, etORDINAL, etDECIMAL}"
  shows "8 \<le> base (fst (find_info c))"
    "prefix (fst (find_info c)) \<noteq> 0 \<Longrightarrow> length (takeWhile (\<lambda>x. x \<noteq> 0) (drop (prefix (fst (find_info c))) aPrefix)) \<le> 2"
proof -
  obtain i where i: "find (\<lambda>i. fmttype i = c) fmtinfo = Some i" "find_info c = (i, type i)"
    using assms by (auto simp: find_info_def split: option.splits)
  then have "i \<in> set fmtinfo" by (auto simp: find_Some_iff)
  then have "8 \<le> base i \<and> (prefix i \<noteq> 0 \<longrightarrow> length (takeWhile (\<lambda>x. x \<noteq> 0) (drop (prefix i) aPrefix)) \<le> 2)"
    using fmtinfo_ints assms i(2) by (auto simp: list_all_iff)
  then show "8 \<le> base (fst (find_info c))"
    "prefix (fst (find_info c)) \<noteq> 0 \<Longrightarrow> length (takeWhile (\<lambda>x. x \<noteq> 0) (drop (prefix (fst (find_info c))) aPrefix)) \<le> 2"
    using i(2) by simp_all
qed

text \<open>A conversion and the arguments it leaves, against the reference.\<close>
definition converts :: "blocks \<Rightarrow> nat \<Rightarrow> nat \<Rightarrow> bool \<Rightarrow> sqlite3_str \<Rightarrow> world \<Rightarrow> bytes option \<times> printf_arg list
    \<Rightarrow> (conv \<times> printf_arg list) option \<Rightarrow> bool" where
  "converts M k lim left p w r res \<longleftrightarrow>
     (\<exists>cv. res = Some (cv, snd r) \<and> (case fst r of None \<Rightarrow> cv = Quit p w | Some out \<Rightarrow> conv_ok M k lim left p w out cv))"

lemma with_text_converts:
  assumes "with_text b args f = Some r"
    and "\<And>z. short z \<Longrightarrow> \<exists>c. conv z False = Some c \<and> conv_ok M k lim left p w (f z) c"
  shows "converts M k lim left p w r (do { (z, block, args) \<leftarrow> getTextArg b args; c \<leftarrow> conv z block; Some (c, args) })"
proof -
  obtain z args' where z: "getTextArg b args = Some (z, False, args')" "short z" "r = (Some (f z), args')"
    using assms(1) by (auto simp: with_text_def split: option.splits bool.splits if_splits prod.splits)
  moreover obtain c where "conv z False = Some c" "conv_ok M k lim left p w (f z) c" using assms(2) [OF z(2)] by blast
  ultimately show ?thesis by (simp add: converts_def)
qed

lemma with_int_converts:
  assumes "with_int b args f = Some r" and "\<And>v. \<exists>c. conv v = Some c \<and> conv_ok M k lim left p w (f v) c"
  shows "converts M k lim left p w r (do { (v, args) \<leftarrow> getIntArg b args; c \<leftarrow> conv v; Some (c, args) })"
proof -
  obtain v args' where v: "getIntArg b args = Some (v, args')" "r = (Some (f v), args')"
    using assms(1) by (auto simp: with_int_def)
  moreover obtain c where "conv v = Some c" "conv_ok M k lim left p w (f v) c" using assms(2) by blast
  ultimately show ?thesis by (simp add: converts_def)
qed

lemma convert_ok:
  assumes g: "growing_inv M k lim (p, w)" and s: "sane s"
    and r: "conv_ref lp64 b (fst (find_info c)) (snd (find_info c)) s args = Some r"
  shows "converts M k lim (flag_leftjustify s) p w r
    (convert M lp64 X b (fst (find_info c)) (snd (find_info c)) s args p w)"
proof -
  have wd: "- (2 ^ 31) \<le> width s - 1" "width s < 2 ^ 31" using s by (auto simp: sane_def)
  have int: "\<exists>cv. int_conv lp64 b (fst (find_info c)) (snd (find_info c)) s v p w = Some cv \<and> conv_ok M k lim (flag_leftjustify s) p w
      (pad_ref (flag_leftjustify s) (width s) (int_field lp64 b (fst (find_info c)) (snd (find_info c)) s v)) cv"
    if "snd (find_info c) \<in> {etRADIX, etPOINTER, etORDINAL, etDECIMAL}" for v
    by (rule int_conv_ok [OF g s]) (use find_info_int [OF that] in auto)
  note str = str_conv_ok [OF g s, of _ _ b "flag_leftjustify s", folded text_field_def]
  note esc = esc_conv_ok [OF g s _ refl, of _ _ "flag_leftjustify s", folded text_field_def]
  note chr = char_conv_ok [OF g s]
  show ?thesis
  proof (cases "snd (find_info c)")
    case etINVALID
    then show ?thesis using r by (auto simp: conv_ref_def convert_def converts_def)
  next
    case etSIZE
    then show ?thesis using r field_ok [OF g, of 0 "[]" "flag_leftjustify s"]
      by (auto simp: conv_ref_def convert_def converts_def pad_ref_def split: if_splits list.splits printf_arg.splits)
  next
    case etPERCENT
    then show ?thesis using r field_ok [OF g, of "width s" "[0x25]" "flag_leftjustify s"] wd
      by (auto simp: conv_ref_def convert_def converts_def)
  qed (use r int str esc chr in \<open>auto simp: conv_ref_def convert_def char_lengths
      intro!: with_int_converts with_text_converts split: if_splits\<close>)
qed

lemma conv_ok_put:
  assumes "conv_ok M k lim left p w out (Field t wd zExtra p1 w1)"
  shows "\<exists>p' w'. put_field M left t wd zExtra p1 w1 = Some (p', w') \<and> prints M k lim p w out p' w'"
proof -
  obtain pre where pre: "out = pre @ pad_ref left wd t" "prints M (if zExtra then Suc k else k) lim p w pre p1 w1"
      "- (2 ^ 31) \<le> wd - int (length t)" "wd < 2 ^ 31" "length t < 2 ^ 31"
    using assms by (auto simp: conv_ok_def)
  then show ?thesis using put_field_prints [OF prints_inv [OF pre(2)] pre(3-5), of left] prints_trans [OF pre(2)] by blast
qed

lemma directive_prints:
  assumes g: "growing_inv M k lim (p, w)"
    and parse: "parse_spec b c z args no_flags = Some ((s, c', z'), args1)" "sane s"
    and r: "conv_ref lp64 b (fst (find_info c')) (snd (find_info c')) s args1 = Some (r, args2)"
  shows "\<exists>rest p' w'. directive M lp64 X b (c # z) args p w = Some (rest, args2, p', w')
    \<and> (case r of None \<Rightarrow> rest = None \<and> p' = p \<and> w' = w
        | Some out \<Rightarrow> prints M k lim p w out p' w' \<and> (rest = Some z' \<or> rest = None \<and> accError p' \<noteq> 0))"
proof -
  obtain cv where cv: "convert M lp64 X b (fst (find_info c')) (snd (find_info c')) s args1 p w = Some (cv, args2)"
      "case r of None \<Rightarrow> cv = Quit p w | Some out \<Rightarrow> conv_ok M k lim (flag_leftjustify s) p w out cv"
    using convert_ok [OF g parse(2) r, of X] by (auto simp: converts_def)
  have d: "directive M lp64 X b (c # z) args p w =
      (case cv of Quit p w \<Rightarrow> Some (None, args2, p, w)
       | Field t wd zExtra p w \<Rightarrow> do { (p, w) \<leftarrow> put_field M (flag_leftjustify s) t wd zExtra p w; Some (Some z', args2, p, w) })"
    using parse(1) cv(1) by (simp add: directive_def split: conv.split)
  show ?thesis
  proof (cases r)
    case None
    then show ?thesis using cv d by simp
  next
    case (Some out)
    then have ok: "conv_ok M k lim (flag_leftjustify s) p w out cv" using cv by simp
    show ?thesis
    proof (cases cv)
      case (Quit p1 w1)
      then show ?thesis using ok d Some by (simp add: conv_ok_def)
    next
      case (Field t wd zExtra p1 w1)
      then show ?thesis using conv_ok_put [OF ok [unfolded Field]] d Some by auto
    qed
  qed
qed

text \<open>The literal text before a percent sign.\<close>
lemma literal_prints:
  assumes g: "growing_inv M k lim (p, w)" and "length fmt < 2 ^ 31" "fmt \<noteq> []"
  shows "\<exists>p1 w1. prints M k lim p w (takeWhile (\<lambda>c. c \<noteq> 0x25) fmt) p1 w1
    \<and> format_loop M lp64 X b fmt args p w =
        (case dropWhile (\<lambda>c. c \<noteq> 0x25) fmt of
           [] \<Rightarrow> Some (args, p1, w1)
         | c # z \<Rightarrow>
             case directive M lp64 X b z args p1 w1 of
               None \<Rightarrow> None
             | Some (None, args, p, w) \<Rightarrow> Some (args, p, w)
             | Some (Some fmt, args, p, w) \<Rightarrow> format_loop M lp64 X b fmt args p w)"
proof -
  define lit where "lit = takeWhile (\<lambda>c. c \<noteq> 0x25) fmt"
  have "length lit < 2 ^ 31" using assms(2) by (simp add: lit_def order_le_less_trans [OF length_takeWhile_le])
  then obtain p1 w1 where 1: "(if lit \<noteq> [] then sqlite3_str_append M p lit w else Some (p, w)) = Some (p1, w1)" "prints M k lim p w lit p1 w1"
    using append_prints [OF g, of lit] prints_refl [OF g] by (cases "lit = []") auto
  then show ?thesis using assms(3)
    by (intro exI [of _ p1] exI [of _ w1], subst format_loop.simps) (simp add: lit_def [symmetric] Let_def)
qed

lemma format_loop_prints:
  assumes "growing_inv M k lim (p, w)" "length fmt < 2 ^ 31" "render lp64 b fmt args = Some out"
  shows "\<exists>args' p' w'. format_loop M lp64 X b fmt args p w = Some (args', p', w') \<and> prints M k lim p w out p' w'"
  using assms
proof (induction "length fmt" arbitrary: fmt args p w out rule: less_induct)
  case less
  note g = less.prems(1)
  define lit where "lit = takeWhile (\<lambda>c. c \<noteq> 0x25) fmt"
  note ren = less.prems(3) [unfolded render.simps [of lp64 b fmt] lit_def [symmetric] Let_def]
  show ?case
  proof (cases "fmt = []")
    case True
    then show ?thesis using less.prems(3) prints_refl [OF g] by (simp add: render.simps format_loop.simps)
  next
    case False
    obtain p1 w1 where 1: "prints M k lim p w lit p1 w1"
        "format_loop M lp64 X b fmt args p w =
          (case dropWhile (\<lambda>c. c \<noteq> 0x25) fmt of
             [] \<Rightarrow> Some (args, p1, w1)
           | c # z \<Rightarrow>
               case directive M lp64 X b z args p1 w1 of
                 None \<Rightarrow> None
               | Some (None, args, p, w) \<Rightarrow> Some (args, p, w)
               | Some (Some fmt, args, p, w) \<Rightarrow> format_loop M lp64 X b fmt args p w)"
      using literal_prints [OF g less.prems(2) False] lit_def by blast
    note g1 = prints_inv [OF 1(1)]
    consider (stop) "dropWhile (\<lambda>c. c \<noteq> 0x25) fmt = []" | (percent) d where "dropWhile (\<lambda>c. c \<noteq> 0x25) fmt = [d]"
      | (conv) d c z where "dropWhile (\<lambda>c. c \<noteq> 0x25) fmt = d # c # z"
      by (metis neq_Nil_conv)
    then show ?thesis
    proof cases
      case stop
      show ?thesis using 1 ren unfolding stop list.case by simp
    next
      case percent
      obtain p2 w2 where 2: "sqlite3_str_append M p1 [0x25] w1 = Some (p2, w2)" "prints M k lim p1 w1 [0x25] p2 w2"
        using append_prints [OF g1, of "[0x25]"] by auto
      show ?thesis using 1(2) ren 2(1) prints_trans [OF 1(1) 2(2)] unfolding percent list.case
        by (simp add: directive_def)
    next
      case conv
      obtain s c' z' args1 r args2 where parse: "parse_spec b c z args no_flags = Some ((s, c', z'), args1)" "sane s"
          and r: "conv_ref lp64 b (fst (find_info c')) (snd (find_info c')) s args1 = Some (r, args2)"
          and out: "case r of None \<Rightarrow> out = lit | Some o1 \<Rightarrow> \<exists>o2. render lp64 b z' args2 = Some o2 \<and> out = lit @ o1 @ o2"
        using ren unfolding conv list.case by (auto split: option.splits if_splits)
      obtain rest p2 w2 where d: "directive M lp64 X b (c # z) args p1 w1 = Some (rest, args2, p2, w2)"
          "case r of None \<Rightarrow> rest = None \<and> p2 = p1 \<and> w2 = w1
           | Some out \<Rightarrow> prints M k lim p1 w1 out p2 w2 \<and> (rest = Some z' \<or> rest = None \<and> accError p2 \<noteq> 0)"
        using directive_prints [OF g1 parse r, of X] by blast
      have loop: "format_loop M lp64 X b fmt args p w =
          (case rest of None \<Rightarrow> Some (args2, p2, w2) | Some fmt \<Rightarrow> format_loop M lp64 X b fmt args2 p2 w2)"
        using 1(2) d(1) unfolding conv list.case by (simp split: option.split)
      show ?thesis
      proof (cases r)
        case None
        then show ?thesis using 1(1) d(2) out loop by simp
      next
        case (Some o1)
        then obtain o2 where o2: "render lp64 b z' args2 = Some o2" "out = lit @ o1 @ o2" using out by auto
        have 2: "prints M k lim p w (lit @ o1) p2 w2" "rest = Some z' \<or> rest = None \<and> accError p2 \<noteq> 0"
          using Some d(2) prints_trans [OF 1(1)] by auto
        have "length z' < length fmt"
          using parse_spec_shorter [OF parse(1)] dropWhile_shorter [OF conv] by simp
        then obtain args3 p3 w3 where 3: "format_loop M lp64 X b z' args2 p2 w2 = Some (args3, p3, w3)" "prints M k lim p2 w2 o2 p3 w3"
          using less.hyps [OF _ prints_inv [OF 2(1)] _ o2(1)] less.prems(2) by auto
        show ?thesis
          using 2(2) loop 3(1) prints_trans [OF 2(1) 3(2)] prints_failed [OF 2(1), of o2] o2(2) by auto
      qed
    qed
  qed
qed

section \<open>Printing to a new string\<close>

lemma vmprintf_prints:
  assumes "sizes_ok M" "length fmt < 2 ^ 31" "render lp64 False fmt args = Some out"
  shows "\<exists>z w'. sqlite3_vmprintf M lp64 X fmt args w = Some (z, w') \<and> live (heap w') = live (heap w) + (if z = None then 0 else 1)
    \<and> (\<forall>b. z = Some b \<longrightarrow> take (length out + 1) b = out @ [0])
    \<and> (z = None \<longrightarrow> out = [] \<or> 1000000000 \<le> length out + 12 \<or> \<not> plenty (heap w))"
proof -
  let ?base = "map (junk M) [0..<etBUFSIZE]"
  define p where "p = sqlite3StrAccumInit False (Some ?base) (int etBUFSIZE) SQLITE_MAX_LENGTH"
  have p_eq: "p = sqlite3StrAccumInit False (Some ?base) (case Some ?base of None \<Rightarrow> 0 | Some b \<Rightarrow> int (length b)) SQLITE_MAX_LENGTH"
    by (simp add: p_def)
  have "?base \<noteq> []" "length ?base < 2 ^ 31" by (simp_all add: etBUFSIZE_def)
  then have init: "acc_inv p" "accounts (live (heap w)) p w" "text_of p = []" "accError p = 0" "unat (mxAlloc p) = 1000000000"
    using init_inv [OF _ _ _ p_eq] by (simp_all add: SQLITE_MAX_LENGTH_def)
  then have g: "growing_inv M (live (heap w)) 1000000000 (p, w)"
    using assms(1) by (auto simp: growing_inv_def)
  have b: "(printfFlags p AND SQLITE_PRINTF_SQLFUNC \<noteq> 0) = False" by (simp add: p_def sqlite3StrAccumInit_def)
  obtain args' p1 w1 where 1: "format_loop M lp64 X False fmt args p w = Some (args', p1, w1)"
      "prints M (live (heap w)) 1000000000 p w out p1 w1"
    using format_loop_prints [OF g assms(2,3)] by blast
  have inv: "acc_inv p1" "accounts (live (heap w)) p1 w1" "mxAlloc p1 \<noteq> 0" and pl: "plenty (heap w) \<longrightarrow> plenty (heap w1)"
    using 1(2) by (auto simp: prints_def growing_inv_def)
  have cases: "accError p1 = 0 \<and> text_of p1 = out \<or> accError p1 = SQLITE_TOOBIG \<and> 1000000000 \<le> length out + 12
      \<or> accError p1 = SQLITE_NOMEM \<and> \<not> plenty (heap w)"
    using 1(2) init by (simp add: prints_def)
  obtain z p2 w2 where fin: "sqlite3StrAccumFinish M p1 w1 = Some (z, p2, w2)" "live (heap w2) = live (heap w) + (if z = None then 0 else 1)"
      "\<forall>b. z = Some b \<longrightarrow> take (unat (nChar p1) + 1) b = text_of p1 @ [0]" "z = None \<longrightarrow> zText p1 = None \<or> \<not> plenty (heap w1)"
    using finish_growing [OF inv assms(1)] by auto
  have len: "unat (nChar p1) = length (text_of p1)" using text_length inv(1) by (simp add: acc_inv_def)
  have none: "accError p1 \<noteq> 0 \<Longrightarrow> z = None" using inv(1,3) fin(1) by (auto simp: acc_inv_def sqlite3StrAccumFinish_def)
  have empty: "zText p1 = None \<Longrightarrow> text_of p1 = []" by (simp add: text_of_def)
  have "sqlite3_vmprintf M lp64 X fmt args w = Some (z, w2)"
    using 1(1) fin(1) b by (simp add: sqlite3_vmprintf_def sqlite3_str_vappendf_def p_def [symmetric])
  then show ?thesis using fin cases none empty len pl by auto
qed

subsection \<open>Quoted strings and integers\<close>

lemma parse_end: "simple_flag c s = None \<Longrightarrow> c \<notin> {0x6c, 0x2a, 0x2e} \<Longrightarrow> \<not> spec_digit c \<Longrightarrow> parse_spec b c z args s = Some ((s, c, z), args)"
  by (simp add: parse_spec.simps)

lemma sane_no_flags: "sane no_flags" "sane (no_flags\<lparr>flag_long := n\<rparr>)"
  by (simp_all add: sane_def no_flags_def)

lemma no_flags_fields [simp]:
  "flag_leftjustify no_flags = False" "flag_prefix no_flags = 0" "flag_alternateform no_flags = False" "flag_altform2 no_flags = False"
  "flag_zeropad no_flags = False" "flag_long no_flags = 0" "cThousand no_flags = 0" "width no_flags = 0" "precision no_flags = - 1"
  by (simp_all add: no_flags_def)

lemma find_Q: "find_info 0x51 = (et CHR ''Q'' 0 4 etSQLESCAPE2 0 0, etSQLESCAPE2)"
  by (simp add: find_info_def fmtinfo_def et_def)

lemma find_d: "find_info 0x64 = (et CHR ''d'' 10 1 etDECIMAL 0 0, etDECIMAL)"
  by (simp add: find_info_def fmtinfo_def et_def)

lemma pad_0 [simp]: "pad_ref left 0 t = t"
  by (simp add: pad_ref_def)

lemma render_Q:
  assumes "length z < 2 ^ 29"
  shows "render lp64 False [0x25, 0x51] [Arg_Text (Some z)] = Some (0x27 # doubled 0x27 z @ [0x27])"
proof -
  have "parse_spec False 0x51 [] [Arg_Text (Some z)] no_flags = Some ((no_flags, 0x51, []), [Arg_Text (Some z)])"
    by (rule parse_end) (simp_all add: simple_flag_def spec_digit_def)
  moreover have "esc_field etSQLESCAPE2 no_flags (Some z) = 0x27 # doubled 0x27 z @ [0x27]"
    using esc_scan_all [of "- 1" False "0x27" z] by (simp add: esc_field_def Let_def)
  ultimately show ?thesis using assms
    by (simp add: render.simps [of lp64 False "[0x25, 0x51]"] render.simps [of lp64 False "[]"] sane_no_flags find_Q conv_ref_def
        with_text_def getTextArg_def short_def text_field_def wide_def)
qed

lemma digits_10: "digits_in 10 (drop 0 aDigits) n = nat_decimal n"
proof (induction n rule: nat_decimal.induct)
  case (1 n)
  have "aDigits ! d = word_of_nat (48 + d)" if "d < 10" for d
  proof -
    have "list_all (\<lambda>d. aDigits ! d = word_of_nat (48 + d)) [0..<10]" by (simp add: aDigits_def ascii_def upt_rec)
    then show ?thesis using that by (simp add: list_all_iff)
  qed
  then show ?case using 1 by (simp add: digits_in.simps [of 10 aDigits n] nat_decimal.simps [of n])
qed

lemma render_lld:
  assumes "is_i64 v"
  shows "render lp64 False [0x25, 0x6c, 0x6c, 0x64] [Arg_Int v] = Some (decimal v)"
proof -
  let ?s = "no_flags\<lparr>flag_long := 2\<rparr>"
  have parse: "parse_spec False 0x6c [0x6c, 0x64] [Arg_Int v] no_flags = Some ((?s, 0x64, []), [Arg_Int v])"
    by (simp add: parse_spec.simps simple_flag_def long_flag_def)
  have v: "to_i64 v = v" using assms by (auto simp: is_i64_def to_i64_def signed_take_bit_int_eq_self)
  have neg: "NOT (word_of_int v) + 1 = (word_of_int (- v) :: u64)" by (simp add: minus_eq_not_plus_1 [symmetric])
  have u: "unat (word_of_int x :: u64) = nat x" if "0 \<le> x" "x < 2 ^ 64" for x
    using that by (simp add: unat_eq_nat_uint uint_word_of_int_eq take_bit_int_eq_self)
  have "int_field lp64 False (et CHR ''d'' 10 1 etDECIMAL 0 0) etDECIMAL ?s v = decimal v"
    using assms v neg u [of "- v"] u [of v] digits_10
    by (simp add: int_field_def int_value_def signed_arg_def et_def FLAG_SIGNED_def int_ref_def int_precision_def decimal_def is_i64_def)
  then show ?thesis using parse
    by (simp add: render.simps [of lp64 False "[0x25, 0x6c, 0x6c, 0x64]"] render.simps [of lp64 False "[]"] sane_no_flags find_d
        conv_ref_def with_int_def getIntArg_def)
qed

text \<open>
  Every format and arguments to which the reference gives a text, in the mode of C arguments and in that of the SQL function: on an
  accumulator that may grow, \<open>sqlite3_str_vappendf\<close> adds exactly that text or the accumulator has failed.
\<close>
lemma vappendf_renders:
  assumes "growing_inv M k lim (p, w)" "length fmt < 2 ^ 31"
    "render lp64 (printfFlags p AND SQLITE_PRINTF_SQLFUNC \<noteq> 0) fmt args = Some out"
  shows "\<exists>args' p' w'. sqlite3_str_vappendf M lp64 X p fmt args w = Some (args', p', w') \<and> growing_inv M k lim (p', w')
    \<and> (if accError p \<noteq> 0 then accError p' = accError p
       else accError p' = 0 \<and> text_of p' = text_of p @ out
         \<or> accError p' = SQLITE_TOOBIG \<and> lim \<le> length (text_of p @ out) + 12
         \<or> accError p' = SQLITE_NOMEM \<and> \<not> plenty (heap w))"
  using format_loop_prints [OF assms] unfolding sqlite3_str_vappendf_def prints_def by metis

section \<open>Two corner cases\<close>

text \<open>
  An empty first conversion allocates a block of one byte, which \<open>%z\<close> then drops: of the two blocks in use at the end only one
  is the string.
\<close>
lemma percent_z_leaks:
  "(case sqlite3_str_new None \<lparr>heap = \<lparr>verdicts = [], live = 1\<rparr>, pParse = None\<rparr> of
      (Heap_Str p, w) \<Rightarrow> do {
        (args, p, w) \<leftarrow> sqlite3_str_vappendf exact_blocks True X p [0x25, 0x73, 0x25, 0x7a] [Arg_Text (Some []), Arg_Block [0x61]] w;
        (z, w) \<leftarrow> sqlite3_str_finish exact_blocks (Heap_Str p) w;
        Some (z, live (heap w)) }
    | _ \<Rightarrow> None) = Some (Some [0x61, 0], 2)"
  by code_simp

text \<open>
  In a fixed buffer a repeated character that does not fit leaves room unused, and the format goes on: printing twenty letters
  \<open>a\<close> and then \<open>X\<close> into twelve bytes gives nine letters and an \<open>X\<close>.
\<close>
lemma snprintf_not_prefix:
  "map_option fst (sqlite3_vsnprintf exact_blocks True X 12 (replicate 12 1) [0x25, 0x2e, 0x32, 0x30, 0x63, 0x58] [Arg_Int 97] fresh_world)
    = Some (Some (replicate 9 0x61 @ [0x58, 0, 1]))"
  by code_simp

end
