(* ===== verification/Format_Items.thy ===== *)
theory Format_Items
  imports Format_Correct
begin

text \<open>
  The language of formats.  A format is written as a sequence of literal texts and directives; \<open>format_of\<close> prints that
  sequence as the bytes \<open>sqlite3_str_vappendf\<close> (\<open>src/db/sqlite3.c\<close>) reads, \<open>args_of\<close> lists the arguments the call has to
  pass, and \<open>item_text\<close> says, over unbounded numbers and without any of the code's scanners and buffers, what each item
  stands for.  The theorem at the end shows that the call prints exactly those texts.
\<close>

section \<open>Formats\<close>

datatype flag = Minus | Plus | Space | Hash | Zero | Comma

text \<open>A width or a precision: none, written in the format, or taken from the arguments.\<close>
datatype amount = Unset | Fixed nat | Star int

datatype len = Plain | Long | LongLong

text \<open>\<open>%d\<close>, \<open>%i\<close>, \<open>%r\<close>, \<open>%u\<close>, \<open>%o\<close>, \<open>%x\<close>, \<open>%X\<close> and \<open>%p\<close>.\<close>
datatype kind = Kd | Ki | Kr | Ku | Ko | Kx | KX | Kp

text \<open>\<open>%q\<close>, \<open>%Q\<close> and \<open>%w\<close>.\<close>
datatype quoting = Qq | QQ | Qw

datatype conversion =
    Number kind int
  | Letter nat
  | Text "bytes option"
  | Quoted quoting "bytes option"
  | Percent

datatype item = Literal bytes | Directive "flag list" amount amount len conversion

fun flag_char :: "flag \<Rightarrow> u8" where
  "flag_char Minus = 0x2d" | "flag_char Plus = 0x2b" | "flag_char Space = 0x20"
| "flag_char Hash = 0x23" | "flag_char Zero = 0x30" | "flag_char Comma = 0x2c"

fun amount_text :: "amount \<Rightarrow> bytes" where
  "amount_text Unset = []" | "amount_text (Fixed n) = nat_decimal n" | "amount_text (Star v) = [0x2a]"

fun amount_args :: "amount \<Rightarrow> printf_arg list" where
  "amount_args (Star v) = [Arg_Int v]" | "amount_args _ = []"

definition precision_text :: "amount \<Rightarrow> bytes" where
  "precision_text a = (if a = Unset then [] else 0x2e # amount_text a)"

fun len_text :: "len \<Rightarrow> bytes" where
  "len_text Plain = []" | "len_text Long = [0x6c]" | "len_text LongLong = [0x6c, 0x6c]"

fun kind_char :: "kind \<Rightarrow> u8" where
  "kind_char Kd = 0x64" | "kind_char Ki = 0x69" | "kind_char Kr = 0x72" | "kind_char Ku = 0x75"
| "kind_char Ko = 0x6f" | "kind_char Kx = 0x78" | "kind_char KX = 0x58" | "kind_char Kp = 0x70"

fun conversion_char :: "conversion \<Rightarrow> u8" where
  "conversion_char (Number k v) = kind_char k"
| "conversion_char (Letter c) = 0x63"
| "conversion_char (Text z) = 0x73"
| "conversion_char (Quoted Qq z) = 0x71"
| "conversion_char (Quoted QQ z) = 0x51"
| "conversion_char (Quoted Qw z) = 0x77"
| "conversion_char Percent = 0x25"

fun conversion_args :: "conversion \<Rightarrow> printf_arg list" where
  "conversion_args (Number k v) = [Arg_Int v]"
| "conversion_args (Letter c) = [Arg_Int (int c)]"
| "conversion_args (Text z) = [Arg_Text z]"
| "conversion_args (Quoted q z) = [Arg_Text z]"
| "conversion_args Percent = []"

fun item_format :: "item \<Rightarrow> bytes" where
  "item_format (Literal z) = z"
| "item_format (Directive fs wd pr l c) =
     0x25 # map flag_char fs @ amount_text wd @ precision_text pr @ len_text l @ [conversion_char c]"

fun item_args :: "item \<Rightarrow> printf_arg list" where
  "item_args (Literal z) = []"
| "item_args (Directive fs wd pr l c) = amount_args wd @ amount_args pr @ conversion_args c"

definition format_of :: "item list \<Rightarrow> bytes" where
  "format_of items = concat (map item_format items)"

definition args_of :: "item list \<Rightarrow> printf_arg list" where
  "args_of items = concat (map item_args items)"

section \<open>What a format means\<close>

fun amount_value :: "amount \<Rightarrow> nat" where
  "amount_value Unset = 0" | "amount_value (Fixed n) = n" | "amount_value (Star v) = nat \<bar>v\<bar>"

fun negative :: "amount \<Rightarrow> bool" where
  "negative (Star v) = (v < 0)" | "negative _ = False"

text \<open>A negative width in the arguments asks for left justification.\<close>
definition to_left :: "flag list \<Rightarrow> amount \<Rightarrow> bool" where
  "to_left fs wd \<longleftrightarrow> Minus \<in> set fs \<or> negative wd"

text \<open>A text of \<open>n\<close> characters in a field.\<close>
definition in_field :: "bool \<Rightarrow> nat \<Rightarrow> nat \<Rightarrow> bytes \<Rightarrow> bytes" where
  "in_field left wd n t = (if left then t @ replicate (wd - n) 0x20 else replicate (wd - n) 0x20 @ t)"

text \<open>The mark of a number that is not negative: the last of the flags \<open>+\<close> and blank counts.\<close>
fun mark :: "flag list \<Rightarrow> bytes" where
  "mark [] = []"
| "mark (f # fs) = (if mark fs \<noteq> [] then mark fs else if f = Plus then [0x2b] else if f = Space then [0x20] else [])"

definition is_signed :: "kind \<Rightarrow> bool" where
  "is_signed k \<longleftrightarrow> k \<in> {Kd, Ki, Kr}"

definition radix :: "kind \<Rightarrow> nat" where
  "radix k = (if k = Ko then 8 else if k \<in> {Kx, KX, Kp} then 16 else 10)"

definition digit_char :: "kind \<Rightarrow> nat \<Rightarrow> u8" where
  "digit_char k d = of_nat (if d < 10 then 0x30 + d else if k = Kx then 0x61 + (d - 10) else 0x41 + (d - 10))"

lemma radix_ge: "8 \<le> radix k"
  by (simp add: radix_def)

text \<open>The numeral of a number.\<close>
function numeral_text :: "kind \<Rightarrow> nat \<Rightarrow> bytes" where
  "numeral_text k n = (if n < radix k then [digit_char k n] else numeral_text k (n div radix k) @ [digit_char k (n mod radix k)])"
  by pat_completeness auto
termination
proof (relation "measure snd", goal_cases)
  case (2 k n)
  then show ?case using radix_ge [of k] by (auto intro!: div_less_dividend)
qed simp

declare numeral_text.simps [simp del]

definition radix_mark :: "kind \<Rightarrow> bytes" where
  "radix_mark k = (if k = Ko then [0x30] else if k \<in> {Kx, Kp} then [0x30, 0x78] else if k = KX then [0x30, 0x58] else [])"

text \<open>
  A number: its numeral, with an English ending for an ordinal, filled with zeros up to the precision and with the flag \<open>0\<close>
  up to the width, with separators, the sign and the mark of the radix.
\<close>
definition number_text :: "flag list \<Rightarrow> nat \<Rightarrow> nat \<Rightarrow> kind \<Rightarrow> int \<Rightarrow> bytes" where
  "number_text fs wd pr k v =
     (let n = nat \<bar>v\<bar>;
          sign = (if v < 0 then [0x2d] else if is_signed k then mark fs else []);
          body = numeral_text k n @ (if k = Kr then ordinal_ending n else []);
          least = max pr (if Zero \<in> set fs then wd - length sign else 0);
          body = replicate (least - length body) 0x30 @ body
      in (if Hash \<in> set fs \<and> n \<noteq> 0 then radix_mark k else []) @ sign
         @ (if Comma \<in> set fs \<and> k \<in> {Kd, Ki, Ku} then group3 0x2c body else body))"

text \<open>The part of a string a precision leaves.\<close>
definition cut :: "amount \<Rightarrow> bytes \<Rightarrow> bytes" where
  "cut pr z = (if pr = Unset then z else take (amount_value pr) z)"

fun quoted_text :: "quoting \<Rightarrow> amount \<Rightarrow> bytes option \<Rightarrow> bytes" where
  "quoted_text Qq pr (Some z) = doubled 0x27 (cut pr z)"
| "quoted_text Qw pr (Some z) = doubled 0x22 (cut pr z)"
| "quoted_text QQ pr (Some z) = 0x27 # doubled 0x27 (cut pr z) @ [0x27]"
| "quoted_text QQ pr None = cut pr (ascii ''NULL'')"
| "quoted_text _ pr None = cut pr (ascii ''(NULL)'')"

fun item_text :: "item \<Rightarrow> bytes" where
  "item_text (Literal z) = z"
| "item_text (Directive fs wd pr l (Number k v)) =
     (let t = number_text fs (amount_value wd) (amount_value pr) k v in in_field (to_left fs wd) (amount_value wd) (length t) t)"
| "item_text (Directive fs wd pr l (Letter c)) =
     (let n = max 1 (amount_value pr)
      in in_field (to_left fs wd) (amount_value wd) n (concat (replicate n (map of_nat (utf8_codes c)))))"
| "item_text (Directive fs wd pr l (Text z)) =
     (let t = (case z of None \<Rightarrow> [] | Some z \<Rightarrow> cut pr z) in in_field (to_left fs wd) (amount_value wd) (length t) t)"
| "item_text (Directive fs wd pr l (Quoted q z)) =
     (let t = quoted_text q pr z in in_field (to_left fs wd) (amount_value wd) (length t) t)"
| "item_text (Directive fs wd pr l Percent) = in_field (to_left fs wd) (amount_value wd) 1 [0x25]"

definition text_of_items :: "item list \<Rightarrow> bytes" where
  "text_of_items items = concat (map item_text items)"

section \<open>Calls that pass what the format says\<close>

text \<open>The bits of the C type the directive reads; \<open>lp64\<close> tells whether \<open>long\<close> has 64.\<close>
definition arg_bits :: "bool \<Rightarrow> len \<Rightarrow> kind \<Rightarrow> nat" where
  "arg_bits lp64 l k = (if k = Kp \<or> l = LongLong \<or> l = Long \<and> lp64 then 64 else 32)"

definition arg_fits :: "bool \<Rightarrow> len \<Rightarrow> kind \<Rightarrow> int \<Rightarrow> bool" where
  "arg_fits lp64 l k v \<longleftrightarrow>
     (if is_signed k then - (2 ^ (arg_bits lp64 l k - 1)) \<le> v \<and> v < 2 ^ (arg_bits lp64 l k - 1)
      else 0 \<le> v \<and> v < 2 ^ arg_bits lp64 l k)"

fun conversion_ok :: "bool \<Rightarrow> len \<Rightarrow> conversion \<Rightarrow> bool" where
  "conversion_ok lp64 l (Number k v) = arg_fits lp64 l k v"
| "conversion_ok lp64 l (Letter c) = (c < 0x110000)"
| "conversion_ok lp64 l (Text z) = short z"
| "conversion_ok lp64 l (Quoted q z) = short z"
| "conversion_ok lp64 l Percent = True"

text \<open>A literal has no percent sign, and a width that starts with 0 would be a flag; widths and precisions are below \<open>2 ^ 30\<close>.\<close>
fun item_ok :: "bool \<Rightarrow> item \<Rightarrow> bool" where
  "item_ok lp64 (Literal z) = (0x25 \<notin> set z)"
| "item_ok lp64 (Directive fs wd pr l c) =
     (wd \<noteq> Fixed 0 \<and> amount_value wd < 2 ^ 30 \<and> amount_value pr < 2 ^ 30 \<and> conversion_ok lp64 l c)"

section \<open>Reading a directive\<close>

text \<open>The flags, the width, the precision and the length of a directive as the code keeps them.\<close>
definition directive_spec :: "flag list \<Rightarrow> amount \<Rightarrow> amount \<Rightarrow> len \<Rightarrow> fspec" where
  "directive_spec fs wd pr l =
     \<lparr>flag_leftjustify = to_left fs wd, flag_prefix = first (mark fs), flag_alternateform = (Hash \<in> set fs),
      flag_altform2 = False, flag_zeropad = (Zero \<in> set fs), flag_long = length (len_text l),
      cThousand = (if Comma \<in> set fs then 0x2c else 0), width = int (amount_value wd),
      precision = (if pr = Unset then - 1 else int (amount_value pr))\<rparr>"

lemma decimal_nonempty [simp]: "nat_decimal n \<noteq> []"
  by (subst nat_decimal.simps) simp

lemma digit_byte: "d < 10 \<Longrightarrow> spec_digit (of_nat (48 + d))"
  by (simp add: spec_digit_def word_le_nat_alt unsigned_of_nat take_bit_nat_eq_self del: of_nat_add)

lemma decimal_spec_digits: "\<forall>c\<in>set (nat_decimal n). spec_digit c"
proof (induction n rule: nat_decimal.induct)
  case (1 n)
  then show ?case using digit_byte [of n] digit_byte [of "n mod 10"]
    by (cases "n < 10") (auto simp: nat_decimal.simps [of n] simp del: of_nat_add)
qed

lemma decimal_first: "0 < n \<Longrightarrow> hd (nat_decimal n) \<noteq> 0x30"
proof (induction n rule: nat_decimal.induct)
  case (1 n)
  show ?case
  proof (cases "n < 10")
    case True
    have "unat (of_nat (48 + n) :: u8) = 48 + n" using True by (simp add: unsigned_of_nat take_bit_nat_eq_self del: of_nat_add)
    then have "of_nat (48 + n) \<noteq> (0x30 :: u8)" using 1(2) by (auto simp del: of_nat_add)
    then show ?thesis using True by (simp add: nat_decimal.simps [of n])
  next
    case False
    then show ?thesis using 1 by (simp add: nat_decimal.simps [of n])
  qed
qed

lemma read_number_decimal: "read_number (nat_decimal n) = of_nat n"
proof (induction n rule: nat_decimal.induct)
  case (1 n)
  have d: "ucast (of_nat (48 + d) :: u8) = (of_nat (48 + d) :: u32)" if "d < 10" for d
    using that by (simp add: unsigned_of_nat take_bit_nat_eq_self unsigned_ucast_eq word_unat_eq_iff del: of_nat_add)
  show ?case
  proof (cases "n < 10")
    case True
    then show ?thesis using d [OF True] by (simp add: nat_decimal.simps [of n] read_number_def)
  next
    case False
    have "read_number (nat_decimal n) = read_number (nat_decimal (n div 10)) * 10 + ucast (of_nat (48 + n mod 10) :: u8) - 0x30"
      using False by (simp add: nat_decimal.simps [of n] read_number_def)
    also have "\<dots> = of_nat (n div 10) * of_nat 10 + of_nat (n mod 10)" using 1 False d [of "n mod 10"] by simp
    also have "\<dots> = of_nat (n div 10 * 10 + n mod 10)" by (simp only: of_nat_add of_nat_mult)
    finally show ?thesis by simp
  qed
qed

lemma spec_number_decimal: "n < 2 ^ 30 \<Longrightarrow> spec_number (nat_decimal n) = int n"
proof -
  assume n: "n < 2 ^ 30"
  have "(0x7fffffff :: u32) = mask 31" by (simp add: mask_eq_exp_minus_1)
  moreover have "uint (take_bit 31 (of_nat n :: u32)) = int n"
    using n by (simp add: unsigned_take_bit_eq unsigned_of_nat take_bit_nat_eq_self take_bit_int_eq_self)
  ultimately show ?thesis by (simp add: spec_number_def read_number_decimal take_bit_eq_mask)
qed

lemma digits_prefix:
  assumes "\<forall>c\<in>set ds. spec_digit c" "\<not> spec_digit d"
  shows "takeWhile spec_digit (ds @ d # z) = ds" "dropWhile spec_digit (ds @ d # z) = d # z"
  using assms by (simp_all add: takeWhile_append dropWhile_append)

lemma simple_flag_char:
  "simple_flag (flag_char f) s = Some (case f of
     Minus \<Rightarrow> s\<lparr>flag_leftjustify := True\<rparr> | Plus \<Rightarrow> s\<lparr>flag_prefix := 0x2b\<rparr> | Space \<Rightarrow> s\<lparr>flag_prefix := 0x20\<rparr>
   | Hash \<Rightarrow> s\<lparr>flag_alternateform := True\<rparr> | Zero \<Rightarrow> s\<lparr>flag_zeropad := True\<rparr> | Comma \<Rightarrow> s\<lparr>cThousand := 0x2c\<rparr>)"
  by (cases f) (simp_all add: simple_flag_def)

text \<open>The state after the flags \<open>fs\<close> in a state \<open>s\<close>.\<close>
definition flagged :: "flag list \<Rightarrow> fspec \<Rightarrow> fspec" where
  "flagged fs s = s\<lparr>flag_leftjustify := flag_leftjustify s \<or> Minus \<in> set fs,
     flag_prefix := (if mark fs = [] then flag_prefix s else first (mark fs)),
     flag_alternateform := flag_alternateform s \<or> Hash \<in> set fs, flag_zeropad := flag_zeropad s \<or> Zero \<in> set fs,
     cThousand := (if Comma \<in> set fs then 0x2c else cThousand s)\<rparr>"

lemma parse_flags:
  "z \<noteq> [] \<Longrightarrow> parse_spec b (hd (map flag_char fs @ z)) (tl (map flag_char fs @ z)) args s = parse_spec b (hd z) (tl z) args (flagged fs s)"
proof (induction fs arbitrary: s)
  case Nil
  then show ?case by (simp add: flagged_def)
next
  case (Cons f fs)
  define r where "r = map flag_char fs @ z"
  obtain d y where r: "r = d # y" using Cons.prems by (cases r) (auto simp: r_def)
  have "\<exists>s'. simple_flag (flag_char f) s = Some s' \<and> flagged fs s' = flagged (f # fs) s"
    unfolding simple_flag_char by (cases f) (simp_all add: flagged_def)
  then obtain s' where s': "simple_flag (flag_char f) s = Some s'" "flagged fs s' = flagged (f # fs) s" by blast
  have "parse_spec b (flag_char f) r args s = parse_spec b d y args s'"
    by (subst parse_spec.simps) (simp add: s' r)
  then show ?case using Cons.IH [OF Cons.prems, of s'] s'(2) by (simp add: r_def [symmetric] r)
qed

text \<open>What may follow the width, the precision and the length: a character that none of them uses.\<close>
definition plain :: "u8 \<Rightarrow> bool" where
  "plain c \<longleftrightarrow> c \<notin> {0x2d, 0x2b, 0x20, 0x23, 0x21, 0x30, 0x2c, 0x6c, 0x2a, 0x2e} \<and> \<not> spec_digit c"

lemma plain_conversion: "plain (conversion_char c)"
proof -
  have "plain (kind_char k)" for k by (cases k) (simp_all add: plain_def spec_digit_def)
  then show ?thesis by (cases c rule: conversion_char.cases) (simp_all add: plain_def spec_digit_def)
qed

lemma not_flag: "c \<notin> {0x2d, 0x2b, 0x20, 0x23, 0x21, 0x30, 0x2c} \<Longrightarrow> simple_flag c s = None"
  by (simp add: simple_flag_def)

lemma parse_plain: "plain c \<Longrightarrow> parse_spec b c z args s = Some ((s, c, z), args)"
  by (rule parse_end) (auto simp: plain_def not_flag)


text \<open>After the last piece the loop stops where the code stops it, or goes on to the same effect.\<close>
definition reads :: "bool \<Rightarrow> bytes \<Rightarrow> printf_arg list \<Rightarrow> fspec \<Rightarrow> fspec \<Rightarrow> u8 \<Rightarrow> bytes \<Rightarrow> printf_arg list \<Rightarrow> bool" where
  "reads b z args s s' c rest args' \<longleftrightarrow> (\<exists>d y. z = d # y \<and> \<not> spec_digit d \<and> d \<notin> {0x2d, 0x2b, 0x20, 0x23, 0x21, 0x30, 0x2c, 0x2a}
     \<and> parse_spec b d y args s = Some ((s', c, rest), args')
     \<and> (d \<noteq> 0x6c \<longrightarrow> d \<noteq> 0x2e \<longrightarrow> s' = s \<and> c = d \<and> rest = y \<and> args' = args))"

lemma reads_length:
  assumes "plain c" "flag_long s = 0"
  shows "reads b (len_text l @ c # rest) args s (s\<lparr>flag_long := length (len_text l)\<rparr>) c rest args"
proof (cases l)
  case Plain
  then show ?thesis using assms parse_plain [OF assms(1)] by (auto simp: reads_def plain_def)
next
  case Long
  then show ?thesis using assms(1)
    by (auto simp: reads_def parse_spec.simps [of b "0x6c"] simple_flag_def spec_digit_def long_flag_def plain_def)
next
  case LongLong
  then show ?thesis using assms(1)
    by (auto simp: reads_def parse_spec.simps [of b "0x6c"] simple_flag_def spec_digit_def long_flag_def plain_def)
qed

lemma star_values:
  "\<bar>v\<bar> < 2 ^ 30 \<Longrightarrow> star_width s v = s\<lparr>flag_leftjustify := flag_leftjustify s \<or> v < 0, width := \<bar>v\<bar>\<rparr>"
  "\<bar>v\<bar> < 2 ^ 30 \<Longrightarrow> star_precision s v = s\<lparr>precision := \<bar>v\<bar>\<rparr>"
proof -
  assume "\<bar>v\<bar> < 2 ^ 30"
  then have "to_i32 v = v" "- 2147483647 \<le> v" by (simp_all add: to_i32_def signed_take_bit_int_eq_self)
  then show "star_width s v = s\<lparr>flag_leftjustify := flag_leftjustify s \<or> v < 0, width := \<bar>v\<bar>\<rparr>"
    "star_precision s v = s\<lparr>precision := \<bar>v\<bar>\<rparr>" by (simp_all add: star_width_def star_precision_def Let_def)
qed

lemma reads_stop:
  assumes "reads b z args s s' c rest args'"
  shows "(case z of [] \<Rightarrow> Some ((s, 0, []), args) | d # y \<Rightarrow> if d = 0x2e \<or> d = 0x6c then parse_spec b d y args s else Some ((s, d, y), args))
      = Some ((s', c, rest), args')"
    and "first z \<noteq> 0x2e \<Longrightarrow>
      (case z of [] \<Rightarrow> Some ((s, 0, []), args) | d # y \<Rightarrow> if d = 0x6c then parse_spec b d y args s else Some ((s, d, y), args))
      = Some ((s', c, rest), args')"
  using assms by (auto simp: reads_def)

lemma reads_precision:
  assumes "amount_value pr < 2 ^ 30" "precision s = - 1" "first z \<noteq> 0x2e"
    and r: "reads False z args (s\<lparr>precision := (if pr = Unset then - 1 else int (amount_value pr))\<rparr>) s' c rest args'"
  shows "reads False (precision_text pr @ z) (amount_args pr @ args) s s' c rest args'"
proof -
  obtain d y where z: "z = d # y" "\<not> spec_digit d" "d \<noteq> 0x2a" using r by (auto simp: reads_def)
  show ?thesis
  proof (cases pr)
    case Unset
    moreover have "s\<lparr>precision := - 1\<rparr> = s" using assms(2) by (cases s) simp
    ultimately show ?thesis using r by (simp add: precision_text_def)
  next
    case (Fixed n)
    then have "reads False z args (s\<lparr>precision := int n\<rparr>) s' c rest args'" using r by simp
    note stop = reads_stop(2) [OF this assms(3), unfolded z(1) list.case]
    have ds: "takeWhile spec_digit (nat_decimal n @ z) = nat_decimal n" "dropWhile spec_digit (nat_decimal n @ z) = z"
      using digits_prefix [OF decimal_spec_digits z(2)] by (simp_all add: z)
    have "first (nat_decimal n @ z) \<noteq> 0x2a"
      using decimal_spec_digits [of n] by (cases "nat_decimal n") (auto simp: spec_digit_def)
    then have "parse_spec False 0x2e (nat_decimal n @ z) args s = Some ((s', c, rest), args')"
      using stop assms(1) by (subst parse_spec.simps) (simp add: Fixed simple_flag_def spec_digit_def z(1) Let_def ds [unfolded z(1)] spec_number_decimal split del: if_split)
    then show ?thesis by (simp add: Fixed precision_text_def reads_def spec_digit_def)
  next
    case (Star v)
    then have "reads False z args (s\<lparr>precision := \<bar>v\<bar>\<rparr>) s' c rest args'" using r by simp
    note stop = reads_stop(2) [OF this assms(3), unfolded z(1) list.case]
    have v: "\<bar>v\<bar> < 2 ^ 30" using assms(1) Star by simp
    have "parse_spec False 0x2e (0x2a # z) (Arg_Int v # args) s = Some ((s', c, rest), args')"
      using stop [folded star_values(2) [OF v]] by (subst parse_spec.simps) (simp add: Star simple_flag_def spec_digit_def getIntArg_def z(1) Let_def split del: if_split)
    then show ?thesis by (simp add: Star precision_text_def reads_def spec_digit_def)
  qed
qed


lemma reads_width:
  assumes "amount_value wd < 2 ^ 30" "wd \<noteq> Fixed 0" "width s = 0"
    and r: "reads False z args (s\<lparr>flag_leftjustify := flag_leftjustify s \<or> negative wd, width := int (amount_value wd)\<rparr>)
      s' c rest args'"
  shows "parse_spec False (hd (amount_text wd @ z)) (tl (amount_text wd @ z)) (amount_args wd @ args) s = Some ((s', c, rest), args')"
proof -
  obtain d y where z: "z = d # y" "\<not> spec_digit d" using r by (auto simp: reads_def)
  show ?thesis
  proof (cases wd)
    case Unset
    moreover have "s\<lparr>flag_leftjustify := flag_leftjustify s, width := 0\<rparr> = s" using assms(3) by (cases s) simp
    ultimately show ?thesis using r z by (simp add: reads_def)
  next
    case (Fixed n)
    then have "reads False z args (s\<lparr>width := int n\<rparr>) s' c rest args'" using r by simp
    note stop = reads_stop(1) [OF this, unfolded z(1) list.case]
    obtain e es where n: "nat_decimal n = e # es" by (metis decimal_nonempty neq_Nil_conv)
    have e: "spec_digit e" "\<forall>c\<in>set es. spec_digit c" "e \<noteq> 0x30"
      using decimal_spec_digits [of n] decimal_first [of n] assms(2) Fixed by (simp_all add: n)
    have ds: "takeWhile spec_digit (es @ z) = es" "dropWhile spec_digit (es @ z) = z"
      using digits_prefix [OF e(2) z(2)] by (simp_all add: z)
    have "simple_flag e s = None" "e \<noteq> 0x6c" using e(1,3) by (auto simp: simple_flag_def spec_digit_def)
    moreover have "spec_number (e # es) = int n" using spec_number_decimal [of n] assms(1) Fixed by (simp add: n)
    ultimately have "parse_spec False e (es @ z) args s = Some ((s', c, rest), args')"
      using stop e(1) by (subst parse_spec.simps) (simp add: Fixed ds [unfolded z(1)] z(1) Let_def split del: if_split)
    then show ?thesis by (simp add: Fixed n)
  next
    case (Star v)
    then have "reads False z args (s\<lparr>flag_leftjustify := flag_leftjustify s \<or> v < 0, width := \<bar>v\<bar>\<rparr>) s' c rest args'" using r by simp
    note stop = reads_stop(1) [OF this, unfolded z(1) list.case]
    have v: "\<bar>v\<bar> < 2 ^ 30" using assms(1) Star by simp
    have "parse_spec False 0x2a z (Arg_Int v # args) s = Some ((s', c, rest), args')"
      using stop [folded star_values(1) [OF v]] by (subst parse_spec.simps) (simp add: Star simple_flag_def spec_digit_def getIntArg_def z(1) Let_def split del: if_split)
    then show ?thesis by (simp add: Star)
  qed
qed

lemma parse_directive:
  fixes rest :: bytes
  assumes "item_ok lp64 (Directive fs wd pr l c)"
  defines "z \<equiv> map flag_char fs @ amount_text wd @ precision_text pr @ len_text l @ conversion_char c # rest"
  shows "parse_spec False (hd z) (tl z) (amount_args wd @ amount_args pr @ args) no_flags
    = Some ((directive_spec fs wd pr l, conversion_char c, rest), args)"
proof -
  define s1 s2 where "s1 = flagged fs no_flags"
    and "s2 = s1\<lparr>flag_leftjustify := flag_leftjustify s1 \<or> negative wd, width := int (amount_value wd)\<rparr>"
  let ?s3 = "s2\<lparr>precision := (if pr = Unset then - 1 else int (amount_value pr))\<rparr>"
  have "?s3\<lparr>flag_long := length (len_text l)\<rparr> = directive_spec fs wd pr l"
    by (simp add: s1_def s2_def flagged_def directive_spec_def no_flags_def to_left_def)
  moreover have "flag_long ?s3 = 0" "precision s2 = - 1" "width s1 = 0" by (simp_all add: s1_def s2_def flagged_def)
  moreover have "first (len_text l @ conversion_char c # rest) \<noteq> 0x2e"
    using plain_conversion [of c] by (cases l) (auto simp: plain_def)
  ultimately have "reads False (precision_text pr @ len_text l @ conversion_char c # rest) (amount_args pr @ args) s2
      (directive_spec fs wd pr l) (conversion_char c) rest args"
    using assms(1) reads_length [OF plain_conversion, of ?s3 False l c rest args] by (intro reads_precision) simp_all
  then have "parse_spec False (hd (amount_text wd @ precision_text pr @ len_text l @ conversion_char c # rest))
      (tl (amount_text wd @ precision_text pr @ len_text l @ conversion_char c # rest)) (amount_args wd @ amount_args pr @ args) s1
      = Some ((directive_spec fs wd pr l, conversion_char c, rest), args)"
    using assms(1) \<open>width s1 = 0\<close> by (intro reads_width) (simp_all add: s2_def)
  then show ?thesis unfolding z_def by (subst parse_flags) (simp_all add: s1_def)
qed

lemma sane_directive: "item_ok lp64 (Directive fs wd pr l c) \<Longrightarrow> sane (directive_spec fs wd pr l)"
  by (auto simp: sane_def directive_spec_def)

section \<open>The text of a directive\<close>

lemma pad_in_field: "pad_ref left (int wd) t = in_field left wd (length t) t"
  by (simp add: pad_ref_def in_field_def nat_diff_distrib' Let_def flip: nat_minus_as_int)

lemma directive_fields [simp]:
  "flag_leftjustify (directive_spec fs wd pr l) = to_left fs wd" "flag_prefix (directive_spec fs wd pr l) = first (mark fs)"
  "flag_alternateform (directive_spec fs wd pr l) = (Hash \<in> set fs)" "flag_altform2 (directive_spec fs wd pr l) = False"
  "flag_zeropad (directive_spec fs wd pr l) = (Zero \<in> set fs)" "flag_long (directive_spec fs wd pr l) = length (len_text l)"
  "cThousand (directive_spec fs wd pr l) = (if Comma \<in> set fs then 0x2c else 0)"
  "width (directive_spec fs wd pr l) = int (amount_value wd)"
  "precision (directive_spec fs wd pr l) = (if pr = Unset then - 1 else int (amount_value pr))"
  by (simp_all add: directive_spec_def)

subsection \<open>Numbers\<close>

definition kind_info :: "kind \<Rightarrow> et_info" where
  "kind_info k = fst (find_info (kind_char k))"

definition kind_type :: "kind \<Rightarrow> et_type" where
  "kind_type k = (if k = Kr then etORDINAL else if k \<in> {Kd, Ki, Ku} then etDECIMAL else if k = Kp then etPOINTER else etRADIX)"

lemma find_kind: "find_info (kind_char k) = (kind_info k, kind_type k)"
  by (cases k) (simp_all add: kind_info_def kind_type_def find_info_def fmtinfo_def et_def)

lemma kind_info_fields:
  "base (kind_info k) = radix k" "flags (kind_info k) AND FLAG_SIGNED = 0 \<longleftrightarrow> \<not> is_signed k"
  "charset (kind_info k) = (if k = Kx then 16 else 0)"
  "(if prefix (kind_info k) \<noteq> 0 then rev (takeWhile (\<lambda>x. x \<noteq> 0) (drop (prefix (kind_info k)) aPrefix)) else []) = radix_mark k"
  by (cases k; simp add: kind_info_def find_info_def fmtinfo_def et_def radix_def is_signed_def FLAG_SIGNED_def aPrefix_def radix_mark_def)+

lemma kind_digits: "d < radix k \<Longrightarrow> drop (charset (kind_info k)) aDigits ! d = digit_char k d"
proof -
  have "list_all (\<lambda>d. drop (charset (kind_info k)) aDigits ! d = digit_char k d) [0..<radix k]"
    by (cases k) (simp_all add: kind_info_fields radix_def aDigits_def ascii_def digit_char_def upt_rec)
  then show "d < radix k \<Longrightarrow> drop (charset (kind_info k)) aDigits ! d = digit_char k d" by (simp add: list_all_iff)
qed

lemma digits_numeral: "digits_in (radix k) (drop (charset (kind_info k)) aDigits) n = numeral_text k n"
proof (induction k n rule: numeral_text.induct)
  case (1 k n)
  then show ?case using radix_ge [of k] kind_digits [of n k] kind_digits [of "n mod radix k" k]
    by (simp add: digits_in.simps [of "radix k" _ n] numeral_text.simps [of k n])
qed

lemma mark_cases: "mark fs = [] \<and> first (mark fs) = 0 \<or> mark fs = [first (mark fs)] \<and> first (mark fs) \<noteq> 0"
  by (induction fs) auto

text \<open>The magnitude and the sign the code works with.\<close>
lemma kind_value:
  assumes "arg_fits lp64 l k v"
    and "s = (if kind_type k = etPOINTER then (directive_spec fs wd pr l)\<lparr>flag_long := 2\<rparr> else directive_spec fs wd pr l)"
  shows "int_value lp64 False (kind_info k) s v
    = (word_of_int \<bar>v\<bar>, if v < 0 then 0x2d else if is_signed k then first (mark fs) else 0)"
proof -
  have s: "flag_prefix s = first (mark fs)" "flag_long s = (if k = Kp then 2 else length (len_text l))"
    by (auto simp: assms(2) kind_type_def)
  have bits: "(flag_long s = 2 \<or> flag_long s = 1 \<and> lp64) = (arg_bits lp64 l k = 64)" "arg_bits lp64 l k \<noteq> 64 \<Longrightarrow> arg_bits lp64 l k = 32"
    by (cases l; auto simp: s(2) arg_bits_def)+
  show ?thesis
  proof (cases "is_signed k")
    case True
    have "signed_arg lp64 False (flag_long s) v = v"
      using assms(1) bits True
      by (cases "arg_bits lp64 l k = 64") (auto simp: arg_fits_def signed_arg_def to_i64_def to_i32_def signed_take_bit_int_eq_self)
    moreover have "NOT (word_of_int v) + 1 = (word_of_int (- v) :: u64)" by (simp add: minus_eq_not_plus_1 [symmetric])
    ultimately show ?thesis using True by (simp add: int_value_def kind_info_fields s(1) del: neq0_conv)
  next
    case False
    then have v: "0 \<le> v" "v < 2 ^ arg_bits lp64 l k" using assms(1) by (simp_all add: arg_fits_def)
    have "ucast (word_of_int v :: u32) = (word_of_int v :: u64)" if "v < 2 ^ 32"
      using that v(1) by (simp add: word_uint_eq_iff unsigned_ucast_eq uint_word_of_int_eq take_bit_int_eq_self)
    then have "unsigned_arg lp64 False (flag_long s) v = word_of_int v" using bits v(2) by (auto simp: unsigned_arg_def)
    then show ?thesis using False v(1) by (simp add: int_value_def kind_info_fields)
  qed
qed


lemma int_field_number:
  assumes fits: "arg_fits lp64 l k v" and "amount_value wd < 2 ^ 30"
  shows "int_field lp64 False (kind_info k) (kind_type k) (directive_spec fs wd pr l) v
    = number_text fs (amount_value wd) (amount_value pr) k v"
proof -
  define s where "s = (if kind_type k = etPOINTER then (directive_spec fs wd pr l)\<lparr>flag_long := 2\<rparr> else directive_spec fs wd pr l)"
  define sg where "sg = (if v < 0 then 0x2d else if is_signed k then first (mark fs) else (0 :: u8))"
  define sign where "sign = (if v < 0 then [0x2d] else if is_signed k then mark fs else [])"
  have sign: "(if sg \<noteq> 0 then [sg] else []) = sign"
    using mark_cases [of fs] by (auto simp: sg_def sign_def)
  have one: "(if sg \<noteq> 0 then 1 else 0) = int (length sign)" by (simp flip: sign)
  have "v = - (2 ^ 63) \<or> \<bar>v\<bar> < 2 ^ 64"
    using fits by (auto simp: arg_fits_def arg_bits_def split: if_splits)
  then have u: "unat (word_of_int \<bar>v\<bar> :: u64) = nat \<bar>v\<bar>"
    by (auto simp: unat_eq_nat_uint uint_word_of_int_eq take_bit_int_eq_self)
  then have nz: "(word_of_int \<bar>v\<bar> :: u64) \<noteq> 0 \<longleftrightarrow> nat \<bar>v\<bar> \<noteq> 0" by (metis unat_eq_zero)
  have prec: "nat (int_precision s sg) = max (amount_value pr) (if Zero \<in> set fs then amount_value wd - length sign else 0)"
    unfolding int_precision_def Let_def by (auto simp: s_def one max_def)
  have ct: "(if kind_type k = etDECIMAL then cThousand s else 0) = (if Comma \<in> set fs \<and> k \<in> {Kd, Ki, Ku} then 0x2c else 0)"
    by (simp add: s_def kind_type_def)
  have "int_field lp64 False (kind_info k) (kind_type k) (directive_spec fs wd pr l) v
      = int_ref (kind_info k) (k = Kr) (if Comma \<in> set fs \<and> k \<in> {Kd, Ki, Ku} then 0x2c else 0) sg
          (Hash \<in> set fs \<and> nat \<bar>v\<bar> \<noteq> 0) (int_precision s sg) (nat \<bar>v\<bar>)"
    unfolding int_field_def Let_def s_def [symmetric] kind_value [OF fits s_def] sg_def [symmetric] prod.case u nz ct
    by (simp add: s_def kind_type_def)
  also have "\<dots> = number_text fs (amount_value wd) (amount_value pr) k v"
    unfolding int_ref_def number_text_def Let_def prec sign kind_info_fields(1) digits_numeral sign_def [symmetric]
    using kind_info_fields(4) [of k] by auto
  finally show ?thesis .
qed

subsection \<open>Characters and strings\<close>

lemma char_of_code_utf8: "c < 0x110000 \<Longrightarrow> char_of_code (word_of_int (int c)) = map of_nat (utf8_codes c)"
proof -
  assume c: "c < 0x110000"
  have "char_of_code x = WRITE_UTF8 x" for x by (simp add: char_of_code_def WRITE_UTF8_def Let_def)
  moreover have "unat (word_of_int (int c) :: u32) = c" using c by (simp add: unat_of_nat_u32)
  ultimately show ?thesis by (simp add: WRITE_UTF8_codes)
qed

lemma continuation_byte: "x < 256 \<Longrightarrow> (of_nat x :: u8) AND 0xc0 = 0x80 \<longleftrightarrow> 128 \<le> x \<and> x < 192"
  by (simp add: continuation_iff unat_of_nat_u8)

lemma conts_char: "conts (map of_nat (utf8_codes c)) = int (length (utf8_codes c)) - 1"
proof -
  have count: "conts (map of_nat xs) = int (length (filter (\<lambda>x. 128 \<le> x \<and> x < 192) xs))" if "\<forall>x\<in>set xs. x < 256" for xs
    using that by (induction xs) (auto simp: conts_def continuation_byte)
  have lead: "x div m mod 32 < 32" "x div m mod 16 < 16" "x div m mod 8 < 8" for x m :: nat by simp_all
  have tail: "\<not> 192 \<le> 128 + y mod 64" for y :: nat by (simp add: not_le)
  have small: "\<forall>x\<in>set (utf8_codes c). x < 256"
    using lead [of c 64] lead [of c 4096] lead [of c 262144] by (auto simp: utf8_codes_def)
  show ?thesis unfolding count [OF small] using tail by (simp add: utf8_codes_def)
qed

lemma char_ref_letters:
  fixes pr :: amount and c :: nat
  defines "u \<equiv> map of_nat (utf8_codes c)" and "n \<equiv> max 1 (amount_value pr)"
  shows "char_ref (directive_spec fs wd pr l) u = in_field (to_left fs wd) (amount_value wd) n (concat (replicate n u))"
proof -
  let ?w = "amount_value wd" and ?left = "to_left fs wd"
  have "conts u = int (length u) - 1" using conts_char [of c] by (simp add: u_def)
  moreover have "0 < length u" by (simp add: u_def utf8_codes_def)
  ultimately have pad: "pad_ref left (wide True x u) u = in_field left (nat x) 1 u" for left x
    by (auto simp: pad_ref_def wide_def in_field_def Let_def nat_diff_distrib)
  have none: "pad_ref left 0 u = u" for left by simp
  have prec: "(if pr = Unset then - 1 else int (amount_value pr)) > 1 \<longleftrightarrow> amount_value pr > 1" by (cases pr) auto
  show ?thesis
  proof (cases "amount_value pr > 1")
    case False
    then have "n = 1" by (simp add: n_def)
    then show ?thesis using prec pad [of ?left "int ?w"] False by (simp add: char_ref_def)
  next
    case True
    then obtain m where m: "amount_value pr = Suc m" "0 < m" "n = Suc m" by (cases "amount_value pr") (auto simp: n_def)
    have "replicate n u = replicate m u @ [u]" by (simp add: m(3) replicate_append_same)
    then have copies: "concat (replicate n u) = concat (replicate m u) @ u" by simp
    have "pr \<noteq> Unset" using True by auto
    then have ref: "char_ref (directive_spec fs wd pr l) u =
        (if int ?w - int m > 1 \<and> \<not> ?left then replicate (nat (int ?w - int m - 1)) 0x20 @ concat (replicate m u) @ u
         else concat (replicate m u) @ in_field ?left (nat (int ?w - int m)) 1 u)"
      using m prec pad by (simp add: char_ref_def Let_def in_field_def nat_add_distrib)
    have blanks: "nat (int ?w - int m - 1) = ?w - n" "nat (int ?w - int m) - 1 = ?w - n" using m(3) by auto
    show ?thesis
    proof (cases "int ?w - int m > 1 \<and> \<not> ?left")
      case early: True
      then show ?thesis by (simp add: ref blanks in_field_def copies)
    next
      case late: False
      then have "?left \<or> ?w - n = 0" using m(3) by auto
      then show ?thesis using late unfolding ref in_field_def blanks copies by auto
    qed
  qed
qed

lemma str_part_cut:
  assumes "length z < 2 ^ 29"
  shows "str_part (directive_spec fs wd pr l) z = cut pr z"
proof -
  have "(of_nat (length z) :: u32) AND 0x7fffffff = take_bit 31 (of_nat (length z))"
    by (simp add: take_bit_eq_mask mask_eq_exp_minus_1)
  moreover have "unat (take_bit 31 (of_nat (length z) :: u32)) = length z"
    using assms by (simp add: unat_ops unat_of_nat_u32)
  ultimately have "unat ((of_nat (length z) :: u32) AND 0x7fffffff) = length z" by simp
  then show ?thesis by (auto simp: str_part_def cut_def)
qed

lemma esc_scan_cut: "fst (esc_scan False q (if pr = Unset then - 1 else int (amount_value pr)) z) = length (cut pr z)"
proof -
  have "fst (esc_scan False q (int k) z) = min k (length z)" for k
  proof (induction z arbitrary: k)
    case (Cons ch z)
    obtain i n where "esc_scan False q (int (k - 1)) z = (i, n)" by fastforce
    then show ?case using Cons.IH [of "k - 1"] by (cases k) (simp_all add: esc_scan_Cons tail_of_def)
  qed (simp add: esc_scan_Nil)
  then show ?thesis by (simp add: cut_def esc_scan_all min.commute)
qed

fun quoting_type :: "quoting \<Rightarrow> et_type" where
  "quoting_type Qq = etSQLESCAPE" | "quoting_type QQ = etSQLESCAPE2" | "quoting_type Qw = etSQLESCAPE3"

lemma cut_take: "take (length (cut pr z)) z = cut pr z"
  by (simp add: cut_def min_def)

lemma doubled_none: "q \<notin> set z \<Longrightarrow> doubled q z = z"
  by (induction z) (auto simp: doubled_def)

lemma cut_NULL: "q \<in> {0x27, 0x22} \<Longrightarrow> doubled q (cut pr (ascii ''NULL'')) = cut pr (ascii ''NULL'')"
  "q \<in> {0x27, 0x22} \<Longrightarrow> doubled q (cut pr (ascii ''(NULL)'')) = cut pr (ascii ''(NULL)'')"
  by (intro doubled_none; auto simp: cut_def ascii_def dest!: in_set_takeD)+

lemma esc_field_quoted: "esc_field (quoting_type q) (directive_spec fs wd pr l) z = quoted_text q pr z"
  by (cases q; cases z) (simp_all add: esc_field_def Let_def esc_scan_cut cut_take cut_NULL)

subsection \<open>Directives\<close>

lemma find_conversions:
  "snd (find_info 0x63) = etCHARX" "snd (find_info 0x73) = etSTRING" "snd (find_info 0x25) = etPERCENT"
  "snd (find_info (conversion_char (Quoted q z))) = quoting_type q"
  by (cases q; simp add: find_info_def fmtinfo_def et_def)+

lemma short_text: "short z \<Longrightarrow>
    (case z of None \<Rightarrow> [] | Some z \<Rightarrow> str_part (directive_spec fs wd pr l) z) = (case z of None \<Rightarrow> [] | Some z \<Rightarrow> cut pr z)"
  by (auto simp: short_def str_part_cut split: option.splits)

lemma field_text: "text_field (directive_spec fs wd pr l) t = in_field (to_left fs wd) (amount_value wd) (length t) t"
  by (simp add: text_field_def wide_def pad_in_field)

lemma conv_ref_directive:
  assumes "item_ok lp64 (Directive fs wd pr l c)"
  shows "conv_ref lp64 False (fst (find_info (conversion_char c))) (snd (find_info (conversion_char c)))
      (directive_spec fs wd pr l) (conversion_args c @ args) = Some (Some (item_text (Directive fs wd pr l c)), args)"
proof (cases c)
  case (Number k v)
  have "conv_ref lp64 False info (kind_type k) (directive_spec fs wd pr l) (Arg_Int v # args)
      = with_int False (Arg_Int v # args) (\<lambda>v. pad_ref (to_left fs wd) (int (amount_value wd))
          (int_field lp64 False info (kind_type k) (directive_spec fs wd pr l) v))"
    for info by (cases k) (simp_all add: kind_type_def conv_ref_def Let_def)
  then show ?thesis using assms
    by (simp add: Number find_kind with_int_def getIntArg_def int_field_number pad_in_field Let_def)
next
  case (Letter x)
  then show ?thesis using assms char_of_code_utf8 [of x]
    by (simp add: conv_ref_def find_conversions with_int_def getIntArg_def char_ref_letters Let_def)
next
  case (Text z)
  then show ?thesis using assms
    by (simp add: conv_ref_def find_conversions with_text_def getTextArg_def short_text field_text Let_def)
next
  case (Quoted q z)
  have "conv_ref lp64 False info (quoting_type q) (directive_spec fs wd pr l) (Arg_Text z # args)
      = with_text False (Arg_Text z # args) (\<lambda>z. text_field (directive_spec fs wd pr l) (esc_field (quoting_type q) (directive_spec fs wd pr l) z))"
    for info by (cases q) (simp_all add: conv_ref_def Let_def)
  then show ?thesis unfolding Quoted find_conversions(4) using assms Quoted
    by (simp add: with_text_def getTextArg_def esc_field_quoted field_text Let_def)
next
  case Percent
  then show ?thesis by (simp add: conv_ref_def find_conversions pad_in_field)
qed

section \<open>The text of a format\<close>

lemma render_literal:
  assumes "0x25 \<notin> set z"
  shows "render lp64 b (z @ fmt) args = map_option ((@) z) (render lp64 b fmt args)"
proof -
  define t d where "t = takeWhile (\<lambda>c. c \<noteq> 0x25) fmt" and "d = dropWhile (\<lambda>c. c \<noteq> 0x25) fmt"
  have "takeWhile (\<lambda>c. c \<noteq> 0x25) (z @ fmt) = z @ t" "dropWhile (\<lambda>c. c \<noteq> 0x25) (z @ fmt) = d"
    using assms by (auto simp: takeWhile_append dropWhile_append t_def d_def)
  then show ?thesis
    unfolding render.simps [of lp64 b "z @ fmt" args] render.simps [of lp64 b fmt args] t_def [symmetric] d_def [symmetric]
    by (auto simp: Let_def option.map_comp comp_def split: list.split option.split)
qed

lemma render_directive:
  assumes "item_ok lp64 (Directive fs wd pr l c)"
  shows "render lp64 False (item_format (Directive fs wd pr l c) @ fmt) (item_args (Directive fs wd pr l c) @ args)
    = map_option ((@) (item_text (Directive fs wd pr l c))) (render lp64 False fmt args)"
proof -
  define z where "z = map flag_char fs @ amount_text wd @ precision_text pr @ len_text l @ conversion_char c # fmt"
  have "z \<noteq> []" by (simp add: z_def)
  then obtain d y where z: "z = d # y" by (cases z) auto
  have "parse_spec False d y (amount_args wd @ amount_args pr @ conversion_args c @ args) no_flags
      = Some ((directive_spec fs wd pr l, conversion_char c, fmt), conversion_args c @ args)"
    using parse_directive [OF assms, of fmt "conversion_args c @ args", folded z_def] by (simp add: z)
  moreover have "item_format (Directive fs wd pr l c) @ fmt = 0x25 # d # y" by (simp add: z [symmetric] z_def)
  ultimately show ?thesis using sane_directive [OF assms] conv_ref_directive [OF assms, of args]
    by (subst render.simps) (simp del: item_text.simps item_format.simps add: append_assoc)
qed

lemma render_items:
  "list_all (item_ok lp64) items \<Longrightarrow> render lp64 False (format_of items) (args_of items) = Some (text_of_items items)"
proof (induction items)
  case Nil
  then show ?case by (simp add: format_of_def text_of_items_def render.simps)
next
  case (Cons i items)
  then have IH: "render lp64 False (format_of items) (args_of items) = Some (text_of_items items)" by simp
  have "render lp64 False (item_format i @ format_of items) (item_args i @ args_of items)
      = map_option ((@) (item_text i)) (render lp64 False (format_of items) (args_of items))"
  proof (cases i)
    case (Literal z)
    then show ?thesis using Cons.prems render_literal [of z lp64 False] by simp
  next
    case (Directive fs wd pr l c)
    then have "item_ok lp64 (Directive fs wd pr l c)" using Cons.prems by simp
    then show ?thesis unfolding Directive by (rule render_directive)
  qed
  then show ?case using IH by (simp add: format_of_def args_of_def text_of_items_def)
qed


text \<open>
  C36. Formatted printing prints what its format says.  A format is any sequence of literal texts and of directives
  \<open>%d\<close>, \<open>%i\<close>, \<open>%r\<close>, \<open>%u\<close>, \<open>%o\<close>, \<open>%x\<close>, \<open>%X\<close>, \<open>%p\<close>, \<open>%c\<close>, \<open>%s\<close>, \<open>%q\<close>, \<open>%Q\<close>, \<open>%w\<close> and \<open>%%\<close>, with any of the
  flags \<open>-\<close>, \<open>+\<close>, blank, \<open>#\<close>, \<open>0\<close> and comma, a width and a precision that are written in the format or taken from
  the arguments, and a length \<open>l\<close> or \<open>ll\<close>; the call passes an argument for each of them that fits the C type, widths and
  precisions below \<open>2 ^ 30\<close> and strings below \<open>2 ^ 29\<close> bytes.  On an accumulator that may grow and is not in the mode of
  the SQL function, \<open>sqlite3_str_vappendf\<close> then returns without touching memory outside its buffers; it has added exactly the
  texts of the items, or the accumulator has failed, for want of memory or because the text comes within twelve bytes of
  the limit.  An accumulator that had failed stays failed.  The temporary buffers are released on every path.  Not covered: \<open>%f\<close>,
  \<open>%e\<close>, \<open>%g\<close>, \<open>%T\<close>, \<open>%S\<close>, \<open>%z\<close>, \<open>%n\<close> and the flag \<open>!\<close>.
\<close>
theorem vappendf_prints:
  assumes g: "growing_inv M k lim (p, w)" and b: "printfFlags p AND SQLITE_PRINTF_SQLFUNC = 0"
    and items: "list_all (item_ok lp64) items" "length (format_of items) < 2 ^ 31"
  shows "\<exists>args' p' w'. sqlite3_str_vappendf M lp64 X p (format_of items) (args_of items) w = Some (args', p', w')
    \<and> growing_inv M k lim (p', w')
    \<and> (if accError p \<noteq> 0 then accError p' = accError p
       else accError p' = 0 \<and> text_of p' = text_of p @ text_of_items items
         \<or> accError p' = SQLITE_TOOBIG \<and> lim \<le> length (text_of p @ text_of_items items) + 12
         \<or> accError p' = SQLITE_NOMEM \<and> \<not> plenty (heap w))"
proof -
  have "sqlite3_str_vappendf M lp64 X p (format_of items) (args_of items) w
      = format_loop M lp64 X False (format_of items) (args_of items) p w" using b by (simp add: sqlite3_str_vappendf_def)
  then show ?thesis
    using format_loop_prints [OF g items(2) render_items [OF items(1)], of X] unfolding prints_def by metis
qed

text \<open>A format with most of what the language has.\<close>
definition sample_items :: "item list" where
  "sample_items =
    [Literal (ascii ''n=''), Directive [Plus, Comma] (Fixed 9) Unset Plain (Number Kd 12345),
     Literal (ascii '' ''), Directive [Zero, Hash] (Fixed 6) Unset LongLong (Number Kx 255),
     Literal (ascii '' ''), Directive [] Unset Unset Plain (Number Kr 23),
     Literal (ascii '' ''), Directive [] (Star (- 4)) (Fixed 2) Plain (Letter 0x2a),
     Directive [] Unset (Star 4) Plain (Quoted QQ (Some (ascii ''it''  @ 0x27 # ascii ''sx''))),
     Directive [Minus] (Fixed 3) Unset Plain Percent, Directive [] Unset Unset Plain (Text None)]"

lemma sample_ok: "list_all (item_ok lp64) sample_items"
  by (simp add: sample_items_def arg_fits_def arg_bits_def is_signed_def short_def ascii_def)

lemma sample_format: "format_of sample_items = ascii ''n=%+,9d %0#6llx %r %*.2c%.*Q%-3%%s''"
  by code_simp

lemma few: "replicate 2 x = [x, x]" "replicate 4 x = [x, x, x, x]" "take 4 (a # b # c # d # t) = [a, b, c, d]"
  by (simp_all add: numeral_eq_Suc)

lemma sample_numerals:
  "numeral_text Kd 12345 = ascii ''12345''" "numeral_text Kx 255 = ascii ''ff''" "numeral_text Kr 23 = ascii ''23''"
  "group3 0x2c (ascii ''12345'') = ascii ''12,345''"
  by (simp_all add: numeral_text.simps radix_def digit_char_def ascii_def group3.simps)

lemma sample_numbers:
  "number_text [Plus, Comma] 9 0 Kd 12345 = ascii ''+12,345''" "number_text [Zero, Hash] 6 0 Kx 255 = ascii ''0x0000ff''"
  "number_text [] 0 0 Kr 23 = ascii ''23rd''"
  using sample_numerals
  by (simp_all add: number_text_def is_signed_def radix_mark_def ordinal_ending_def Let_def) (simp_all add: ascii_def few)

lemma sample_text: "text_of_items sample_items = ascii ''n=  +12,345 0x0000ff 23rd **  '' @ 0x27 # ascii ''it'' @ [0x27, 0x27] @ ascii ''s'' @ 0x27 # ascii ''%  ''"
  by (simp add: text_of_items_def sample_items_def sample_numbers in_field_def to_left_def cut_def doubled_def utf8_codes_def ascii_def Let_def few)

theorem vappendf_prints_witness:
  "\<exists>args' p' w'. sqlite3_str_vappendf exact_blocks True (\<lambda>_ _ _ _ _ _. None) (sqlite3StrAccumInit False None 0 100)
      (ascii ''n=%+,9d %0#6llx %r %*.2c%.*Q%-3%%s'') (args_of sample_items) fresh_world = Some (args', p', w')
    \<and> text_of p' = ascii ''n=  +12,345 0x0000ff 23rd **  '' @ 0x27 # ascii ''it'' @ [0x27, 0x27] @ ascii ''s'' @ 0x27 # ascii ''%  ''"
proof -
  let ?p = "sqlite3StrAccumInit False None 0 100"
  have init: "acc_inv ?p" "accounts 0 ?p fresh_world" "text_of ?p = []" "accError ?p = 0" "unat (mxAlloc ?p) = 100"
    using init_inv [of 100 None ?p False] by (auto simp: fresh_world_def accounts_def)
  then have g: "growing_inv exact_blocks 0 100 (?p, fresh_world)" using exact_blocks_ok by (auto simp: growing_inv_def)
  have b: "printfFlags ?p AND SQLITE_PRINTF_SQLFUNC = 0" by (simp add: sqlite3StrAccumInit_def)
  have l: "length (format_of sample_items) < 2 ^ 31" "length (text_of_items sample_items) < 80"
    unfolding sample_format sample_text by (simp_all add: ascii_def)
  show ?thesis
    using vappendf_prints [OF g b sample_ok l(1), of True "\<lambda>_ _ _ _ _ _. None"] init l(2) exact_blocks_ok
    unfolding sample_format sample_text [symmetric] by auto
qed

end
