(* ===== verification/IntArith.thy ===== *)
theory IntArith
  imports Prelude
begin

text \<open>
  Checked 64-bit arithmetic and the logarithmic estimates of SQLite
  (\<open>src/db/sqlite3.c\<close>, from \<open>util.c\<close>).  A C \<open>i64\<close> is an \<open>int\<close> in the range
  \<open>is_i64\<close>; an operation returns its \<open>int\<close> result and the new \<open>*pA\<close>.
\<close>

section \<open>Checked addition, subtraction and multiplication\<close>

definition sqlite3AddInt64 :: "int \<Rightarrow> int \<Rightarrow> int \<times> int" where
  "sqlite3AddInt64 iA iB =
     (if iB \<ge> 0
      then (if iA > 0 \<and> LARGEST_INT64 - iA < iB then (1, iA) else (0, iA + iB))
      else (if iA < 0 \<and> - (iA + LARGEST_INT64) > iB + 1 then (1, iA) else (0, iA + iB)))"

definition sqlite3SubInt64 :: "int \<Rightarrow> int \<Rightarrow> int \<times> int" where
  "sqlite3SubInt64 iA iB =
     (if iB = SMALLEST_INT64
      then (if iA \<ge> 0 then (1, iA) else (0, iA - iB))
      else sqlite3AddInt64 iA (- iB))"

definition sqlite3MulInt64 :: "int \<Rightarrow> int \<Rightarrow> int \<times> int" where
  "sqlite3MulInt64 iA iB =
     (if iB > 0 \<and> iA > c_div LARGEST_INT64 iB then (1, iA)
      else if iB > 0 \<and> iA < c_div SMALLEST_INT64 iB then (1, iA)
      else if iB < 0 \<and> iA > 0 \<and> iB < c_div SMALLEST_INT64 iA then (1, iA)
      else if iB < 0 \<and> iA < 0 \<and> iB = SMALLEST_INT64 then (1, iA)
      else if iB < 0 \<and> iA < 0 \<and> iA = SMALLEST_INT64 then (1, iA)
      else if iB < 0 \<and> iA < 0 \<and> - iA > c_div LARGEST_INT64 (- iB) then (1, iA)
      else (0, iA * iB))"

text \<open>
  The branch taken by GCC: \<open>__builtin_add_overflow\<close> and its kin store the wrapped
  result and report whether it wrapped.
\<close>
definition builtin_overflow :: "int \<Rightarrow> int \<times> int" where
  "builtin_overflow r = (if is_i64 r then 0 else 1, to_i64 r)"

definition sqlite3AddInt64_gcc :: "int \<Rightarrow> int \<Rightarrow> int \<times> int" where
  "sqlite3AddInt64_gcc iA iB = builtin_overflow (iA + iB)"

definition sqlite3SubInt64_gcc :: "int \<Rightarrow> int \<Rightarrow> int \<times> int" where
  "sqlite3SubInt64_gcc iA iB = builtin_overflow (iA - iB)"

definition sqlite3MulInt64_gcc :: "int \<Rightarrow> int \<Rightarrow> int \<times> int" where
  "sqlite3MulInt64_gcc iA iB = builtin_overflow (iA * iB)"

definition sqlite3AbsInt32 :: "int \<Rightarrow> int" where
  "sqlite3AbsInt32 x = (if x \<ge> 0 then x else if x = - 2147483648 then 2147483647 else - x)"

section \<open>Logarithmic estimates\<close>

definition logEstAdd_x :: "int list" where
  "logEstAdd_x = [10, 10, 9, 9, 8, 8, 7, 7, 7, 6, 6, 6, 5, 5, 5, 4, 4, 4, 4,
     3, 3, 3, 3, 3, 3, 2, 2, 2, 2, 2, 2, 2]"

definition sqlite3LogEstAdd :: "int \<Rightarrow> int \<Rightarrow> int" where
  "sqlite3LogEstAdd a b =
     (if a \<ge> b
      then (if a > b + 49 then a else if a > b + 31 then a + 1 else a + logEstAdd_x ! nat (a - b))
      else (if b > a + 49 then b else if b > a + 31 then b + 1 else b + logEstAdd_x ! nat (b - a)))"

definition logEst_a :: "int list" where
  "logEst_a = [0, 2, 3, 5, 6, 7, 8, 9]"

text \<open>\<open>while( x<8 ){  y -= 10; x <<= 1; }\<close>, entered with \<open>x >= 2\<close>.\<close>
function logEst_up :: "nat \<Rightarrow> int \<Rightarrow> nat \<times> int" where
  "logEst_up x y = (if 0 < x \<and> x < 8 then logEst_up (x * 2) (y - 10) else (x, y))"
  by pat_completeness auto
termination
  by (relation "measure (\<lambda>(x, y). 8 - x)") auto

text \<open>\<open>while( x>255 ){ y += 40; x >>= 4; }\<close>\<close>
function logEst_down4 :: "nat \<Rightarrow> int \<Rightarrow> nat \<times> int" where
  "logEst_down4 x y = (if x > 255 then logEst_down4 (x div 16) (y + 40) else (x, y))"
  by pat_completeness auto
termination
  by (relation "measure (\<lambda>(x, y). x)") auto

text \<open>\<open>while( x>15 ){  y += 10; x >>= 1; }\<close>\<close>
function logEst_down1 :: "nat \<Rightarrow> int \<Rightarrow> nat \<times> int" where
  "logEst_down1 x y = (if x > 15 then logEst_down1 (x div 2) (y + 10) else (x, y))"
  by pat_completeness auto
termination
  by (relation "measure (\<lambda>(x, y). x)") auto

declare logEst_up.simps [simp del] logEst_down4.simps [simp del] logEst_down1.simps [simp del]

text \<open>\<open>sqlite3LogEst\<close> with its portable loops; \<open>x\<close> is the value of the \<open>u64\<close>.\<close>
definition sqlite3LogEst :: "nat \<Rightarrow> int" where
  "sqlite3LogEst x =
     (if x < 2 then 0
      else let (x, y) =
             (if x < 8 then logEst_up x 40
              else let (x, y) = logEst_down4 x 40 in logEst_down1 x y)
           in logEst_a ! (x mod 8) + y - 10)"

text \<open>
  The branch for GCC: \<open>__builtin_clzll\<close> counts the leading zeros of a nonzero 64-bit
  value, so that \<open>60 - clz\<close> is the position of its highest bit less three.
\<close>
function hi_bit :: "nat \<Rightarrow> nat" where
  "hi_bit x = (if x < 2 then 0 else Suc (hi_bit (x div 2)))"
  by pat_completeness auto
termination
  by (relation "measure id") auto

declare hi_bit.simps [simp del]

definition builtin_clzll :: "nat \<Rightarrow> nat" where
  "builtin_clzll x = 63 - hi_bit x"

definition sqlite3LogEst_gcc :: "nat \<Rightarrow> int" where
  "sqlite3LogEst_gcc x =
     (if x < 2 then 0
      else let (x, y) =
             (if x < 8 then logEst_up x 40
              else let i = 60 - builtin_clzll x in (x div 2 ^ i, 40 + int i * 10))
           in logEst_a ! (x mod 8) + y - 10)"

text \<open>\<open>sqlite3LogEstToInt\<close>: \<open>n\<close> is a \<open>u64\<close>, \<open>x\<close> a 16-bit signed value.\<close>
definition sqlite3LogEstToInt :: "int \<Rightarrow> u64" where
  "sqlite3LogEstToInt x =
     (let n = word_of_int (c_mod x 10) :: u64;
          x = c_div x 10;
          n = (if n \<ge> 5 then n - 2 else if n \<ge> 1 then n - 1 else n)
      in if x > 60 then word_of_int LARGEST_INT64
         else if x \<ge> 3 then push_bit (nat (x - 3)) (n + 8) else drop_bit (nat (3 - x)) (n + 8))"

section \<open>Lemmas\<close>

lemma c_div_pos: "0 < b \<Longrightarrow> 0 \<le> a \<Longrightarrow> c_div a b = a div b"
  by (cases "a = 0") (simp_all add: c_div_def)

lemma c_div_neg: "0 < b \<Longrightarrow> a < 0 \<Longrightarrow> c_div a b = - ((- a) div b)"
  by (simp add: c_div_def)

lemma div_less_iff:
  fixes a b n :: int
  assumes "0 < b"
  shows "n div b < a \<longleftrightarrow> n < a * b"
proof -
  have "a \<le> n div b \<longleftrightarrow> a * b \<le> n"
  proof
    assume "a \<le> n div b"
    then have "a * b \<le> n div b * b" using assms by simp
    also have "\<dots> \<le> n" using assms by (simp add: minus_mod_eq_div_mult [symmetric])
    finally show "a * b \<le> n" .
  next
    assume "a * b \<le> n"
    then have "a * b div b \<le> n div b" using assms by (rule zdiv_mono1)
    then show "a \<le> n div b" using assms by simp
  qed
  then show ?thesis by auto
qed

lemma less_neg_div_iff:
  fixes a b n :: int
  assumes "0 < b"
  shows "a < - (n div b) \<longleftrightarrow> n < - (a * b)"
  using div_less_iff [OF assms, of n "- a"] by auto

lemma AddInt64_exact:
  assumes "is_i64 iA" "is_i64 iB"
  shows "sqlite3AddInt64 iA iB = (if is_i64 (iA + iB) then (0, iA + iB) else (1, iA))"
  using assms by (auto simp: sqlite3AddInt64_def is_i64_def)

lemma SubInt64_exact:
  assumes "is_i64 iA" "is_i64 iB"
  shows "sqlite3SubInt64 iA iB = (if is_i64 (iA - iB) then (0, iA - iB) else (1, iA))"
  using assms by (auto simp: sqlite3SubInt64_def sqlite3AddInt64_def is_i64_def)

lemma MulInt64_exact:
  assumes "is_i64 iA" "is_i64 iB"
  shows "sqlite3MulInt64 iA iB = (if is_i64 (iA * iB) then (0, iA * iB) else (1, iA))"
proof -
  note [simp] = sqlite3MulInt64_def is_i64_def c_div_pos c_div_neg div_less_iff less_neg_div_iff
  consider "iB > 0" | "iB = 0" | "iB < 0" "iA > 0" | "iB < 0" "iA = 0" | "iB < 0" "iA < 0" by linarith
  then show ?thesis
  proof cases
    case 1
    then show ?thesis by auto
  next
    case 3
    then show ?thesis using mult_neg_pos [of iB iA] by (auto simp: mult.commute)
  next
    case 5
    then have "0 < iA * iB" by (simp add: mult_neg_neg)
    moreover have "- iB \<le> iA * iB" "- iA \<le> iA * iB"
      using 5 mult_right_mono [of 1 "- iA" "- iB"] mult_left_mono [of 1 "- iB" "- iA"] by simp_all
    ultimately show ?thesis using 5 by auto
  qed simp_all
qed

lemma gcc_rc: "fst (builtin_overflow r) = (if is_i64 r then 0 else 1)"
  by (simp add: builtin_overflow_def)

lemma gcc_value: "is_i64 r \<Longrightarrow> builtin_overflow r = (0, r)"
  by (simp add: builtin_overflow_def to_i64_def is_i64_def signed_take_bit_int_eq_self)

lemma hi_bit_half: "2 \<le> x \<Longrightarrow> hi_bit (x div 2) = hi_bit x - 1"
  by (subst (2) hi_bit.simps) simp

lemma hi_bit_bounds: "0 < x \<Longrightarrow> 2 ^ hi_bit x \<le> x \<and> x < 2 ^ Suc (hi_bit x)"
proof (induction x rule: hi_bit.induct)
  case (1 x)
  show ?case
  proof (cases "x < 2")
    case True
    then show ?thesis using "1.prems" by (simp add: hi_bit.simps)
  next
    case False
    then have "2 ^ hi_bit (x div 2) \<le> x div 2 \<and> x div 2 < 2 ^ Suc (hi_bit (x div 2))"
      using 1 by simp
    moreover have "hi_bit x = Suc (hi_bit (x div 2))" using False by (simp add: hi_bit.simps)
    ultimately show ?thesis by auto
  qed
qed

lemma hi_bit_mono: "2 ^ k \<le> x \<Longrightarrow> k \<le> hi_bit x"
proof -
  assume le: "2 ^ k \<le> x"
  have "0 < (2::nat) ^ k" by simp
  then have "0 < x" using le by (rule less_le_trans)
  then have "x < 2 ^ Suc (hi_bit x)" using hi_bit_bounds by blast
  with le have "(2::nat) ^ k < 2 ^ Suc (hi_bit x)" by (rule le_less_trans)
  then have "k < Suc (hi_bit x)" by (rule power_less_imp_less_exp [rotated]) simp
  then show ?thesis by simp
qed

lemma hi_bit_less: "0 < x \<Longrightarrow> x < 2 ^ k \<Longrightarrow> hi_bit x < k"
  using hi_bit_bounds [of x] le_less_trans [of "2 ^ hi_bit x" x "2 ^ k"] by simp

lemma down1_shift:
  "8 \<le> x \<Longrightarrow> logEst_down1 x y = (x div 2 ^ (hi_bit x - 3), y + 10 * int (hi_bit x - 3))"
proof (induction x y rule: logEst_down1.induct)
  case (1 x y)
  show ?case
  proof (cases "x > 15")
    case True
    then have h: "4 \<le> hi_bit x" by (intro hi_bit_mono) simp
    have "hi_bit x - 3 = Suc (hi_bit x - 4)" using h by simp
    then show ?thesis using 1 True h
      by (simp add: logEst_down1.simps [of x] hi_bit_half div_mult2_eq)
  next
    case False
    then have "hi_bit x < 4" using "1.prems" by (intro hi_bit_less) simp_all
    then show ?thesis using False by (simp add: logEst_down1.simps)
  qed
qed

lemma down_shift:
  "8 \<le> x \<Longrightarrow> (let (x', y') = logEst_down4 x y in logEst_down1 x' y')
     = (x div 2 ^ (hi_bit x - 3), y + 10 * int (hi_bit x - 3))"
proof (induction x y rule: logEst_down4.induct)
  case (1 x y)
  show ?case
  proof (cases "x > 255")
    case True
    then have h: "8 \<le> hi_bit x" by (intro hi_bit_mono) simp
    have "hi_bit (x div 2) = hi_bit x - 1" "hi_bit (x div 2 div 2) = hi_bit (x div 2) - 1"
      "hi_bit (x div 2 div 2 div 2) = hi_bit (x div 2 div 2) - 1"
      "hi_bit (x div 2 div 2 div 2 div 2) = hi_bit (x div 2 div 2 div 2) - 1"
      using True by (intro hi_bit_half; simp)+
    moreover have "x div 2 div 2 div 2 div 2 = x div 16" by (simp only: div_mult2_eq [symmetric]) simp
    ultimately have "hi_bit (x div 16) = hi_bit x - 1 - 1 - 1 - 1" by metis
    then have half: "hi_bit (x div 16) = hi_bit x - 4" by linarith
    have e: "hi_bit x - 3 = 4 + (hi_bit x - 7)" using h by simp
    have "x div 2 ^ (hi_bit x - 3) = x div 16 div 2 ^ (hi_bit x - 7)"
      unfolding e power_add div_mult2_eq by simp
    then show ?thesis using 1 True h half by (simp add: logEst_down4.simps [of x])
  next
    case False
    then show ?thesis using "1.prems" down1_shift [of x y] by (simp add: logEst_down4.simps)
  qed
qed

lemma small_logs:
  assumes "2 \<le> x" "x < 8"
  shows "sqlite3LogEst x = [0, 0, 10, 16, 20, 23, 26, 28] ! x"
    and "hi_bit x = [0, 0, 1, 1, 2, 2, 2, 2] ! x"
proof -
  consider "x = 2" | "x = 3" | "x = 4" | "x = 5" | "x = 6" | "x = 7" using assms by linarith
  then show "sqlite3LogEst x = [0, 0, 10, 16, 20, 23, 26, 28] ! x"
    by cases (simp_all add: sqlite3LogEst_def logEst_up.simps logEst_a_def)
  consider "x = 2" | "x = 3" | "x = 4" | "x = 5" | "x = 6" | "x = 7" using assms by linarith
  then show "hi_bit x = [0, 0, 1, 1, 2, 2, 2, 2] ! x"
    by cases (simp_all add: hi_bit.simps)
qed

lemma logEst_a_bounds: "0 \<le> logEst_a ! (m mod 8) \<and> logEst_a ! (m mod 8) \<le> 9"
proof -
  have "m mod 8 < length logEst_a" by (simp add: logEst_a_def)
  then have "logEst_a ! (m mod 8) \<in> set logEst_a" by (rule nth_mem)
  then show ?thesis by (auto simp: logEst_a_def)
qed

section \<open>Properties\<close>

text \<open>
  For all 64-bit operands the portable \<open>sqlite3AddInt64\<close>, \<open>sqlite3SubInt64\<close> and
  \<open>sqlite3MulInt64\<close> return 0 and store the exact result when it fits in 64 bits, and
  return 1 leaving \<open>*pA\<close> as it was when it does not; the branch built on GCC's overflow
  intrinsics returns the same code and, when it returns 0, stores the same value.
\<close>
theorem checked_arith_exact:
  assumes "is_i64 iA" "is_i64 iB"
  shows "sqlite3AddInt64 iA iB = (if is_i64 (iA + iB) then (0, iA + iB) else (1, iA)) \<and>
         sqlite3SubInt64 iA iB = (if is_i64 (iA - iB) then (0, iA - iB) else (1, iA)) \<and>
         sqlite3MulInt64 iA iB = (if is_i64 (iA * iB) then (0, iA * iB) else (1, iA)) \<and>
         list_all2 (\<lambda>p g. fst p = fst g \<and> (fst p = 0 \<longrightarrow> snd p = snd g))
           [sqlite3AddInt64 iA iB, sqlite3SubInt64 iA iB, sqlite3MulInt64 iA iB]
           [sqlite3AddInt64_gcc iA iB, sqlite3SubInt64_gcc iA iB, sqlite3MulInt64_gcc iA iB]"
  using assms
  by (simp add: AddInt64_exact SubInt64_exact MulInt64_exact sqlite3AddInt64_gcc_def
      sqlite3SubInt64_gcc_def sqlite3MulInt64_gcc_def gcc_rc gcc_value)

theorem checked_arith_exact_witness:
  "sqlite3MulInt64 (- 3037000500) 3037000500 = (1, - 3037000500) \<and>
   sqlite3SubInt64 (- 1) SMALLEST_INT64 = (0, LARGEST_INT64)"
  using checked_arith_exact [of "- 3037000500" 3037000500]
    checked_arith_exact [of "- 1" SMALLEST_INT64]
  by (simp add: is_i64_def)

text \<open>
  For every 64-bit value the shifting loops of \<open>sqlite3LogEst\<close> compute what the
  count-leading-zeros branch computes, and the estimate of ten times the binary logarithm
  lies within the decade of the highest set bit.
\<close>
theorem logEst_branches_agree:
  assumes "x < 2 ^ 64"
  shows "sqlite3LogEst x = sqlite3LogEst_gcc x \<and>
         (0 < x \<longrightarrow> 10 * int (hi_bit x) \<le> sqlite3LogEst x \<and> sqlite3LogEst x \<le> 10 * int (hi_bit x) + 9)"
proof (cases "x < 8")
  case True
  consider "x = 0" | "x = 1" | "2 \<le> x" by linarith
  then show ?thesis
  proof cases
    case 3
    then have "x \<in> {2, 3, 4, 5, 6, 7}" using True by auto
    then show ?thesis using 3 True small_logs [OF 3 True]
      by (auto simp: sqlite3LogEst_gcc_def sqlite3LogEst_def)
  qed (simp_all add: sqlite3LogEst_def sqlite3LogEst_gcc_def hi_bit.simps)
next
  case False
  then have h: "3 \<le> hi_bit x" "hi_bit x < 64" using assms by (auto intro: hi_bit_mono hi_bit_less)
  then have i: "60 - builtin_clzll x = hi_bit x - 3" by (simp add: builtin_clzll_def)
  have p: "sqlite3LogEst x = logEst_a ! (x div 2 ^ (hi_bit x - 3) mod 8) + 40 + 10 * int (hi_bit x - 3) - 10"
    using False down_shift [of x 40] by (simp add: sqlite3LogEst_def split_def Let_def)
  have g: "sqlite3LogEst_gcc x = sqlite3LogEst x"
    using False p by (simp add: sqlite3LogEst_gcc_def i Let_def)
  show ?thesis using logEst_a_bounds [of "x div 2 ^ (hi_bit x - 3)"] h g p by simp
qed

theorem logEst_branches_agree_witness:
  "sqlite3LogEst 1000 = 99 \<and> sqlite3LogEst 1000 = sqlite3LogEst_gcc 1000"
  using logEst_branches_agree [of 1000]
  by (simp add: sqlite3LogEst_def logEst_down4.simps logEst_down1.simps logEst_a_def)

end
