(* ===== verification/Hash_Table.thy ===== *)
theory Hash_Table
  imports Ctype
begin

text \<open>
  SQLite's string hash table (\<open>src/db/sqlite3.c\<close>, \<open>hash.h\<close> and \<open>hash.c\<close>).  The doubly-linked
  list of all elements is the list \<open>elems\<close>; an element keeps its address, and a bucket
  refers to its first element by that address.  A null \<open>ht\<close> is the empty list of buckets.
\<close>

section \<open>Data\<close>

record hash_elem =
  addr :: nat
  data :: int
  pKey :: bytes

record ht_entry =
  ht_count :: nat
  chain :: nat

record hash =
  htsize :: nat
  count :: nat
  elems :: "hash_elem list"
  ht :: "ht_entry list"

definition sqlite3HashInit :: hash where
  "sqlite3HashInit = \<lparr>htsize = 0, count = 0, elems = [], ht = []\<rparr>"

definition sqlite3HashClear :: "hash \<Rightarrow> hash" where
  "sqlite3HashClear H = H\<lparr>elems := [], ht := [], htsize := 0, count := 0\<rparr>"

definition strHash :: "bytes \<Rightarrow> u32" where
  "strHash z = fold (\<lambda>c h. (h + ucast (UpperToLower c)) * 0x9e3779b1) (takeWhile (\<lambda>c. c \<noteq> 0) z) 0"

text \<open>The bucket of a key in a table of \<open>n\<close> buckets.\<close>
definition bucket_index :: "nat \<Rightarrow> bytes \<Rightarrow> nat" where
  "bucket_index n key = unat (strHash key) mod n"

text \<open>\<open>insertElement\<close>; \<open>pEntry\<close> is the index of the bucket, \<open>None\<close> the null pointer.\<close>
definition insertElement :: "hash \<Rightarrow> nat option \<Rightarrow> hash_elem \<Rightarrow> hash" where
  "insertElement H pEntry pNew =
     (case pEntry of
        None \<Rightarrow> H\<lparr>elems := pNew # elems H\<rparr>
      | Some h \<Rightarrow>
          let b = ht H ! h;
              H' = H\<lparr>ht := (ht H)[h := \<lparr>ht_count = ht_count b + 1, chain = addr pNew\<rparr>]\<rparr>
          in if ht_count b \<noteq> 0
             then H'\<lparr>elems := takeWhile (\<lambda>e. addr e \<noteq> chain b) (elems H) @
                              pNew # dropWhile (\<lambda>e. addr e \<noteq> chain b) (elems H)\<rparr>
             else H'\<lparr>elems := pNew # elems H\<rparr>)"

text \<open>
  \<open>rehash\<close>; \<open>alloc n\<close> is the number of buckets the allocator provides when asked for \<open>n\<close>
  (\<open>sqlite3MallocSize\<close> may report more), \<open>None\<close> when it has no memory.  The soft limit is
  1024 bytes and a bucket has 16.
\<close>
definition rehash :: "(nat \<Rightarrow> nat option) \<Rightarrow> hash \<Rightarrow> nat \<Rightarrow> bool \<times> hash" where
  "rehash alloc H new_size =
     (let new_size = (if new_size * 16 > 1024 then 1024 div 16 else new_size)
      in if new_size = htsize H then (False, H)
         else (case alloc new_size of
                 None \<Rightarrow> (False, H)
               | Some n \<Rightarrow>
                   (True, fold (\<lambda>e H. insertElement H (Some (bucket_index n (pKey e))) e) (elems H)
                      (H\<lparr>ht := replicate n \<lparr>ht_count = 0, chain = 0\<rparr>, htsize := n, elems := []\<rparr>))))"

text \<open>\<open>None\<close> is the static null element.\<close>
definition findElementWithHash :: "hash \<Rightarrow> bytes \<Rightarrow> hash_elem option \<times> nat" where
  "findElementWithHash H key =
     (let (h, start, n) =
        (if ht H \<noteq> []
         then let h = bucket_index (htsize H) key; b = ht H ! h
              in (h, dropWhile (\<lambda>e. addr e \<noteq> chain b) (elems H), ht_count b)
         else (0, elems H, count H))
      in (find (\<lambda>e. sqlite3StrICmp (pKey e) key = 0) (take n start), h))"

text \<open>The element after \<open>a\<close> in the list, 0 at the end.\<close>
definition next_addr :: "nat \<Rightarrow> hash_elem list \<Rightarrow> nat" where
  "next_addr a es = (case tl (dropWhile (\<lambda>e. addr e \<noteq> a) es) of [] \<Rightarrow> 0 | e # _ \<Rightarrow> addr e)"

definition removeElementGivenHash :: "hash \<Rightarrow> hash_elem \<Rightarrow> nat \<Rightarrow> hash" where
  "removeElementGivenHash H elem h =
     (let b = ht H ! h;
          b' = \<lparr>ht_count = ht_count b - 1,
                chain = (if chain b = addr elem then next_addr (addr elem) (elems H) else chain b)\<rparr>;
          H' = H\<lparr>elems := filter (\<lambda>e. addr e \<noteq> addr elem) (elems H),
                 ht := (if ht H \<noteq> [] then (ht H)[h := b'] else []),
                 count := count H - 1\<rparr>
      in if count H' = 0 then sqlite3HashClear H' else H')"

definition sqlite3HashFind :: "hash \<Rightarrow> bytes \<Rightarrow> int" where
  "sqlite3HashFind H key = (case fst (findElementWithHash H key) of None \<Rightarrow> 0 | Some e \<Rightarrow> data e)"

text \<open>
  \<open>sqlite3HashInsert\<close>: the returned pointer and the table.  \<open>new\<close> is the address of the new
  element if one is allocated, \<open>None\<close> when there is no memory.  \<open>elem->data\<close> is
  what \<open>sqlite3HashFind\<close> returns.
\<close>
definition sqlite3HashInsert ::
  "nat option \<Rightarrow> (nat \<Rightarrow> nat option) \<Rightarrow> hash \<Rightarrow> bytes \<Rightarrow> int \<Rightarrow> int \<times> hash" where
  "sqlite3HashInsert new alloc H key d =
     (let (elem, h) = findElementWithHash H key
      in if sqlite3HashFind H key \<noteq> 0
         then (let e = the elem in
               (data e,
                if d = 0 then removeElementGivenHash H e h
                else H\<lparr>elems := map (\<lambda>x. if addr x = addr e then x\<lparr>data := d, pKey := key\<rparr> else x) (elems H)\<rparr>))
         else if d = 0 then (0, H)
         else (case new of
                 None \<Rightarrow> (d, H)
               | Some a \<Rightarrow>
                   let H = H\<lparr>count := count H + 1\<rparr>;
                       (done, H) = (if count H \<ge> 10 \<and> count H > 2 * htsize H
                                    then rehash alloc H (count H * 2) else (False, H));
                       h = (if done then bucket_index (htsize H) key else h)
                   in (0, insertElement H (if ht H \<noteq> [] then Some h else None)
                            \<lparr>addr = a, data = d, pKey = key\<rparr>)))"

section \<open>Invariant and abstraction\<close>

abbreviation lower :: "bytes \<Rightarrow> bytes" where
  "lower z \<equiv> map UpperToLower z"

text \<open>The elements of bucket \<open>h\<close> of \<open>n\<close>.\<close>
definition bucket :: "nat \<Rightarrow> nat \<Rightarrow> hash_elem list \<Rightarrow> hash_elem list" where
  "bucket n h es = filter (\<lambda>e. bucket_index n (pKey e) = h) es"

text \<open>A bucket entry counts its elements, which stand together, and points to the first.\<close>
definition entry_ok :: "nat \<Rightarrow> nat \<Rightarrow> ht_entry \<Rightarrow> hash_elem list \<Rightarrow> bool" where
  "entry_ok n h b es \<longleftrightarrow>
     ht_count b = length (bucket n h es) \<and>
     (ht_count b \<noteq> 0 \<longrightarrow> take (ht_count b) (dropWhile (\<lambda>e. addr e \<noteq> chain b) es) = bucket n h es)"

definition buckets_ok :: "hash \<Rightarrow> bool" where
  "buckets_ok H \<longleftrightarrow>
     distinct (map addr (elems H)) \<and>
     (ht H \<noteq> [] \<longrightarrow> length (ht H) = htsize H \<and>
        (\<forall>h < htsize H. entry_ok (htsize H) h (ht H ! h) (elems H)))"

definition hash_inv :: "hash \<Rightarrow> bool" where
  "hash_inv H \<longleftrightarrow>
     buckets_ok H \<and> count H = length (elems H) \<and> (ht H = [] \<longrightarrow> htsize H = 0) \<and>
     distinct (map (\<lambda>e. lower (pKey e)) (elems H)) \<and>
     (\<forall>e \<in> set (elems H). cstring (pKey e) \<and> data e \<noteq> 0)"

definition hash_map :: "hash \<Rightarrow> bytes \<rightharpoonup> int" where
  "hash_map H = map_of (map (\<lambda>e. (lower (pKey e), data e)) (elems H))"

section \<open>Buckets\<close>

lemma strHash_lower: "cstring a \<Longrightarrow> cstring b \<Longrightarrow> lower a = lower b \<Longrightarrow> strHash a = strHash b"
proof -
  have all: "takeWhile (\<lambda>c. c \<noteq> 0) z = z" if "cstring z" for z
    using that by (auto simp: cstring_def takeWhile_eq_all_conv)
  have fold: "fold (\<lambda>c h. (h + ucast (UpperToLower c)) * 0x9e3779b1) z h
      = fold (\<lambda>c h. (h + ucast c) * 0x9e3779b1) (lower z) h" for z and h :: u32
    by (induction z arbitrary: h) simp_all
  show "cstring a \<Longrightarrow> cstring b \<Longrightarrow> lower a = lower b \<Longrightarrow> strHash a = strHash b"
    unfolding strHash_def by (simp only: all fold)
qed

lemma at_element:
  assumes "distinct (map addr (A @ e # B))"
  shows "takeWhile (\<lambda>x. addr x \<noteq> addr e) (A @ e # B) = A"
    and "dropWhile (\<lambda>x. addr x \<noteq> addr e) (A @ e # B) = e # B"
    and "filter (\<lambda>x. addr x \<noteq> addr e) (A @ e # B) = A @ B"
proof -
  have "addr e \<notin> addr ` set A" "addr e \<notin> addr ` set B" using assms by simp_all
  then have "\<forall>x \<in> set A. addr x \<noteq> addr e" "\<forall>x \<in> set B. addr x \<noteq> addr e" by (metis imageI)+
  then show "takeWhile (\<lambda>x. addr x \<noteq> addr e) (A @ e # B) = A"
    "dropWhile (\<lambda>x. addr x \<noteq> addr e) (A @ e # B) = e # B"
    "filter (\<lambda>x. addr x \<noteq> addr e) (A @ e # B) = A @ B"
    by (simp_all add: takeWhile_append2 dropWhile_append2)
qed

text \<open>The first element of a nonempty bucket splits the list.\<close>
lemma entry_split:
  assumes "entry_ok n h b es" "ht_count b \<noteq> 0" "distinct (map addr es)"
  obtains A e B where "es = A @ e # B" "addr e = chain b" "bucket n h A = []"
    "take (ht_count b) (e # B) = bucket n h es" "bucket_index n (pKey e) = h"
    "takeWhile (\<lambda>x. addr x \<noteq> chain b) es = A" "dropWhile (\<lambda>x. addr x \<noteq> chain b) es = e # B"
proof -
  define D where "D = dropWhile (\<lambda>x. addr x \<noteq> chain b) es"
  define T where "T = takeWhile (\<lambda>x. addr x \<noteq> chain b) es"
  have t: "take (ht_count b) D = bucket n h es" using assms unfolding entry_ok_def D_def by blast
  have ne: "bucket n h es \<noteq> []" using assms by (auto simp: entry_ok_def)
  then obtain e B where D: "D = e # B" using t by (cases D) auto
  have es: "es = T @ e # B" using D unfolding T_def D_def by (metis takeWhile_dropWhile_id)
  have e: "addr e = chain b" using D unfolding D_def by (simp add: dropWhile_eq_Cons_conv)
  have "e \<in> set (bucket n h es)" using t [symmetric] D assms(2) by (cases "ht_count b") auto
  then have he: "bucket_index n (pKey e) = h" by (simp add: bucket_def)
  have "x \<notin> set (bucket n h T)" for x
  proof
    assume x: "x \<in> set (bucket n h T)"
    then have "x \<in> set (bucket n h es)" unfolding es by (simp add: bucket_def)
    then have "x \<in> set (e # B)" using t D by (metis in_set_takeD)
    moreover have "x \<in> set T" using x by (simp add: bucket_def)
    moreover have "distinct (T @ e # B)" using assms(3) unfolding es by (simp only: distinct_map)
    ultimately show False by auto
  qed
  then have none: "bucket n h T = []" by (cases "bucket n h T") auto
  show ?thesis
    by (rule that [OF es e none t [unfolded D] he T_def [symmetric] trans [OF D_def [symmetric] D]])
qed

lemma bucket_simps [simp]:
  "bucket n h [] = []"
  "bucket n h (e # es) = (if bucket_index n (pKey e) = h then e # bucket n h es else bucket n h es)"
  "bucket n h (es @ es') = bucket n h es @ bucket n h es'"
  by (simp_all add: bucket_def)

text \<open>A new element in front of the list, or in front of another bucket, leaves an entry intact.\<close>
lemma entry_ok_insert_other:
  assumes "entry_ok n h b (A @ B)" "distinct (map addr (A @ x # B))" "bucket_index n (pKey x) \<noteq> h"
    and "A = [] \<or> (\<exists>e B'. B = e # B' \<and> bucket_index n (pKey e) \<noteq> h)"
  shows "entry_ok n h b (A @ x # B)"
proof (cases "ht_count b = 0")
  case True
  then show ?thesis using assms(1,3) by (simp add: entry_ok_def)
next
  case False
  have d: "distinct (map addr (A @ B))" using assms(2) by auto
  obtain A' e B' where s': "A @ B = A' @ e # B'" "addr e = chain b" "bucket n h A' = []"
      "take (ht_count b) (e # B') = bucket n h (A @ B)" "bucket_index n (pKey e) = h"
    by (rule entry_split [OF assms(1) False d])
  note s = s'(1,2,4,5)
  have cnt: "ht_count b = length (bucket n h (A @ B))" using assms(1) by (simp add: entry_ok_def)
  consider C where "A = A' @ e # C" "B' = C @ B" | C where "B = C @ e # B'" "A' = A @ C"
    using s(1) by (auto simp: append_eq_append_conv2 Cons_eq_append_conv append_eq_Cons_conv)
  then have "take (ht_count b) (dropWhile (\<lambda>y. addr y \<noteq> chain b) (A @ x # B)) = bucket n h (A @ B)"
  proof cases
    case 1
    have drop: "dropWhile (\<lambda>y. addr y \<noteq> chain b) (A @ x # B) = e # C @ x # B"
      using at_element(2) [of A' e "C @ x # B"] assms(2) s(2) 1 by simp
    obtain f B'' where f: "B = f # B''" "bucket_index n (pKey f) \<noteq> h" using assms(4) 1 by auto
    have "ht_count b \<le> length (e # C)"
    proof (rule ccontr)
      assume "\<not> ht_count b \<le> length (e # C)"
      then have "f \<in> set (take (ht_count b) (e # B'))"
        using 1 f by (auto simp: in_set_conv_nth nth_append intro!: exI [of _ "Suc (length C)"])
      then show False using s(3) f by (auto simp: bucket_def)
    qed
    then show ?thesis using s(3) 1 drop by (simp add: take_append [of _ "e # C", simplified])
  next
    case 2
    have "dropWhile (\<lambda>y. addr y \<noteq> chain b) (A @ x # B) = e # B'"
      using at_element(2) [of "A @ x # C" e B'] assms(2) s(2) 2 by simp
    then show ?thesis using s(3) by simp
  qed
  then show ?thesis using assms(3) cnt by (simp add: entry_ok_def)
qed

lemma entry_ok_insert_same:
  assumes "bucket_index n (pKey x) = h" "distinct (map addr (A @ x # B))"
    and "bucket n h A = []" "take (length (bucket n h B)) B = bucket n h B"
  shows "entry_ok n h \<lparr>ht_count = length (bucket n h B) + 1, chain = addr x\<rparr> (A @ x # B)"
  using assms at_element(2) [OF assms(2)] by (simp add: entry_ok_def)

lemma insertElement_bucket:
  assumes ok: "buckets_ok H" and ht: "ht H \<noteq> []" and h: "h = bucket_index (htsize H) (pKey x)"
    and new: "addr x \<notin> addr ` set (elems H)"
  shows "buckets_ok (insertElement H (Some h) x)" "mset (elems (insertElement H (Some h) x)) = add_mset x (mset (elems H))"
    "ht (insertElement H (Some h) x) \<noteq> []" "htsize (insertElement H (Some h) x) = htsize H"
    "count (insertElement H (Some h) x) = count H"
proof -
  let ?n = "htsize H" and ?b = "ht H ! h"
  have len: "length (ht H) = ?n" and entries: "\<And>i. i < ?n \<Longrightarrow> entry_ok ?n i (ht H ! i) (elems H)"
    and dist: "distinct (map addr (elems H))"
    using ok ht by (simp_all add: buckets_ok_def)
  have "0 < ?n" using ht len by (cases "ht H") auto
  then have hn: "h < ?n" using h by (simp add: bucket_index_def)
  obtain A B where AB: "elems H = A @ B" "elems (insertElement H (Some h) x) = A @ x # B"
      "bucket ?n h A = []" "take (length (bucket ?n h B)) B = bucket ?n h B"
      "ht_count ?b = length (bucket ?n h B)"
      "A = [] \<or> (\<exists>e B'. B = e # B' \<and> bucket_index ?n (pKey e) = h)"
  proof (cases "ht_count ?b = 0")
    case True
    then have "bucket ?n h (elems H) = []" using entries [OF hn] by (simp add: entry_ok_def)
    then show ?thesis using True by (intro that [of "[]" "elems H"]) (simp_all add: insertElement_def Let_def)
  next
    case False
    obtain A e B where s: "elems H = A @ e # B" "addr e = chain ?b" "bucket ?n h A = []"
        "take (ht_count ?b) (e # B) = bucket ?n h (elems H)" "bucket_index ?n (pKey e) = h"
        "takeWhile (\<lambda>x. addr x \<noteq> chain ?b) (elems H) = A" "dropWhile (\<lambda>x. addr x \<noteq> chain ?b) (elems H) = e # B"
      by (rule entry_split [OF entries [OF hn] False dist])
    have b: "bucket ?n h (elems H) = bucket ?n h (e # B)" using s(1,3) by simp
    then have c: "ht_count ?b = length (bucket ?n h (e # B))"
      using entries [OF hn] by (simp only: entry_ok_def)
    show ?thesis
    proof (rule that)
      show "elems H = A @ e # B" "bucket ?n h A = []" "ht_count ?b = length (bucket ?n h (e # B))"
        using s c by simp_all
      show "elems (insertElement H (Some h) x) = A @ x # e # B"
        using False s(6,7) by (simp add: insertElement_def Let_def)
      show "take (length (bucket ?n h (e # B))) (e # B) = bucket ?n h (e # B)" using s(4) b c by simp
      show "A = [] \<or> (\<exists>f B'. e # B = f # B' \<and> bucket_index ?n (pKey f) = h)" using s(5) by simp
    qed
  qed
  have dist': "distinct (map addr (A @ x # B))" using dist new AB(1) by auto
  let ?H = "insertElement H (Some h) x"
  have ht': "ht ?H = (ht H)[h := \<lparr>ht_count = length (bucket ?n h B) + 1, chain = addr x\<rparr>]"
    using AB(5) by (simp add: insertElement_def Let_def)
  show n': "htsize ?H = ?n" and "count ?H = count H" by (simp_all add: insertElement_def Let_def)
  show "ht ?H \<noteq> []" using ht ht' by simp
  show "mset (elems ?H) = add_mset x (mset (elems H))" unfolding AB(1,2) by simp
  have "entry_ok ?n i (ht ?H ! i) (A @ x # B)" if i: "i < ?n" for i
  proof (cases "i = h")
    case True
    then show ?thesis using entry_ok_insert_same [OF h [symmetric] dist' AB(3,4)] ht' hn len by simp
  next
    case False
    then have "entry_ok ?n i (ht H ! i) (A @ x # B)"
      using entries [OF i] AB(1,6) h dist' by (intro entry_ok_insert_other) auto
    then show ?thesis using False ht' by simp
  qed
  then show "buckets_ok ?H" using dist' AB(2) n' ht' len by (simp add: buckets_ok_def)
qed

lemma insertElement_list:
  assumes "buckets_ok H" "ht H = []" "addr x \<notin> addr ` set (elems H)"
  shows "buckets_ok (insertElement H None x)" "elems (insertElement H None x) = x # elems H"
    "ht (insertElement H None x) = []" "htsize (insertElement H None x) = htsize H"
    "count (insertElement H None x) = count H"
  using assms by (simp_all add: buckets_ok_def insertElement_def)

lemma reinsert_all:
  assumes "buckets_ok H" "ht H \<noteq> []" "htsize H = n" "distinct (map addr es)"
    and "addr ` set es \<inter> addr ` set (elems H) = {}"
  shows "let H' = fold (\<lambda>e H. insertElement H (Some (bucket_index n (pKey e))) e) es H
         in buckets_ok H' \<and> mset (elems H') = mset es + mset (elems H) \<and> ht H' \<noteq> [] \<and>
            htsize H' = n \<and> count H' = count H"
  using assms
proof (induction es arbitrary: H)
  case (Cons e es)
  let ?H = "insertElement H (Some (bucket_index n (pKey e))) e"
  have new: "addr e \<notin> addr ` set (elems H)" using Cons.prems(5) by auto
  note ins = insertElement_bucket [OF Cons.prems(1,2) _ new, of "bucket_index n (pKey e)"]
  have "set (elems ?H) = insert e (set (elems H))"
    using ins(2) Cons.prems(3) by (metis set_mset_add_mset_insert set_mset_mset)
  then have "addr ` set es \<inter> addr ` set (elems ?H) = {}" using Cons.prems(4,5) by auto
  then show ?case using Cons.IH [of ?H] ins Cons.prems(3,4) by (simp add: Let_def)
qed (simp add: Let_def)

lemma rehash_ok:
  assumes "buckets_ok H" "\<And>k m. alloc k = Some m \<Longrightarrow> k \<le> m" "0 < k"
  shows "let (done, H') = rehash alloc H k
         in buckets_ok H' \<and> mset (elems H') = mset (elems H) \<and> count H' = count H \<and>
            (done \<longrightarrow> ht H' \<noteq> []) \<and> (\<not> done \<longrightarrow> H' = H)"
proof -
  have "buckets_ok (H\<lparr>ht := replicate m \<lparr>ht_count = 0, chain = 0\<rparr>, htsize := m, elems := []\<rparr>)" for m
    by (simp add: buckets_ok_def entry_ok_def)
  moreover have "distinct (map addr (elems H))" using assms(1) by (simp add: buckets_ok_def)
  moreover have "0 < m" if "alloc (if 1024 < k * 16 then 1024 div 16 else k) = Some m" for m
    using assms(2) [OF that] assms(3) by (simp split: if_splits)
  ultimately show ?thesis
    using assms(1) reinsert_all [of "H\<lparr>ht := replicate m \<lparr>ht_count = 0, chain = 0\<rparr>, htsize := m, elems := []\<rparr>" m "elems H" for m]
    by (auto simp: rehash_def Let_def split: option.splits)
qed

lemma entry_ok_remove_other:
  assumes "entry_ok n h b (A @ x # B)" "distinct (map addr (A @ x # B))" "bucket_index n (pKey x) \<noteq> h"
  shows "entry_ok n h b (A @ B)"
proof (cases "ht_count b = 0")
  case True
  then show ?thesis using assms(1,3) by (simp add: entry_ok_def)
next
  case False
  obtain A' e B' where s': "A @ x # B = A' @ e # B'" "addr e = chain b" "bucket n h A' = []"
      "take (ht_count b) (e # B') = bucket n h (A @ x # B)" "bucket_index n (pKey e) = h"
    by (rule entry_split [OF assms(1) False assms(2)])
  note s = s'(1,2,4,5)
  have cnt: "ht_count b = length (bucket n h (A @ x # B))" using assms(1) by (simp add: entry_ok_def)
  have ne: "e \<noteq> x" using s(4) assms(3) by auto
  consider C where "A = A' @ e # C" "B' = C @ x # B" | C where "B = C @ e # B'" "A' = A @ x # C"
    using s(1) ne by (auto simp: append_eq_append_conv2 Cons_eq_append_conv append_eq_Cons_conv)
  then have "take (ht_count b) (dropWhile (\<lambda>y. addr y \<noteq> chain b) (A @ B)) = bucket n h (A @ x # B)"
  proof cases
    case 1
    have drop: "dropWhile (\<lambda>y. addr y \<noteq> chain b) (A @ B) = e # C @ B"
      using at_element(2) [of A' e "C @ B"] assms(2) s(2) 1 by simp
    have "ht_count b \<le> length (e # C)"
    proof (rule ccontr)
      assume "\<not> ht_count b \<le> length (e # C)"
      then have "x \<in> set (take (ht_count b) (e # B'))"
        using 1 by (auto simp: in_set_conv_nth nth_append intro!: exI [of _ "Suc (length C)"])
      then show False using s(3) assms(3) by (auto simp: bucket_def)
    qed
    then show ?thesis using s(3) 1 drop by (simp add: take_append [of _ "e # C", simplified])
  next
    case 2
    have "dropWhile (\<lambda>y. addr y \<noteq> chain b) (A @ B) = e # B'"
      using at_element(2) [of "A @ C" e B'] assms(2) s(2) 2 by simp
    then show ?thesis using s(3) by simp
  qed
  then show ?thesis using assms(3) cnt by (simp add: entry_ok_def)
qed

lemma entry_ok_remove_same:
  assumes "entry_ok n h b (A @ x # B)" "distinct (map addr (A @ x # B))" "bucket_index n (pKey x) = h"
  shows "entry_ok n h \<lparr>ht_count = ht_count b - 1,
      chain = (if chain b = addr x then (case B of [] \<Rightarrow> 0 | e # _ \<Rightarrow> addr e) else chain b)\<rparr> (A @ B)"
proof -
  have cnt: "ht_count b = Suc (length (bucket n h (A @ B)))" using assms(1,3) by (simp add: entry_ok_def)
  obtain A' e B' where s: "A @ x # B = A' @ e # B'" "addr e = chain b" "bucket n h A' = []"
      "take (ht_count b) (e # B') = bucket n h (A @ x # B)" "bucket_index n (pKey e) = h"
    by (rule entry_split [OF assms(1) _ assms(2)]) (simp add: cnt)
  show ?thesis
  proof (cases "chain b = addr x")
    case True
    have "e = x"
    proof -
      have "e \<in> set (A @ x # B)" by (simp add: s(1))
      moreover have "x \<in> set (A @ x # B)" by simp
      ultimately show ?thesis using assms(2) s(2) True by (metis distinct_map inj_onD)
    qed
    then have "A' = A" "B' = B"
      using at_element(1) [OF assms(2)] at_element(1,2) [of A' e B'] at_element(2) [OF assms(2)] s(1) assms(2)
      by auto
    then have t: "take (length (bucket n h (A @ B))) B = bucket n h (A @ B)"
      using s cnt assms(3) by simp
    have "take (length (bucket n h (A @ B))) (dropWhile (\<lambda>y. addr y \<noteq> (case B of [] \<Rightarrow> 0 | e # _ \<Rightarrow> addr e)) (A @ B))
        = bucket n h (A @ B)" if "bucket n h (A @ B) \<noteq> []"
    proof -
      have "B \<noteq> []" using that t by (metis take_Nil)
      then obtain f B'' where f: "B = f # B''" by (cases B) auto
      show ?thesis using at_element(2) [of A f B''] assms(2) t f by simp
    qed
    then show ?thesis using True cnt by (auto simp: entry_ok_def)
  next
    case False
    then have ne: "e \<noteq> x" using s(2) by auto
    have "x \<in> set (bucket n h (A @ x # B))" using assms(3) by simp
    then have inB: "x \<in> set B'" using s(4) ne by (metis in_set_takeD set_ConsD)
    have "distinct (A' @ e # B')" using assms(2) unfolding s(1) by (simp only: distinct_map)
    then obtain C where C: "A = A' @ e # C" "B' = C @ x # B"
      using s(1) inB by (auto simp: append_eq_append_conv2 Cons_eq_append_conv append_eq_Cons_conv)
    have drop: "dropWhile (\<lambda>y. addr y \<noteq> chain b) (A @ B) = e # C @ B"
      using at_element(2) [of A' e "C @ B"] assms(2) s(2) C by simp
    have t: "take (ht_count b) (e # C @ x # B) = bucket n h (e # C @ x # B)" using s C by simp
    have "length (e # C) < ht_count b"
    proof (rule ccontr)
      assume "\<not> length (e # C) < ht_count b"
      then have "take (ht_count b) (e # C @ x # B) = take (ht_count b) (e # C)" by (cases "ht_count b") auto
      then have "bucket n h (e # C @ x # B) = take (ht_count b) (e # C)" by (rule trans [OF t [symmetric]])
      then have "x \<in> set (e # C)" using assms(3) by (metis in_set_takeD bucket_simps(2,3) append_Cons in_set_conv_decomp)
      then show False using assms(2) C by auto
    qed
    then have len: "Suc (length C) < ht_count b" by simp
    then obtain k where k: "ht_count b = Suc (Suc (length C + k))" by (metis add_Suc less_imp_Suc_add)
    have "C @ x # take k B = bucket n h (C @ x # B)" using t k s(5) by simp
    then have "C @ x # take k B = bucket n h C @ x # bucket n h B" using assms(3) by simp
    moreover have "x \<notin> set C" "x \<notin> set (take k B)" using assms(2) C by (auto dest: in_set_takeD)
    ultimately have "C = bucket n h C \<and> take k B = bucket n h B" using append_Cons_eq_iff by metis
    then have "C @ take k B = bucket n h (C @ B)" by simp
    then have "take (ht_count b - 1) (e # C @ B) = bucket n h (A @ B)" using k s C by simp
    then show ?thesis using False cnt drop by (simp add: entry_ok_def)
  qed
qed

lemma removeElement_ok:
  assumes ok: "buckets_ok H" and x: "x \<in> set (elems H)" and h: "ht H \<noteq> [] \<longrightarrow> h = bucket_index (htsize H) (pKey x)"
  defines "H' \<equiv> removeElementGivenHash H x h"
  shows "buckets_ok H'" "elems H' = (if count H \<le> 1 then [] else filter (\<lambda>e. addr e \<noteq> addr x) (elems H))"
    "count H' = count H - 1" "ht H = [] \<Longrightarrow> ht H' = []" "ht H' = [] \<Longrightarrow> htsize H' = 0 \<or> htsize H' = htsize H \<and> ht H = []"
proof -
  let ?n = "htsize H"
  obtain A B where AB: "elems H = A @ x # B" using x by (auto simp: in_set_conv_decomp)
  have dist: "distinct (map addr (A @ x # B))" using ok AB by (simp add: buckets_ok_def)
  note at = at_element [OF dist]
  have next_eq: "next_addr (addr x) (A @ x # B) = (case B of [] \<Rightarrow> 0 | e # _ \<Rightarrow> addr e)"
    by (simp add: next_addr_def at(2))
  define b where "b = \<lparr>ht_count = ht_count (ht H ! h) - 1,
      chain = (if chain (ht H ! h) = addr x then (case B of [] \<Rightarrow> 0 | e # _ \<Rightarrow> addr e) else chain (ht H ! h))\<rparr>"
  have entries: "entry_ok ?n i ((ht H)[h := b] ! i) (A @ B)" if "ht H \<noteq> []" "i < ?n" for i
  proof -
    have len: "length (ht H) = ?n" and e: "entry_ok ?n i (ht H ! i) (A @ x # B)"
      using ok that AB by (simp_all add: buckets_ok_def)
    show ?thesis
    proof (cases "i = h")
      case True
      then have "entry_ok ?n i b (A @ B)" unfolding b_def using entry_ok_remove_same [OF e dist] h that(1) by blast
      then show ?thesis using True that len by simp
    next
      case False
      then have "entry_ok ?n i (ht H ! i) (A @ B)" using entry_ok_remove_other [OF e dist] h that by simp
      then show ?thesis using False by simp
    qed
  qed
  have d: "distinct (map addr (A @ B))" using dist by auto
  have len: "ht H \<noteq> [] \<Longrightarrow> length (ht H) = ?n" using ok by (simp add: buckets_ok_def)
  show "buckets_ok H'"
    using d entries len unfolding H'_def removeElementGivenHash_def AB at next_eq Let_def b_def [symmetric]
    by (simp add: buckets_ok_def sqlite3HashClear_def)
  show "elems H' = (if count H \<le> 1 then [] else filter (\<lambda>e. addr e \<noteq> addr x) (elems H))"
    "count H' = count H - 1" "ht H = [] \<Longrightarrow> ht H' = []"
    "ht H' = [] \<Longrightarrow> htsize H' = 0 \<or> htsize H' = htsize H \<and> ht H = []"
    unfolding H'_def removeElementGivenHash_def by (auto simp: sqlite3HashClear_def Let_def split: if_splits)
qed

section \<open>The table as a map\<close>

lemma find_map_of: "map_of (map (\<lambda>e. (f e, g e)) es) k = map_option g (find (\<lambda>e. f e = k) es)"
  by (induction es) auto

lemma find_filter: "(\<And>e. e \<in> set es \<Longrightarrow> P e \<Longrightarrow> Q e) \<Longrightarrow> find P (filter Q es) = find P es"
  by (induction es) auto

lemma find_cong: "(\<And>e. e \<in> set es \<Longrightarrow> P e = Q e) \<Longrightarrow> find P es = find Q es"
  by (induction es) auto

lemma same_bucket:
  "cstring a \<Longrightarrow> cstring b \<Longrightarrow> lower a = lower b \<Longrightarrow> bucket_index n a = bucket_index n b"
  using strHash_lower [of a b] by (simp add: bucket_index_def)

lemma findElement:
  assumes "hash_inv H" "cstring key"
  shows "fst (findElementWithHash H key) = find (\<lambda>e. lower (pKey e) = lower key) (elems H)"
    and "ht H \<noteq> [] \<Longrightarrow> snd (findElementWithHash H key) = bucket_index (htsize H) key"
proof -
  have keys: "\<And>e. e \<in> set (elems H) \<Longrightarrow> cstring (pKey e)" using assms(1) by (simp add: hash_inv_def)
  have cmp: "find (\<lambda>e. sqlite3StrICmp (pKey e) key = 0) es = find (\<lambda>e. lower (pKey e) = lower key) es"
    if "set es \<subseteq> set (elems H)" for es
    using that keys StrICmp_lex [OF _ assms(2)] by (intro find_cong) blast
  show "ht H \<noteq> [] \<Longrightarrow> snd (findElementWithHash H key) = bucket_index (htsize H) key"
    by (simp add: findElementWithHash_def Let_def)
  show "fst (findElementWithHash H key) = find (\<lambda>e. lower (pKey e) = lower key) (elems H)"
  proof (cases "ht H = []")
    case True
    then show ?thesis using assms(1) cmp [of "elems H"] by (simp add: findElementWithHash_def hash_inv_def)
  next
    case False
    let ?h = "bucket_index (htsize H) key"
    let ?b = "ht H ! ?h"
    have "0 < htsize H" using False assms(1) by (cases "ht H") (auto simp: hash_inv_def buckets_ok_def)
    then have "?h < htsize H" by (simp add: bucket_index_def)
    then have ok: "entry_ok (htsize H) ?h ?b (elems H)"
      using False assms(1) by (simp add: hash_inv_def buckets_ok_def)
    then have take: "take (ht_count ?b) (dropWhile (\<lambda>e. addr e \<noteq> chain ?b) (elems H)) = bucket (htsize H) ?h (elems H)"
      by (cases "ht_count ?b = 0") (auto simp: entry_ok_def)
    have "find (\<lambda>e. lower (pKey e) = lower key) (bucket (htsize H) ?h (elems H))
        = find (\<lambda>e. lower (pKey e) = lower key) (elems H)"
      unfolding bucket_def using keys same_bucket [OF _ assms(2)] by (intro find_filter) blast
    moreover have "set (bucket (htsize H) ?h (elems H)) \<subseteq> set (elems H)" by (auto simp: bucket_def)
    ultimately show ?thesis using False cmp take by (simp add: findElementWithHash_def Let_def)
  qed
qed

lemma HashFind_map:
  assumes "hash_inv H" "cstring key"
  shows "sqlite3HashFind H key = (case hash_map H (lower key) of None \<Rightarrow> 0 | Some d \<Rightarrow> d)"
  using findElement(1) [OF assms] 
  by (auto simp: sqlite3HashFind_def hash_map_def find_map_of split: option.splits)

text \<open>The invariant on the element list alone, and the map it stands for.\<close>

abbreviation keys_ok :: "hash_elem list \<Rightarrow> bool" where
  "keys_ok es \<equiv> distinct (map (\<lambda>e. lower (pKey e)) es) \<and> (\<forall>e \<in> set es. cstring (pKey e) \<and> data e \<noteq> 0)"

abbreviation elem_map :: "hash_elem list \<Rightarrow> bytes \<rightharpoonup> int" where
  "elem_map es \<equiv> map_of (map (\<lambda>e. (lower (pKey e), data e)) es)"

lemma elem_map_Some:
  "keys_ok es \<Longrightarrow> elem_map es k = Some v \<longleftrightarrow> (\<exists>e \<in> set es. k = lower (pKey e) \<and> v = data e)"
  by (subst map_of_eq_Some_iff) (auto simp: o_def)

lemma elem_map_eqI:
  assumes "\<And>k v. m k = Some v \<longleftrightarrow> m' k = Some v"
  shows "m = m'"
  using assms by (intro ext) (metis option.exhaust)

lemma keys_ok_mset: "mset es = mset es' \<Longrightarrow> keys_ok es \<longleftrightarrow> keys_ok es'"
proof -
  assume m: "mset es = mset es'"
  then have "mset (map (\<lambda>e. lower (pKey e)) es) = mset (map (\<lambda>e. lower (pKey e)) es')" by simp
  then have "distinct (map (\<lambda>e. lower (pKey e)) es) = distinct (map (\<lambda>e. lower (pKey e)) es')"
    by (rule mset_eq_imp_distinct_iff)
  moreover have "set es = set es'" using m by (metis set_mset_mset)
  ultimately show "keys_ok es \<longleftrightarrow> keys_ok es'" by simp
qed

lemma elem_map_mset:
  assumes "mset es = mset es'" "keys_ok es"
  shows "elem_map es = elem_map es'"
proof -
  have "keys_ok es'" "set es = set es'" using assms keys_ok_mset by (blast, metis set_mset_mset)
  then show ?thesis using elem_map_Some [of es] elem_map_Some [of es'] assms(2) by (intro elem_map_eqI) simp
qed

lemma removed:
  assumes "keys_ok es" "distinct (map addr es)" "e \<in> set es"
  shows "keys_ok (filter (\<lambda>x. addr x \<noteq> addr e) es)"
    "elem_map (filter (\<lambda>x. addr x \<noteq> addr e) es) = (elem_map es)(lower (pKey e) := None)"
proof -
  show k: "keys_ok (filter (\<lambda>x. addr x \<noteq> addr e) es)"
    using assms(1) by (simp add: distinct_map_filter)
  have other: "addr x \<noteq> addr e \<longleftrightarrow> lower (pKey x) \<noteq> lower (pKey e)" if "x \<in> set es" for x
    using assms that by (metis (no_types, lifting) distinct_map inj_onD)
  show "elem_map (filter (\<lambda>x. addr x \<noteq> addr e) es) = (elem_map es)(lower (pKey e) := None)"
    using elem_map_Some [OF k] elem_map_Some [OF assms(1)] other by (intro elem_map_eqI) auto
qed

lemma replaced:
  assumes "keys_ok es" "distinct (map addr es)" "e \<in> set es" "lower (pKey e) = lower key" "cstring key" "d \<noteq> 0"
  defines "f \<equiv> \<lambda>x. if addr x = addr e then x\<lparr>data := d, pKey := key\<rparr> else x"
  shows "keys_ok (map f es)" "elem_map (map f es) = (elem_map es)(lower key := Some d)"
    "\<And>x. lower (pKey (f x)) = lower (pKey x) \<or> x \<notin> set es" "\<And>x. addr (f x) = addr x"
proof -
  have other: "addr x = addr e \<longleftrightarrow> lower (pKey x) = lower key" if "x \<in> set es" for x
    using assms(1-4) that by (metis (no_types, lifting) distinct_map inj_onD)
  show low: "\<And>x. lower (pKey (f x)) = lower (pKey x) \<or> x \<notin> set es" using other by (auto simp: f_def)
  show "\<And>x. addr (f x) = addr x" by (simp add: f_def)
  have "map (\<lambda>x. lower (pKey (f x))) es = map (\<lambda>x. lower (pKey x)) es" using low by auto
  then have "distinct (map (\<lambda>x. lower (pKey x)) (map f es))"
    using assms(1) unfolding map_map o_def by (simp only:)
  moreover have "\<forall>x \<in> set (map f es). cstring (pKey x) \<and> data x \<noteq> 0"
    using assms(1,5,6) by (auto simp: f_def)
  ultimately show k: "keys_ok (map f es)" by blast
  have dat: "data (f x) = (if lower (pKey x) = lower key then d else data x)" if "x \<in> set es" for x
    using other [OF that] by (simp add: f_def)
  have "elem_map (map f es) k = Some v \<longleftrightarrow> (\<exists>x \<in> set es. k = lower (pKey x) \<and> v = data (f x))" for k v
  proof -
    have "lower (pKey (f x)) = lower (pKey x)" if "x \<in> set es" for x using low [of x] that by blast
    then show ?thesis unfolding elem_map_Some [OF k] by (simp cong: bex_cong)
  qed
  then show "elem_map (map f es) = (elem_map es)(lower key := Some d)"
    using elem_map_Some [OF assms(1)] dat assms(3,4) by (intro elem_map_eqI) (simp, blast)
qed

lemma entry_ok_map:
  assumes "entry_ok n h b es"
    and "\<And>x. x \<in> set es \<Longrightarrow> addr (f x) = addr x \<and> bucket_index n (pKey (f x)) = bucket_index n (pKey x)"
  shows "entry_ok n h b (map f es)"
proof -
  have b: "bucket n h (map f es) = map f (bucket n h es)"
    unfolding bucket_def filter_map o_def using assms(2) by (intro arg_cong [of _ _ "map f"] filter_cong) auto
  have "dropWhile (\<lambda>e. addr e \<noteq> chain b) (map f es) = map f (dropWhile (\<lambda>e. addr e \<noteq> chain b) es)"
    unfolding dropWhile_map o_def using assms(2) by (intro arg_cong [of _ _ "map f"] dropWhile_cong) auto
  then show ?thesis using assms(1) b by (auto simp: entry_ok_def take_map)
qed

text \<open>What an insertion into table \<open>H\<close> must return and leave.\<close>
definition inserted :: "hash \<Rightarrow> bytes \<Rightarrow> int \<Rightarrow> int \<times> hash \<Rightarrow> bool" where
  "inserted H key d res \<longleftrightarrow>
     fst res = (case hash_map H (lower key) of None \<Rightarrow> 0 | Some x \<Rightarrow> x) \<and>
     hash_inv (snd res) \<and>
     hash_map (snd res) = (hash_map H)(lower key := (if d = 0 then None else Some d))"

lemma insert_existing:
  assumes inv: "hash_inv H" and key: "cstring key" and found: "hash_map H (lower key) = Some x"
  shows "inserted H key d (sqlite3HashInsert new alloc H key d)"
proof -
  have keys: "keys_ok (elems H)" and dist: "distinct (map addr (elems H))"
    and cnt: "count H = length (elems H)" and ok: "buckets_ok H"
    using inv by (simp_all add: hash_inv_def buckets_ok_def)
  obtain e h where f: "findElementWithHash H key = (Some e, h)" and x: "data e = x"
    using findElement(1) [OF inv key] found
    by (cases "findElementWithHash H key") (auto simp: hash_map_def find_map_of)
  then have "find (\<lambda>e. lower (pKey e) = lower key) (elems H) = Some e"
    using findElement(1) [OF inv key] by simp
  then have e: "e \<in> set (elems H)" "lower (pKey e) = lower key" by (auto simp: find_Some_iff)
  have ce: "cstring (pKey e)" "x \<noteq> 0" using keys e x by auto
  have h: "ht H \<noteq> [] \<longrightarrow> h = bucket_index (htsize H) (pKey e)"
    using findElement(2) [OF inv key] f same_bucket [OF ce(1) key e(2)] by simp
  have find: "sqlite3HashFind H key = x" using f x by (simp add: sqlite3HashFind_def)
  show ?thesis
  proof (cases "d = 0")
    case True
    let ?H = "removeElementGivenHash H e h"
    note rem = removeElement_ok [OF ok e(1) h]
    have "filter (\<lambda>y. addr y \<noteq> addr e) (elems H) = []" if "count H \<le> 1"
      using that cnt e(1) by (cases "elems H") auto
    then have el: "elems ?H = filter (\<lambda>y. addr y \<noteq> addr e) (elems H)" using rem(2) by auto
    have "length (filter (\<lambda>y. addr y \<noteq> addr e) (elems H)) = length (elems H) - 1"
    proof -
      obtain A B where AB: "elems H = A @ e # B" using e(1) by (auto simp: in_set_conv_decomp)
      then show ?thesis using at_element(3) [of A e B] dist by simp
    qed
    then have "hash_inv ?H"
      using rem el cnt removed(1) [OF keys dist e(1)] inv unfolding hash_inv_def by auto
    moreover have "hash_map ?H = (hash_map H)(lower key := None)"
      using removed(2) [OF keys dist e(1)] el e(2) by (simp add: hash_map_def)
    ultimately show ?thesis using True f x find ce(2) found
      by (simp add: inserted_def sqlite3HashInsert_def Let_def)
  next
    case False
    let ?f = "\<lambda>y. if addr y = addr e then y\<lparr>data := d, pKey := key\<rparr> else y"
    note rep = replaced [OF keys dist e key False]
    have "bucket_index n (pKey (?f y)) = bucket_index n (pKey y)" if "y \<in> set (elems H)" for y n
      using rep(3) [of y] that keys key by (intro same_bucket) auto
    then have "entry_ok n i b (map ?f (elems H))" if "entry_ok n i b (elems H)" for n i b
      using that by (intro entry_ok_map) auto
    moreover have "map addr (map ?f (elems H)) = map addr (elems H)" by simp
    ultimately have "buckets_ok (H\<lparr>elems := map ?f (elems H)\<rparr>)"
      using ok unfolding buckets_ok_def by (metis (no_types, lifting) hash.select_convs hash.surjective hash.update_convs(3))
    then have "hash_inv (H\<lparr>elems := map ?f (elems H)\<rparr>)"
      using inv rep(1) unfolding hash_inv_def by simp
    moreover have "hash_map (H\<lparr>elems := map ?f (elems H)\<rparr>) = (hash_map H)(lower key := Some d)"
      using rep(2) by (simp add: hash_map_def)
    ultimately show ?thesis using False f x find ce(2) found
      by (simp add: inserted_def sqlite3HashInsert_def Let_def)
  qed
qed

lemma insert_new:
  assumes inv: "hash_inv H" and key: "cstring key" and none: "hash_map H (lower key) = None" and d: "d \<noteq> 0"
    and new: "a \<notin> addr ` set (elems H)" and alloc: "\<And>k m. alloc k = Some m \<Longrightarrow> k \<le> m"
  shows "inserted H key d (sqlite3HashInsert (Some a) alloc H key d)"
proof -
  let ?x = "\<lparr>addr = a, data = d, pKey = key\<rparr>"
  obtain h where f: "findElementWithHash H key = (None, h)"
    using findElement(1) [OF inv key] none
    by (cases "findElementWithHash H key") (auto simp: hash_map_def find_map_of)
  have h: "ht H \<noteq> [] \<longrightarrow> h = bucket_index (htsize H) key" using findElement(2) [OF inv key] f by simp
  have find: "sqlite3HashFind H key = 0" using f by (simp add: sqlite3HashFind_def)
  let ?H1 = "H\<lparr>count := count H + 1\<rparr>"
  define r where "r = (if count ?H1 \<ge> 10 \<and> count ?H1 > 2 * htsize ?H1
      then rehash alloc ?H1 (count ?H1 * 2) else (False, ?H1))"
  obtain dn H2 where r2: "r = (dn, H2)" by (cases r)
  have ok1: "buckets_ok ?H1" using inv by (simp add: hash_inv_def buckets_ok_def)
  have H2: "buckets_ok H2" "mset (elems H2) = mset (elems H)" "count H2 = count H + 1"
      "dn \<longrightarrow> ht H2 \<noteq> []" "\<not> dn \<longrightarrow> H2 = ?H1"
    using rehash_ok [where alloc = alloc and k = "count ?H1 * 2", OF ok1 alloc] ok1 r2 unfolding r_def
    by (auto simp: Let_def split: if_splits prod.splits)
  define h2 where "h2 = (if dn then bucket_index (htsize H2) key else h)"
  have h2: "ht H2 \<noteq> [] \<Longrightarrow> h2 = bucket_index (htsize H2) (pKey ?x)" using h H2(5) by (auto simp: h2_def)
  have new2: "addr ?x \<notin> addr ` set (elems H2)" using new H2(2) by (metis hash_elem.select_convs(1) set_mset_mset)
  define H3 where "H3 = insertElement H2 (if ht H2 \<noteq> [] then Some h2 else None) ?x"
  have H3: "buckets_ok H3" "mset (elems H3) = mset (?x # elems H)" "count H3 = count H + 1"
      "ht H3 = [] \<longrightarrow> htsize H3 = 0"
  proof -
    have z: "ht H2 = [] \<longrightarrow> htsize H2 = 0" using inv H2(4,5) by (auto simp: hash_inv_def)
    show "buckets_ok H3" "mset (elems H3) = mset (?x # elems H)" "count H3 = count H + 1"
      "ht H3 = [] \<longrightarrow> htsize H3 = 0"
      using insertElement_bucket [OF H2(1) _ h2 new2] insertElement_list [OF H2(1) _ new2] H2(2,3) z
      unfolding H3_def by (cases "ht H2 = []"; simp)+
  qed
  have keys: "keys_ok (elems H)" using inv by (simp add: hash_inv_def)
  have "lower key \<notin> (\<lambda>e. lower (pKey e)) ` set (elems H)"
    using none by (auto simp: hash_map_def map_of_eq_None_iff image_image)
  then have k3: "keys_ok (?x # elems H)" using keys key d by simp
  have inv3: "hash_inv H3"
    using H3 k3 keys_ok_mset [OF H3(2)] inv mset_eq_length [OF H3(2)] unfolding hash_inv_def by simp
  have "hash_map H3 = (hash_map H)(lower key := Some d)"
    using elem_map_mset [OF H3(2)] k3 keys_ok_mset [OF H3(2)] by (simp add: hash_map_def)
  moreover have "sqlite3HashInsert (Some a) alloc H key d = (0, H3)"
    unfolding sqlite3HashInsert_def Let_def f prod.case option.case r_def [symmetric] r2
      h2_def [symmetric] H3_def [symmetric]
    using find d by simp
  ultimately show ?thesis using none inv3 d by (simp add: inserted_def)
qed

lemma HashInsert_correct:
  assumes "hash_inv H" "cstring key" "\<And>k m. alloc k = Some m \<Longrightarrow> k \<le> m"
    and "\<And>a. new = Some a \<Longrightarrow> a \<notin> addr ` set (elems H)"
  shows "if hash_map H (lower key) = None \<and> d \<noteq> 0 \<and> new = None
         then sqlite3HashInsert new alloc H key d = (d, H)
         else inserted H key d (sqlite3HashInsert new alloc H key d)"
proof (cases "hash_map H (lower key)")
  case (Some x)
  then show ?thesis using insert_existing [OF assms(1,2) Some] by simp
next
  case None
  have find: "sqlite3HashFind H key = 0" using HashFind_map [OF assms(1,2)] None by simp
  consider "d = 0" | "d \<noteq> 0" "new = None" | a where "d \<noteq> 0" "new = Some a" by (cases new) auto
  then show ?thesis
  proof cases
    case 1
    then show ?thesis using None find assms(1)
      by (simp add: sqlite3HashInsert_def inserted_def Let_def split: prod.split) (metis fun_upd_triv)
  next
    case 2
    then show ?thesis using None find by (simp add: sqlite3HashInsert_def Let_def split: prod.split)
  next
    case 3
    then show ?thesis using insert_new [OF assms(1,2) None 3(1) _ assms(3)] assms(4) by simp
  qed
qed

section \<open>The interface\<close>

text \<open>
  A table from keys, equal up to a normal form, to nonzero data: storing 0 removes the
  entry, and looking up an absent key gives 0.
\<close>
locale data_table =
  fixes norm :: "'k \<Rightarrow> 'n" and valid :: "'k \<Rightarrow> bool"
    and inv :: "'s \<Rightarrow> bool" and abs :: "'s \<Rightarrow> 'n \<rightharpoonup> int"
    and empty :: 's and get :: "'s \<Rightarrow> 'k \<Rightarrow> int" and put :: "'s \<Rightarrow> 'k \<Rightarrow> int \<Rightarrow> 's"
  assumes empty_inv: "inv empty" and empty_abs: "abs empty = Map.empty"
    and put_inv: "inv s \<Longrightarrow> valid k \<Longrightarrow> inv (put s k d)"
    and put_abs: "inv s \<Longrightarrow> valid k \<Longrightarrow> abs (put s k d) = (abs s)(norm k := (if d = 0 then None else Some d))"
    and get_abs: "inv s \<Longrightarrow> valid k \<Longrightarrow> get s k = (case abs s (norm k) of None \<Rightarrow> 0 | Some d \<Rightarrow> d)"
begin

lemma get_put:
  "inv s \<Longrightarrow> valid k \<Longrightarrow> valid k' \<Longrightarrow> get (put s k d) k' = (if norm k' = norm k then d else get s k')"
  by (simp add: put_inv put_abs get_abs)

text \<open>A history of stores, the latest first.\<close>

lemma history:
  assumes "\<forall>(k, d) \<in> set ops. valid k"
  shows "inv (foldr (\<lambda>(k, d) s. put s k d) ops empty)"
    and "valid k \<Longrightarrow> get (foldr (\<lambda>(k, d) s. put s k d) ops empty) k =
      (case find (\<lambda>(k', d). norm k' = norm k) ops of None \<Rightarrow> 0 | Some (k', d) \<Rightarrow> d)"
proof -
  show inv: "inv (foldr (\<lambda>(k, d) s. put s k d) ops empty)"
    using assms by (induction ops) (auto simp: empty_inv put_inv)
  show "valid k \<Longrightarrow> get (foldr (\<lambda>(k, d) s. put s k d) ops empty) k =
      (case find (\<lambda>(k', d). norm k' = norm k) ops of None \<Rightarrow> 0 | Some (k', d) \<Rightarrow> d)"
    using assms
  proof (induction ops)
    case Nil
    then show ?case by (simp add: get_abs empty_inv empty_abs)
  next
    case (Cons op ops)
    have "inv (foldr (\<lambda>(k, d) s. put s k d) ops empty)"
      using Cons.prems(2) by (induction ops) (auto simp: empty_inv put_inv)
    then show ?case using Cons by (auto simp: get_put split: prod.splits)
  qed
qed

end

text \<open>An address no element has.\<close>
definition fresh_addr :: "hash \<Rightarrow> nat" where
  "fresh_addr H = Suc (sum_list (map addr (elems H)))"

definition hash_put :: "hash \<Rightarrow> bytes \<Rightarrow> int \<Rightarrow> hash" where
  "hash_put H key d = snd (sqlite3HashInsert (Some (fresh_addr H)) Some H key d)"

lemma fresh: "fresh_addr H \<notin> addr ` set (elems H)"
proof
  assume "fresh_addr H \<in> addr ` set (elems H)"
  then have "fresh_addr H \<le> sum_list (map addr (elems H))" by (intro member_le_sum_list) simp_all
  then show False by (simp add: fresh_addr_def)
qed

lemma hash_put:
  assumes "hash_inv H" "cstring key"
  shows "inserted H key d (sqlite3HashInsert (Some (fresh_addr H)) Some H key d)"
  using HashInsert_correct [OF assms, of Some "Some (fresh_addr H)" d] fresh by simp

interpretation hash_tab: data_table lower cstring hash_inv hash_map sqlite3HashInit sqlite3HashFind hash_put
proof
  show "hash_inv sqlite3HashInit" "hash_map sqlite3HashInit = Map.empty"
    by (simp_all add: hash_inv_def buckets_ok_def sqlite3HashInit_def hash_map_def)
qed (use hash_put HashFind_map in \<open>auto simp: hash_put_def inserted_def\<close>)

section \<open>Properties\<close>

text \<open>
  C14. \<open>sqlite3HashInsert\<close> implements the update of a map from names (case ignored) to
  nonzero data: it returns the old data, 0 if there was none; data 0 removes the entry; all
  structural invariants (bucket counts, contiguous chains, unique keys) are kept, through
  growth of the table, a failed growth included.  Only when there is no memory for a new
  element does it return the new data and leave the table as it was.
\<close>
theorem HashInsert_refines_map_update:
  assumes "hash_inv H" "cstring key" "\<forall>k m. alloc k = Some m \<longrightarrow> k \<le> m"
    and "\<forall>a. new = Some a \<longrightarrow> a \<notin> addr ` set (elems H)"
  shows "if hash_map H (lower key) = None \<and> d \<noteq> 0 \<and> new = None
         then sqlite3HashInsert new alloc H key d = (d, H)
         else inserted H key d (sqlite3HashInsert new alloc H key d)"
  using assms by (intro HashInsert_correct) auto

theorem HashInsert_refines_map_update_witness:
  "inserted sqlite3HashInit [0x41] 7 (sqlite3HashInsert (Some 1) (\<lambda>n. None) sqlite3HashInit [0x41] 7)"
  using HashInsert_refines_map_update [of sqlite3HashInit "[0x41]" "\<lambda>n. None" "Some 1" 7] hash_tab.empty_inv
  by (simp add: sqlite3HashInit_def)

text \<open>
  After any sequence of insertions and removals starting from \<open>sqlite3HashInit\<close>,
  \<open>sqlite3HashFind\<close> returns what was last stored under a name equal up to case, and 0 if
  nothing was or it was removed.
\<close>
theorem HashFind_last_stored:
  assumes "\<forall>(k, d) \<in> set ops. cstring k" "cstring key"
  shows "sqlite3HashFind (foldr (\<lambda>(k, d) H. hash_put H k d) ops sqlite3HashInit) key =
           (case find (\<lambda>(k, d). lower k = lower key) ops of None \<Rightarrow> 0 | Some (k, d) \<Rightarrow> d)"
  using assms by (rule hash_tab.history(2))

theorem HashFind_last_stored_witness:
  "sqlite3HashFind (foldr (\<lambda>(k, d) H. hash_put H k d) [([0x61], 5), ([0x41], 7)] sqlite3HashInit) [0x41] = 5"
  using HashFind_last_stored [of "[([0x61], 5), ([0x41], 7)]" "[0x41]"] by (simp add: lower_at)

end
