(* ===== verification/Bitvec.thy ===== *)
theory Bitvec
  imports Alloc
begin

text \<open>
  SQLite's bit vector (\<open>src/db/sqlite3.c\<close>, \<open>bitvec.c\<close>): a set of integers between 1 and
  \<open>iSize\<close> kept as a bitmap, as an open-addressing hash table or as an array of smaller bit
  vectors.  The 32-bit fields are naturals; the one place where a 32-bit value wraps, the
  decrement of index 0 in \<open>sqlite3BitvecTestNotNull\<close>, is written out.  The sizes are those of
  a machine with 8-byte pointers, where \<open>BITVEC_USIZE\<close> is 496.
\<close>

section \<open>Data\<close>

definition BITVEC_NELEM :: nat where "BITVEC_NELEM = 496"
definition BITVEC_SZELEM :: nat where "BITVEC_SZELEM = 8"
definition BITVEC_NBIT :: nat where "BITVEC_NBIT = BITVEC_NELEM * BITVEC_SZELEM"
definition BITVEC_NINT :: nat where "BITVEC_NINT = 496 div 4"
definition BITVEC_MXHASH :: nat where "BITVEC_MXHASH = BITVEC_NINT div 2"
definition BITVEC_HASH :: "nat \<Rightarrow> nat" where "BITVEC_HASH x = (x * 1) mod BITVEC_NINT"
definition BITVEC_NPTR :: nat where "BITVEC_NPTR = 496 div 8"

text \<open>
  \<open>struct Bitvec\<close>; the union holds the member that was written last.  Zeroed memory is an
  empty bitmap and an empty hash table, so \<open>sqlite3BitvecCreate\<close> starts with the one that
  \<open>iSize\<close> selects.
\<close>
datatype bitvec = Bitvec (iSize: nat) (nSet: nat) (iDivisor: nat) (un: bitvec_u)
and bitvec_u = UBitmap (aBitmap: bytes) | UHash (aHash: "nat list") | USub (apSub: "bitvec option list")

text \<open>\<open>a[i]\<close> of an array of pointers.\<close>
definition sub_at :: "bitvec option list \<Rightarrow> nat \<Rightarrow> bitvec option" where
  "sub_at ps bin = (if bin < length ps then ps ! bin else None)"

definition u32_dec :: "nat \<Rightarrow> nat" where
  "u32_dec i = (if i = 0 then 2 ^ 32 - 1 else i - 1)"

section \<open>Operations\<close>

definition bitvec_new :: "nat \<Rightarrow> bitvec" where
  "bitvec_new sz = Bitvec sz 0 0
     (if sz \<le> BITVEC_NBIT then UBitmap (replicate BITVEC_NELEM 0) else UHash (replicate BITVEC_NINT 0))"

definition sqlite3BitvecCreate :: "nat \<Rightarrow> allocator \<Rightarrow> bitvec option \<times> allocator" where
  "sqlite3BitvecCreate sz al =
     (case alloc_block al of (ok, al) \<Rightarrow> (if ok then Some (bitvec_new sz) else None, al))"

definition bitmap_test :: "bytes \<Rightarrow> nat \<Rightarrow> bool" where
  "bitmap_test a i = (a ! (i div BITVEC_SZELEM) AND push_bit (i AND (BITVEC_SZELEM - 1)) 1 \<noteq> 0)"

definition bitmap_set :: "bytes \<Rightarrow> nat \<Rightarrow> bytes" where
  "bitmap_set a i =
     a[i div BITVEC_SZELEM := a ! (i div BITVEC_SZELEM) OR push_bit (i AND (BITVEC_SZELEM - 1)) 1]"

definition bitmap_clear :: "bytes \<Rightarrow> nat \<Rightarrow> bytes" where
  "bitmap_clear a i =
     a[i div BITVEC_SZELEM := a ! (i div BITVEC_SZELEM) AND NOT (push_bit (i AND (BITVEC_SZELEM - 1)) 1)]"

text \<open>
  The three probing loops.  Each visits at most every slot once before it meets an empty one,
  so \<open>BITVEC_NINT\<close> turns are enough; \<open>None\<close> is the loop that does not end.
\<close>
fun test_probe :: "nat \<Rightarrow> nat list \<Rightarrow> nat \<Rightarrow> nat \<Rightarrow> bool option" where
  "test_probe 0 a i h = None"
| "test_probe (Suc n) a i h =
     (if a ! h = 0 then Some False
      else if a ! h = i then Some True
      else test_probe n a i ((h + 1) mod BITVEC_NINT))"

text \<open>The result is \<open>Inl ()\<close> when the value is found, else the first free slot.\<close>
fun set_probe :: "nat \<Rightarrow> nat list \<Rightarrow> nat \<Rightarrow> nat \<Rightarrow> (unit + nat) option" where
  "set_probe 0 a i h = None"
| "set_probe (Suc n) a i h =
     (if a ! h = i then Some (Inl ())
      else let h = h + 1; h = (if BITVEC_NINT \<le> h then 0 else h)
           in if a ! h \<noteq> 0 then set_probe n a i h else Some (Inr h))"

fun free_probe :: "nat \<Rightarrow> nat list \<Rightarrow> nat \<Rightarrow> nat option" where
  "free_probe 0 a h = None"
| "free_probe (Suc n) a h =
     (if a ! h = 0 then Some h
      else let h = h + 1; h = (if BITVEC_NINT \<le> h then 0 else h) in free_probe n a h)"

lemma sub_member: "sub_at ps bin = Some q \<Longrightarrow> Some q \<in> set ps"
  by (auto simp: sub_at_def split: if_splits) (metis nth_mem)

lemma member_size: "Some q \<in> set ps \<Longrightarrow> size q < size_list (size_option size) ps"
  using size_list_estimation' [of "Some q" ps "size q + 1" "size_option size"] by auto

lemma member_size_un [termination_simp]: "un p = USub ps \<Longrightarrow> Some q \<in> set ps \<Longrightarrow> size q < size p"
  by (cases p) (auto dest: member_size)

lemma sub_size [termination_simp]: "un p = USub ps \<Longrightarrow> sub_at ps bin = Some q \<Longrightarrow> size q < size p"
  using member_size_un sub_member by blast

fun test_walk :: "bitvec \<Rightarrow> nat \<Rightarrow> bool option" where
  "test_walk p i =
     (if iDivisor p \<noteq> 0 then
        case un p of
          USub ps \<Rightarrow> (case sub_at ps (i div iDivisor p) of
              None \<Rightarrow> Some False
            | Some q \<Rightarrow> test_walk q (i mod iDivisor p))
        | _ \<Rightarrow> None
      else if iSize p \<le> BITVEC_NBIT then Some (bitmap_test (aBitmap (un p)) i)
      else test_probe BITVEC_NINT (aHash (un p)) (i + 1) (BITVEC_HASH i))"

definition sqlite3BitvecTestNotNull :: "bitvec \<Rightarrow> nat \<Rightarrow> bool option" where
  "sqlite3BitvecTestNotNull p i =
     (let i = u32_dec i in if iSize p \<le> i then Some False else test_walk p i)"

definition sqlite3BitvecTest :: "bitvec option \<Rightarrow> nat \<Rightarrow> bool option" where
  "sqlite3BitvecTest p i =
     (case p of None \<Rightarrow> Some False | Some p \<Rightarrow> sqlite3BitvecTestNotNull p i)"

text \<open>
  The body of \<open>sqlite3BitvecSet\<close> on a hash table that is not to be subdivided now: \<open>Inl\<close> is a
  return, \<open>Inr ()\<close> the jump to the subdivision.  \<open>i\<close> is the value already incremented.
\<close>
definition hash_set :: "bitvec \<Rightarrow> nat \<Rightarrow> ((nat \<times> bitvec) + unit) option" where
  "hash_set p i =
     (let a = aHash (un p); h = BITVEC_HASH (i - 1);
          store = (\<lambda>h. Inl (SQLITE_OK, Bitvec (iSize p) (nSet p + 1) (iDivisor p) (UHash (a[h := i]))))
      in if a ! h = 0 then
           if nSet p < BITVEC_NINT - 1 then Some (store h)
           else if BITVEC_MXHASH \<le> nSet p then Some (Inr ()) else Some (store h)
         else
           case set_probe BITVEC_NINT a i h of
             None \<Rightarrow> None
           | Some (Inl _) \<Rightarrow> Some (Inl (SQLITE_OK, p))
           | Some (Inr h) \<Rightarrow> if BITVEC_MXHASH \<le> nSet p then Some (Inr ()) else Some (store h))"

text \<open>
  \<open>sqlite3BitvecSet\<close> on a bit vector and a zero-based index.  The descent through \<open>apSub\<close> and
  the recursive calls of the subdivision take one unit of fuel each; \<open>None\<close> is out of fuel or
  a probe that does not end.
\<close>
fun set_walk :: "nat \<Rightarrow> bitvec \<Rightarrow> nat \<Rightarrow> allocator \<Rightarrow> (nat \<times> bitvec \<times> allocator) option" where
  "set_walk 0 p i al = None"
| "set_walk (Suc n) p i al =
     (if BITVEC_NBIT < iSize p \<and> iDivisor p \<noteq> 0 then
        let d = iDivisor p; bin = i div d; ps = apSub (un p);
            (q, al) = (case sub_at ps bin of
                None \<Rightarrow> sqlite3BitvecCreate d al
              | Some q \<Rightarrow> (Some q, al))
        in case q of
             None \<Rightarrow> Some (SQLITE_NOMEM, p, al)
           | Some q \<Rightarrow> (case set_walk n q (i mod d) al of
               None \<Rightarrow> None
             | Some (rc, q, al) \<Rightarrow>
                 Some (rc, Bitvec (iSize p) (nSet p) d (USub (ps[bin := Some q])), al))
      else if iSize p \<le> BITVEC_NBIT then
        Some (SQLITE_OK, Bitvec (iSize p) (nSet p) (iDivisor p) (UBitmap (bitmap_set (aBitmap (un p)) i)), al)
      else case hash_set p (i + 1) of
        None \<Rightarrow> None
      | Some (Inl (rc, p)) \<Rightarrow> Some (rc, p, al)
      | Some (Inr _) \<Rightarrow>
          (case alloc_block al of (ok, al) \<Rightarrow>
             if \<not> ok then Some (SQLITE_NOMEM, p, al)
             else
               let aiValues = aHash (un p);
                   p = Bitvec (iSize p) (nSet p) ((iSize p + BITVEC_NPTR - 1) div BITVEC_NPTR)
                         (USub (replicate BITVEC_NPTR None))
               in case foldl
                    (\<lambda>r v. case r of None \<Rightarrow> None | Some (rc, p, al) \<Rightarrow>
                       if v \<noteq> 0 then
                         (case set_walk n p (v - 1) al of
                            None \<Rightarrow> None
                          | Some (rc', p, al) \<Rightarrow> Some (rc OR rc', p, al))
                       else Some (rc, p, al))
                    (set_walk n p i al) aiValues of
                  None \<Rightarrow> None
                | Some (rc, p, al) \<Rightarrow> Some (rc, p, free_block al)))"

definition set_fuel :: nat where "set_fuel = 9"

definition sqlite3BitvecSet :: "bitvec option \<Rightarrow> nat \<Rightarrow> allocator \<Rightarrow> (nat \<times> bitvec option \<times> allocator) option" where
  "sqlite3BitvecSet p i al =
     (case p of
        None \<Rightarrow> Some (SQLITE_OK, None, al)
      | Some p \<Rightarrow> (case set_walk set_fuel p (u32_dec i) al of
          None \<Rightarrow> None
        | Some (rc, p, al) \<Rightarrow> Some (rc, Some p, al)))"

text \<open>One turn of the loop of \<open>sqlite3BitvecClear\<close> that rebuilds the hash table.\<close>
definition clear_step :: "nat \<Rightarrow> (nat \<times> nat list) option \<Rightarrow> nat \<Rightarrow> (nat \<times> nat list) option" where
  "clear_step i r v =
     (case r of None \<Rightarrow> None | Some (n, a) \<Rightarrow>
        if v \<noteq> 0 \<and> v \<noteq> i + 1 then
          (case free_probe BITVEC_NINT a (BITVEC_HASH (v - 1)) of
             None \<Rightarrow> None
           | Some h \<Rightarrow> Some (n + 1, a[h := v]))
        else Some (n, a))"

fun clear_walk :: "bitvec \<Rightarrow> nat \<Rightarrow> bitvec option" where
  "clear_walk p i =
     (if iDivisor p \<noteq> 0 then
        case un p of
          USub ps \<Rightarrow> (case sub_at ps (i div iDivisor p) of
              None \<Rightarrow> Some p
            | Some q \<Rightarrow> (case clear_walk q (i mod iDivisor p) of
                None \<Rightarrow> None
              | Some q \<Rightarrow> Some (Bitvec (iSize p) (nSet p) (iDivisor p)
                                  (USub (ps[i div iDivisor p := Some q])))))
        | _ \<Rightarrow> None
      else if iSize p \<le> BITVEC_NBIT then
        Some (Bitvec (iSize p) (nSet p) (iDivisor p) (UBitmap (bitmap_clear (aBitmap (un p)) i)))
      else
        case foldl (clear_step i) (Some (0, replicate BITVEC_NINT 0)) (aHash (un p)) of
          None \<Rightarrow> None
        | Some (n, a) \<Rightarrow> Some (Bitvec (iSize p) n (iDivisor p) (UHash a)))"

definition sqlite3BitvecClear :: "bitvec option \<Rightarrow> nat \<Rightarrow> bitvec option option" where
  "sqlite3BitvecClear p i =
     (case p of
        None \<Rightarrow> Some None
      | Some p \<Rightarrow> (case clear_walk p (u32_dec i) of None \<Rightarrow> None | Some p \<Rightarrow> Some (Some p)))"

text \<open>\<open>sqlite3BitvecDestroy\<close> on a non-null pointer.\<close>
fun bitvec_destroy :: "bitvec \<Rightarrow> allocator \<Rightarrow> allocator" where
  "bitvec_destroy p al =
     free_block (if iDivisor p \<noteq> 0 then
        case un p of
          USub ps \<Rightarrow> foldl (\<lambda>al q. case q of None \<Rightarrow> al | Some q \<Rightarrow> bitvec_destroy q al) al ps
        | _ \<Rightarrow> al
      else al)"

definition sqlite3BitvecDestroy :: "bitvec option \<Rightarrow> allocator \<Rightarrow> allocator" where
  "sqlite3BitvecDestroy p al = (case p of None \<Rightarrow> al | Some p \<Rightarrow> bitvec_destroy p al)"

definition sqlite3BitvecSize :: "bitvec \<Rightarrow> nat" where
  "sqlite3BitvecSize p = iSize p"

declare test_walk.simps [simp del] set_walk.simps [simp del] clear_walk.simps [simp del]
  bitvec_destroy.simps [simp del]

section \<open>The bitmap\<close>

lemma and_seven: "n AND (BITVEC_SZELEM - 1) = n mod 8"
proof -
  have "BITVEC_SZELEM - 1 = mask 3" by (simp add: BITVEC_SZELEM_def mask_eq_exp_minus_1)
  then show ?thesis by (simp only: take_bit_eq_mask [symmetric] take_bit_eq_mod) simp
qed

lemma bitmap_test_bit: "bitmap_test a i = bit (a ! (i div 8)) (i mod 8)"
  unfolding bitmap_test_def and_seven bit_iff_and_push_bit_not_eq_0 by (simp add: BITVEC_SZELEM_def)

lemma bitmap_set_eq: "bitmap_set a i = a[i div 8 := a ! (i div 8) OR push_bit (i mod 8) 1]"
  unfolding bitmap_set_def and_seven by (simp add: BITVEC_SZELEM_def)

lemma bitmap_clear_eq: "bitmap_clear a i = a[i div 8 := a ! (i div 8) AND NOT (push_bit (i mod 8) 1)]"
  unfolding bitmap_clear_def and_seven by (simp add: BITVEC_SZELEM_def)

lemma bitmap_set_test:
  assumes "length a = BITVEC_NELEM" "i < BITVEC_NBIT"
  shows "bitmap_test (bitmap_set a i) j \<longleftrightarrow> j = i \<or> bitmap_test a j"
proof -
  have len: "i div 8 < length a" using assms by (simp add: BITVEC_NELEM_def BITVEC_NBIT_def BITVEC_SZELEM_def)
  have eq: "j = i \<longleftrightarrow> j div 8 = i div 8 \<and> j mod 8 = i mod 8" by (metis mult_div_mod_eq)
  have "i mod 8 < 8" by simp
  then show ?thesis using len
    by (auto simp: bitmap_test_bit eq bitmap_set_eq nth_list_update bit_simps)
qed

lemma bitmap_clear_test:
  assumes "length a = BITVEC_NELEM" "i < BITVEC_NBIT"
  shows "bitmap_test (bitmap_clear a i) j \<longleftrightarrow> j \<noteq> i \<and> bitmap_test a j"
proof -
  have len: "i div 8 < length a" using assms by (simp add: BITVEC_NELEM_def BITVEC_NBIT_def BITVEC_SZELEM_def)
  have eq: "j = i \<longleftrightarrow> j div 8 = i div 8 \<and> j mod 8 = i mod 8" by (metis mult_div_mod_eq)
  have "i mod 8 < 8" "j mod 8 < 8" by simp_all
  then show ?thesis using len
    by (auto simp: bitmap_test_bit eq bitmap_clear_eq nth_list_update bit_simps)
qed

lemma bitmap_length [simp]: "length (bitmap_set a i) = length a" "length (bitmap_clear a i) = length a"
  by (simp_all add: bitmap_set_def bitmap_clear_def)

section \<open>The hash table\<close>

text \<open>The \<open>k\<close>-th slot of the probe sequence that starts at \<open>h\<close>.\<close>
definition slot :: "nat \<Rightarrow> nat \<Rightarrow> nat" where
  "slot h k = (h + k) mod BITVEC_NINT"

text \<open>Slot \<open>k\<close> of the sequence is the first one that satisfies \<open>P\<close>.\<close>
definition first_slot :: "(nat \<Rightarrow> bool) \<Rightarrow> nat \<Rightarrow> nat \<Rightarrow> bool" where
  "first_slot P h k \<longleftrightarrow> P (slot h k) \<and> (\<forall>m<k. \<not> P (slot h m))"

definition hash_ok :: "nat list \<Rightarrow> bool" where
  "hash_ok a \<longleftrightarrow> length a = BITVEC_NINT \<and>
     (\<forall>v. v \<noteq> 0 \<longrightarrow> v \<in> set a \<longrightarrow>
        (\<exists>k. a ! slot (BITVEC_HASH (v - 1)) k = v \<and> (\<forall>m<k. a ! slot (BITVEC_HASH (v - 1)) m \<noteq> 0)))"

lemma slot_Suc [simp]: "slot (Suc h mod BITVEC_NINT) k = slot h (Suc k)"
  by (simp add: slot_def mod_simps)

lemma slot_less [simp]: "slot h k < BITVEC_NINT"
  by (simp add: slot_def BITVEC_NINT_def)

lemma slot_0 [simp]: "h < BITVEC_NINT \<Longrightarrow> slot h 0 = h"
  by (simp add: slot_def)

lemma hash_less [simp]: "BITVEC_HASH x < BITVEC_NINT"
  by (simp add: BITVEC_HASH_def BITVEC_NINT_def)

lemma next_slot: "h < BITVEC_NINT \<Longrightarrow> (if BITVEC_NINT \<le> Suc h then 0 else Suc h) = Suc h mod BITVEC_NINT"
  by (cases "Suc h = BITVEC_NINT") simp_all

lemma slot_1: "slot h (Suc 0) = Suc h mod BITVEC_NINT"
  by (simp add: slot_def)

lemma next_less [simp]: "h mod BITVEC_NINT < BITVEC_NINT"
  by (simp add: BITVEC_NINT_def)

text \<open>The sequence visits every slot, so an empty slot is met within \<open>BITVEC_NINT\<close> turns.\<close>

lemma slot_onto:
  assumes "j < BITVEC_NINT" "h < BITVEC_NINT"
  shows "\<exists>k<BITVEC_NINT. slot h k = j"
proof (cases "h \<le> j")
  case True
  then show ?thesis using assms by (intro exI [of _ "j - h"]) (simp add: slot_def)
next
  case False
  then show ?thesis using assms by (intro exI [of _ "j + BITVEC_NINT - h"]) (simp add: slot_def)
qed

lemma first_slot_exists:
  assumes "P j" "j < BITVEC_NINT" "h < BITVEC_NINT"
  shows "\<exists>k<BITVEC_NINT. first_slot P h k"
proof -
  obtain k0 where k0: "k0 < BITVEC_NINT" "P (slot h k0)" using slot_onto assms by metis
  define k where "k = (LEAST k. P (slot h k))"
  have "P (slot h k)" "k \<le> k0" "\<forall>m<k. \<not> P (slot h m)"
    unfolding k_def using k0(2) by (auto intro: LeastI Least_le dest: not_less_Least)
  then show ?thesis using k0(1) unfolding first_slot_def by (intro exI [of _ k]) auto
qed

lemma first_slot_shift:
  "first_slot P h (Suc k) \<longleftrightarrow> \<not> P (slot h 0) \<and> first_slot P (Suc h mod BITVEC_NINT) k"
  unfolding first_slot_def by (auto simp: less_Suc_eq_0_disj)

lemma test_probe_first:
  assumes "first_slot (\<lambda>s. a ! s = 0 \<or> a ! s = i) h k" "h < BITVEC_NINT" "k < n"
  shows "test_probe n a i h = Some (a ! slot h k \<noteq> 0)"
  using assms
proof (induction n arbitrary: h k)
  case (Suc n)
  show ?case
  proof (cases k)
    case 0
    then show ?thesis using Suc.prems by (auto simp: first_slot_def)
  next
    case (Suc k')
    then show ?thesis using Suc.prems Suc.IH [of "Suc h mod BITVEC_NINT" k']
      by (auto simp: first_slot_shift)
  qed
qed simp

lemma free_probe_first:
  assumes "first_slot (\<lambda>s. a ! s = 0) h k" "h < BITVEC_NINT" "k < n"
  shows "free_probe n a h = Some (slot h k)"
  using assms
proof (induction n arbitrary: h k)
  case (Suc n)
  show ?case
  proof (cases k)
    case 0
    then show ?thesis using Suc.prems by (auto simp: first_slot_def)
  next
    case (Suc k')
    then show ?thesis using Suc.prems Suc.IH [of "Suc h mod BITVEC_NINT" k']
      by (auto simp: first_slot_shift Let_def next_slot)
  qed
qed simp

lemma set_probe_first:
  assumes "first_slot (\<lambda>s. a ! s = 0 \<or> a ! s = i) h k" "h < BITVEC_NINT" "k < n" "a ! h \<noteq> 0"
  shows "set_probe n a i h = Some (if a ! slot h k = 0 then Inr (slot h k) else Inl ())"
  using assms
proof (induction n arbitrary: h k)
  case (Suc n)
  show ?case
  proof (cases k)
    case 0
    then show ?thesis using Suc.prems by (auto simp: first_slot_def)
  next
    case (Suc k')
    let ?h = "Suc h mod BITVEC_NINT"
    have h: "?h < BITVEC_NINT" by (simp add: BITVEC_NINT_def)
    have first: "a ! h \<noteq> i" "first_slot (\<lambda>s. a ! s = 0 \<or> a ! s = i) ?h k'"
      using Suc.prems(1,2) Suc by (simp_all add: first_slot_shift)
    have step: "set_probe (Suc n) a i h = (if a ! ?h \<noteq> 0 then set_probe n a i ?h else Some (Inr ?h))"
      using first(1) Suc.prems(2) by (simp add: Let_def next_slot)
    show ?thesis
    proof (cases "a ! ?h = 0")
      case True
      then have "k' = 0" using first(2) h slot_1 [of h] by (cases k') (auto simp: first_slot_def)
      then show ?thesis using step True h Suc slot_1 [of h] by simp
    next
      case False
      then show ?thesis using Suc.IH [OF first(2) h _ False] Suc.prems(3) step Suc by simp
    qed
  qed
qed simp

text \<open>A probe that stops at an empty slot has shown that the value is absent.\<close>

lemma hash_absent:
  assumes "hash_ok a" "i \<noteq> 0" "first_slot (\<lambda>s. a ! s = 0 \<or> a ! s = i) (BITVEC_HASH (i - 1)) k"
  shows "a ! slot (BITVEC_HASH (i - 1)) k \<noteq> 0 \<longleftrightarrow> i \<in> set a"
proof
  assume "a ! slot (BITVEC_HASH (i - 1)) k \<noteq> 0"
  then show "i \<in> set a" using assms(1,3) nth_mem [of "slot (BITVEC_HASH (i - 1)) k" a]
    by (auto simp: first_slot_def hash_ok_def)
next
  assume "i \<in> set a"
  then obtain k' where k': "a ! slot (BITVEC_HASH (i - 1)) k' = i"
      "\<forall>m<k'. a ! slot (BITVEC_HASH (i - 1)) m \<noteq> 0"
    using assms(1,2) unfolding hash_ok_def by blast
  then have "\<not> k' < k" using assms(3) by (auto simp: first_slot_def)
  then show "a ! slot (BITVEC_HASH (i - 1)) k \<noteq> 0"
    using k' assms(2) by (cases "k = k'") auto
qed

text \<open>A value stored at the first empty slot of its sequence.\<close>

lemma hash_store:
  assumes "hash_ok a" "v \<noteq> 0" "first_slot (\<lambda>s. a ! s = 0) (BITVEC_HASH (v - 1)) k"
  shows "hash_ok (a[slot (BITVEC_HASH (v - 1)) k := v])"
    "set (a[slot (BITVEC_HASH (v - 1)) k := v]) - {0} = insert v (set a - {0})"
    "length (filter (\<lambda>x. x \<noteq> 0) (a[slot (BITVEC_HASH (v - 1)) k := v]))
       = Suc (length (filter (\<lambda>x. x \<noteq> 0) a))"
proof -
  let ?s = "slot (BITVEC_HASH (v - 1)) k"
  let ?b = "a[?s := v]"
  have len: "length a = BITVEC_NINT" and s: "?s < length a" "a ! ?s = 0"
    using assms(1,3) by (simp_all add: hash_ok_def first_slot_def)
  have a: "a = take ?s a @ 0 # drop (Suc ?s) a" using id_take_nth_drop [OF s(1)] s(2) by simp
  have b: "?b = take ?s a @ v # drop (Suc ?s) a" using s(1) by (simp add: upd_conv_take_nth_drop)
  show set: "set ?b - {0} = insert v (set a - {0})" 
    unfolding b by (subst (3) a) (use assms(2) in auto)
  show "length (filter (\<lambda>x. x \<noteq> 0) ?b) = Suc (length (filter (\<lambda>x. x \<noteq> 0) a))"
    unfolding b by (subst (3) a) (use assms(2) in simp)
  have keep: "?b ! slot h m = (if slot h m = ?s then v else a ! slot h m)" for h m
    using len by (simp add: nth_list_update)
  have "\<exists>k. ?b ! slot (BITVEC_HASH (w - 1)) k = w \<and> (\<forall>m<k. ?b ! slot (BITVEC_HASH (w - 1)) m \<noteq> 0)"
    if w: "w \<noteq> 0" "w \<in> set ?b" for w
  proof (cases "w = v")
    case True
    have "\<forall>m<k. ?b ! slot (BITVEC_HASH (v - 1)) m \<noteq> 0"
      using assms(3) keep by (auto simp: first_slot_def)
    then show ?thesis using True keep by (intro exI [of _ k]) simp
  next
    case False
    then have "w \<in> set a" using w set by auto
    then obtain k' where k': "a ! slot (BITVEC_HASH (w - 1)) k' = w"
        "\<forall>m<k'. a ! slot (BITVEC_HASH (w - 1)) m \<noteq> 0"
      using assms(1) w(1) unfolding hash_ok_def by blast
    then have "slot (BITVEC_HASH (w - 1)) k' \<noteq> ?s" using s(2) w(1) by metis
    then show ?thesis using k' keep assms(2) by (intro exI [of _ k']) auto
  qed
  then show "hash_ok ?b" using len by (simp add: hash_ok_def)
qed

lemma free_slot_exists:
  assumes "hash_ok a" "length (filter (\<lambda>x. x \<noteq> 0) a) < BITVEC_NINT"
  shows "\<exists>j<BITVEC_NINT. a ! j = 0"
proof (rule ccontr)
  assume "\<not> ?thesis"
  then have "\<forall>x\<in>set a. x \<noteq> 0" using assms(1) unfolding hash_ok_def by (metis in_set_conv_nth)
  then have "filter (\<lambda>x. x \<noteq> 0) a = a" by (simp add: filter_id_conv)
  then show False using assms by (simp add: hash_ok_def)
qed

lemma hash_empty: "hash_ok (replicate BITVEC_NINT 0)"
  by (auto simp: hash_ok_def)

definition used :: "nat list \<Rightarrow> nat" where
  "used a = length (filter (\<lambda>x. x \<noteq> 0) a)"

lemma probe_stops:
  assumes "hash_ok a" "used a < BITVEC_NINT" "h < BITVEC_NINT"
  shows "\<exists>k<BITVEC_NINT. first_slot (\<lambda>s. a ! s = 0) h k"
    and "\<exists>k<BITVEC_NINT. first_slot (\<lambda>s. a ! s = 0 \<or> a ! s = i) h k"
proof -
  obtain j where j: "j < BITVEC_NINT" "a ! j = 0" using free_slot_exists assms unfolding used_def by blast
  show "\<exists>k<BITVEC_NINT. first_slot (\<lambda>s. a ! s = 0) h k"
    by (rule first_slot_exists [of _ j]) (use j assms(3) in auto)
  show "\<exists>k<BITVEC_NINT. first_slot (\<lambda>s. a ! s = 0 \<or> a ! s = i) h k"
    by (rule first_slot_exists [of _ j]) (use j assms(3) in auto)
qed

lemma hash_test:
  assumes "hash_ok a" "used a < BITVEC_NINT"
  shows "test_probe BITVEC_NINT a (Suc i) (BITVEC_HASH i) = Some (Suc i \<in> set a)"
proof -
  obtain k where k: "k < BITVEC_NINT" "first_slot (\<lambda>s. a ! s = 0 \<or> a ! s = Suc i) (BITVEC_HASH i) k"
    using probe_stops(2) [OF assms hash_less] by blast
  show ?thesis using test_probe_first [OF k(2) _ k(1)] hash_absent [OF assms(1), of "Suc i" k] k(2) by simp
qed

text \<open>
  Either the value is stored in an empty slot of a table that keeps one more empty slot, or it
  is there already, or the table has to be subdivided.
\<close>

lemma hash_set_cases:
  assumes "hash_ok (aHash (un p))" "nSet p = used (aHash (un p))" "nSet p < BITVEC_NINT"
  obtains
    (present) "Suc i \<in> set (aHash (un p))" "hash_set p (Suc i) = Some (Inl (SQLITE_OK, p))"
  | (stored) b where "hash_set p (Suc i) =
        Some (Inl (SQLITE_OK, Bitvec (iSize p) (nSet p + 1) (iDivisor p) (UHash b)))"
      "hash_ok b" "used b = Suc (nSet p)" "used b < BITVEC_NINT"
      "set b - {0} = insert (Suc i) (set (aHash (un p)) - {0})"
  | (full) "hash_set p (Suc i) = Some (Inr ())"
proof -
  let ?a = "aHash (un p)" and ?h = "BITVEC_HASH i"
  have used: "used ?a < BITVEC_NINT" using assms by simp
  have store: thesis if k: "first_slot (\<lambda>s. ?a ! s = 0) ?h k" and room: "Suc (nSet p) < BITVEC_NINT"
    and eq: "hash_set p (Suc i) = Some (Inl (SQLITE_OK,
      Bitvec (iSize p) (nSet p + 1) (iDivisor p) (UHash (?a[slot ?h k := Suc i]))))" for k
    by (rule stored [OF eq]) (use hash_store [OF assms(1), of "Suc i" k] k room assms(2) in \<open>simp_all add: used_def\<close>)
  show thesis
  proof (cases "?a ! ?h = 0")
    case True
    then have "first_slot (\<lambda>s. ?a ! s = 0) ?h 0" by (simp add: first_slot_def)
    then show thesis
      using store [of 0] full True assms(3) slot_0 [OF hash_less, of i]
      by (cases "nSet p < BITVEC_NINT - 1") (auto simp: hash_set_def BITVEC_MXHASH_def BITVEC_NINT_def)
  next
    case False
    obtain k where k: "k < BITVEC_NINT" "first_slot (\<lambda>s. ?a ! s = 0 \<or> ?a ! s = Suc i) ?h k"
      using probe_stops(2) [OF assms(1) used hash_less] by blast
    note eq = set_probe_first [OF k(2) hash_less k(1) False]
    show thesis
    proof (cases "?a ! slot ?h k = 0")
      case True
      then have "first_slot (\<lambda>s. ?a ! s = 0) ?h k" using k(2) by (auto simp: first_slot_def)
      then show thesis
        using store [of k] full True eq False
        by (cases "BITVEC_MXHASH \<le> nSet p") (auto simp: hash_set_def BITVEC_MXHASH_def BITVEC_NINT_def)
    next
      case slot: False
      then have "Suc i \<in> set ?a" using hash_absent [OF assms(1), of "Suc i" k] k(2) by simp
      then show thesis by (rule present) (use False eq slot in \<open>simp add: hash_set_def Let_def\<close>)
    qed
  qed
qed

text \<open>The loop that rebuilds the table drops one value and keeps the others.\<close>

lemma clear_rebuild:
  assumes "hash_ok b" "used b + length (filter (\<lambda>x. x \<noteq> 0) vs) \<le> BITVEC_NINT" "n = used b"
  shows "\<exists>c. foldl (clear_step i) (Some (n, b)) vs = Some (used c, c) \<and> hash_ok c \<and>
     used c \<le> used b + length (filter (\<lambda>x. x \<noteq> 0) vs) \<and>
     set c - {0} = (set b \<union> (set vs - {Suc i})) - {0}"
  using assms
proof (induction vs arbitrary: b n)
  case (Cons v vs)
  show ?case
  proof (cases "v = 0 \<or> v = Suc i")
    case True
    then have "clear_step i (Some (n, b)) v = Some (n, b)" by (auto simp: clear_step_def)
    then show ?thesis using Cons.IH [of b n] Cons.prems True by fastforce
  next
    case False
    let ?h = "BITVEC_HASH (v - 1)"
    have "used b < BITVEC_NINT" using Cons.prems(2) False by simp
    from probe_stops(1) [OF Cons.prems(1) this hash_less]
    obtain k where k: "k < BITVEC_NINT" "first_slot (\<lambda>s. b ! s = 0) ?h k" by blast
    let ?b = "b[slot ?h k := v]"
    have step: "clear_step i (Some (n, b)) v = Some (Suc n, ?b)"
      using free_probe_first [OF k(2) hash_less k(1)] False by (simp add: clear_step_def)
    note st = hash_store [OF Cons.prems(1) _ k(2)]
    have b: "hash_ok ?b" "used ?b = Suc n" "set ?b - {0} = insert v (set b - {0})"
      using st False Cons.prems(3) by (simp_all add: used_def)
    have "used ?b + length (filter (\<lambda>x. x \<noteq> 0) vs) \<le> BITVEC_NINT"
      using b(2) Cons.prems(2,3) False by simp
    from Cons.IH [OF b(1) this b(2) [symmetric]] obtain c where
      c: "foldl (clear_step i) (Some (Suc n, ?b)) vs = Some (used c, c)" "hash_ok c"
        "used c \<le> used ?b + length (filter (\<lambda>x. x \<noteq> 0) vs)"
        "set c - {0} = (set ?b \<union> (set vs - {Suc i})) - {0}" by blast
    have "set c - {0} = (set ?b - {0}) \<union> (set vs - {Suc i} - {0})" unfolding c(4) by (rule Un_Diff)
    also have "\<dots> = (set b \<union> (set (v # vs) - {Suc i})) - {0}"
      unfolding b(3) using False by auto
    finally have "set c - {0} = (set b \<union> (set (v # vs) - {Suc i})) - {0}" .
    then show ?thesis using c(1,2,3) step b(2) Cons.prems(3) False by (intro exI [of _ c]) simp
  qed
qed auto

section \<open>The invariant\<close>

inductive bv_inv :: "bitvec \<Rightarrow> bool" where
  bitmap: "sz \<le> BITVEC_NBIT \<Longrightarrow> length a = BITVEC_NELEM \<Longrightarrow> bv_inv (Bitvec sz n 0 (UBitmap a))"
| hash: "BITVEC_NBIT < sz \<Longrightarrow> hash_ok a \<Longrightarrow> \<forall>v\<in>set a. v \<le> sz \<Longrightarrow> n = used a \<Longrightarrow>
    n < BITVEC_NINT \<Longrightarrow> bv_inv (Bitvec sz n 0 (UHash a))"
| sub: "BITVEC_NBIT < sz \<Longrightarrow> d = (sz + BITVEC_NPTR - 1) div BITVEC_NPTR \<Longrightarrow>
    length ps = BITVEC_NPTR \<Longrightarrow> \<forall>q. Some q \<in> set ps \<longrightarrow> iSize q = d \<and> bv_inv q \<Longrightarrow>
    bv_inv (Bitvec sz n d (USub ps))"

inductive_cases bv_invE [consumes 1, case_names bitmap hash sub]: "bv_inv p"

lemma new_inv: "bv_inv (bitvec_new sz)"
  by (auto simp: bitvec_new_def intro!: bv_inv.intros hash_empty)
    (simp_all add: used_def BITVEC_NINT_def)

text \<open>The part of the index range that a sub-vector covers.\<close>

lemma divisor_range:
  assumes "BITVEC_NBIT < sz" "d = (sz + BITVEC_NPTR - 1) div BITVEC_NPTR"
  shows "0 < d" "d < sz" "i < sz \<Longrightarrow> i div d < BITVEC_NPTR"
proof -
  have sz: "3968 < sz" and d: "d = (sz + 61) div 62"
    using assms by (simp_all add: BITVEC_NBIT_def BITVEC_NELEM_def BITVEC_SZELEM_def BITVEC_NPTR_def)
  show "0 < d" "d < sz" using sz unfolding d by auto
  have "sz \<le> d * 62" unfolding d by presburger
  then show "i < sz \<Longrightarrow> i div d < BITVEC_NPTR"
    by (simp add: BITVEC_NPTR_def less_mult_imp_div_less mult.commute)
qed

lemma walk_bitmap [simp]: "sz \<le> BITVEC_NBIT \<Longrightarrow> test_walk (Bitvec sz n 0 (UBitmap a)) i = Some (bitmap_test a i)"
  by (simp add: test_walk.simps)

lemma walk_hash:
  "BITVEC_NBIT < sz \<Longrightarrow> hash_ok a \<Longrightarrow> used a < BITVEC_NINT \<Longrightarrow>
    test_walk (Bitvec sz n 0 (UHash a)) i = Some (Suc i \<in> set a)"
  by (simp add: test_walk.simps hash_test)

lemma walk_sub:
  "0 < d \<Longrightarrow> test_walk (Bitvec sz n d (USub ps)) i =
    (case sub_at ps (i div d) of None \<Rightarrow> Some False | Some q \<Rightarrow> test_walk q (i mod d))"
  by (simp add: test_walk.simps split: option.split)

text \<open>No probe runs forever.\<close>

lemma test_walk_total: "bv_inv p \<Longrightarrow> \<exists>b. test_walk p i = Some b"
proof (induction p arbitrary: i rule: bv_inv.induct)
  case (sub sz d ps n)
  have "0 < d" by (rule divisor_range(1) [OF sub(1,2)])
  then show ?case using sub(4) by (auto simp: walk_sub split: option.split dest: sub_member)
qed (auto simp: walk_hash)

lemma new_empty: "i < sz \<Longrightarrow> test_walk (bitvec_new sz) i = Some False"
proof (cases "sz \<le> BITVEC_NBIT")
  case True
  moreover assume "i < sz"
  ultimately have "i div 8 < BITVEC_NELEM" by (simp add: BITVEC_NBIT_def BITVEC_SZELEM_def less_mult_imp_div_less)
  then show ?thesis using True by (simp add: bitvec_new_def bitmap_test_bit)
next
  case False
  moreover have "used (replicate BITVEC_NINT 0) < BITVEC_NINT" by (simp add: used_def BITVEC_NINT_def)
  ultimately show ?thesis using hash_empty by (simp add: bitvec_new_def walk_hash)
qed

subsection \<open>Recursion depth\<close>

function levels :: "nat \<Rightarrow> nat" where
  "levels n = (if n \<le> BITVEC_NBIT then 0 else Suc (levels ((n + BITVEC_NPTR - 1) div BITVEC_NPTR)))"
  by auto
termination
  by (relation "measure id") (auto intro: divisor_range(2))

declare levels.simps [simp del]

lemma levels_bound: "n \<le> 3968 * 62 ^ k \<Longrightarrow> levels n \<le> k"
proof (induction k arbitrary: n)
  case 0
  then show ?case by (simp add: levels.simps [of n] BITVEC_NBIT_def BITVEC_NELEM_def BITVEC_SZELEM_def)
next
  case (Suc k)
  have "(n + 61) div 62 \<le> 3968 * 62 ^ k" using Suc.prems by simp
  then show ?case using Suc.IH by (simp add: levels.simps [of n] BITVEC_NPTR_def)
qed

definition need :: "bitvec \<Rightarrow> nat" where
  "need p = 2 * levels (iSize p) + (if iDivisor p = 0 then 1 else 0)"

lemma need_bound: "iSize p < 2 ^ 32 \<Longrightarrow> need p \<le> set_fuel"
  using levels_bound [of "iSize p" 4] by (simp add: need_def set_fuel_def)

section \<open>Setting a bit\<close>

fun nodes :: "bitvec \<Rightarrow> nat" where
  "nodes p = Suc (if iDivisor p \<noteq> 0 then
      case un p of
        USub ps \<Rightarrow> sum_list (map (\<lambda>q. case q of None \<Rightarrow> 0 | Some q \<Rightarrow> nodes q) ps)
      | _ \<Rightarrow> 0
    else 0)"

declare nodes.simps [simp del]

definition sub_nodes :: "bitvec option \<Rightarrow> nat" where
  "sub_nodes q = (case q of None \<Rightarrow> 0 | Some q \<Rightarrow> nodes q)"

lemma nodes_leaf [simp]: "nodes (Bitvec sz n 0 u) = 1"
  by (simp add: nodes.simps)

lemma nodes_sub: "0 < d \<Longrightarrow> nodes (Bitvec sz n d (USub ps)) = Suc (sum_list (map sub_nodes ps))"
  by (simp add: nodes.simps sub_nodes_def [abs_def])

lemma nodes_update:
  "0 < d \<Longrightarrow> bin < length ps \<Longrightarrow>
    nodes (Bitvec sz n d (USub (ps[bin := q]))) + sub_nodes (ps ! bin)
      = nodes (Bitvec sz n' d (USub ps)) + sub_nodes q"
  using sum_list_update [of bin "map sub_nodes ps" "sub_nodes q"] member_le_sum_list [of "sub_nodes (ps ! bin)" "map sub_nodes ps"]
  by (simp add: nodes_sub map_update)

text \<open>
  What a call that sets bit \<open>i\<close> of \<open>p\<close> promises: it returns; the invariant and the size stay;
  on success exactly bit \<open>i\<close> is added; on failure no bit appears from nowhere; the live blocks
  are accounted for; and it fails only when an allocation fails.
\<close>
definition sets :: "bitvec \<Rightarrow> nat set \<Rightarrow> allocator \<Rightarrow> nat \<times> bitvec \<times> allocator \<Rightarrow> bool" where
  "sets p I al = (\<lambda>(rc, p', al').
     bv_inv p' \<and> iSize p' = iSize p \<and> (iDivisor p \<noteq> 0 \<longrightarrow> iDivisor p' = iDivisor p) \<and>
     (rc = SQLITE_OK \<or> rc = SQLITE_NOMEM) \<and>
     (\<forall>j<iSize p. (test_walk p' j = Some True \<longrightarrow> j \<in> I \<or> test_walk p j = Some True) \<and>
        (rc = SQLITE_OK \<longrightarrow> j \<in> I \<or> test_walk p j = Some True \<longrightarrow> test_walk p' j = Some True)) \<and>
     live al' + nodes p = live al + nodes p' \<and> (plenty al \<longrightarrow> plenty al' \<and> rc = SQLITE_OK))"

lemma sets_bitmap:
  assumes "length a = BITVEC_NELEM" "i < sz" "sz \<le> BITVEC_NBIT"
  shows "sets (Bitvec sz n 0 (UBitmap a)) {i} al
           (SQLITE_OK, Bitvec sz n 0 (UBitmap (bitmap_set a i)), al)"
  using assms bitmap_set_test [of a i] by (auto simp: sets_def intro!: bv_inv.bitmap)

lemma sets_hash:
  assumes "bv_inv (Bitvec sz n 0 (UHash a))" "BITVEC_NBIT < sz" "i < sz" "hash_ok b"
    "used b < BITVEC_NINT" "set b - {0} = insert (Suc i) (set a - {0})"
  shows "sets (Bitvec sz n 0 (UHash a)) {i} al (SQLITE_OK, Bitvec sz (used b) 0 (UHash b), al)"
proof -
  have a: "hash_ok a" "used a < BITVEC_NINT" "\<forall>v\<in>set a. v \<le> sz" using assms(1) by (auto elim: bv_invE)
  have mem: "Suc j \<in> set b \<longleftrightarrow> j = i \<or> Suc j \<in> set a" for j using assms(6) by auto
  have "\<forall>v\<in>set b. v \<le> sz" using assms(3,6) a(3) by (metis Diff_iff Suc_leI insertE le0 singletonD insertI1)
  then show ?thesis using a assms mem
    by (auto simp: sets_def walk_hash intro!: bv_inv.hash)
qed

lemma sets_sub:
  assumes inv: "bv_inv (Bitvec sz n d (USub ps))" and sz: "BITVEC_NBIT < sz" and i: "i < sz"
    and q: "sub_at ps (i div d) = Some q \<or> sub_at ps (i div d) = None \<and> q = bitvec_new d"
    and al: "live al' + sub_nodes (sub_at ps (i div d)) = live al + nodes q" "plenty al \<longrightarrow> plenty al'"
    and r: "sets q {i mod d} al' (rc, q', al'')"
  shows "sets (Bitvec sz n d (USub ps)) {i} al
           (rc, Bitvec sz n d (USub (ps[i div d := Some q'])), al'')"
proof -
  let ?bin = "i div d" and ?ps = "ps[i div d := Some q']"
  have d: "d = (sz + BITVEC_NPTR - 1) div BITVEC_NPTR" and len: "length ps = BITVEC_NPTR"
    and subs: "\<forall>q. Some q \<in> set ps \<longrightarrow> iSize q = d \<and> bv_inv q"
    using inv sz by (auto elim: bv_invE simp: BITVEC_NBIT_def)
  note rng = divisor_range [OF sz d]
  have bin: "?bin < length ps" using rng(3) i len by simp
  have "iSize q = d" using q subs sub_member by (auto simp: bitvec_new_def)
  then have inv': "bv_inv (Bitvec sz n d (USub ?ps))"
    using r subs len sz d by (intro bv_inv.sub) (auto simp: sets_def dest!: set_update_subset_insert [THEN subsetD])
  have at: "sub_at ?ps b = (if b = ?bin then Some q' else sub_at ps b)" for b
    using bin by (simp add: sub_at_def)
  have bits: "(test_walk (Bitvec sz n d (USub ?ps)) j = Some True \<longrightarrow>
       j \<in> {i} \<or> test_walk (Bitvec sz n d (USub ps)) j = Some True) \<and>
     (rc = SQLITE_OK \<longrightarrow> j \<in> {i} \<or> test_walk (Bitvec sz n d (USub ps)) j = Some True \<longrightarrow>
       test_walk (Bitvec sz n d (USub ?ps)) j = Some True)" for j
  proof (cases "j div d = ?bin")
    case True
    then have eq: "j = i \<longleftrightarrow> j mod d = i mod d" by (metis div_mult_mod_eq)
    have jd: "j mod d < d" using rng(1) by simp
    have old: "test_walk (Bitvec sz n d (USub ps)) j = test_walk q (j mod d)"
      using q new_empty [OF jd] True rng(1) by (auto simp: walk_sub)
    have new: "test_walk (Bitvec sz n d (USub ?ps)) j = test_walk q' (j mod d)"
      using at True rng(1) by (simp add: walk_sub)
    show ?thesis using r jd eq \<open>iSize q = d\<close> unfolding old new sets_def by auto
  next
    case False
    then show ?thesis using at rng(1) by (auto simp: walk_sub)
  qed
  have "nodes (Bitvec sz n d (USub ?ps)) + sub_nodes (sub_at ps ?bin)
      = nodes (Bitvec sz n d (USub ps)) + nodes q'"
    using nodes_update [OF rng(1) bin, of sz n "Some q'" n] bin by (simp add: sub_at_def sub_nodes_def)
  then have "live al'' + nodes (Bitvec sz n d (USub ps)) = live al + nodes (Bitvec sz n d (USub ?ps))"
    using al(1) r by (simp add: sets_def)
  then show ?thesis using bits inv' r al(2) by (simp add: sets_def)
qed

lemma rc_or:
  "rc = SQLITE_OK \<or> rc = SQLITE_NOMEM \<Longrightarrow> rc' = SQLITE_OK \<or> rc' = SQLITE_NOMEM \<Longrightarrow>
    (rc OR rc' = SQLITE_OK \<longleftrightarrow> rc = SQLITE_OK \<and> rc' = SQLITE_OK) \<and>
    (rc OR rc' = SQLITE_OK \<or> rc OR rc' = SQLITE_NOMEM)"
  by (auto simp: SQLITE_OK_def SQLITE_NOMEM_def)

lemma sets_trans:
  assumes "sets p I al (rc, p1, al1)" "sets p1 {i} al1 (rc', p2, al2)"
  shows "sets p (insert i I) al (rc OR rc', p2, al2)"
proof -
  have "rc = SQLITE_OK \<or> rc = SQLITE_NOMEM" "rc' = SQLITE_OK \<or> rc' = SQLITE_NOMEM"
    using assms by (auto simp: sets_def)
  then show ?thesis using assms rc_or [of rc rc'] unfolding sets_def by auto
qed

text \<open>The loop of the subdivision, for any way \<open>f\<close> of setting one bit.\<close>

lemma sets_fold:
  assumes f: "\<And>p i al. bv_inv p \<Longrightarrow> i < iSize p \<Longrightarrow> iSize p = sz \<Longrightarrow> iDivisor p = d \<Longrightarrow>
      \<exists>r. f p i al = Some r \<and> sets p {i} al r"
    and d: "d \<noteq> 0" and p: "iDivisor p = d" "iSize p = sz"
  shows "\<forall>v\<in>set vs. v \<le> sz \<Longrightarrow> sets p I al r \<Longrightarrow> \<exists>r'.
    foldl (\<lambda>r v. case r of None \<Rightarrow> None | Some (rc, p, al) \<Rightarrow>
       if v \<noteq> 0 then (case f p (v - 1) al of None \<Rightarrow> None | Some (rc', p, al) \<Rightarrow> Some (rc OR rc', p, al))
       else Some (rc, p, al)) (Some r) vs = Some r' \<and> sets p (I \<union> {i. Suc i \<in> set vs}) al r'"
proof (induction vs arbitrary: I r)
  case (Cons v vs)
  obtain rc p1 al1 where r: "r = (rc, p1, al1)" by (cases r)
  show ?case
  proof (cases v)
    case 0
    then show ?thesis using Cons.IH [of I r] Cons.prems r by simp
  next
    case (Suc i)
    have p1: "bv_inv p1" "iSize p1 = sz" "iDivisor p1 = d" "i < iSize p1"
      using Cons.prems Suc r p d by (auto simp: sets_def)
    obtain rc' p2 al2 where f1: "f p1 i al1 = Some (rc', p2, al2)" "sets p1 {i} al1 (rc', p2, al2)"
      using f [OF p1(1,4,2,3)] by (metis prod_cases3)
    have "sets p (insert i I) al (rc OR rc', p2, al2)" using sets_trans f1(2) Cons.prems(2) r by blast
    moreover have "insert i I \<union> {i. Suc i \<in> set vs} = I \<union> {i. Suc i \<in> set (v # vs)}" using Suc by auto
    ultimately show ?thesis using Cons.IH [of "insert i I"] Cons.prems f1(1) r Suc by simp
  qed
qed simp

lemma empty_sub_inv:
  assumes "BITVEC_NBIT < sz" "d = (sz + BITVEC_NPTR - 1) div BITVEC_NPTR"
  shows "bv_inv (Bitvec sz n d (USub (replicate BITVEC_NPTR None)))"
    and "test_walk (Bitvec sz n d (USub (replicate BITVEC_NPTR None))) j = Some False"
    and "nodes (Bitvec sz n d (USub (replicate BITVEC_NPTR None))) = 1"
  using assms divisor_range(1) [OF assms]
  by (auto simp: walk_sub sub_at_def nodes_sub sub_nodes_def sum_list_replicate intro!: bv_inv.sub)

lemma sets_subdivided:
  assumes inv: "bv_inv (Bitvec sz n 0 (UHash a))" and sz: "BITVEC_NBIT < sz"
    and d: "d = (sz + BITVEC_NPTR - 1) div BITVEC_NPTR"
    and r: "sets (Bitvec sz n d (USub (replicate BITVEC_NPTR None))) ({i} \<union> {i. Suc i \<in> set a}) al' (rc, p', al'')"
    and al: "live al' = live al + 1" "plenty al \<longrightarrow> plenty al'"
  shows "sets (Bitvec sz n 0 (UHash a)) {i} al (rc, p', free_block al'')"
proof -
  have a: "hash_ok a" "used a < BITVEC_NINT" using inv by (auto elim: bv_invE)
  have "1 \<le> nodes p'" by (simp add: nodes.simps [of p'])
  then show ?thesis using r al empty_sub_inv [OF sz d, of n] walk_hash [OF sz a, of n]
    unfolding sets_def by auto
qed

lemma set_walk_sets:
  "bv_inv p \<Longrightarrow> i < iSize p \<Longrightarrow> need p \<le> n \<Longrightarrow> \<exists>r. set_walk n p i al = Some r \<and> sets p {i} al r"
proof (induction n arbitrary: p i al)
  case 0
  then show ?case
    by (cases rule: bv_invE [OF 0(1)]) (auto simp: need_def levels.simps split: if_splits)
next
  case (Suc n)
  from Suc.prems(1) show ?case
  proof (cases rule: bv_invE)
    case (bitmap sz a m)
    then show ?thesis using sets_bitmap [of a i sz m al] Suc.prems(2) by (simp add: set_walk.simps)
  next
    case (hash sz a)
    let ?p = "Bitvec sz (used a) 0 (UHash a)"
    have hs: "hash_ok (aHash (un p))" "nSet p = used (aHash (un p))" "nSet p < BITVEC_NINT"
      using hash by simp_all
    show ?thesis
    proof (cases rule: hash_set_cases [OF hs, of i, case_names present stored full])
      case present
      have "set_walk (Suc n) p i al = Some (SQLITE_OK, ?p, al)"
        using present(2) hash by (simp add: set_walk.simps)
      moreover have "sets ?p {i} al (SQLITE_OK, ?p, al)"
        using Suc.prems(1,2) hash present(1) by (intro sets_hash) auto
      ultimately show ?thesis using hash(1) by blast
    next
      case (stored b)
      then have "set_walk (Suc n) p i al = Some (SQLITE_OK, Bitvec sz (used b) 0 (UHash b), al)"
        using hash by (simp add: set_walk.simps)
      moreover have "sets ?p {i} al (SQLITE_OK, Bitvec sz (used b) 0 (UHash b), al)"
        using Suc.prems(1,2) hash stored by (intro sets_hash) auto
      ultimately show ?thesis using hash(1) by blast
    next
      case full
      let ?d = "(sz + BITVEC_NPTR - 1) div BITVEC_NPTR"
      let ?q = "Bitvec sz (used a) ?d (USub (replicate BITVEC_NPTR None))"
      obtain ok al' where al: "alloc_block al = (ok, al')" by fastforce
      show ?thesis
      proof (cases ok)
        case False
        have "\<not> plenty al" using plenty_alloc al False by blast
        moreover have "live al' = live al" using live_alloc [OF al] False by simp
        ultimately have "sets ?p {i} al (SQLITE_NOMEM, ?p, al')"
          using Suc.prems(1) hash(1) by (simp add: sets_def SQLITE_OK_def SQLITE_NOMEM_def)
        then show ?thesis using full hash al False by (simp add: set_walk.simps)
      next
        case True
        have d: "?d \<noteq> 0" using divisor_range(1) [OF hash(2), of ?d] by simp
        have IH: "\<exists>r. set_walk n p i al = Some r \<and> sets p {i} al r"
          if "bv_inv p" "i < iSize p" "iSize p = sz" "iDivisor p = ?d" for p i al
          using Suc.IH [of p i al] that Suc.prems(3) hash(1) d by (auto simp: need_def)
        obtain r where r: "set_walk n ?q i al' = Some r" "sets ?q {i} al' r"
          using IH [of ?q i al'] empty_sub_inv(1) [OF hash(2) refl] Suc.prems(2) hash(1) by auto
        obtain rc p' al'' where
          r': "foldl (\<lambda>r v. case r of None \<Rightarrow> None | Some (rc, p, al) \<Rightarrow>
                 if v \<noteq> 0 then (case set_walk n p (v - 1) al of None \<Rightarrow> None
                   | Some (rc', p, al) \<Rightarrow> Some (rc OR rc', p, al))
                 else Some (rc, p, al)) (Some r) a = Some (rc, p', al'')"
            "sets ?q ({i} \<union> {i. Suc i \<in> set a}) al' (rc, p', al'')"
          using sets_fold [where p = ?q and f = "set_walk n" and vs = a, OF IH d _ _ hash(4) r(2)]
          by fastforce
        have "set_walk (Suc n) p i al = Some (rc, p', free_block al'')"
          using full hash al True r(1) r'(1) by (simp add: set_walk.simps Let_def)
        moreover have "sets ?p {i} al (rc, p', free_block al'')"
          using sets_subdivided [OF _ hash(2) refl r'(2)] Suc.prems(1) hash(1) live_alloc [OF al]
            plenty_alloc [OF _ al] True by simp
        ultimately show ?thesis using hash(1) by blast
      qed
    qed
  next
    case (sub sz ps m)
    define d where "d = (sz + BITVEC_NPTR - 1) div BITVEC_NPTR"
    have p: "p = Bitvec sz m d (USub ps)" using sub(1) by (simp add: d_def)
    note rng = divisor_range [OF sub(2) d_def]
    obtain k where k: "levels sz = Suc k" "levels d = k" using sub(2) by (simp add: levels.simps [of sz] d_def)
    have IH: "\<exists>r. set_walk n q (i mod d) al = Some r \<and> sets q {i mod d} al r"
      if "bv_inv q" "iSize q = d" for q al
      by (rule Suc.IH) (use that Suc.prems(3) k p rng in \<open>auto simp: need_def\<close>)
    have inv: "bv_inv (Bitvec sz m d (USub ps))" using Suc.prems(1) p by simp
    have i: "i < sz" using Suc.prems(2) p by simp
    obtain q al' where q: "(case sub_at ps (i div d) of None \<Rightarrow> sqlite3BitvecCreate d al
        | Some q \<Rightarrow> (Some q, al)) = (q, al')" by fastforce
    have walk: "set_walk (Suc n) p i al = (case q of None \<Rightarrow> Some (SQLITE_NOMEM, p, al')
        | Some q \<Rightarrow> (case set_walk n q (i mod d) al' of None \<Rightarrow> None
           | Some (rc, q, al) \<Rightarrow> Some (rc, Bitvec sz m d (USub (ps[i div d := Some q])), al)))"
      using q p sub(2) rng(1) by (simp add: set_walk.simps split: option.split)
    show ?thesis
    proof (cases q)
      case None
      then obtain "alloc_block al = (False, al')"
        using q by (auto simp: sqlite3BitvecCreate_def split: option.splits prod.splits if_splits)
      then have "\<not> plenty al" "live al' = live al" using plenty_alloc live_alloc by fastforce+
      then have "sets p {i} al (SQLITE_NOMEM, p, al')"
        using Suc.prems(1) by (simp add: sets_def SQLITE_OK_def SQLITE_NOMEM_def)
      then show ?thesis using walk None by simp
    next
      case (Some q')
      have sub_q: "sub_at ps (i div d) = Some q' \<and> al' = al \<or>
          sub_at ps (i div d) = None \<and> q' = bitvec_new d \<and> alloc_block al = (True, al')"
        using q Some by (auto simp: sqlite3BitvecCreate_def split: option.splits prod.splits if_splits)
      have "bv_inv q' \<and> iSize q' = d"
        using sub_q sub(4) sub_member new_inv by (auto simp: bitvec_new_def d_def)
      then obtain rc q2 al2 where r: "set_walk n q' (i mod d) al' = Some (rc, q2, al2)"
          "sets q' {i mod d} al' (rc, q2, al2)"
        using IH [of q' al'] by (metis prod_cases3)
      have "sets p {i} al (rc, Bitvec sz m d (USub (ps[i div d := Some q2])), al2)"
        unfolding p
      proof (rule sets_sub [OF inv sub(2) i _ _ _ r(2)])
        show "sub_at ps (i div d) = Some q' \<or> sub_at ps (i div d) = None \<and> q' = bitvec_new d"
          using sub_q by blast
        show "live al' + sub_nodes (sub_at ps (i div d)) = live al + nodes q'"
          using sub_q live_alloc [of al True al'] by (auto simp: sub_nodes_def bitvec_new_def)
        show "plenty al \<longrightarrow> plenty al'" using sub_q plenty_alloc by blast
      qed
      then show ?thesis using walk Some r(1) by simp
    qed
  qed
qed

section \<open>Clearing a bit and destroying\<close>

definition clears :: "bitvec \<Rightarrow> nat \<Rightarrow> bitvec \<Rightarrow> bool" where
  "clears p i p' \<longleftrightarrow> bv_inv p' \<and> iSize p' = iSize p \<and> nodes p' = nodes p \<and>
     (\<forall>j<iSize p. test_walk p' j = (if j = i then Some False else test_walk p j))"

lemma clear_walk_clears: "bv_inv p \<Longrightarrow> i < iSize p \<Longrightarrow> \<exists>p'. clear_walk p i = Some p' \<and> clears p i p'"
proof (induction p arbitrary: i rule: bv_inv.induct)
  case (bitmap sz a n)
  have "clear_walk (Bitvec sz n 0 (UBitmap a)) i = Some (Bitvec sz n 0 (UBitmap (bitmap_clear a i)))"
    using bitmap by (simp add: clear_walk.simps)
  moreover have "bv_inv (Bitvec sz n 0 (UBitmap (bitmap_clear a i)))"
    using bitmap by (intro bv_inv.bitmap) simp_all
  ultimately show ?case using bitmap bitmap_clear_test [of a i] by (auto simp: clears_def)
next
  case (hash sz a n)
  have "used (replicate BITVEC_NINT 0) = 0" by (simp add: used_def)
  then obtain c where c: "foldl (clear_step i) (Some (0, replicate BITVEC_NINT 0)) a = Some (used c, c)"
      "hash_ok c" "used c \<le> used a" "set c - {0} = (set (replicate BITVEC_NINT 0) \<union> (set a - {Suc i})) - {0}"
    using clear_rebuild [OF hash_empty, of a 0 i] hash(4,5) unfolding used_def [of a] by auto
  have mem: "Suc j \<in> set c \<longleftrightarrow> j \<noteq> i \<and> Suc j \<in> set a" for j
    using c(4) by (auto simp: BITVEC_NINT_def split: if_splits)
  have "v \<le> sz" if v: "v \<in> set c" for v
  proof (cases v)
    case (Suc j)
    then show ?thesis using v hash(3) mem [of j] by auto
  qed simp
  then have inv: "bv_inv (Bitvec sz (used c) 0 (UHash c))" using c hash by (intro bv_inv.hash) auto
  have "clear_walk (Bitvec sz n 0 (UHash a)) i = Some (Bitvec sz (used c) 0 (UHash c))"
    using c(1) hash(1) by (simp add: clear_walk.simps)
  then show ?case using c hash inv mem by (auto simp: clears_def walk_hash)
next
  case (sub sz d ps n)
  note rng = divisor_range [OF sub(1,2)]
  have bin: "i div d < length ps" using rng(3) sub(3,5) by simp
  show ?case
  proof (cases "sub_at ps (i div d)")
    case None
    have "j = i \<Longrightarrow> test_walk (Bitvec sz n d (USub ps)) j = Some False" for j
      using None rng(1) by (simp add: walk_sub)
    then have "clears (Bitvec sz n d (USub ps)) i (Bitvec sz n d (USub ps))"
      using bv_inv.sub [OF sub(1,2,3)] sub(4) by (auto simp: clears_def)
    then show ?thesis using None rng(1) by (simp add: clear_walk.simps)
  next
    case (Some q)
    have q: "iSize q = d" "bv_inv q" and "i mod d < iSize q"
      using sub(4) sub_member [OF Some] rng(1) by auto
    then obtain q' where q': "clear_walk q (i mod d) = Some q'" "clears q (i mod d) q'"
      using sub(4) sub_member [OF Some] by blast
    let ?p = "Bitvec sz n d (USub ps)" and ?p' = "Bitvec sz n d (USub (ps[i div d := Some q']))"
    have inv: "bv_inv ?p'"
      using q' q sub(3,4) by (intro bv_inv.sub [OF sub(1,2)]) (auto simp: clears_def dest!: set_update_subset_insert [THEN subsetD])
    have at: "sub_at (ps[i div d := Some q']) b = (if b = i div d then Some q' else sub_at ps b)" for b
      using bin by (simp add: sub_at_def)
    have "test_walk ?p' j = (if j = i then Some False else test_walk ?p j)" for j
    proof (cases "j div d = i div d")
      case True
      then have "j = i \<longleftrightarrow> j mod d = i mod d" by (metis div_mult_mod_eq)
      then show ?thesis using True at Some q q'(2) rng(1) by (simp add: walk_sub clears_def)
    next
      case False
      then show ?thesis using at rng(1) by (auto simp: walk_sub)
    qed
    moreover have "nodes ?p' = nodes ?p"
      using nodes_update [OF rng(1) bin, of sz n "Some q'" n] q'(2) Some bin
      by (simp add: sub_at_def sub_nodes_def clears_def)
    ultimately have "clears ?p i ?p'" using inv by (simp add: clears_def)
    then show ?thesis using Some q'(1) rng(1) by (simp add: clear_walk.simps)
  qed
qed

lemma destroy_live: "bv_inv p \<Longrightarrow> live (bitvec_destroy p al) = live al - nodes p"
proof (induction p arbitrary: al rule: bv_inv.induct)
  case (sub sz d ps n)
  have "0 < d" by (rule divisor_range(1) [OF sub(1,2)])
  have "set qs \<subseteq> set ps \<Longrightarrow>
      live (foldl (\<lambda>al q. case q of None \<Rightarrow> al | Some q \<Rightarrow> bitvec_destroy q al) al qs)
        = live al - sum_list (map sub_nodes qs)" for qs al
    using sub(4) by (induction qs arbitrary: al) (auto simp: sub_nodes_def split: option.split)
  from this [of ps al] show ?case using \<open>0 < d\<close> by (simp add: bitvec_destroy.simps nodes_sub)
qed (simp_all add: bitvec_destroy.simps)

section \<open>A bit vector is a set\<close>

text \<open>A sequence of operations: \<open>Inl i\<close> inserts \<open>i\<close>, \<open>Inr i\<close> removes it.\<close>
fun run_ops :: "('s \<Rightarrow> nat \<Rightarrow> allocator \<Rightarrow> (nat \<times> 's \<times> allocator) option) \<Rightarrow> ('s \<Rightarrow> nat \<Rightarrow> 's option) \<Rightarrow>
    (nat + nat) list \<Rightarrow> 's \<Rightarrow> allocator \<Rightarrow> ('s \<times> allocator) option" where
  "run_ops ins del [] s al = Some (s, al)"
| "run_ops ins del (Inl i # ops) s al =
     (case ins s i al of None \<Rightarrow> None | Some (rc, s, al) \<Rightarrow> run_ops ins del ops s al)"
| "run_ops ins del (Inr i # ops) s al =
     (case del s i of None \<Rightarrow> None | Some s \<Rightarrow> run_ops ins del ops s al)"

text \<open>The set that is left.\<close>
fun expected :: "(nat + nat) list \<Rightarrow> nat set \<Rightarrow> nat set" where
  "expected [] S = S"
| "expected (Inl i # ops) S = expected ops (insert i S)"
| "expected (Inr i # ops) S = expected ops (S - {i})"

text \<open>
  What a client of a set of bounded integers relies on: \<open>elems\<close> is the set a state stands
  for, an insertion may fail for want of memory, and it fails only then.
\<close>

locale bounded_set =
  fixes invar :: "'s \<Rightarrow> bool" and bound :: "'s \<Rightarrow> nat" and elems :: "'s \<Rightarrow> nat set"
    and ins :: "'s \<Rightarrow> nat \<Rightarrow> allocator \<Rightarrow> (nat \<times> 's \<times> allocator) option"
    and del :: "'s \<Rightarrow> nat \<Rightarrow> 's option"
  assumes ins_ok: "invar s \<Longrightarrow> 0 < i \<Longrightarrow> i \<le> bound s \<Longrightarrow> plenty al \<Longrightarrow>
      \<exists>s' al'. ins s i al = Some (SQLITE_OK, s', al') \<and> invar s' \<and> bound s' = bound s \<and>
        elems s' = insert i (elems s) \<and> plenty al'"
    and del_ok: "invar s \<Longrightarrow> 0 < i \<Longrightarrow> i \<le> bound s \<Longrightarrow>
      \<exists>s'. del s i = Some s' \<and> invar s' \<and> bound s' = bound s \<and> elems s' = elems s - {i}"
begin

lemma run_expected:
  assumes "invar s" "plenty al" "\<forall>x\<in>set ops. 0 < case_sum id id x \<and> case_sum id id x \<le> bound s"
  shows "\<exists>s' al'. run_ops ins del ops s al = Some (s', al') \<and> invar s' \<and> bound s' = bound s \<and>
    elems s' = expected ops (elems s)"
  using assms
proof (induction ops arbitrary: s al)
  case (Cons x ops)
  show ?case
  proof (cases x)
    case (Inl i)
    then obtain s' al' where "ins s i al = Some (SQLITE_OK, s', al')" "invar s'" "bound s' = bound s"
        "elems s' = insert i (elems s)" "plenty al'"
      using ins_ok [of s i al] Cons.prems by auto
    then show ?thesis using Cons.IH [of s' al'] Cons.prems Inl by simp
  next
    case (Inr i)
    then obtain s' where "del s i = Some s'" "invar s'" "bound s' = bound s" "elems s' = elems s - {i}"
      using del_ok [of s i] Cons.prems by auto
    then show ?thesis using Cons.IH [of s' al] Cons.prems Inr by simp
  qed
qed simp

end

text \<open>The set a bit vector stands for, and its well-formedness with the range of \<open>u32\<close>.\<close>
definition bits :: "bitvec option \<Rightarrow> nat set" where
  "bits p = {i. sqlite3BitvecTest p i = Some True \<and> i < 2 ^ 32}"

definition bitvec_ok :: "bitvec option \<Rightarrow> bool" where
  "bitvec_ok p \<longleftrightarrow> (\<exists>q. p = Some q \<and> bv_inv q \<and> iSize q < 2 ^ 32)"

lemma test_some:
  "i < 2 ^ 32 \<Longrightarrow> iSize p < 2 ^ 32 \<Longrightarrow> sqlite3BitvecTest (Some p) i =
    (if 0 < i \<and> i \<le> iSize p then test_walk p (i - 1) else Some False)"
  by (auto simp: sqlite3BitvecTest_def sqlite3BitvecTestNotNull_def u32_dec_def Let_def)

lemma bits_some:
  "iSize p < 2 ^ 32 \<Longrightarrow> bits (Some p) = {i. 0 < i \<and> i \<le> iSize p \<and> test_walk p (i - 1) = Some True}"
  by (auto simp: bits_def test_some split: if_splits)

lemma bits_Suc:
  "iSize p < 2 ^ 32 \<Longrightarrow> j \<in> bits (Some p) \<longleftrightarrow> (\<exists>k. j = Suc k \<and> k < iSize p \<and> test_walk p k = Some True)"
  by (cases j) (auto simp: bits_some)

lemma test_member:
  assumes "bitvec_ok p" "i < 2 ^ 32"
  shows "sqlite3BitvecTest p i = Some (i \<in> bits p)"
proof -
  obtain q where q: "p = Some q" "bv_inv q" "iSize q < 2 ^ 32" using assms(1) by (auto simp: bitvec_ok_def)
  obtain b where "test_walk q (i - 1) = Some b" using test_walk_total [OF q(2)] by blast
  then show ?thesis using q assms(2) by (auto simp: bits_def test_some)
qed

lemma set_bits:
  assumes "bv_inv p" "iSize p < 2 ^ 32" "0 < i" "i \<le> iSize p"
  shows "\<exists>rc p' al'. sqlite3BitvecSet (Some p) i al = Some (rc, Some p', al') \<and>
     bitvec_ok (Some p') \<and> iSize p' = iSize p \<and> (rc = SQLITE_OK \<or> rc = SQLITE_NOMEM) \<and>
     bits (Some p') \<subseteq> insert i (bits (Some p)) \<and>
     (rc = SQLITE_OK \<longrightarrow> bits (Some p') = insert i (bits (Some p))) \<and>
     live al' + nodes p = live al + nodes p' \<and> (plenty al \<longrightarrow> plenty al' \<and> rc = SQLITE_OK)"
proof -
  obtain k where k: "i = Suc k" "k < iSize p" using assms(3,4) by (cases i) auto
  then obtain rc p' al' where r: "set_walk set_fuel p k al = Some (rc, p', al')"
      "sets p {k} al (rc, p', al')"
    using set_walk_sets [OF assms(1) k(2) need_bound [OF assms(2)]] by (metis prod_cases3)
  have sz: "iSize p' = iSize p" "iSize p' < 2 ^ 32"
    and new: "\<forall>j<iSize p. test_walk p' j = Some True \<longrightarrow> j = k \<or> test_walk p j = Some True"
    and kept: "rc = SQLITE_OK \<Longrightarrow> \<forall>j<iSize p. j = k \<or> test_walk p j = Some True \<longrightarrow> test_walk p' j = Some True"
    using r(2) assms(2) by (simp_all add: sets_def)
  have sub: "bits (Some p') \<subseteq> insert i (bits (Some p))"
    using new assms(2) sz k(1) by (auto simp: bits_Suc) blast
  have "bits (Some p') = insert i (bits (Some p))" if "rc = SQLITE_OK"
    using sub kept [OF that] assms(2) sz k by (auto simp: bits_Suc)
  then show ?thesis using r sub sz k(1) by (auto simp: sqlite3BitvecSet_def u32_dec_def sets_def bitvec_ok_def)
qed

lemma clear_bits:
  assumes "bv_inv p" "iSize p < 2 ^ 32" "0 < i" "i \<le> iSize p"
  shows "\<exists>p'. sqlite3BitvecClear (Some p) i = Some (Some p') \<and> bitvec_ok (Some p') \<and>
     iSize p' = iSize p \<and> bits (Some p') = bits (Some p) - {i} \<and> nodes p' = nodes p"
proof -
  have "i - 1 < iSize p" using assms by simp
  then obtain p' where p': "clear_walk p (i - 1) = Some p'" "clears p (i - 1) p'"
    using clear_walk_clears [OF assms(1)] by blast
  have "j \<in> bits (Some p') \<longleftrightarrow> j \<in> bits (Some p) - {i}" for j
    using p'(2) assms by (auto simp: bits_some clears_def dest!: spec [of _ "j - 1"])
  then have "bits (Some p') = bits (Some p) - {i}" by blast
  then show ?thesis using p' assms by (auto simp: sqlite3BitvecClear_def u32_dec_def clears_def bitvec_ok_def)
qed

interpretation bv: bounded_set bitvec_ok "\<lambda>p. case p of None \<Rightarrow> 0 | Some p \<Rightarrow> iSize p" bits
  sqlite3BitvecSet sqlite3BitvecClear
proof unfold_locales
  fix s :: "bitvec option" and i :: nat and al :: allocator
  assume s: "bitvec_ok s" "0 < i" "i \<le> (case s of None \<Rightarrow> 0 | Some p \<Rightarrow> iSize p)"
  then obtain p where p: "s = Some p" "bv_inv p" "iSize p < 2 ^ 32" by (auto simp: bitvec_ok_def)
  show "\<exists>s'. sqlite3BitvecClear s i = Some s' \<and> bitvec_ok s' \<and>
      (case s' of None \<Rightarrow> 0 | Some p \<Rightarrow> iSize p) = (case s of None \<Rightarrow> 0 | Some p \<Rightarrow> iSize p) \<and>
      bits s' = bits s - {i}"
    using clear_bits [OF p(2,3) s(2)] s(3) p(1) by auto
  assume "plenty al"
  then show "\<exists>s' al'. sqlite3BitvecSet s i al = Some (SQLITE_OK, s', al') \<and> bitvec_ok s' \<and>
      (case s' of None \<Rightarrow> 0 | Some p \<Rightarrow> iSize p) = (case s of None \<Rightarrow> 0 | Some p \<Rightarrow> iSize p) \<and>
      bits s' = insert i (bits s) \<and> plenty al'"
    using set_bits [OF p(2,3) s(2), of al] s(3) p(1) by auto
qed

text \<open>Setting and clearing bits of a bit vector, and the set this should leave.\<close>
definition bitvec_run :: "(nat + nat) list \<Rightarrow> nat \<Rightarrow> allocator \<Rightarrow> (bitvec option \<times> allocator) option" where
  "bitvec_run ops sz al = (case sqlite3BitvecCreate sz al of (p, al) \<Rightarrow> run_ops sqlite3BitvecSet sqlite3BitvecClear ops p al)"

section \<open>Properties\<close>

text \<open>
  \<open>sqlite3BitvecSet\<close> on a well-formed vector returns for every index in range and every
  pattern of allocation failures, with \<open>SQLITE_OK\<close> or \<open>SQLITE_NOMEM\<close>, and the second only
  when an allocation failed; the vector stays well formed with the same size; a success adds
  exactly the bit, a failure never adds another one; every block it allocated belongs to the
  vector, and \<open>sqlite3BitvecDestroy\<close> returns them all.
\<close>
theorem BitvecSet_correct:
  assumes "bv_inv p" "iSize p < 2 ^ 32" "0 < i" "i \<le> iSize p" "nodes p \<le> live al"
  shows "\<exists>rc p' al'. sqlite3BitvecSet (Some p) i al = Some (rc, Some p', al') \<and>
     bv_inv p' \<and> iSize p' = iSize p \<and> (rc = SQLITE_OK \<or> rc = SQLITE_NOMEM \<and> \<not> plenty al) \<and>
     (\<forall>j<2 ^ 32. (if rc = SQLITE_OK then sqlite3BitvecTest (Some p') j = Some (j = i \<or> sqlite3BitvecTest (Some p) j = Some True)
        else sqlite3BitvecTest (Some p') j = Some True \<longrightarrow> j = i \<or> sqlite3BitvecTest (Some p) j = Some True)) \<and>
     live (sqlite3BitvecDestroy (Some p') al') + nodes p = live al"
proof -
  obtain rc p' al' where r: "sqlite3BitvecSet (Some p) i al = Some (rc, Some p', al')"
      "bitvec_ok (Some p')" "iSize p' = iSize p" "rc = SQLITE_OK \<or> rc = SQLITE_NOMEM"
      "bits (Some p') \<subseteq> insert i (bits (Some p))"
      "rc = SQLITE_OK \<longrightarrow> bits (Some p') = insert i (bits (Some p))"
      "live al' + nodes p = live al + nodes p'" "plenty al \<longrightarrow> rc = SQLITE_OK"
    using set_bits [OF assms(1-4), of al] by blast
  have p': "bv_inv p'" "iSize p' < 2 ^ 32" using r(2) by (auto simp: bitvec_ok_def)
  note test = test_member [OF r(2)]
  have old: "sqlite3BitvecTest (Some p) j = Some True \<longleftrightarrow> j \<in> bits (Some p)" if "j < 2 ^ 32" for j
    using that by (simp add: bits_def)
  have "live (sqlite3BitvecDestroy (Some p') al') + nodes p = live al"
    using destroy_live [OF p'(1), of al'] r(7) assms(5) by (simp add: sqlite3BitvecDestroy_def)
  then show ?thesis using r p' test old by (intro exI [of _ rc] exI [of _ p'] exI [of _ al']) auto
qed

theorem BitvecSet_correct_witness:
  "\<exists>rc p' al'. sqlite3BitvecSet (Some (bitvec_new 5000)) 4999 \<lparr>verdicts = [], live = 1\<rparr> = Some (rc, Some p', al') \<and>
     rc = SQLITE_OK \<and> sqlite3BitvecTest (Some p') 4999 = Some True \<and>
     live (sqlite3BitvecDestroy (Some p') al') = 0"
proof -
  have "iSize (bitvec_new 5000) = 5000" "nodes (bitvec_new 5000) = 1" "plenty \<lparr>verdicts = [], live = 1\<rparr>"
    by (simp_all add: bitvec_new_def plenty_def)
  then show ?thesis
    using BitvecSet_correct [OF new_inv, of 5000 4999 "\<lparr>verdicts = [], live = 1\<rparr>"] by fastforce
qed

text \<open>
  C15. A bit vector behaves as the set of the bits set and not cleared since: after any sequence
  of \<open>sqlite3BitvecSet\<close> and \<open>sqlite3BitvecClear\<close> calls on indices in range, with memory to
  spare, \<open>sqlite3BitvecTest\<close> answers membership in that set for every 32-bit index, whether the
  vector is a bitmap, a hash table or a tree of vectors by then.
\<close>
theorem bitvec_refines_set:
  assumes "sz < 2 ^ 32" "plenty al" "\<forall>x\<in>set ops. 0 < case_sum id id x \<and> case_sum id id x \<le> sz"
  shows "\<exists>p al'. bitvec_run ops sz al = Some (p, al') \<and>
     (\<forall>i<2 ^ 32. sqlite3BitvecTest p i = Some (i \<in> expected ops {}))"
proof -
  obtain al1 where al1: "alloc_block al = (True, al1)" "plenty al1"
    using plenty_alloc [OF assms(2)] by (metis prod.collapse)
  have new: "bitvec_ok (Some (bitvec_new sz))" "iSize (bitvec_new sz) = sz"
    using new_inv assms(1) by (simp_all add: bitvec_ok_def bitvec_new_def)
  have "bits (Some (bitvec_new sz)) = {}"
    using new_empty [of _ sz] assms(1) new(2) by (auto simp: bits_some)
  then obtain p al' where r: "run_ops sqlite3BitvecSet sqlite3BitvecClear ops (Some (bitvec_new sz)) al1 = Some (p, al')" "bitvec_ok p"
      "bits p = expected ops {}"
    using bv.run_expected [OF new(1) al1(2), of ops] assms(3) new(2) by auto
  show ?thesis using r al1(1) test_member [OF r(2)] by (simp add: bitvec_run_def sqlite3BitvecCreate_def)
qed

theorem bitvec_refines_set_witness:
  "\<exists>p al'. bitvec_run [Inl 5, Inl 4000, Inr 5] 5000 \<lparr>verdicts = [], live = 0\<rparr> = Some (p, al') \<and>
     sqlite3BitvecTest p 5 = Some False \<and> sqlite3BitvecTest p 4000 = Some True"
proof -
  have "plenty \<lparr>verdicts = [], live = 0\<rparr>" by (simp add: plenty_def)
  from bitvec_refines_set [OF _ this, of 5000 "[Inl 5, Inl 4000, Inr 5]"]
  obtain p al' where "bitvec_run [Inl 5, Inl 4000, Inr 5] 5000 \<lparr>verdicts = [], live = 0\<rparr> = Some (p, al')"
      "\<forall>i<2 ^ 32. sqlite3BitvecTest p i = Some (i \<in> expected [Inl 5, Inl 4000, Inr 5] {})" by auto
  then show ?thesis by (intro exI [of _ p] exI [of _ al']) simp
qed

end
