(* ===== verification/Row_Set.thy ===== *)
theory Row_Set
  imports Alloc "HOL-Library.Tree"
begin

text \<open>
  SQLite's RowSet (\<open>src/db/sqlite3.c\<close>, \<open>rowset.c\<close>): a collection of row ids that can be tested
  batch by batch or extracted in order.  A list linked by \<open>pRight\<close> is a list of the values, a
  tree of entries is a \<open>tree\<close> of the library, the forest the list of its trees (an entry whose
  \<open>pLeft\<close> is null holds the empty tree).  Chunks are counted.
\<close>

section \<open>Data\<close>

record rowset =
  pChunk :: nat
  pEntry :: "int list"
  pLast :: "int option"
  pForest :: "int tree list"
  nFresh :: nat
  rsFlags :: u16
  iBatch :: int

definition ROWSET_SORTED :: u16 where "ROWSET_SORTED = 1"
definition ROWSET_NEXT :: u16 where "ROWSET_NEXT = 2"
definition ROWSET_ENTRY_PER_CHUNK :: nat where "ROWSET_ENTRY_PER_CHUNK = (1024 - 8) div 24"

section \<open>Operations\<close>

text \<open>\<open>N\<close> is the size of the block the allocator reports, at least the 56 bytes of the structure.\<close>
definition sqlite3RowSetInit :: "nat \<Rightarrow> allocator \<Rightarrow> rowset option \<times> allocator" where
  "sqlite3RowSetInit N al = (case alloc_block al of (ok, al) \<Rightarrow>
     (if ok then Some \<lparr>pChunk = 0, pEntry = [], pLast = None, pForest = [],
        nFresh = ((N - 56) div 24) mod 2 ^ 16, rsFlags = ROWSET_SORTED, iBatch = 0\<rparr>
      else None, al))"

definition sqlite3RowSetClear :: "rowset \<Rightarrow> allocator \<Rightarrow> rowset \<times> allocator" where
  "sqlite3RowSetClear p al =
     (p\<lparr>pChunk := 0, nFresh := 0, pEntry := [], pLast := None, pForest := [], rsFlags := ROWSET_SORTED\<rparr>,
      (free_block ^^ pChunk p) al)"

definition sqlite3RowSetDelete :: "rowset \<Rightarrow> allocator \<Rightarrow> allocator" where
  "sqlite3RowSetDelete p al = free_block (snd (sqlite3RowSetClear p al))"

definition rowSetEntryAlloc :: "rowset \<Rightarrow> allocator \<Rightarrow> bool \<times> rowset \<times> allocator" where
  "rowSetEntryAlloc p al =
     (if nFresh p = 0 then
        case alloc_block al of (ok, al) \<Rightarrow>
          if \<not> ok then (False, p, al)
          else (True, p\<lparr>pChunk := pChunk p + 1, nFresh := ROWSET_ENTRY_PER_CHUNK - 1\<rparr>, al)
      else (True, p\<lparr>nFresh := nFresh p - 1\<rparr>, al))"

definition sqlite3RowSetInsert :: "rowset \<Rightarrow> int \<Rightarrow> allocator \<Rightarrow> rowset \<times> allocator" where
  "sqlite3RowSetInsert p rowid al =
     (case rowSetEntryAlloc p al of (ok, p, al) \<Rightarrow>
        if \<not> ok then (p, al)
        else
          let p = (case pLast p of
                Some v \<Rightarrow> p\<lparr>rsFlags := (if rowid \<le> v then rsFlags p AND NOT ROWSET_SORTED else rsFlags p),
                            pEntry := pEntry p @ [rowid]\<rparr>
              | None \<Rightarrow> p\<lparr>pEntry := [rowid]\<rparr>)
          in (p\<lparr>pLast := Some rowid\<rparr>, al))"

fun rowSetEntryMerge :: "int list \<Rightarrow> int list \<Rightarrow> int list" where
  "rowSetEntryMerge [] pB = pB"
| "rowSetEntryMerge pA [] = pA"
| "rowSetEntryMerge (a # pA) (b # pB) =
     (if a \<le> b then
        if a < b then a # rowSetEntryMerge pA (b # pB) else rowSetEntryMerge pA (b # pB)
      else b # rowSetEntryMerge (a # pA) pB)"

text \<open>
  The inner loop of \<open>rowSetEntrySort\<close>: the list is merged with one bucket after the other up to
  the first empty one.  \<open>None\<close> is an access past the last bucket.
\<close>
fun put_bucket :: "int list list \<Rightarrow> int list \<Rightarrow> int list list option" where
  "put_bucket [] pIn = None"
| "put_bucket (b # bs) pIn =
     (if b = [] then Some (pIn # bs)
      else case put_bucket bs (rowSetEntryMerge b pIn) of None \<Rightarrow> None | Some bs \<Rightarrow> Some ([] # bs))"

fun fill_buckets :: "int list list \<Rightarrow> int list \<Rightarrow> int list list option" where
  "fill_buckets bs [] = Some bs"
| "fill_buckets bs (v # pNext) =
     (case put_bucket bs [v] of None \<Rightarrow> None | Some bs \<Rightarrow> fill_buckets bs pNext)"

definition rowSetEntrySort :: "int list \<Rightarrow> int list option" where
  "rowSetEntrySort pIn =
     (case fill_buckets (replicate 40 []) pIn of
        None \<Rightarrow> None
      | Some aBucket \<Rightarrow> Some (foldl
          (\<lambda>pIn b. if b = [] then pIn else if pIn \<noteq> [] then rowSetEntryMerge pIn b else b)
          (aBucket ! 0) (drop 1 aBucket)))"

fun rowSetTreeToList :: "int tree \<Rightarrow> int list" where
  "rowSetTreeToList Leaf = []"
| "rowSetTreeToList (Node pLeft v pRight) =
     (if pLeft \<noteq> Leaf then rowSetTreeToList pLeft @ [v] else [v]) @
     (if pRight \<noteq> Leaf then rowSetTreeToList pRight else [])"

text \<open>The tree and the unused rest of the list.\<close>
fun rowSetNDeepTree :: "int list \<Rightarrow> nat \<Rightarrow> int tree \<times> int list" where
  "rowSetNDeepTree pList iDepth =
     (case pList of
        [] \<Rightarrow> (Leaf, [])
      | v # vs \<Rightarrow>
          if iDepth > 1 then
            case rowSetNDeepTree pList (iDepth - 1) of (pLeft, pList) \<Rightarrow>
              (case pList of
                 [] \<Rightarrow> (pLeft, [])
               | p # pList \<Rightarrow>
                   case rowSetNDeepTree pList (iDepth - 1) of (pRight, pList) \<Rightarrow>
                     (Node pLeft p pRight, pList))
          else (Node Leaf v Leaf, vs))"

declare rowSetNDeepTree.simps [simp del]

lemma ndeep_inorder:
  "inorder (fst (rowSetNDeepTree xs d)) @ snd (rowSetNDeepTree xs d) = xs"
proof (induction d arbitrary: xs rule: less_induct)
  case (less d)
  show ?case
  proof (cases "xs = [] \<or> d \<le> 1")
    case True
    then show ?thesis by (cases xs) (auto simp: rowSetNDeepTree.simps [of _ d])
  next
    case False
    obtain l ys where l: "rowSetNDeepTree xs (d - 1) = (l, ys)" by fastforce
    have xs: "inorder l @ ys = xs" using less [of "d - 1" xs] False l by simp
    show ?thesis
    proof (cases ys)
      case Nil
      then show ?thesis using False l xs by (cases xs) (auto simp: rowSetNDeepTree.simps [of _ d])
    next
      case (Cons p zs)
      obtain r us where r: "rowSetNDeepTree zs (d - 1) = (r, us)" by fastforce
      have "inorder r @ us = zs" using less [of "d - 1" zs] False r by simp
      then show ?thesis using False l xs r Cons by (cases xs) (auto simp: rowSetNDeepTree.simps [of _ d])
    qed
  qed
qed

lemma ndeep_length [termination_simp]: "length (snd (rowSetNDeepTree xs d)) \<le> length xs"
  using ndeep_inorder [of xs d] by (metis le_add2 length_append)

fun listToTree_loop :: "nat \<Rightarrow> int tree \<Rightarrow> int list \<Rightarrow> int tree" where
  "listToTree_loop iDepth p [] = p"
| "listToTree_loop iDepth p (v # pList) =
     (let t = rowSetNDeepTree pList iDepth
      in listToTree_loop (iDepth + 1) (Node p v (fst t)) (snd t))"

definition rowSetListToTree :: "int list \<Rightarrow> int tree" where
  "rowSetListToTree pList = listToTree_loop 1 (Node Leaf (hd pList) Leaf) (tl pList)"

text \<open>
  Extraction of the least element: \<open>Some v\<close> for the result 1, \<open>None\<close> for the result 0; the outer
  option is \<open>None\<close> when the sort runs past its buckets.
\<close>
definition sqlite3RowSetNext :: "rowset \<Rightarrow> allocator \<Rightarrow> (int option \<times> rowset \<times> allocator) option" where
  "sqlite3RowSetNext p al =
     (let q = (if rsFlags p AND ROWSET_NEXT = 0 then
                 (case (if rsFlags p AND ROWSET_SORTED = 0 then rowSetEntrySort (pEntry p) else Some (pEntry p)) of
                    None \<Rightarrow> None
                  | Some xs \<Rightarrow> Some (p\<lparr>pEntry := xs, rsFlags := rsFlags p OR (ROWSET_SORTED OR ROWSET_NEXT)\<rparr>))
               else Some p)
      in case q of None \<Rightarrow> None | Some p \<Rightarrow>
        (case pEntry p of
           [] \<Rightarrow> Some (None, p, al)
         | v # vs \<Rightarrow>
             let p = p\<lparr>pEntry := vs\<rparr>
             in if vs = [] then case sqlite3RowSetClear p al of (p, al) \<Rightarrow> Some (Some v, p, al)
                else Some (Some v, p, al)))"

text \<open>
  The loop over the forest in \<open>sqlite3RowSetTest\<close>: the result is the changed forest and, when no
  entry of it was free, the list that still has to be stored.
\<close>
fun forest_add :: "int tree list \<Rightarrow> int list \<Rightarrow> int tree list \<times> int list option" where
  "forest_add [] p = ([], Some p)"
| "forest_add (pTree # ts) p =
     (if pTree = Leaf then (rowSetListToTree p # ts, None)
      else case forest_add ts (rowSetEntryMerge (rowSetTreeToList pTree) p) of (ts, r) \<Rightarrow> (Leaf # ts, r))"

definition new_batch :: "rowset \<Rightarrow> int \<Rightarrow> allocator \<Rightarrow> (rowset \<times> allocator) option" where
  "new_batch p batch al =
     (if pEntry p \<noteq> [] then
        case (if rsFlags p AND ROWSET_SORTED = 0 then rowSetEntrySort (pEntry p) else Some (pEntry p)) of
          None \<Rightarrow> None
        | Some xs \<Rightarrow>
            (case forest_add (pForest p) xs of (ts, r) \<Rightarrow>
               let p = p\<lparr>pForest := ts\<rparr>;
                   (p, al) = (case r of
                       None \<Rightarrow> (p, al)
                     | Some xs \<Rightarrow> (case rowSetEntryAlloc p al of (ok, p, al) \<Rightarrow>
                         (if ok then p\<lparr>pForest := pForest p @ [rowSetListToTree xs]\<rparr> else p, al)))
               in Some (p\<lparr>pEntry := [], pLast := None, rsFlags := rsFlags p OR ROWSET_SORTED,
                          iBatch := batch\<rparr>, al))
      else Some (p\<lparr>iBatch := batch\<rparr>, al))"

fun tree_search :: "int tree \<Rightarrow> int \<Rightarrow> bool" where
  "tree_search Leaf iRowid = False"
| "tree_search (Node pLeft v pRight) iRowid =
     (if v < iRowid then tree_search pRight iRowid
      else if v > iRowid then tree_search pLeft iRowid
      else True)"

fun forest_search :: "int tree list \<Rightarrow> int \<Rightarrow> bool" where
  "forest_search [] iRowid = False"
| "forest_search (pTree # ts) iRowid = (if tree_search pTree iRowid then True else forest_search ts iRowid)"

definition sqlite3RowSetTest :: "rowset \<Rightarrow> int \<Rightarrow> int \<Rightarrow> allocator \<Rightarrow> (bool \<times> rowset \<times> allocator) option" where
  "sqlite3RowSetTest p batch iRowid al =
     (case (if batch \<noteq> iBatch p then new_batch p batch al else Some (p, al)) of
        None \<Rightarrow> None
      | Some (p, al) \<Rightarrow> Some (forest_search (pForest p) iRowid, p, al))"

section \<open>Merging and sorting\<close>

abbreviation ascending :: "int list \<Rightarrow> bool" where
  "ascending \<equiv> sorted_wrt (<)"

lemma merge_set [simp]: "set (rowSetEntryMerge xs ys) = set xs \<union> set ys"
  by (induction xs ys rule: rowSetEntryMerge.induct) auto

lemma merge_ascending: "ascending xs \<Longrightarrow> ascending ys \<Longrightarrow> ascending (rowSetEntryMerge xs ys)"
  by (induction xs ys rule: rowSetEntryMerge.induct) auto

lemma merge_Nil [simp]: "rowSetEntryMerge xs ys = [] \<longleftrightarrow> xs = [] \<and> ys = []"
  using merge_set [of xs ys] by (metis Un_empty set_empty)

lemma merge_Nil2 [simp]: "rowSetEntryMerge xs [] = xs"
  by (cases xs) simp_all

text \<open>The buckets count the insertions in binary, so they overflow at \<open>2 ^ 40\<close>.\<close>

fun counter :: "int list list \<Rightarrow> nat" where
  "counter [] = 0"
| "counter (b # bs) = (if b = [] then 0 else 1) + 2 * counter bs"

lemma put_bucket_counts:
  "p \<noteq> [] \<Longrightarrow> Suc (counter bs) < 2 ^ length bs \<Longrightarrow> \<exists>cs. put_bucket bs p = Some cs \<and>
     counter cs = Suc (counter bs) \<and> length cs = length bs \<and>
     \<Union>(set ` set cs) = set p \<union> \<Union>(set ` set bs) \<and>
     (ascending p \<longrightarrow> (\<forall>b\<in>set bs. ascending b) \<longrightarrow> (\<forall>b\<in>set cs. ascending b))"
proof (induction bs arbitrary: p)
  case (Cons b bs)
  show ?case
  proof (cases "b = []")
    case False
    have "Suc (counter bs) < 2 ^ length bs" using Cons.prems(2) False by simp
    from Cons.IH [OF _ this, of "rowSetEntryMerge b p"] obtain cs where
      cs: "put_bucket bs (rowSetEntryMerge b p) = Some cs" "counter cs = Suc (counter bs)" "length cs = length bs"
        "\<Union>(set ` set cs) = set (rowSetEntryMerge b p) \<union> \<Union>(set ` set bs)"
        "ascending (rowSetEntryMerge b p) \<longrightarrow> (\<forall>b\<in>set bs. ascending b) \<longrightarrow> (\<forall>b\<in>set cs. ascending b)"
      using False by auto
    have "\<Union>(set ` set ([] # cs)) = set p \<union> \<Union>(set ` set (b # bs))" using cs(4) by auto
    moreover have "ascending p \<longrightarrow> (\<forall>b\<in>set (b # bs). ascending b) \<longrightarrow> (\<forall>b\<in>set ([] # cs). ascending b)"
    proof (intro impI)
      assume asc: "ascending p" "\<forall>b\<in>set (b # bs). ascending b"
      then have "ascending b" "\<forall>b\<in>set bs. ascending b" by simp_all
      then have "\<forall>b\<in>set cs. ascending b" using cs(5) merge_ascending asc(1) by blast
      then show "\<forall>b\<in>set ([] # cs). ascending b" by simp
    qed
    moreover have "put_bucket (b # bs) p = Some ([] # cs)" "counter ([] # cs) = Suc (counter (b # bs))"
      "length ([] # cs) = length (b # bs)"
      using cs(1-3) False by simp_all
    ultimately show ?thesis by blast
  qed (use Cons.prems in auto)
qed simp

lemma fill_buckets_counts:
  "counter bs + length xs < 2 ^ length bs \<Longrightarrow> \<forall>b\<in>set bs. ascending b \<Longrightarrow>
    \<exists>cs. fill_buckets bs xs = Some cs \<and> length cs = length bs \<and>
      \<Union>(set ` set cs) = set xs \<union> \<Union>(set ` set bs) \<and> (\<forall>b\<in>set cs. ascending b)"
proof (induction xs arbitrary: bs)
  case (Cons v xs)
  then obtain cs where cs: "put_bucket bs [v] = Some cs" "counter cs = Suc (counter bs)"
      "length cs = length bs" "\<Union>(set ` set cs) = set [v] \<union> \<Union>(set ` set bs)" "\<forall>b\<in>set cs. ascending b"
    using put_bucket_counts [of "[v]" bs] by auto
  have "counter cs + length xs < 2 ^ length cs" using cs(2,3) Cons.prems(1) by simp
  from Cons.IH [OF this cs(5)] show ?case using cs by auto
qed simp

lemma collapse_buckets:
  "ascending p \<Longrightarrow> \<forall>b\<in>set bs. ascending b \<Longrightarrow>
    ascending (foldl (\<lambda>p b. if b = [] then p else if p \<noteq> [] then rowSetEntryMerge p b else b) p bs) \<and>
    set (foldl (\<lambda>p b. if b = [] then p else if p \<noteq> [] then rowSetEntryMerge p b else b) p bs)
      = set p \<union> \<Union>(set ` set bs)"
  by (induction bs arbitrary: p) (auto simp: merge_ascending)

lemma counter_empty [simp]: "counter (replicate n []) = 0"
  by (induction n) simp_all

lemma sort_ascending:
  assumes "length xs < 2 ^ 40"
  shows "\<exists>ys. rowSetEntrySort xs = Some ys \<and> ascending ys \<and> set ys = set xs"
proof -
  obtain cs where cs: "fill_buckets (replicate 40 []) xs = Some cs" "length cs = 40"
      "\<Union>(set ` set cs) = set xs" "\<forall>b\<in>set cs. ascending b"
    using fill_buckets_counts [of "replicate 40 []" xs] assms by auto
  then obtain c ds where "cs = c # ds" by (cases cs) auto
  then show ?thesis using cs collapse_buckets [of c ds] by (auto simp: rowSetEntrySort_def)
qed

lemma ascending_unique: "ascending xs \<Longrightarrow> set xs = A \<Longrightarrow> xs = sorted_list_of_set A"
  by (metis sorted_list_of_set.idem_if_sorted_distinct strict_sorted_iff)

lemma sort_is_sorted_set:
  "length xs < 2 ^ 40 \<Longrightarrow> rowSetEntrySort xs = Some (sorted_list_of_set (set xs))"
  using sort_ascending ascending_unique by blast

section \<open>Trees\<close>

lemma treeToList_inorder [simp]: "rowSetTreeToList t = inorder t"
  by (induction t) auto

text \<open>A tree that left a rest is complete, so the depth is logarithmic.\<close>

lemma ndeep_height:
  "0 < d \<Longrightarrow> height (fst (rowSetNDeepTree xs d)) \<le> d \<and>
    (snd (rowSetNDeepTree xs d) \<noteq> [] \<longrightarrow> complete (fst (rowSetNDeepTree xs d)) \<and>
       height (fst (rowSetNDeepTree xs d)) = d)"
proof (induction d arbitrary: xs rule: less_induct)
  case (less d)
  show ?case
  proof (cases "xs = [] \<or> d = 1")
    case True
    then show ?thesis using less.prems by (cases xs) (auto simp: rowSetNDeepTree.simps)
  next
    case False
    obtain l ys where l: "rowSetNDeepTree xs (d - 1) = (l, ys)" by fastforce
    have hl: "height l \<le> d - 1" "ys \<noteq> [] \<longrightarrow> complete l \<and> height l = d - 1"
      using less.IH [of "d - 1" xs] less.prems False l by auto
    show ?thesis
    proof (cases ys)
      case Nil
      then show ?thesis using False l hl less.prems by (cases xs) (auto simp: rowSetNDeepTree.simps [of _ d])
    next
      case (Cons p zs)
      obtain r us where r: "rowSetNDeepTree zs (d - 1) = (r, us)" by fastforce
      have "height r \<le> d - 1" "us \<noteq> [] \<longrightarrow> complete r \<and> height r = d - 1"
        using less.IH [of "d - 1" zs] less.prems False r by auto
      then show ?thesis using False l hl r Cons less.prems
        by (cases xs) (auto simp: rowSetNDeepTree.simps [of _ d])
    qed
  qed
qed

lemma listToTree_loop_inorder: "inorder (listToTree_loop d p xs) = inorder p @ xs"
proof (induction d p xs rule: listToTree_loop.induct)
  case (2 d p v xs)
  then show ?case using ndeep_inorder [of xs d] by (simp add: Let_def)
qed simp

lemma listToTree_inorder: "xs \<noteq> [] \<Longrightarrow> inorder (rowSetListToTree xs) = xs"
  by (simp add: rowSetListToTree_def listToTree_loop_inorder)

lemma listToTree_set: "xs \<noteq> [] \<Longrightarrow> set_tree (rowSetListToTree xs) = set xs"
  using listToTree_inorder set_inorder by metis

lemma listToTree_loop_height:
  "0 < d \<Longrightarrow> height p = d \<Longrightarrow> 2 ^ d \<le> 2 * size p \<Longrightarrow> xs \<noteq> [] \<longrightarrow> complete p \<Longrightarrow>
    2 ^ height (listToTree_loop d p xs) \<le> 2 * size (listToTree_loop d p xs)"
proof (induction d p xs rule: listToTree_loop.induct)
  case (2 d p v xs)
  obtain r us where r: "rowSetNDeepTree xs d = (r, us)" by fastforce
  have hr: "height r \<le> d" "us \<noteq> [] \<longrightarrow> complete r \<and> height r = d"
    using ndeep_height [OF "2.prems"(1), of xs] r by auto
  have p: "complete p" using "2.prems"(4) by simp
  have "size p + 1 = 2 ^ d" using size1_if_complete [OF p] "2.prems"(2) by (simp add: size1_size)
  then have "2 ^ Suc d \<le> 2 * size (Node p v r)" by simp
  moreover have "height (Node p v r) = Suc d" using hr(1) "2.prems"(2) by simp
  moreover have "us \<noteq> [] \<longrightarrow> complete (Node p v r)" using hr(2) p "2.prems"(2) by simp
  ultimately show ?case using "2.IH" r by (simp add: Let_def)
qed simp

lemma listToTree_height: "xs \<noteq> [] \<Longrightarrow> 2 ^ height (rowSetListToTree xs) \<le> 2 * length xs"
proof -
  assume "xs \<noteq> []"
  then have "size (rowSetListToTree xs) = length xs"
    using listToTree_inorder length_inorder by metis
  then show ?thesis using listToTree_loop_height [of 1 "Node Leaf (hd xs) Leaf" "tl xs"]
    by (simp add: rowSetListToTree_def)
qed

lemma search_bst: "ascending (inorder t) \<Longrightarrow> tree_search t v \<longleftrightarrow> v \<in> set_tree t"
  by (induction t) (auto simp: sorted_wrt_append)

lemma forest_search_set:
  "\<forall>t\<in>set ts. ascending (inorder t) \<Longrightarrow> forest_search ts v \<longleftrightarrow> (\<exists>t\<in>set ts. v \<in> set_tree t)"
  by (induction ts) (auto simp: search_bst)

section \<open>The collection\<close>

definition rs_inv :: "rowset \<Rightarrow> bool" where
  "rs_inv p \<longleftrightarrow> (\<forall>t\<in>set (pForest p). ascending (inorder t)) \<and>
     (rsFlags p = 0 \<or> rsFlags p = ROWSET_SORTED \<and> ascending (pEntry p)) \<and>
     pLast p = (if pEntry p = [] then None else Some (last (pEntry p)))"

definition seen :: "rowset \<Rightarrow> int set" where
  "seen p = (\<Union>t\<in>set (pForest p). set_tree t)"

lemmas flag_defs = ROWSET_SORTED_def ROWSET_NEXT_def

lemma entryAlloc_cases:
  assumes "rowSetEntryAlloc p al = (ok, p', al')"
  shows "pEntry p' = pEntry p" "pLast p' = pLast p" "pForest p' = pForest p" "rsFlags p' = rsFlags p"
    "iBatch p' = iBatch p" "live al' + pChunk p = live al + pChunk p'" "plenty al \<Longrightarrow> ok \<and> plenty al'"
  using assms live_alloc [of al] plenty_alloc [of al]
  by (auto simp: rowSetEntryAlloc_def split: if_splits prod.splits)

lemma ascending_snoc: "ascending xs \<Longrightarrow> xs = [] \<or> last xs < v \<Longrightarrow> ascending (xs @ [v])"
  by (cases xs rule: rev_cases) (auto simp: sorted_wrt_append)

lemma insert_effect:
  assumes "rs_inv p" "sqlite3RowSetInsert p v al = (p', al')"
  shows "rs_inv p'" "pForest p' = pForest p" "iBatch p' = iBatch p"
    "live al' + pChunk p = live al + pChunk p'"
    "pEntry p' = pEntry p @ [v] \<or> pEntry p' = pEntry p"
    "plenty al \<Longrightarrow> pEntry p' = pEntry p @ [v] \<and> plenty al'"
proof -
  obtain ok q al1 where q: "rowSetEntryAlloc p al = (ok, q, al1)" by (metis prod_cases3)
  note c = entryAlloc_cases [OF q]
  have last: "pLast q = (if pEntry q = [] then None else Some (last (pEntry q)))"
    and flags: "rsFlags q = 0 \<or> rsFlags q = ROWSET_SORTED \<and> ascending (pEntry q)"
    using assms(1) c by (simp_all add: rs_inv_def)
  show "rs_inv p'" "pForest p' = pForest p" "iBatch p' = iBatch p"
    "live al' + pChunk p = live al + pChunk p'" "pEntry p' = pEntry p @ [v] \<or> pEntry p' = pEntry p"
    "plenty al \<Longrightarrow> pEntry p' = pEntry p @ [v] \<and> plenty al'"
  proof -
    consider (full) "\<not> ok" "p' = q" "al' = al1"
      | (one) "ok" "pEntry q = []" "p' = q\<lparr>pEntry := [v], pLast := Some v\<rparr>" "al' = al1"
      | (more) "ok" "pEntry q \<noteq> []" "al' = al1" "p' = q\<lparr>rsFlags := (if v \<le> last (pEntry q) then rsFlags q AND NOT ROWSET_SORTED
             else rsFlags q), pEntry := pEntry q @ [v], pLast := Some v\<rparr>"
    proof (cases ok)
      case True
      show thesis
      proof (cases "pEntry q = []")
        case nil: True
        show thesis by (rule one) (use assms(2) q last True nil in \<open>simp_all add: sqlite3RowSetInsert_def Let_def\<close>)
      next
        case False
        show thesis by (rule more) (use assms(2) q last True False in \<open>simp_all add: sqlite3RowSetInsert_def Let_def\<close>)
      qed
    qed (rule full, use assms(2) q in \<open>simp_all add: sqlite3RowSetInsert_def\<close>)
    note cs = this
    have forest: "\<forall>t\<in>set (pForest q). ascending (inorder t)" using assms(1) c(3) by (simp add: rs_inv_def)
    show "rs_inv p'"
      using cs
    proof cases
      case full
      then show ?thesis using last flags forest by (simp add: rs_inv_def)
    next
      case one
      then show ?thesis using flags forest by (simp add: rs_inv_def)
    next
      case more
      then show ?thesis using flags forest ascending_snoc [of "pEntry q" v] by (auto simp: rs_inv_def flag_defs)
    qed
    show "pForest p' = pForest p" "iBatch p' = iBatch p" "live al' + pChunk p = live al + pChunk p'"
      "pEntry p' = pEntry p @ [v] \<or> pEntry p' = pEntry p"
      "plenty al \<Longrightarrow> pEntry p' = pEntry p @ [v] \<and> plenty al'"
      using c by (cases rule: cs; simp)+
  qed
qed

lemma forest_add_effect:
  assumes "forest_add ts xs = (us, r)" "xs \<noteq> []" "ascending xs" "\<forall>t\<in>set ts. ascending (inorder t)"
  shows "(\<forall>t\<in>set us. ascending (inorder t)) \<and>
    (case r of None \<Rightarrow> True | Some ys \<Rightarrow> ys \<noteq> [] \<and> ascending ys) \<and>
    (\<Union>t\<in>set us. set_tree t) \<union> (case r of None \<Rightarrow> {} | Some ys \<Rightarrow> set ys) = (\<Union>t\<in>set ts. set_tree t) \<union> set xs"
  using assms
proof (induction ts xs arbitrary: us r rule: forest_add.induct)
  case (2 t ts xs)
  show ?case
  proof (cases "t = Leaf")
    case True
    then show ?thesis using 2 listToTree_inorder [of xs] listToTree_set [of xs] by auto
  next
    case False
    obtain vs r' where vs: "forest_add ts (rowSetEntryMerge (rowSetTreeToList t) xs) = (vs, r')" by fastforce
    have "us = Leaf # vs" "r = r'" using 2(2) vs False by auto
    moreover have "ascending (rowSetEntryMerge (inorder t) xs)" using 2 merge_ascending by simp
    ultimately have "(\<forall>t\<in>set vs. ascending (inorder t)) \<and>
      (case r of None \<Rightarrow> True | Some ys \<Rightarrow> ys \<noteq> [] \<and> ascending ys) \<and>
      (\<Union>t\<in>set vs. set_tree t) \<union> (case r of None \<Rightarrow> {} | Some ys \<Rightarrow> set ys)
        = (\<Union>t\<in>set ts. set_tree t) \<union> (set_tree t \<union> set xs)"
      using 2(1) [OF False vs] 2(3,5) by simp
    then show ?thesis using \<open>us = Leaf # vs\<close> by (simp add: Un_ac)
  qed
qed auto

lemma sorted_entries:
  assumes "rs_inv p" "length (pEntry p) < 2 ^ 40"
  shows "\<exists>xs. (if rsFlags p AND ROWSET_SORTED = 0 then rowSetEntrySort (pEntry p) else Some (pEntry p)) = Some xs \<and>
    ascending xs \<and> set xs = set (pEntry p)"
  using assms sort_ascending [of "pEntry p"] by (auto simp: rs_inv_def flag_defs)

lemma new_batch_effect:
  assumes inv: "rs_inv p" and len: "length (pEntry p) < 2 ^ 40"
  shows "\<exists>p' al'. new_batch p batch al = Some (p', al') \<and> rs_inv p' \<and> pEntry p' = [] \<and> iBatch p' = batch \<and>
    live al' + pChunk p = live al + pChunk p' \<and> seen p' \<subseteq> seen p \<union> set (pEntry p) \<and>
    (plenty al \<longrightarrow> seen p' = seen p \<union> set (pEntry p) \<and> plenty al')"
proof (cases "pEntry p = []")
  case True
  then show ?thesis using inv by (auto simp: new_batch_def rs_inv_def seen_def)
next
  case False
  obtain xs where xs: "(if rsFlags p AND ROWSET_SORTED = 0 then rowSetEntrySort (pEntry p) else Some (pEntry p)) = Some xs"
      "ascending xs" "set xs = set (pEntry p)"
    using sorted_entries [OF inv len] by blast
  obtain ts r where ts: "forest_add (pForest p) xs = (ts, r)" by fastforce
  have "xs \<noteq> []" using xs(3) False by auto
  then have add: "\<forall>t\<in>set ts. ascending (inorder t)" "case r of None \<Rightarrow> True | Some ys \<Rightarrow> ys \<noteq> [] \<and> ascending ys"
      "(\<Union>t\<in>set ts. set_tree t) \<union> (case r of None \<Rightarrow> {} | Some ys \<Rightarrow> set ys) = seen p \<union> set (pEntry p)"
    using forest_add_effect [OF ts _ xs(2)] inv xs(3) by (simp_all add: rs_inv_def seen_def)
  have flags: "rsFlags p OR ROWSET_SORTED = ROWSET_SORTED" using inv by (auto simp: rs_inv_def flag_defs)
  let ?p = "p\<lparr>pForest := ts\<rparr>"
  show ?thesis
  proof (cases r)
    case None
    have "new_batch p batch al = Some (?p\<lparr>pEntry := [], pLast := None, rsFlags := ROWSET_SORTED, iBatch := batch\<rparr>, al)"
      using False xs(1) ts None flags by (simp add: new_batch_def)
    then show ?thesis using add None by (auto simp: rs_inv_def seen_def)
  next
    case (Some ys)
    obtain ok q al1 where q: "rowSetEntryAlloc ?p al = (ok, q, al1)" by (metis prod_cases3)
    note c = entryAlloc_cases [OF q]
    have ys: "inorder (rowSetListToTree ys) = ys" "set_tree (rowSetListToTree ys) = set ys" "ascending ys"
      using add(2) Some listToTree_inorder listToTree_set by simp_all
    define q' where "q' = (if ok then q\<lparr>pForest := pForest q @ [rowSetListToTree ys]\<rparr> else q)
       \<lparr>pEntry := [], pLast := None, rsFlags := ROWSET_SORTED, iBatch := batch\<rparr>"
    have "new_batch p batch al = Some (q', al1)"
      using False xs(1) ts Some flags q c(4) by (simp add: new_batch_def q'_def)
    moreover have "rs_inv q'" using add(1) ys c(3) by (auto simp: q'_def rs_inv_def)
    moreover have "seen q' \<subseteq> seen p \<union> set (pEntry p)" "ok \<Longrightarrow> seen q' = seen p \<union> set (pEntry p)"
      using add(3) Some ys(2) c(3) by (auto simp: q'_def seen_def)
    moreover have "pEntry q' = []" "iBatch q' = batch" "pChunk q' = pChunk q" by (simp_all add: q'_def)
    ultimately show ?thesis using c(6,7) by auto
  qed
qed

lemma test_effect:
  assumes "rs_inv p" "length (pEntry p) < 2 ^ 40"
  shows "\<exists>p' al'. sqlite3RowSetTest p batch v al = Some (v \<in> seen p', p', al') \<and> rs_inv p' \<and>
    live al' + pChunk p = live al + pChunk p' \<and> iBatch p' = batch \<and>
    (if batch = iBatch p then p' = p \<and> al' = al
     else pEntry p' = [] \<and> seen p' \<subseteq> seen p \<union> set (pEntry p) \<and>
       (plenty al \<longrightarrow> seen p' = seen p \<union> set (pEntry p) \<and> plenty al'))"
proof -
  have search: "forest_search (pForest q) v \<longleftrightarrow> v \<in> seen q" if "rs_inv q" for q
    using that forest_search_set by (simp add: rs_inv_def seen_def)
  show ?thesis
    using new_batch_effect [OF assms, of batch al] assms(1) search
    by (cases "batch = iBatch p") (auto simp: sqlite3RowSetTest_def)
qed

text \<open>
  The batch contract: what was inserted becomes visible to a test when the batch number
  changes, and not before.
\<close>

datatype rowset_op = Insert int | Test int int

fun rowset_run :: "('s \<Rightarrow> int \<Rightarrow> allocator \<Rightarrow> 's \<times> allocator) \<Rightarrow>
    ('s \<Rightarrow> int \<Rightarrow> int \<Rightarrow> allocator \<Rightarrow> (bool \<times> 's \<times> allocator) option) \<Rightarrow>
    rowset_op list \<Rightarrow> 's \<Rightarrow> allocator \<Rightarrow> (bool list \<times> 's \<times> allocator) option" where
  "rowset_run ins tst [] s al = Some ([], s, al)"
| "rowset_run ins tst (Insert v # ops) s al = (case ins s v al of (s, al) \<Rightarrow> rowset_run ins tst ops s al)"
| "rowset_run ins tst (Test b v # ops) s al = (case tst s b v al of None \<Rightarrow> None
     | Some (r, s, al) \<Rightarrow> map_option (\<lambda>(rs, s, al). (r # rs, s, al)) (rowset_run ins tst ops s al))"

fun batch_spec :: "rowset_op list \<Rightarrow> int set \<Rightarrow> int set \<Rightarrow> int \<Rightarrow> bool list" where
  "batch_spec [] S P b = []"
| "batch_spec (Insert v # ops) S P b = batch_spec ops S (insert v P) b"
| "batch_spec (Test b' v # ops) S P b =
     (if b' = b then (v \<in> S) # batch_spec ops S P b
      else (v \<in> S \<union> P) # batch_spec ops (S \<union> P) {} b')"

locale batch_set =
  fixes invar :: "'s \<Rightarrow> bool" and visible :: "'s \<Rightarrow> int set" and waiting :: "'s \<Rightarrow> int list"
    and batch :: "'s \<Rightarrow> int" and blocks :: "'s \<Rightarrow> nat"
    and ins :: "'s \<Rightarrow> int \<Rightarrow> allocator \<Rightarrow> 's \<times> allocator"
    and tst :: "'s \<Rightarrow> int \<Rightarrow> int \<Rightarrow> allocator \<Rightarrow> (bool \<times> 's \<times> allocator) option"
  assumes ins_inv: "invar s \<Longrightarrow> ins s v al = (s', al') \<Longrightarrow> invar s' \<and> visible s' = visible s \<and>
      batch s' = batch s \<and> live al' + blocks s = live al + blocks s' \<and> length (waiting s') \<le> Suc (length (waiting s)) \<and>
      (plenty al \<longrightarrow> waiting s' = waiting s @ [v] \<and> plenty al')"
    and tst_inv: "invar s \<Longrightarrow> length (waiting s) < 2 ^ 40 \<Longrightarrow> \<exists>s' al'. tst s b v al = Some (v \<in> visible s', s', al') \<and>
      invar s' \<and> live al' + blocks s = live al + blocks s' \<and> batch s' = b \<and>
      (if b = batch s then s' = s \<and> al' = al
       else waiting s' = [] \<and> (plenty al \<longrightarrow> visible s' = visible s \<union> set (waiting s) \<and> plenty al'))"
begin

text \<open>Whatever the allocator does the run ends, keeps the invariant and accounts for its blocks.\<close>

lemma run_safe:
  "invar s \<Longrightarrow> length (waiting s) + length ops < 2 ^ 40 \<Longrightarrow>
    \<exists>rs s' al'. rowset_run ins tst ops s al = Some (rs, s', al') \<and> invar s' \<and>
      live al' + blocks s = live al + blocks s' \<and>
      (plenty al \<longrightarrow> rs = batch_spec ops (visible s) (set (waiting s)) (batch s))"
proof (induction ops arbitrary: s al)
  case (Cons op ops)
  show ?case
  proof (cases op)
    case (Insert v)
    obtain s1 al1 where s1: "ins s v al = (s1, al1)" by fastforce
    note eff = ins_inv [OF Cons.prems(1) s1]
    show ?thesis using Cons.IH [of s1 al1] eff s1 Cons.prems Insert by fastforce
  next
    case (Test b v)
    obtain s1 al1 where s1: "tst s b v al = Some (v \<in> visible s1, s1, al1)" "invar s1"
        "live al1 + blocks s = live al + blocks s1" "batch s1 = b"
        "if b = batch s then s1 = s \<and> al1 = al else waiting s1 = [] \<and>
          (plenty al \<longrightarrow> visible s1 = visible s \<union> set (waiting s) \<and> plenty al1)"
      using tst_inv [OF Cons.prems(1), of b v al] Cons.prems(2) by auto
    have "length (waiting s1) + length ops < 2 ^ 40" using s1(5) Cons.prems(2) by (auto split: if_splits)
    from Cons.IH [OF s1(2) this, of al1] obtain rs s' al' where
      r: "rowset_run ins tst ops s1 al1 = Some (rs, s', al')" "invar s'" "live al' + blocks s1 = live al1 + blocks s'"
        "plenty al1 \<longrightarrow> rs = batch_spec ops (visible s1) (set (waiting s1)) (batch s1)" by blast
    have "plenty al \<longrightarrow> (v \<in> visible s1) # rs = batch_spec (op # ops) (visible s) (set (waiting s)) (batch s)"
      using r(4) s1(4,5) Test by (auto split: if_splits)
    then show ?thesis using r s1 Test by auto
  qed
qed simp

end

interpretation rowset: batch_set rs_inv seen pEntry iBatch pChunk sqlite3RowSetInsert sqlite3RowSetTest
proof unfold_locales
  fix s s' :: rowset and v b :: int and al al' :: allocator
  assume "rs_inv s"
  then show "length (pEntry s) < 2 ^ 40 \<Longrightarrow> \<exists>s' al'. sqlite3RowSetTest s b v al = Some (v \<in> seen s', s', al') \<and>
      rs_inv s' \<and> live al' + pChunk s = live al + pChunk s' \<and> iBatch s' = b \<and>
      (if b = iBatch s then s' = s \<and> al' = al
       else pEntry s' = [] \<and> (plenty al \<longrightarrow> seen s' = seen s \<union> set (pEntry s) \<and> plenty al'))"
    using test_effect [of s b v al] by (cases "b = iBatch s") auto
  assume i: "sqlite3RowSetInsert s v al = (s', al')"
  show "rs_inv s' \<and> seen s' = seen s \<and> iBatch s' = iBatch s \<and> live al' + pChunk s = live al + pChunk s' \<and>
      length (pEntry s') \<le> Suc (length (pEntry s)) \<and> (plenty al \<longrightarrow> pEntry s' = pEntry s @ [v] \<and> plenty al')"
    using insert_effect [OF \<open>rs_inv s\<close> i] by (auto simp: seen_def)
qed

section \<open>Extraction in order\<close>

text \<open>At most \<open>n\<close> calls of \<open>sqlite3RowSetNext\<close>, up to the one that reports the end.\<close>
fun drain :: "nat \<Rightarrow> rowset \<Rightarrow> allocator \<Rightarrow> (int list \<times> bool \<times> rowset \<times> allocator) option" where
  "drain 0 p al = Some ([], False, p, al)"
| "drain (Suc n) p al = (case sqlite3RowSetNext p al of
     None \<Rightarrow> None
   | Some (None, p, al) \<Rightarrow> Some ([], True, p, al)
   | Some (Some v, p, al) \<Rightarrow> map_option (\<lambda>(vs, d, p, al). (v # vs, d, p, al)) (drain n p al))"

lemma live_frees [simp]: "live ((free_block ^^ n) al) = live al - n"
  by (induction n) simp_all

definition emptied :: "rowset \<Rightarrow> bool" where
  "emptied p \<longleftrightarrow> pEntry p = [] \<and> pChunk p = 0"

lemma clear_emptied: "sqlite3RowSetClear p al = (p', al') \<Longrightarrow> emptied p' \<and> live al' = live al - pChunk p
    \<and> rsFlags p' = ROWSET_SORTED"
  by (auto simp: sqlite3RowSetClear_def emptied_def)

lemma next_end: "emptied p \<Longrightarrow> rsFlags p = ROWSET_SORTED \<Longrightarrow>
    \<exists>p'. sqlite3RowSetNext p al = Some (None, p', al) \<and> emptied p'"
  by (simp add: sqlite3RowSetNext_def emptied_def Let_def flag_defs)

lemma next_sorted:
  assumes "rsFlags p = ROWSET_SORTED OR ROWSET_NEXT" "pEntry p = v # vs"
  shows "sqlite3RowSetNext p al = (if vs = [] then case sqlite3RowSetClear (p\<lparr>pEntry := vs\<rparr>) al of (p, al) \<Rightarrow> Some (Some v, p, al)
    else Some (Some v, p\<lparr>pEntry := vs\<rparr>, al))"
  using assms by (simp add: sqlite3RowSetNext_def Let_def flag_defs)

lemma drain_sorted:
  "rsFlags p = ROWSET_SORTED OR ROWSET_NEXT \<Longrightarrow> pEntry p = v # vs \<Longrightarrow> length vs < n \<Longrightarrow>
    \<exists>p' al'. drain (Suc n) p al = Some (v # vs, True, p', al') \<and> emptied p' \<and> live al' = live al - pChunk p"
proof (induction vs arbitrary: p v n)
  case Nil
  obtain p1 al1 where c: "sqlite3RowSetClear (p\<lparr>pEntry := []\<rparr>) al = (p1, al1)" by fastforce
  note e = clear_emptied [OF c]
  obtain m where "n = Suc m" using Nil(3) by (cases n) auto
  moreover obtain p' where "sqlite3RowSetNext p1 al1 = Some (None, p', al1)" "emptied p'"
    using next_end e by blast
  ultimately show ?case using next_sorted [OF Nil(1,2), of al] c e by (intro exI [of _ p'] exI [of _ al1]) simp
next
  case (Cons w ws)
  obtain m where m: "n = Suc m" "length ws < m" using Cons.prems(3) by (cases n) auto
  let ?p = "p\<lparr>pEntry := w # ws\<rparr>"
  obtain p' al' where d: "drain (Suc m) ?p al = Some (w # ws, True, p', al')" "emptied p'" "live al' = live al - pChunk p"
    using Cons.IH [of ?p w m] m(2) Cons.prems(1) by auto
  have "sqlite3RowSetNext p al = Some (Some v, ?p, al)"
    using next_sorted [OF Cons.prems(1,2), of al] by simp
  then show ?case using d m(1) by (simp only: drain.simps) simp
qed

text \<open>The first call sorts.\<close>

lemma next_first:
  assumes "rs_inv p" "length (pEntry p) < 2 ^ 40"
  shows "\<exists>q. sqlite3RowSetNext p al = sqlite3RowSetNext q al \<and> rsFlags q = ROWSET_SORTED OR ROWSET_NEXT \<and>
    ascending (pEntry q) \<and> set (pEntry q) = set (pEntry p) \<and> pChunk q = pChunk p"
proof -
  obtain xs where xs: "(if rsFlags p AND ROWSET_SORTED = 0 then rowSetEntrySort (pEntry p) else Some (pEntry p)) = Some xs"
      "ascending xs" "set xs = set (pEntry p)"
    using sorted_entries [OF assms] by blast
  let ?q = "p\<lparr>pEntry := xs, rsFlags := ROWSET_SORTED OR ROWSET_NEXT\<rparr>"
  have flags: "rsFlags p AND ROWSET_NEXT = 0" "rsFlags p OR (ROWSET_SORTED OR ROWSET_NEXT) = ROWSET_SORTED OR ROWSET_NEXT"
    "(ROWSET_SORTED OR ROWSET_NEXT) AND ROWSET_NEXT \<noteq> 0"
    using assms(1) by (auto simp: rs_inv_def flag_defs)
  have "sqlite3RowSetNext p al = sqlite3RowSetNext ?q al"
    unfolding sqlite3RowSetNext_def using xs(1) flags by (simp add: Let_def)
  then show ?thesis using xs(2,3) by (intro exI [of _ ?q]) simp
qed

lemma drain_all:
  assumes "rs_inv p" "length (pEntry p) < 2 ^ 40" "card (set (pEntry p)) < n" "pEntry p \<noteq> []"
  shows "\<exists>p' al'. drain n p al = Some (sorted_list_of_set (set (pEntry p)), True, p', al') \<and>
    emptied p' \<and> live al' = live al - pChunk p"
proof -
  obtain q where q: "sqlite3RowSetNext p al = sqlite3RowSetNext q al" "rsFlags q = ROWSET_SORTED OR ROWSET_NEXT"
      "ascending (pEntry q)" "set (pEntry q) = set (pEntry p)" "pChunk q = pChunk p"
    using next_first [OF assms(1,2)] by blast
  have sorted: "pEntry q = sorted_list_of_set (set (pEntry p))" using ascending_unique q(3,4) by blast
  then have "length (pEntry q) = card (set (pEntry p))" by simp
  then obtain v vs m where m: "pEntry q = v # vs" "n = Suc m" "length vs < m"
    using assms(3,4) q(4) by (cases "pEntry q"; cases n) auto
  have "drain (Suc m) p al = drain (Suc m) q al" using q(1) by simp
  then show ?thesis using drain_sorted [OF q(2) m(1,3), of al] m(1,2) sorted q(5) by simp
qed

section \<open>Properties\<close>

text \<open>
  C16. Insertions and tests in any order follow the batch contract: a test with the current
  batch number sees exactly the row ids inserted before the batch began, and a test with a new
  number sees all inserted so far.  When allocations fail the run still ends, the collection
  stays well formed, and in every case \<open>sqlite3RowSetDelete\<close> gives all memory back.
\<close>
theorem RowSet_batch_contract:
  assumes "length ops < 2 ^ 40" "sqlite3RowSetInit N al = (Some p, al1)"
  shows "\<exists>rs p' al'. rowset_run sqlite3RowSetInsert sqlite3RowSetTest ops p al1 = Some (rs, p', al') \<and>
    rs_inv p' \<and> live (sqlite3RowSetDelete p' al') = live al \<and>
    (plenty al1 \<longrightarrow> rs = batch_spec ops {} {} 0)"
proof -
  have p: "rs_inv p" "seen p = {}" "pEntry p = []" "iBatch p = 0" "pChunk p = 0" "live al1 = Suc (live al)"
    using assms(2) live_alloc [of al] by (auto simp: sqlite3RowSetInit_def rs_inv_def seen_def split: prod.splits if_splits)
  obtain rs p' al' where "rowset_run sqlite3RowSetInsert sqlite3RowSetTest ops p al1 = Some (rs, p', al')" "rs_inv p'"
      "live al' + pChunk p = live al1 + pChunk p'" "plenty al1 \<longrightarrow> rs = batch_spec ops {} {} 0"
    using rowset.run_safe [OF p(1), of ops al1] p(2-4) assms(1) by auto
  then show ?thesis using p(5,6) by (simp add: sqlite3RowSetDelete_def sqlite3RowSetClear_def)
qed

theorem RowSet_batch_contract_witness:
  "\<exists>rs p' al'. rowset_run sqlite3RowSetInsert sqlite3RowSetTest [Insert 7, Test 0 7, Test 1 7, Insert 3, Test 1 3]
      (the (fst (sqlite3RowSetInit 56 \<lparr>verdicts = [], live = 0\<rparr>))) \<lparr>verdicts = [], live = 1\<rparr> = Some (rs, p', al') \<and>
    rs = [False, True, False] \<and> live (sqlite3RowSetDelete p' al') = 0"
proof -
  obtain p where p: "sqlite3RowSetInit 56 \<lparr>verdicts = [], live = 0\<rparr> = (Some p, \<lparr>verdicts = [], live = 1\<rparr>)"
    by (simp add: sqlite3RowSetInit_def alloc_block_def)
  show ?thesis
    using RowSet_batch_contract [OF _ p, of "[Insert 7, Test 0 7, Test 1 7, Insert 3, Test 1 3]"] p
    by (auto simp: plenty_def)
qed

text \<open>
  Extraction: after the row ids \<open>xs\<close> were inserted, in any order and with repetitions,
  \<open>sqlite3RowSetNext\<close> yields each of them once in ascending order and then reports the end,
  at which point the memory of the entries has been released.  The forty buckets of the sort
  suffice below \<open>2 ^ 40\<close> insertions.
\<close>
theorem RowSet_extracts_sorted:
  assumes "length xs < 2 ^ 40" "xs \<noteq> []" "plenty al1" "sqlite3RowSetInit N al = (Some p, al1)"
    "fold (\<lambda>v (p, al). sqlite3RowSetInsert p v al) xs (p, al1) = (q, al2)"
  shows "\<exists>q' al'. drain (Suc (length xs)) q al2 = Some (sorted_list_of_set (set xs), True, q', al') \<and>
    live al' = Suc (live al)"
proof -
  have p: "rs_inv p" "pEntry p = []" "pChunk p = 0" "live al1 = Suc (live al)"
    using assms(4) live_alloc [of al] by (auto simp: sqlite3RowSetInit_def rs_inv_def split: prod.splits if_splits)
  have ins: "rs_inv s \<Longrightarrow> plenty a \<Longrightarrow> fold (\<lambda>v (p, al). sqlite3RowSetInsert p v al) ys (s, a) = (s', a') \<Longrightarrow>
      rs_inv s' \<and> pEntry s' = pEntry s @ ys \<and> live a' + pChunk s = live a + pChunk s'" for s a ys s' a'
  proof (induction ys arbitrary: s a)
    case (Cons y ys)
    obtain s1 a1 where s1: "sqlite3RowSetInsert s y a = (s1, a1)" by fastforce
    show ?case using insert_effect [OF Cons.prems(1) s1] Cons.IH [of s1 a1] Cons.prems s1 by auto
  qed simp
  have q: "rs_inv q" "pEntry q = xs" "live al2 = Suc (live al) + pChunk q"
    using ins [OF p(1) assms(3,5)] p by auto
  have "card (set xs) < Suc (length xs)" using card_length [of xs] by simp
  then show ?thesis using drain_all [of q "Suc (length xs)" al2] q assms(1,2) by auto
qed

theorem RowSet_extracts_sorted_witness:
  "\<exists>p al1 q al2 q' al'. sqlite3RowSetInit 56 \<lparr>verdicts = [], live = 0\<rparr> = (Some p, al1) \<and>
     fold (\<lambda>v (p, al). sqlite3RowSetInsert p v al) [5, 2, 5] (p, al1) = (q, al2) \<and>
     drain 4 q al2 = Some ([2, 5], True, q', al') \<and> live al' = 1"
proof -
  obtain p where p: "sqlite3RowSetInit 56 \<lparr>verdicts = [], live = 0\<rparr> = (Some p, \<lparr>verdicts = [], live = 1\<rparr>)"
    by (simp add: sqlite3RowSetInit_def alloc_block_def)
  obtain q al2 where q: "fold (\<lambda>v (p, al). sqlite3RowSetInsert p v al) [5, 2, 5] (p, \<lparr>verdicts = [], live = 1\<rparr>) = (q, al2)"
    by fastforce
  have sorted: "sorted_list_of_set (set [5, 2, 5 :: int]) = [2, 5]"
    by (rule ascending_unique [symmetric]) auto
  have four: "Suc (length [5, 2, 5 :: int]) = 4" and len: "length [5, 2, 5 :: int] < 2 ^ 40"
    and mem: "plenty \<lparr>verdicts = [], live = 1\<rparr>" by (simp_all add: plenty_def)
  from RowSet_extracts_sorted [OF len _ mem p q, unfolded sorted four]
  obtain q' al' where "drain 4 q al2 = Some ([2, 5], True, q', al')" "live al' = 1" by auto
  then show ?thesis using p q by blast
qed

text \<open>
  The tree built from a sorted list holds exactly the list in order and is balanced: with
  \<open>n\<close> entries its height is at most \<open>log\<^sub>2 n + 1\<close>, so a test of one tree takes that many steps.
\<close>
theorem rowSetListToTree_balanced:
  assumes "xs \<noteq> []"
  shows "inorder (rowSetListToTree xs) = xs \<and> 2 ^ height (rowSetListToTree xs) \<le> 2 * length xs"
  using listToTree_inorder [OF assms] listToTree_height [OF assms] by simp

theorem rowSetListToTree_balanced_witness:
  "inorder (rowSetListToTree [1, 2, 3, 4, 5]) = [1, 2, 3, 4, 5] \<and> 2 ^ height (rowSetListToTree [1, 2, 3, 4, 5]) \<le> (10 :: nat)"
  using rowSetListToTree_balanced [of "[1, 2, 3, 4, 5]"] by simp

end
