(* ===== verification/Complete.thy ===== *)
theory Complete
  imports Ctype
begin

text \<open>
  \<open>sqlite3_complete\<close> (\<open>src/db/sqlite3.c\<close>, \<open>complete.c\<close>): does a text end in a complete SQL
  statement?  The function scans tokens and runs a state machine with eight states; the theorem
  at the end compares it with a description of statements that has no states.
\<close>

section \<open>Tokens and transitions\<close>

definition tkSEMI :: nat where "tkSEMI = 0"
definition tkWS :: nat where "tkWS = 1"
definition tkOTHER :: nat where "tkOTHER = 2"
definition tkEXPLAIN :: nat where "tkEXPLAIN = 3"
definition tkCREATE :: nat where "tkCREATE = 4"
definition tkTEMP :: nat where "tkTEMP = 5"
definition tkTRIGGER :: nat where "tkTRIGGER = 6"
definition tkEND :: nat where "tkEND = 7"

lemmas tk_defs = tkSEMI_def tkWS_def tkOTHER_def tkEXPLAIN_def tkCREATE_def tkTEMP_def tkTRIGGER_def tkEND_def

definition trans :: "nat list list" where
  "trans =
     [[1, 0, 2, 3, 4, 2, 2, 2],
      [1, 1, 2, 3, 4, 2, 2, 2],
      [1, 2, 2, 2, 2, 2, 2, 2],
      [1, 3, 3, 2, 4, 2, 2, 2],
      [1, 4, 2, 2, 2, 4, 5, 2],
      [6, 5, 5, 5, 5, 5, 5, 5],
      [6, 6, 5, 5, 5, 5, 5, 7],
      [1, 7, 5, 5, 5, 5, 5, 5]]"

text \<open>What a turn of the loop does: return 0, return whether the state is 1, or a token and the rest.\<close>
datatype scan = Return_0 | Return_state | Token nat bytes

text \<open>\<open>while( zSql[0] && (zSql[0]!='*' || zSql[1]!='/') ) zSql++\<close>\<close>
fun skip_comment :: "bytes \<Rightarrow> bytes" where
  "skip_comment [] = []"
| "skip_comment (c # z) =
     (if c \<noteq> 0 \<and> (c \<noteq> 0x2a \<or> first z \<noteq> 0x2f) then skip_comment z else c # z)"

text \<open>\<open>while( *zSql && *zSql!=c ) zSql++\<close>\<close>
definition skip_to :: "u8 \<Rightarrow> bytes \<Rightarrow> bytes" where
  "skip_to c z = dropWhile (\<lambda>x. x \<noteq> 0 \<and> x \<noteq> c) z"

definition ident_length :: "bytes \<Rightarrow> nat" where
  "ident_length z = 1 + length (takeWhile IdChar (tl z))"

definition is_keyword :: "bytes \<Rightarrow> nat \<Rightarrow> bytes \<Rightarrow> bool" where
  "is_keyword z nId kw = (nId = length kw \<and> sqlite3_strnicmp (Some z) (Some kw) (int (length kw)) = 0)"

definition keyword_token :: "bytes \<Rightarrow> nat \<Rightarrow> nat" where
  "keyword_token z nId =
     (if first z = 0x63 \<or> first z = 0x43 then
        if is_keyword z nId [0x63, 0x72, 0x65, 0x61, 0x74, 0x65] then tkCREATE else tkOTHER
      else if first z = 0x74 \<or> first z = 0x54 then
        if is_keyword z nId [0x74, 0x72, 0x69, 0x67, 0x67, 0x65, 0x72] then tkTRIGGER
        else if is_keyword z nId [0x74, 0x65, 0x6d, 0x70] then tkTEMP
        else if is_keyword z nId [0x74, 0x65, 0x6d, 0x70, 0x6f, 0x72, 0x61, 0x72, 0x79] then tkTEMP
        else tkOTHER
      else if first z = 0x65 \<or> first z = 0x45 then
        if is_keyword z nId [0x65, 0x6e, 0x64] then tkEND
        else if is_keyword z nId [0x65, 0x78, 0x70, 0x6c, 0x61, 0x69, 0x6e] then tkEXPLAIN
        else tkOTHER
      else tkOTHER)"

text \<open>One turn, up to and including the final \<open>zSql++\<close>; \<open>z\<close> is not at its end.\<close>
definition scan_token :: "bytes \<Rightarrow> scan" where
  "scan_token z =
     (let c = first z in
      if c = 0x3b then Token tkSEMI (tl z)
      else if c = 0x20 \<or> c = 0x0d \<or> c = 0x09 \<or> c = 0x0a \<or> c = 0x0c then Token tkWS (tl z)
      else if c = 0x2f then
        if first (tl z) \<noteq> 0x2a then Token tkOTHER (tl z)
        else let z = skip_comment (tl (tl z)) in
             if first z = 0 then Return_0 else Token tkWS (tl (tl z))
      else if c = 0x2d then
        if first (tl z) \<noteq> 0x2d then Token tkOTHER (tl z)
        else let z = skip_to 0x0a z in
             if first z = 0 then Return_state else Token tkWS (tl z)
      else if c = 0x5b then
        let z = skip_to 0x5d (tl z) in
        if first z = 0 then Return_0 else Token tkOTHER (tl z)
      else if c = 0x60 \<or> c = 0x22 \<or> c = 0x27 then
        let z = skip_to c (tl z) in
        if first z = 0 then Return_0 else Token tkOTHER (tl z)
      else if IdChar c then
        let nId = ident_length z in Token (keyword_token z nId) (drop nId z)
      else Token tkOTHER (tl z))"

lemma skip_comment_length: "length (skip_comment z) \<le> length z"
  by (induction z rule: skip_comment.induct) auto

lemma skip_to_length: "length (skip_to c z) \<le> length z"
  by (simp add: skip_to_def length_dropWhile_le)

lemma scan_token_shorter:
  assumes "first z \<noteq> 0" "scan_token z = Token t z'"
  shows "length z' < length z"
proof -
  obtain c y where z: "z = c # y" using assms(1) by (cases z) auto
  have "length (skip_to 0x0a z) \<le> Suc (length y)" using skip_to_length [of _ z] z by simp
  moreover have "length (skip_to d y) - Suc 0 \<le> length y" for d
    using skip_to_length [of d y] by simp
  ultimately show ?thesis
    using assms(2) z skip_comment_length [of "tl y"]
    by (auto simp: scan_token_def Let_def ident_length_def less_Suc_eq_le split: if_splits)
qed

function complete_loop :: "nat \<Rightarrow> bytes \<Rightarrow> bool" where
  "complete_loop state z =
     (if first z = 0 then state = 1
      else case scan_token z of
        Return_0 \<Rightarrow> False
      | Return_state \<Rightarrow> state = 1
      | Token tok z' \<Rightarrow> complete_loop (trans ! state ! tok) z')"
  by pat_completeness auto
termination
  by (relation "measure (length \<circ> snd)") (auto intro: scan_token_shorter)

declare complete_loop.simps [simp del]

definition sqlite3_complete :: "bytes \<Rightarrow> bool" where
  "sqlite3_complete zSql = complete_loop 0 zSql"

section \<open>What a complete text is\<close>

text \<open>The tokens of a text; \<open>None\<close> when a quotation or a comment is not closed.\<close>
function complete_tokens :: "bytes \<Rightarrow> nat list option" where
  "complete_tokens z =
     (if first z = 0 then Some []
      else case scan_token z of
        Return_0 \<Rightarrow> None
      | Return_state \<Rightarrow> Some []
      | Token tok z' \<Rightarrow> map_option ((#) tok) (complete_tokens z'))"
  by pat_completeness auto
termination
  by (relation "measure length") (auto intro: scan_token_shorter)

declare complete_tokens.simps [simp del]

text \<open>
  The body of a trigger definition: what follows \<open>CREATE TEMP* TRIGGER\<close> at the beginning,
  possibly after \<open>EXPLAIN\<close> and ordinary tokens.
\<close>
definition create_trigger :: "nat list \<Rightarrow> nat list option" where
  "create_trigger ts =
     (case ts of
        [] \<Rightarrow> None
      | t # us \<Rightarrow> if t \<noteq> tkCREATE then None
          else case dropWhile (\<lambda>t. t = tkTEMP) us of
                 [] \<Rightarrow> None
               | t # body \<Rightarrow> if t = tkTRIGGER then Some body else None)"

definition trigger_body :: "nat list \<Rightarrow> nat list option" where
  "trigger_body ts =
     (if ts \<noteq> [] \<and> hd ts = tkEXPLAIN then create_trigger (dropWhile (\<lambda>t. t = tkOTHER) (tl ts))
      else create_trigger ts)"

definition has_end :: "nat list \<Rightarrow> bool" where
  "has_end ts \<longleftrightarrow> (\<exists>x y. ts = x @ [tkSEMI, tkEND, tkSEMI] @ y)"

text \<open>
  A statement ends at its first semicolon; a trigger definition ends at the first semicolon
  after \<open>; END\<close>.
\<close>
definition statement :: "nat list \<Rightarrow> bool" where
  "statement ts \<longleftrightarrow>
     (case trigger_body ts of
        None \<Rightarrow> \<exists>us. ts = us @ [tkSEMI] \<and> tkSEMI \<notin> set us
      | Some body \<Rightarrow> has_end body \<and> \<not> has_end (butlast body))"

inductive statements :: "nat list \<Rightarrow> bool" where
  none: "statements []"
| more: "statement s \<Longrightarrow> statements ts \<Longrightarrow> statements (s @ ts)"

section \<open>The state machine\<close>

definition run :: "nat \<Rightarrow> nat list \<Rightarrow> nat" where
  "run q ts = foldl (\<lambda>q t. trans ! q ! t) q ts"

lemma run_simps [simp]: "run q [] = q" "run q (t # ts) = run (trans ! q ! t) ts"
    "run q (ts @ us) = run (run q ts) us"
  by (simp_all add: run_def)

lemma complete_loop_run:
  "complete_loop q z \<longleftrightarrow> (case complete_tokens z of None \<Rightarrow> False | Some ts \<Rightarrow> run q ts = 1)"
proof (induction q z rule: complete_loop.induct)
  case (1 q z)
  show ?case using 1
    by (auto simp: complete_loop.simps [of q z] complete_tokens.simps [of z] split: scan.split option.split)
qed

definition word :: "nat list \<Rightarrow> bool" where
  "word ts \<longleftrightarrow> (\<forall>t\<in>set ts. t < 8 \<and> t \<noteq> tkWS)"

lemma token_range: "scan_token z = Token t z' \<Longrightarrow> t < 8"
  by (auto simp: scan_token_def keyword_token_def Let_def tk_defs split: if_splits)

lemma tokens_range: "complete_tokens z = Some ts \<Longrightarrow> t \<in> set ts \<Longrightarrow> t < 8"
proof (induction z arbitrary: ts rule: complete_tokens.induct)
  case (1 z)
  then show ?case using token_range [of z]
    by (auto simp: complete_tokens.simps [of z] split: if_splits scan.splits)
qed

lemma less_8: "n < 8 \<longleftrightarrow> n \<in> {0, 1, 2, 3, 4, 5, 6, 7 :: nat}"
  by auto

lemma trans_range: "q < 8 \<Longrightarrow> t < 8 \<Longrightarrow> trans ! q ! t < 8"
  by (auto simp: less_8 trans_def)

lemma trans_WS: "q < 8 \<Longrightarrow> trans ! q ! tkWS = q"
  by (auto simp: less_8 trans_def tk_defs)

lemma run_filter:
  "q < 8 \<Longrightarrow> \<forall>t\<in>set ts. t < 8 \<Longrightarrow> run q ts = run q (filter (\<lambda>t. t \<noteq> tkWS) ts)"
  by (induction ts arbitrary: q) (auto simp: trans_WS trans_range)

text \<open>Table look-ups at each state.\<close>

lemma trans_rows:
  "trans ! Suc 0 ! t = (if t = tkSEMI then 1 else if t = tkEXPLAIN then 3 else if t = tkCREATE then 4 else 2)"
  "trans ! 2 ! t = (if t = tkSEMI then 1 else 2)"
  "trans ! 3 ! t = (if t = tkSEMI then 1 else if t = tkOTHER then 3 else if t = tkCREATE then 4 else 2)"
  "trans ! 4 ! t = (if t = tkSEMI then 1 else if t = tkTEMP then 4 else if t = tkTRIGGER then 5 else 2)"
  "trans ! 5 ! t = (if t = tkSEMI then 6 else 5)"
  "trans ! 6 ! t = (if t = tkSEMI then 6 else if t = tkEND then 7 else 5)"
  "trans ! 7 ! t = (if t = tkSEMI then 1 else 5)"
  if "t < 8" "t \<noteq> tkWS"
  using that by (auto simp: less_8 trans_def tk_defs)

lemma trans_heads [simp]: "trans ! Suc 0 ! tkEXPLAIN = 3" "trans ! Suc 0 ! tkCREATE = 4"
    "trans ! 3 ! tkCREATE = 4" "trans ! 4 ! tkTRIGGER = 5"
  by (simp_all add: trans_def tk_defs)

lemma word_simps [simp]: "word []" "word (t # ts) \<longleftrightarrow> t < 8 \<and> t \<noteq> tkWS \<and> word ts"
    "word (ts @ us) \<longleftrightarrow> word ts \<and> word us"
  by (auto simp: word_def)

lemma tokens_ok [simp]: "tkSEMI < 8" "tkSEMI \<noteq> tkWS" "tkEND < 8" "tkEND \<noteq> tkWS"
  "tkCREATE < 8" "tkCREATE \<noteq> tkWS" "tkTRIGGER < 8" "tkTRIGGER \<noteq> tkWS" "tkEXPLAIN < 8" "tkEXPLAIN \<noteq> tkWS"
  "tkTRIGGER \<noteq> tkSEMI" "tkEND \<noteq> tkSEMI" "tkSEMI \<noteq> tkEND"
  by (simp_all add: tk_defs)

lemma run_2: "word ts \<Longrightarrow> tkSEMI \<notin> set ts \<Longrightarrow> run 2 ts = 2"
  by (induction ts) (auto simp: trans_rows)

lemma run_4_temp: "word ts \<Longrightarrow> run 4 ts = run 4 (dropWhile (\<lambda>t. t = tkTEMP) ts)"
  by (induction ts) (auto simp: trans_rows tk_defs)

lemma run_3_other: "word ts \<Longrightarrow> run 3 ts = run 3 (dropWhile (\<lambda>t. t = tkOTHER) ts)"
  by (induction ts) (auto simp: trans_rows tk_defs)

lemma word_dropWhile: "word ts \<Longrightarrow> word (dropWhile P ts)"
  using set_dropWhileD by (fastforce simp: word_def)

text \<open>Before a trigger definition is recognised and before any semicolon the state is 2, 3 or 4.\<close>

lemma run_4_cases:
  assumes "word ts"
  shows "case dropWhile (\<lambda>t. t = tkTEMP) ts of
      [] \<Rightarrow> run 4 ts = 4
    | t # us \<Rightarrow> if t = tkTRIGGER then run 4 ts = run 5 us else tkSEMI \<notin> set ts \<longrightarrow> run 4 ts = 2"
proof -
  define ds where "ds = dropWhile (\<lambda>t. t = tkTEMP) ts"
  have ds: "word ds" "run 4 ts = run 4 ds" "set ds \<subseteq> set ts"
    using word_dropWhile [OF assms] run_4_temp [OF assms] set_dropWhileD unfolding ds_def by (auto, fastforce)
  show ?thesis
    unfolding ds_def [symmetric]
  proof (cases ds)
    case (Cons t us)
    have "t \<noteq> tkTEMP" using Cons unfolding ds_def by (simp add: dropWhile_eq_Cons_conv)
    then show "case ds of [] \<Rightarrow> run 4 ts = 4 | t # us \<Rightarrow> if t = tkTRIGGER then run 4 ts = run 5 us
        else tkSEMI \<notin> set ts \<longrightarrow> run 4 ts = 2"
      using Cons ds run_2 [of us] by (auto simp: trans_rows)
  qed (use ds in simp)
qed

lemma run_create:
  assumes "word ts" "q = 1 \<or> q = 3" "ts \<noteq> []" "q = 3 \<longrightarrow> hd ts \<noteq> tkOTHER" "q = 1 \<longrightarrow> hd ts \<noteq> tkEXPLAIN"
  shows "case create_trigger ts of None \<Rightarrow> tkSEMI \<notin> set ts \<longrightarrow> run q ts \<in> {2, 4} | Some b \<Rightarrow> run q ts = run 5 b"
proof -
  obtain t us where ts: "ts = t # us" using assms(3) by (cases ts) auto
  show ?thesis
  proof (cases "t = tkCREATE")
    case True
    then have "run q ts = run 4 us" "word us" using ts assms(1,2) by auto
    then show ?thesis
      using ts True run_4_cases [of us]
      by (cases "dropWhile (\<lambda>t. t = tkTEMP) us") (simp_all add: create_trigger_def del: dropWhile_eq_Nil_conv)
  next
    case False
    then have "t \<noteq> tkSEMI \<Longrightarrow> run q ts = run 2 us" using ts assms by (auto simp: trans_rows)
    then show ?thesis using ts False run_2 [of us] assms(1) by (auto simp: create_trigger_def)
  qed
qed

lemma run_body:
  assumes "word ts" "ts \<noteq> []"
  shows "case trigger_body ts of None \<Rightarrow> tkSEMI \<notin> set ts \<longrightarrow> run 1 ts \<in> {2, 3, 4} | Some b \<Rightarrow> run 1 ts = run 5 b"
proof (cases "hd ts = tkEXPLAIN")
  case False
  then show ?thesis using run_create [OF assms(1), of 1] assms(2) by (auto simp: trigger_body_def split: option.splits)
next
  case True
  then obtain us where ts: "ts = tkEXPLAIN # us" using assms(2) by (cases ts) auto
  let ?us = "dropWhile (\<lambda>t. t = tkOTHER) us"
  have us: "word us" "run 1 ts = run 3 ?us" using ts assms(1) run_3_other [of us] by auto
  show ?thesis
  proof (cases "?us = []")
    case True
    then have "run 1 ts = 3" "trigger_body ts = None"
      using us(2) ts unfolding trigger_body_def create_trigger_def by (simp_all del: dropWhile_eq_Nil_conv)
    then show ?thesis by simp
  next
    case False
    have "hd ?us \<noteq> tkOTHER" using False hd_dropWhile by blast
    moreover have "tkSEMI \<in> set ?us \<Longrightarrow> tkSEMI \<in> set us" by (rule set_dropWhileD)
    ultimately show ?thesis
      using run_create [OF word_dropWhile [OF us(1)], of 3 "\<lambda>t. t = tkOTHER"] False us(2) ts
      by (auto simp: trigger_body_def split: option.splits)
  qed
qed

text \<open>What precedes the body does not depend on the body.\<close>

lemma create_trigger_split:
  "create_trigger ts = Some b \<Longrightarrow> \<exists>h. ts = h @ b \<and> (\<forall>b'. create_trigger (h @ b') = Some b') \<and> tkSEMI \<notin> set h"
proof -
  assume c: "create_trigger ts = Some b"
  then obtain us where us: "ts = tkCREATE # us" "dropWhile (\<lambda>t. t = tkTEMP) us = tkTRIGGER # b"
    by (auto simp: create_trigger_def split: list.splits if_splits)
  let ?h = "takeWhile (\<lambda>t. t = tkTEMP) us"
  have "us = ?h @ tkTRIGGER # b" using takeWhile_dropWhile_id [of "\<lambda>t. t = tkTEMP" us] us(2) by simp
  moreover have "dropWhile (\<lambda>t. t = tkTEMP) (?h @ tkTRIGGER # b') = tkTRIGGER # b'" for b'
    by (subst dropWhile_append2) (auto dest: set_takeWhileD simp: tk_defs)
  moreover have "tkSEMI \<notin> set ?h" by (auto dest: set_takeWhileD simp: tk_defs)
  ultimately show ?thesis using us(1)
    by (intro exI [of _ "tkCREATE # ?h @ [tkTRIGGER]"]) (simp add: create_trigger_def tk_defs)
qed

lemma trigger_body_split:
  assumes "trigger_body ts = Some b"
  shows "\<exists>h. ts = h @ b \<and> (\<forall>b'. trigger_body (h @ b') = Some b') \<and> tkSEMI \<notin> set h \<and> h \<noteq> []"
proof (cases "ts \<noteq> [] \<and> hd ts = tkEXPLAIN")
  case True
  then obtain us where ts: "ts = tkEXPLAIN # us" by (cases ts) auto
  let ?P = "\<lambda>t. t = tkOTHER"
  have "create_trigger (dropWhile ?P us) = Some b" using assms ts by (simp add: trigger_body_def)
  from create_trigger_split [OF this] obtain h where
    h: "dropWhile ?P us = h @ b" "\<forall>b'. create_trigger (h @ b') = Some b'" "tkSEMI \<notin> set h" by blast
  have ne: "h \<noteq> []" using h(2) by (metis append_Nil create_trigger_def list.simps(4) option.distinct(1))
  have "hd h \<noteq> tkOTHER" using h(1) ne hd_dropWhile [of ?P us] by simp
  then have "dropWhile ?P (takeWhile ?P us @ h @ b') = h @ b'" for b'
    using ne by (cases h; simp) (subst dropWhile_append2, auto dest: set_takeWhileD)
  moreover have "us = takeWhile ?P us @ h @ b" using h(1) takeWhile_dropWhile_id [of ?P us] by simp
  ultimately show ?thesis using h ts
    by (intro exI [of _ "tkEXPLAIN # takeWhile ?P us @ h"]) (auto simp: trigger_body_def tk_defs dest: set_takeWhileD)
next
  case False
  then have "create_trigger ts = Some b" using assms by (auto simp: trigger_body_def split: if_splits)
  from create_trigger_split [OF this] obtain h where
    h: "ts = h @ b" "\<forall>b'. create_trigger (h @ b') = Some b'" "tkSEMI \<notin> set h" by blast
  have ne: "h \<noteq> []" using h(2) by (metis append_Nil create_trigger_def list.simps(4) option.distinct(1))
  then show ?thesis using h False by (intro exI [of _ h]) (cases h; simp add: trigger_body_def)
qed

text \<open>Inside a trigger the states 5, 6 and 7 remember how much of \<open>; END ;\<close> was just seen.\<close>

lemma has_end_snoc: "has_end (ts @ [t]) \<longleftrightarrow> has_end ts \<or> (\<exists>x. ts = x @ [tkSEMI, tkEND] \<and> t = tkSEMI)"
proof
  assume "has_end (ts @ [t])"
  then obtain x y where xy: "ts @ [t] = x @ [tkSEMI, tkEND, tkSEMI] @ y" unfolding has_end_def by blast
  show "has_end ts \<or> (\<exists>x. ts = x @ [tkSEMI, tkEND] \<and> t = tkSEMI)"
  proof (cases y rule: rev_cases)
    case Nil
    then have "ts @ [t] = (x @ [tkSEMI, tkEND]) @ [tkSEMI]" using xy by simp
    then show ?thesis by (metis append1_eq_conv)
  next
    case (snoc y' u)
    then have "ts = x @ [tkSEMI, tkEND, tkSEMI] @ y'" using xy by (simp flip: append_assoc append_Cons)
    then show ?thesis unfolding has_end_def by blast
  qed
next
  assume "has_end ts \<or> (\<exists>x. ts = x @ [tkSEMI, tkEND] \<and> t = tkSEMI)"
  then show "has_end (ts @ [t])"
    unfolding has_end_def by (metis append.assoc append_Cons append_Nil)
qed

lemma run_5:
  assumes "word ts" "\<not> has_end ts"
  shows "run 5 ts = (if \<exists>x. ts = x @ [tkSEMI, tkEND] then 7 else if \<exists>x. ts = x @ [tkSEMI] then 6 else 5)"
  using assms
proof (induction ts rule: rev_induct)
  case (snoc t ts)
  have IH: "run 5 ts = (if \<exists>x. ts = x @ [tkSEMI, tkEND] then 7 else if \<exists>x. ts = x @ [tkSEMI] then 6 else 5)"
    and t: "t < 8" "t \<noteq> tkWS" and no: "\<not> (\<exists>x. ts = x @ [tkSEMI, tkEND] \<and> t = tkSEMI)"
    using snoc has_end_snoc by auto
  have two: "(\<exists>x. ts @ [t] = x @ [tkSEMI, tkEND]) \<longleftrightarrow> (\<exists>x. ts = x @ [tkSEMI]) \<and> t = tkEND"
    by (metis append.assoc append_Cons append_Nil append1_eq_conv)
  have "\<not> ((\<exists>x. ts = x @ [tkSEMI, tkEND]) \<and> (\<exists>x. ts = x @ [tkSEMI]))"
    by (metis tokens_ok(13) last_snoc last_appendR last.simps list.distinct(1))
  then show ?case using IH no two t by (auto simp: trans_rows)
qed simp

lemma run_trigger:
  assumes "word b" "has_end b" "\<not> has_end (butlast b)"
  shows "run 5 b = 1"
proof -
  obtain c t where b: "b = c @ [t]" using assms(2) by (cases b rule: rev_cases) (auto simp: has_end_def)
  then obtain x where "c = x @ [tkSEMI, tkEND]" "t = tkSEMI" using assms has_end_snoc [of c t] by auto
  moreover have "\<not> has_end c" "word c" using assms b by auto
  then have "run 5 c = 7" using run_5 [of c] \<open>c = x @ [tkSEMI, tkEND]\<close> by auto
  ultimately show ?thesis using b by (simp add: trans_rows)
qed

lemma first_end: "has_end b \<Longrightarrow> \<exists>c r. b = c @ r \<and> has_end c \<and> \<not> has_end (butlast c)"
proof (induction b rule: rev_induct)
  case Nil
  then show ?case by (simp add: has_end_def)
next
  case (snoc t b)
  show ?case
  proof (cases "has_end b")
    case True
    then show ?thesis using snoc.IH by (metis append.assoc)
  next
    case False
    then show ?thesis using snoc.prems by (intro exI [of _ "b @ [t]"] exI [of _ "[]"]) simp
  qed
qed

lemma statement_run:
  assumes "statement s" "word s"
  shows "run 1 s = 1 \<and> s \<noteq> []"
proof (cases "trigger_body s")
  case None
  then obtain us where us: "s = us @ [tkSEMI]" "tkSEMI \<notin> set us" using assms(1) by (auto simp: statement_def)
  have "run 1 us \<in> {1, 2, 3, 4}"
  proof (cases "us = []")
    case False
    have "trigger_body us = None"
    proof (rule ccontr)
      assume "trigger_body us \<noteq> None"
      then obtain b where "trigger_body us = Some b" by auto
      from trigger_body_split [OF this] show False using None us(1) by auto
    qed
    then show ?thesis using run_body [of us] False us assms(2) by auto
  qed simp
  then show ?thesis using us by (auto simp: trans_rows)
next
  case (Some b)
  then have "has_end b" "\<not> has_end (butlast b)" using assms(1) by (auto simp: statement_def)
  moreover obtain h where "s = h @ b" using trigger_body_split [OF Some] by blast
  moreover have "s \<noteq> []" using Some by (auto simp: trigger_body_def create_trigger_def)
  ultimately show ?thesis using run_body [OF assms(2)] Some run_trigger [of b] assms(2) by auto
qed

lemma run_statement:
  assumes "run 1 ts = 1" "ts \<noteq> []" "word ts"
  shows "\<exists>s r. ts = s @ r \<and> statement s"
proof (cases "trigger_body ts")
  case None
  have "tkSEMI \<in> set ts" using run_body [OF assms(3,2)] None assms(1) by auto
  then obtain us r where us: "ts = us @ tkSEMI # r" "tkSEMI \<notin> set us" using split_list_first by metis
  have "trigger_body (us @ [tkSEMI]) = None"
  proof (rule ccontr)
    assume "trigger_body (us @ [tkSEMI]) \<noteq> None"
    then obtain b where b: "trigger_body (us @ [tkSEMI]) = Some b" by auto
    from trigger_body_split [OF this] obtain h where "us @ [tkSEMI] = h @ b" "\<forall>b'. trigger_body (h @ b') = Some b'" by blast
    then have "trigger_body ts = Some (b @ r)" using us(1) by (metis append.assoc append_Cons append_Nil)
    then show False using None by simp
  qed
  then have "statement (us @ [tkSEMI])" using us(2) by (auto simp: statement_def)
  then show ?thesis using us(1) by (intro exI [of _ "us @ [tkSEMI]"] exI [of _ r]) simp
next
  case (Some b)
  obtain h where h: "ts = h @ b" "\<forall>b'. trigger_body (h @ b') = Some b'" using trigger_body_split [OF Some] by blast
  have "run 5 b = 1" using run_body [OF assms(3,2)] Some assms(1) by simp
  then have "has_end b" using run_5 [of b] assms(3) h(1) by (cases "has_end b") (auto split: if_splits)
  then obtain c r where "b = c @ r" "has_end c" "\<not> has_end (butlast c)" using first_end by blast
  then show ?thesis using h by (intro exI [of _ "h @ c"] exI [of _ r]) (simp add: statement_def)
qed

lemma run_statements: "word ts \<Longrightarrow> run 1 ts = 1 \<longleftrightarrow> statements ts"
proof (induction ts rule: length_induct)
  case (1 ts)
  show ?case
  proof
    assume "statements ts"
    then show "run 1 ts = 1" using 1(2)
      by (induction rule: statements.induct) (auto dest: statement_run)
  next
    assume r: "run 1 ts = 1"
    show "statements ts"
    proof (cases "ts = []")
      case False
      obtain s rest where s: "ts = s @ rest" "statement s" using run_statement [OF r False 1(2)] by blast
      have sr: "run 1 s = 1" "s \<noteq> []" using statement_run [OF s(2)] s(1) 1(2) by auto
      then have "statements rest" using 1 s(1) r by simp
      then show ?thesis using s statements.more by blast
    qed (simp add: statements.none)
  qed
qed

section \<open>Properties\<close>

text \<open>
  C17. \<open>sqlite3_complete\<close> returns for every text, and returns 1 exactly when every quotation and
  block comment of the text is closed and its tokens other than white space are a non-empty
  sequence of statements, each ending at its first semicolon or, for a trigger definition, at
  the first semicolon that follows \<open>; END\<close>.
\<close>
theorem complete_correct:
  "sqlite3_complete z \<longleftrightarrow>
     (case complete_tokens z of
        None \<Rightarrow> False
      | Some ts \<Rightarrow> let us = filter (\<lambda>t. t \<noteq> tkWS) ts in us \<noteq> [] \<and> statements us)"
proof (cases "complete_tokens z")
  case None
  then show ?thesis by (simp add: sqlite3_complete_def complete_loop_run)
next
  case (Some ts)
  let ?us = "filter (\<lambda>t. t \<noteq> tkWS) ts"
  have w: "word ?us" using tokens_range [OF Some] by (auto simp: word_def)
  have "run 0 ts = run 0 ?us" using tokens_range [OF Some] by (intro run_filter) auto
  moreover have "run 0 us = run 1 us" if "us \<noteq> []" "word us" for us
    using that by (cases us) (auto simp: trans_def less_8 tk_defs)
  ultimately have "run 0 ts = 1 \<longleftrightarrow> ?us \<noteq> [] \<and> run 1 ?us = 1" using w by (cases "?us = []") auto
  then show ?thesis using run_statements [OF w] Some
    by (simp add: sqlite3_complete_def complete_loop_run Let_def)
qed

end
