(* ===== verification/Prng.thy ===== *)
theory Prng
  imports Prelude
begin

text \<open>
  SQLite's random number generator (\<open>src/db/sqlite3.c\<close>, \<open>random.c\<close>): the ChaCha20 block
  function of RFC 7539 and the buffer of output bytes that \<open>sqlite3_randomness\<close> hands out.  The
  words of a block are read as bytes on a little-endian machine.  The entropy that
  \<open>sqlite3OsRandomness\<close> supplies is an argument, eleven words.
\<close>

section \<open>The block function\<close>

definition ROTL :: "u32 \<Rightarrow> nat \<Rightarrow> u32" where
  "ROTL a b = push_bit b a OR drop_bit (32 - b) a"

text \<open>\<open>QR(x[a], x[b], x[c], x[d])\<close>.\<close>
definition QR :: "nat \<Rightarrow> nat \<Rightarrow> nat \<Rightarrow> nat \<Rightarrow> u32 list \<Rightarrow> u32 list" where
  "QR a b c d x =
     (let x = x[a := x ! a + x ! b]; x = x[d := x ! d XOR x ! a]; x = x[d := ROTL (x ! d) 16];
          x = x[c := x ! c + x ! d]; x = x[b := x ! b XOR x ! c]; x = x[b := ROTL (x ! b) 12];
          x = x[a := x ! a + x ! b]; x = x[d := x ! d XOR x ! a]; x = x[d := ROTL (x ! d) 8];
          x = x[c := x ! c + x ! d]; x = x[b := x ! b XOR x ! c]; x = x[b := ROTL (x ! b) 7]
      in x)"

definition double_round :: "u32 list \<Rightarrow> u32 list" where
  "double_round x =
     (let x = QR 0 4 8 12 x; x = QR 1 5 9 13 x; x = QR 2 6 10 14 x; x = QR 3 7 11 15 x;
          x = QR 0 5 10 15 x; x = QR 1 6 11 12 x; x = QR 2 7 8 13 x; x = QR 3 4 9 14 x
      in x)"

definition chacha_block :: "u32 list \<Rightarrow> u32 list" where
  "chacha_block inp = map2 (+) ((double_round ^^ 10) inp) inp"

section \<open>The generator\<close>

record prng =
  prng_s :: "u32 list"
  prng_out :: bytes
  prng_n :: nat

text \<open>The bytes of a word in memory.\<close>
definition word_bytes :: "u32 \<Rightarrow> bytes" where
  "word_bytes w = [ucast w, ucast (drop_bit 8 w), ucast (drop_bit 16 w), ucast (drop_bit 24 w)]"

definition next_block :: "prng \<Rightarrow> prng" where
  "next_block p =
     (let st = (prng_s p)[12 := prng_s p ! 12 + 1]
      in p\<lparr>prng_s := st, prng_out := concat (map word_bytes (chacha_block st)), prng_n := 64\<rparr>)"

function randomness_loop :: "nat \<Rightarrow> prng \<Rightarrow> bytes \<times> prng" where
  "randomness_loop N p =
     (if N \<le> prng_n p then (take N (drop (prng_n p - N) (prng_out p)), p\<lparr>prng_n := prng_n p - N\<rparr>)
      else
        let got = (if prng_n p > 0 then take (prng_n p) (prng_out p) else []);
            N' = (if prng_n p > 0 then N - prng_n p else N)
        in case randomness_loop N' (next_block p) of (bs, p) \<Rightarrow> (got @ bs, p))"
  by pat_completeness auto
termination
  by (relation "measure (\<lambda>(N, p). 2 * N + (if prng_n p = 0 then 1 else 0))")
    (auto simp: next_block_def Let_def)

declare randomness_loop.simps [simp del]

definition seed :: "u32 list \<Rightarrow> prng \<Rightarrow> prng" where
  "seed entropy p =
     (let st = [0x61707865, 0x3320646e, 0x79622d32, 0x6b206574] @ entropy @ [prng_s p ! 15];
          st = st[15 := st ! 12];
          st = st[12 := 0]
      in p\<lparr>prng_s := st, prng_n := 0\<rparr>)"

text \<open>
  \<open>sqlite3_randomness\<close>; \<open>rc\<close> is what \<open>sqlite3_initialize\<close> returns, \<open>isNull\<close> whether \<open>pBuf\<close> is
  null.  The result is what was written to the buffer.
\<close>
definition sqlite3_randomness :: "int \<Rightarrow> u32 list \<Rightarrow> int \<Rightarrow> bool \<Rightarrow> prng \<Rightarrow> bytes \<times> prng" where
  "sqlite3_randomness rc entropy N isNull p =
     (if rc \<noteq> 0 then ([], p)
      else if N \<le> 0 \<or> isNull then ([], p\<lparr>prng_s := (prng_s p)[0 := 0]\<rparr>)
      else randomness_loop (nat N) (if prng_s p ! 0 = 0 then seed entropy p else p))"

record prng_state =
  sqlite3Prng :: prng
  sqlite3SavedPrng :: prng

definition sqlite3PrngSaveState :: "prng_state \<Rightarrow> prng_state" where
  "sqlite3PrngSaveState g = g\<lparr>sqlite3SavedPrng := sqlite3Prng g\<rparr>"

definition sqlite3PrngRestoreState :: "prng_state \<Rightarrow> prng_state" where
  "sqlite3PrngRestoreState g = g\<lparr>sqlite3Prng := sqlite3SavedPrng g\<rparr>"

section \<open>Every byte is handed out once\<close>

lemma QR_length [simp]: "length (QR a b c d x) = length x"
  by (simp add: QR_def Let_def)

lemma rounds_length [simp]: "length ((double_round ^^ k) x) = length x"
  by (induction k) (simp_all add: double_round_def Let_def)

lemma block_length [simp]: "length (chacha_block x) = length x"
  by (simp add: chacha_block_def)

text \<open>The output block for the \<open>k\<close>-th count after the present one.\<close>
definition keystream :: "prng \<Rightarrow> nat \<Rightarrow> bytes" where
  "keystream p k = concat (map word_bytes (chacha_block ((prng_s p)[12 := prng_s p ! 12 + of_nat k])))"

definition prng_ok :: "prng \<Rightarrow> bool" where
  "prng_ok p \<longleftrightarrow> length (prng_s p) = 16 \<and> length (prng_out p) = 64 \<and> prng_n p \<le> 64"

abbreviation pending :: "prng \<Rightarrow> u8 multiset" where
  "pending p \<equiv> mset (take (prng_n p) (prng_out p))"

lemma concat_word_bytes: "length (concat (map word_bytes ws)) = 4 * length ws"
  by (induction ws) (simp_all add: word_bytes_def)

lemma next_block_ok: "prng_ok p \<Longrightarrow> prng_ok (next_block p) \<and> prng_out (next_block p) = keystream p 1 \<and> prng_n (next_block p) = 64
    \<and> prng_s (next_block p) = (prng_s p)[12 := prng_s p ! 12 + 1]"
  by (simp add: prng_ok_def next_block_def Let_def concat_word_bytes keystream_def)

lemma keystream_next:
  assumes "prng_ok p"
  shows "keystream (next_block p) k = keystream p (Suc k)"
proof -
  have "12 < length (prng_s p)" using assms by (simp add: prng_ok_def)
  then show ?thesis using next_block_ok [OF assms] by (simp add: keystream_def add.assoc)
qed

lemma blocks_Suc: "0 < d \<Longrightarrow> (d + 63) div 64 = Suc ((d - 64 + 63) div 64)" for d :: nat
proof (cases "d \<le> 64")
  case True
  moreover assume "0 < d"
  ultimately have "d + 63 = 64 + (d - 1)" "d - 1 < 64" "d - 64 = 0" by simp_all
  then show ?thesis using div_add_self1 [of 64 "d - 1"] by simp
next
  case False
  then have "d + 63 = 64 + (d - 64 + 63)" by simp
  then show ?thesis using div_add_self1 [of 64 "d - 64 + 63"] by (metis Suc_eq_plus1 zero_neq_numeral)
qed

lemma loop_bytes:
  "randomness_loop N p = (bs, p') \<Longrightarrow> prng_ok p \<Longrightarrow> k = (N - prng_n p + 63) div 64 \<Longrightarrow>
    length bs = N \<and> prng_ok p' \<and> prng_s p' = (prng_s p)[12 := prng_s p ! 12 + of_nat k] \<and>
    mset bs + pending p' = pending p + (\<Sum>i<k. mset (keystream p (Suc i)))"
proof (induction N p arbitrary: bs p' k rule: randomness_loop.induct)
  case (1 N p)
  have len: "length (prng_out p) = 64" "prng_n p \<le> 64" using "1.prems"(2) by (simp_all add: prng_ok_def)
  show ?case
  proof (cases "N \<le> prng_n p")
    case True
    then have r: "bs = take N (drop (prng_n p - N) (prng_out p))" "p' = p\<lparr>prng_n := prng_n p - N\<rparr>" and "k = 0"
      using "1.prems"(1,3) by (simp_all add: randomness_loop.simps [of N p])
    have "take (prng_n p) (prng_out p) = take (prng_n p - N) (prng_out p) @ take N (drop (prng_n p - N) (prng_out p))"
      using take_add [of "prng_n p - N" N "prng_out p"] True by simp
    then have "pending p = mset bs + pending p'" using r by simp
    then show ?thesis using r len True "1.prems"(2) \<open>k = 0\<close> by (simp add: prng_ok_def)
  next
    case False
    define got where "got = (if prng_n p > 0 then take (prng_n p) (prng_out p) else [])"
    define N' where "N' = (if prng_n p > 0 then N - prng_n p else N)"
    obtain bs1 where l: "randomness_loop N' (next_block p) = (bs1, p')" "bs = got @ bs1"
      using "1.prems"(1) False unfolding randomness_loop.simps [of N p] got_def N'_def
      by (auto simp: Let_def split: prod.splits)
    note nb = next_block_ok [OF "1.prems"(2)]
    have N': "N' = N - prng_n p" "got = take (prng_n p) (prng_out p)" by (simp_all add: N'_def got_def)
    define m where "m = (N' - prng_n (next_block p) + 63) div 64"
    have k: "k = Suc m" using "1.prems"(3) False nb N' blocks_Suc [of "N - prng_n p"] unfolding m_def by simp
    have IH: "length bs1 = N' \<and> prng_ok p' \<and> prng_s p' = (prng_s (next_block p))[12 := prng_s (next_block p) ! 12 + of_nat m] \<and>
        mset bs1 + pending p' = pending (next_block p) + (\<Sum>i<m. mset (keystream (next_block p) (Suc i)))"
      using "1.IH" [OF False refl refl] l(1) nb m_def unfolding got_def [symmetric] N'_def [symmetric] by blast
    have "pending (next_block p) = mset (keystream p 1)"
      using nb by (auto simp: prng_ok_def)
    then have "mset bs1 + pending p' = (\<Sum>i<k. mset (keystream p (Suc i)))"
      using IH keystream_next [OF "1.prems"(2)] k by (simp add: sum.lessThan_Suc_shift del: sum.lessThan_Suc)
    moreover have "prng_s p' = (prng_s p)[12 := prng_s p ! 12 + of_nat k]"
      using IH nb "1.prems"(2) k by (simp add: prng_ok_def add.assoc)
    moreover have "length bs = N" using l(2) IH N' len False by simp
    ultimately show ?thesis using l(2) IH N' by (simp add: add.assoc)
  qed
qed

section \<open>Properties\<close>

text \<open>
  C18. \<open>sqlite3_randomness\<close>, seeded first where need be, delivers exactly the \<open>N\<close> bytes asked
  for, and every byte of the keystream at most once: what it delivers and what stays buffered
  is what was buffered before and the fresh blocks, as multisets; the block counter has
  advanced by the number of fresh blocks, the fewest that suffice.
\<close>
theorem randomness_no_reuse:
  assumes "prng_ok p" "length entropy = 11" "0 < N"
    "q = (if prng_s p ! 0 = 0 then seed entropy p else p)" "k = (N - prng_n q + 63) div 64"
    "sqlite3_randomness 0 entropy (int N) False p = (bs, p')"
  shows "length bs = N \<and> prng_ok p' \<and> prng_s p' = (prng_s q)[12 := prng_s q ! 12 + of_nat k] \<and>
    mset bs + mset (take (prng_n p') (prng_out p')) =
      mset (take (prng_n q) (prng_out q)) + (\<Sum>i<k. mset (keystream q (Suc i)))"
proof -
  have "prng_ok q" using assms(1,2,4) by (simp add: prng_ok_def seed_def Let_def)
  moreover have "randomness_loop N q = (bs, p')" using assms(3,4,6) by (simp add: sqlite3_randomness_def)
  ultimately show ?thesis using loop_bytes assms(5) by blast
qed

theorem randomness_no_reuse_witness:
  "\<exists>bs p'. sqlite3_randomness 0 (replicate 11 5) 3 False \<lparr>prng_s = replicate 16 0, prng_out = replicate 64 0, prng_n = 0\<rparr> = (bs, p') \<and>
     length bs = 3 \<and> prng_s p' ! 12 = 1 \<and> prng_s p' ! 15 = 5"
proof -
  let ?p = "\<lparr>prng_s = replicate 16 0, prng_out = replicate 64 0, prng_n = 0\<rparr>"
  let ?q = "seed (replicate 11 5) ?p"
  obtain bs p' where r: "sqlite3_randomness 0 (replicate 11 5) (int 3) False ?p = (bs, p')" by fastforce
  have p: "prng_ok ?p" "?q = (if prng_s ?p ! 0 = 0 then ?q else ?p)" by (simp_all add: prng_ok_def)
  have q: "prng_n ?q = 0" "prng_s ?q ! 12 = 0" "prng_s ?q ! 15 = 5" "length (prng_s ?q) = 16"
    by (simp_all add: seed_def Let_def eval_nat_numeral)
  have "length bs = 3 \<and> prng_s p' = (prng_s ?q)[12 := prng_s ?q ! 12 + of_nat 1]"
    using randomness_no_reuse [OF p(1) _ _ p(2) _ r, of 1] q(1) by simp
  then show ?thesis using r q by simp
qed

lemma rfc7539_round_1: "double_round
     [0x61707865, 0x3320646e, 0x79622d32, 0x6b206574, 0x03020100, 0x07060504, 0x0b0a0908, 0x0f0e0d0c,
      0x13121110, 0x17161514, 0x1b1a1918, 0x1f1e1d1c, 0x00000001, 0x09000000, 0x4a000000, 0x00000000]
   = [0xcd52e917, 0x85ab03b4, 0xb3457395, 0xf96de7dd, 0xc4b7cd22, 0x5c2e187a, 0xc95eb461, 0x316c801a,
      0x7bf7d740, 0x7eddd644, 0xf1a1bdf5, 0x761246ca, 0x6b0d58a3, 0x6798471a, 0xd737f167, 0xf173888d]"
  by code_simp

lemma rfc7539_round_2: "double_round
     [0xcd52e917, 0x85ab03b4, 0xb3457395, 0xf96de7dd, 0xc4b7cd22, 0x5c2e187a, 0xc95eb461, 0x316c801a,
      0x7bf7d740, 0x7eddd644, 0xf1a1bdf5, 0x761246ca, 0x6b0d58a3, 0x6798471a, 0xd737f167, 0xf173888d]
   = [0xcf1a7584, 0x048927ec, 0x54051fda, 0xc244ff28, 0x901d2f40, 0x7974b81c, 0x378dcfb4, 0xcd47fd0e,
      0x2dafb216, 0x27c89cd6, 0xcd3c9aa0, 0x79fc89c7, 0x10aef18d, 0x16218765, 0x68f76705, 0x04d6ee22]"
  by code_simp

lemma rfc7539_round_3: "double_round
     [0xcf1a7584, 0x048927ec, 0x54051fda, 0xc244ff28, 0x901d2f40, 0x7974b81c, 0x378dcfb4, 0xcd47fd0e,
      0x2dafb216, 0x27c89cd6, 0xcd3c9aa0, 0x79fc89c7, 0x10aef18d, 0x16218765, 0x68f76705, 0x04d6ee22]
   = [0x03a14032, 0x66b15927, 0x9d6b6b42, 0xb84c4109, 0xa7143ae0, 0xa09b33dd, 0xa5daaf88, 0x2fd91a73,
      0xc90c6b18, 0x5a202413, 0xc20e01b6, 0x72cd6b74, 0xba35d777, 0xb360f1bf, 0x8178315b, 0x2cd11b1a]"
  by code_simp

lemma rfc7539_round_4: "double_round
     [0x03a14032, 0x66b15927, 0x9d6b6b42, 0xb84c4109, 0xa7143ae0, 0xa09b33dd, 0xa5daaf88, 0x2fd91a73,
      0xc90c6b18, 0x5a202413, 0xc20e01b6, 0x72cd6b74, 0xba35d777, 0xb360f1bf, 0x8178315b, 0x2cd11b1a]
   = [0x9a2d3589, 0x0b23fc4e, 0x40af3b6b, 0xceea8144, 0x0a1bffc6, 0x5e5993f7, 0x9904c2e7, 0x0d334718,
      0xe46c6354, 0xc9503229, 0x04fef5aa, 0xf8933f72, 0x2687d476, 0x54e65231, 0x3594ffc5, 0x2b3bb2ca]"
  by code_simp

lemma rfc7539_round_5: "double_round
     [0x9a2d3589, 0x0b23fc4e, 0x40af3b6b, 0xceea8144, 0x0a1bffc6, 0x5e5993f7, 0x9904c2e7, 0x0d334718,
      0xe46c6354, 0xc9503229, 0x04fef5aa, 0xf8933f72, 0x2687d476, 0x54e65231, 0x3594ffc5, 0x2b3bb2ca]
   = [0xc53318c5, 0xca325d96, 0x7e7d11cb, 0x3404e2ca, 0x26d7cf73, 0x6088d379, 0xc0f0e9bd, 0xe310cdb9,
      0xae2ca8db, 0x42f67c72, 0x71669aca, 0x975c171d, 0x9e5ec228, 0x7d85a9f3, 0x201d0756, 0x63fa6953]"
  by code_simp

lemma rfc7539_round_6: "double_round
     [0xc53318c5, 0xca325d96, 0x7e7d11cb, 0x3404e2ca, 0x26d7cf73, 0x6088d379, 0xc0f0e9bd, 0xe310cdb9,
      0xae2ca8db, 0x42f67c72, 0x71669aca, 0x975c171d, 0x9e5ec228, 0x7d85a9f3, 0x201d0756, 0x63fa6953]
   = [0x04a3131a, 0x66176309, 0x0415bab1, 0x61b880a2, 0x36cc86c7, 0xbf8a4465, 0xf77dd720, 0xfc0bdc90,
      0x07d13aca, 0xeb0be9af, 0x61599491, 0x918512dc, 0x33b6686d, 0x795cc671, 0xc0049972, 0xa0a81bde]"
  by code_simp

lemma rfc7539_round_7: "double_round
     [0x04a3131a, 0x66176309, 0x0415bab1, 0x61b880a2, 0x36cc86c7, 0xbf8a4465, 0xf77dd720, 0xfc0bdc90,
      0x07d13aca, 0xeb0be9af, 0x61599491, 0x918512dc, 0x33b6686d, 0x795cc671, 0xc0049972, 0xa0a81bde]
   = [0x9b70f51f, 0x7ea8ac11, 0x21e54da9, 0xca393b2f, 0x93b08686, 0x6a4c50ae, 0x19212a5a, 0x9b032958,
      0xd839165e, 0x4c06e28a, 0xd3fde99e, 0x26acc13d, 0xa609f555, 0x2c246549, 0x95151853, 0x2c847a0d]"
  by code_simp

lemma rfc7539_round_8: "double_round
     [0x9b70f51f, 0x7ea8ac11, 0x21e54da9, 0xca393b2f, 0x93b08686, 0x6a4c50ae, 0x19212a5a, 0x9b032958,
      0xd839165e, 0x4c06e28a, 0xd3fde99e, 0x26acc13d, 0xa609f555, 0x2c246549, 0x95151853, 0x2c847a0d]
   = [0xca5c85dd, 0x93a4f90e, 0xd9f0df58, 0x26dd82dd, 0x982563f8, 0x712aa9ff, 0x279a61e8, 0x970f72bd,
      0x1c25931a, 0x5180bb10, 0x779c27e7, 0x54077e08, 0xa9b751fb, 0x382f3ce2, 0x8db1757d, 0xcc38080b]"
  by code_simp

lemma rfc7539_round_9: "double_round
     [0xca5c85dd, 0x93a4f90e, 0xd9f0df58, 0x26dd82dd, 0x982563f8, 0x712aa9ff, 0x279a61e8, 0x970f72bd,
      0x1c25931a, 0x5180bb10, 0x779c27e7, 0x54077e08, 0xa9b751fb, 0x382f3ce2, 0x8db1757d, 0xcc38080b]
   = [0xb6b87de6, 0x9a016148, 0x93859815, 0x4915e6cc, 0xdc33c122, 0x98e18fa3, 0x5ffbe8fc, 0xf7154b8b,
      0x28c1fcb3, 0xc4b38f9d, 0x83e2f5d7, 0x7d24b98b, 0x21078b22, 0xb193e7a3, 0xb2f49389, 0x6cde6026]"
  by code_simp

lemma rfc7539_round_10: "double_round
     [0xb6b87de6, 0x9a016148, 0x93859815, 0x4915e6cc, 0xdc33c122, 0x98e18fa3, 0x5ffbe8fc, 0xf7154b8b,
      0x28c1fcb3, 0xc4b38f9d, 0x83e2f5d7, 0x7d24b98b, 0x21078b22, 0xb193e7a3, 0xb2f49389, 0x6cde6026]
   = [0x837778ab, 0xe238d763, 0xa67ae21e, 0x5950bb2f, 0xc4f2d0c7, 0xfc62bb2f, 0x8fa018fc, 0x3f5ec7b7,
      0x335271c2, 0xf29489f3, 0xeabda8fc, 0x82e46ebd, 0xd19c12b4, 0xb04e16de, 0x9e83d0cb, 0x4e3c50a2]"
  by code_simp

lemmas rfc7539_rounds = rfc7539_round_1 rfc7539_round_2 rfc7539_round_3 rfc7539_round_4 rfc7539_round_5
  rfc7539_round_6 rfc7539_round_7 rfc7539_round_8 rfc7539_round_9 rfc7539_round_10

lemma ten_rounds: "(f ^^ 10) x = f (f (f (f (f (f (f (f (f (f x)))))))))"
  by (simp add: eval_nat_numeral)

text \<open>
  \<open>chacha_block\<close> computes the block that RFC 7539 gives as its example for the key
  \<open>00:01:...:1f\<close>, the nonce \<open>00:00:00:09:00:00:00:4a:00:00:00:00\<close> and the block count 1.
\<close>
lemma chacha_block_rfc7539:
  "chacha_block
     [0x61707865, 0x3320646e, 0x79622d32, 0x6b206574, 0x03020100, 0x07060504, 0x0b0a0908, 0x0f0e0d0c,
      0x13121110, 0x17161514, 0x1b1a1918, 0x1f1e1d1c, 0x00000001, 0x09000000, 0x4a000000, 0x00000000]
   = [0xe4e7f110, 0x15593bd1, 0x1fdd0f50, 0xc47120a3, 0xc7f4d1c7, 0x0368c033, 0x9aaa2204, 0x4e6cd4c3,
      0x466482d2, 0x09aa9f07, 0x05d7c214, 0xa2028bd9, 0xd19c12b5, 0xb94e16de, 0xe883d0cb, 0x4e3c50a2]"
  unfolding chacha_block_def ten_rounds rfc7539_rounds by code_simp

end
