(* ===== verification/Os.thy ===== *)
theory Os
  imports Prelude "HOL-Library.State_Monad"
begin

text \<open>
  The operating system and C library as the native shims under \<open>src/\<close> see them.  A call
  is a value of type \<open>call\<close>, one case per interface; its answer holds the return value, the output arguments
  and the error variables after the call.  Nothing is assumed about the answers: they come
  from a field of the environment \<open>env\<close>, an arbitrary function of the history of calls,
  which also holds the platform (\<open>_WIN32\<close> or not) and the values of the header constants.
  A shim is a computation in the state monad over the \<open>world\<close>: the history so far, the C
  library's \<open>errno\<close> and Windows' last error.
\<close>

section \<open>Calls and answers\<close>

datatype sock_kind = SOCK_STREAM | SOCK_DGRAM
datatype sock_opt = SO_REUSEADDR | SO_BROADCAST | IPV6_V6ONLY
datatype whence = SEEK_SET | SEEK_END

text \<open>A socket address: an IPv4 or IPv6 address and a port, in host byte order.\<close>
datatype sockaddr = Inet (ip4: u32) (port_of: u16) | Inet6 (ip6: bytes) (port_of: u16)

text \<open>Sockets.\<close>
datatype net_call =
    Socket bool sock_kind            \<comment> \<open>\<open>socket(AF_INET6 or AF_INET, kind, 0)\<close>\<close>
  | Close int                        \<comment> \<open>\<open>close\<close>, \<open>closesocket\<close>\<close>
  | Getfl int                        \<comment> \<open>\<open>fcntl(fd, F_GETFL, 0)\<close>\<close>
  | Setfl_nonblock int int           \<comment> \<open>\<open>fcntl(fd, F_SETFL, flags | O_NONBLOCK)\<close>\<close>
  | Ioctl_nonblock int               \<comment> \<open>\<open>ioctlsocket(fd, FIONBIO, &yes)\<close>\<close>
  | Connect int sockaddr
  | Bind int sockaddr
  | Listen int int
  | Accept int
  | Getsockname int
  | Getsockopt_error int             \<comment> \<open>\<open>getsockopt(fd, SOL_SOCKET, SO_ERROR, ...)\<close>\<close>
  | Setsockopt int sock_opt
  | Send int bytes bool              \<comment> \<open>the flag is \<open>MSG_NOSIGNAL\<close>\<close>
  | Recv int int bool                \<comment> \<open>the flag is \<open>MSG_TRUNC\<close>\<close>
  | Sendto int bytes sockaddr
  | Recvfrom int int bool
  | Poll int bool int                \<comment> \<open>descriptor, for writing, timeout in ms\<close>
  | Select int bool bool "(int \<times> int) option"
      \<comment> \<open>descriptor, for writing, with an exception set, \<open>timeval\<close>\<close>
  | Getaddrinfo bytes bytes sock_kind
  | Freeaddrinfo
  | Inet_pton bytes
  | Inet_addr bytes
  | WSAStartup

text \<open>Clocks, sleeping and the heap.\<close>
datatype lib_call =
    Clock_monotonic
  | Clock_realtime
  | GetTickCount64
  | GetSystemTime
  | Gmtime int
  | Nanosleep int int
  | Sleep int
  | Malloc int
  | Free int
  | MultiByteToWideChar bytes bool   \<comment> \<open>the flag is \<open>MB_ERR_INVALID_CHARS\<close>\<close>
  | WideCharToMultiByte

text \<open>Files.\<close>
datatype file_call =
    Fopen bytes string
  | Wfopen bytes string
  | Fclose int
  | Fseek int int whence
  | Ftell int
  | Fgetc int
  | Fread int int
  | Fwrite int bytes
  | Fflush int
  | Ferror int
  | Mkstemp string
  | Remove bytes
  | Wremove bytes
  | Mkdir bytes
  | CreateDirectoryW bytes
  | GetTempPathW
  | GetTempFileNameW string

text \<open>Processes.\<close>
datatype proc_call =
    Fork
  | Execl bytes                      \<comment> \<open>\<open>execl("/bin/sh", "sh", "-c", text, NULL)\<close>\<close>
  | Exit int
  | Waitpid int                      \<comment> \<open>with \<open>WNOHANG\<close>\<close>
  | Kill int                         \<comment> \<open>with \<open>SIGKILL\<close>\<close>
  | CreateProcessW bytes
  | CloseHandle int
  | WaitForSingleObject int
  | GetExitCodeProcess int
  | TerminateProcess int
  | GetProcessId int

text \<open>The SQLite interface.\<close>
datatype sql_call =
    Sqlite_open_v2 bytes int
  | Sqlite_close_v2 int
  | Sqlite_exec int bytes
  | Sqlite_prepare_v2 int bytes
  | Sqlite_finalize int
  | Sqlite_bind_int64 int int int
  | Sqlite_bind_text int int bytes
  | Sqlite_bind_blob int int bytes
  | Sqlite_bind_null int int
  | Sqlite_bind_double int int u64
  | Sqlite_step int
  | Sqlite_reset int
  | Sqlite_clear_bindings int
  | Sqlite_column_count int
  | Sqlite_column_type int int
  | Sqlite_column_int64 int int
  | Sqlite_column_double int int
  | Sqlite_column_blob int int
  | Sqlite_column_bytes int int

datatype call = Net net_call | Lib lib_call | Fio file_call | Proc proc_call | Sql sql_call

text \<open>
  \<open>ret\<close> is the return value (a pointer is its address, 0 the null pointer; an invalid
  Windows socket is -1), \<open>val\<close> and \<open>val2\<close> the integers and \<open>buf\<close> the bytes stored through
  output arguments, \<open>addrs\<close> the list \<open>getaddrinfo\<close> returns and \<open>origin\<close> a socket address.
\<close>
record answer =
  ret :: int
  val :: int
  val2 :: int
  buf :: bytes
  nums :: "int list"
  addrs :: "sockaddr list"
  origin :: sockaddr
  err :: int
  lasterr :: int

type_synonym event = "call \<times> answer"

record env =
  os :: "event list \<Rightarrow> call \<Rightarrow> answer"
  is_windows :: bool
  has_MSG_NOSIGNAL :: bool
  has_MSG_TRUNC :: bool
  BF_AGAIN :: int
  BF_INTR :: int
  BF_PROGRESS :: int
  WSAEMSGSIZE :: int
  EBADF :: int
  EIO :: int
  EINVAL :: int
  ENOMEM :: int
  EFBIG :: int
  EEXIST :: int
  STDERR :: int
  WIFEXITED :: "int \<Rightarrow> bool"
  WEXITSTATUS :: "int \<Rightarrow> int"
  WIFSIGNALED :: "int \<Rightarrow> bool"
  WTERMSIG :: "int \<Rightarrow> int"

record world =
  trace :: "event list"
  errno :: int
  last_error :: int

type_synonym 'a io = "(world, 'a) state"

abbreviation return :: "'a \<Rightarrow> 'a io" where
  "return \<equiv> State_Monad.return"

definition after :: "world \<Rightarrow> call \<Rightarrow> answer \<Rightarrow> world" where
  "after w c a = w\<lparr>trace := trace w @ [(c, a)], errno := err a, last_error := lasterr a\<rparr>"

definition sys :: "env \<Rightarrow> call \<Rightarrow> answer io" where
  "sys E c = State (\<lambda>w. let a = os E (trace w) c in (a, after w c a))"

abbreviation net :: "env \<Rightarrow> net_call \<Rightarrow> answer io" where
  "net E c \<equiv> sys E (Net c)"

abbreviation lib :: "env \<Rightarrow> lib_call \<Rightarrow> answer io" where
  "lib E c \<equiv> sys E (Lib c)"

abbreviation fio :: "env \<Rightarrow> file_call \<Rightarrow> answer io" where
  "fio E c \<equiv> sys E (Fio c)"

abbreviation prc :: "env \<Rightarrow> proc_call \<Rightarrow> answer io" where
  "prc E c \<equiv> sys E (Proc c)"

abbreviation sql :: "env \<Rightarrow> sql_call \<Rightarrow> answer io" where
  "sql E c \<equiv> sys E (Sql c)"

definition get_errno :: "int io" where
  "get_errno = State (\<lambda>w. (errno w, w))"

definition set_errno :: "int \<Rightarrow> unit io" where
  "set_errno e = State (\<lambda>w. ((), w\<lparr>errno := e\<rparr>))"

definition get_last_error :: "int io" where
  "get_last_error = State (\<lambda>w. (last_error w, w))"

text \<open>A byte string passed as a C string ends at its first zero byte.\<close>
definition c_str :: "bytes \<Rightarrow> bytes" where
  "c_str bs = takeWhile (\<lambda>c. c \<noteq> 0) bs"

section \<open>Weakest preconditions\<close>

definition wp :: "'a io \<Rightarrow> ('a \<Rightarrow> world \<Rightarrow> bool) \<Rightarrow> world \<Rightarrow> bool" where
  "wp m Q w = (case run_state m w of (a, w') \<Rightarrow> Q a w')"

text \<open>The answers the environment can give to a call.\<close>
definition answers :: "env \<Rightarrow> call \<Rightarrow> answer set" where
  "answers E c = {a. \<exists>h. a = os E h c}"

named_theorems wp_simps \<open>weakest preconditions of the building blocks\<close>

lemma wp_return [wp_simps]: "wp (return x) Q w \<longleftrightarrow> Q x w"
  by (simp add: wp_def)

lemma wp_bind [wp_simps]: "wp (State_Monad.bind m f) Q w \<longleftrightarrow> wp m (\<lambda>a w'. wp (f a) Q w') w"
  by (simp add: wp_def split: prod.splits)

lemma wp_errno [wp_simps]:
  "wp get_errno Q w \<longleftrightarrow> Q (errno w) w"
  "wp (set_errno e) R w \<longleftrightarrow> R () (w\<lparr>errno := e\<rparr>)"
  "wp get_last_error Q w \<longleftrightarrow> Q (last_error w) w"
  by (simp_all add: wp_def get_errno_def set_errno_def get_last_error_def)

lemma wp_if [wp_simps]:
  "wp (if b then m else m') Q w \<longleftrightarrow> (b \<longrightarrow> wp m Q w) \<and> (\<not> b \<longrightarrow> wp m' Q w)"
  by simp

lemma wp_split [wp_simps]:
  "wp (case p of (x, y) \<Rightarrow> f x y) Q w \<longleftrightarrow> wp (f (fst p) (snd p)) Q w"
  by (simp add: case_prod_unfold)

lemma wp_sys:
  assumes "\<And>a. a \<in> answers E c \<Longrightarrow> Q a (after w c a)"
  shows "wp (sys E c) Q w"
  using assms by (simp add: wp_def sys_def answers_def Let_def) blast

lemma wp_sys_exact:
  assumes "\<And>a. a = os E (trace w) c \<Longrightarrow> Q a (after w c a)"
  shows "wp (sys E c) Q w"
  using assms by (simp add: wp_def sys_def Let_def)

lemma wp_mono:
  assumes "wp m P w" "\<And>a w'. P a w' \<Longrightarrow> Q a w'"
  shows "wp m Q w"
  using assms by (auto simp: wp_def)

lemma wp_conj: "wp m P w \<Longrightarrow> wp m Q w \<Longrightarrow> wp m (\<lambda>a w'. P a w' \<and> Q a w') w"
  by (auto simp: wp_def)

lemma wp_True [simp]: "wp m (\<lambda>a w'. True) w"
  by (simp add: wp_def case_prod_unfold)

lemma wp_any: "(\<And>a w'. Q a w') \<Longrightarrow> wp m Q w"
  by (simp add: wp_def case_prod_unfold)

lemma wp_case_option [wp_simps]:
  "wp (case r of None \<Rightarrow> m | Some x \<Rightarrow> f x) Q w \<longleftrightarrow>
     (r = None \<longrightarrow> wp m Q w) \<and> (\<forall>x. r = Some x \<longrightarrow> wp (f x) Q w)"
  by (cases r) simp_all

lemma wp_run: "wp m Q w \<Longrightarrow> run_state m w = (a, w') \<Longrightarrow> Q a w'"
  by (simp add: wp_def)

section \<open>Resources\<close>

text \<open>
  What a call takes from or gives back to the system: descriptors, streams, heap blocks,
  address lists, process and thread handles, database connections and statements.
\<close>
datatype rkind = Desc | Stream | Block | Addrs | Handle | Connection | Statement

definition net_delta :: "net_call \<Rightarrow> answer \<Rightarrow> (rkind \<times> int \<times> int) list" where
  "net_delta c a =
     (case c of
        Socket f k \<Rightarrow> if 0 \<le> ret a then [(Desc, ret a, 1)] else []
      | Accept f \<Rightarrow> if 0 \<le> ret a then [(Desc, ret a, 1)] else []
      | Close f \<Rightarrow> [(Desc, f, - 1)]
      | Getaddrinfo h s k \<Rightarrow> if ret a = 0 then [(Addrs, 0, 1)] else []
      | Freeaddrinfo \<Rightarrow> [(Addrs, 0, - 1)]
      | _ \<Rightarrow> [])"

definition lib_delta :: "lib_call \<Rightarrow> answer \<Rightarrow> (rkind \<times> int \<times> int) list" where
  "lib_delta c a =
     (case c of
        Malloc n \<Rightarrow> if ret a \<noteq> 0 then [(Block, ret a, 1)] else []
      | Free p \<Rightarrow> [(Block, p, - 1)]
      | _ \<Rightarrow> [])"

definition file_delta :: "file_call \<Rightarrow> answer \<Rightarrow> (rkind \<times> int \<times> int) list" where
  "file_delta c a =
     (case c of
        Fopen p m \<Rightarrow> if ret a \<noteq> 0 then [(Stream, ret a, 1)] else []
      | Wfopen p m \<Rightarrow> if ret a \<noteq> 0 then [(Stream, ret a, 1)] else []
      | Fclose f \<Rightarrow> [(Stream, f, - 1)]
      | Mkstemp t \<Rightarrow> if 0 \<le> ret a then [(Desc, ret a, 1)] else []
      | _ \<Rightarrow> [])"

definition proc_delta :: "proc_call \<Rightarrow> answer \<Rightarrow> (rkind \<times> int \<times> int) list" where
  "proc_delta c a =
     (case c of
        CreateProcessW l \<Rightarrow> if ret a \<noteq> 0 then [(Handle, val a, 1), (Handle, val2 a, 1)] else []
      | CloseHandle h \<Rightarrow> [(Handle, h, - 1)]
      | _ \<Rightarrow> [])"

definition sql_delta :: "sql_call \<Rightarrow> answer \<Rightarrow> (rkind \<times> int \<times> int) list" where
  "sql_delta c a =
     (case c of
        Sqlite_open_v2 p f \<Rightarrow> if val a \<noteq> 0 then [(Connection, val a, 1)] else []
      | Sqlite_close_v2 d \<Rightarrow> [(Connection, d, - 1)]
      | Sqlite_prepare_v2 d t \<Rightarrow> if val a \<noteq> 0 then [(Statement, val a, 1)] else []
      | Sqlite_finalize s \<Rightarrow> [(Statement, s, - 1)]
      | _ \<Rightarrow> [])"

fun delta :: "event \<Rightarrow> (rkind \<times> int \<times> int) list" where
  "delta (Net c, a) = net_delta c a"
| "delta (Lib c, a) = lib_delta c a"
| "delta (Fio c, a) = file_delta c a"
| "delta (Proc c, a) = proc_delta c a"
| "delta (Sql c, a) = sql_delta c a"

lemmas deltas [simp] = net_delta_def lib_delta_def file_delta_def proc_delta_def sql_delta_def

definition count_of :: "rkind \<Rightarrow> int \<Rightarrow> (rkind \<times> int \<times> int) list \<Rightarrow> int" where
  "count_of k h ds = sum_list (map (\<lambda>(k', h', d). if k' = k \<and> h' = h then d else 0) ds)"

text \<open>Acquisitions less releases of the resource \<open>h\<close> of kind \<open>k\<close> in a history.\<close>
definition bal :: "rkind \<Rightarrow> int \<Rightarrow> event list \<Rightarrow> int" where
  "bal k h tr = sum_list (map (\<lambda>e. count_of k h (delta e)) tr)"

lemma count_of_simps [simp]:
  "count_of k h [] = 0"
  "count_of k h ((k', h', d) # ds) = (if k' = k \<and> h' = h then d else 0) + count_of k h ds"
  by (simp_all add: count_of_def)

lemma bal_simps [simp]:
  "bal k h [] = 0"
  "bal k h (e # tr) = count_of k h (delta e) + bal k h tr"
  "bal k h (tr @ tr') = bal k h tr + bal k h tr'"
  by (simp_all add: bal_def)

lemma after_simps [simp]:
  "trace (after w c a) = trace w @ [(c, a)]"
  "errno (after w c a) = err a"
  "last_error (after w c a) = lasterr a"
  by (simp_all add: after_def)

text \<open>
  \<open>moves w w' f\<close>: between the worlds \<open>w\<close> and \<open>w'\<close> the balance of every resource has changed
  by \<open>f\<close>.  Operations are specified by it: what an object holds afterwards less what it held
  before.
\<close>
definition moves :: "world \<Rightarrow> world \<Rightarrow> (rkind \<Rightarrow> int \<Rightarrow> int) \<Rightarrow> bool" where
  "moves w w' f \<longleftrightarrow> (\<forall>k h. bal k h (trace w') = bal k h (trace w) + f k h)"

lemma moves_refl [simp]: "moves w w f \<longleftrightarrow> (\<forall>k h. f k h = 0)"
  by (simp add: moves_def)

lemma moves_errno [simp]: "moves w (w'\<lparr>errno := e\<rparr>) f \<longleftrightarrow> moves w w' f"
  by (simp add: moves_def)

lemma moves_after:
  "moves w (after w' c a) f \<longleftrightarrow> moves w w' (\<lambda>k h. f k h - count_of k h (delta (c, a)))"
  by (auto simp: moves_def algebra_simps)

lemma moves_trans:
  "moves w w' f \<Longrightarrow> moves w' w'' g \<Longrightarrow> moves w w'' (\<lambda>k h. f k h + g k h)"
  by (simp add: moves_def)

lemma moves_step:
  "moves w' w'' g \<Longrightarrow> moves w w'' f \<longleftrightarrow> moves w w' (\<lambda>k h. f k h - g k h)"
  by (auto simp: moves_def algebra_simps)

text \<open>
  \<open>calls P w w'\<close>: the history has only grown between the worlds, and by calls that satisfy \<open>P\<close>.
\<close>
definition calls :: "(call \<Rightarrow> bool) \<Rightarrow> world \<Rightarrow> world \<Rightarrow> bool" where
  "calls P w w' \<longleftrightarrow> (\<exists>es. trace w' = trace w @ es \<and> list_all (\<lambda>e. P (fst e)) es)"

lemma calls_refl [simp, intro]: "calls P w w"
  by (simp add: calls_def)

lemma calls_after [intro!]: "calls P w w' \<Longrightarrow> P c \<Longrightarrow> calls P w (after w' c a)"
  by (auto simp: calls_def)

lemma calls_trans [trans]: "calls P w w' \<Longrightarrow> calls P w' w'' \<Longrightarrow> calls P w w''"
  by (auto simp: calls_def)

lemma calls_afterD: "calls P (after w c a) w' \<Longrightarrow> P c \<Longrightarrow> calls P w w'"
  by (auto simp: calls_def)

lemma wp_sys_calls:
  assumes "P c" "\<And>a w'. calls P w w' \<Longrightarrow> Q a w'"
  shows "wp (sys E c) Q w"
  using assms by (auto intro!: wp_sys)

text \<open>Documented of \<open>socket\<close> and \<open>accept\<close>: a descriptor, or -1.\<close>
definition fd_results :: "env \<Rightarrow> bool" where
  "fd_results E \<longleftrightarrow>
     (\<forall>f k a. a \<in> answers E (Net (Socket f k)) \<longrightarrow> - 1 \<le> ret a) \<and>
     (\<forall>f a. a \<in> answers E (Net (Accept f)) \<longrightarrow> - 1 \<le> ret a)"

lemma fd_resultsD:
  "fd_results E \<Longrightarrow> a \<in> answers E (Net (Socket f k)) \<Longrightarrow> - 1 \<le> ret a"
  "fd_results E \<Longrightarrow> a \<in> answers E (Net (Accept g)) \<Longrightarrow> - 1 \<le> ret a"
  by (auto simp: fd_results_def)

section \<open>A concrete environment\<close>

text \<open>
  A POSIX system with Linux' error numbers on which every call succeeds: a return value of
  0 (descriptor 0 for \<open>socket\<close>), and a clock that advances with every call.
\<close>
definition demo_env :: env where
  "demo_env =
     \<lparr>os = (\<lambda>h c. \<lparr>ret = 0, val = int (length h), val2 = 0, buf = [], nums = [],
                   addrs = [Inet 0x7f000001 80], origin = Inet 0x7f000001 80, err = 0, lasterr = 0\<rparr>),
      is_windows = False, has_MSG_NOSIGNAL = True, has_MSG_TRUNC = True, BF_AGAIN = 11, BF_INTR = 4,
      BF_PROGRESS = 115, WSAEMSGSIZE = 10040, EBADF = 9, EIO = 5, EINVAL = 22, ENOMEM = 12,
      EFBIG = 27, EEXIST = 17, STDERR = 1,
      WIFEXITED = (\<lambda>s. s mod 128 = 0), WEXITSTATUS = (\<lambda>s. s div 256 mod 256),
      WIFSIGNALED = (\<lambda>s. 0 < s mod 128 \<and> s mod 128 < 127), WTERMSIG = (\<lambda>s. s mod 128)\<rparr>"

definition demo_world :: world where
  "demo_world = \<lparr>trace = [], errno = 0, last_error = 0\<rparr>"

lemma demo_simps [simp]:
  "os demo_env h c = \<lparr>ret = 0, val = int (length h), val2 = 0, buf = [], nums = [],
     addrs = [Inet 0x7f000001 80], origin = Inet 0x7f000001 80, err = 0, lasterr = 0\<rparr>"
  "is_windows demo_env = False" "has_MSG_TRUNC demo_env = True" "BF_INTR demo_env = 4"
  "BF_AGAIN demo_env = 11" "EIO demo_env = 5" "EBADF demo_env = 9" "EINVAL demo_env = 22"
  "ENOMEM demo_env = 12" "EFBIG demo_env = 27" "EEXIST demo_env = 17"
  "trace demo_world = []" "errno demo_world = 0" "last_error demo_world = 0"
  by (simp_all add: demo_env_def demo_world_def)

lemma demo_fd_results: "fd_results demo_env"
  by (auto simp: fd_results_def answers_def)

end
