(* ===== verification/Socket.thy ===== *)
theory Socket
  imports Os
begin

text \<open>
  The socket bridge \<open>src/transport/socket.c\<close>.  A \<open>bf_socket\<close> is passed to an operation and
  returned updated, next to the C return value.
\<close>

section \<open>The socket object\<close>

record bf_socket =
  fd :: int
  error :: int
  started :: int
  udp :: bool
  have_peer :: bool
  peer :: sockaddr

abbreviation BF_INVALID :: int where
  "BF_INVALID \<equiv> - 1"

definition bf_errno :: "env \<Rightarrow> int io" where
  "bf_errno E = (if is_windows E then get_last_error else get_errno)"

text \<open>\<open>g\<close> is the static \<open>g_bf_wsa_ready\<close>, \<open>e\<close> the error slot; both are returned.\<close>
definition bf_wsa_init :: "env \<Rightarrow> int \<Rightarrow> int \<Rightarrow> (int \<times> int) io" where
  "bf_wsa_init E g e =
     (if is_windows E \<and> g = 0
      then do {
        a \<leftarrow> net E WSAStartup;
        return (if ret a = 0 then (1, e) else if e = 0 then (g, ret a) else (g, e))
      }
      else return (g, e))"

definition bf_reset :: "env \<Rightarrow> bf_socket \<Rightarrow> bf_socket io" where
  "bf_reset E s =
     (if fd s \<noteq> BF_INVALID
      then do { _ \<leftarrow> net E (Close (fd s)); return (s\<lparr>fd := BF_INVALID\<rparr>) }
      else return s)"

definition bf_finalize :: "env \<Rightarrow> bf_socket \<Rightarrow> bf_socket io" where
  "bf_finalize E s = bf_reset E s"

definition bf_new :: "env \<Rightarrow> int \<Rightarrow> (bf_socket \<times> int) io" where
  "bf_new E g =
     do {
       (g, e) \<leftarrow> bf_wsa_init E g 0;
       return (\<lparr>fd = BF_INVALID, error = e, started = 0, udp = False, have_peer = False,
                peer = Inet 0 0\<rparr>, g)
     }"

definition bf_close :: "env \<Rightarrow> bf_socket \<Rightarrow> bf_socket io" where
  "bf_close E s = bf_finalize E s"

definition bf_error :: "bf_socket \<Rightarrow> int" where
  "bf_error s = error s"

section \<open>Time and readiness\<close>

definition bf_now :: "env \<Rightarrow> int io" where
  "bf_now E =
     (if is_windows E
      then do { a \<leftarrow> lib E GetTickCount64; return (to_i64 (ret a)) }
      else do { a \<leftarrow> lib E Clock_monotonic; return (val a * 1000 + c_div (val2 a) 1000000) })"

definition bf_nonblock :: "env \<Rightarrow> int \<Rightarrow> int io" where
  "bf_nonblock E f =
     (if is_windows E
      then do { a \<leftarrow> net E (Ioctl_nonblock f); return (ret a) }
      else do {
        a \<leftarrow> net E (Getfl f);
        if ret a < 0 then return (- 1)
        else do { b \<leftarrow> net E (Setfl_nonblock f (ret a)); return (ret b) }
      })"

text \<open>
  The \<open>for(;;)\<close> loop of \<open>bf_wait\<close>, at most \<open>n\<close> times round: \<open>None\<close> when it has not
  returned by then.
\<close>
fun bf_wait_loop :: "env \<Rightarrow> nat \<Rightarrow> bf_socket \<Rightarrow> bool \<Rightarrow> int \<Rightarrow> (int \<times> bf_socket) option io" where
  "bf_wait_loop E 0 s writing deadline = return None"
| "bf_wait_loop E (Suc n) s writing deadline =
     do {
       t \<leftarrow> bf_now E;
       let left = (if deadline - t < 0 then 0 else deadline - t);
       a \<leftarrow> (if is_windows E
            then net E (Select (fd s) writing True
                          (Some (to_i32 (c_div left 1000), to_i32 (c_mod left 1000) * 1000)))
            else net E (Poll (fd s) writing (to_i32 left)));
       if ret a \<ge> 0 then return (Some (if ret a > 0 then 1 else 0, s))
       else do {
         e \<leftarrow> bf_errno E;
         let s = s\<lparr>error := e\<rparr>;
         if e \<noteq> BF_INTR E then return (Some (- 1, s))
         else do {
           t \<leftarrow> bf_now E;
           if t \<ge> deadline then return (Some (0, s))
           else bf_wait_loop E n s writing deadline
         }
       }
     }"

definition bf_wait :: "env \<Rightarrow> nat \<Rightarrow> bf_socket \<Rightarrow> bool \<Rightarrow> int \<Rightarrow> (int \<times> bf_socket) option io" where
  "bf_wait E n s writing timeout =
     do { t \<leftarrow> bf_now E; bf_wait_loop E n s writing (t + timeout) }"

section \<open>Connecting\<close>

text \<open>The addresses \<open>bf_connect\<close> refuses for a datagram socket.\<close>
fun not_unicast :: "sockaddr \<Rightarrow> bool" where
  "not_unicast (Inet6 a p) \<longleftrightarrow> a = replicate 16 0 \<or> take 1 a = [0xff]"
| "not_unicast (Inet ip p) \<longleftrightarrow> ip = 0 \<or> ip \<ge> 0xe0000000"

fun is_inet6 :: "sockaddr \<Rightarrow> bool" where
  "is_inet6 (Inet6 a p) \<longleftrightarrow> True"
| "is_inet6 (Inet ip p) \<longleftrightarrow> False"

text \<open>
  The part of the loop body after \<open>connect\<close> has reported that it is in progress.  The
  result says whether the loop is left, and with which \<open>result\<close>.
\<close>
definition connect_pending ::
  "env \<Rightarrow> nat \<Rightarrow> bf_socket \<Rightarrow> int \<Rightarrow> int \<Rightarrow> (bool \<times> int \<times> bf_socket) option io" where
  "connect_pending E n s deadline result =
     do {
       t \<leftarrow> bf_now E;
       let left = deadline - t;
       if left \<le> 0 then do { s \<leftarrow> bf_reset E s; return (Some (True, - 2, s)) }
       else do {
         r \<leftarrow> bf_wait E n s True (to_i32 left);
         (case r of
            None \<Rightarrow> return None
          | Some (ready, s) \<Rightarrow>
              if ready = 0 then do { s \<leftarrow> bf_reset E s; return (Some (True, - 2, s)) }
              else do {
                (done, e) \<leftarrow>
                  (if ready > 0
                   then do {
                     a \<leftarrow> net E (Getsockopt_error (fd s));
                     return (ret a = 0 \<and> val a = 0, val a)
                   }
                   else return (False, 0));
                if done then return (Some (True, 0, s))
                else do {
                  e' \<leftarrow> bf_errno E;
                  s \<leftarrow> bf_reset E (s\<lparr>error := (if e \<noteq> 0 then e else e')\<rparr>);
                  return (Some (False, result, s))
                }
              })
       }
     }"

text \<open>The body of the loop over the resolved addresses.\<close>
definition connect_one ::
  "env \<Rightarrow> nat \<Rightarrow> bf_socket \<Rightarrow> bool \<Rightarrow> int \<Rightarrow> int \<Rightarrow> sockaddr \<Rightarrow> (bool \<times> int \<times> bf_socket) option io" where
  "connect_one E n s dgram deadline result address =
     (if dgram \<and> not_unicast address then return (Some (False, - 3, s))
      else do {
        a \<leftarrow> net E (Socket (is_inet6 address) (if dgram then SOCK_DGRAM else SOCK_STREAM));
        let s = s\<lparr>fd := ret a\<rparr>;
        if fd s = BF_INVALID
        then do { e \<leftarrow> bf_errno E; return (Some (False, result, s\<lparr>error := e\<rparr>)) }
        else do {
          r \<leftarrow> bf_nonblock E (fd s);
          if r \<noteq> 0
          then do {
            e \<leftarrow> bf_errno E;
            s \<leftarrow> bf_reset E (s\<lparr>error := e\<rparr>);
            return (Some (False, result, s))
          }
          else do {
            c \<leftarrow> net E (Connect (fd s) address);
            if ret c = 0 then return (Some (True, 0, s))
            else do {
              e \<leftarrow> bf_errno E;
              let s = s\<lparr>error := e\<rparr>;
              if e = BF_AGAIN E \<or> e = BF_PROGRESS E then connect_pending E n s deadline result
              else do { s \<leftarrow> bf_reset E s; return (Some (False, result, s)) }
            }
          }
        }
      })"

fun connect_loop ::
  "env \<Rightarrow> nat \<Rightarrow> bf_socket \<Rightarrow> bool \<Rightarrow> int \<Rightarrow> int \<Rightarrow> sockaddr list \<Rightarrow> (int \<times> bf_socket) option io" where
  "connect_loop E n s dgram deadline result [] = return (Some (result, s))"
| "connect_loop E n s dgram deadline result (address # rest) =
     do {
       r \<leftarrow> connect_one E n s dgram deadline result address;
       (case r of
          None \<Rightarrow> return None
        | Some (stop, result, s) \<Rightarrow>
            if stop then return (Some (result, s))
            else connect_loop E n s dgram deadline result rest)
     }"

text \<open>\<open>char service[8]; snprintf(service, sizeof(service), "%d", port)\<close>.\<close>
definition service_of :: "int \<Rightarrow> bytes" where
  "service_of port = take 7 (decimal port)"

definition bf_connect ::
  "env \<Rightarrow> nat \<Rightarrow> bf_socket \<Rightarrow> bytes \<Rightarrow> int \<Rightarrow> int \<Rightarrow> bool \<Rightarrow> (int \<times> bf_socket) option io" where
  "bf_connect E n s host port timeout dgram =
     (if error s \<noteq> 0 then return (Some (- 1, s))
      else do {
        let s = s\<lparr>udp := dgram\<rparr>;
        a \<leftarrow> net E (Getaddrinfo (c_str host) (service_of port) (if dgram then SOCK_DGRAM else SOCK_STREAM));
        if ret a \<noteq> 0 then return (Some (- 1, s\<lparr>error := ret a\<rparr>))
        else do {
          t \<leftarrow> bf_now E;
          r \<leftarrow> connect_loop E n s dgram (t + timeout) (- 1) (addrs a);
          (case r of
             None \<Rightarrow> return None
           | Some (result, s) \<Rightarrow> do {
               _ \<leftarrow> net E Freeaddrinfo;
               return (Some (result, if result = 0 then s\<lparr>error := 0\<rparr> else s))
             })
        }
      })"

section \<open>Sending and receiving\<close>

text \<open>The status of a failed transfer.\<close>
definition retry_or_fail :: "env \<Rightarrow> int \<Rightarrow> int" where
  "retry_or_fail E e = (if e = BF_AGAIN E \<or> e = BF_INTR E then - 2 else - 1)"

definition bf_send :: "env \<Rightarrow> bf_socket \<Rightarrow> bytes \<Rightarrow> nat \<Rightarrow> nat \<Rightarrow> (int \<times> bf_socket) io" where
  "bf_send E s data offset len =
     do {
       a \<leftarrow> net E (Send (fd s) (take len (drop offset data)) (has_MSG_NOSIGNAL E));
       let n = to_i32 (ret a);
       if n \<ge> 0 then return (n, s)
       else do { e \<leftarrow> bf_errno E; return (retry_or_fail E e, s\<lparr>error := e\<rparr>) }
     }"

definition bf_recv :: "env \<Rightarrow> bf_socket \<Rightarrow> int \<Rightarrow> (int \<times> bytes \<times> bf_socket) io" where
  "bf_recv E s len =
     do {
       a \<leftarrow> net E (Recv (fd s) len (\<not> is_windows E \<and> has_MSG_TRUNC E \<and> udp s));
       let n = to_i32 (ret a);
       if n > len then return (- 3, buf a, s)
       else if n \<ge> 0 then return (n, buf a, s)
       else do {
         e \<leftarrow> bf_errno E;
         let s = s\<lparr>error := e\<rparr>;
         if is_windows E \<and> e = WSAEMSGSIZE E then return (- 3, buf a, s)
         else return (retry_or_fail E e, buf a, s)
       }
     }"

section \<open>Fixture sockets on the loopback interface\<close>

definition INADDR_LOOPBACK :: u32 where
  "INADDR_LOOPBACK = 0x7f000001"

definition in6addr_loopback :: bytes where
  "in6addr_loopback = replicate 15 0 @ [1]"

text \<open>\<open>bind(...) != 0 || listen(fd, 8) != 0 || bf_nonblock(fd) != 0\<close>.\<close>
definition bind_listen_fails :: "env \<Rightarrow> int \<Rightarrow> sockaddr \<Rightarrow> bool io" where
  "bind_listen_fails E f address =
     do {
       b \<leftarrow> net E (Bind f address);
       if ret b \<noteq> 0 then return True
       else do {
         l \<leftarrow> net E (Listen f 8);
         if ret l \<noteq> 0 then return True
         else do { r \<leftarrow> bf_nonblock E f; return (r \<noteq> 0) }
       }
     }"

text \<open>\<open>bind(...) != 0 || bf_nonblock(fd) != 0\<close>.\<close>
definition bind_fails :: "env \<Rightarrow> int \<Rightarrow> sockaddr \<Rightarrow> bool io" where
  "bind_fails E f address =
     do {
       b \<leftarrow> net E (Bind f address);
       if ret b \<noteq> 0 then return True
       else do { r \<leftarrow> bf_nonblock E f; return (r \<noteq> 0) }
     }"

definition bf_listen :: "env \<Rightarrow> bf_socket \<Rightarrow> (int \<times> bf_socket) io" where
  "bf_listen E s =
     (if error s \<noteq> 0 then return (- 1, s)
      else do {
        a \<leftarrow> net E (Socket False SOCK_STREAM);
        let s = s\<lparr>fd := ret a\<rparr>;
        if fd s = BF_INVALID then do { e \<leftarrow> bf_errno E; return (- 1, s\<lparr>error := e\<rparr>) }
        else do {
          bad \<leftarrow> bind_listen_fails E (fd s) (Inet INADDR_LOOPBACK 0);
          if bad then do { e \<leftarrow> bf_errno E; s \<leftarrow> bf_close E (s\<lparr>error := e\<rparr>); return (- 1, s) }
          else do {
            g \<leftarrow> net E (Getsockname (fd s));
            if ret g \<noteq> 0 then do { e \<leftarrow> bf_errno E; s \<leftarrow> bf_close E (s\<lparr>error := e\<rparr>); return (- 1, s) }
            else return (uint (port_of (origin g)), s)
          }
        }
      })"

text \<open>\<open>bf_accept\<close> changes the client object only.\<close>
definition bf_accept :: "env \<Rightarrow> bf_socket \<Rightarrow> bf_socket \<Rightarrow> (int \<times> bf_socket) io" where
  "bf_accept E listener client =
     do {
       a \<leftarrow> net E (Accept (fd listener));
       let client = client\<lparr>fd := ret a\<rparr>;
       bad \<leftarrow> (if fd client = BF_INVALID then return True
               else do { r \<leftarrow> bf_nonblock E (fd client); return (r \<noteq> 0) });
       if bad then do { e \<leftarrow> bf_errno E; client \<leftarrow> bf_close E (client\<lparr>error := e\<rparr>); return (- 1, client) }
       else return (0, client)
     }"

definition bf_listen6 :: "env \<Rightarrow> bf_socket \<Rightarrow> (int \<times> bf_socket) io" where
  "bf_listen6 E s =
     (if error s \<noteq> 0 then return (- 1, s)
      else do {
        a \<leftarrow> net E (Socket True SOCK_STREAM);
        let s = s\<lparr>fd := ret a\<rparr>;
        if fd s = BF_INVALID then do { e \<leftarrow> bf_errno E; return (- 1, s\<lparr>error := e\<rparr>) }
        else do {
          _ \<leftarrow> (if is_windows E then do { _ \<leftarrow> net E (Setsockopt (fd s) IPV6_V6ONLY); return () }
               else return ());
          bad \<leftarrow> bind_listen_fails E (fd s) (Inet6 in6addr_loopback 0);
          if bad then do { e \<leftarrow> bf_errno E; s \<leftarrow> bf_close E (s\<lparr>error := e\<rparr>); return (- 1, s) }
          else do {
            g \<leftarrow> net E (Getsockname (fd s));
            if ret g \<noteq> 0 then do { e \<leftarrow> bf_errno E; s \<leftarrow> bf_close E (s\<lparr>error := e\<rparr>); return (- 1, s) }
            else return (uint (port_of (origin g)), s)
          }
        }
      })"

definition bf_port6 :: "env \<Rightarrow> bf_socket \<Rightarrow> int io" where
  "bf_port6 E s =
     do {
       g \<leftarrow> net E (Getsockname (fd s));
       return (if ret g \<noteq> 0 then - 1 else uint (port_of (origin g)))
     }"

definition bf_bind_udp6 :: "env \<Rightarrow> bf_socket \<Rightarrow> (int \<times> bf_socket) io" where
  "bf_bind_udp6 E s =
     (if error s \<noteq> 0 then return (- 1, s)
      else do {
        a \<leftarrow> net E (Socket True SOCK_DGRAM);
        let s = s\<lparr>udp := True, fd := ret a\<rparr>;
        if fd s = BF_INVALID then return (- 1, s)
        else do {
          bad \<leftarrow> bind_fails E (fd s) (Inet6 in6addr_loopback 0);
          if bad then do { s \<leftarrow> bf_close E s; return (- 1, s) }
          else do { p \<leftarrow> bf_port6 E s; return (p, s) }
        }
      })"

definition bf_udp6_receive_peer :: "env \<Rightarrow> bf_socket \<Rightarrow> int \<Rightarrow> (int \<times> bytes) io" where
  "bf_udp6_receive_peer E s len =
     do {
       a \<leftarrow> net E (Recvfrom (fd s) len False);
       let n = to_i32 (ret a);
       if n < 0 then return (- 1, buf a)
       else do {
         c \<leftarrow> net E (Connect (fd s) (origin a));
         return (if ret c \<noteq> 0 then - 1 else n, buf a)
       }
     }"

definition bf_udp6_send_port :: "env \<Rightarrow> bf_socket \<Rightarrow> int \<Rightarrow> bytes \<Rightarrow> int io" where
  "bf_udp6_send_port E s port data =
     do {
       a \<leftarrow> net E (Sendto (fd s) data (Inet6 in6addr_loopback (word_of_int port)));
       return (to_i32 (ret a))
     }"

definition bf_port :: "env \<Rightarrow> bf_socket \<Rightarrow> int io" where
  "bf_port E s =
     do {
       g \<leftarrow> net E (Getsockname (fd s));
       return (if ret g \<noteq> 0 then - 1 else uint (port_of (origin g)))
     }"

definition bf_bind_udp :: "env \<Rightarrow> bf_socket \<Rightarrow> (int \<times> bf_socket) io" where
  "bf_bind_udp E s =
     (if error s \<noteq> 0 then return (- 1, s)
      else do {
        a \<leftarrow> net E (Socket False SOCK_DGRAM);
        let s = s\<lparr>udp := True, fd := ret a\<rparr>;
        if fd s = BF_INVALID then return (- 1, s)
        else do {
          bad \<leftarrow> bind_fails E (fd s) (Inet INADDR_LOOPBACK 0);
          if bad then do { s \<leftarrow> bf_close E s; return (- 1, s) }
          else do { p \<leftarrow> bf_port E s; return (p, s) }
        }
      })"

definition bf_udp_receive_peer :: "env \<Rightarrow> bf_socket \<Rightarrow> int \<Rightarrow> (int \<times> bytes) io" where
  "bf_udp_receive_peer E s len =
     do {
       a \<leftarrow> net E (Recvfrom (fd s) len False);
       let n = to_i32 (ret a);
       if n < 0 then return (- 1, buf a)
       else do {
         c \<leftarrow> net E (Connect (fd s) (origin a));
         return (if ret c \<noteq> 0 then - 1 else n, buf a)
       }
     }"

definition bf_udp_send_port :: "env \<Rightarrow> bf_socket \<Rightarrow> int \<Rightarrow> bytes \<Rightarrow> int io" where
  "bf_udp_send_port E s port data =
     do {
       a \<leftarrow> net E (Sendto (fd s) data (Inet INADDR_LOOPBACK (word_of_int port)));
       return (to_i32 (ret a))
     }"

definition bf_sleep :: "env \<Rightarrow> int \<Rightarrow> unit io" where
  "bf_sleep E ms =
     do {
       _ \<leftarrow> lib E (if is_windows E then Sleep (take_bit 32 ms)
                  else Nanosleep (c_div ms 1000) (c_mod ms 1000 * 1000000));
       return ()
     }"

section \<open>UDP server mode and broadcast\<close>

text \<open>\<open>bf_parse_ipv4\<close>: the address when the text is an IPv4 literal (its port is 0).\<close>
definition bf_parse_ipv4 :: "env \<Rightarrow> bytes \<Rightarrow> u32 option io" where
  "bf_parse_ipv4 E text =
     (if is_windows E
      then do {
        a \<leftarrow> net E (Inet_addr text);
        let ip = word_of_int (val a);
        return (if ip \<noteq> 0xffffffff then Some ip else None)
      }
      else do {
        a \<leftarrow> net E (Inet_pton text);
        return (if ret a = 1 then Some (word_of_int (val a)) else None)
      })"

text \<open>Closing the descriptor where the source does so in line.\<close>
definition udp_server_fail :: "env \<Rightarrow> bf_socket \<Rightarrow> int \<Rightarrow> (int \<times> bf_socket) io" where
  "udp_server_fail E s e =
     do { _ \<leftarrow> net E (Close (fd s)); return (- 1, s\<lparr>error := e, fd := BF_INVALID\<rparr>) }"

definition udp_server_bind :: "env \<Rightarrow> bf_socket \<Rightarrow> u32 \<Rightarrow> int \<Rightarrow> (int \<times> bf_socket) io" where
  "udp_server_bind E s ip port =
     do {
       _ \<leftarrow> net E (Setsockopt (fd s) SO_REUSEADDR);
       bad \<leftarrow> bind_fails E (fd s) (Inet ip (word_of_int port));
       if bad then do { e \<leftarrow> bf_errno E; udp_server_fail E s e }
       else return (0, s)
     }"

definition bf_udp_server :: "env \<Rightarrow> bf_socket \<Rightarrow> bytes \<Rightarrow> int \<Rightarrow> (int \<times> bf_socket) io" where
  "bf_udp_server E s host port =
     (if error s \<noteq> 0 then return (- 1, s)
      else do {
        a \<leftarrow> net E (Socket False SOCK_DGRAM);
        let s = s\<lparr>udp := True, fd := ret a\<rparr>;
        if fd s = BF_INVALID then do { e \<leftarrow> bf_errno E; return (- 1, s\<lparr>error := e\<rparr>) }
        else if host = [] then udp_server_bind E s 0 port
        else do {
          m \<leftarrow> lib E (Malloc (int (length host) + 1));
          if ret m = 0 then udp_server_fail E s (- 1)
          else do {
            ip \<leftarrow> bf_parse_ipv4 E (c_str host);
            (case ip of
               None \<Rightarrow> do { _ \<leftarrow> lib E (Free (ret m)); udp_server_fail E s (- 1) }
             | Some ip \<Rightarrow> do { _ \<leftarrow> lib E (Free (ret m)); udp_server_bind E s ip port })
          }
        }
      })"

definition bf_udp_local_port :: "env \<Rightarrow> bf_socket \<Rightarrow> (int \<times> bf_socket) io" where
  "bf_udp_local_port E s =
     (if error s \<noteq> 0 \<or> fd s = BF_INVALID then return (- 1, s)
      else do {
        g \<leftarrow> net E (Getsockname (fd s));
        if ret g \<noteq> 0 then do { e \<leftarrow> bf_errno E; return (- 1, s\<lparr>error := e\<rparr>) }
        else return (uint (port_of (origin g)), s)
      })"

definition bf_udp_broadcast_enable :: "env \<Rightarrow> bf_socket \<Rightarrow> (int \<times> bf_socket) io" where
  "bf_udp_broadcast_enable E s =
     (if error s \<noteq> 0 then return (- 1, s)
      else do {
        a \<leftarrow> net E (Socket False SOCK_DGRAM);
        let s = s\<lparr>udp := True, fd := ret a\<rparr>;
        if fd s = BF_INVALID then do { e \<leftarrow> bf_errno E; return (- 1, s\<lparr>error := e\<rparr>) }
        else do {
          b \<leftarrow> net E (Setsockopt (fd s) SO_BROADCAST);
          bad \<leftarrow> (if ret b \<noteq> 0 then return True
                  else do { r \<leftarrow> bf_nonblock E (fd s); return (r \<noteq> 0) });
          if bad then do { e \<leftarrow> bf_errno E; udp_server_fail E s e }
          else return (0, s)
        }
      })"

definition bf_udp_recvfrom :: "env \<Rightarrow> bf_socket \<Rightarrow> int \<Rightarrow> (int \<times> bytes \<times> bf_socket) io" where
  "bf_udp_recvfrom E s len =
     do {
       a \<leftarrow> net E (Recvfrom (fd s) len (\<not> is_windows E \<and> has_MSG_TRUNC E));
       let n = to_i32 (ret a);
       if n > len then return (- 3, buf a, s\<lparr>peer := origin a, have_peer := True\<rparr>)
       else if n \<ge> 0 then return (n, buf a, s\<lparr>peer := origin a, have_peer := True\<rparr>)
       else do {
         e \<leftarrow> bf_errno E;
         if is_windows E \<and> e = WSAEMSGSIZE E then return (- 3, buf a, s\<lparr>error := e\<rparr>)
         else if e = BF_AGAIN E \<or> e = BF_INTR E \<or> e = BF_PROGRESS E then return (- 2, buf a, s)
         else return (- 1, buf a, s\<lparr>error := e\<rparr>)
       }
     }"

text \<open>The result of a \<open>sendto\<close>, as the two send operations report it.\<close>
definition sendto_result :: "env \<Rightarrow> bf_socket \<Rightarrow> int \<Rightarrow> (int \<times> bf_socket) io" where
  "sendto_result E s n =
     (if n < 0
      then do {
        e \<leftarrow> bf_errno E;
        return (if e = BF_AGAIN E \<or> e = BF_INTR E \<or> e = BF_PROGRESS E then (- 2, s)
                else (- 1, s\<lparr>error := e\<rparr>))
      }
      else return (n, s))"

definition bf_udp_send_peer :: "env \<Rightarrow> bf_socket \<Rightarrow> bytes \<Rightarrow> (int \<times> bf_socket) io" where
  "bf_udp_send_peer E s data =
     (if \<not> have_peer s then return (- 3, s)
      else do {
        a \<leftarrow> net E (Sendto (fd s) data (peer s));
        sendto_result E s (to_i32 (ret a))
      })"

definition bf_udp_send_address ::
  "env \<Rightarrow> bf_socket \<Rightarrow> bytes \<Rightarrow> int \<Rightarrow> bytes \<Rightarrow> (int \<times> bf_socket) io" where
  "bf_udp_send_address E s host port data =
     do {
       m \<leftarrow> lib E (Malloc (int (length host) + 1));
       if ret m = 0 then return (- 1, s\<lparr>error := - 1\<rparr>)
       else do {
         ip \<leftarrow> bf_parse_ipv4 E (c_str host);
         _ \<leftarrow> lib E (Free (ret m));
         (case ip of
            None \<Rightarrow> return (- 4, s)
          | Some ip \<Rightarrow> do {
              a \<leftarrow> net E (Sendto (fd s) data (Inet ip (word_of_int port)));
              sendto_result E s (to_i32 (ret a))
            })
       }
     }"

section \<open>Resource specifications\<close>

text \<open>What a socket object holds.\<close>
definition holds :: "bf_socket \<Rightarrow> rkind \<Rightarrow> int \<Rightarrow> int" where
  "holds s k h = of_bool (k = Desc \<and> h = fd s \<and> fd s \<noteq> BF_INVALID)"

lemma holds_simps [simp]:
  "holds (s\<lparr>error := e\<rparr>) = holds s"
  "holds (s\<lparr>udp := u\<rparr>) = holds s"
  "holds (s\<lparr>fd := - 1\<rparr>) = (\<lambda>_ _. 0)"
  "fd s = - 1 \<Longrightarrow> holds s = (\<lambda>_ _. 0)"
  by (auto simp: holds_def fun_eq_iff)

lemma fd_self [simp]: "fd s = f \<Longrightarrow> s\<lparr>fd := f\<rparr> = s"
  by (cases s) simp

lemma port_ge [simp]: "- 1 \<le> uint (p :: u16)"
  by (rule order_trans [OF _ uint_ge_0]) simp

lemma bf_errno_spec:
  assumes "\<And>e. Q e w"
  shows "wp (bf_errno E) Q w"
  using assms by (simp add: bf_errno_def wp_simps)

lemma bf_now_spec:
  assumes "\<And>t w'. moves w w' (\<lambda>_ _. 0) \<Longrightarrow> Q t w'"
  shows "wp (bf_now E) Q w"
  by (auto simp: bf_now_def wp_simps moves_after intro!: wp_sys assms)

lemma bf_nonblock_spec:
  assumes "\<And>r w'. moves w w' (\<lambda>_ _. 0) \<Longrightarrow> Q r w'"
  shows "wp (bf_nonblock E f) Q w"
  by (auto simp: bf_nonblock_def wp_simps moves_after intro!: wp_sys assms)

lemma bf_reset_spec:
  assumes "\<And>w'. moves w w' (\<lambda>k h. - holds s k h) \<Longrightarrow> Q (s\<lparr>fd := BF_INVALID\<rparr>) w'"
  shows "wp (bf_reset E s) Q w"
  using assms
  by (auto simp: bf_reset_def wp_simps moves_after holds_def intro!: wp_sys)

lemmas bf_close_spec = bf_reset_spec [folded bf_finalize_def, folded bf_close_def]

lemmas socket_vcg = wp_sys bf_errno_spec bf_now_spec bf_nonblock_spec bf_reset_spec

lemma bf_wait_loop_spec:
  assumes "\<And>w'. moves w w' (\<lambda>_ _. 0) \<Longrightarrow> Q None w'"
    and "\<And>r e w'. moves w w' (\<lambda>_ _. 0) \<Longrightarrow> r \<in> {- 1, 0, 1} \<Longrightarrow> Q (Some (r, s\<lparr>error := e\<rparr>)) w'"
  shows "wp (bf_wait_loop E n s writing deadline) Q w"
  using assms
proof (induction n arbitrary: s w)
  case 0
  then show ?case by (simp add: wp_simps)
next
  case (Suc n)
  have same: "Q (Some (r, s)) w'" if "moves w w' (\<lambda>_ _. 0)" "r \<in> {- 1, 0, 1}" for r w'
    using Suc.prems(2) [OF that, of "error s"] by simp
  show ?case
    by (auto simp: wp_simps Let_def moves_def intro!: same Suc.prems Suc.IH socket_vcg)
qed

lemma bf_wait_spec:
  assumes "\<And>w'. moves w w' (\<lambda>_ _. 0) \<Longrightarrow> Q None w'"
    and "\<And>r e w'. moves w w' (\<lambda>_ _. 0) \<Longrightarrow> r \<in> {- 1, 0, 1} \<Longrightarrow> Q (Some (r, s\<lparr>error := e\<rparr>)) w'"
  shows "wp (bf_wait E n s writing timeout) Q w"
  unfolding bf_wait_def
  by (auto simp: wp_simps moves_def intro!: assms bf_now_spec bf_wait_loop_spec)

lemma connect_pending_spec:
  assumes "\<And>w'. Q None w'"
    and "\<And>e w'. moves w w' (\<lambda>_ _. 0) \<Longrightarrow> Q (Some (True, 0, s\<lparr>error := e\<rparr>)) w'"
    and "\<And>stop r s' w'. moves w w' (\<lambda>k h. - holds s k h) \<Longrightarrow> fd s' = - 1 \<Longrightarrow>
           (if stop then r = - 2 else r = result) \<Longrightarrow> Q (Some (stop, r, s')) w'"
  shows "wp (connect_pending E n s deadline result) Q w"
  unfolding connect_pending_def
  by (auto simp: wp_simps Let_def moves_def intro!: assms bf_wait_spec socket_vcg)

lemma connect_one_spec:
  assumes "fd_results E" "fd s = - 1"
    and "\<And>w'. Q None w'"
    and "\<And>s' w'. moves w w' (holds s') \<Longrightarrow> fd s' \<noteq> - 1 \<Longrightarrow> Q (Some (True, 0, s')) w'"
    and "\<And>stop r s' w'. moves w w' (\<lambda>_ _. 0) \<Longrightarrow> fd s' = - 1 \<Longrightarrow>
           (if stop then r = - 2 else r \<in> {result, - 3}) \<Longrightarrow> Q (Some (stop, r, s')) w'"
  shows "wp (connect_one E n s dgram deadline result address) Q w"
  using assms(2) unfolding connect_one_def
  by (auto simp: wp_simps Let_def moves_def holds_def dest: fd_resultsD(1) [OF assms(1)]
      intro!: assms(3-) connect_pending_spec socket_vcg)

lemma connect_loop_spec:
  assumes "fd_results E" "fd s = - 1" "result \<in> {- 1, - 3}"
    and "\<And>w'. Q None w'"
    and "\<And>r s' w'. moves w w' (holds s') \<Longrightarrow> r \<in> {0, - 1, - 2, - 3} \<Longrightarrow>
           (r = 0 \<longleftrightarrow> fd s' \<noteq> - 1) \<Longrightarrow> Q (Some (r, s')) w'"
  shows "wp (connect_loop E n s dgram deadline result as) Q w"
  using assms(2,3,5)
proof (induction as arbitrary: s result w)
  case Nil
  then show ?case by (auto simp: wp_simps)
next
  case (Cons address rest)
  show ?case
    using Cons.prems(1,2)
    by (auto simp: wp_simps moves_def split: if_splits
        intro!: connect_one_spec assms(1,4) Cons.prems(3) Cons.IH)
qed

lemma bf_connect_spec:
  assumes "fd_results E" "fd s = - 1"
    and "\<And>w'. Q None w'"
    and "\<And>r s' w'. moves w w' (holds s') \<Longrightarrow> r \<in> {0, - 1, - 2, - 3} \<Longrightarrow>
           (r = 0 \<longleftrightarrow> fd s' \<noteq> - 1) \<Longrightarrow> (r = 0 \<longrightarrow> error s' = 0) \<Longrightarrow> Q (Some (r, s')) w'"
  shows "wp (bf_connect E n s host port timeout dgram) Q w"
  using assms(2) unfolding bf_connect_def
  by (auto simp: wp_simps Let_def moves_def
      intro!: connect_loop_spec assms(1,3,4) socket_vcg)

text \<open>
  What the operations that open a descriptor establish, from an object without one: the
  object holds what was opened and nothing else is left open.
\<close>
definition opens :: "(int \<times> bf_socket) io \<Rightarrow> world \<Rightarrow> bool" where
  "opens m w \<longleftrightarrow>
     wp m (\<lambda>(r, s') w'. moves w w' (holds s') \<and> - 1 \<le> r \<and> (r \<noteq> - 1 \<longrightarrow> fd s' \<noteq> - 1)) w"

lemma bf_parse_ipv4_spec:
  assumes "\<And>r w'. moves w w' (\<lambda>_ _. 0) \<Longrightarrow> Q r w'"
  shows "wp (bf_parse_ipv4 E text) Q w"
  by (auto simp: bf_parse_ipv4_def wp_simps Let_def moves_after intro!: wp_sys assms)

lemma bind_fails_spec:
  assumes "\<And>r w'. moves w w' (\<lambda>_ _. 0) \<Longrightarrow> Q r w'"
  shows "wp (bind_fails E f address) Q w" "wp (bind_listen_fails E f address) Q w"
  by (auto simp: bind_fails_def bind_listen_fails_def wp_simps moves_def intro!: socket_vcg assms)

lemmas socket_op_vcg = socket_vcg bf_close_spec bind_fails_spec bf_parse_ipv4_spec

lemma opens_listen:
  assumes "fd_results E" "fd s = - 1"
  shows "opens (bf_listen E s) w" "opens (bf_listen6 E s) w"
  using assms(2) unfolding bf_listen_def bf_listen6_def opens_def
  by (auto simp: wp_simps Let_def moves_def holds_def dest: fd_resultsD(1) [OF assms(1)]
      intro!: socket_op_vcg)

lemma opens_bind_udp:
  assumes "fd_results E" "fd s = - 1"
  shows "opens (bf_bind_udp E s) w" "opens (bf_bind_udp6 E s) w"
  using assms(2) unfolding bf_bind_udp_def bf_bind_udp6_def bf_port_def bf_port6_def opens_def
  by (auto simp: wp_simps Let_def moves_def holds_def dest: fd_resultsD(1) [OF assms(1)]
      intro!: socket_op_vcg)

lemma opens_accept:
  assumes "fd_results E" "fd s = - 1"
  shows "opens (bf_accept E l s) w"
  using assms(2) unfolding bf_accept_def opens_def
  by (auto simp: wp_simps Let_def moves_def holds_def dest: fd_resultsD(2) [OF assms(1)]
      intro!: socket_op_vcg)

lemma opens_broadcast:
  assumes "fd_results E" "fd s = - 1"
  shows "opens (bf_udp_broadcast_enable E s) w"
  using assms(2) unfolding bf_udp_broadcast_enable_def udp_server_fail_def opens_def
  by (auto simp: wp_simps Let_def moves_def holds_def dest: fd_resultsD(1) [OF assms(1)]
      intro!: socket_op_vcg)

lemma udp_server_bind_spec:
  assumes "fd s \<noteq> - 1"
    and "\<And>r s' w'. moves w w' (\<lambda>k h. holds s' k h - holds s k h) \<Longrightarrow> r \<in> {- 1, 0} \<Longrightarrow>
           (r = 0 \<longrightarrow> fd s' \<noteq> - 1) \<Longrightarrow> Q (r, s') w'"
  shows "wp (udp_server_bind E s ip port) Q w"
  unfolding udp_server_bind_def udp_server_fail_def
  using assms(1)
  by (auto simp: wp_simps Let_def moves_def holds_def intro!: socket_op_vcg assms(2))

lemma opens_udp_server:
  assumes "fd_results E" "fd s = - 1"
  shows "opens (bf_udp_server E s host port) w"
  using assms(2) unfolding bf_udp_server_def udp_server_fail_def opens_def
  by (auto simp: wp_simps Let_def moves_def holds_def dest: fd_resultsD(1) [OF assms(1)]
      intro!: udp_server_bind_spec socket_op_vcg)

section \<open>The calls an operation makes\<close>

text \<open>The calls through which \<open>bf_connect\<close> reaches out, with the addresses allowed.\<close>
definition connects_only :: "(sockaddr \<Rightarrow> bool) \<Rightarrow> call \<Rightarrow> bool" where
  "connects_only P c \<longleftrightarrow>
     (case c of
        Net (Connect f a) \<Rightarrow> P a
      | Net (Bind f a) \<Rightarrow> P a
      | Net (Sendto f d a) \<Rightarrow> P a
      | _ \<Rightarrow> True)"

lemma calls_helpers:
  assumes "\<And>r w'. calls (connects_only P) w w' \<Longrightarrow> Q r w'"
  shows "wp (bf_now E) Q w" "wp (bf_nonblock E f) Q w"
  by (auto simp: bf_now_def bf_nonblock_def wp_simps connects_only_def intro!: wp_sys assms)

lemma calls_reset:
  assumes "\<And>r w'. calls (connects_only P) w w' \<Longrightarrow> Q r w'"
  shows "wp (bf_reset E s) Q w"
  by (auto simp: bf_reset_def wp_simps connects_only_def intro!: wp_sys assms)

lemma calls_wait:
  assumes "\<And>r w'. calls (connects_only P) w w' \<Longrightarrow> Q r w'"
  shows "wp (bf_wait_loop E n s writing deadline) Q w"
  using assms
proof (induction n arbitrary: s w)
  case (Suc n)
  show ?case
    by (auto simp: wp_simps Let_def connects_only_def
        intro!: Suc.prems Suc.IH calls_helpers bf_errno_spec wp_sys_calls [where P = "connects_only P"]
        elim!: calls_trans)
qed (simp add: wp_simps)

lemmas calls_vcg = calls_helpers calls_reset calls_wait
  wp_sys_calls [where P = "connects_only P" for P]

lemma calls_connect_one:
  assumes "dgram \<and> not_unicast address \<or> P address"
    and "\<And>r w'. calls (connects_only P) w w' \<Longrightarrow> Q r w'"
  shows "wp (connect_one E n s dgram deadline result address) Q w"
  using assms(1) unfolding connect_one_def connect_pending_def bf_wait_def
  by (auto simp: wp_simps Let_def connects_only_def
      intro!: assms(2) calls_vcg [where P = P] bf_errno_spec elim!: calls_trans)

lemma calls_connect_loop:
  assumes "\<And>address. dgram \<and> not_unicast address \<or> P address"
    and "\<And>r w'. calls (connects_only P) w w' \<Longrightarrow> Q r w'"
  shows "wp (connect_loop E n s dgram deadline result as) Q w"
  using assms(2)
proof (induction as arbitrary: s result w)
  case (Cons address rest)
  show ?case
    by (auto simp: wp_simps intro!: calls_connect_one [where P = P] assms(1) Cons.prems Cons.IH
        elim!: calls_trans)
qed (simp add: wp_simps)

lemma calls_connect:
  assumes "\<And>address. dgram \<and> not_unicast address \<or> P address"
  shows "wp (bf_connect E n s host port timeout dgram) (\<lambda>r w'. calls (connects_only P) w w') w"
  using assms unfolding bf_connect_def
  by (auto simp: wp_simps Let_def connects_only_def
      intro!: calls_connect_loop [where P = P] assms calls_vcg [where P = P] elim!: calls_trans)

section \<open>Termination of the wait\<close>











section \<open>The life of a socket object\<close>

text \<open>Operations that use the descriptor keep it.\<close>

lemma io_ops_keep:
  "wp (bf_send E s data off len) (\<lambda>(r, s') w'. fd s' = fd s \<and> moves w w' (\<lambda>_ _. 0)) w"
  "wp (bf_recv E s n) (\<lambda>(r, d, s') w'. fd s' = fd s \<and> moves w w' (\<lambda>_ _. 0)) w"
  "wp (bf_udp_recvfrom E s n) (\<lambda>(r, d, s') w'. fd s' = fd s \<and> moves w w' (\<lambda>_ _. 0)) w"
  "wp (bf_udp_send_peer E s data) (\<lambda>(r, s') w'. fd s' = fd s \<and> moves w w' (\<lambda>_ _. 0)) w"
  "wp (bf_udp_send_address E s host port data) (\<lambda>(r, s') w'. fd s' = fd s \<and> moves w w' (\<lambda>_ _. 0)) w"
  "wp (bf_udp_local_port E s) (\<lambda>(r, s') w'. fd s' = fd s \<and> moves w w' (\<lambda>_ _. 0)) w"
  unfolding bf_send_def bf_recv_def bf_udp_recvfrom_def bf_udp_send_peer_def bf_udp_send_address_def
    bf_udp_local_port_def sendto_result_def
  by (auto simp: wp_simps Let_def moves_def split: if_splits intro!: socket_op_vcg)

lemma wait_keeps:
  "wp (bf_wait E n s writing timeout)
     (\<lambda>r w'. case r of None \<Rightarrow> True | Some (q, s') \<Rightarrow> fd s' = fd s \<and> moves w w' (\<lambda>_ _. 0)) w"
  by (auto intro!: bf_wait_spec)

text \<open>
  The worlds and socket objects a program reaches that opens a descriptor only on an object
  without one: an object fresh from \<open>bf_new\<close>, then any of the operations in any order.
\<close>
inductive socket_life :: "env \<Rightarrow> world \<Rightarrow> world \<Rightarrow> bf_socket \<Rightarrow> bool" for E w0 where
  new: "run_state (bf_new E g) w0 = ((s, g'), w) \<Longrightarrow> socket_life E w0 w s"
| close: "socket_life E w0 w s \<Longrightarrow> run_state (bf_close E s) w = (s', w') \<Longrightarrow> socket_life E w0 w' s'"
| connect: "socket_life E w0 w s \<Longrightarrow> fd s = - 1 \<Longrightarrow>
    run_state (bf_connect E n s host port timeout dgram) w = (Some (r, s'), w') \<Longrightarrow>
    socket_life E w0 w' s'"
| acquire: "socket_life E w0 w s \<Longrightarrow> fd s = - 1 \<Longrightarrow>
    m \<in> {bf_listen E s, bf_listen6 E s, bf_accept E l s, bf_bind_udp E s, bf_bind_udp6 E s,
         bf_udp_server E s host port, bf_udp_broadcast_enable E s} \<Longrightarrow>
    run_state m w = ((r, s'), w') \<Longrightarrow> socket_life E w0 w' s'"
| transfer: "socket_life E w0 w s \<Longrightarrow>
    m \<in> {bf_send E s data off len, bf_udp_send_peer E s data,
         bf_udp_send_address E s host port data, bf_udp_local_port E s} \<Longrightarrow>
    run_state m w = ((r, s'), w') \<Longrightarrow> socket_life E w0 w' s'"
| receive: "socket_life E w0 w s \<Longrightarrow> m \<in> {bf_recv E s cap, bf_udp_recvfrom E s cap} \<Longrightarrow>
    run_state m w = ((r, d, s'), w') \<Longrightarrow> socket_life E w0 w' s'"
| wait: "socket_life E w0 w s \<Longrightarrow>
    run_state (bf_wait E n s writing timeout) w = (Some (r, s'), w') \<Longrightarrow> socket_life E w0 w' s'"

lemma moves_chain:
  "moves w0 w f \<Longrightarrow> moves w w' g \<Longrightarrow> (\<And>k h. f k h + g k h = f' k h) \<Longrightarrow> moves w0 w' f'"
  by (simp add: moves_def)

lemma keep_step:
  assumes "wp m (\<lambda>(r, s') w'. fd s' = fd s \<and> moves w w' (\<lambda>_ _. 0)) w"
    and "run_state m w = ((r, s'), w')" "moves w0 w (holds s)"
  shows "moves w0 w' (holds s')"
proof -
  have "fd s' = fd s" "moves w w' (\<lambda>_ _. 0)" using wp_run [OF assms(1,2)] by simp_all
  then show ?thesis using assms(3) by (auto simp: moves_def holds_def)
qed

lemma receive_step:
  assumes "wp m (\<lambda>(r, d, s') w'. fd s' = fd s \<and> moves w w' (\<lambda>_ _. 0)) w"
    and "run_state m w = ((r, d, s'), w')" "moves w0 w (holds s)"
  shows "moves w0 w' (holds s')"
proof -
  have "fd s' = fd s" "moves w w' (\<lambda>_ _. 0)" using wp_run [OF assms(1,2)] by simp_all
  then show ?thesis using assms(3) by (auto simp: moves_def holds_def)
qed

lemma new_holds_nothing:
  "wp (bf_new E g) (\<lambda>(s, g') w'. fd s = - 1 \<and> moves w w' (\<lambda>_ _. 0)) w"
  by (auto simp: bf_new_def bf_wsa_init_def wp_simps moves_def intro!: wp_sys)

lemma close_spec:
  "wp (bf_close E s) (\<lambda>s' w'. fd s' = - 1 \<and> moves w w' (\<lambda>k h. - holds s k h)) w"
  by (rule bf_close_spec) simp

lemma open_step:
  assumes "opens m w" "run_state m w = ((r, s'), w')" "moves w0 w (holds s)" "fd s = - 1"
  shows "moves w0 w' (holds s')"
proof -
  have "moves w w' (holds s')" using wp_run [OF assms(1) [unfolded opens_def] assms(2)] by simp
  then show ?thesis using assms(3,4) by (auto simp: moves_def)
qed

lemma connect_step:
  assumes "fd_results E" "fd s = - 1"
    and "run_state (bf_connect E n s host port timeout dgram) w = (Some (r, s'), w')"
  shows "moves w w' (holds s') \<and> r \<in> {0, - 1, - 2, - 3} \<and> (r = 0 \<longleftrightarrow> fd s' \<noteq> - 1) \<and>
         (r = 0 \<longrightarrow> error s' = 0)"
proof -
  have "wp (bf_connect E n s host port timeout dgram)
          (\<lambda>x w'. case x of None \<Rightarrow> True | Some (r, s') \<Rightarrow>
             moves w w' (holds s') \<and> r \<in> {0, - 1, - 2, - 3} \<and> (r = 0 \<longleftrightarrow> fd s' \<noteq> - 1) \<and>
             (r = 0 \<longrightarrow> error s' = 0)) w"
    using assms(1,2) by (rule bf_connect_spec) auto
  from wp_run [OF this assms(3)] show ?thesis by auto
qed

lemma socket_life_holds:
  assumes "fd_results E" "socket_life E w0 w s"
  shows "moves w0 w (holds s)"
  using assms(2)
proof induction
  case (new g s g' w)
  then show ?case using wp_run [OF new_holds_nothing] by fastforce
next
  case (close w s s' w')
  have "fd s' = - 1" "moves w w' (\<lambda>k h. - holds s k h)" using wp_run [OF close_spec close(2)] by simp_all
  then show ?case using close.IH by (auto simp: moves_def)
next
  case (connect w s n host port timeout dgram r s' w')
  then show ?case using connect_step [OF assms(1) connect(2,3)] by (simp add: moves_def)
next
  case (acquire w s m l host port r s' w')
  then have "opens m w"
    using opens_listen opens_accept opens_bind_udp opens_udp_server opens_broadcast assms(1) by auto
  then show ?case using acquire(4) acquire.IH acquire(2) by (rule open_step)
next
  case (transfer w s m data off len host port r s' w')
  then have "wp m (\<lambda>(r, s') w'. fd s' = fd s \<and> moves w w' (\<lambda>_ _. 0)) w"
    using io_ops_keep by auto
  then show ?case using transfer(3) transfer.IH by (rule keep_step)
next
  case (receive w s m cap r d s' w')
  then have "wp m (\<lambda>(r, d, s') w'. fd s' = fd s \<and> moves w w' (\<lambda>_ _. 0)) w"
    using io_ops_keep by auto
  then show ?case using receive(3) receive.IH by (rule receive_step)
next
  case (wait w s n writing timeout r s' w')
  then show ?case using wp_run [OF wait_keeps wait(2)] by (auto simp: moves_def holds_def)
qed

section \<open>Properties\<close>


definition demo_socket :: bf_socket where
  "demo_socket = \<lparr>fd = - 1, error = 0, started = 0, udp = False, have_peer = False, peer = Inet 0 0\<rparr>"



text \<open>
  C3. No descriptor leaks in the life of a socket object.  Whatever the system answers, and in
  whatever order the operations are called (opening only while the object has no
  descriptor), everything the object's operations have taken from the system since it was
  made, and not given back, is the one descriptor in its \<open>fd\<close> field; after \<open>bf_close\<close> nothing.
\<close>
theorem socket_life_no_leak:
  assumes "fd_results E" "socket_life E w0 w s"
  shows "moves w0 w (holds s) \<and>
         moves w0 (snd (run_state (bf_close E s) w)) (\<lambda>_ _. 0)"
proof -
  have "moves w0 w (holds s)" using assms by (rule socket_life_holds)
  moreover obtain s' w' where run: "run_state (bf_close E s) w = (s', w')"
    by (cases "run_state (bf_close E s) w")
  moreover have "moves w w' (\<lambda>k h. - holds s k h)" using wp_run [OF close_spec run] by simp
  ultimately show ?thesis by (simp add: moves_def)
qed

theorem socket_life_no_leak_witness:
  "\<exists>r s w. run_state (bf_listen demo_env demo_socket) demo_world = ((r, s), w) \<and> r = 80 \<and> fd s = 0
     \<and> bal Desc 0 (trace w) = 1 \<and> moves demo_world (snd (run_state (bf_close demo_env s) w)) (\<lambda>_ _. 0)"
proof -
  let ?s = "demo_socket\<lparr>fd := 0\<rparr>"
  have new: "socket_life demo_env demo_world demo_world demo_socket"
    by (rule socket_life.new [where g = 0 and g' = 0])
      (simp add: bf_new_def bf_wsa_init_def demo_env_def demo_socket_def)
  obtain w where run: "run_state (bf_listen demo_env demo_socket) demo_world = ((80, ?s), w)"
    by (simp add: bf_listen_def bind_listen_fails_def bf_nonblock_def sys_def Let_def demo_socket_def)
  have "socket_life demo_env demo_world w ?s"
    by (rule socket_life.acquire [OF new _ _ run]) (simp_all add: demo_socket_def)
  note m = socket_life_no_leak [OF demo_fd_results this]
  have "bal Desc 0 (trace w) = 1" using conjunct1 [OF m] by (simp add: moves_def holds_def)
  then show ?thesis using run conjunct2 [OF m] by (intro exI [of _ 80] exI [of _ ?s] exI [of _ w] conjI) simp_all
qed

text \<open>
  C4. A datagram \<open>bf_connect\<close> never reaches out to an unspecified or multicast address: of
  all the calls it makes, those that connect, bind or send have a unicast address,
  whatever the resolver returns.
\<close>
theorem udp_connect_unicast_only:
  "wp (bf_connect E n s host port timeout True)
     (\<lambda>r w'. calls (connects_only (\<lambda>a. \<not> not_unicast a)) w w') w"
  by (rule calls_connect) simp

text \<open>
  Server mode answers whoever wrote last.  When \<open>bf_udp_recvfrom\<close> has delivered a
  datagram, or (outside Windows) consumed one that was too large, the next
  \<open>bf_udp_send_peer\<close> makes one call, a \<open>sendto\<close> to the address that datagram came from.  A
  delivered length never exceeds the buffer, and a call that would block leaves the object
  as it was.
\<close>
theorem udp_reply_to_sender:
  assumes "run_state (bf_udp_recvfrom E s len) w = ((r, d, s'), w')"
  shows "\<exists>a. trace w' = trace w @ [(Net (Recvfrom (fd s) len (\<not> is_windows E \<and> has_MSG_TRUNC E)), a)] \<and>
           r \<ge> - 3 \<and> (0 \<le> r \<longrightarrow> r \<le> len) \<and> (r = - 2 \<longrightarrow> s' = s) \<and>
           (r \<ge> 0 \<or> r = - 3 \<and> \<not> is_windows E \<longrightarrow>
             (\<exists>b. trace (snd (run_state (bf_udp_send_peer E s' data) w'))
                  = trace w' @ [(Net (Sendto (fd s) data (origin a)), b)]))"
  using assms
  by (auto simp: bf_udp_recvfrom_def bf_udp_send_peer_def sendto_result_def bf_errno_def sys_def
      Let_def get_errno_def get_last_error_def split: if_splits)

theorem udp_reply_to_sender_witness:
  "\<exists>s' w' a b. run_state (bf_udp_recvfrom demo_env demo_socket 10) demo_world = ((0, [], s'), w') \<and>
     trace (snd (run_state (bf_udp_send_peer demo_env s' [1]) w'))
       = [(Net (Recvfrom (- 1) 10 True), a), (Net (Sendto (- 1) [1] (origin a)), b)]"
proof -
  obtain s' w' where run: "run_state (bf_udp_recvfrom demo_env demo_socket 10) demo_world = ((0, [], s'), w')"
    by (simp add: bf_udp_recvfrom_def sys_def Let_def to_i32_def)
  from udp_reply_to_sender [OF run, of "[1]"] obtain a b where
    "trace w' = trace demo_world @ [(Net (Recvfrom (fd demo_socket) 10
        (\<not> is_windows demo_env \<and> has_MSG_TRUNC demo_env)), a)]"
    "trace (snd (run_state (bf_udp_send_peer demo_env s' [1]) w'))
        = trace w' @ [(Net (Sendto (fd demo_socket) [1] (origin a)), b)]"
    by auto
  then show ?thesis using run by (auto simp: demo_socket_def)
qed

end
