(* ===== verification/Record_File.thy ===== *)
theory Record_File
  imports Os
begin

text \<open>
  The file bridge \<open>src/recordio/file.c\<close>: append-only record files, raw payload files and
  the helpers for temporary files and directories.
\<close>

section \<open>The file object\<close>

text \<open>\<open>stream\<close> is the field \<open>file\<close> of the C struct.\<close>
record bf_file =
  stream :: int
  error :: int

definition bf_print_error :: "env \<Rightarrow> bytes \<Rightarrow> unit io" where
  "bf_print_error E bs =
     do {
       _ \<leftarrow> fio E (Fwrite (STDERR E) bs);
       _ \<leftarrow> fio E (Fflush (STDERR E));
       return ()
     }"

text \<open>A Windows path is converted to a heap block of two-byte characters first.\<close>
definition bf_fopen :: "env \<Rightarrow> bytes \<Rightarrow> bool \<Rightarrow> int io" where
  "bf_fopen E path write =
     (let mode = (if write then ''a+b'' else ''rb'') in
      if is_windows E
      then do {
        n \<leftarrow> lib E (MultiByteToWideChar path True);
        if ret n = 0 then do { _ \<leftarrow> set_errno (EINVAL E); return 0 }
        else do {
          wide \<leftarrow> lib E (Malloc (ret n * 2));
          if ret wide = 0 then do { _ \<leftarrow> set_errno (ENOMEM E); return 0 }
          else do {
            _ \<leftarrow> lib E (MultiByteToWideChar path True);
            f \<leftarrow> fio E (Wfopen path mode);
            _ \<leftarrow> lib E (Free (ret wide));
            return (ret f)
          }
        }
      }
      else do { f \<leftarrow> fio E (Fopen path mode); return (ret f) })"

definition bf_file_finalize :: "env \<Rightarrow> bf_file \<Rightarrow> bf_file io" where
  "bf_file_finalize E f =
     (if stream f \<noteq> 0 then do { _ \<leftarrow> fio E (Fclose (stream f)); return (f\<lparr>stream := 0\<rparr>) }
      else return f)"

text \<open>
  The checks of \<open>bf_file_open\<close> on a file opened for appending: it must be empty or end in
  a newline.  The result is the error found, 0 for none.
\<close>
definition check_append :: "env \<Rightarrow> int \<Rightarrow> int io" where
  "check_append E f =
     do {
       s \<leftarrow> fio E (Fseek f 0 SEEK_END);
       let e = (if ret s \<noteq> 0 then EIO E else 0);
       z \<leftarrow> fio E (Ftell f);
       let e = (if ret z < 0 then EIO E else e);
       if e = 0 \<and> ret z > 0
       then do {
         s \<leftarrow> fio E (Fseek f (- 1) SEEK_END);
         bad \<leftarrow> (if ret s \<noteq> 0 then return True
                 else do { c \<leftarrow> fio E (Fgetc f); return (ret c \<noteq> 10) });
         s \<leftarrow> fio E (Fseek f 0 SEEK_END);
         return (if ret s \<noteq> 0 then EIO E else if bad then EINVAL E else e)
       }
       else return e
     }"

definition bf_file_open :: "env \<Rightarrow> bytes \<Rightarrow> bool \<Rightarrow> bf_file io" where
  "bf_file_open E path write =
     do {
       f \<leftarrow> bf_fopen E (c_str path) write;
       e \<leftarrow> get_errno;
       let obj = \<lparr>stream = f, error = (if f \<noteq> 0 then 0 else e)\<rparr>;
       if write \<and> f \<noteq> 0
       then do {
         e \<leftarrow> check_append E f;
         let obj = obj\<lparr>error := e\<rparr>;
         if e \<noteq> 0 then bf_file_finalize E obj else return obj
       }
       else return obj
     }"

text \<open>
  \<open>bf_file_create\<close>; \<open>raw\<close> is what the memory of the new object holds before it is
  assigned.
\<close>
definition bf_file_create :: "env \<Rightarrow> bf_file \<Rightarrow> bytes \<Rightarrow> bf_file io" where
  "bf_file_create E raw path =
     (let path = c_str path;
          finish = (\<lambda>f. do {
            e \<leftarrow> get_errno;
            let obj = \<lparr>stream = f, error = (if f \<noteq> 0 then 0 else e)\<rparr>;
            if error obj \<noteq> 0 then bf_file_finalize E obj else return obj
          })
      in
      if is_windows E
      then do {
        n \<leftarrow> lib E (MultiByteToWideChar path True);
        if ret n = 0 then return (raw\<lparr>error := EINVAL E\<rparr>)
        else do {
          wide \<leftarrow> lib E (Malloc (ret n * 2));
          if ret wide = 0 then return (raw\<lparr>error := ENOMEM E\<rparr>)
          else do {
            _ \<leftarrow> lib E (MultiByteToWideChar path False);
            f \<leftarrow> fio E (Wfopen path ''wb'');
            _ \<leftarrow> lib E (Free (ret wide));
            finish (ret f)
          }
        }
      }
      else do { f \<leftarrow> fio E (Fopen path ''wb''); finish (ret f) })"

definition bf_file_error :: "bf_file \<Rightarrow> int" where
  "bf_file_error f = error f"

definition bf_file_close :: "env \<Rightarrow> bf_file \<Rightarrow> bf_file io" where
  "bf_file_close E f = bf_file_finalize E f"

text \<open>\<open>errno ? errno : EIO\<close>.\<close>
definition errno_or_EIO :: "env \<Rightarrow> int io" where
  "errno_or_EIO E = do { e \<leftarrow> get_errno; return (if e \<noteq> 0 then e else EIO E) }"

definition bf_file_write :: "env \<Rightarrow> bf_file \<Rightarrow> bytes \<Rightarrow> (int \<times> bf_file) io" where
  "bf_file_write E f bs =
     (if stream f = 0 \<or> error f \<noteq> 0
      then return (- 1, if error f = 0 then f\<lparr>error := EBADF E\<rparr> else f)
      else do {
        n \<leftarrow> fio E (Fwrite (stream f) bs);
        bad \<leftarrow> (if ret n \<noteq> int (length bs) then return True
                else do { r \<leftarrow> fio E (Fflush (stream f)); return (ret r \<noteq> 0) });
        if bad then do { e \<leftarrow> errno_or_EIO E; return (- 1, f\<lparr>error := e\<rparr>) }
        else return (0, f)
      })"

text \<open>What \<open>fread\<close> leaves in a zeroed buffer of \<open>n\<close> bytes.\<close>
definition filled :: "nat \<Rightarrow> bytes \<Rightarrow> bytes" where
  "filled n bs = take n (bs @ replicate n 0)"

definition bf_file_read :: "env \<Rightarrow> bf_file \<Rightarrow> int \<Rightarrow> (bytes \<times> bf_file) io" where
  "bf_file_read E f maximum =
     (if stream f = 0 then return ([], f\<lparr>error := EBADF E\<rparr>)
      else do {
        s \<leftarrow> fio E (Fseek (stream f) 0 SEEK_END);
        if ret s \<noteq> 0 then return ([], f\<lparr>error := EIO E\<rparr>)
        else do {
          z \<leftarrow> fio E (Ftell (stream f));
          let n = ret z;
          if n < 0 \<or> n > maximum then return ([], f\<lparr>error := (if n < 0 then EIO E else EFBIG E)\<rparr>)
          else do {
            s \<leftarrow> fio E (Fseek (stream f) 0 SEEK_SET);
            if ret s \<noteq> 0 then return ([], f\<lparr>error := EIO E\<rparr>)
            else do {
              k \<leftarrow> fio E (Fread (stream f) n);
              e \<leftarrow> errno_or_EIO E;
              return (filled (nat n) (take (nat (ret k)) (buf k)),
                      if ret k \<noteq> n then f\<lparr>error := e\<rparr> else f)
            }
          }
        }
      })"

definition bf_file_temp :: "env \<Rightarrow> bytes io" where
  "bf_file_temp E =
     (if is_windows E
      then do {
        d \<leftarrow> fio E GetTempPathW;
        if ret d = 0 then return []
        else do {
          p \<leftarrow> fio E (GetTempFileNameW ''mbf'');
          if ret p = 0 then return []
          else do {
            n \<leftarrow> lib E WideCharToMultiByte;
            b \<leftarrow> lib E WideCharToMultiByte;
            return (filled (nat (ret n - 1)) (buf b))
          }
        }
      }
      else do {
        d \<leftarrow> fio E (Mkstemp ''/tmp/moon-boofuzz-XXXXXX'');
        if ret d < 0 then return []
        else do { _ \<leftarrow> net E (Close (ret d)); return (c_str (buf d)) }
      })"

definition bf_file_remove :: "env \<Rightarrow> bytes \<Rightarrow> unit io" where
  "bf_file_remove E path =
     (if is_windows E
      then do {
        n \<leftarrow> lib E (MultiByteToWideChar (c_str path) False);
        if ret n = 0 then return ()
        else do {
          wide \<leftarrow> lib E (Malloc (ret n * 2));
          if ret wide = 0 then return ()
          else do {
            _ \<leftarrow> lib E (MultiByteToWideChar (c_str path) False);
            _ \<leftarrow> fio E (Wremove (c_str path));
            _ \<leftarrow> lib E (Free (ret wide));
            return ()
          }
        }
      }
      else do { _ \<leftarrow> fio E (Remove (c_str path)); return () })"

text \<open>\<open>ERROR_ALREADY_EXISTS\<close> is 183.\<close>
definition bf_file_mkdir :: "env \<Rightarrow> bytes \<Rightarrow> int io" where
  "bf_file_mkdir E path =
     (if is_windows E
      then do {
        n \<leftarrow> lib E (MultiByteToWideChar (c_str path) False);
        if ret n = 0 then return (- 1)
        else do {
          wide \<leftarrow> lib E (Malloc (ret n * 2));
          if ret wide = 0 then return (- 1)
          else do {
            _ \<leftarrow> lib E (MultiByteToWideChar (c_str path) False);
            r \<leftarrow> fio E (CreateDirectoryW (c_str path));
            _ \<leftarrow> lib E (Free (ret wide));
            e \<leftarrow> get_last_error;
            return (if ret r = 0 \<and> e \<noteq> 183 then - 1 else 0)
          }
        }
      }
      else do {
        r \<leftarrow> fio E (Mkdir (c_str path));
        e \<leftarrow> get_errno;
        return (if ret r \<noteq> 0 \<and> e \<noteq> EEXIST E then - 1 else 0)
      })"

definition bf_file_read_prefix :: "env \<Rightarrow> bf_file \<Rightarrow> int \<Rightarrow> (int \<times> bytes \<times> bf_file) io" where
  "bf_file_read_prefix E f len =
     (if stream f = 0 \<or> error f \<noteq> 0
      then return (- 1, [], if error f = 0 then f\<lparr>error := EBADF E\<rparr> else f)
      else if len < 0 then return (- 1, [], f\<lparr>error := EINVAL E\<rparr>)
      else do {
        n \<leftarrow> fio E (Fread (stream f) len);
        r \<leftarrow> fio E (Ferror (stream f));
        if ret r \<noteq> 0 then do { e \<leftarrow> errno_or_EIO E; return (- 1, buf n, f\<lparr>error := e\<rparr>) }
        else return (to_i32 (ret n), buf n, f)
      })"

section \<open>Lemmas\<close>

text \<open>What a file object holds.\<close>
definition file_holds :: "bf_file \<Rightarrow> rkind \<Rightarrow> int \<Rightarrow> int" where
  "file_holds f k h = of_bool (k = Stream \<and> h = stream f \<and> stream f \<noteq> 0)"

lemma bf_fopen_spec:
  assumes "\<And>f w'. moves w w' (\<lambda>k h. of_bool (k = Stream \<and> h = f \<and> f \<noteq> 0)) \<Longrightarrow> Q f w'"
  shows "wp (bf_fopen E path write) Q w"
  by (auto simp: bf_fopen_def wp_simps Let_def moves_def intro!: wp_sys assms)

lemma stream_self [simp]: "stream f = x \<Longrightarrow> f\<lparr>stream := x\<rparr> = f"
  by (cases f) simp

lemma bf_file_finalize_spec:
  assumes "\<And>w'. moves w w' (\<lambda>k h. - file_holds f k h) \<Longrightarrow> Q (f\<lparr>stream := 0\<rparr>) w'"
  shows "wp (bf_file_finalize E f) Q w"
  using assms [of w] assms
  by (auto simp: bf_file_finalize_def wp_simps moves_def file_holds_def intro!: wp_sys)

lemma check_append_spec:
  assumes "\<And>e w'. moves w w' (\<lambda>_ _. 0) \<Longrightarrow> Q e w'"
  shows "wp (check_append E f) Q w"
  by (auto simp: check_append_def wp_simps Let_def moves_def intro!: wp_sys assms)

lemma errno_or_EIO_spec:
  assumes "\<And>e. (EIO E \<noteq> 0 \<longrightarrow> e \<noteq> 0) \<Longrightarrow> Q e w"
  shows "wp (errno_or_EIO E) Q w"
  using assms by (simp add: errno_or_EIO_def wp_simps)

lemma open_spec:
  "wp (bf_file_open E path write)
     (\<lambda>f w'. moves w w' (file_holds f) \<and> (error f \<noteq> 0 \<longrightarrow> stream f = 0)) w"
  by (auto simp: bf_file_open_def wp_simps Let_def moves_def file_holds_def
      intro!: bf_fopen_spec check_append_spec bf_file_finalize_spec)

lemma create_spec:
  "wp (bf_file_create E raw path)
     (\<lambda>f w'. (\<not> is_windows E \<or> stream raw = 0 \<longrightarrow> moves w w' (file_holds f) \<and> (error f \<noteq> 0 \<longrightarrow> stream f = 0))) w"
  by (auto simp: bf_file_create_def wp_simps Let_def moves_def file_holds_def
      intro!: wp_sys bf_file_finalize_spec)

lemma file_ops_keep:
  "wp (bf_file_write E f bs) (\<lambda>(r, f') w'. stream f' = stream f \<and> moves w w' (\<lambda>_ _. 0)) w"
  "wp (bf_file_read E f n) (\<lambda>(d, f') w'. stream f' = stream f \<and> moves w w' (\<lambda>_ _. 0)) w"
  "wp (bf_file_read_prefix E f n) (\<lambda>(r, d, f') w'. stream f' = stream f \<and> moves w w' (\<lambda>_ _. 0)) w"
  by (auto simp: bf_file_write_def bf_file_read_def bf_file_read_prefix_def wp_simps Let_def moves_def
      split: if_splits intro!: wp_sys errno_or_EIO_spec)

lemma file_close_spec:
  "wp (bf_file_close E f) (\<lambda>f' w'. stream f' = 0 \<and> moves w w' (\<lambda>k h. - file_holds f k h)) w"
  unfolding bf_file_close_def by (rule bf_file_finalize_spec) simp

text \<open>
  The worlds and file objects a program reaches with one file object: opened or created
  (the latter outside Windows, or with the object's memory zeroed), then used in any order.
\<close>
inductive file_life :: "env \<Rightarrow> world \<Rightarrow> world \<Rightarrow> bf_file \<Rightarrow> bool" for E w0 where
  open_file: "run_state (bf_file_open E path wr) w0 = (f, w) \<Longrightarrow> file_life E w0 w f"
| create: "\<not> is_windows E \<or> stream raw = 0 \<Longrightarrow>
    run_state (bf_file_create E raw path) w0 = (f, w) \<Longrightarrow> file_life E w0 w f"
| append: "file_life E w0 w f \<Longrightarrow> run_state (bf_file_write E f bs) w = ((r, f'), w') \<Longrightarrow> file_life E w0 w' f'"
| read: "file_life E w0 w f \<Longrightarrow> run_state (bf_file_read E f n) w = ((d, f'), w') \<Longrightarrow> file_life E w0 w' f'"
| read_prefix: "file_life E w0 w f \<Longrightarrow>
    run_state (bf_file_read_prefix E f n) w = ((r, d, f'), w') \<Longrightarrow> file_life E w0 w' f'"
| close: "file_life E w0 w f \<Longrightarrow> run_state (bf_file_close E f) w = (f', w') \<Longrightarrow> file_life E w0 w' f'"

lemma file_life_holds: "file_life E w0 w f \<Longrightarrow> moves w0 w (file_holds f)"
proof (induction rule: file_life.induct)
  case (open_file path wr f w)
  then show ?case using wp_run [OF open_spec open_file] by simp
next
  case (create raw path f w)
  then show ?case using wp_run [OF create_spec create(2)] by simp
next
  case (append w f bs r f' w')
  then show ?case using wp_run [OF file_ops_keep(1) append(2)] by (auto simp: moves_def file_holds_def)
next
  case (read w f n d f' w')
  then show ?case using wp_run [OF file_ops_keep(2) read(2)] by (auto simp: moves_def file_holds_def)
next
  case (read_prefix w f n r d f' w')
  then show ?case using wp_run [OF file_ops_keep(3) read_prefix(2)] by (auto simp: moves_def file_holds_def)
next
  case (close w f f' w')
  then show ?case using wp_run [OF file_close_spec close(2)] by (auto simp: moves_def file_holds_def)
qed

section \<open>Streams on a file\<close>

text \<open>
  What the C library documents of a stream that is positioned and read: its position after
  a call, for a file with content \<open>bs\<close>.  A \<open>fseek\<close> that fails leaves the position.
\<close>
definition stream_step :: "bytes \<Rightarrow> int \<Rightarrow> int \<Rightarrow> event \<Rightarrow> int" where
  "stream_step bs f pos e =
     (case e of
        (Fio (Fseek g off wh), a) \<Rightarrow>
          if g = f \<and> ret a = 0 then (case wh of SEEK_SET \<Rightarrow> off | SEEK_END \<Rightarrow> int (length bs) + off) else pos
      | (Fio (Fgetc g), a) \<Rightarrow> if g = f \<and> 0 \<le> ret a then pos + 1 else pos
      | _ \<Rightarrow> pos)"

definition stream_pos :: "bytes \<Rightarrow> int \<Rightarrow> event list \<Rightarrow> int" where
  "stream_pos bs f es = foldl (stream_step bs f) 0 es"

text \<open>A call that opened the stream, and the calls that neither close it nor transfer blocks.\<close>
definition opens :: "int \<Rightarrow> event \<Rightarrow> bool" where
  "opens f e = (case e of
      (Fio (Fopen p m), a) \<Rightarrow> ret a = f | (Fio (Wfopen p m), a) \<Rightarrow> ret a = f | _ \<Rightarrow> False)"

definition quiet :: "int \<Rightarrow> event \<Rightarrow> bool" where
  "quiet f e \<longleftrightarrow> \<not> opens f e \<and> (case fst e of
      Fio (Fclose g) \<Rightarrow> g \<noteq> f | Fio (Fread g n) \<Rightarrow> g \<noteq> f | Fio (Fwrite g b) \<Rightarrow> g \<noteq> f | _ \<Rightarrow> True)"

definition opened :: "int \<Rightarrow> event list \<Rightarrow> bool" where
  "opened f tr \<longleftrightarrow> (\<exists>h e es. tr = h @ e # es \<and> opens f e \<and> list_all (quiet f) es)"

text \<open>
  The stream \<open>f\<close>, since it was opened and as long as it was only positioned and read by
  bytes, shows a file with content \<open>bs\<close>: \<open>ftell\<close> gives the position or fails, \<open>fgetc\<close> gives
  the byte there or fails.
\<close>
definition stdio_file :: "env \<Rightarrow> int \<Rightarrow> bytes \<Rightarrow> bool" where
  "stdio_file E f bs \<longleftrightarrow> (\<forall>h e es. opens f e \<longrightarrow> list_all (quiet f) es \<longrightarrow>
     (let p = stream_pos bs f es;
          t = ret (os E (h @ e # es) (Fio (Ftell f)));
          c = ret (os E (h @ e # es) (Fio (Fgetc f)))
      in (t < 0 \<or> t = p) \<and> (c < 0 \<or> 0 \<le> p \<and> p < int (length bs) \<and> c = uint (bs ! nat p))))"

text \<open>Neither a \<open>fseek\<close> to a place in the file, nor \<open>ftell\<close>, nor \<open>fgetc\<close> before its end fails.\<close>
definition stdio_works :: "env \<Rightarrow> int \<Rightarrow> bytes \<Rightarrow> bool" where
  "stdio_works E f bs \<longleftrightarrow> (\<forall>h e es. opens f e \<longrightarrow> list_all (quiet f) es \<longrightarrow>
     (let p = stream_pos bs f es; ans = (\<lambda>c. ret (os E (h @ e # es) (Fio c)))
      in (\<forall>k. 0 \<le> int (length bs) + k \<longrightarrow> k \<le> 0 \<longrightarrow> ans (Fseek f k SEEK_END) = 0) \<and> (0 \<le> p \<longrightarrow> 0 \<le> ans (Ftell f)) \<and>
         (0 \<le> p \<longrightarrow> p < int (length bs) \<longrightarrow> 0 \<le> ans (Fgetc f))))"

lemma stream_pos_simps [simp]:
  "stream_pos bs f [] = 0" "stream_pos bs f (es @ [x]) = stream_step bs f (stream_pos bs f es) x"
  by (simp_all add: stream_pos_def)

lemma stdio_at:
  assumes "stdio_file E f bs" "opens f e" "list_all (quiet f) es"
  shows "ret (os E (h @ e # es) (Fio (Ftell f))) < 0 \<or> ret (os E (h @ e # es) (Fio (Ftell f))) = stream_pos bs f es"
    and "ret (os E (h @ e # es) (Fio (Fgetc f))) < 0 \<or> 0 \<le> stream_pos bs f es \<and> stream_pos bs f es < int (length bs) \<and>
      ret (os E (h @ e # es) (Fio (Fgetc f))) = uint (bs ! nat (stream_pos bs f es))"
  using assms unfolding stdio_file_def Let_def by blast+

lemma works_at:
  assumes "stdio_works E f bs" "opens f e" "list_all (quiet f) es"
  shows "0 \<le> int (length bs) + k \<Longrightarrow> k \<le> 0 \<Longrightarrow> ret (os E (h @ e # es) (Fio (Fseek f k SEEK_END))) = 0"
    and "0 \<le> stream_pos bs f es \<Longrightarrow> 0 \<le> ret (os E (h @ e # es) (Fio (Ftell f)))"
    and "0 \<le> stream_pos bs f es \<Longrightarrow> stream_pos bs f es < int (length bs) \<Longrightarrow> 0 \<le> ret (os E (h @ e # es) (Fio (Fgetc f)))"
  using assms unfolding stdio_works_def Let_def by blast+

lemma opened_intros:
  "opens f e \<Longrightarrow> opened f (tr @ [e])" "opens f e \<Longrightarrow> quiet f x \<Longrightarrow> opened f (tr @ [a, b, c, e, x])"
proof -
  show "opens f e \<Longrightarrow> opened f (tr @ [e])"
    unfolding opened_def by (intro exI [of _ tr] exI [of _ e] exI [of _ "[]"]) simp
  assume "opens f e" "quiet f x"
  then show "opened f (tr @ [a, b, c, e, x])"
    unfolding opened_def by (intro exI [of _ "tr @ [a, b, c]"] exI [of _ e] exI [of _ "[x]"]) simp
qed

lemma fopen_opens: "wp (bf_fopen E path write) (\<lambda>f w'. f \<noteq> 0 \<longrightarrow> opened f (trace w')) w"
  by (auto simp: bf_fopen_def wp_simps Let_def opens_def quiet_def intro!: wp_sys opened_intros)

abbreviation newline_ended :: "bytes \<Rightarrow> bool" where
  "newline_ended bs \<equiv> bs = [] \<or> last bs = 0x0a"

text \<open>The checks find out whether the file is empty or ends in a newline.\<close>
lemma check_append_reads:
  assumes s: "stdio_file E f bs" "opens f e" "list_all (quiet f) es" "trace w = h @ e # es"
    and E: "EIO E \<noteq> 0" "EINVAL E \<noteq> 0"
  shows "wp (check_append E f) (\<lambda>r w'. (r = 0 \<longrightarrow> newline_ended bs) \<and>
    (stdio_works E f bs \<longrightarrow> r = (if newline_ended bs then 0 else EINVAL E))) w"
proof -
  define n where "n = int (length bs)"
  define x1 where "x1 = (Fio (Fseek f 0 SEEK_END), os E (trace w) (Fio (Fseek f 0 SEEK_END)))"
  define x2 where "x2 = (Fio (Ftell f), os E (trace w @ [x1]) (Fio (Ftell f)))"
  define x3 where "x3 = (Fio (Fseek f (- 1) SEEK_END), os E (trace w @ [x1, x2]) (Fio (Fseek f (- 1) SEEK_END)))"
  define x4 where "x4 = (Fio (Fgetc f), os E (trace w @ [x1, x2, x3]) (Fio (Fgetc f)))"
  have q: "list_all (quiet f) (es @ [x1])" "list_all (quiet f) (es @ [x1, x2])"
    "list_all (quiet f) (es @ [x1, x2, x3])" "list_all (quiet f) (es @ [x1, x2, x3, x4])"
    using s(3) by (simp_all add: quiet_def opens_def x1_def x2_def x3_def x4_def)
  have p1: "stream_pos bs f (es @ [x1]) = n" if "ret (snd x1) = 0"
    using that by (simp add: x1_def stream_step_def n_def)
  have p3: "stream_pos bs f (es @ [x1, x2, x3]) = n - 1" if "ret (snd x3) = 0"
    using that stream_pos_simps(2) [of bs f "es @ [x1, x2]" x3] by (simp add: x3_def stream_step_def n_def)
  have tell: "ret (snd x2) < 0 \<or> ret (snd x2) = n" if "ret (snd x1) = 0"
    using stdio_at(1) [OF s(1,2) q(1), of h] p1 [OF that] by (simp add: x2_def s(4))
  have byte: "ret (snd x4) < 0 \<or> 0 \<le> n - 1 \<and> ret (snd x4) = uint (bs ! nat (n - 1))" if "ret (snd x3) = 0"
    using stdio_at(2) [OF s(1,2) q(3), of h] p3 [OF that] by (auto simp: x4_def s(4))
  have last: "bs ! nat (n - 1) = last bs" if "bs \<noteq> []"
    using that by (simp add: last_conv_nth n_def nat_diff_distrib')
  have lf: "uint b = 10 \<longleftrightarrow> b = 0x0a" for b :: u8
    by (simp add: word_uint_eq_iff)
  have works: "ret (snd x1) = 0" "0 \<le> ret (snd x2)" "0 < n \<Longrightarrow> ret (snd x3) = 0" "0 < n \<Longrightarrow> 0 \<le> ret (snd x4)"
      "ret (os E (trace w @ [x1, x2, x3, x4]) (Fio (Fseek f 0 SEEK_END))) = 0"
    if "stdio_works E f bs"
  proof -
    note at = works_at [OF that s(2)]
    show 1: "ret (snd x1) = 0" using at(1) [OF s(3), of 0 h] by (simp add: x1_def s(4))
    show "0 \<le> ret (snd x2)" using at(2) [OF q(1), of h] p1 [OF 1] by (simp add: x2_def s(4) n_def)
    show 3: "ret (snd x3) = 0" if "0 < n" using at(1) [OF q(2), of "- 1" h] that by (simp add: x3_def s(4) n_def)
    show "0 \<le> ret (snd x4)" if "0 < n" using at(3) [OF q(3), of h] p3 [OF 3 [OF that]] that by (simp add: x4_def s(4) n_def)
    show "ret (os E (trace w @ [x1, x2, x3, x4]) (Fio (Fseek f 0 SEEK_END))) = 0" using at(1) [OF q(4), of 0 h] by (simp add: s(4))
  qed
  have sys: "wp (sys E c) Q u = Q (os E (trace u) c) (after u c (os E (trace u) c))" for c Q u
    by (simp add: wp_def sys_def Let_def)
  have x: "os E (trace w) (Fio (Fseek f 0 SEEK_END)) = snd x1" "os E (trace w @ [x1]) (Fio (Ftell f)) = snd x2"
    "os E (trace w @ [x1, x2]) (Fio (Fseek f (- 1) SEEK_END)) = snd x3" "os E (trace w @ [x1, x2, x3]) (Fio (Fgetc f)) = snd x4"
    "(Fio (Fseek f 0 SEEK_END), snd x1) = x1" "(Fio (Ftell f), snd x2) = x2" "(Fio (Fseek f (- 1) SEEK_END), snd x3) = x3"
    "(Fio (Fgetc f), snd x4) = x4"
    by (simp_all add: x1_def x2_def x3_def x4_def)
  have no: "\<not> stdio_works E f bs" if "ret (snd x1) \<noteq> 0 \<or> ret (snd x2) < 0 \<or> 0 < n \<and> ret (snd x3) \<noteq> 0"
    using works that by auto
  consider (a) "ret (snd x1) \<noteq> 0" | (b) "ret (snd x1) = 0" "ret (snd x2) < 0"
    | (c) "ret (snd x1) = 0" "ret (snd x2) = 0" "n = 0" | (d) "ret (snd x1) = 0" "ret (snd x2) = n" "0 < n" "ret (snd x3) \<noteq> 0"
    | (e) "ret (snd x1) = 0" "ret (snd x2) = n" "0 < n" "ret (snd x3) = 0"
    using tell by (fastforce simp: n_def)
  then show ?thesis
  proof cases
    case a
    then show ?thesis using no E by (simp add: check_append_def wp_simps Let_def sys x)
  next
    case b
    then show ?thesis using no E by (simp add: check_append_def wp_simps Let_def sys x)
  next
    case c
    then show ?thesis by (simp add: check_append_def wp_simps Let_def sys x n_def)
  next
    case d
    then show ?thesis using no E by (simp add: check_append_def wp_simps Let_def sys x)
  next
    case e
    then have "bs \<noteq> []" by (auto simp: n_def)
    then have "ret (snd x4) < 0 \<or> ret (snd x4) = uint (last bs)" using byte [OF e(4)] last by auto
    then show ?thesis
      using e E works(4,5) \<open>bs \<noteq> []\<close> lf [of "last bs"] by (auto simp: check_append_def wp_simps Let_def sys x)
  qed
qed

text \<open>A system on which \<open>fopen\<close> yields the stream 1 on an empty file.\<close>
definition file_env :: env where
  "file_env = demo_env\<lparr>os := (\<lambda>h c. (os demo_env h c)\<lparr>ret := (case c of
      Fio (Fopen p m) \<Rightarrow> 1 | Fio (Fwrite f bs) \<Rightarrow> int (length bs) | _ \<Rightarrow> 0)\<rparr>)\<rparr>"

section \<open>Properties\<close>

text \<open>
  C8. No stream leaks in the life of a file object: whatever the C library answers, what
  its operations have opened and not closed is the one stream in the object, heap blocks
  for path conversion included; after \<open>bf_file_close\<close> nothing.
\<close>
theorem file_life_no_leak:
  assumes "file_life E w0 w f"
  shows "moves w0 w (file_holds f) \<and> moves w0 (snd (run_state (bf_file_close E f) w)) (\<lambda>_ _. 0)"
proof -
  obtain f' w' where run: "run_state (bf_file_close E f) w = (f', w')"
    by (cases "run_state (bf_file_close E f) w")
  then have "file_life E w0 w' f'" "stream f' = 0"
    using file_life.close [OF assms run] wp_run [OF file_close_spec run] by simp_all
  then show ?thesis using file_life_holds [OF assms] file_life_holds [of E w0 w' f'] run
    by (simp add: moves_def file_holds_def)
qed

theorem file_life_no_leak_witness:
  "\<exists>f w. run_state (bf_file_open file_env [0x61] False) demo_world = (f, w) \<and> stream f = 1 \<and>
     bal Stream 1 (trace w) = 1 \<and> moves demo_world (snd (run_state (bf_file_close file_env f) w)) (\<lambda>_ _. 0)"
proof -
  obtain w where run: "run_state (bf_file_open file_env [0x61] False) demo_world = (\<lparr>stream = 1, error = 0\<rparr>, w)"
    by (simp add: bf_file_open_def bf_fopen_def sys_def get_errno_def Let_def file_env_def)
  have "moves demo_world w (file_holds \<lparr>stream = 1, error = 0\<rparr>) \<and>
      moves demo_world (snd (run_state (bf_file_close file_env \<lparr>stream = 1, error = 0\<rparr>) w)) (\<lambda>_ _. 0)"
    by (rule file_life_no_leak [OF file_life.open_file [OF run]])
  then have "bal Stream 1 (trace w) = 1" "moves demo_world (snd (run_state (bf_file_close file_env \<lparr>stream = 1, error = 0\<rparr>) w)) (\<lambda>_ _. 0)"
    by (simp_all add: moves_def file_holds_def)
  then show ?thesis using run by (intro exI conjI) simp_all
qed

text \<open>
  C7. A torn last record is refused.  When the stream that \<open>bf_file_open\<close> opens for appending
  shows a file with content \<open>bs\<close>, the object holds that stream only if \<open>bs\<close> is empty or ends in
  a newline, whatever calls fail, and otherwise holds no stream and a nonzero error; if no
  positioning or reading fails, a file that is empty or ends in a newline is handed out and
  every other one is refused with \<open>EINVAL\<close>.
\<close>
theorem append_open_checks_newline:
  assumes "run_state (bf_fopen E (c_str path) True) w = (g, w1)" "g \<noteq> 0" "stdio_file E g bs"
    and "run_state (bf_file_open E path True) w = (f, w')" "EIO E \<noteq> 0" "EINVAL E \<noteq> 0"
  shows "(stream f \<noteq> 0 \<longrightarrow> stream f = g \<and> (bs = [] \<or> last bs = 0x0a)) \<and>
    (stream f = 0 \<longrightarrow> bf_file_error f \<noteq> 0) \<and>
    (stdio_works E g bs \<longrightarrow> f = (if bs = [] \<or> last bs = 0x0a then \<lparr>stream = g, error = 0\<rparr>
                                  else \<lparr>stream = 0, error = EINVAL E\<rparr>))"
proof -
  obtain h e es where o: "trace w1 = h @ e # es" "opens g e" "list_all (quiet g) es"
    using wp_run [OF fopen_opens assms(1)] assms(2) unfolding opened_def by blast
  obtain r w2 where run: "run_state (check_append E g) w1 = (r, w2)" by fastforce
  note c = wp_run [OF check_append_reads [OF assms(3) o(2,3,1) assms(5,6)] run]
  have r: "r = 0 \<longrightarrow> newline_ended bs" "stdio_works E g bs \<longrightarrow> r = (if newline_ended bs then 0 else EINVAL E)"
    by (rule conjunct1 [OF c], rule conjunct2 [OF c])
  have "fst (run_state (bf_file_open E path True) w) = (if r = 0 then \<lparr>stream = g, error = 0\<rparr> else \<lparr>stream = 0, error = r\<rparr>)"
    using assms(1,2) run by (simp add: bf_file_open_def get_errno_def bf_file_finalize_def sys_def Let_def del: stream_self)
  then have "f = (if r = 0 then \<lparr>stream = g, error = 0\<rparr> else \<lparr>stream = 0, error = r\<rparr>)"
    by (simp only: assms(4) fst_conv)
  then have "stream f = (if r = 0 then g else 0)" "error f = r"
    and f: "f = (if r = 0 then \<lparr>stream = g, error = 0\<rparr> else \<lparr>stream = 0, error = r\<rparr>)" by simp_all
  then show ?thesis using r assms(2,6) unfolding bf_file_error_def by metis
qed

text \<open>A system on which the stream 1 shows the file \<open>bs\<close>.\<close>
definition text_env :: "bytes \<Rightarrow> env" where
  "text_env bs = demo_env\<lparr>os := (\<lambda>h c.
     let p = foldl (\<lambda>p e. if opens 1 e then 0 else stream_step bs 1 p e) 0 h
     in (os demo_env h c)\<lparr>ret := (case c of
          Fio (Fopen p m) \<Rightarrow> 1
        | Fio (Ftell f) \<Rightarrow> p
        | Fio (Fgetc f) \<Rightarrow> if 0 \<le> p \<and> p < int (length bs) then uint (bs ! nat p) else - 1
        | _ \<Rightarrow> 0)\<rparr>)\<rparr>"

lemma text_env_position:
  "list_all (quiet 1) es \<Longrightarrow>
   foldl (\<lambda>p e. if opens 1 e then 0 else stream_step bs 1 p e) a es = foldl (stream_step bs 1) a es"
  by (induction es arbitrary: a) (auto simp: quiet_def)

lemma text_env_answer:
  assumes "opens 1 e" "list_all (quiet 1) es"
  shows "ret (os (text_env bs) (h @ e # es) (Fio (Ftell 1))) = stream_pos bs 1 es"
    "ret (os (text_env bs) (h @ e # es) (Fio (Fgetc 1))) =
      (if 0 \<le> stream_pos bs 1 es \<and> stream_pos bs 1 es < int (length bs) then uint (bs ! nat (stream_pos bs 1 es)) else - 1)"
    "ret (os (text_env bs) (h @ e # es) (Fio (Fseek 1 k wh))) = 0"
  using assms(1) text_env_position [OF assms(2)] by (simp_all add: text_env_def stream_pos_def Let_def)

lemma text_env_stdio: "stdio_file (text_env bs) 1 bs" "stdio_works (text_env bs) 1 bs"
  unfolding stdio_file_def stdio_works_def by (simp_all add: text_env_answer Let_def)

theorem append_open_checks_newline_witness:
  "fst (run_state (bf_file_open (text_env [0x61, 0x0a]) [0x62] True) demo_world) = \<lparr>stream = 1, error = 0\<rparr> \<and>
   fst (run_state (bf_file_open (text_env [0x61]) [0x62] True) demo_world) = \<lparr>stream = 0, error = 22\<rparr>"
proof -
  have w: "fst (run_state (bf_file_open (text_env bs) [0x62] True) demo_world) =
      (if bs = [] \<or> last bs = 0x0a then \<lparr>stream = 1, error = 0\<rparr> else \<lparr>stream = 0, error = 22\<rparr>)" for bs
  proof -
    let ?E = "text_env bs"
    obtain w1 where o: "run_state (bf_fopen ?E (c_str [0x62]) True) demo_world = (1, w1)"
      by (simp add: bf_fopen_def text_env_def sys_def Let_def)
    obtain f w' where f: "run_state (bf_file_open ?E [0x62] True) demo_world = (f, w')" by fastforce
    have k: "EIO ?E = 5" "EINVAL ?E = 22" by (simp_all add: text_env_def)
    have "stdio_works ?E 1 bs \<longrightarrow> f = (if bs = [] \<or> last bs = 0x0a then \<lparr>stream = 1, error = 0\<rparr> else \<lparr>stream = 0, error = 22\<rparr>)"
      by (rule append_open_checks_newline [OF o _ text_env_stdio(1) f, unfolded k, THEN conjunct2, THEN conjunct2]) simp_all
    then show ?thesis using text_env_stdio(2) unfolding f by simp
  qed
  show ?thesis by (simp add: w)
qed

text \<open>
  C6. A failed \<open>bf_file_write\<close> is final: it leaves a nonzero error in the object, and any later
  write on the object fails at once, makes no call and changes nothing; a write that
  reports success has passed the whole block to the stream and flushed it.
\<close>
theorem write_error_is_sticky:
  assumes "run_state (bf_file_write E f bs) w = ((r, f'), w')" "EIO E \<noteq> 0" "EBADF E \<noteq> 0"
  shows "(r = 0 \<and> f' = f \<and> (\<exists>a b. trace w' = trace w @ [(Fio (Fwrite (stream f) bs), a), (Fio (Fflush (stream f)), b)]
            \<and> ret a = int (length bs) \<and> ret b = 0)) \<or>
         (r = - 1 \<and> bf_file_error f' \<noteq> 0 \<and>
            (\<forall>bs' w''. run_state (bf_file_write E f' bs') w'' = ((- 1, f'), w'')))"
  using assms
  by (auto simp: bf_file_write_def errno_or_EIO_def get_errno_def sys_def Let_def bf_file_error_def
      split: if_splits)

theorem write_error_is_sticky_witness:
  "\<exists>w' a b. run_state (bf_file_write file_env \<lparr>stream = 1, error = 0\<rparr> [7]) demo_world
      = ((0, \<lparr>stream = 1, error = 0\<rparr>), w') \<and>
    trace w' = [(Fio (Fwrite 1 [7]), a), (Fio (Fflush 1), b)]"
proof -
  obtain w' where run: "run_state (bf_file_write file_env \<lparr>stream = 1, error = 0\<rparr> [7]) demo_world
      = ((0, \<lparr>stream = 1, error = 0\<rparr>), w')"
    by (simp add: bf_file_write_def sys_def Let_def file_env_def)
  from write_error_is_sticky [OF run] show ?thesis using run by (auto simp: file_env_def)
qed

end
