(* ===== verification/Child_Process.thy ===== *)
theory Child_Process
  imports Os
begin

text \<open>
  The process bridge \<open>src/process/process.c\<close>.  The fields \<open>process\<close> and \<open>thread\<close> are those of
  the Windows build and \<open>pid\<close> that of the others.
\<close>

record bf_proc =
  process :: int
  thread :: int
  pid :: int
  error :: int
  exit_code :: int
  exited :: bool

definition bf_proc_finalize :: "env \<Rightarrow> bf_proc \<Rightarrow> bf_proc io" where
  "bf_proc_finalize E p =
     (if is_windows E
      then do {
        p \<leftarrow> (if process p \<noteq> 0
             then do { _ \<leftarrow> prc E (CloseHandle (process p)); return (p\<lparr>process := 0\<rparr>) }
             else return p);
        (if thread p \<noteq> 0
         then do { _ \<leftarrow> prc E (CloseHandle (thread p)); return (p\<lparr>thread := 0\<rparr>) }
         else return p)
      }
      else if pid p > 0
      then do {
        a \<leftarrow> prc E (Waitpid (pid p));
        if ret a = 0 then do { _ \<leftarrow> prc E (Kill (pid p)); return p } else return p
      }
      else return p)"

definition bf_proc_new :: "env \<Rightarrow> bf_proc" where
  "bf_proc_new E =
     \<lparr>process = 0, thread = 0, pid = (if is_windows E then 0 else - 1), error = 0, exit_code = 0,
      exited = False\<rparr>"

definition bf_proc_error :: "bf_proc \<Rightarrow> int" where
  "bf_proc_error p = error p"

definition bf_proc_is_windows :: "env \<Rightarrow> int" where
  "bf_proc_is_windows E = (if is_windows E then 1 else 0)"

text \<open>
  How \<open>bf_proc_spawn\<close> ends: it returns to its caller, or the process that runs it is the
  forked child, which is replaced by the shell or exits.
\<close>
datatype spawned = Returned int bf_proc | Child

definition spawn_windows :: "env \<Rightarrow> bf_proc \<Rightarrow> bytes \<Rightarrow> spawned io" where
  "spawn_windows E p command =
     do {
       wide \<leftarrow> lib E (MultiByteToWideChar command False);
       if ret wide \<le> 0 then do { e \<leftarrow> get_last_error; return (Returned (- 1) (p\<lparr>error := e\<rparr>)) }
       else do {
         line \<leftarrow> lib E (Malloc ((ret wide + 1) * 2));
         if ret line = 0 then return (Returned (- 1) (p\<lparr>error := 8\<rparr>))
         else do {
           _ \<leftarrow> lib E (MultiByteToWideChar command False);
           c \<leftarrow> prc E (CreateProcessW command);
           if ret c = 0
           then do {
             e \<leftarrow> get_last_error;
             _ \<leftarrow> lib E (Free (ret line));
             return (Returned (- 1) (p\<lparr>error := e\<rparr>))
           }
           else do {
             _ \<leftarrow> lib E (Free (ret line));
             return (Returned 0 (p\<lparr>process := val c, thread := val2 c\<rparr>))
           }
         }
       }
     }"

definition spawn_posix :: "env \<Rightarrow> bf_proc \<Rightarrow> bytes \<Rightarrow> spawned io" where
  "spawn_posix E p command =
     do {
       m \<leftarrow> lib E (Malloc (int (length command) + 1));
       if ret m = 0 then return (Returned (- 1) (p\<lparr>error := ENOMEM E\<rparr>))
       else do {
         f \<leftarrow> prc E Fork;
         if ret f < 0
         then do {
           e \<leftarrow> get_errno;
           _ \<leftarrow> lib E (Free (ret m));
           return (Returned (- 1) (p\<lparr>error := e\<rparr>))
         }
         else if ret f = 0
         then do {
           x \<leftarrow> prc E (Execl (c_str command));
           if ret x = - 1 then do { _ \<leftarrow> prc E (Exit 127); return Child } else return Child
         }
         else do {
           _ \<leftarrow> lib E (Free (ret m));
           return (Returned 0 (p\<lparr>pid := to_i32 (ret f)\<rparr>))
         }
       }
     }"

definition bf_proc_spawn :: "env \<Rightarrow> bf_proc \<Rightarrow> bytes \<Rightarrow> spawned io" where
  "bf_proc_spawn E p command =
     (if command = [] then return (Returned (- 1) (p\<lparr>error := 0\<rparr>))
      else if is_windows E then spawn_windows E p command else spawn_posix E p command)"

text \<open>\<open>WAIT_OBJECT_0\<close> is 0; the exit code is a \<open>DWORD\<close> read as an \<open>int\<close>.\<close>
definition bf_proc_poll :: "env \<Rightarrow> bf_proc \<Rightarrow> (int \<times> bf_proc) io" where
  "bf_proc_poll E p =
     (if exited p then return (0, p)
      else if is_windows E
      then do {
        r \<leftarrow> prc E (WaitForSingleObject (process p));
        if ret r = 0
        then do {
          c \<leftarrow> prc E (GetExitCodeProcess (process p));
          if ret c = 0 then do { e \<leftarrow> get_last_error; return (- 1, p\<lparr>error := e\<rparr>) }
          else return (0, p\<lparr>exited := True, exit_code := to_i32 (val c)\<rparr>)
        }
        else return (- 2, p)
      }
      else do {
        a \<leftarrow> prc E (Waitpid (pid p));
        if ret a = 0 then return (- 2, p)
        else if ret a < 0 then do { e \<leftarrow> get_errno; return (- 1, p\<lparr>error := e\<rparr>) }
        else return (0, p\<lparr>exited := True, exit_code :=
               (if WIFEXITED E (val a) then WEXITSTATUS E (val a)
                else if WIFSIGNALED E (val a) then 128 + WTERMSIG E (val a)
                else - 1)\<rparr>)
      })"

definition bf_proc_exit_code :: "bf_proc \<Rightarrow> int" where
  "bf_proc_exit_code p = exit_code p"

definition bf_proc_pid :: "env \<Rightarrow> bf_proc \<Rightarrow> int io" where
  "bf_proc_pid E p =
     (if is_windows E then do { a \<leftarrow> prc E (GetProcessId (process p)); return (to_i32 (ret a)) }
      else return (pid p))"

definition bf_proc_kill :: "env \<Rightarrow> bf_proc \<Rightarrow> (int \<times> bf_proc) io" where
  "bf_proc_kill E p =
     (if is_windows E
      then do {
        a \<leftarrow> prc E (TerminateProcess (process p));
        if ret a = 0 then do { e \<leftarrow> get_last_error; return (- 1, p\<lparr>error := e\<rparr>) }
        else return (0, p)
      }
      else do {
        a \<leftarrow> prc E (Kill (pid p));
        if ret a < 0 then do { e \<leftarrow> get_errno; return (- 1, p\<lparr>error := e\<rparr>) }
        else return (0, p)
      })"

section \<open>Lemmas\<close>

text \<open>The handles a process object holds (Windows only).\<close>
definition proc_holds :: "env \<Rightarrow> bf_proc \<Rightarrow> rkind \<Rightarrow> int \<Rightarrow> int" where
  "proc_holds E p k h =
     (if is_windows E
      then of_bool (k = Handle \<and> h = process p \<and> process p \<noteq> 0)
         + of_bool (k = Handle \<and> h = thread p \<and> thread p \<noteq> 0)
      else 0)"

text \<open>Documented of \<open>CreateProcessW\<close>: on success it stores two handles that are not null.\<close>
definition handle_results :: "env \<Rightarrow> bool" where
  "handle_results E \<longleftrightarrow>
     (\<forall>l a. a \<in> answers E (Proc (CreateProcessW l)) \<longrightarrow> ret a \<noteq> 0 \<longrightarrow> val a \<noteq> 0 \<and> val2 a \<noteq> 0)"

lemma spawn_spec:
  assumes "handle_results E" "process p = 0" "thread p = 0"
  shows "wp (bf_proc_spawn E p command)
     (\<lambda>x w'. case x of Child \<Rightarrow> \<not> is_windows E
        | Returned r p' \<Rightarrow> moves w w' (proc_holds E p') \<and> r \<in> {0, - 1} \<and>
            (r = - 1 \<longrightarrow> p' = p\<lparr>error := error p'\<rparr>)) w"
  using assms(2,3) assms(1) [unfolded handle_results_def, rule_format]
  by (auto simp: bf_proc_spawn_def spawn_windows_def spawn_posix_def proc_holds_def wp_simps Let_def moves_def
      intro!: wp_sys)

lemma finalize_spec:
  "wp (bf_proc_finalize E p) (\<lambda>p' w'. moves w w' (\<lambda>k h. - proc_holds E p k h) \<and>
     (is_windows E \<longrightarrow> process p' = 0 \<and> thread p' = 0)) w"
  by (auto simp: bf_proc_finalize_def proc_holds_def wp_simps Let_def moves_def intro!: wp_sys)

lemma poll_spec:
  "wp (bf_proc_poll E p) (\<lambda>(r, p') w'. moves w w' (\<lambda>_ _. 0) \<and> r \<in> {0, - 1, - 2} \<and>
     (r = 0 \<longleftrightarrow> exited p') \<and> (exited p \<longrightarrow> p' = p \<and> w' = w) \<and> (r = - 2 \<longrightarrow> p' = p) \<and>
     process p' = process p \<and> thread p' = thread p \<and> pid p' = pid p) w"
  by (auto simp: bf_proc_poll_def wp_simps Let_def moves_def intro!: wp_sys)

lemma kill_spec:
  "wp (bf_proc_kill E p) (\<lambda>(r, p') w'. moves w w' (\<lambda>_ _. 0) \<and> r \<in> {0, - 1} \<and>
     process p' = process p \<and> thread p' = thread p \<and> exited p' = exited p) w"
  by (auto simp: bf_proc_kill_def wp_simps Let_def moves_def intro!: wp_sys)

text \<open>
  The worlds and process objects the parent reaches with one object: spawned while it has
  no process, then polled, killed and finalized in any order.
\<close>
inductive proc_life :: "env \<Rightarrow> world \<Rightarrow> world \<Rightarrow> bf_proc \<Rightarrow> bool" for E w0 where
  new: "proc_life E w0 w0 (bf_proc_new E)"
| spawn: "proc_life E w0 w p \<Longrightarrow> process p = 0 \<Longrightarrow> thread p = 0 \<Longrightarrow>
    run_state (bf_proc_spawn E p command) w = (Returned r p', w') \<Longrightarrow> proc_life E w0 w' p'"
| poll: "proc_life E w0 w p \<Longrightarrow> run_state (bf_proc_poll E p) w = ((r, p'), w') \<Longrightarrow> proc_life E w0 w' p'"
| kill: "proc_life E w0 w p \<Longrightarrow> run_state (bf_proc_kill E p) w = ((r, p'), w') \<Longrightarrow> proc_life E w0 w' p'"
| finalize: "proc_life E w0 w p \<Longrightarrow> run_state (bf_proc_finalize E p) w = (p', w') \<Longrightarrow> proc_life E w0 w' p'"

lemma proc_life_holds:
  assumes "handle_results E" "proc_life E w0 w p"
  shows "moves w0 w (proc_holds E p)"
  using assms(2)
proof induction
  case new
  then show ?case by (simp add: proc_holds_def bf_proc_new_def)
next
  case (spawn w p command r p' w')
  have "moves w w' (proc_holds E p')"
    using wp_run [OF spawn_spec [OF assms(1) spawn(2,3)] spawn(4)] by simp
  then show ?case using spawn by (auto simp: moves_def proc_holds_def)
next
  case (poll w p r p' w')
  then show ?case using wp_run [OF poll_spec poll(2)] by (auto simp: moves_def proc_holds_def)
next
  case (kill w p r p' w')
  then show ?case using wp_run [OF kill_spec kill(2)] by (auto simp: moves_def proc_holds_def)
next
  case (finalize w p p' w')
  then show ?case using wp_run [OF finalize_spec finalize(2)] by (auto simp: moves_def proc_holds_def)
qed

section \<open>Properties\<close>

text \<open>
  C5. In the life of a process object no handle and no heap block leaks in the parent,
  whatever the system answers: what is held is the pair of handles in the object (nothing
  outside Windows), and after the finalizer nothing.
\<close>
theorem proc_life_no_leak:
  assumes "handle_results E" "proc_life E w0 w p"
  shows "moves w0 w (proc_holds E p) \<and>
         moves w0 (snd (run_state (bf_proc_finalize E p) w)) (\<lambda>_ _. 0)"
proof -
  obtain p' w' where run: "run_state (bf_proc_finalize E p) w = (p', w')"
    by (cases "run_state (bf_proc_finalize E p) w")
  have "moves w w' (\<lambda>k h. - proc_holds E p k h)" using wp_run [OF finalize_spec run] by simp
  then show ?thesis using proc_life_holds [OF assms] run by (simp add: moves_def)
qed

text \<open>A Windows system on which \<open>CreateProcessW\<close> succeeds with the handles 5 and 6.\<close>
definition windows_env :: env where
  "windows_env = demo_env\<lparr>is_windows := True, os := (\<lambda>h c. (os demo_env h c)\<lparr>
     ret := (case c of Lib (MultiByteToWideChar s f) \<Rightarrow> 3 | Lib (Malloc n) \<Rightarrow> 100 | Proc (CreateProcessW s) \<Rightarrow> 1 | _ \<Rightarrow> 0),
     val := 5, val2 := 6\<rparr>)\<rparr>"

theorem proc_life_no_leak_witness:
  "\<exists>p w. run_state (bf_proc_spawn windows_env (bf_proc_new windows_env) [0x78]) demo_world = (Returned 0 p, w) \<and>
     process p = 5 \<and> thread p = 6 \<and> bal Handle 5 (trace w) = 1 \<and> bal Handle 6 (trace w) = 1 \<and> bal Block 100 (trace w) = 0 \<and>
     moves demo_world (snd (run_state (bf_proc_finalize windows_env p) w)) (\<lambda>_ _. 0)"
proof -
  let ?p = "(bf_proc_new windows_env)\<lparr>process := 5, thread := 6\<rparr>"
  have h: "handle_results windows_env" by (auto simp: handle_results_def answers_def windows_env_def)
  obtain w where run: "run_state (bf_proc_spawn windows_env (bf_proc_new windows_env) [0x78]) demo_world = (Returned 0 ?p, w)"
    by (simp add: bf_proc_spawn_def spawn_windows_def sys_def Let_def windows_env_def)
  have "proc_life windows_env demo_world w ?p"
    by (rule proc_life.spawn [OF proc_life.new _ _ run]) (simp_all add: bf_proc_new_def)
  note m = proc_life_no_leak [OF h this]
  have holds: "proc_holds windows_env ?p k x = (if k = Handle \<and> (x = 5 \<or> x = 6) then 1 else 0)" for k x
    by (auto simp: proc_holds_def windows_env_def)
  have "bal Handle 5 (trace w) = 1" "bal Handle 6 (trace w) = 1" "bal Block 100 (trace w) = 0"
    using conjunct1 [OF m] by (simp_all add: moves_def holds)
  then show ?thesis using run conjunct2 [OF m] by (intro exI [of _ ?p] exI [of _ w] conjI) simp_all
qed

text \<open>
  \<open>bf_proc_poll\<close> reports -2 while the child runs, -1 on an error and 0 once it has
  exited, without touching the object's handle or pid; outside Windows the exit code is
  the one \<open>waitpid\<close>'s status encodes (128 plus the signal for a killed child).  The exit
  state is final: every later poll makes no call and returns 0 with the same exit code.
\<close>
theorem poll_latches:
  assumes "run_state (bf_proc_poll E p) w = ((r, p'), w')"
  shows "r \<in> {0, - 1, - 2} \<and> (r = 0 \<longleftrightarrow> exited p') \<and> (r = - 2 \<longrightarrow> p' = p) \<and>
         process p' = process p \<and> pid p' = pid p \<and>
         (r = 0 \<longrightarrow> (\<forall>w''. run_state (bf_proc_poll E p') w'' = ((0, p'), w''))) \<and>
         (r = 0 \<longrightarrow> \<not> exited p \<longrightarrow> \<not> is_windows E \<longrightarrow>
           (\<exists>a. trace w' = trace w @ [(Proc (Waitpid (pid p)), a)] \<and> ret a > 0 \<and>
              bf_proc_exit_code p' =
                (if WIFEXITED E (val a) then WEXITSTATUS E (val a)
                 else if WIFSIGNALED E (val a) then 128 + WTERMSIG E (val a) else - 1)))"
proof -
  have "\<forall>w''. run_state (bf_proc_poll E p') w'' = ((0, p'), w'')" if "r = 0"
    using wp_run [OF poll_spec assms] that by (simp add: bf_proc_poll_def)
  moreover have "\<exists>a. trace w' = trace w @ [(Proc (Waitpid (pid p)), a)] \<and> ret a > 0 \<and>
      bf_proc_exit_code p' =
        (if WIFEXITED E (val a) then WEXITSTATUS E (val a)
         else if WIFSIGNALED E (val a) then 128 + WTERMSIG E (val a) else - 1)"
    if "r = 0" "\<not> exited p" "\<not> is_windows E"
  proof -
    have "ret (os E (trace w) (Proc (Waitpid (pid p)))) > 0"
      using assms that by (simp add: bf_proc_poll_def sys_def Let_def get_errno_def split: if_splits)
    then show ?thesis
      using assms that by (simp add: bf_proc_poll_def sys_def Let_def bf_proc_exit_code_def) force
  qed
  ultimately show ?thesis
    using wp_run [OF poll_spec assms] by (simp only: prod.case) blast
qed

definition poll_env :: env where
  "poll_env = demo_env\<lparr>os := (\<lambda>h c. (os demo_env h c)\<lparr>ret := 42, val := 768\<rparr>)\<rparr>"

theorem poll_latches_witness:
  "\<exists>p' w'. run_state (bf_proc_poll poll_env ((bf_proc_new poll_env)\<lparr>pid := 42\<rparr>)) demo_world = ((0, p'), w') \<and>
     bf_proc_exit_code p' = 3 \<and> run_state (bf_proc_poll poll_env p') demo_world = ((0, p'), demo_world)"
proof -
  obtain p' w' where run:
    "run_state (bf_proc_poll poll_env ((bf_proc_new poll_env)\<lparr>pid := 42\<rparr>)) demo_world = ((0, p'), w')"
    "exit_code p' = 3"
    by (simp add: bf_proc_poll_def bf_proc_new_def poll_env_def sys_def demo_env_def Let_def)
  with poll_latches [OF run(1)] show ?thesis by (auto simp: bf_proc_exit_code_def)
qed

end
