(* ===== verification/Web_Http.thy ===== *)
theory Web_Http
  imports Os "HOL-Library.Sublist"
begin

text \<open>
  The HTTP serving bridge \<open>src/web/http.c\<close>: loopback listeners and connections of the
  web interface.
\<close>

record bf_http =
  fd :: int
  error :: int
  started :: int

definition bf_web_wsa_init :: "env \<Rightarrow> int \<Rightarrow> int \<Rightarrow> (int \<times> int) io" where
  "bf_web_wsa_init E g e =
     (if is_windows E \<and> g = 0
      then do {
        a \<leftarrow> net E WSAStartup;
        return (if ret a = 0 then (1, e) else if e = 0 then (g, ret a) else (g, e))
      }
      else return (g, e))"

definition bf_web_errno :: "env \<Rightarrow> int io" where
  "bf_web_errno E = (if is_windows E then get_last_error else get_errno)"

definition bf_web_shutdown_fd :: "env \<Rightarrow> bf_http \<Rightarrow> bf_http io" where
  "bf_web_shutdown_fd E s =
     (if fd s \<noteq> - 1 then do { _ \<leftarrow> net E (Close (fd s)); return (s\<lparr>fd := - 1\<rparr>) } else return s)"

definition bf_http_finalize :: "env \<Rightarrow> bf_http \<Rightarrow> bf_http io" where
  "bf_http_finalize E s = bf_web_shutdown_fd E s"

definition bf_web_new :: "env \<Rightarrow> int \<Rightarrow> (bf_http \<times> int) io" where
  "bf_web_new E g =
     do {
       (g, e) \<leftarrow> bf_web_wsa_init E g 0;
       return (\<lparr>fd = - 1, error = e, started = 0\<rparr>, g)
     }"

definition bf_web_error :: "bf_http \<Rightarrow> int" where
  "bf_web_error s = error s"

definition bf_web_close :: "env \<Rightarrow> bf_http \<Rightarrow> bf_http io" where
  "bf_web_close E s = bf_http_finalize E s"

definition bf_web_nonblock_fd :: "env \<Rightarrow> int \<Rightarrow> int io" where
  "bf_web_nonblock_fd E f =
     (if is_windows E
      then do { a \<leftarrow> net E (Ioctl_nonblock f); return (if ret a = 0 then 0 else - 1) }
      else do {
        a \<leftarrow> net E (Getfl f);
        if ret a < 0 then return (- 1)
        else do { b \<leftarrow> net E (Setfl_nonblock f (ret a)); return (if ret b = 0 then 0 else - 1) }
      })"

definition bf_web_nonblock :: "env \<Rightarrow> bf_http \<Rightarrow> int io" where
  "bf_web_nonblock E s = bf_web_nonblock_fd E (fd s)"

text \<open>\<open>fd == INVALID_SOCKET\<close> on Windows, \<open>fd < 0\<close> elsewhere.\<close>
definition bad_fd :: "env \<Rightarrow> int \<Rightarrow> bool" where
  "bad_fd E f \<longleftrightarrow> (if is_windows E then f = - 1 else f < 0)"

abbreviation LOOPBACK :: u32 where
  "LOOPBACK \<equiv> 0x7f000001"

text \<open>\<open>bind(...) != 0 || listen(fd, 8) != 0 || bf_web_nonblock_fd(fd) != 0\<close>.\<close>
definition web_bind_listen_fails :: "env \<Rightarrow> int \<Rightarrow> sockaddr \<Rightarrow> bool io" where
  "web_bind_listen_fails E f address =
     do {
       b \<leftarrow> net E (Bind f address);
       if ret b \<noteq> 0 then return True
       else do {
         l \<leftarrow> net E (Listen f 8);
         if ret l \<noteq> 0 then return True
         else do { r \<leftarrow> bf_web_nonblock_fd E f; return (r \<noteq> 0) }
       }
     }"

definition bf_web_listen :: "env \<Rightarrow> bf_http \<Rightarrow> int \<Rightarrow> (int \<times> bf_http) io" where
  "bf_web_listen E s port =
     (if error s \<noteq> 0 then return (- 1, s)
      else do {
        a \<leftarrow> net E (Socket False SOCK_STREAM);
        if bad_fd E (ret a) then do { e \<leftarrow> bf_web_errno E; return (- 1, s\<lparr>error := e\<rparr>) }
        else do {
          bad \<leftarrow> web_bind_listen_fails E (ret a) (Inet LOOPBACK (word_of_int port));
          if bad
          then do {
            e \<leftarrow> bf_web_errno E;
            _ \<leftarrow> net E (Close (ret a));
            return (- 1, s\<lparr>error := e\<rparr>)
          }
          else do {
            let s = s\<lparr>fd := ret a\<rparr>;
            g \<leftarrow> net E (Getsockname (fd s));
            if ret g \<noteq> 0 then do { e \<leftarrow> bf_web_errno E; return (- 1, s\<lparr>error := e\<rparr>) }
            else return (uint (port_of (origin g)), s)
          }
        }
      })"

text \<open>\<open>bf_web_accept\<close> changes the client object only.\<close>
definition bf_web_accept :: "env \<Rightarrow> bf_http \<Rightarrow> bf_http \<Rightarrow> (int \<times> bf_http) io" where
  "bf_web_accept E listener client =
     (if fd listener = - 1 then return (- 1, client)
      else do {
        a \<leftarrow> net E (Accept (fd listener));
        if bad_fd E (ret a)
        then do {
          e \<leftarrow> bf_web_errno E;
          return (if e = BF_AGAIN E \<or> e = BF_INTR E then (- 2, client)
                  else (- 1, client\<lparr>error := e\<rparr>))
        }
        else do {
          r \<leftarrow> bf_web_nonblock_fd E (ret a);
          if r \<noteq> 0 then do { _ \<leftarrow> net E (Close (ret a)); return (- 1, client) }
          else return (0, client\<lparr>fd := ret a\<rparr>)
        }
      })"

definition bf_web_wait :: "env \<Rightarrow> bf_http \<Rightarrow> bool \<Rightarrow> int \<Rightarrow> (int \<times> bf_http) io" where
  "bf_web_wait E s writing timeout_ms =
     (if fd s = - 1 then return (- 1, s)
      else do {
        a \<leftarrow> net E (Select (fd s) writing False
               (if timeout_ms < 0 then None
                else Some (c_div timeout_ms 1000, c_mod timeout_ms 1000 * 1000)));
        if ret a < 0
        then do {
          e \<leftarrow> bf_web_errno E;
          return (if e = BF_INTR E then (- 2, s) else (- 1, s\<lparr>error := e\<rparr>))
        }
        else return (if ret a = 0 then - 2 else 0, s)
      })"

definition bf_web_recv :: "env \<Rightarrow> bf_http \<Rightarrow> int \<Rightarrow> (int \<times> bytes \<times> bf_http) io" where
  "bf_web_recv E s len =
     (if fd s = - 1 then return (- 1, [], s)
      else do {
        a \<leftarrow> net E (Recv (fd s) len False);
        let n = to_i32 (ret a);
        if n > 0 then return (n, buf a, s)
        else if n = 0 then return (0, buf a, s)
        else do {
          e \<leftarrow> bf_web_errno E;
          return (if e = BF_AGAIN E \<or> e = BF_INTR E then (- 2, buf a, s)
                  else (- 1, buf a, s\<lparr>error := e\<rparr>))
        }
      })"

text \<open>
  The loop of \<open>bf_web_send\<close>, at most \<open>n\<close> times round: \<open>None\<close> when it has not returned by
  then.
\<close>
fun web_send_loop :: "env \<Rightarrow> nat \<Rightarrow> bf_http \<Rightarrow> bytes \<Rightarrow> int \<Rightarrow> (int \<times> bf_http) option io" where
  "web_send_loop E 0 s data sent = return None"
| "web_send_loop E (Suc n) s data sent =
     (if sent < int (length data)
      then do {
        a \<leftarrow> net E (Send (fd s) (drop (nat sent) data) False);
        let k = to_i32 (ret a);
        if k < 0
        then do {
          e \<leftarrow> bf_web_errno E;
          if e = BF_AGAIN E \<or> e = BF_INTR E
          then do {
            (r, s) \<leftarrow> bf_web_wait E s True 1000;
            if r \<noteq> 0 then return (Some (- 1, s)) else web_send_loop E n s data sent
          }
          else return (Some (- 1, s\<lparr>error := e\<rparr>))
        }
        else web_send_loop E n s data (sent + k)
      }
      else return (Some (sent, s)))"

definition bf_web_send :: "env \<Rightarrow> nat \<Rightarrow> bf_http \<Rightarrow> bytes \<Rightarrow> (int \<times> bf_http) option io" where
  "bf_web_send E n s data =
     (if fd s = - 1 then return (Some (- 1, s)) else web_send_loop E n s data 0)"

definition bf_web_connect :: "env \<Rightarrow> bf_http \<Rightarrow> int \<Rightarrow> (int \<times> bf_http) io" where
  "bf_web_connect E s port =
     (if error s \<noteq> 0 then return (- 1, s)
      else do {
        a \<leftarrow> net E (Socket False SOCK_STREAM);
        if bad_fd E (ret a) then do { e \<leftarrow> bf_web_errno E; return (- 1, s\<lparr>error := e\<rparr>) }
        else do {
          c \<leftarrow> net E (Connect (ret a) (Inet LOOPBACK (word_of_int port)));
          if ret c \<noteq> 0
          then do {
            e \<leftarrow> bf_web_errno E;
            _ \<leftarrow> net E (Close (ret a));
            return (- 1, s\<lparr>error := e\<rparr>)
          }
          else do {
            let s = s\<lparr>fd := ret a\<rparr>;
            r \<leftarrow> bf_web_nonblock E s;
            if r \<noteq> 0
            then do {
              e \<leftarrow> bf_web_errno E;
              s \<leftarrow> bf_web_shutdown_fd E (s\<lparr>error := e\<rparr>);
              return (- 1, s)
            }
            else return (0, s)
          }
        }
      })"

definition bf_web_now_ms :: "env \<Rightarrow> int io" where
  "bf_web_now_ms E =
     (if is_windows E
      then do { a \<leftarrow> lib E GetTickCount64; return (to_i64 (ret a)) }
      else do { a \<leftarrow> lib E Clock_monotonic; return (val a * 1000 + c_div (val2 a) 1000000) })"

section \<open>Lemmas\<close>

definition web_holds :: "bf_http \<Rightarrow> rkind \<Rightarrow> int \<Rightarrow> int" where
  "web_holds s k h = of_bool (k = Desc \<and> h = fd s \<and> fd s \<noteq> - 1)"

lemma http_fd_self [simp]: "fd s = f \<Longrightarrow> s\<lparr>fd := f\<rparr> = s"
  by (cases s) simp

lemma bf_web_errno_spec:
  assumes "\<And>e. Q e w"
  shows "wp (bf_web_errno E) Q w"
  using assms by (simp add: bf_web_errno_def wp_simps)

lemma web_nonblock_spec:
  assumes "\<And>r w'. moves w w' (\<lambda>_ _. 0) \<Longrightarrow> Q r w'"
  shows "wp (bf_web_nonblock_fd E f) Q w"
  by (auto simp: bf_web_nonblock_fd_def wp_simps moves_def intro!: wp_sys assms)

lemma web_bind_spec:
  assumes "\<And>r w'. moves w w' (\<lambda>_ _. 0) \<Longrightarrow> Q r w'"
  shows "wp (web_bind_listen_fails E f a) Q w"
  by (auto simp: web_bind_listen_fails_def wp_simps moves_def intro!: wp_sys assms web_nonblock_spec)

lemma web_shutdown_spec:
  assumes "\<And>w'. moves w w' (\<lambda>k h. - web_holds s k h) \<Longrightarrow> Q (s\<lparr>fd := - 1\<rparr>) w'"
  shows "wp (bf_web_shutdown_fd E s) Q w"
  using assms [of w] assms
  by (auto simp: bf_web_shutdown_fd_def wp_simps moves_def web_holds_def intro!: wp_sys)

lemmas web_vcg = wp_sys bf_web_errno_spec web_nonblock_spec web_bind_spec web_shutdown_spec

lemma web_open_spec:
  assumes "fd_results E" "fd s = - 1"
  shows "wp (bf_web_listen E s port) (\<lambda>(r, s') w'. moves w w' (web_holds s') \<and> - 1 \<le> r \<and> (r \<noteq> - 1 \<longrightarrow> fd s' \<noteq> - 1)) w"
    and "wp (bf_web_connect E s port) (\<lambda>(r, s') w'. moves w w' (web_holds s') \<and> r \<in> {0, - 1} \<and> (r = 0 \<longleftrightarrow> fd s' \<noteq> - 1)) w"
    and "wp (bf_web_accept E l s) (\<lambda>(r, s') w'. moves w w' (web_holds s') \<and> r \<in> {0, - 1, - 2} \<and> (r = 0 \<longleftrightarrow> fd s' \<noteq> - 1)) w"
  using assms(2) unfolding bf_web_listen_def bf_web_connect_def bf_web_accept_def bf_web_nonblock_def
  by (auto simp: wp_simps Let_def moves_def web_holds_def bad_fd_def order_trans [OF _ uint_ge_0] split: if_splits
      dest: fd_resultsD(1) [OF assms(1)] fd_resultsD(2) [OF assms(1)] intro!: web_vcg)

lemma web_keep_spec:
  "wp (bf_web_wait E s wr t) (\<lambda>(r, s') w'. moves w w' (\<lambda>_ _. 0) \<and> fd s' = fd s) w"
  "wp (bf_web_recv E s n) (\<lambda>(r, d, s') w'. moves w w' (\<lambda>_ _. 0) \<and> fd s' = fd s) w"
  by (auto simp: bf_web_wait_def bf_web_recv_def wp_simps Let_def moves_def split: if_splits intro!: web_vcg)

subsection \<open>The send loop\<close>

text \<open>The bytes the system accepted from \<open>send\<close> on a descriptor.\<close>
fun accepted :: "int \<Rightarrow> event \<Rightarrow> bytes" where
  "accepted f (Net (Send g bs fl), a) = (if g = f \<and> ret a > 0 then take (nat (ret a)) bs else [])"
| "accepted f _ = []"

definition delivered :: "int \<Rightarrow> event list \<Rightarrow> bytes" where
  "delivered f es = concat (map (accepted f) es)"

text \<open>Documented of \<open>send\<close>: a count of at most the bytes offered, or -1.\<close>
definition send_results :: "env \<Rightarrow> bool" where
  "send_results E \<longleftrightarrow>
     (\<forall>f bs fl a. a \<in> answers E (Net (Send f bs fl)) \<longrightarrow> - 1 \<le> ret a \<and> ret a \<le> int (length bs))"

lemma delivered_simps [simp]:
  "delivered f [] = []"
  "delivered f (e # es) = accepted f e @ delivered f es"
  "delivered f (es @ es') = delivered f es @ delivered f es'"
  by (simp_all add: delivered_def)

lemma to_i32_id: "- (2 ^ 31) \<le> x \<Longrightarrow> x < 2 ^ 31 \<Longrightarrow> to_i32 x = x"
  unfolding to_i32_def by (rule signed_take_bit_int_eq_self)

lemma web_wait_one_call:
  assumes "fd s \<noteq> - 1"
    and "\<And>r e t' a w'. trace w' = trace w @ [(Net (Select (fd s) wr False t'), a)] \<Longrightarrow> Q (r, s\<lparr>error := e\<rparr>) w'"
  shows "wp (bf_web_wait E s wr t) Q w"
proof -
  have same: "Q (r, s) w'" if "trace w' = trace w @ [(Net (Select (fd s) wr False t'), a)]" for r t' a w'
    using assms(2) [OF that, of r "error s"] by simp
  show ?thesis using assms(1)
    by (auto simp: bf_web_wait_def wp_simps intro!: wp_sys bf_web_errno_spec same assms(2) split: if_splits)
qed

lemma send_loop_delivers:
  assumes "send_results E" "length data < 2 ^ 31" "fd s \<noteq> - 1" "0 \<le> sent" "sent \<le> int (length data)"
  shows "wp (web_send_loop E n s data sent)
     (\<lambda>x w'. case x of None \<Rightarrow> True | Some (r, s') \<Rightarrow> fd s' = fd s \<and>
        (\<exists>es. trace w' = trace w @ es \<and>
          (r = int (length data) \<and> delivered (fd s) es = drop (nat sent) data \<or>
           r = - 1 \<and> prefix (delivered (fd s) es) (drop (nat sent) data)))) w"
  using assms(3-)
proof (induction n arbitrary: s sent w)
  case (Suc n)
  let ?Post = "\<lambda>w s sent x w'. case x of None \<Rightarrow> True | Some (r, s') \<Rightarrow> fd s' = fd s \<and>
        (\<exists>es. trace w' = trace w @ es \<and>
          (r = int (length data) \<and> delivered (fd s) es = drop (nat sent) data \<or>
           r = - 1 \<and> prefix (delivered (fd s) es) (drop (nat sent) data)))"
  let ?send = "Net (Send (fd s) (drop (nat sent) data) False)"
  show ?case
  proof (cases "sent < int (length data)")
    case False
    then show ?thesis using Suc.prems by (auto simp: wp_simps)
  next
    case True
    have later: "wp (web_send_loop E n s' data (sent + k)) (?Post w s sent) w'"
      if "fd s' = fd s" "trace w' = trace w @ es" "0 \<le> k" "sent + k \<le> int (length data)"
        "delivered (fd s) es = take (nat k) (drop (nat sent) data)" for s' w' es k
    proof (rule wp_mono [OF Suc.IH])
      have eq: "drop (nat sent) data = take (nat k) (drop (nat sent) data) @ drop (nat (sent + k)) data"
        using Suc.prems(2) that(3) append_take_drop_id [of "nat k" "drop (nat sent) data"]
        by (simp add: nat_add_distrib add.commute)
      fix x w''
      assume "?Post w' s' (sent + k) x w''"
      then show "?Post w s sent x w''" using that(1,2,5) eq
        by (auto split: option.splits simp: that) (metis append.assoc same_prefix_prefix)
    qed (use that Suc.prems in auto)
    have k: "- 1 \<le> ret a" "sent + ret a \<le> int (length data)" "to_i32 (ret a) = ret a"
      if "a \<in> answers E ?send" for a
    proof -
      have "- 1 \<le> ret a \<and> ret a \<le> int (length (drop (nat sent) data))"
        using assms(1) that unfolding send_results_def by blast
      then show "- 1 \<le> ret a" "sent + ret a \<le> int (length data)" "to_i32 (ret a) = ret a"
        using True Suc.prems(2) assms(2) by (auto intro!: to_i32_id)
    qed
    have retry: "wp (web_send_loop E n s' data sent) (?Post w s sent) w'"
      if "fd s' = fd s" "trace w' = trace w @ es" "delivered (fd s) es = []" for s' w' es
      using later [of s' w' es 0] that Suc.prems(3) by simp
    show ?thesis
      using True Suc.prems
      by (auto simp: wp_simps Let_def k intro!: wp_sys bf_web_errno_spec web_wait_one_call later retry)
  qed
qed (simp add: wp_simps)

text \<open>An attempt to send that accepted nothing.\<close>
fun stalled :: "event \<Rightarrow> bool" where
  "stalled (Net (Send f bs fl), a) \<longleftrightarrow> ret a \<le> 0"
| "stalled _ \<longleftrightarrow> False"

text \<open>
  The peer drains its side: after \<open>B\<close> attempts that accepted nothing, an attempt to send
  accepts a byte or fails for good.
\<close>
definition drains :: "env \<Rightarrow> nat \<Rightarrow> bool" where
  "drains E B \<longleftrightarrow>
     (\<forall>h f bs fl. bs \<noteq> [] \<longrightarrow> B \<le> length (filter stalled h) \<longrightarrow>
       (let a = os E h (Net (Send f bs fl)) in
        ret a > 0 \<or> ret a < 0 \<and>
          (if is_windows E then lasterr a else err a) \<notin> {BF_AGAIN E, BF_INTR E}))"

lemma send_loop_returns:
  assumes "send_results E" "drains E B" "length data < 2 ^ 31" "fd s \<noteq> - 1" "0 \<le> sent"
    and "length (filter stalled (trace w)) = j"
    and "nat (int (length data) - sent) + (B - j) < n"
  shows "wp (web_send_loop E n s data sent) (\<lambda>x w'. \<exists>r s'. x = Some (r, s')) w"
  using assms(4-)
proof (induction n arbitrary: s sent w j)
  case (Suc n)
  let ?send = "Net (Send (fd s) (drop (nat sent) data) False)"
  let ?a = "os E (trace w) ?send"
  show ?case
  proof (cases "sent < int (length data)")
    case True
    then have ne: "drop (nat sent) data \<noteq> []" using Suc.prems(2) by auto
    have "?a \<in> answers E ?send" by (auto simp: answers_def)
    then have "- 1 \<le> ret ?a \<and> ret ?a \<le> int (length (drop (nat sent) data))"
      using assms(1) unfolding send_results_def by blast
    then have k: "- 1 \<le> ret ?a" "to_i32 (ret ?a) = ret ?a"
      using True Suc.prems(2) assms(3) by (auto intro!: to_i32_id)
    have enough: "j < B" if "ret ?a \<le> 0" "ret ?a = 0 \<or> (if is_windows E then lasterr ?a else err ?a) \<in> {BF_AGAIN E, BF_INTR E}"
    proof (rule ccontr)
      assume "\<not> j < B"
      then have "ret ?a > 0 \<or> ret ?a < 0 \<and> (if is_windows E then lasterr ?a else err ?a) \<notin> {BF_AGAIN E, BF_INTR E}"
        using assms(2) ne Suc.prems(3) unfolding drains_def Let_def by (metis not_less)
      then show False using that by auto
    qed
    have retry: "wp (web_send_loop E n s' data sent) (\<lambda>x w'. \<exists>r s'. x = Some (r, s')) w'"
      if "fd s' = fd s" "j < B" "length (filter stalled (trace w')) = Suc j" for s' w'
      using that Suc.prems by (intro Suc.IH [where j = "Suc j"]) auto
    have ahead: "wp (web_send_loop E n s data (sent + ret ?a)) (\<lambda>x w'. \<exists>r s'. x = Some (r, s')) w'"
      if "0 < ret ?a" "length (filter stalled (trace w')) = j" for w'
      using that Suc.prems True by (intro Suc.IH [where j = j]) auto
    consider "ret ?a > 0" | "ret ?a = 0" | "ret ?a < 0" by linarith
    then show ?thesis
    proof cases
      case 1
      then show ?thesis using True k ahead Suc.prems(3)
        by (auto simp: wp_simps Let_def intro!: wp_sys_exact)
    next
      case 2
      then show ?thesis using True k retry enough Suc.prems(3)
        by (auto simp: wp_simps Let_def intro!: wp_sys_exact)
    next
      case 3
      then show ?thesis using True k enough Suc.prems(1,3)
        by (auto simp: wp_simps Let_def bf_web_errno_def intro!: wp_sys_exact web_wait_one_call retry)
    qed
  qed (simp add: wp_simps)
qed simp

text \<open>What the operations of a web object connect and bind to.\<close>
definition loopback_only :: "call \<Rightarrow> bool" where
  "loopback_only c \<longleftrightarrow>
     (case c of
        Net (Connect f a) \<Rightarrow> \<exists>p. a = Inet LOOPBACK p
      | Net (Bind f a) \<Rightarrow> \<exists>p. a = Inet LOOPBACK p
      | Net (Sendto f d a) \<Rightarrow> False
      | _ \<Rightarrow> True)"

lemma web_calls_local:
  "wp (bf_web_listen E s port) (\<lambda>_ w'. calls loopback_only w w') w"
  "wp (bf_web_connect E s port) (\<lambda>_ w'. calls loopback_only w w') w"
  "wp (bf_web_accept E l s) (\<lambda>_ w'. calls loopback_only w w') w"
  "wp (bf_web_wait E s wr t) (\<lambda>_ w'. calls loopback_only w w') w"
  "wp (bf_web_recv E s n) (\<lambda>_ w'. calls loopback_only w w') w"
  unfolding bf_web_listen_def bf_web_connect_def bf_web_accept_def bf_web_wait_def bf_web_recv_def
    bf_web_nonblock_def bf_web_nonblock_fd_def web_bind_listen_fails_def bf_web_shutdown_fd_def
  by (auto simp: wp_simps Let_def loopback_only_def intro!: wp_sys bf_web_errno_spec)

lemma send_loop_keeps:
  "wp (web_send_loop E n s data sent) (\<lambda>x w'. case x of None \<Rightarrow> True | Some (r, s') \<Rightarrow>
     moves w w' (\<lambda>_ _. 0) \<and> fd s' = fd s \<and> calls loopback_only w w') w"
proof (induction n arbitrary: s sent w)
  case (Suc n)
  have IH: "wp (web_send_loop E n s' data t) (\<lambda>x w'. case x of None \<Rightarrow> True | Some (r, s') \<Rightarrow>
     moves w w' (\<lambda>_ _. 0) \<and> fd s' = fd s \<and> calls loopback_only w w') w'"
    if "moves w w' (\<lambda>_ _. 0)" "fd s' = fd s" "calls loopback_only w w'" for s' t w'
    using that
    by (intro wp_mono [OF Suc.IH]) (auto simp: moves_def split: option.splits intro: calls_trans)
  have wait: "wp (bf_web_wait E s True 1000) Q w'"
    if "\<And>r s' w''. moves w' w'' (\<lambda>_ _. 0) \<Longrightarrow> fd s' = fd s \<Longrightarrow> calls loopback_only w' w'' \<Longrightarrow> Q (r, s') w''"
    for Q w'
    using that by (intro wp_mono [OF wp_conj [OF web_keep_spec(1) web_calls_local(4)]]) auto
  show ?case
    by (auto simp: wp_simps Let_def loopback_only_def moves_def
        intro!: wp_sys bf_web_errno_spec wait IH elim!: calls_afterD)
qed (simp add: wp_simps)

lemma send_keeps:
  "wp (bf_web_send E n s data) (\<lambda>x w'. case x of None \<Rightarrow> True | Some (r, s') \<Rightarrow>
     moves w w' (\<lambda>_ _. 0) \<and> fd s' = fd s \<and> calls loopback_only w w') w"
  by (auto simp: bf_web_send_def wp_simps intro!: send_loop_keeps)

lemma web_new_spec:
  "wp (bf_web_new E g) (\<lambda>(s, g') w'. moves w w' (\<lambda>_ _. 0) \<and> fd s = - 1 \<and> calls loopback_only w w') w"
  by (auto simp: bf_web_new_def bf_web_wsa_init_def wp_simps moves_def loopback_only_def intro!: wp_sys)

lemma web_close_spec:
  "wp (bf_web_close E s) (\<lambda>s' w'. moves w w' (\<lambda>k h. - web_holds s k h) \<and> fd s' = - 1 \<and>
     calls loopback_only w w') w"
  by (auto simp: bf_web_close_def bf_http_finalize_def bf_web_shutdown_fd_def wp_simps moves_def
      web_holds_def loopback_only_def intro!: wp_sys)

text \<open>
  The worlds and objects reached with one web object that opens a descriptor only while it
  has none.
\<close>
inductive web_life :: "env \<Rightarrow> world \<Rightarrow> world \<Rightarrow> bf_http \<Rightarrow> bool" for E w0 where
  new: "run_state (bf_web_new E g) w0 = ((s, g'), w) \<Longrightarrow> web_life E w0 w s"
| acquire: "web_life E w0 w s \<Longrightarrow> fd s = - 1 \<Longrightarrow>
    m \<in> {bf_web_listen E s port, bf_web_connect E s port, bf_web_accept E l s} \<Longrightarrow>
    run_state m w = ((r, s'), w') \<Longrightarrow> web_life E w0 w' s'"
| wait: "web_life E w0 w s \<Longrightarrow> run_state (bf_web_wait E s wr t) w = ((r, s'), w') \<Longrightarrow> web_life E w0 w' s'"
| receive: "web_life E w0 w s \<Longrightarrow> run_state (bf_web_recv E s len) w = ((r, d, s'), w') \<Longrightarrow> web_life E w0 w' s'"
| send: "web_life E w0 w s \<Longrightarrow> run_state (bf_web_send E n s data) w = (Some (r, s'), w') \<Longrightarrow> web_life E w0 w' s'"
| close: "web_life E w0 w s \<Longrightarrow> run_state (bf_web_close E s) w = (s', w') \<Longrightarrow> web_life E w0 w' s'"

lemma web_acquire_spec:
  assumes "fd_results E" "fd s = - 1" "m \<in> {bf_web_listen E s port, bf_web_connect E s port, bf_web_accept E l s}"
  shows "wp m (\<lambda>(r, s') w'. moves w w' (web_holds s') \<and> calls loopback_only w w') w"
proof -
  have a: "wp m (\<lambda>(r, s') w'. moves w w' (web_holds s')) w"
    using assms(3) by (auto intro: wp_mono [OF web_open_spec(1) [OF assms(1,2)]]
        wp_mono [OF web_open_spec(2) [OF assms(1,2)]] wp_mono [OF web_open_spec(3) [OF assms(1,2)]])
  have b: "wp m (\<lambda>_ w'. calls loopback_only w w') w"
    using assms(3) web_calls_local by auto
  show ?thesis by (rule wp_mono [OF wp_conj [OF a b]]) auto
qed

lemma web_life_inv:
  assumes "fd_results E" "web_life E w0 w s"
  shows "moves w0 w (web_holds s) \<and> calls loopback_only w0 w"
  using assms(2)
proof induction
  case (new g s g' w)
  then show ?case using wp_run [OF web_new_spec new] by (auto simp: moves_def web_holds_def)
next
  case (acquire w s m port l r s' w')
  then show ?case using wp_run [OF web_acquire_spec [OF assms(1) acquire(2,3)] acquire(4)]
    by (auto simp: moves_def web_holds_def intro: calls_trans)
next
  case (wait w s wr t r s' w')
  then show ?case using wp_run [OF web_keep_spec(1) wait(2)] wp_run [OF web_calls_local(4) wait(2)]
    by (auto simp: moves_def web_holds_def intro: calls_trans)
next
  case (receive w s len r d s' w')
  then show ?case using wp_run [OF web_keep_spec(2) receive(2)] wp_run [OF web_calls_local(5) receive(2)]
    by (auto simp: moves_def web_holds_def intro: calls_trans)
next
  case (send w s n data r s' w')
  then show ?case using wp_run [OF send_keeps send(2)]
    by (auto simp: moves_def web_holds_def intro: calls_trans)
next
  case (close w s s' w')
  then show ?case using wp_run [OF web_close_spec close(2)]
    by (auto simp: moves_def web_holds_def intro: calls_trans)
qed

section \<open>Properties\<close>

text \<open>
  C2. \<open>bf_web_send\<close> delivers a response exactly once.  Provided the peer drains its side,
  it returns, and either its result is the length of the data and the bytes the system
  accepted are the data, in order and without gap or repetition, or the result is -1 and
  they are an initial part of it.
\<close>
theorem web_send_delivers:
  assumes "send_results E" "drains E B" "length data < 2 ^ 31" "fd s \<noteq> - 1" "length data + B < n"
  shows "\<exists>r s' w' es. run_state (bf_web_send E n s data) w = (Some (r, s'), w') \<and> trace w' = trace w @ es \<and>
           (r = int (length data) \<and> delivered (fd s) es = data \<or>
            r = - 1 \<and> prefix (delivered (fd s) es) data)"
proof -
  obtain x w' where run: "run_state (web_send_loop E n s data 0) w = (x, w')"
    by (cases "run_state (web_send_loop E n s data 0) w")
  have "\<exists>r s'. x = Some (r, s')"
    using wp_run [OF send_loop_returns [OF assms(1-4) _ refl] run] assms(5) by simp
  then obtain r s' where x: "x = Some (r, s')" by auto
  have "\<exists>es. trace w' = trace w @ es \<and> (r = int (length data) \<and> delivered (fd s) es = data \<or>
            r = - 1 \<and> prefix (delivered (fd s) es) data)"
    using wp_run [OF send_loop_delivers [OF assms(1,3,4)] run] x by simp
  then show ?thesis using run x assms(4) by (auto simp: bf_web_send_def)
qed

text \<open>A system whose \<open>send\<close> takes one byte at a time.\<close>
definition web_env :: env where
  "web_env = demo_env\<lparr>os := (\<lambda>h c. (os demo_env h c)\<lparr>ret := (case c of
      Net (Send f bs fl) \<Rightarrow> int (length (take 1 bs)) | _ \<Rightarrow> 0)\<rparr>)\<rparr>"

theorem web_send_delivers_witness:
  "\<exists>r s' w' es. run_state (bf_web_send web_env 4 \<lparr>fd = 7, error = 0, started = 0\<rparr> [1, 2, 3]) demo_world
       = (Some (r, s'), w') \<and> trace w' = trace demo_world @ es \<and>
     (r = 3 \<and> delivered 7 es = [1, 2, 3] \<or> r = - 1 \<and> prefix (delivered 7 es) [1, 2, 3])"
proof -
  have "send_results web_env" "drains web_env 0"
    by (auto simp: send_results_def answers_def drains_def web_env_def Let_def)
  from web_send_delivers [OF this, of "[1, 2, 3]" "\<lparr>fd = 7, error = 0, started = 0\<rparr>" 4 demo_world]
  show ?thesis by simp
qed

text \<open>
  C9. The web bridge stays on the loopback interface and leaks no descriptor: in every
  reachable state, whatever the system answers, all calls made so far that bind, connect
  or send to an address name 127.0.0.1, and what is held is the descriptor in the object,
  nothing after \<open>bf_web_close\<close>.
\<close>
theorem web_life_local_no_leak:
  assumes "fd_results E" "web_life E w0 w s"
  shows "calls loopback_only w0 w \<and> moves w0 w (web_holds s) \<and>
         moves w0 (snd (run_state (bf_web_close E s) w)) (\<lambda>_ _. 0)"
proof -
  obtain s' w' where run: "run_state (bf_web_close E s) w = (s', w')"
    by (cases "run_state (bf_web_close E s) w")
  have "moves w w' (\<lambda>k h. - web_holds s k h)" using wp_run [OF web_close_spec run] by simp
  then show ?thesis using web_life_inv [OF assms] run by (simp add: moves_def)
qed

theorem web_life_local_no_leak_witness:
  "\<exists>r s w. run_state (bf_web_listen demo_env \<lparr>fd = - 1, error = 0, started = 0\<rparr> 8080) demo_world = ((r, s), w) \<and> r = 80 \<and> fd s = 0
     \<and> calls loopback_only demo_world w \<and> bal Desc 0 (trace w) = 1
     \<and> moves demo_world (snd (run_state (bf_web_close demo_env s) w)) (\<lambda>_ _. 0)"
proof -
  let ?n = "\<lparr>fd = - 1, error = 0, started = 0\<rparr>" and ?s = "\<lparr>fd = 0, error = 0, started = 0\<rparr>"
  have new: "web_life demo_env demo_world demo_world ?n"
    by (rule web_life.new [where g = 0 and g' = 0]) (simp add: bf_web_new_def bf_web_wsa_init_def)
  obtain w where run: "run_state (bf_web_listen demo_env ?n 8080) demo_world = ((80, ?s), w)"
    by (simp add: bf_web_listen_def bad_fd_def web_bind_listen_fails_def bf_web_nonblock_fd_def sys_def Let_def)
  have "web_life demo_env demo_world w ?s"
    by (rule web_life.acquire [OF new _ _ run, where port = 8080 and l = ?n]) simp_all
  note m = web_life_local_no_leak [OF demo_fd_results this]
  have "bal Desc 0 (trace w) = 1" using conjunct1 [OF conjunct2 [OF m]] by (simp add: moves_def web_holds_def)
  then show ?thesis using run m by (intro exI [of _ 80] exI [of _ ?s] exI [of _ w] conjI) simp_all
qed

end
