(* ===== verification/Db_Bridge.thy ===== *)
theory Db_Bridge
  imports Os
begin

text \<open>
  The database bridge \<open>src/db/sqlite.c\<close>.  SQLite itself is reached through its interface:
  a connection or statement is the address of its object, 0 the null pointer.  A C
  \<open>double\<close> is its 64-bit pattern, which the bridge only passes on.
\<close>

section \<open>Objects\<close>

record bf_db =
  db :: int
  error :: int

record bf_stmt =
  stmt :: int
  owner :: int
  s_error :: int

abbreviation SQLITE_OK :: int where "SQLITE_OK \<equiv> 0"
abbreviation SQLITE_NOMEM :: int where "SQLITE_NOMEM \<equiv> 7"
abbreviation SQLITE_ROW :: int where "SQLITE_ROW \<equiv> 100"
abbreviation SQLITE_DONE :: int where "SQLITE_DONE \<equiv> 101"

text \<open>\<open>bf_copy_utf8\<close>: the address of the heap copy, 0 when there is no memory.\<close>
definition bf_copy_utf8 :: "env \<Rightarrow> bytes \<Rightarrow> int io" where
  "bf_copy_utf8 E bs = do { m \<leftarrow> lib E (Malloc (int (length bs) + 1)); return (ret m) }"

section \<open>Time stamps\<close>

text \<open>\<open>printf\<close>'s \<open>%0<n>d\<close>.\<close>
definition zero_padded :: "nat \<Rightarrow> int \<Rightarrow> bytes" where
  "zero_padded n x =
     (if x < 0
      then let t = nat_decimal (nat (- x)) in 0x2d # replicate (n - 1 - length t) 0x30 @ t
      else let t = nat_decimal (nat x) in replicate (n - length t) 0x30 @ t)"

text \<open>
  \<open>snprintf(stamp, 64, "%04d-%02d-%02dT%02d:%02d:%02d", ...)\<close> on the fields \<open>tm_year\<close>,
  \<open>tm_mon\<close>, \<open>tm_mday\<close>, \<open>tm_hour\<close>, \<open>tm_min\<close>, \<open>tm_sec\<close>, and the same followed by \<open>.%06d\<close>.
\<close>
definition iso_stamp :: "int \<Rightarrow> int \<Rightarrow> int \<Rightarrow> int \<Rightarrow> int \<Rightarrow> int \<Rightarrow> int \<Rightarrow> bytes" where
  "iso_stamp year mon mday hour minute sec micros =
     take 63
       (zero_padded 4 (year + 1900) @ 0x2d # zero_padded 2 (mon + 1) @ 0x2d # zero_padded 2 mday @
        0x54 # zero_padded 2 hour @ 0x3a # zero_padded 2 minute @ 0x3a # zero_padded 2 sec @
        (if micros = 0 then [] else 0x2e # zero_padded 6 micros))"

text \<open>\<open>gmtime\<close> fills six fields; the list \<open>nums\<close> of its answer holds them.\<close>
definition bf_db_now_iso :: "env \<Rightarrow> bytes io" where
  "bf_db_now_iso E =
     do {
       (seconds, micros) \<leftarrow>
         (if is_windows E
          then do {
            a \<leftarrow> lib E GetSystemTime;
            let t = to_i64 (val a * 2 ^ 32 + val2 a);
            return (c_div t 10000000 - 11644473600, to_i32 (c_mod (c_div t 10) 1000000))
          }
          else do {
            a \<leftarrow> lib E Clock_realtime;
            return (val a, to_i32 (c_div (val2 a) 1000))
          });
       g \<leftarrow> lib E (Gmtime seconds);
       (case nums g of
          [year, mon, mday, hour, minute, sec] \<Rightarrow> return (iso_stamp year mon mday hour minute sec micros)
        | _ \<Rightarrow> return [])
     }"

section \<open>Connections\<close>

definition bf_db_finalize :: "env \<Rightarrow> bf_db \<Rightarrow> bf_db io" where
  "bf_db_finalize E h =
     (if db h \<noteq> 0 then do { _ \<leftarrow> sql E (Sqlite_close_v2 (db h)); return (h\<lparr>db := 0\<rparr>) } else return h)"

definition bf_db_new :: bf_db where
  "bf_db_new = \<lparr>db = 0, error = 0\<rparr>"

definition bf_db_error :: "bf_db \<Rightarrow> int" where
  "bf_db_error h = error h"

text \<open>\<open>SQLITE_OPEN_READWRITE | SQLITE_OPEN_CREATE\<close> is 6.\<close>
definition bf_db_open :: "env \<Rightarrow> bf_db \<Rightarrow> bytes \<Rightarrow> (int \<times> bf_db) io" where
  "bf_db_open E h path =
     do {
       name \<leftarrow> bf_copy_utf8 E path;
       if name = 0 then return (- 1, h\<lparr>error := SQLITE_NOMEM\<rparr>)
       else do {
         h \<leftarrow> (if db h \<noteq> 0 then do { _ \<leftarrow> sql E (Sqlite_close_v2 (db h)); return (h\<lparr>db := 0\<rparr>) }
              else return h);
         a \<leftarrow> sql E (Sqlite_open_v2 (c_str path) 6);
         _ \<leftarrow> lib E (Free name);
         return (if ret a = SQLITE_OK then 0 else - 1, h\<lparr>db := val a, error := ret a\<rparr>)
       }
     }"

definition bf_db_close :: "env \<Rightarrow> bf_db \<Rightarrow> (int \<times> bf_db) io" where
  "bf_db_close E h =
     (if db h \<noteq> 0
      then do {
        a \<leftarrow> sql E (Sqlite_close_v2 (db h));
        let h = h\<lparr>db := 0\<rparr>;
        return (if ret a \<noteq> SQLITE_OK then (- 1, h\<lparr>error := ret a\<rparr>) else (0, h))
      }
      else return (0, h))"

definition bf_db_exec :: "env \<Rightarrow> bf_db \<Rightarrow> bytes \<Rightarrow> (int \<times> bf_db) io" where
  "bf_db_exec E h text =
     do {
       copy \<leftarrow> bf_copy_utf8 E text;
       if copy = 0 then return (- 1, h\<lparr>error := SQLITE_NOMEM\<rparr>)
       else do {
         a \<leftarrow> sql E (Sqlite_exec (db h) (c_str text));
         _ \<leftarrow> lib E (Free copy);
         return (if ret a \<noteq> SQLITE_OK then (- 1, h\<lparr>error := ret a\<rparr>) else (0, h))
       }
     }"

section \<open>Statements\<close>

definition bf_stmt_finalize :: "env \<Rightarrow> bf_stmt \<Rightarrow> bf_stmt io" where
  "bf_stmt_finalize E s =
     (if stmt s \<noteq> 0 then do { _ \<leftarrow> sql E (Sqlite_finalize (stmt s)); return (s\<lparr>stmt := 0\<rparr>) } else return s)"

definition bf_db_prepare :: "env \<Rightarrow> bf_db \<Rightarrow> bytes \<Rightarrow> bf_stmt io" where
  "bf_db_prepare E h text =
     do {
       let s = \<lparr>stmt = 0, owner = db h, s_error = 0\<rparr>;
       copy \<leftarrow> bf_copy_utf8 E text;
       if copy = 0 then return (s\<lparr>s_error := SQLITE_NOMEM\<rparr>)
       else do {
         a \<leftarrow> sql E (Sqlite_prepare_v2 (db h) (c_str text));
         _ \<leftarrow> lib E (Free copy);
         return (s\<lparr>stmt := val a, s_error := ret a\<rparr>)
       }
     }"

definition bf_stmt_error :: "bf_stmt \<Rightarrow> int" where
  "bf_stmt_error s = s_error s"

text \<open>\<open>if (rc != SQLITE_OK) { s->error = rc; return -1; } return 0;\<close>\<close>
definition bind_result :: "bf_stmt \<Rightarrow> int \<Rightarrow> int \<times> bf_stmt" where
  "bind_result s rc = (if rc \<noteq> SQLITE_OK then (- 1, s\<lparr>s_error := rc\<rparr>) else (0, s))"

definition bf_stmt_bind_int64 :: "env \<Rightarrow> bf_stmt \<Rightarrow> int \<Rightarrow> int \<Rightarrow> (int \<times> bf_stmt) io" where
  "bf_stmt_bind_int64 E s i v =
     do { a \<leftarrow> sql E (Sqlite_bind_int64 (stmt s) i v); return (bind_result s (ret a)) }"

definition bf_stmt_bind_text :: "env \<Rightarrow> bf_stmt \<Rightarrow> int \<Rightarrow> bytes \<Rightarrow> (int \<times> bf_stmt) io" where
  "bf_stmt_bind_text E s i v =
     do { a \<leftarrow> sql E (Sqlite_bind_text (stmt s) i v); return (bind_result s (ret a)) }"

definition bf_stmt_bind_blob :: "env \<Rightarrow> bf_stmt \<Rightarrow> int \<Rightarrow> bytes \<Rightarrow> (int \<times> bf_stmt) io" where
  "bf_stmt_bind_blob E s i v =
     do { a \<leftarrow> sql E (Sqlite_bind_blob (stmt s) i v); return (bind_result s (ret a)) }"

definition bf_stmt_bind_null :: "env \<Rightarrow> bf_stmt \<Rightarrow> int \<Rightarrow> (int \<times> bf_stmt) io" where
  "bf_stmt_bind_null E s i =
     do { a \<leftarrow> sql E (Sqlite_bind_null (stmt s) i); return (bind_result s (ret a)) }"

definition bf_stmt_bind_double :: "env \<Rightarrow> bf_stmt \<Rightarrow> int \<Rightarrow> u64 \<Rightarrow> (int \<times> bf_stmt) io" where
  "bf_stmt_bind_double E s i v =
     do { a \<leftarrow> sql E (Sqlite_bind_double (stmt s) i v); return (bind_result s (ret a)) }"

definition bf_stmt_step :: "env \<Rightarrow> bf_stmt \<Rightarrow> (int \<times> bf_stmt) io" where
  "bf_stmt_step E s =
     do {
       a \<leftarrow> sql E (Sqlite_step (stmt s));
       return (if ret a = SQLITE_ROW then (- 2, s)
               else if ret a = SQLITE_DONE then (0, s)
               else (- 1, s\<lparr>s_error := ret a\<rparr>))
     }"

definition bf_stmt_reset :: "env \<Rightarrow> bf_stmt \<Rightarrow> int io" where
  "bf_stmt_reset E s =
     do {
       _ \<leftarrow> sql E (Sqlite_reset (stmt s));
       _ \<leftarrow> sql E (Sqlite_clear_bindings (stmt s));
       return 0
     }"

definition bf_stmt_close :: "env \<Rightarrow> bf_stmt \<Rightarrow> bf_stmt io" where
  "bf_stmt_close E s = bf_stmt_finalize E s"

section \<open>Columns\<close>

definition bf_stmt_column_count :: "env \<Rightarrow> bf_stmt \<Rightarrow> int io" where
  "bf_stmt_column_count E s = do { a \<leftarrow> sql E (Sqlite_column_count (stmt s)); return (ret a) }"

definition bf_stmt_column_type :: "env \<Rightarrow> bf_stmt \<Rightarrow> int \<Rightarrow> int io" where
  "bf_stmt_column_type E s c = do { a \<leftarrow> sql E (Sqlite_column_type (stmt s) c); return (ret a) }"

definition bf_stmt_column_int64 :: "env \<Rightarrow> bf_stmt \<Rightarrow> int \<Rightarrow> int io" where
  "bf_stmt_column_int64 E s c = do { a \<leftarrow> sql E (Sqlite_column_int64 (stmt s) c); return (ret a) }"

definition bf_stmt_column_double :: "env \<Rightarrow> bf_stmt \<Rightarrow> int \<Rightarrow> u64 io" where
  "bf_stmt_column_double E s c =
     do { a \<leftarrow> sql E (Sqlite_column_double (stmt s) c); return (word_of_int (val a)) }"

definition bf_stmt_column_is_null :: "env \<Rightarrow> bf_stmt \<Rightarrow> int \<Rightarrow> int io" where
  "bf_stmt_column_is_null E s c =
     do { a \<leftarrow> sql E (Sqlite_column_type (stmt s) c); return (if ret a = 5 then 1 else 0) }"

definition bf_stmt_column_bytes :: "env \<Rightarrow> bf_stmt \<Rightarrow> int \<Rightarrow> bytes io" where
  "bf_stmt_column_bytes E s c =
     do {
       d \<leftarrow> sql E (Sqlite_column_blob (stmt s) c);
       n \<leftarrow> sql E (Sqlite_column_bytes (stmt s) c);
       return (if ret d = 0 \<or> ret n \<le> 0 then [] else take (nat (ret n)) (buf d))
     }"

section \<open>Files\<close>

definition bf_db_temp :: "env \<Rightarrow> bytes io" where
  "bf_db_temp E =
     (if is_windows E
      then do {
        d \<leftarrow> fio E GetTempPathW;
        if ret d = 0 then return []
        else do {
          p \<leftarrow> fio E (GetTempFileNameW ''mbd'');
          if ret p = 0 then return []
          else do {
            n \<leftarrow> lib E WideCharToMultiByte;
            b \<leftarrow> lib E WideCharToMultiByte;
            return (take (nat (ret n - 1)) (buf b @ replicate (nat (ret n - 1)) 0))
          }
        }
      }
      else do {
        d \<leftarrow> fio E (Mkstemp ''/tmp/moon-boofuzz-db-XXXXXX'');
        if ret d < 0 then return []
        else do { _ \<leftarrow> net E (Close (ret d)); return (c_str (buf d)) }
      })"

definition bf_db_remove :: "env \<Rightarrow> bytes \<Rightarrow> unit io" where
  "bf_db_remove E path =
     do {
       name \<leftarrow> bf_copy_utf8 E path;
       if name = 0 then return ()
       else do {
         _ \<leftarrow> (if is_windows E
              then do {
                n \<leftarrow> lib E (MultiByteToWideChar (c_str path) False);
                if ret n > 0
                then do {
                  wide \<leftarrow> lib E (Malloc (ret n * 2));
                  if ret wide \<noteq> 0
                  then do {
                    _ \<leftarrow> lib E (MultiByteToWideChar (c_str path) False);
                    _ \<leftarrow> fio E (Wremove (c_str path));
                    _ \<leftarrow> lib E (Free (ret wide));
                    return ()
                  }
                  else return ()
                }
                else return ()
              }
              else do { _ \<leftarrow> fio E (Remove (c_str path)); return () });
         _ \<leftarrow> lib E (Free name);
         return ()
       }
     }"

section \<open>Lemmas\<close>

definition db_holds :: "bf_db \<Rightarrow> rkind \<Rightarrow> int \<Rightarrow> int" where
  "db_holds h k x = of_bool (k = Connection \<and> x = db h \<and> db h \<noteq> 0)"

definition stmt_holds :: "bf_stmt \<Rightarrow> rkind \<Rightarrow> int \<Rightarrow> int" where
  "stmt_holds s k x = of_bool (k = Statement \<and> x = stmt s \<and> stmt s \<noteq> 0)"

lemma db_ops_spec:
  "wp (bf_db_open E h path) (\<lambda>(r, h') w'. moves w w' (\<lambda>k x. db_holds h' k x - db_holds h k x) \<and>
     (r = 0 \<longleftrightarrow> bf_db_error h' = SQLITE_OK) \<and> r \<in> {0, - 1}) w"
  "wp (bf_db_close E h) (\<lambda>(r, h') w'. moves w w' (\<lambda>k x. - db_holds h k x) \<and> db h' = 0) w"
  "wp (bf_db_exec E h text) (\<lambda>(r, h') w'. moves w w' (\<lambda>_ _. 0) \<and> db h' = db h) w"
  by (auto simp: bf_db_open_def bf_db_close_def bf_db_exec_def bf_copy_utf8_def bf_db_error_def wp_simps
      Let_def moves_def db_holds_def split: if_splits intro!: wp_sys)

lemma stmt_ops_spec:
  "wp (bf_db_prepare E h text) (\<lambda>s w'. moves w w' (stmt_holds s)) w"
  "wp (bf_stmt_close E s) (\<lambda>s' w'. moves w w' (\<lambda>k x. - stmt_holds s k x) \<and> stmt s' = 0) w"
  by (auto simp: bf_db_prepare_def bf_stmt_close_def bf_stmt_finalize_def bf_copy_utf8_def wp_simps
      Let_def moves_def stmt_holds_def intro!: wp_sys)

lemma stmt_step_spec:
  "wp (bf_stmt_step E s) (\<lambda>(r, s') w'. moves w w' (\<lambda>_ _. 0) \<and> stmt s' = stmt s) w"
  "wp (bf_stmt_bind_int64 E s i v) (\<lambda>(r, s') w'. moves w w' (\<lambda>_ _. 0) \<and> stmt s' = stmt s) w"
  "wp (bf_stmt_bind_text E s i b) (\<lambda>(r, s') w'. moves w w' (\<lambda>_ _. 0) \<and> stmt s' = stmt s) w"
  "wp (bf_stmt_bind_blob E s i b) (\<lambda>(r, s') w'. moves w w' (\<lambda>_ _. 0) \<and> stmt s' = stmt s) w"
  "wp (bf_stmt_bind_null E s i) (\<lambda>(r, s') w'. moves w w' (\<lambda>_ _. 0) \<and> stmt s' = stmt s) w"
  "wp (bf_stmt_bind_double E s i d) (\<lambda>(r, s') w'. moves w w' (\<lambda>_ _. 0) \<and> stmt s' = stmt s) w"
  by (auto simp: bf_stmt_step_def bf_stmt_bind_int64_def bf_stmt_bind_text_def bf_stmt_bind_blob_def
      bf_stmt_bind_null_def bf_stmt_bind_double_def bind_result_def wp_simps moves_def
      split: if_splits intro!: wp_sys)

text \<open>
  The worlds and objects reached with one connection object, opened (again) at any time, and
  with one statement object prepared on some connection.
\<close>
inductive db_life :: "env \<Rightarrow> world \<Rightarrow> world \<Rightarrow> bf_db \<Rightarrow> bool" for E w0 where
  new: "db_life E w0 w0 bf_db_new"
| opened: "db_life E w0 w h \<Longrightarrow> run_state (bf_db_open E h path) w = ((r, h'), w') \<Longrightarrow> db_life E w0 w' h'"
| exec: "db_life E w0 w h \<Longrightarrow> run_state (bf_db_exec E h text) w = ((r, h'), w') \<Longrightarrow> db_life E w0 w' h'"
| close: "db_life E w0 w h \<Longrightarrow> run_state (bf_db_close E h) w = ((r, h'), w') \<Longrightarrow> db_life E w0 w' h'"

inductive stmt_life :: "env \<Rightarrow> world \<Rightarrow> world \<Rightarrow> bf_stmt \<Rightarrow> bool" for E w0 where
  prepare: "run_state (bf_db_prepare E h text) w0 = (s, w) \<Longrightarrow> stmt_life E w0 w s"
| use: "stmt_life E w0 w s \<Longrightarrow>
    m \<in> {bf_stmt_step E s, bf_stmt_bind_int64 E s i v, bf_stmt_bind_text E s i b,
         bf_stmt_bind_blob E s i b, bf_stmt_bind_null E s i, bf_stmt_bind_double E s i d} \<Longrightarrow>
    run_state m w = ((r, s'), w') \<Longrightarrow> stmt_life E w0 w' s'"
| close: "stmt_life E w0 w s \<Longrightarrow> run_state (bf_stmt_close E s) w = (s', w') \<Longrightarrow> stmt_life E w0 w' s'"

lemma db_life_holds: "db_life E w0 w h \<Longrightarrow> moves w0 w (db_holds h)"
proof (induction rule: db_life.induct)
  case new
  then show ?case by (simp add: db_holds_def bf_db_new_def)
next
  case (opened w h path r h' w')
  then show ?case using wp_run [OF db_ops_spec(1) opened(2)] by (auto simp: moves_def)
next
  case (exec w h src r h' w')
  then show ?case using wp_run [OF db_ops_spec(3) exec(2)] by (auto simp: moves_def db_holds_def)
next
  case (close w h r h' w')
  then show ?case using wp_run [OF db_ops_spec(2) close(2)] by (auto simp: moves_def db_holds_def)
qed

lemma stmt_use_spec:
  assumes "m \<in> {bf_stmt_step E s, bf_stmt_bind_int64 E s i v, bf_stmt_bind_text E s i b,
         bf_stmt_bind_blob E s i b, bf_stmt_bind_null E s i, bf_stmt_bind_double E s i d}"
  shows "wp m (\<lambda>(r, s') w'. moves w w' (\<lambda>_ _. 0) \<and> stmt s' = stmt s) w"
  using assms stmt_step_spec by auto

lemma stmt_life_holds: "stmt_life E w0 w s \<Longrightarrow> moves w0 w (stmt_holds s)"
proof (induction rule: stmt_life.induct)
  case (prepare h src s w)
  then show ?case using wp_run [OF stmt_ops_spec(1) prepare] by simp
next
  case (use w s m i v b d r s' w')
  then show ?case using wp_run [OF stmt_use_spec [OF use(2)] use(3)]
    by (auto simp: moves_def stmt_holds_def)
next
  case (close w s s' w')
  then show ?case using wp_run [OF stmt_ops_spec(2) close(2)] by (auto simp: moves_def stmt_holds_def)
qed

subsection \<open>Decimal fields\<close>

lemma zero_padded:
  assumes "0 < k" "0 \<le> x" "x < 10 ^ k"
  shows "length (zero_padded k x) = k" "num_of (zero_padded k x) = nat x"
proof -
  have "nat x < 10 ^ k" using assms by (simp add: nat_less_iff)
  then have "length (nat_decimal (nat x)) \<le> k" using assms(1) by (intro length_decimal)
  then show "length (zero_padded k x) = k" using assms by (simp add: zero_padded_def Let_def)
  have "num_of (replicate m 0x30 @ t) = num_of t" for m t by (simp add: num_of_def foldl_zeros)
  then show "num_of (zero_padded k x) = nat x"
    using assms by (simp add: zero_padded_def Let_def num_of_decimal)
qed

section \<open>Properties\<close>

text \<open>
  C10. The database bridge leaks neither connections nor statements nor heap blocks,
  whatever SQLite and the allocator answer: opening an object again closes the connection
  it had, a failed open keeps the handle SQLite returned so that it can be closed, and what
  is held is the handle in the object, nothing after closing.
\<close>
theorem db_life_no_leak:
  "(db_life E w0 w h \<longrightarrow> moves w0 w (db_holds h) \<and>
      moves w0 (snd (run_state (bf_db_close E h) w)) (\<lambda>_ _. 0)) \<and>
   (stmt_life E w0 w s \<longrightarrow> moves w0 w (stmt_holds s) \<and>
      moves w0 (snd (run_state (bf_stmt_close E s) w)) (\<lambda>_ _. 0))"
proof (intro conjI impI)
  assume life: "db_life E w0 w h"
  then show "moves w0 w (db_holds h)" by (rule db_life_holds)
  obtain r h' w' where run: "run_state (bf_db_close E h) w = ((r, h'), w')"
    by (cases "run_state (bf_db_close E h) w") auto
  then show "moves w0 (snd (run_state (bf_db_close E h) w)) (\<lambda>_ _. 0)"
    using db_life_holds [OF life] wp_run [OF db_ops_spec(2) run] by (simp add: moves_def)
next
  assume life: "stmt_life E w0 w s"
  then show "moves w0 w (stmt_holds s)" by (rule stmt_life_holds)
  obtain s' w' where run: "run_state (bf_stmt_close E s) w = (s', w')"
    by (cases "run_state (bf_stmt_close E s) w")
  then show "moves w0 (snd (run_state (bf_stmt_close E s) w)) (\<lambda>_ _. 0)"
    using stmt_life_holds [OF life] wp_run [OF stmt_ops_spec(2) run] by (simp add: moves_def)
qed

text \<open>A database library that opens the connection 7 and prepares the statement 7.\<close>
definition db_env :: env where
  "db_env = demo_env\<lparr>os := (\<lambda>h c. (os demo_env h c)\<lparr>ret := (case c of Lib (Malloc n) \<Rightarrow> 100 | _ \<Rightarrow> 0), val := 7\<rparr>)\<rparr>"

theorem db_life_no_leak_witness:
  "\<exists>h w s w'. run_state (bf_db_open db_env bf_db_new [0x78]) demo_world = ((0, h), w) \<and> bal Connection 7 (trace w) = 1
     \<and> bal Block 100 (trace w) = 0 \<and> moves demo_world (snd (run_state (bf_db_close db_env h) w)) (\<lambda>_ _. 0)
     \<and> run_state (bf_db_prepare db_env h [0x78]) w = (s, w') \<and> bal Statement 7 (trace w') = bal Statement 7 (trace w) + 1
     \<and> moves w (snd (run_state (bf_stmt_close db_env s) w')) (\<lambda>_ _. 0)"
proof -
  let ?h = "\<lparr>db = 7, error = 0\<rparr>"
  obtain w where run: "run_state (bf_db_open db_env bf_db_new [0x78]) demo_world = ((0, ?h), w)"
    by (simp add: bf_db_open_def bf_copy_utf8_def bf_db_new_def sys_def Let_def db_env_def)
  obtain s w' where prep: "run_state (bf_db_prepare db_env ?h [0x78]) w = (s, w')" "stmt s = 7"
    by (simp add: bf_db_prepare_def bf_copy_utf8_def sys_def Let_def db_env_def)
  have life: "db_life db_env demo_world w ?h" by (rule db_life.opened [OF db_life.new run])
  have st: "stmt_life db_env w w' s" by (rule stmt_life.prepare [OF prep(1)])
  note m = mp [OF conjunct1 [OF db_life_no_leak] life] mp [OF conjunct2 [OF db_life_no_leak] st]
  have "bal Connection 7 (trace w) = 1" "bal Block 100 (trace w) = 0"
    using conjunct1 [OF m(1)] by (simp_all add: moves_def db_holds_def)
  moreover have "bal Statement 7 (trace w') = bal Statement 7 (trace w) + 1"
    using conjunct1 [OF m(2)] prep(2) by (simp add: moves_def stmt_holds_def)
  ultimately show ?thesis using run prep(1) conjunct2 [OF m(1)] conjunct2 [OF m(2)]
    by (intro exI [of _ ?h] exI [of _ w] exI [of _ s] exI [of _ w'] conjI) simp_all
qed

text \<open>
  For a calendar date of the years 0 to 9999 the time stamp has 19 bytes exactly when
  the microseconds are zero and 26 otherwise, and every field can be read back from its
  fixed position.
\<close>
theorem iso_stamp_fields:
  assumes "0 \<le> year + 1900" "year + 1900 \<le> 9999" "0 \<le> mon" "mon \<le> 11" "1 \<le> mday" "mday \<le> 31"
    and "0 \<le> hour" "hour \<le> 23" "0 \<le> minute" "minute \<le> 59" "0 \<le> sec" "sec \<le> 60"
    and "0 \<le> micros" "micros < 1000000"
  defines "t \<equiv> iso_stamp year mon mday hour minute sec micros"
  shows "length t = (if micros = 0 then 19 else 26) \<and>
         num_of (take 4 t) = nat (year + 1900) \<and> num_of (take 2 (drop 5 t)) = nat (mon + 1) \<and>
         num_of (take 2 (drop 8 t)) = nat mday \<and> num_of (take 2 (drop 11 t)) = nat hour \<and>
         num_of (take 2 (drop 14 t)) = nat minute \<and> num_of (take 2 (drop 17 t)) = nat sec \<and>
         (micros \<noteq> 0 \<longrightarrow> num_of (drop 20 t) = nat micros)"
proof -
  have f: "length (zero_padded 4 (year + 1900)) = 4" "num_of (zero_padded 4 (year + 1900)) = nat (year + 1900)"
    "length (zero_padded 2 (mon + 1)) = 2" "num_of (zero_padded 2 (mon + 1)) = nat (mon + 1)"
    "length (zero_padded 2 mday) = 2" "num_of (zero_padded 2 mday) = nat mday"
    "length (zero_padded 2 hour) = 2" "num_of (zero_padded 2 hour) = nat hour"
    "length (zero_padded 2 minute) = 2" "num_of (zero_padded 2 minute) = nat minute"
    "length (zero_padded 2 sec) = 2" "num_of (zero_padded 2 sec) = nat sec"
    "length (zero_padded 6 micros) = 6" "num_of (zero_padded 6 micros) = nat micros"
    using assms by (simp_all add: zero_padded)
  then show ?thesis unfolding t_def iso_stamp_def by simp
qed

theorem iso_stamp_fields_witness:
  "length (iso_stamp 124 1 29 23 59 60 5) = 26 \<and> num_of (drop 20 (iso_stamp 124 1 29 23 59 60 5)) = 5"
  using iso_stamp_fields [of 124 1 29 23 59 60 5] by simp

end
