(* ===== verification/Spec2Isabelle.thy ===== *)
theory Spec2Isabelle
  imports Varint Ctype Keyword Tokenize Pattern Mem_Journal Row_Format Value_Order Record_Compare Affinity Str_Accum Format_Items IntArith IntText Hash_Table Bitvec Row_Set Complete Prng Utf Socket Record_File Child_Process Web_Http Db_Bridge
begin

text \<open>
  A verification development for the C code of moon-boofuzz.

  \<^bold>\<open>The program.\<close>  moon-boofuzz is a network protocol fuzzer.  Its engine (protocol models,
  mutations, sessions, monitors) is written in MoonBit; everything that touches the operating
  system goes through small C bridges, and its results go into an SQLite database whose engine is
  compiled in as one file.  The C code under \<open>src/\<close> has these parts:

    \<^item> \<open>transport/socket.c\<close>: TCP and UDP sockets (connect with a deadline, send, receive, fixture
      servers, UDP servers and broadcast);
    \<^item> \<open>recordio/file.c\<close>: record files (open for appending, create, write, read, temporary files);
    \<^item> \<open>process/process.c\<close>: the child process under test (spawn, poll, kill);
    \<^item> \<open>web/http.c\<close>: the loopback server sockets of the web interface;
    \<^item> \<open>db/sqlite.c\<close>: the database bridge (open, prepare, bind, step, columns, time stamps);
    \<^item> \<open>db/sqlite3.c\<close>: SQLite 3.45.3, of which this development takes the self-contained
      components listed below;
    \<^item> \<open>transport/crash.c\<close>: crash diagnostics on Windows.

  The bridges do not call one another.  Each keeps one object per resource with an error slot,
  and the database bridge calls SQLite.

  \<^bold>\<open>The theories.\<close>

    \<^item> \<open>Prelude\<close>: C integer types as words, byte memory, decimal text, bit-level lemmas.
    \<^item> \<open>Os\<close>: the environment of the bridges.  A system call is an event answered by an
      environment \<open>env\<close>, a function of the history; a bridge function is a computation over the
      history of events.  What a call acquires and releases is counted per resource, which is how
      leaks are stated.  The environment is a parameter: nothing is assumed of the operating system
      but what a theorem names as a hypothesis.
    \<^item> \<open>Socket\<close>: every function of \<open>socket.c\<close>.  \<open>bf_connect\<close> returns, with the documented result
      codes and a descriptor open exactly on success; no descriptor leaks in any sequence of
      operations; datagram connections go to unicast addresses only; a reply goes to the sender of the
      datagram received last.
    \<^item> \<open>Record_File\<close>: every function of \<open>file.c\<close>.  Write errors are final, no stream leaks, and on a working
      file system (\<open>stdio_file\<close>, \<open>stdio_works\<close>: positions and bytes are those of a fixed content) a file is opened for appending
      exactly when it is empty or ends in a newline.
    \<^item> \<open>Child_Process\<close>: every function of \<open>process.c\<close>.  The exit status is decoded once and remembered;
      no handle leaks.
    \<^item> \<open>Web_Http\<close>: every function of \<open>http.c\<close>.  \<open>bf_web_send\<close> ends when the peer drains its side and
      then has delivered the bytes in order; only the loopback address is used; no descriptor leaks.
    \<^item> \<open>Db_Bridge\<close>: every function of \<open>sqlite.c\<close>.  No connection, statement or block leaks; the
      layout of time stamps.
    \<^item> \<open>Varint\<close>: SQLite's variable-length integers, unrolled decoders included: round trip,
      equivalence with the documented format, width, saturation of the 32-bit reader.
    \<^item> \<open>Ctype\<close>: character tables, case-insensitive comparison and hashing, dequoting.
    \<^item> \<open>IntArith\<close>: overflow-checked 64-bit arithmetic and the logarithmic estimates.
    \<^item> \<open>IntText\<close>: text in any of the three encodings to integer and back, hexadecimal blobs.
    \<^item> \<open>Hash_Table\<close>: \<open>hash.c\<close> refines a map from case-folded keys.
    \<^item> \<open>Alloc\<close>: an allocator that may fail at any call and counts the blocks in use.
    \<^item> \<open>Bitvec\<close>: \<open>bitvec.c\<close> in its three representations refines a set of integers (locale
      \<open>bounded_set\<close>), under every pattern of allocation failures.
    \<^item> \<open>Row_Set\<close>: \<open>rowset.c\<close> keeps the batch contract of its header comment (locale \<open>batch_set\<close>),
      extracts in ascending order, and builds trees of logarithmic height.
    \<^item> \<open>Complete\<close>: \<open>sqlite3_complete\<close> is equivalent to a description of statements without states.
    \<^item> \<open>Prng\<close>: the ChaCha20 generator: the example of RFC 7539, and no byte of the key stream is
      handed out twice.
    \<^item> \<open>Utf\<close>: reading and writing UTF-8 and UTF-16, translation between them, its output bound.
    \<^item> \<open>Keyword\<close>: the token codes and the overlapped, hashed keyword table; the lookup recognises
      exactly the 147 keywords.
    \<^item> \<open>Tokenize\<close>: \<open>sqlite3GetToken\<close>, the look-ahead for window keywords, and the loop of
      \<open>sqlite3RunParser\<close>: tokens stay inside the text, their types satisfy the assertions of the
      code, and the parser receives the whole text and then the closing tokens.
    \<^item> \<open>Pattern\<close>: \<open>patternCompare\<close> of \<open>LIKE\<close> and \<open>GLOB\<close>, with its early exits for a pattern that cannot match any
      later suffix, and its callers \<open>sqlite3_strglob\<close>, \<open>sqlite3_strlike\<close> and \<open>likeFunc\<close>, against a declarative meaning
      of patterns.  With an escape character that is a wildcard only \<open>likeFunc\<close> has that meaning.
    \<^item> \<open>Mem_Journal\<close>: \<open>memjournal.c\<close> behaves as a file of bytes (locale \<open>step_refinement\<close>, interpretation
      \<open>journal\<close>) under every pattern of allocation failures, and its spill to a file loses nothing.  The file
      system is an argument; a theorem about the spilled file takes \<open>writes_through\<close> as a hypothesis.
    \<^item> \<open>Row_Format\<close>: \<open>OP_MakeRecord\<close> and the readers of records: a round trip, and bounded reads of damaged
      records.  Doubles are 64-bit patterns, of which the code only copies and classifies the bits;
      \<open>double_of\<close> is the conversion of an integer.
    \<^item> \<open>Value_Order\<close>: \<open>sqlite3MemCompare\<close> and the built-in collating functions.  Integers are compared with
      doubles exactly, the comparison of cells is the documented order, and it is a total preorder
      when the collating function is one (locale \<open>comparison\<close>, interpretations \<open>binary\<close>, \<open>rtrim\<close> and \<open>nocase\<close>).
      A double stands for an integral multiple of the smallest positive one (\<open>double_value\<close>).
    \<^item> \<open>Record_Compare\<close>: the comparison of a record with a search key, and the routines
      \<open>sqlite3VdbeFindCompare\<close> chooses among, agree with the lexicographic order of the columns on every record that
      \<open>OP_MakeRecord\<close> writes.
    \<^item> \<open>Affinity\<close>: \<open>sqlite3AffinityType\<close> finds the affinity the documentation gives for a declared type.
    \<^item> \<open>Str_Accum\<close>: the string accumulator, as a log that is cut off at a fixed buffer (locale \<open>fixed_log\<close>,
      interpretation \<open>fixed\<close>) or grows until memory ends (locale \<open>growing_log\<close>, interpretation \<open>growing\<close>).
      The usable sizes and the contents of heap blocks are the argument \<open>blocks\<close>, constrained by \<open>sizes_ok\<close>: a
      block is at least as large as was asked for.
    \<^item> \<open>Format\<close>, \<open>Format_Correct\<close> and \<open>Format_Items\<close>: \<open>sqlite3_str_vappendf\<close> and the functions over it.
      \<open>Format_Correct\<close> removes the buffers: on a growing accumulator the code prints what \<open>render\<close> says, which still
      reads the flags and the arguments as the code does, or fails cleanly.  \<open>Format_Items\<close> says what formats mean: a
      format is a list of literals and directives, and the code prints the texts of the items, which are defined
      over unbounded integers and share nothing with the code.  Widths and precisions are below \<open>2 ^ 30\<close> and
      strings shorter than \<open>2 ^ 29\<close>; \<open>lp64\<close> tells whether \<open>long\<close> has 64 bits.  Two lemmas show where printing
      is not clean: \<open>percent_z_leaks\<close>, and \<open>snprintf_not_prefix\<close> for a fixed buffer.
    \<^item> This theory: quoted names pass through the tokenizer and the dequoting of \<open>Ctype\<close> unchanged, and a string
      printed by \<open>%Q\<close> is one string token.

  \<^bold>\<open>State, errors and width.\<close>  A C object is a record with the fields of its struct; a function that
  changes it returns the record.  Error codes are the integers the code returns.  Machine integers
  are words where they wrap, integers with explicit conversions (\<open>to_i32\<close>, \<open>to_i64\<close>) at system
  calls.  A zero-terminated string is the list of its bytes before the terminator, and a read at
  its end gives the terminator.  Lengths and indices of texts are natural numbers: SQLite limits
  its texts to less than \<open>2 ^ 31\<close> bytes.  The code is read as compiled on a little-endian ASCII
  machine; where it has a Windows and a POSIX branch, both are modelled and \<open>is_windows\<close> selects.

  \<^bold>\<open>Loops and fuel.\<close>  Most loops are total functions.  Those that wait for the operating system carry
  a bound and return \<open>None\<close> beyond it: \<open>bf_wait\<close> (enough when the clock advances: \<open>time_passes\<close>) and
  \<open>bf_web_send\<close> (enough when the peer drains: \<open>drains\<close>); the theorems prove that a bound exists and
  the result is \<open>Some\<close>.  \<open>sqlite3BitvecSet\<close> recurses through at most nine levels (\<open>set_fuel\<close>) and its
  probe loops take at most \<open>BITVEC_NINT\<close> turns; both are proved to suffice.  The sort of row sets uses
  forty buckets, so its theorems take fewer than \<open>2 ^ 40\<close> entries.  The keyword chains are not
  ordered by index, so their loop is shown to end by a table of the distances to the end.

  \<^bold>\<open>Memory.\<close>  Where a function writes through pointers, the model checks every access against the block it
  falls in and gives \<open>None\<close> outside it, and uninitialised bytes are an argument (\<open>junk\<close>); the theorems
  show that the result is \<open>Some\<close> and, by quantifying over the argument, that no such byte is seen.

  \<^bold>\<open>Not modelled.\<close>  \<open>crash.c\<close> only installs a handler that prints a stack trace.  Of SQLite, the pager,
  the journals on disk, B-tree, byte-code machine (but for the record format and its comparison), code generators, the generated parser's tables, JSON, full-text
  search and the operating-system layers are left out: they are mutually dependent and far larger
  than the rest of the program.  The generated parser is an argument of the token loop.  Floating-point
  arithmetic is left out, because HOL has no C doubles: of the conversions of \<open>printf.c\<close>, \<open>%f\<close>, \<open>%e\<close>
  and \<open>%g\<close> are an argument, as are \<open>%T\<close> and \<open>%S\<close>, which print objects of the parser; \<open>sqlite3AtoF\<close> is not modelled.
  Branches for EBCDIC, for debugging builds and for disabled features are not compiled and not modelled.
  The MoonBit packages are outside the C code.

  \<^bold>\<open>Plan.\<close>  What could follow: the date arithmetic, the page-cache list, the
  index of the write-ahead log, and the space allocator of B-tree pages.
\<close>

section \<open>Quoting across the tokenizer and the string routines\<close>

lemma dequote_quoted_text:
  assumes "sqlite3Isquote q"
  shows "sqlite3Dequote (quoted q s) = Some s"
  using assms dequote_loop_quoted [of "[]" "if q = 0x5b then 0x5d else q" s]
  by (simp add: sqlite3Dequote_def quoted_def Let_def)

lemma token_of_quoted:
  assumes "sqlite3Isquote q" "q \<noteq> 0x5b" "cstring s" "first rest \<noteq> q"
  shows "sqlite3GetToken (quoted q s @ rest) = (length (quoted q s), if q = 0x27 then TK_STRING else TK_ID)"
proof -
  have q: "q \<noteq> 0" using assms(1) by (auto simp: Isquote_iff)
  have "quoted q s @ rest = q # concat (map (\<lambda>c. if c = q then [c, c] else [c]) s) @ q # rest"
    using assms(2) by (simp add: quoted_def)
  then show ?thesis
    using class_quotes(1) [OF assms(1,2)] quote_loop_quoted [OF q assms(4,3), of 1] assms(2) q
    by (simp add: sqlite3GetToken_def CC_defs quote_token_def quoted_def)
qed

text \<open>
  C40.  Quoted names survive SQL: the tokenizer reads a name in any of the four quoting styles as one
  token, a string for the apostrophe and an identifier for the others, whatever the name holds and
  whatever follows, and \<open>sqlite3Dequote\<close> of the token is the name.  In the bracket style the name must
  not hold a closing bracket: the tokenizer does not know the doubled bracket that
  \<open>sqlite3Dequote\<close> accepts.
\<close>
theorem quoted_token_roundtrip:
  assumes "sqlite3Isquote q" "cstring s" "first rest \<noteq> q" "q = 0x5b \<longrightarrow> 0x5d \<notin> set s"
  shows "sqlite3GetToken (quoted q s @ rest) = (length (quoted q s), if q = 0x27 then TK_STRING else TK_ID)
    \<and> sqlite3Dequote (take (fst (sqlite3GetToken (quoted q s @ rest))) (quoted q s @ rest)) = Some s"
proof -
  have "sqlite3GetToken (quoted q s @ rest) = (length (quoted q s), if q = 0x27 then TK_STRING else TK_ID)"
  proof (cases "q = 0x5b")
    case False
    then show ?thesis using token_of_quoted [OF assms(1) _ assms(2,3)] by blast
  next
    case True
    then have "0x5d \<notin> set s" using assms(4) by simp
    then have "concat (map (\<lambda>c. if c = 0x5d then [c, c] else [c]) s) = s" by (induction s) auto
    then have "quoted q s = 0x5b # s @ [0x5d]" using True by (simp add: quoted_def)
    then show ?thesis
      using class_quotes(2) bracket_loop_quoted [OF assms(2) \<open>0x5d \<notin> set s\<close>, of "0x5b" rest 1] True
      by (simp add: sqlite3GetToken_def CC_defs bracket_token_def)
  qed
  then show ?thesis using dequote_quoted_text [OF assms(1)] by simp
qed

theorem quoted_token_roundtrip_witness:
  "sqlite3GetToken (quoted 0x22 (ascii ''a\"b'') @ ascii '' c'') = (6, TK_ID)"
  using quoted_token_roundtrip [of "0x22" "ascii ''a\"b''" "ascii '' c''"]
  by (simp add: ascii_def Isquote_iff quoted_def)

section \<open>Strings printed into SQL\<close>

lemma text_before_terminator:
  assumes "take (length t + 1) b = t @ [0]" "cstring t"
  shows "takeWhile (\<lambda>c. c \<noteq> 0) b = t"
proof -
  have "b = t @ 0 # drop (length t + 1) b" using assms(1) append_take_drop_id [of "length t + 1" b] by simp
  moreover have "\<forall>c \<in> set t. c \<noteq> 0" using assms(2) by (auto simp: cstring_def)
  ultimately show ?thesis by (metis (mono_tags, lifting) append_Nil2 takeWhile_append2 takeWhile.simps(2))
qed

lemma cstring_doubled: "q \<noteq> 0 \<Longrightarrow> cstring s \<Longrightarrow> cstring (doubled q s)"
  by (auto simp: cstring_def doubled_def split: if_splits)

text \<open>
  C37. Strings cannot break out of the SQL they are printed into.  \<open>sqlite3_mprintf("%Q", s)\<close> returns; the text it gives is read by
  the tokenizer as one string token, whatever \<open>s\<close> holds and whatever follows but another apostrophe, and
  dequoting the token gives \<open>s\<close> back.  It gives no text only if memory is short or the text near the length limit.
\<close>
theorem printed_string_is_one_token:
  assumes "sizes_ok M" "cstring s" "length s < 2 ^ 29" "first rest \<noteq> 0x27"
  shows "\<exists>z w'. sqlite3_vmprintf M lp64 X [0x25, 0x51] [Arg_Text (Some s)] w = Some (z, w')
    \<and> (z = None \<longrightarrow> 1000000000 \<le> length (quoted 0x27 s) + 12 \<or> \<not> plenty (world.heap w))
    \<and> (\<forall>b. z = Some b \<longrightarrow> (let t = takeWhile (\<lambda>c. c \<noteq> 0) b in
          sqlite3GetToken (t @ rest) = (length t, TK_STRING) \<and> sqlite3Dequote t = Some s))"
proof -
  have q: "sqlite3Isquote 0x27" by (simp add: Isquote_iff)
  have out: "0x27 # doubled 0x27 s @ [0x27] = quoted 0x27 s" by (simp add: quoted_def doubled_def)
  obtain z w' where z: "sqlite3_vmprintf M lp64 X [0x25, 0x51] [Arg_Text (Some s)] w = Some (z, w')"
      "\<forall>b. z = Some b \<longrightarrow> take (length (quoted 0x27 s) + 1) b = quoted 0x27 s @ [0]"
      "z = None \<longrightarrow> 1000000000 \<le> length (quoted 0x27 s) + 12 \<or> \<not> plenty (world.heap w)"
    using vmprintf_prints [OF assms(1) _ render_Q [OF assms(3)], of lp64 X w] out by (auto simp: quoted_def)
  have "cstring (quoted 0x27 s)" unfolding out [symmetric] using cstring_doubled [of "0x27" s] assms(2) by (auto simp: cstring_def)
  then have "takeWhile (\<lambda>c. c \<noteq> 0) b = quoted 0x27 s" if "z = Some b" for b
    using text_before_terminator z(2) that by blast
  then show ?thesis
    using z(1,3) token_of_quoted [OF q _ assms(2,4)] dequote_quoted_text [OF q, of s] by simp
qed

theorem printed_string_is_one_token_witness:
  "\<exists>z w'. sqlite3_vmprintf exact_blocks True (\<lambda>_ _ _ _ _ _. None) [0x25, 0x51] [Arg_Text (Some [0x69, 0x27, 0x73])] fresh_world = Some (z, w')
    \<and> (\<forall>b. z = Some b \<longrightarrow> sqlite3Dequote (takeWhile (\<lambda>c. c \<noteq> 0) b) = Some [0x69, 0x27, 0x73])"
  using printed_string_is_one_token [of exact_blocks "[0x69, 0x27, 0x73]" "[]" True "\<lambda>_ _ _ _ _ _. None" fresh_world] exact_blocks_ok
  by (auto simp: Let_def)

end
